(* ===== verification/Prelude.thy ===== *)
theory Prelude
  imports Main "HOL-Library.Word" "HOL-Library.Char_ord" "HOL-Library.List_Lexorder"
    "HOL-Library.Product_Lexorder"
begin

text \<open>
  Shared vocabulary of the development: Rust results, fallible effectful
  computations over an explicit world state with a small postcondition calculus,
  byte strings with big-endian integers, slices, and checked machine arithmetic on
  naturals. Nothing in this theory models a particular file of the repository.
\<close>

unbundle bit_operations_syntax

named_theorems post_simps
named_theorems byte_simps

section \<open>Results and effectful computations\<close>

text \<open>Rust's \<open>Result\<close>: every error return of the source is an \<open>Err\<close> value.\<close>

datatype ('a, 'e) result = Ok 'a | Err 'e

definition res_bind :: "('a, 'e) result \<Rightarrow> ('a \<Rightarrow> ('b, 'e) result) \<Rightarrow> ('b, 'e) result" where
  "res_bind r f = (case r of Ok x \<Rightarrow> f x | Err e \<Rightarrow> Err e)"

definition ok_or :: "'e \<Rightarrow> 'a option \<Rightarrow> ('a, 'e) result" where
  "ok_or e x = (case x of Some a \<Rightarrow> Ok a | None \<Rightarrow> Err e)"

text \<open>
  A computation that may fail and that changes the world \<open>'s\<close> (a remote store, a
  clock, a file system). The world is returned in the error case too: a failed call
  may have had an effect.
\<close>

type_synonym ('s, 'a, 'e) io = "'s \<Rightarrow> ('a, 'e) result \<times> 's"

definition io_return :: "'a \<Rightarrow> ('s, 'a, 'e) io" where
  "io_return x s = (Ok x, s)"

definition io_throw :: "'e \<Rightarrow> ('s, 'a, 'e) io" where
  "io_throw e s = (Err e, s)"

definition io_lift :: "('a, 'e) result \<Rightarrow> ('s, 'a, 'e) io" where
  "io_lift r s = (r, s)"

definition io_bind :: "('s, 'a, 'e) io \<Rightarrow> ('a \<Rightarrow> ('s, 'b, 'e) io) \<Rightarrow> ('s, 'b, 'e) io" where
  "io_bind m f s = (case m s of (Ok x, s') \<Rightarrow> f x s' | (Err e, s') \<Rightarrow> (Err e, s'))"

definition io_map_err :: "('e \<Rightarrow> 'f) \<Rightarrow> ('s, 'a, 'e) io \<Rightarrow> ('s, 'a, 'f) io" where
  "io_map_err g m s = (case m s of (Ok x, s') \<Rightarrow> (Ok x, s') | (Err e, s') \<Rightarrow> (Err (g e), s'))"

text \<open>
  \<open>post m Q E s\<close>: run from \<open>s\<close>, a success satisfies \<open>Q\<close> and a failure
  satisfies \<open>E\<close>. The equations below compute it through the combinators, so that
  the proof about a handler is a case analysis on the outcomes of the calls it makes.
\<close>

definition post ::
  "('s, 'a, 'e) io \<Rightarrow> ('a \<Rightarrow> 's \<Rightarrow> bool) \<Rightarrow> ('e \<Rightarrow> 's \<Rightarrow> bool) \<Rightarrow> 's \<Rightarrow> bool" where
  "post m Q E s = (case m s of (Ok x, s') \<Rightarrow> Q x s' | (Err e, s') \<Rightarrow> E e s')"

lemma post_return [post_simps]: "post (io_return x) Q E = Q x"
  by (rule ext) (simp add: post_def io_return_def)

lemma post_throw [post_simps]: "post (io_throw e) Q E s = E e s"
  by (simp add: post_def io_throw_def)

lemma post_lift [post_simps]:
  "post (io_lift r) Q E s = (case r of Ok x \<Rightarrow> Q x s | Err e \<Rightarrow> E e s)"
  by (simp add: post_def io_lift_def)

lemma post_bind [post_simps]:
  "post (io_bind m f) Q E s = post m (\<lambda>x. post (f x) Q E) E s"
  by (simp add: post_def io_bind_def split: prod.split result.split)

lemma post_map_err [post_simps]: "post (io_map_err g m) Q E s = post m Q (\<lambda>e. E (g e)) s"
  by (simp add: post_def io_map_err_def split: prod.split result.split)

lemma post_if [post_simps]:
  "post (if b then m else n) Q E s = (if b then post m Q E s else post n Q E s)"
  by simp

lemma post_mono:
  assumes "post m Q E s" "\<And>x t. Q x t \<Longrightarrow> Q' x t" "\<And>e t. E e t \<Longrightarrow> E' e t"
  shows "post m Q' E' s"
  using assms by (auto simp: post_def split: prod.splits result.splits)

lemma post_conj:
  assumes "post m Q E s" "post m Q' E' s"
  shows "post m (\<lambda>x t. Q x t \<and> Q' x t) (\<lambda>e t. E e t \<and> E' e t) s"
  using assms by (auto simp: post_def split: prod.splits result.splits)

lemma post_run: "post m Q E s \<Longrightarrow> m s = (Ok x, s') \<Longrightarrow> Q x s'"
  by (simp add: post_def)

lemma post_run_err: "post m Q E s \<Longrightarrow> m s = (Err e, s') \<Longrightarrow> E e s'"
  by (simp add: post_def)

lemma postI:
  assumes "\<And>x t. m s = (Ok x, t) \<Longrightarrow> Q x t" "\<And>e t. m s = (Err e, t) \<Longrightarrow> E e t"
  shows "post m Q E s"
  using assms by (auto simp: post_def split: prod.splits result.splits)

text \<open>A computation that only looks at the world.\<close>

lemma post_read: "post (\<lambda>s. (Ok (f s), s)) Q E s = Q (f s) s"
  by (simp add: post_def)

text \<open>A call about which nothing is known.\<close>

lemma post_any: "(\<And>x t. Q x t) \<Longrightarrow> post m Q (\<lambda>_ _. True) s"
  by (auto simp: post_def split: prod.split result.split)

lemma io_bind_Ok [simp]: "m s = (Ok x, s') \<Longrightarrow> io_bind m f s = f x s'"
  by (simp add: io_bind_def)

lemma io_bind_Err [simp]: "m s = (Err e, s') \<Longrightarrow> io_bind m f s = (Err e, s')"
  by (simp add: io_bind_def)

lemma ok_or_Some [simp]: "ok_or e (Some x) = Ok x"
  by (simp add: ok_or_def)

lemma ok_or_None [simp]: "ok_or e None = Err e"
  by (simp add: ok_or_def)

lemma io_bind_return_Ok: "io_bind (io_lift (Ok x)) f = f x"
  by (rule ext) (simp add: io_bind_def io_lift_def)

lemma io_bind_OkE:
  assumes "io_bind m f s = (Ok y, t)"
  obtains x s' where "m s = (Ok x, s')" "f x s' = (Ok y, t)"
  using assms by (auto simp: io_bind_def split: prod.splits result.splits)

text \<open>
  Methods with \<open>&mut self\<close> are computations over the object and the world together.
\<close>

definition lift_world :: "('s, 'a, 'e) io \<Rightarrow> ('v \<times> 's, 'a, 'e) io" where
  "lift_world m = (\<lambda>(v, s). case m s of (r, s') \<Rightarrow> (r, (v, s')))"

definition get_self :: "('v \<times> 's, 'v, 'e) io" where
  "get_self vs = (Ok (fst vs), vs)"

definition set_self :: "'v \<Rightarrow> ('v \<times> 's, unit, 'e) io" where
  "set_self v vs = (Ok (), (v, snd vs))"

lemma post_lift_world [post_simps]:
  "post (lift_world m) Q E (v, s) = post m (\<lambda>x s'. Q x (v, s')) (\<lambda>e s'. E e (v, s')) s"
  by (simp add: post_def lift_world_def split: prod.split)

lemma post_get_self [post_simps]: "post get_self Q E vs = Q (fst vs) vs"
  by (simp add: post_def get_self_def)

lemma post_set_self [post_simps]: "post (set_self v) Q E vs = Q () (v, snd vs)"
  by (simp add: post_def set_self_def)

lemmas io_defs = io_return_def io_throw_def io_lift_def

section \<open>Bytes\<close>

type_synonym byte = "8 word"
type_synonym bytes = "byte list"

text \<open>The slice \<open>bs[a..b]\<close>, and \<open>bs[at..at + src.len()].copy_from_slice(src)\<close>.\<close>

definition slice_of :: "'a list \<Rightarrow> nat \<Rightarrow> nat \<Rightarrow> 'a list" where
  "slice_of bs a b = take (b - a) (drop a bs)"

definition copy_at :: "'a list \<Rightarrow> nat \<Rightarrow> 'a list \<Rightarrow> 'a list" where
  "copy_at bs at src = take at bs @ src @ drop (at + length src) bs"

definition zeros :: "nat \<Rightarrow> bytes" where
  "zeros n = replicate n 0"

definition all_zero :: "bytes \<Rightarrow> bool" where
  "all_zero bs = list_all (\<lambda>b. b = 0) bs"

lemma length_slice_of [simp]: "b \<le> length bs \<Longrightarrow> length (slice_of bs a b) = b - a"
  by (simp add: slice_of_def)

lemma nth_slice_of [simp]:
  "i < b - a \<Longrightarrow> b \<le> length bs \<Longrightarrow> slice_of bs a b ! i = bs ! (a + i)"
  by (simp add: slice_of_def)

lemma length_copy_at [simp]:
  "at + length src \<le> length bs \<Longrightarrow> length (copy_at bs at src) = length bs"
  by (simp add: copy_at_def)

lemma nth_copy_at:
  assumes "at + length src \<le> length bs" "i < length bs"
  shows "copy_at bs at src ! i =
    (if at \<le> i \<and> i < at + length src then src ! (i - at) else bs ! i)"
  using assms by (auto simp: copy_at_def nth_append)

lemma slice_of_copy_at_same [simp]:
  "at + length src \<le> length bs \<Longrightarrow> slice_of (copy_at bs at src) at (at + length src) = src"
  by (simp add: slice_of_def copy_at_def)

lemma slice_of_copy_at_other:
  assumes "at + length src \<le> length bs" "b \<le> length bs" "b \<le> at \<or> at + length src \<le> a"
  shows "slice_of (copy_at bs at src) a b = slice_of bs a b"
  using assms by (auto intro!: nth_equalityI simp: nth_copy_at)

lemma length_zeros [simp]: "length (zeros n) = n"
  by (simp add: zeros_def)

lemma nth_zeros [simp]: "i < n \<Longrightarrow> zeros n ! i = 0"
  by (simp add: zeros_def)

lemma all_zero_iff: "all_zero bs \<longleftrightarrow> bs = zeros (length bs)"
  by (induction bs) (auto simp: all_zero_def zeros_def)

lemma all_zero_zeros [simp]: "all_zero (zeros n)"
  by (simp add: all_zero_iff)

lemma slice_of_zeros [simp]: "b \<le> n \<Longrightarrow> slice_of (zeros n) a b = zeros (b - a)"
  by (simp add: slice_of_def zeros_def)

subsection \<open>Big-endian integers\<close>

text \<open>\<open>to_be_bytes\<close> of an \<open>n\<close>-byte unsigned integer and \<open>from_be_bytes\<close>.\<close>

fun be_bytes :: "nat \<Rightarrow> nat \<Rightarrow> bytes" where
  "be_bytes 0 x = []"
| "be_bytes (Suc n) x = be_bytes n (x div 256) @ [word_of_nat (x mod 256)]"

definition be_nat :: "bytes \<Rightarrow> nat" where
  "be_nat bs = foldl (\<lambda>a b. a * 256 + unat b) 0 bs"

lemma be_nat_Nil [simp]: "be_nat [] = 0"
  by (simp add: be_nat_def)

lemma be_nat_snoc [simp]: "be_nat (bs @ [b]) = be_nat bs * 256 + unat b"
  by (simp add: be_nat_def)

lemma length_be_bytes [simp]: "length (be_bytes n x) = n"
  by (induction n arbitrary: x) auto

lemma unat_byte_less [simp]: "unat (b :: byte) < 256"
  using unsigned_less [of b] by simp

lemma unat_byte_of_nat [simp]: "x < 256 \<Longrightarrow> unat (word_of_nat x :: byte) = x"
  by (simp add: unat_of_nat)

lemma be_nat_bytes: "be_nat (be_bytes n x) = x mod 256 ^ n"
proof (induction n arbitrary: x)
  case 0
  then show ?case by simp
next
  case (Suc n)
  have "x mod 256 ^ Suc n = (x div 256 mod 256 ^ n) * 256 + x mod 256"
    using mod_mult2_eq[of x 256 "256 ^ n"] by (simp add: mult.commute add.commute)
  then show ?case
    by (simp add: Suc)
qed

lemma be_nat_less: "be_nat bs < 256 ^ length bs"
proof (induction bs rule: rev_induct)
  case Nil
  then show ?case by simp
next
  case (snoc b bs)
  have "be_nat bs * 256 + unat b < (be_nat bs + 1) * 256" by simp
  also have "\<dots> \<le> 256 ^ length bs * 256"
    using snoc by (intro mult_right_mono) simp_all
  finally show ?case by (simp add: mult.commute)
qed

lemma be_bytes_nat: "be_bytes (length bs) (be_nat bs) = bs"
proof (induction bs rule: rev_induct)
  case Nil
  then show ?case by simp
next
  case (snoc b bs)
  have "unat b < 256" by simp
  then have "(be_nat bs * 256 + unat b) div 256 = be_nat bs"
    "(be_nat bs * 256 + unat b) mod 256 = unat b"
    by simp_all
  with snoc show ?case by simp
qed

lemma be_nat_bytes_id [byte_simps]: "x < 256 ^ n \<Longrightarrow> be_nat (be_bytes n x) = x"
  by (simp add: be_nat_bytes)

subsection \<open>Checked arithmetic\<close>

text \<open>Unsigned 64-bit quantities are naturals; the overflow checks of the source are explicit.\<close>

definition U64 :: nat where "U64 = 2 ^ 64"

definition checked_add :: "nat \<Rightarrow> nat \<Rightarrow> nat option" where
  "checked_add a b = (if a + b < U64 then Some (a + b) else None)"

definition div_ceil :: "nat \<Rightarrow> nat \<Rightarrow> nat" where
  "div_ceil a b = (if a mod b = 0 then a div b else Suc (a div b))"

lemma checked_add_Some [simp]: "checked_add a b = Some c \<longleftrightarrow> a + b < U64 \<and> c = a + b"
  by (auto simp: checked_add_def)

lemma checked_add_None [simp]: "checked_add a b = None \<longleftrightarrow> U64 \<le> a + b"
  by (auto simp: checked_add_def)

section \<open>Identifiers and hexadecimal digests\<close>

definition ascii_digit :: "char \<Rightarrow> bool" where
  "ascii_digit c = (CHR ''0'' \<le> c \<and> c \<le> CHR ''9'')"

definition ascii_alphanumeric :: "char \<Rightarrow> bool" where
  "ascii_alphanumeric c = (ascii_digit c \<or> (CHR ''a'' \<le> c \<and> c \<le> CHR ''z'')
     \<or> (CHR ''A'' \<le> c \<and> c \<le> CHR ''Z''))"

subsection \<open>Decimal numbers\<close>

text \<open>\<open>format!("{}", n)\<close> of an unsigned integer.\<close>

definition digit_char :: "nat \<Rightarrow> char" where
  "digit_char d = char_of (48 + d)"

fun show_nat :: "nat \<Rightarrow> string" where
  "show_nat n = (if n < 10 then [digit_char n] else show_nat (n div 10) @ [digit_char (n mod 10)])"

declare show_nat.simps [simp del]

definition read_nat :: "string \<Rightarrow> nat" where
  "read_nat s = foldl (\<lambda>a c. a * 10 + (of_char c - 48)) 0 s"

lemma of_digit_char: "d < 10 \<Longrightarrow> of_char (digit_char d) = 48 + d"
  by (simp add: digit_char_def)

lemma read_show_nat: "read_nat (show_nat n) = n"
proof (induction n rule: show_nat.induct)
  case (1 n)
  have "of_char (digit_char (n mod 10)) - 48 = n mod 10"
    by (simp add: of_digit_char)
  with 1 show ?case
    by (subst show_nat.simps) (simp add: read_nat_def of_digit_char)
qed

lemma show_nat_inject [simp]: "show_nat a = show_nat b \<longleftrightarrow> a = b"
  by (metis read_show_nat)

end
