(* ===== verification/Proto.thy ===== *)
theory Proto
  imports Prelude
begin

text \<open>
  The agent wire protocol, version 2 (\<open>rust/ahvm-proto\<close>): a frame is a 32-bit
  big-endian length, a byte holding the protocol version and the message class, and a
  payload. The reader is Rust's \<open>Read\<close>: it may deliver the stream in pieces of any
  size, be interrupted, end, or fail. The main results are that the loop reading
  exactly \<open>n\<close> bytes does not depend on how the stream is cut into pieces, that
  \<open>read_frame\<close> computes the reference decoder of the byte string, and the round
  trip with \<open>write_frame\<close>.
\<close>

section \<open>Readers\<close>

datatype io_error = Interrupted | IoOther nat

datatype read_event = Data bytes | Interrupt | Fail nat

type_synonym reader = "read_event list"

text \<open>
  One call of \<open>Read::read\<close> on a buffer of \<open>k\<close> bytes; at the end of the event list
  the stream has ended and the call returns zero bytes.
\<close>

fun read_some :: "nat \<Rightarrow> reader \<Rightarrow> (bytes, io_error) result \<times> reader" where
  "read_some k [] = (Ok [], [])"
| "read_some k (Data bs # es) =
     (Ok (take k bs), if drop k bs = [] then es else Data (drop k bs) # es)"
| "read_some k (Interrupt # es) = (Err Interrupted, es)"
| "read_some k (Fail n # es) = (Err (IoOther n), es)"

datatype frame_error =
    Io io_error
  | CleanEof
  | ZeroLength
  | TooLarge "32 word"
  | UnknownVersion byte
  | UnknownType byte
  | UnexpectedEof

text \<open>The loop of \<open>read_exact_eof\<close>: \<open>left\<close> bytes of the buffer are still empty.\<close>

function read_exact_loop :: "nat \<Rightarrow> bool \<Rightarrow> bytes \<Rightarrow> reader \<Rightarrow> (bytes, frame_error) result \<times> reader" where
  "read_exact_loop left got_any acc r =
     (if left = 0 then (Ok acc, r)
      else case read_some left r of
        (Ok bs, r') \<Rightarrow>
          if bs = [] then (Err (if got_any then UnexpectedEof else CleanEof), r')
          else read_exact_loop (left - length bs) True (acc @ bs) r'
      | (Err Interrupted, r') \<Rightarrow> read_exact_loop left got_any acc r'
      | (Err e, r') \<Rightarrow> (Err (Io e), r'))"
  by pat_completeness auto

lemma read_some_shrinks:
  "read_some k r = (Ok bs, r') \<Longrightarrow> length r' \<le> length r"
  "read_some k r = (Err e, r') \<Longrightarrow> length r' < length r"
  by (induction k r rule: read_some.induct) (auto split: if_splits)

termination read_exact_loop
proof (relation "measure (\<lambda>(left, got, acc, r). left + length r)", goal_cases)
  case 1
  then show ?case by simp
next
  case (2 left got acc r x r' bs)
  then have "length r' \<le> length r"
    by (metis read_some_shrinks(1))
  with 2 show ?case
    by (cases bs) auto
next
  case (3 left got acc r x r' e)
  then have "length r' < length r"
    by (metis read_some_shrinks(2))
  then show ?case by simp
qed

declare read_exact_loop.simps [simp del]

definition read_exact_eof :: "nat \<Rightarrow> reader \<Rightarrow> (bytes, frame_error) result \<times> reader" where
  "read_exact_eof n r = read_exact_loop n False [] r"

section \<open>Frames\<close>

datatype frame_type =
    ExecReq | Auth | ConfigReq | ConfigResp | ExecResp | ErrorMsg | FileReq | FileResp
  | SessionReq | SessionResp | SessionData | ForwardReq | ForwardResp | FileData | FileCommit

record frame =
  msg_type :: frame_type
  payload :: bytes

definition PROTOCOL_VERSION :: byte where "PROTOCOL_VERSION = 2"

definition MAX_FRAME_SIZE :: "32 word" where "MAX_FRAME_SIZE = push_bit 20 1"

fun type_nibble :: "frame_type \<Rightarrow> byte" where
  "type_nibble ExecReq = 0x0"
| "type_nibble Auth = 0x1"
| "type_nibble ConfigReq = 0x2"
| "type_nibble ConfigResp = 0x3"
| "type_nibble ExecResp = 0x4"
| "type_nibble ErrorMsg = 0x5"
| "type_nibble FileReq = 0x6"
| "type_nibble FileResp = 0x7"
| "type_nibble SessionReq = 0x8"
| "type_nibble SessionResp = 0x9"
| "type_nibble SessionData = 0xA"
| "type_nibble ForwardReq = 0xB"
| "type_nibble ForwardResp = 0xC"
| "type_nibble FileData = 0xD"
| "type_nibble FileCommit = 0xE"

definition from_nibble :: "byte \<Rightarrow> frame_type option" where
  "from_nibble n =
     (if n = 0x0 then Some ExecReq else if n = 0x1 then Some Auth
      else if n = 0x2 then Some ConfigReq else if n = 0x3 then Some ConfigResp
      else if n = 0x4 then Some ExecResp else if n = 0x5 then Some ErrorMsg
      else if n = 0x6 then Some FileReq else if n = 0x7 then Some FileResp
      else if n = 0x8 then Some SessionReq else if n = 0x9 then Some SessionResp
      else if n = 0xA then Some SessionData else if n = 0xB then Some ForwardReq
      else if n = 0xC then Some ForwardResp else if n = 0xD then Some FileData
      else if n = 0xE then Some FileCommit else None)"

text \<open>
  \<open>1 + frame.payload.len() as u32\<close>: the cast keeps the low 32 bits of the length and
  the addition wraps.
\<close>

definition body_len :: "frame \<Rightarrow> 32 word" where
  "body_len f = 1 + word_of_nat (length (payload f))"

definition frame_bytes :: "frame \<Rightarrow> bytes" where
  "frame_bytes f = be_bytes 4 (unat (body_len f))
     @ [push_bit 4 PROTOCOL_VERSION OR type_nibble (msg_type f)] @ payload f"

text \<open>\<open>write_frame\<close> on a writer given by its \<open>write_all\<close>.\<close>

definition write_frame ::
  "(bytes \<Rightarrow> ('s, unit, io_error) io) \<Rightarrow> frame \<Rightarrow> ('s, unit, frame_error) io" where
  "write_frame write_all f =
     (if MAX_FRAME_SIZE < body_len f then io_throw (TooLarge (body_len f))
      else io_map_err Io (write_all (frame_bytes f)))"

definition parse_body :: "bytes \<Rightarrow> (frame, frame_error) result" where
  "parse_body body =
     (let b = hd body; ver = drop_bit 4 b in
      if ver \<noteq> PROTOCOL_VERSION then Err (UnknownVersion ver)
      else case from_nibble (b AND 0x0f) of
        None \<Rightarrow> Err (UnknownType b)
      | Some t \<Rightarrow> Ok \<lparr>msg_type = t, payload = tl body\<rparr>)"

definition read_frame :: "reader \<Rightarrow> (frame, frame_error) result \<times> reader" where
  "read_frame r =
     (case read_exact_eof 4 r of
        (Err e, r1) \<Rightarrow> (Err e, r1)
      | (Ok len_buf, r1) \<Rightarrow>
          let body_len = (word_of_nat (be_nat len_buf) :: 32 word) in
          if body_len = 0 then (Err ZeroLength, r1)
          else if MAX_FRAME_SIZE < body_len then (Err (TooLarge body_len), r1)
          else case read_exact_eof (unat body_len) r1 of
            (Err CleanEof, r2) \<Rightarrow> (Err UnexpectedEof, r2)
          | (Err e, r2) \<Rightarrow> (Err e, r2)
          | (Ok body, r2) \<Rightarrow> (parse_body body, r2))"

text \<open>Host-authorized TCP exceptions (\<open>valid_private_endpoint\<close>).\<close>

type_synonym ipv4 = "byte \<times> byte \<times> byte \<times> byte"

definition valid_private_endpoint :: "ipv4 \<Rightarrow> 16 word \<Rightarrow> bool" where
  "valid_private_endpoint ip port =
     (case ip of (a, b, _, _) \<Rightarrow>
        port \<noteq> 0
        \<and> \<not> (a = 0 \<or> 224 \<le> a)
        \<and> \<not> (a = 169 \<and> b = 254)
        \<and> \<not> (a = 100 \<and> 64 \<le> b \<and> b \<le> 127))"

section \<open>Reading is independent of the pieces\<close>

fun content :: "reader \<Rightarrow> bytes" where
  "content [] = []"
| "content (Data bs # es) = bs @ content es"
| "content (Interrupt # es) = content es"
| "content (Fail n # es) = []"

text \<open>A reader that does not fail; \<open>read\<close> never returns zero bytes before the end.\<close>

fun healthy :: "reader \<Rightarrow> bool" where
  "healthy [] = True"
| "healthy (Data bs # es) = (bs \<noteq> [] \<and> healthy es)"
| "healthy (Interrupt # es) = healthy es"
| "healthy (Fail n # es) = False"

lemma read_some_healthy:
  assumes "healthy r" "read_some k r = (Ok bs, r')" "0 < k"
  shows "healthy r'" "content r = bs @ content r'" "length bs \<le> k" "bs = [] \<longleftrightarrow> content r = []"
  using assms by (induction k r rule: read_some.induct) (auto split: if_splits)

lemma read_some_interrupt:
  assumes "healthy r" "read_some k r = (Err e, r')"
  shows "e = Interrupted" "healthy r'" "content r' = content r"
  using assms by (induction k r rule: read_some.induct) auto

lemma read_exact_loop_healthy:
  assumes "healthy r"
  shows "if left \<le> length (content r)
    then \<exists>r'. read_exact_loop left got acc r = (Ok (acc @ take left (content r)), r')
           \<and> healthy r' \<and> content r' = drop left (content r)
    else \<exists>r'. read_exact_loop left got acc r =
           (Err (if got \<or> content r \<noteq> [] then UnexpectedEof else CleanEof), r')"
  using assms
proof (induction left got acc r rule: read_exact_loop.induct)
  case (1 left got acc r)
  show ?case
  proof (cases "left = 0")
    case True
    with 1 show ?thesis by (simp add: read_exact_loop.simps)
  next
    case pos: False
    obtain x r' where x: "read_some left r = (x, r')" by fastforce
    show ?thesis
    proof (cases x)
      case (Ok bs)
      with x have rs: "read_some left r = (Ok bs, r')" by simp
      note h = read_some_healthy [OF 1(3) rs] pos
      show ?thesis
      proof (cases "bs = []")
        case True
        with h(4) pos have "content r = []" by simp
        with True rs pos show ?thesis
          by (simp add: read_exact_loop.simps [of left got acc r])
      next
        case False
        have hr: "healthy r'" "content r = bs @ content r'" "length bs \<le> left"
          using h(1-3) pos by simp_all
        note IH = 1(1) [OF pos rs [symmetric] refl False hr(1)]
        have "left \<le> length (content r) \<longleftrightarrow> left - length bs \<le> length (content r')"
          using hr by auto
        with IH rs pos False hr show ?thesis
          by (simp add: read_exact_loop.simps [of left got acc r] split: if_splits)
      qed
    next
      case (Err e)
      with x have rs: "read_some left r = (Err e, r')" by simp
      note h = read_some_interrupt [OF 1(3) rs]
      have "healthy r'" using h by simp
      note IH = 1(2) [OF pos rs [symmetric, unfolded h(1)] refl refl this]
      have "read_exact_loop left got acc r = read_exact_loop left got acc r'"
        using rs pos h(1) by (simp add: read_exact_loop.simps [of left got acc r])
      with IH h(3) show ?thesis by (simp only:)
    qed
  qed
qed

lemma read_exact_healthy:
  assumes "healthy r"
  shows "n \<le> length (content r) \<Longrightarrow>
      \<exists>r'. read_exact_eof n r = (Ok (take n (content r)), r') \<and> healthy r' \<and> content r' = drop n (content r)"
    and "length (content r) < n \<Longrightarrow>
      \<exists>r'. read_exact_eof n r = (Err (if content r \<noteq> [] then UnexpectedEof else CleanEof), r')"
  using read_exact_loop_healthy [OF assms, of n False "[]"]
  by (auto simp: read_exact_eof_def split: if_splits)

section \<open>The decoder\<close>

text \<open>The reference decoder of a byte string, without a reader.\<close>

definition decode_spec :: "bytes \<Rightarrow> (frame \<times> bytes, frame_error) result" where
  "decode_spec bs =
     (if bs = [] then Err CleanEof
      else if length bs < 4 then Err UnexpectedEof
      else let n = be_nat (take 4 bs); rest = drop 4 bs in
        if n = 0 then Err ZeroLength
        else if 2 ^ 20 < n then Err (TooLarge (word_of_nat n))
        else if length rest < n then Err UnexpectedEof
        else case parse_body (take n rest) of
          Err e \<Rightarrow> Err e
        | Ok f \<Rightarrow> Ok (f, drop n rest))"

lemma unat_max_frame [simp]: "unat MAX_FRAME_SIZE = 2 ^ 20"
  by (simp add: MAX_FRAME_SIZE_def)

lemma unat_len_word:
  assumes "n < 2 ^ 32"
  shows "unat (word_of_nat n :: 32 word) = n"
    and "(word_of_nat n :: 32 word) = 0 \<longleftrightarrow> n = 0"
    and "MAX_FRAME_SIZE < (word_of_nat n :: 32 word) \<longleftrightarrow> 2 ^ 20 < n"
proof -
  show u: "unat (word_of_nat n :: 32 word) = n"
    using assms by (simp add: unat_of_nat)
  show "(word_of_nat n :: 32 word) = 0 \<longleftrightarrow> n = 0"
    using u by (metis unat_eq_zero)
  show "MAX_FRAME_SIZE < (word_of_nat n :: 32 word) \<longleftrightarrow> 2 ^ 20 < n"
    using u by (simp add: word_less_nat_alt)
qed

lemma be_nat_4_less: "length bs = 4 \<Longrightarrow> be_nat bs < 2 ^ 32"
  using be_nat_less [of bs] by simp

lemma read_frame_spec_aux:
  assumes "healthy r"
  shows "case decode_spec (content r) of
      Ok (f, rest) \<Rightarrow> \<exists>r'. read_frame r = (Ok f, r') \<and> healthy r' \<and> content r' = rest
    | Err e \<Rightarrow> \<exists>r'. read_frame r = (Err e, r')"
proof (cases "4 \<le> length (content r)")
  case False
  then obtain r' where "read_exact_eof 4 r = (Err (if content r \<noteq> [] then UnexpectedEof else CleanEof), r')"
    using read_exact_healthy(2) [OF assms, of 4] by auto
  with False show ?thesis
    by (auto simp: read_frame_def decode_spec_def)
next
  case True
  let ?n = "be_nat (take 4 (content r))"
  have len: "?n < 2 ^ 32"
    using True by (intro be_nat_4_less) simp
  obtain r1 where r1: "read_exact_eof 4 r = (Ok (take 4 (content r)), r1)"
    and h1: "healthy r1" and c1: "content r1 = drop 4 (content r)"
    using read_exact_healthy(1) [OF assms True] by auto
  have ne: "content r \<noteq> []" using True by auto
  consider (bad) "?n = 0 \<or> 2 ^ 20 < ?n"
    | (short) "0 < ?n" "?n \<le> 2 ^ 20" "length (content r1) < ?n"
    | (full) "0 < ?n" "?n \<le> 2 ^ 20" "?n \<le> length (content r1)"
    by linarith
  then show ?thesis
  proof cases
    case bad
    with True ne r1 len show ?thesis
      by (auto simp: read_frame_def decode_spec_def Let_def unat_len_word)
  next
    case short
    then obtain r2 where
      "read_exact_eof ?n r1 = (Err (if content r1 \<noteq> [] then UnexpectedEof else CleanEof), r2)"
      using read_exact_healthy(2) [OF h1] by blast
    with short True ne r1 len c1 show ?thesis
      by (auto simp: read_frame_def decode_spec_def Let_def unat_len_word)
  next
    case full
    then obtain r2 where r2: "read_exact_eof ?n r1 = (Ok (take ?n (content r1)), r2)"
      and h2: "healthy r2" and c2: "content r2 = drop ?n (content r1)"
      using read_exact_healthy(1) [OF h1] by blast
    with full True ne r1 len c1 h2 show ?thesis
      by (auto simp: read_frame_def decode_spec_def Let_def unat_len_word split: result.splits)
  qed
qed

lemma nibble_roundtrip [simp]: "from_nibble (type_nibble t) = Some t"
  by (cases t) (simp_all add: from_nibble_def)

lemma type_byte:
  "drop_bit 4 (push_bit 4 PROTOCOL_VERSION OR type_nibble t) = PROTOCOL_VERSION"
  "(push_bit 4 PROTOCOL_VERSION OR type_nibble t) AND 0x0f = type_nibble t"
  by (cases t; simp add: PROTOCOL_VERSION_def)+

lemma parse_body_bytes:
  "parse_body ((push_bit 4 PROTOCOL_VERSION OR type_nibble (msg_type f)) # payload f) = Ok f"
  unfolding parse_body_def Let_def list.sel type_byte by simp

lemma unat_body_len:
  assumes "length (payload f) < 2 ^ 32 - 1"
  shows "unat (body_len f) = Suc (length (payload f))"
proof -
  have "body_len f = word_of_nat (Suc (length (payload f)))"
    by (simp add: body_len_def)
  then show ?thesis
    using assms by (simp add: unat_of_nat del: of_nat_Suc)
qed

lemma decode_frame_bytes:
  assumes "length (payload f) < 2 ^ 20"
  shows "decode_spec (frame_bytes f @ rest) = Ok (f, rest)"
proof -
  have n: "unat (body_len f) = Suc (length (payload f))"
    using assms by (intro unat_body_len) simp
  have "length (be_bytes 4 (unat (body_len f))) = 4" by simp
  moreover have "be_nat (be_bytes 4 (unat (body_len f))) = Suc (length (payload f))"
    using assms n by (simp add: be_nat_bytes_id)
  ultimately show ?thesis
    using assms parse_body_bytes [of f]
    by (simp add: decode_spec_def frame_bytes_def Let_def)
qed

section \<open>Properties\<close>

text \<open>
  C34. For every way of cutting a byte stream into pieces, with any interruptions,
  \<open>read_frame\<close> returns exactly what the reference decoder returns on the whole byte
  string: the frame and the undecoded rest of the stream, or the same error. In
  particular an empty stream is \<open>CleanEof\<close>, a stream cut inside a frame is
  \<open>UnexpectedEof\<close>, and nothing is read past the frame.
\<close>

theorem read_frame_refines_decoder:
  assumes "healthy r"
  shows "(\<forall>f rest. decode_spec (content r) = Ok (f, rest) \<longrightarrow>
        (\<exists>r'. read_frame r = (Ok f, r') \<and> healthy r' \<and> content r' = rest))
    \<and> (\<forall>e. decode_spec (content r) = Err e \<longrightarrow> (\<exists>r'. read_frame r = (Err e, r')))"
  using read_frame_spec_aux [OF assms] by (auto split: result.splits)

theorem read_frame_refines_decoder_witness:
  "\<exists>r'. read_frame [Data [0, 0], Interrupt, Data [0, 3, 0x21], Data [7, 8, 9]] =
      (Ok \<lparr>msg_type = Auth, payload = [7, 8]\<rparr>, r') \<and> healthy r' \<and> content r' = [9]"
proof -
  have "healthy [Data [0, 0], Interrupt, Data [0, 3, 0x21], Data [7, 8, 9]]" by simp
  note * = read_frame_refines_decoder [OF this]
  have "decode_spec (content [Data [0, 0], Interrupt, Data [0, 3, 0x21], Data [7, 8, 9]]) =
      Ok (\<lparr>msg_type = Auth, payload = [7, 8]\<rparr>, [9])"
    by (simp add: decode_spec_def be_nat_def parse_body_def from_nibble_def PROTOCOL_VERSION_def)
  with * show ?thesis by blast
qed

text \<open>
  C35. Round trip: a frame whose body fits the limit is written without an error of the
  codec, and reading the written bytes back, in any pieces and followed by any other
  bytes, gives the same frame and leaves exactly the following bytes.
\<close>

theorem write_read_roundtrip:
  assumes "length (payload f) < 2 ^ 20" "healthy r" "content r = frame_bytes f @ rest"
  shows "write_frame w f = io_map_err Io (w (frame_bytes f))
    \<and> (\<exists>r'. read_frame r = (Ok f, r') \<and> healthy r' \<and> content r' = rest)"
proof
  have "unat (body_len f) = Suc (length (payload f))"
    using assms(1) by (intro unat_body_len) simp
  then have "\<not> MAX_FRAME_SIZE < body_len f"
    using assms(1) by (simp add: word_less_nat_alt)
  then show "write_frame w f = io_map_err Io (w (frame_bytes f))"
    by (simp add: write_frame_def)
  show "\<exists>r'. read_frame r = (Ok f, r') \<and> healthy r' \<and> content r' = rest"
    using read_frame_spec_aux [OF assms(2)] decode_frame_bytes [OF assms(1), of rest] assms(3)
    by simp
qed

theorem write_read_roundtrip_witness:
  "\<exists>r'. read_frame [Data (frame_bytes \<lparr>msg_type = FileCommit, payload = [1, 2]\<rparr>), Data [5]] =
      (Ok \<lparr>msg_type = FileCommit, payload = [1, 2]\<rparr>, r') \<and> content r' = [5]"
proof -
  have "frame_bytes \<lparr>msg_type = FileCommit, payload = [1, 2]\<rparr> \<noteq> []"
    by (simp add: frame_bytes_def)
  then show ?thesis
    using write_read_roundtrip [of "\<lparr>msg_type = FileCommit, payload = [1, 2]\<rparr>"
        "[Data (frame_bytes \<lparr>msg_type = FileCommit, payload = [1, 2]\<rparr>), Data [5]]" "[5]"]
    by auto
qed

text \<open>
  C40. The length check of \<open>write_frame\<close> works on the payload length cast to 32 bits. A
  payload of \<open>2 ^ 32\<close> bytes passes it, and the length field that is written says that
  the body is one byte long.
\<close>

theorem oversized_payload_is_misframed:
  assumes "length (payload f) = 2 ^ 32"
  shows "write_frame w f = io_map_err Io (w (frame_bytes f))
    \<and> take 4 (frame_bytes f) = [0, 0, 0, 1]"
proof -
  have "body_len f = 1"
    using assms by (simp add: body_len_def)
  moreover have "be_bytes 4 1 = [0, 0, 0, 1]"
    by code_simp
  ultimately show ?thesis
    by (simp add: write_frame_def frame_bytes_def MAX_FRAME_SIZE_def)
qed

theorem oversized_payload_is_misframed_witness:
  "take 4 (frame_bytes \<lparr>msg_type = ExecReq, payload = replicate (2 ^ 32) 0\<rparr>) = [0, 0, 0, 1]"
  by (rule oversized_payload_is_misframed [where w = "\<lambda>_. io_return ()", THEN conjunct2]) simp

end
