(* ===== verification/Dns.thy ===== *)
theory Dns
  imports Prelude
begin

text \<open>
  The DNS reply filter of the guest gateway (\<open>rust/ahvm-netd/src/dns.rs\<close>). A question
  is parsed from the wire with name compression; a reply is forwarded to the guest
  only if it answers the question that the guest asked. Every array access of the
  source that could leave the packet is an \<open>option\<close> here. The results: the parser
  stays inside the packet and bounds the name, it accepts every uncompressed name of
  at most 255 bytes within its 128 iterations, and the truncated reply it builds for
  an oversized answer is again a matching reply.
\<close>

record question =
  q_id :: bytes
  opcode :: byte
  qname :: bytes
  kind :: bytes

definition get_byte :: "bytes \<Rightarrow> nat \<Rightarrow> byte option" where
  "get_byte p i = (if i < length p then Some (p ! i) else None)"

definition get_range :: "bytes \<Rightarrow> nat \<Rightarrow> nat \<Rightarrow> bytes option" where
  "get_range p a b = (if a \<le> b \<and> b \<le> length p then Some (slice_of p a b) else None)"

definition to_ascii_lowercase :: "byte \<Rightarrow> byte" where
  "to_ascii_lowercase b = (if 65 \<le> b \<and> b \<le> 90 then b + 32 else b)"

text \<open>
  The body of the loop of \<open>parse_question\<close>; the first argument is the number of
  iterations left of \<open>for _ in 0..128\<close>.
\<close>

fun parse_loop :: "nat \<Rightarrow> bytes \<Rightarrow> nat \<Rightarrow> nat option \<Rightarrow> nat \<Rightarrow> bytes \<Rightarrow> (question \<times> nat) option" where
  "parse_loop 0 p at qend limit name = None"
| "parse_loop (Suc n) p at qend limit name =
     (if limit \<le> at then None
      else case get_byte p at of
        None \<Rightarrow> None
      | Some len \<Rightarrow>
          if len AND 0xc0 = 0xc0 then
            (if limit < at + 2 then None
             else case get_byte p (at + 1) of
               None \<Rightarrow> None
             | Some lo \<Rightarrow>
                 let target = push_bit 8 (unat (len AND 0x3f)) OR unat lo;
                     qend' = (case qend of None \<Rightarrow> at + 2 | Some e \<Rightarrow> e) in
                 if target < 12 \<or> at \<le> target then None
                 else parse_loop n p target (Some qend') at name)
          else if len \<le> 63 then
            (let at' = at + 1; name' = name @ [len] in
             if 255 < length name' + unat len \<or> limit < at' + unat len then None
             else if len = 0 then
               (let e = (case qend of None \<Rightarrow> at' | Some e \<Rightarrow> e) in
                case get_range p e (e + 4) of
                  None \<Rightarrow> None
                | Some k \<Rightarrow>
                    Some (\<lparr>q_id = take 2 p, opcode = (p ! 2) AND 0x78, qname = name', kind = k\<rparr>, e + 4))
             else case get_range p at' (at' + unat len) of
               None \<Rightarrow> None
             | Some label \<Rightarrow>
                 parse_loop n p (at' + unat len) qend limit (name' @ map to_ascii_lowercase label))
          else None)"

definition parse_question :: "bytes \<Rightarrow> (question \<times> nat) option" where
  "parse_question p =
     (if length p < 12 \<or> slice_of p 4 6 \<noteq> [0, 1] then None
      else parse_loop 128 p 12 None (length p) [])"

definition parse :: "bytes \<Rightarrow> question option" where
  "parse p = map_option fst (parse_question p)"

definition query :: "bytes \<Rightarrow> question option" where
  "query p = (case get_byte p 2 of
       None \<Rightarrow> None
     | Some flags \<Rightarrow> if flags AND 0x80 \<noteq> 0 then None else parse p)"

definition matches :: "question \<Rightarrow> bytes \<Rightarrow> bool" where
  "matches q p =
     ((case get_byte p 2 of None \<Rightarrow> False | Some flags \<Rightarrow> flags AND 0x80 \<noteq> 0) \<and> parse p = Some q)"

definition truncated_reply :: "question \<Rightarrow> bytes \<Rightarrow> bytes option" where
  "truncated_reply q p =
     (if \<not> matches q p then None
      else case parse_question p of
        None \<Rightarrow> None
      | Some (_, e) \<Rightarrow>
          let reply = take e p; reply = reply[2 := (reply ! 2) OR 2]
          in Some (copy_at reply 6 (replicate 6 0)))"

section \<open>Bounds\<close>

text \<open>The three ways an iteration can succeed: a pointer, the root label, a label.\<close>

lemma parse_loop_SucE:
  assumes "parse_loop (Suc n) p at qend limit name = Some r"
  obtains
    (pointer) target where "at + 2 \<le> limit" "at + 1 < length p" "(p ! at) AND 0xc0 = 0xc0"
      "target = push_bit 8 (unat ((p ! at) AND 0x3f)) OR unat (p ! (at + 1))" "12 \<le> target" "target < at"
      "parse_loop n p target (Some (case qend of None \<Rightarrow> at + 2 | Some e \<Rightarrow> e)) at name = Some r"
  | (root) e k where "at < limit" "at < length p" "p ! at = 0" "length name < 255"
      "e = (case qend of None \<Rightarrow> at + 1 | Some e \<Rightarrow> e)" "get_range p e (e + 4) = Some k"
      "r = (\<lparr>q_id = take 2 p, opcode = (p ! 2) AND 0x78, qname = name @ [0], kind = k\<rparr>, e + 4)"
  | (label) l where "at < limit" "at < length p" "(p ! at) AND 0xc0 \<noteq> 0xc0" "p ! at \<le> 63" "p ! at \<noteq> 0"
      "length name + 1 + unat (p ! at) \<le> 255" "at + 1 + unat (p ! at) \<le> limit"
      "get_range p (at + 1) (at + 1 + unat (p ! at)) = Some l"
      "parse_loop n p (at + 1 + unat (p ! at)) qend limit (name @ [p ! at] @ map to_ascii_lowercase l) = Some r"
proof -
  from assms have a: "at < limit" "at < length p"
    by (auto simp: get_byte_def split: if_splits)
  consider (ptr) "(p ! at) AND 0xc0 = 0xc0" | (zero) "p ! at = 0"
    | (lab) "(p ! at) AND 0xc0 \<noteq> 0xc0" "p ! at \<noteq> 0" by blast
  then show thesis
  proof cases
    case ptr
    with assms a show thesis
      by (intro pointer) (auto simp: get_byte_def Let_def split: if_splits option.splits)
  next
    case zero
    define e where "e = (case qend of None \<Rightarrow> at + 1 | Some e \<Rightarrow> e)"
    with zero assms a obtain k where "get_range p e (e + 4) = Some k" "length name < 255"
      "r = (\<lparr>q_id = take 2 p, opcode = (p ! 2) AND 0x78, qname = name @ [0], kind = k\<rparr>, e + 4)"
      by (cases qend) (auto simp: get_byte_def Let_def split: if_splits option.splits)
    with zero a e_def show thesis
      by (intro root)
  next
    case lab
    with assms a have "p ! at \<le> 63" "length name + 1 + unat (p ! at) \<le> 255"
      "at + 1 + unat (p ! at) \<le> limit"
      by (auto simp: get_byte_def Let_def split: if_splits)
    moreover from this lab assms a obtain l
      where "get_range p (at + 1) (at + 1 + unat (p ! at)) = Some l"
        "parse_loop n p (at + 1 + unat (p ! at)) qend limit (name @ [p ! at] @ map to_ascii_lowercase l) = Some r"
      by (auto simp: get_byte_def Let_def split: option.splits)
    ultimately show thesis
      using lab a label by blast
  qed
qed

lemma parse_loop_end:
  "parse_loop n p at qend limit name = Some (q, e) \<Longrightarrow>
     e \<le> length p \<and> length (kind q) = 4 \<and> length (qname q) \<le> 255
     \<and> (case qend of None \<Rightarrow> at + 5 \<le> e | Some e' \<Rightarrow> e = e' + 4)"
proof (induction n arbitrary: at qend limit name)
  case 0
  then show ?case by simp
next
  case (Suc n)
  from Suc.prems show ?case
  proof (cases rule: parse_loop_SucE)
    case (pointer target)
    from Suc.IH [OF pointer(7)] show ?thesis by (auto split: option.splits)
  next
    case (root e' k)
    then show ?thesis by (auto simp: get_range_def split: option.splits if_splits)
  next
    case (label l)
    from Suc.IH [OF label(9)] show ?thesis by (auto split: option.splits)
  qed
qed

text \<open>The question section is short: the name is bounded and a pointer is two bytes.\<close>

lemma parse_loop_short:
  "parse_loop n p at None limit name = Some (q, e) \<Longrightarrow> length name \<le> 255 \<Longrightarrow> e + length name \<le> at + 261"
proof (induction n arbitrary: at name)
  case 0
  then show ?case by simp
next
  case (Suc n)
  from Suc.prems(1) show ?case
  proof (cases rule: parse_loop_SucE)
    case (pointer target)
    from parse_loop_end [OF pointer(7)] Suc.prems(2) show ?thesis by simp
  next
    case (root e' k)
    then show ?thesis by simp
  next
    case (label l)
    then have "length l = unat (p ! at)"
      by (auto simp: get_range_def split: if_splits)
    with Suc.IH [OF label(9)] label(6) show ?thesis by simp
  qed
qed

text \<open>
  What the parser reads of the packet: bytes from 12 up to the end of the question. Two
  packets that agree there parse to the same name and kind.
\<close>

lemma get_byte_agree:
  assumes "\<forall>i. 12 \<le> i \<and> i < e \<longrightarrow> p' ! i = p ! i" "12 \<le> i" "i < e" "e \<le> length p" "e \<le> length p'"
  shows "get_byte p' i = get_byte p i"
  using assms by (simp add: get_byte_def)

lemma get_range_agree:
  assumes "\<forall>i. 12 \<le> i \<and> i < e \<longrightarrow> p' ! i = p ! i" "12 \<le> a" "b \<le> e" "e \<le> length p" "e \<le> length p'"
  shows "get_range p' a b = get_range p a b"
  using assms by (auto simp: get_range_def intro!: nth_equalityI)

lemma parse_loop_agree:
  assumes agree: "\<forall>i. 12 \<le> i \<and> i < e \<longrightarrow> p' ! i = p ! i" and len: "e \<le> length p'"
  shows "parse_loop n p at qend limit name = Some (q, e) \<Longrightarrow> 12 \<le> at \<Longrightarrow>
     (case qend of None \<Rightarrow> limit' = length p' | Some e' \<Rightarrow> limit \<le> e' \<and> limit' = limit) \<Longrightarrow>
     parse_loop n p' at qend limit' name = Some (q\<lparr>q_id := take 2 p', opcode := (p' ! 2) AND 0x78\<rparr>, e)"
proof (induction n arbitrary: at qend limit limit' name)
  case 0
  then show ?case by simp
next
  case (Suc n)
  note e = parse_loop_end [OF Suc.prems(1)]
  from Suc.prems(1) show ?case
  proof (cases rule: parse_loop_SucE)
    case (pointer target)
    have "at + 2 \<le> e"
      using e pointer(1) Suc.prems(3) by (auto split: option.splits)
    moreover have "at + 2 \<le> limit'"
      using \<open>at + 2 \<le> e\<close> len pointer(1) Suc.prems(3) by (auto split: option.splits)
    moreover have "parse_loop n p' target (Some (case qend of None \<Rightarrow> at + 2 | Some e \<Rightarrow> e)) at name =
        Some (q\<lparr>q_id := take 2 p', opcode := (p' ! 2) AND 0x78\<rparr>, e)"
      using pointer Suc.prems(3) by (intro Suc.IH) (auto split: option.splits)
    ultimately show ?thesis
      using pointer agree len Suc.prems(2) by (cases qend) (simp_all add: get_byte_def Let_def)
  next
    case (root e' k)
    have "at + 1 \<le> e"
      using e root(1) Suc.prems(3) by (auto split: option.splits)
    moreover have "at < limit'"
      using \<open>at + 1 \<le> e\<close> len root(1) Suc.prems(3) by (auto split: option.splits)
    moreover have "12 \<le> e'"
      using root(1,5) Suc.prems(2,3) by (auto split: option.splits)
    moreover have "get_range p' e' (e' + 4) = Some k"
      using root(6,7) \<open>12 \<le> e'\<close> e len get_range_agree [OF agree] by simp
    ultimately show ?thesis
      using root agree len Suc.prems(2) by (cases qend) (simp_all add: get_byte_def Let_def)
  next
    case (label l)
    let ?to = "at + 1 + unat (p ! at)"
    have to: "?to \<le> e"
      using parse_loop_end [OF label(9)] label(7) Suc.prems(3) by (auto split: option.splits)
    have "?to \<le> limit'"
      using to len label(7) Suc.prems(3) by (auto split: option.splits)
    moreover have "get_range p' (at + 1) ?to = Some l"
      using label(8) to e len Suc.prems(2) get_range_agree [OF agree] by simp
    moreover have "parse_loop n p' ?to qend limit' (name @ [p ! at] @ map to_ascii_lowercase l) =
        Some (q\<lparr>q_id := take 2 p', opcode := (p' ! 2) AND 0x78\<rparr>, e)"
      using label(9) Suc.prems(2,3) by (intro Suc.IH) auto
    ultimately show ?thesis
      using label agree len to Suc.prems(2) by (simp add: get_byte_def Let_def)
  qed
qed

lemma parse_question_agree:
  assumes "parse_question p = Some (q, e)" "\<forall>i. 12 \<le> i \<and> i < e \<longrightarrow> p' ! i = p ! i"
    "e \<le> length p'" "slice_of p' 4 6 = [0, 1]"
  shows "parse_question p' = Some (q\<lparr>q_id := take 2 p', opcode := (p' ! 2) AND 0x78\<rparr>, e)"
proof -
  have l: "parse_loop 128 p 12 None (length p) [] = Some (q, e)"
    using assms(1) by (auto simp: parse_question_def split: if_splits)
  have "12 + 5 \<le> e"
    using parse_loop_end [OF l] by simp
  then show ?thesis
    using parse_loop_agree [OF assms(2,3) l] assms(3,4) by (simp add: parse_question_def)
qed

lemma parse_question_header:
  assumes "parse_question p = Some (q, e)"
  shows "q_id q = take 2 p" "opcode q = (p ! 2) AND 0x78" "17 \<le> e" "e \<le> length p" "slice_of p 4 6 = [0, 1]"
proof -
  have l: "parse_loop 128 p 12 None (length p) [] = Some (q, e)" and h: "slice_of p 4 6 = [0, 1]"
    using assms by (auto simp: parse_question_def split: if_splits)
  show "slice_of p 4 6 = [0, 1]" by (rule h)
  show "17 \<le> e" "e \<le> length p"
    using parse_loop_end [OF l] by simp_all
  have "parse_loop n p at qend limit name = Some (q, e) \<Longrightarrow>
      q_id q = take 2 p \<and> opcode q = (p ! 2) AND 0x78" for n at qend limit name
  proof (induction n arbitrary: at qend limit name)
    case (Suc n)
    from Suc.prems show ?case
      by (cases rule: parse_loop_SucE) (auto dest: Suc.IH)
  qed simp
  from this [OF l] show "q_id q = take 2 p" "opcode q = (p ! 2) AND 0x78" by simp_all
qed

lemma tc_bit:
  "((b :: byte) OR 2) AND 0x80 = b AND 0x80" "(b OR 2) AND 0x78 = b AND 0x78" "(b OR 2) AND 2 = 2"
  by (simp_all add: bit.conj_disj_distrib2 bit.conj_disj_distrib and.assoc)

text \<open>The truncated reply of an accepted answer is itself an accepted answer.\<close>

lemma truncated_reply_ok:
  assumes "matches q p"
  shows "\<exists>r. truncated_reply q p = Some r \<and> matches q r \<and> length r \<le> length p \<and> length r \<le> 273
    \<and> (r ! 2) AND 2 = 2 \<and> slice_of r 6 12 = replicate 6 0 \<and> drop 12 r = take (length r - 12) (drop 12 p)"
proof -
  from assms obtain e where e: "parse_question p = Some (q, e)"
    by (auto simp: matches_def parse_def)
  note h = parse_question_header [OF e]
  have l: "parse_loop 128 p 12 None (length p) [] = Some (q, e)"
    using e by (auto simp: parse_question_def split: if_splits)
  have short: "e \<le> 273"
    using parse_loop_short [OF l] by simp
  let ?t = "(take e p)[2 := (p ! 2) OR 2]"
  let ?r = "copy_at ?t 6 (replicate 6 0)"
  have len: "length ?t = e" "length ?r = e"
    using h by simp_all
  have nth: "?r ! i = (if 6 \<le> i \<and> i < 12 then 0 else if i = 2 then (p ! 2) OR 2 else p ! i)" if "i < e" for i
    using that h by (auto simp: nth_copy_at nth_list_update)
  have s46: "slice_of ?r 4 6 = [0, 1]"
  proof -
    have "slice_of ?r 4 6 = slice_of p 4 6"
      using h(3,4) len nth by (intro nth_equalityI) auto
    with h show ?thesis by simp
  qed
  have t2: "take 2 ?r = take 2 p"
    using h len nth by (intro nth_equalityI) auto
  have r2: "?r ! 2 = (p ! 2) OR 2"
    using h nth by simp
  have "parse_question ?r = Some (q\<lparr>q_id := take 2 ?r, opcode := (?r ! 2) AND 0x78\<rparr>, e)"
    using h len nth s46 by (intro parse_question_agree [OF e]) auto
  then have pq: "parse_question ?r = Some (q, e)"
    using h t2 r2 by (simp add: tc_bit)
  have "truncated_reply q p = Some ?r"
    using assms e h by (simp add: truncated_reply_def Let_def)
  moreover have "matches q ?r"
    using pq assms len h r2 by (simp add: matches_def parse_def get_byte_def tc_bit)
  moreover have "slice_of ?r 6 12 = replicate 6 0"
    using h slice_of_copy_at_same [of 6 "replicate 6 0" ?t] by simp
  moreover have "drop 12 ?r = take (length ?r - 12) (drop 12 p)"
    using h len nth by (intro nth_equalityI) auto
  ultimately show ?thesis
    using h len r2 short by (intro exI [of _ ?r]) (simp add: tc_bit)
qed

section \<open>Uncompressed names\<close>

text \<open>The wire form of a name given by its labels, and its case-folded form.\<close>

definition enc_name :: "bytes list \<Rightarrow> bytes" where
  "enc_name ls = concat (map (\<lambda>l. word_of_nat (length l) # l) ls) @ [0]"

definition fold_name :: "bytes list \<Rightarrow> bytes" where
  "fold_name ls = concat (map (\<lambda>l. word_of_nat (length l) # map to_ascii_lowercase l) ls) @ [0]"

definition good_label :: "bytes \<Rightarrow> bool" where
  "good_label l \<longleftrightarrow> 1 \<le> length l \<and> length l \<le> 63"

lemma enc_name_simps [simp]:
  "enc_name [] = [0]" "enc_name (l # ls) = word_of_nat (length l) # l @ enc_name ls"
  by (simp_all add: enc_name_def)

lemma fold_name_simps [simp]:
  "fold_name [] = [0]"
  "fold_name (l # ls) = word_of_nat (length l) # map to_ascii_lowercase l @ fold_name ls"
  by (simp_all add: fold_name_def)

lemma length_labels: "\<forall>l \<in> set ls. good_label l \<Longrightarrow> 2 * length ls + 1 \<le> length (enc_name ls)"
  by (induction ls) (auto simp: good_label_def)

lemma label_byte:
  assumes "good_label l"
  shows "unat (word_of_nat (length l) :: byte) = length l" "(word_of_nat (length l) :: byte) \<noteq> 0"
    "(word_of_nat (length l) :: byte) \<le> 63" "(word_of_nat (length l) :: byte) AND 0xc0 \<noteq> 0xc0"
proof -
  show u: "unat (word_of_nat (length l) :: byte) = length l"
    using assms by (simp add: good_label_def)
  show "(word_of_nat (length l) :: byte) \<noteq> 0"
    using u assms by (metis good_label_def not_one_le_zero unat_eq_zero)
  show le: "(word_of_nat (length l) :: byte) \<le> 63"
    using u assms by (simp add: word_le_nat_alt good_label_def)
  show "(word_of_nat (length l) :: byte) AND 0xc0 \<noteq> 0xc0"
  proof
    assume "(word_of_nat (length l) :: byte) AND 0xc0 = 0xc0"
    then have "(0xc0 :: byte) \<le> word_of_nat (length l)"
      by (metis word_and_le2)
    from order_trans [OF this le] show False by simp
  qed
qed

lemma parse_loop_enc:
  assumes "\<forall>l \<in> set ls. good_label l" "length name + length (enc_name ls) \<le> 255" "length ls < n"
    "length k = 4" "p = pre @ enc_name ls @ k @ rest"
  shows "parse_loop n p (length pre) None (length p) name =
    Some (\<lparr>q_id = take 2 p, opcode = (p ! 2) AND 0x78, qname = name @ fold_name ls, kind = k\<rparr>,
      length pre + length (enc_name ls) + 4)"
  using assms
proof (induction ls arbitrary: n name pre)
  case Nil
  then obtain m where "n = Suc m" by (cases n) auto
  with Nil show ?case
    by (simp add: get_byte_def get_range_def nth_append Let_def slice_of_def)
next
  case (Cons l ls)
  then obtain m where m: "n = Suc m" by (cases n) auto
  have l: "good_label l" using Cons.prems(1) by simp
  note lb = label_byte [OF l]
  let ?pre = "pre @ word_of_nat (length l) # l"
  have p: "p = ?pre @ enc_name ls @ k @ rest"
    using Cons.prems(5) by simp
  have "parse_loop m p (length ?pre) None (length p) (name @ word_of_nat (length l) # map to_ascii_lowercase l) =
    Some (\<lparr>q_id = take 2 p, opcode = (p ! 2) AND 0x78,
        qname = (name @ word_of_nat (length l) # map to_ascii_lowercase l) @ fold_name ls, kind = k\<rparr>,
      length ?pre + length (enc_name ls) + 4)"
    using Cons.prems m by (intro Cons.IH p) auto
  moreover have "p ! length pre = word_of_nat (length l)" "length pre < length p"
    "get_range p (Suc (length pre)) (Suc (length pre + length l)) = Some l"
    using Cons.prems(5) by (simp_all add: get_range_def slice_of_def)
  ultimately show ?case
    using Cons.prems(2,5) m lb by (simp add: get_byte_def Let_def)
qed

section \<open>Properties\<close>

text \<open>
  The reply filter is sound and never leaves the packet: a packet that matches a
  question is a response (its QR bit is set) with the identifier and the opcode of the
  question, and a parsed question lies within the packet, with a name of at most 255
  bytes and a four-byte type and class.
\<close>

theorem matches_sound:
  assumes "matches q p"
  shows "(p ! 2) AND 0x80 \<noteq> 0 \<and> take 2 p = q_id q \<and> (p ! 2) AND 0x78 = opcode q
    \<and> length (qname q) \<le> 255 \<and> length (kind q) = 4
    \<and> (\<exists>e. parse_question p = Some (q, e) \<and> 17 \<le> e \<and> e \<le> length p)"
proof -
  from assms obtain e where e: "parse_question p = Some (q, e)"
    by (auto simp: matches_def parse_def)
  then have "parse_loop 128 p 12 None (length p) [] = Some (q, e)"
    by (auto simp: parse_question_def split: if_splits)
  from parse_loop_end [OF this] parse_question_header [OF e] e assms show ?thesis
    by (auto simp: matches_def get_byte_def split: if_splits)
qed

definition example_reply :: bytes where
  "example_reply = [0x12, 0x34, 0x81, 0, 0, 1, 0, 1, 0, 0, 0, 0, 2, 0x45, 0x78, 0, 0, 1, 0, 1, 0xff]"

definition example_question :: question where
  "example_question = \<lparr>q_id = [0x12, 0x34], opcode = 0, qname = [2, 0x65, 0x78, 0], kind = [0, 1, 0, 1]\<rparr>"

lemma example_matches: "matches example_question example_reply"
  by code_simp

theorem matches_sound_witness:
  "take 2 example_reply = q_id example_question \<and> length (qname example_question) \<le> 255"
  using matches_sound [OF example_matches] by blast

text \<open>
  For an answer that does not fit the link, \<open>truncated_reply\<close> always builds a reply
  that again answers the question: it matches, it carries the truncation bit, its
  answer, authority and additional counts are zero, and its question section is the
  one of the answer byte for byte (the case of the name is kept).
\<close>

theorem truncated_reply_matches:
  assumes "matches q p"
  shows "\<exists>r. truncated_reply q p = Some r \<and> matches q r \<and> length r \<le> length p \<and> length r \<le> 273
    \<and> (r ! 2) AND 2 = 2 \<and> slice_of r 6 12 = replicate 6 0 \<and> drop 12 r = take (length r - 12) (drop 12 p)"
  using assms by (rule truncated_reply_ok)

theorem truncated_reply_matches_witness:
  "\<exists>r. truncated_reply example_question example_reply = Some r \<and> matches example_question r
    \<and> slice_of r 6 12 = replicate 6 0"
  using truncated_reply_matches [OF example_matches] by blast

text \<open>
  Completeness: every well-formed query for an uncompressed name (labels of 1 to 63
  bytes, at most 255 bytes in all) is accepted, within the 128 iterations of the
  loop, with the name folded to lower case; what follows the question is not looked at.
\<close>

theorem query_accepts_uncompressed:
  assumes "length h = 12" "slice_of h 4 6 = [0, 1]" "(h ! 2) AND 0x80 = 0"
    "\<forall>l \<in> set ls. good_label l" "length (enc_name ls) \<le> 255" "length k = 4"
  shows "query (h @ enc_name ls @ k @ rest) =
    Some \<lparr>q_id = take 2 h, opcode = (h ! 2) AND 0x78, qname = fold_name ls, kind = k\<rparr>"
proof -
  let ?p = "h @ enc_name ls @ k @ rest"
  have "length ls < 128"
    using length_labels [OF assms(4)] assms(5) by simp
  then have "parse_loop 128 ?p (length h) None (length ?p) [] =
    Some (\<lparr>q_id = take 2 ?p, opcode = (?p ! 2) AND 0x78, qname = [] @ fold_name ls, kind = k\<rparr>,
      length h + length (enc_name ls) + 4)"
    using assms by (intro parse_loop_enc) auto
  moreover have "slice_of ?p 4 6 = slice_of h 4 6"
    using assms(1) by (simp add: slice_of_def)
  ultimately show ?thesis
    using assms by (simp add: query_def parse_def parse_question_def get_byte_def nth_append)
qed

theorem query_accepts_uncompressed_witness:
  "query ([0x12, 0x34, 1, 0, 0, 1, 0, 0, 0, 0, 0, 0] @ enc_name [[0x45, 0x78], [0x43]] @ [0, 1, 0, 1] @ []) =
    Some \<lparr>q_id = [0x12, 0x34], opcode = 0, qname = [2, 0x65, 0x78, 1, 0x63, 0], kind = [0, 1, 0, 1]\<rparr>"
proof -
  have "fold_name [[0x45, 0x78], [0x43]] = [2, 0x65, 0x78, 1, 0x63, 0]"
    by code_simp
  then show ?thesis
    using query_accepts_uncompressed
      [of "[0x12, 0x34, 1, 0, 0, 1, 0, 0, 0, 0, 0, 0]" "[[0x45, 0x78], [0x43]]" "[0, 1, 0, 1]" "[]"]
    by (simp add: slice_of_def good_label_def numeral_2_eq_2)
qed

end
