(* ===== verification/Bandwidth.thy ===== *)
theory Bandwidth
  imports Prelude
begin

text \<open>
  The per-link token bucket of the guest gateway (\<open>rust/ahvm-netd/src/bandwidth.rs\<close>).
  Instants are nanoseconds; the 128-bit quantities are naturals with the saturation
  of the source written out. The main result is the bandwidth envelope: over any run of
  the gateway's pattern (ask what is available, transfer at most that, charge what was
  transferred), the bytes transferred never exceed the burst plus rate times time.
\<close>

record bucket =
  rate :: "nat option"
  tokens :: nat
  capacity :: nat
  last_at :: nat

definition U128_MAX :: nat where "U128_MAX = 2 ^ 128 - 1"

definition USIZE_MAX :: nat where "USIZE_MAX = 2 ^ 64 - 1"

definition SCALE :: nat where "SCALE = 1000000000"

definition saturating_add :: "nat \<Rightarrow> nat \<Rightarrow> nat" where
  "saturating_add a b = min (a + b) U128_MAX"

definition saturating_mul :: "nat \<Rightarrow> nat \<Rightarrow> nat" where
  "saturating_mul a b = min (a * b) U128_MAX"

definition new_bucket :: "nat option \<Rightarrow> nat \<Rightarrow> bucket" where
  "new_bucket r now =
     (let c = max ((case r of None \<Rightarrow> 0 | Some n \<Rightarrow> n) div 10) 1518 * SCALE
      in \<lparr>rate = r, tokens = c, capacity = c, last_at = now\<rparr>)"

text \<open>\<open>(tokens / SCALE) as usize\<close> keeps the low 64 bits.\<close>

definition available :: "nat \<Rightarrow> bucket \<Rightarrow> nat \<times> bucket" where
  "available now b =
     (case rate b of
        None \<Rightarrow> (USIZE_MAX, b)
      | Some r \<Rightarrow>
          let t = min (saturating_add (tokens b) (saturating_mul (now - last_at b) r)) (capacity b)
          in (t div SCALE mod 2 ^ 64, b\<lparr>tokens := t, last_at := now\<rparr>))"

definition ready :: "nat \<Rightarrow> bucket \<Rightarrow> bool \<times> bucket" where
  "ready now b = (case available now b of (n, b') \<Rightarrow> (1024 \<le> n, b'))"

definition consume :: "nat \<Rightarrow> bucket \<Rightarrow> bucket" where
  "consume n b = (if rate b \<noteq> None then b\<lparr>tokens := tokens b - n * SCALE\<rparr> else b)"

text \<open>
  The use the gateway makes of it: at instant \<open>now\<close> it asks for the budget, transfers
  some \<open>n\<close> bytes of it and charges them. \<open>run\<close> returns the bytes transferred in all.
\<close>

definition transfer :: "nat \<Rightarrow> nat \<Rightarrow> bucket \<Rightarrow> nat \<times> bucket" where
  "transfer now n b = (case available now b of (k, b') \<Rightarrow> (min n k, consume (min n k) b'))"

fun run :: "(nat \<times> nat) list \<Rightarrow> bucket \<Rightarrow> nat \<times> bucket" where
  "run [] b = (0, b)"
| "run ((now, n) # es) b =
     (case transfer now n b of (m, b') \<Rightarrow> case run es b' of (bytes_moved, b'') \<Rightarrow> (m + bytes_moved, b''))"

definition bucket_ok :: "bucket \<Rightarrow> bool" where
  "bucket_ok b \<longleftrightarrow> tokens b \<le> capacity b \<and> capacity b div SCALE < 2 ^ 64"

lemma SCALE_pos [simp]: "0 < SCALE"
  by (simp add: SCALE_def)

lemma new_bucket_ok: "(case r of None \<Rightarrow> True | Some n \<Rightarrow> n < 2 ^ 64) \<Longrightarrow> bucket_ok (new_bucket r now)"
  by (auto simp: bucket_ok_def new_bucket_def Let_def split: option.splits)

lemma available_ok: "bucket_ok b \<Longrightarrow> bucket_ok (snd (available now b))"
  by (auto simp: bucket_ok_def available_def Let_def split: option.splits)

lemma consume_ok: "bucket_ok b \<Longrightarrow> bucket_ok (consume n b)"
  by (auto simp: bucket_ok_def consume_def)

lemma frame [simp]:
  "rate (snd (available now b)) = rate b" "capacity (snd (available now b)) = capacity b"
  "rate (consume n b) = rate b" "capacity (consume n b) = capacity b" "last_at (consume n b) = last_at b"
  by (simp_all add: available_def consume_def Let_def split: option.splits)

text \<open>The budget announced is covered by tokens, so charging it never saturates at zero.\<close>

lemma available_covered:
  assumes "bucket_ok b" "rate b = Some r" "available now b = (k, b')"
  shows "k * SCALE \<le> tokens b'" "tokens b' \<le> tokens b + (now - last_at b) * r" "last_at b' = now"
proof -
  define t where "t = min (saturating_add (tokens b) (saturating_mul (now - last_at b) r)) (capacity b)"
  have eq: "k = t div SCALE mod 2 ^ 64" "b' = b\<lparr>tokens := t, last_at := now\<rparr>"
    using assms(2,3) by (simp_all add: available_def Let_def t_def)
  have "k \<le> t div SCALE" unfolding eq by (rule mod_less_eq_dividend)
  then have "k * SCALE \<le> t"
    by (metis div_mult_self_is_m SCALE_pos div_le_mono less_eq_div_iff_mult_less_eq)
  then show "k * SCALE \<le> tokens b'" using eq by simp
  have "t \<le> tokens b + (now - last_at b) * r"
    unfolding t_def saturating_add_def saturating_mul_def by linarith
  then show "tokens b' \<le> tokens b + (now - last_at b) * r" "last_at b' = now"
    using eq by simp_all
qed

lemma transfer_step:
  assumes "bucket_ok b" "rate b = Some r" "transfer now n b = (m, b')"
  shows "bucket_ok b'" "rate b' = Some r" "last_at b' = now" "capacity b' = capacity b"
    "m * SCALE + tokens b' \<le> tokens b + (now - last_at b) * r"
proof -
  obtain k c where a: "available now b = (k, c)" by fastforce
  have m: "m = min n k" "b' = consume m c"
    using assms(3) a by (auto simp: transfer_def)
  note cov = available_covered [OF assms(1,2) a]
  show "bucket_ok b'"
    using available_ok [OF assms(1), of now] a m by (simp add: consume_ok)
  have c: "rate c = Some r" "capacity c = capacity b"
    using frame(1,2) [of now b] a assms(2) by simp_all
  then show "rate b' = Some r" "last_at b' = now" "capacity b' = capacity b"
    using m cov by simp_all
  have "m * SCALE \<le> k * SCALE" using m by simp
  then have "m * SCALE \<le> tokens c" using cov(1) by (rule order_trans)
  then have "m * SCALE + tokens b' = tokens c"
    using m c by (simp add: consume_def)
  with cov(2) show "m * SCALE + tokens b' \<le> tokens b + (now - last_at b) * r" by simp
qed

lemma run_envelope:
  assumes "bucket_ok b" "rate b = Some r" "sorted (map fst es)" "\<forall>e \<in> set es. last_at b \<le> fst e"
    "run es b = (bytes_moved, b')" "\<forall>e \<in> set es. fst e \<le> stop" "last_at b \<le> stop"
  shows "bytes_moved * SCALE + tokens b' \<le> tokens b + (stop - last_at b) * r"
  using assms
proof (induction es arbitrary: b bytes_moved)
  case Nil
  then show ?case by simp
next
  case (Cons e es)
  obtain now n where e: "e = (now, n)" by fastforce
  obtain m c where t: "transfer now n b = (m, c)" by fastforce
  obtain rest where r: "run es c = (rest, b')" "bytes_moved = m + rest"
    using Cons.prems(5) e t by (auto split: prod.splits)
  note st = transfer_step [OF Cons.prems(1,2) t]
  have "rest * SCALE + tokens b' \<le> tokens c + (stop - last_at c) * r"
    using Cons.prems e st r by (intro Cons.IH) auto
  moreover have "(stop - last_at b) * r = (now - last_at b) * r + (stop - now) * r"
    using Cons.prems(4,6) e by (simp flip: add_mult_distrib)
  ultimately show ?case
    using st r by (simp add: algebra_simps)
qed

text \<open>
  C39. Bandwidth envelope: with a rate \<open>r\<close> of less than \<open>2 ^ 64\<close> bytes per second, whatever
  the link asks for and at whatever instants (in order, between \<open>start\<close> and \<open>stop\<close>),
  the bytes transferred are at most the burst, a tenth of a second's worth or one
  Ethernet frame of 1518 bytes, plus the rate times the time that has passed.
\<close>

theorem bandwidth_envelope:
  assumes "r < 2 ^ 64" "sorted (map fst es)" "\<forall>e \<in> set es. start \<le> fst e \<and> fst e \<le> stop" "start \<le> stop"
  shows "fst (run es (new_bucket (Some r) start)) * SCALE \<le> max (r div 10) 1518 * SCALE + (stop - start) * r"
proof -
  let ?b = "new_bucket (Some r) start"
  obtain moved b' where run: "run es ?b = (moved, b')" by fastforce
  have b: "rate ?b = Some r" "last_at ?b = start" "tokens ?b = max (r div 10) 1518 * SCALE"
    by (simp_all add: new_bucket_def Let_def)
  have "moved * SCALE + tokens b' \<le> tokens ?b + (stop - last_at ?b) * r"
    using assms run b by (intro run_envelope new_bucket_ok) auto
  with run b show ?thesis by simp
qed

theorem bandwidth_envelope_witness:
  "fst (run [(0, 5000), (5000000, 100000), (1000000000, 100000)] (new_bucket (Some 100000) 0)) * SCALE
     \<le> max (100000 div 10) 1518 * SCALE + (1000000000 - 0) * 100000"
  by (rule bandwidth_envelope) simp_all

text \<open>
  A bucket without a rate never throttles and never changes; a bucket with a rate keeps
  its tokens within its capacity under every operation.
\<close>

theorem bucket_invariant:
  "(rate b = None \<longrightarrow> available now b = (USIZE_MAX, b) \<and> consume n b = b)
   \<and> (bucket_ok b \<longrightarrow> bucket_ok (snd (available now b)) \<and> bucket_ok (snd (ready now b)) \<and> bucket_ok (consume n b))"
proof -
  have "snd (ready now b) = snd (available now b)"
    by (simp add: ready_def split: prod.splits)
  then show ?thesis
    by (simp add: available_ok consume_ok) (simp add: available_def consume_def)
qed

theorem bucket_invariant_witness:
  "bucket_ok (snd (available 7 (new_bucket (Some 100000) 0))) \<and> available 3 (new_bucket None 0) = (USIZE_MAX, new_bucket None 0)"
proof -
  have "bucket_ok (new_bucket (Some 100000) 0)" by (rule new_bucket_ok) simp
  moreover have "rate (new_bucket None 0) = None" by (simp add: new_bucket_def Let_def)
  ultimately show ?thesis
    using bucket_invariant [of "new_bucket (Some 100000) 0" 7] bucket_invariant [of "new_bucket None 0" 3] by blast
qed

end
