(* ===== verification/Gateway.thy ===== *)
theory Gateway
  imports Proto Dns
begin

text \<open>
  The admission decisions of the guest gateway (\<open>rust/ahvm-netd/src\<close>): ingress
  validation (\<open>wire.rs\<close>), the destination policy and TCP flow admission
  (\<open>gateway.rs\<close>), the DNS exchange table (\<open>gateway.rs\<close>) and the bounded echo
  proxy (\<open>icmp.rs\<close>). Header parsing and checksums are done by the \<open>smoltcp\<close> crate:
  they are parameters, records of the accessors that the source calls. The results are
  the security properties of the link: no spoofed source, no private destination
  without a grant, bounded tables, and bounded request rates.
\<close>

section \<open>Destination policy\<close>

definition public :: "ipv4 \<Rightarrow> ipv4 list \<Rightarrow> bool" where
  "public ip host =
     (case ip of (a, b, c, _) \<Rightarrow>
        ip \<notin> set host
        \<and> \<not> (a = 0 \<or> a = 10 \<or> a = 127 \<or> 224 \<le> a)
        \<and> \<not> (a = 100 \<and> 64 \<le> b \<and> b \<le> 127)
        \<and> \<not> (a = 169 \<and> b = 254)
        \<and> \<not> (a = 172 \<and> 16 \<le> b \<and> b \<le> 31)
        \<and> \<not> (a = 192 \<and> (b = 168 \<or> b = 0 \<or> (b = 88 \<and> c = 99)))
        \<and> \<not> (a = 198 \<and> (b = 18 \<or> b = 19 \<or> (b = 51 \<and> c = 100)))
        \<and> \<not> (a = 203 \<and> b = 0 \<and> c = 113))"

text \<open>The same policy as a list of CIDR blocks.\<close>

definition addr32 :: "ipv4 \<Rightarrow> nat" where
  "addr32 ip = (case ip of (a, b, c, d) \<Rightarrow> be_nat [a, b, c, d])"

definition in_cidr :: "ipv4 \<Rightarrow> ipv4 \<times> nat \<Rightarrow> bool" where
  "in_cidr ip blk = (case blk of (base, len) \<Rightarrow>
     addr32 ip div 2 ^ (32 - len) = addr32 base div 2 ^ (32 - len))"

definition special_blocks :: "(ipv4 \<times> nat) list" where
  "special_blocks =
     [((0, 0, 0, 0), 8), ((10, 0, 0, 0), 8), ((127, 0, 0, 0), 8), ((224, 0, 0, 0), 3),
      ((100, 64, 0, 0), 10), ((169, 254, 0, 0), 16), ((172, 16, 0, 0), 12),
      ((192, 168, 0, 0), 16), ((192, 0, 0, 0), 16), ((192, 88, 99, 0), 24),
      ((198, 18, 0, 0), 15), ((198, 51, 100, 0), 24), ((203, 0, 113, 0), 24)]"

section \<open>Ingress validation\<close>

definition GW :: ipv4 where "GW = (100, 64, 0, 1)"
definition GUEST :: ipv4 where "GUEST = (100, 64, 0, 2)"
definition MAC :: bytes where "MAC = [2, 0, 0, 0, 0, 2]"

definition octets :: "ipv4 \<Rightarrow> bytes" where
  "octets ip = (case ip of (a, b, c, d) \<Rightarrow> [a, b, c, d])"

text \<open>The accessors of \<open>smoltcp::wire\<close> that the gateway calls.\<close>

datatype ethertype = EthArp | EthIpv4 | EthOther
datatype ip_protocol = ProtoTcp | ProtoUdp | ProtoIcmp | ProtoOther

record smoltcp =
  eth_checked :: "bytes \<Rightarrow> bool"
  eth_src :: "bytes \<Rightarrow> bytes"
  eth_type :: "bytes \<Rightarrow> ethertype"
  eth_payload :: "bytes \<Rightarrow> bytes"
  ip_checked :: "bytes \<Rightarrow> bool"
  ip_version :: "bytes \<Rightarrow> nat"
  ip_src :: "bytes \<Rightarrow> ipv4"
  ip_dst :: "bytes \<Rightarrow> ipv4"
  ip_checksum :: "bytes \<Rightarrow> bool"
  ip_more_frags :: "bytes \<Rightarrow> bool"
  ip_frag_offset :: "bytes \<Rightarrow> nat"
  ip_next_header :: "bytes \<Rightarrow> ip_protocol"
  ip_payload :: "bytes \<Rightarrow> bytes"
  tcp_checked :: "bytes \<Rightarrow> bool"
  tcp_src_port :: "bytes \<Rightarrow> 16 word"
  tcp_dst_port :: "bytes \<Rightarrow> 16 word"
  tcp_syn :: "bytes \<Rightarrow> bool"
  tcp_ack :: "bytes \<Rightarrow> bool"
  tcp_fin :: "bytes \<Rightarrow> bool"
  tcp_rst :: "bytes \<Rightarrow> bool"
  tcp_checksum :: "bytes \<Rightarrow> ipv4 \<Rightarrow> ipv4 \<Rightarrow> bool"
  udp_checked :: "bytes \<Rightarrow> bool"
  udp_src_port :: "bytes \<Rightarrow> 16 word"
  udp_dst_port :: "bytes \<Rightarrow> 16 word"
  udp_checksum :: "bytes \<Rightarrow> ipv4 \<Rightarrow> ipv4 \<Rightarrow> bool"
  icmp_checked :: "bytes \<Rightarrow> bool"
  icmp_echo_request :: "bytes \<Rightarrow> bool"
  icmp_echo_reply :: "bytes \<Rightarrow> bool"
  icmp_code :: "bytes \<Rightarrow> nat"
  icmp_checksum :: "bytes \<Rightarrow> bool"
  icmp_ident :: "bytes \<Rightarrow> 16 word"

definition valid_echo_request :: "smoltcp \<Rightarrow> bytes \<Rightarrow> bool" where
  "valid_echo_request W bs =
     (8 \<le> length bs \<and> length bs \<le> 1480 \<and> icmp_checked W bs
      \<and> icmp_echo_request W bs \<and> icmp_code W bs = 0 \<and> icmp_checksum W bs)"

text \<open>A validated frame; \<open>Ipv4\<close> carries the IP packet.\<close>

datatype packet = Arp | Ipv4 bytes

definition validate :: "smoltcp \<Rightarrow> bytes \<Rightarrow> packet option" where
  "validate W frame =
     (if 1514 < length frame then None
      else if \<not> eth_checked W frame then None
      else if eth_src W frame \<noteq> MAC then None
      else case eth_type W frame of
        EthArp \<Rightarrow>
          (let p = eth_payload W frame in
           if length p < 28 \<or> slice_of p 8 14 \<noteq> MAC \<or> slice_of p 14 18 \<noteq> octets GUEST then None
           else Some Arp)
      | EthIpv4 \<Rightarrow>
          (let ip = eth_payload W frame in
           if \<not> ip_checked W ip then None
           else if ip_version W ip \<noteq> 4 \<or> ip_src W ip \<noteq> GUEST \<or> \<not> ip_checksum W ip
              \<or> ip_more_frags W ip \<or> ip_frag_offset W ip \<noteq> 0 then None
           else let src = ip_src W ip; dst = ip_dst W ip; pl = ip_payload W ip in
             (case ip_next_header W ip of
                ProtoTcp \<Rightarrow>
                  if \<not> tcp_checked W pl then None
                  else if tcp_src_port W pl = 0 \<or> tcp_dst_port W pl = 0
                     \<or> (tcp_syn W pl \<and> (tcp_fin W pl \<or> tcp_rst W pl))
                     \<or> \<not> tcp_checksum W pl src dst then None
                  else Some (Ipv4 ip)
              | ProtoUdp \<Rightarrow>
                  if dst \<noteq> GW then None
                  else if \<not> udp_checked W pl then None
                  else if udp_src_port W pl = 0 \<or> udp_dst_port W pl \<noteq> 53
                     \<or> \<not> udp_checksum W pl src dst then None
                  else Some (Ipv4 ip)
              | ProtoIcmp \<Rightarrow> if valid_echo_request W pl then Some (Ipv4 ip) else None
              | ProtoOther \<Rightarrow> None))
      | EthOther \<Rightarrow> None)"

section \<open>TCP flow admission\<close>

definition MAX_FLOWS :: nat where "MAX_FLOWS = 64"

type_synonym flow_key = "ipv4 \<times> 16 word \<times> 16 word"

text \<open>A flow: its socket handle and the instant of its last activity.\<close>

record flow =
  handle :: nat
  last_active :: nat

text \<open>
  \<open>ConnectPermit::take\<close>: the list holds the values that failing compare-exchange
  attempts observe; the result is the counter value that was replaced.
\<close>

fun permit_take :: "nat list \<Rightarrow> nat \<Rightarrow> nat option" where
  "permit_take observed current =
     (if MAX_FLOWS \<le> current then None
      else case observed of [] \<Rightarrow> Some current | o' # os \<Rightarrow> permit_take os o')"

text \<open>Dropping a permit (\<open>fetch_sub\<close>).\<close>

definition permit_drop :: "nat \<Rightarrow> nat" where
  "permit_drop current = current - 1"

text \<open>The oldest flow in TIME_WAIT, in iteration order (\<open>min_by_key\<close>).\<close>

fun oldest_time_wait :: "(nat \<Rightarrow> bool) \<Rightarrow> (flow_key \<times> flow) list \<Rightarrow> (flow_key \<times> flow) option" where
  "oldest_time_wait tw [] = None"
| "oldest_time_wait tw ((k, f) # fs) =
     (if tw (handle f)
      then (case oldest_time_wait tw fs of
              None \<Rightarrow> Some (k, f)
            | Some (k', f') \<Rightarrow> if last_active f' < last_active f then Some (k', f') else Some (k, f))
      else oldest_time_wait tw fs)"

text \<open>A full table retires at most one flow for a new connection.\<close>

definition make_room :: "(nat \<Rightarrow> bool) \<Rightarrow> bool \<Rightarrow> (flow_key \<times> flow) list \<Rightarrow> (flow_key \<times> flow) list" where
  "make_room tw fresh flows =
     (if fresh \<and> MAX_FLOWS \<le> length flows
      then (case oldest_time_wait tw flows of
              None \<Rightarrow> flows
            | Some (k, _) \<Rightarrow> filter (\<lambda>(k', _). k' \<noteq> k) flows)
      else flows)"

datatype tcp_verdict =
    Drop_Frame
  | Pass_Frame
  | Open_Flow ipv4 "16 word"

text \<open>
  The TCP branch of the frame loop: the flow table (a hash map, here the list of its
  entries), the number of connection attempts in progress, and the verdict on the
  frame. \<open>host\<close> is the result of the interface lookup, \<open>listen_ok\<close> whether the
  stack accepts a listening socket, \<open>h\<close> the handle it returns, \<open>observed\<close> the
  contention on the connection counter.
\<close>

definition tcp_admit ::
  "smoltcp \<Rightarrow> ipv4 \<Rightarrow> (ipv4 \<times> 16 word) list \<Rightarrow> (nat \<Rightarrow> bool) \<Rightarrow> ipv4 list option \<Rightarrow> bool \<Rightarrow> nat \<Rightarrow> nat \<Rightarrow> nat list
   \<Rightarrow> bytes \<Rightarrow> (flow_key \<times> flow) list \<Rightarrow> nat \<Rightarrow> tcp_verdict \<times> (flow_key \<times> flow) list \<times> nat" where
  "tcp_admit W resolver private_access tw host listen_ok h now observed ip flows connecting =
     (let tcp = ip_payload W ip; dest = ip_dst W ip in
      if \<not> tcp_checked W tcp then (Drop_Frame, flows, connecting)
      else if tcp_src_port W tcp = 0 \<or> tcp_dst_port W tcp = 0
         \<or> (tcp_syn W tcp \<and> (tcp_fin W tcp \<or> tcp_rst W tcp)) then (Drop_Frame, flows, connecting)
      else
        let dns_tcp = (dest = GW \<and> tcp_dst_port W tcp = 53);
            granted = ((dest, tcp_dst_port W tcp) \<in> set private_access) in
        if \<not> dns_tcp \<and> \<not> granted \<and> \<not> public dest [] then (Drop_Frame, flows, connecting)
        else
          let key = (dest, tcp_dst_port W tcp, tcp_src_port W tcp);
              fresh = (tcp_syn W tcp \<and> \<not> tcp_ack W tcp \<and> map_of flows key = None);
              flows1 = make_room tw fresh flows in
          if fresh \<and> length flows1 < MAX_FLOWS then
            (if \<not> dns_tcp \<and> \<not> granted
                \<and> (case host of None \<Rightarrow> True | Some ips \<Rightarrow> \<not> public dest ips)
             then (Drop_Frame, flows1, connecting)
             else case permit_take observed connecting of
               None \<Rightarrow> (Drop_Frame, flows1, connecting)
             | Some c \<Rightarrow>
                 if \<not> listen_ok then (Drop_Frame, flows1, connecting)
                 else (Open_Flow (if dns_tcp then resolver else dest) (tcp_dst_port W tcp),
                       (key, \<lparr>handle = h, last_active = now\<rparr>) # flows1, c + 1))
          else (Pass_Frame, flows1, connecting))"

section \<open>The DNS exchange table\<close>

record dns_entry =
  client :: nat
  started :: nat
  asked :: question

text \<open>A request of the guest: admitted only if it parses as a query and there is room.\<close>

definition dns_request ::
  "nat \<Rightarrow> bool \<Rightarrow> bool \<Rightarrow> nat \<Rightarrow> bytes \<Rightarrow> dns_entry list \<Rightarrow> dns_entry list" where
  "dns_request now open_ok send_ok from p tab =
     (if length p < 12 \<or> 64 \<le> length tab then tab
      else case query p of
        None \<Rightarrow> tab
      | Some q \<Rightarrow>
          if \<not> open_ok then tab
          else if send_ok then tab @ [\<lparr>client = from, started = now, asked = q\<rparr>] else tab)"

datatype dns_recv = Received bytes | Would_Block | Broken

text \<open>One pass over the table: which entries stay, and the replies sent to the guest.\<close>

definition dns_keep :: "nat \<Rightarrow> dns_entry \<Rightarrow> dns_recv \<Rightarrow> bool \<times> (nat \<times> bytes) list" where
  "dns_keep now e r =
     (if 5000000000 \<le> now - started e then (False, [])
      else case r of
        Received p \<Rightarrow>
          if matches (asked e) p then
            (False,
             if 1232 < length p
             then (case truncated_reply (asked e) p of None \<Rightarrow> [] | Some t \<Rightarrow> [(client e, t)])
             else [(client e, p)])
          else (True, [])
      | Would_Block \<Rightarrow> (True, [])
      | Broken \<Rightarrow> (False, []))"

definition dns_poll :: "nat \<Rightarrow> (dns_entry \<times> dns_recv) list \<Rightarrow> dns_entry list \<times> (nat \<times> bytes) list" where
  "dns_poll now tab =
     (map fst (filter (\<lambda>(e, r). fst (dns_keep now e r)) tab),
      concat (map (\<lambda>(e, r). snd (dns_keep now e r)) tab))"

section \<open>The echo proxy\<close>

definition MAX_PENDING :: nat where "MAX_PENDING = 64"
definition DEADLINE :: nat where "DEADLINE = 5000000000"
definition INTERVAL :: nat where "INTERVAL = 50000000"
definition BURST :: nat where "BURST = 1000000000"

record echo =
  destination :: ipv4
  host_ident :: "16 word"
  request :: bytes
  e_started :: nat

record forwarder =
  pending :: "echo list"
  credits :: nat
  f_last :: nat
  reported_socket_error :: bool

definition new_forwarder :: "nat \<Rightarrow> forwarder" where
  "new_forwarder now = \<lparr>pending = [], credits = BURST, f_last = now, reported_socket_error = False\<rparr>"

text \<open>
  \<open>Echo::open\<close>: \<open>sock\<close> is the outcome of opening, connecting and sending on a ping
  socket, the identifier that the kernel assigned.
\<close>

definition echo_open :: "16 word option \<Rightarrow> ipv4 \<Rightarrow> bytes \<Rightarrow> nat \<Rightarrow> echo option" where
  "echo_open sock dest bs now =
     map_option (\<lambda>ident. \<lparr>destination = dest, host_ident = ident, request = bs, e_started = now\<rparr>) sock"

definition echo_matches :: "smoltcp \<Rightarrow> echo \<Rightarrow> ipv4 \<Rightarrow> bytes \<Rightarrow> bool" where
  "echo_matches W e source reply =
     (if source \<noteq> destination e \<or> length reply \<noteq> length (request e) then False
      else icmp_checked W reply \<and> icmp_echo_reply W reply \<and> icmp_code W reply = 0
        \<and> icmp_checksum W reply \<and> icmp_ident W reply = host_ident e
        \<and> drop 6 reply = drop 6 (request e))"

text \<open>
  \<open>reply_frame\<close>; \<open>fill_ip\<close> and \<open>fill_icmp\<close> are the header operations of the
  crate (checksums, and the echo-reply type for the second).
\<close>

definition reply_frame :: "(bytes \<Rightarrow> bytes) \<Rightarrow> (bytes \<Rightarrow> bytes) \<Rightarrow> ipv4 \<Rightarrow> bytes \<Rightarrow> bytes" where
  "reply_frame fill_ip fill_icmp source req =
     MAC @ [2, 0, 0, 0, 0, 1] @ [8, 0]
     @ fill_ip ([0x45, 0] @ be_bytes 2 ((20 + length req) mod 2 ^ 16) @ [0, 0, 0, 0, 64, 1, 0, 0]
         @ octets source @ octets GUEST)
     @ fill_icmp req"

definition echo_request ::
  "smoltcp \<Rightarrow> (ipv4 \<Rightarrow> bytes \<Rightarrow> bytes) \<Rightarrow> ipv4 list option \<Rightarrow> 16 word option
   \<Rightarrow> ipv4 \<Rightarrow> bytes \<Rightarrow> nat \<Rightarrow> forwarder \<Rightarrow> bytes option \<times> forwarder" where
  "echo_request W rframe host_ips sock dest bs now f =
     (if \<not> valid_echo_request W bs then (None, f)
      else
        let f = f\<lparr>credits := min (credits f + (now - f_last f)) BURST, f_last := now\<rparr> in
        if credits f < INTERVAL \<or> MAX_PENDING \<le> length (pending f) then (None, f)
        else
          let f = f\<lparr>credits := credits f - INTERVAL\<rparr> in
          if dest = GW then (Some (rframe dest bs), f)
          else if \<not> public dest [] then (None, f)
          else case host_ips of
            None \<Rightarrow> (None, f)
          | Some ips \<Rightarrow>
              if \<not> public dest ips then (None, f)
              else case echo_open sock dest bs now of
                Some e \<Rightarrow> (None, f\<lparr>pending := pending f @ [e]\<rparr>)
              | None \<Rightarrow> (None, f\<lparr>reported_socket_error := True\<rparr>))"

datatype echo_recv = Echo_From ipv4 bytes | Echo_Other | Echo_Retry | Echo_Broken

definition echo_keep :: "smoltcp \<Rightarrow> (ipv4 \<Rightarrow> bytes \<Rightarrow> bytes) \<Rightarrow> nat \<Rightarrow> echo \<Rightarrow> echo_recv \<Rightarrow> bool \<times> bytes list" where
  "echo_keep W rframe now e r =
     (if DEADLINE \<le> now - e_started e then (False, [])
      else case r of
        Echo_From source p \<Rightarrow>
          if echo_matches W e source p then (False, [rframe (destination e) (request e)]) else (True, [])
      | Echo_Other \<Rightarrow> (True, [])
      | Echo_Retry \<Rightarrow> (True, [])
      | Echo_Broken \<Rightarrow> (False, []))"

definition echo_poll ::
  "smoltcp \<Rightarrow> (ipv4 \<Rightarrow> bytes \<Rightarrow> bytes) \<Rightarrow> nat \<Rightarrow> (echo \<Rightarrow> echo_recv) \<Rightarrow> forwarder \<Rightarrow> bytes list \<times> forwarder" where
  "echo_poll W rframe now recv f =
     (concat (map (\<lambda>e. snd (echo_keep W rframe now e (recv e))) (pending f)),
      f\<lparr>pending := filter (\<lambda>e. fst (echo_keep W rframe now e (recv e))) (pending f)\<rparr>)"

text \<open>\<open>enqueue_echo\<close>: a bounded transmit queue of length-prefixed frames.\<close>

definition enqueue_echo :: "bytes list \<Rightarrow> bytes \<Rightarrow> bytes list" where
  "enqueue_echo q frame =
     (if length q < 64 then q @ [be_bytes 4 (length frame mod 2 ^ 32) @ frame] else q)"

section \<open>Destination policy: the octet tests are the CIDR blocks\<close>

lemma byte_eq_unat: "((a :: byte) = b) = (unat a = unat b)"
  by (simp add: word_unat_eq_iff)

lemma addr32_eq: "addr32 (a, b, c, d) = ((unat a * 256 + unat b) * 256 + unat c) * 256 + unat d"
  by (simp add: addr32_def be_nat_def)

lemma shift_byte: "(x * 256 + unat (b :: byte)) div 256 = x"
  by simp

lemma addr32_div:
  "addr32 (a, b, c, d) div 256 = (unat a * 256 + unat b) * 256 + unat c"
  "addr32 (a, b, c, d) div 65536 = unat a * 256 + unat b"
  "addr32 (a, b, c, d) div 16777216 = unat a"
proof -
  show 8: "addr32 (a, b, c, d) div 256 = (unat a * 256 + unat b) * 256 + unat c"
    unfolding addr32_eq by (rule shift_byte)
  have "addr32 (a, b, c, d) div 65536 = addr32 (a, b, c, d) div 256 div 256"
    by (simp add: div_mult2_eq [symmetric])
  then show 16: "addr32 (a, b, c, d) div 65536 = unat a * 256 + unat b"
    unfolding 8 shift_byte .
  have "addr32 (a, b, c, d) div 16777216 = addr32 (a, b, c, d) div 65536 div 256"
    by (simp add: div_mult2_eq [symmetric])
  then show "addr32 (a, b, c, d) div 16777216 = unat a"
    unfolding 16 shift_byte .
qed

lemma addr32_div_more:
  "addr32 (a, b, c, d) div 536870912 = unat a div 32"
  "addr32 (a, b, c, d) div 4194304 = (unat a * 256 + unat b) div 64"
  "addr32 (a, b, c, d) div 1048576 = (unat a * 256 + unat b) div 16"
  "addr32 (a, b, c, d) div 131072 = (unat a * 256 + unat b) div 2"
proof -
  let ?x = "addr32 (a, b, c, d)"
  have "?x div 536870912 = ?x div 16777216 div 32" "?x div 4194304 = ?x div 65536 div 64"
    "?x div 1048576 = ?x div 65536 div 16" "?x div 131072 = ?x div 65536 div 2"
    by (simp_all add: div_mult2_eq [symmetric])
  then show "?x div 536870912 = unat a div 32" "?x div 4194304 = (unat a * 256 + unat b) div 64"
    "?x div 1048576 = (unat a * 256 + unat b) div 16" "?x div 131072 = (unat a * 256 + unat b) div 2"
    by (simp_all only: addr32_div)
qed

lemma pair_eq:
  "(x * 256 + unat (b :: byte) = y * 256 + unat (b' :: byte)) \<longleftrightarrow> x = y \<and> b = b'"
proof
  assume eq: "x * 256 + unat b = y * 256 + unat b'"
  from arg_cong [OF eq, of "\<lambda>n. n div 256"] have "x = y" by simp
  with eq show "x = y \<and> b = b'" by (simp add: byte_eq_unat)
qed simp

lemma block16: "in_cidr (a, b, c, d) ((a', b', c', d'), 16) \<longleftrightarrow> a = a' \<and> b = b'"
  by (simp add: in_cidr_def addr32_div pair_eq byte_eq_unat [of a])

lemma block24: "in_cidr (a, b, c, d) ((a', b', c', d'), 24) \<longleftrightarrow> a = a' \<and> b = b' \<and> c = c'"
proof -
  have "in_cidr (a, b, c, d) ((a', b', c', d'), 24) \<longleftrightarrow>
      addr32 (a, b, c, d) div 256 = addr32 (a', b', c', d') div 256"
    by (simp add: in_cidr_def)
  also have "\<dots> \<longleftrightarrow> a = a' \<and> b = b' \<and> c = c'"
    unfolding addr32_div pair_eq by (auto simp: byte_eq_unat [of a])
  finally show ?thesis .
qed

lemma block8: "in_cidr (a, b, c, d) ((a', b', c', d'), 8) \<longleftrightarrow> a = a'"
  by (simp add: in_cidr_def addr32_div byte_eq_unat)

lemma split_octet:
  fixes x y k m :: nat
  assumes "y < 256" "k * m = 256" "0 < k"
  shows "(x * 256 + y) div k = n \<longleftrightarrow> x = n div m \<and> y div k = n mod m"
proof -
  have "(x * 256 + y) div k = x * m + y div k"
    using assms(3) by (simp flip: assms(2) add: mult.left_commute [of x] mult.assoc)
  moreover have "y div k < m"
    using assms by (simp add: div_less_iff_less_mult mult.commute)
  ultimately show ?thesis
    by (auto simp: mult.commute)
qed

lemma block_ranges:
  "in_cidr (a, b, c, d) ((224, 0, 0, 0), 3) \<longleftrightarrow> 224 \<le> a"
  "in_cidr (a, b, c, d) ((100, 64, 0, 0), 10) \<longleftrightarrow> a = 100 \<and> 64 \<le> b \<and> b \<le> 127"
  "in_cidr (a, b, c, d) ((172, 16, 0, 0), 12) \<longleftrightarrow> a = 172 \<and> 16 \<le> b \<and> b \<le> 31"
  "in_cidr (a, b, c, d) ((198, 18, 0, 0), 15) \<longleftrightarrow> a = 198 \<and> (b = 18 \<or> b = 19)"
proof -
  have u: "unat a < 256" "unat b < 256" by simp_all
  have "unat a div 32 = 7 \<longleftrightarrow> 224 \<le> unat a" using u by arith
  then show "in_cidr (a, b, c, d) ((224, 0, 0, 0), 3) \<longleftrightarrow> 224 \<le> a"
    by (simp add: in_cidr_def addr32_div_more word_le_nat_alt)
  have "unat b div 64 = 1 \<longleftrightarrow> 64 \<le> unat b \<and> unat b \<le> 127" by arith
  then show "in_cidr (a, b, c, d) ((100, 64, 0, 0), 10) \<longleftrightarrow> a = 100 \<and> 64 \<le> b \<and> b \<le> 127"
    using split_octet [of "unat b" 64 4]
    by (simp add: in_cidr_def addr32_div_more word_le_nat_alt byte_eq_unat)
  have "unat b div 16 = 1 \<longleftrightarrow> 16 \<le> unat b \<and> unat b \<le> 31" by arith
  then show "in_cidr (a, b, c, d) ((172, 16, 0, 0), 12) \<longleftrightarrow> a = 172 \<and> 16 \<le> b \<and> b \<le> 31"
    using split_octet [of "unat b" 16 16]
    by (simp add: in_cidr_def addr32_div_more word_le_nat_alt byte_eq_unat)
  have "unat b div 2 = 9 \<longleftrightarrow> unat b = 18 \<or> unat b = 19" by arith
  then show "in_cidr (a, b, c, d) ((198, 18, 0, 0), 15) \<longleftrightarrow> a = 198 \<and> (b = 18 \<or> b = 19)"
    using split_octet [of "unat b" 2 128]
    by (simp add: in_cidr_def addr32_div_more byte_eq_unat)
qed

lemma public_cidr_aux:
  "public ip host \<longleftrightarrow> ip \<notin> set host \<and> (\<forall>blk \<in> set special_blocks. \<not> in_cidr ip blk)"
  by (cases ip) (auto simp: public_def special_blocks_def block8 block16 block24 block_ranges)

section \<open>Flow admission\<close>

declare permit_take.simps [simp del]

lemma permit_take_bound: "permit_take os c = Some x \<Longrightarrow> x < MAX_FLOWS"
proof (induction os arbitrary: c)
  case Nil
  then show ?case by (simp add: permit_take.simps [of "[]"] split: if_splits)
next
  case (Cons o' os)
  then show ?case by (simp add: permit_take.simps [of "o' # os"] split: if_splits)
qed

lemma oldest_time_wait_in: "oldest_time_wait tw fs = Some (k, f) \<Longrightarrow> (k, f) \<in> set fs \<and> tw (handle f)"
proof (induction fs arbitrary: k f)
  case Nil
  then show ?case by simp
next
  case (Cons e fs)
  obtain k1 f1 where e: "e = (k1, f1)" by fastforce
  show ?case
  proof (cases "oldest_time_wait tw fs")
    case None
    with Cons.prems e show ?thesis by (auto split: if_splits)
  next
    case (Some r)
    obtain k2 f2 where r: "r = (k2, f2)" by fastforce
    have "(k, f) = (k1, f1) \<and> tw (handle f1) \<or> (k, f) = (k2, f2)"
      using Cons.prems e Some r by (auto split: if_splits)
    with Cons.IH [of k2 f2] Some r e show ?thesis by auto
  qed
qed

lemma map_of_filter_key:
  "map_of (filter (\<lambda>(k', _). k' \<noteq> k) m) = (map_of m)(k := None)"
  by (induction m) (auto simp: fun_eq_iff)

lemma make_room_ok:
  assumes "distinct (map fst flows)" "length flows \<le> MAX_FLOWS"
  shows "distinct (map fst (make_room tw fresh flows))" "length (make_room tw fresh flows) \<le> MAX_FLOWS"
    "map_of (make_room tw fresh flows) \<subseteq>\<^sub>m map_of flows"
    "map_of flows k = Some f \<Longrightarrow> map_of (make_room tw fresh flows) k = None \<Longrightarrow> tw (handle f)"
    "map_of flows k = None \<Longrightarrow> map_of (make_room tw fresh flows) k = None"
proof -
  show "distinct (map fst (make_room tw fresh flows))"
    using assms(1) by (auto simp: make_room_def distinct_map_filter split: option.splits)
  show "length (make_room tw fresh flows) \<le> MAX_FLOWS"
    using assms(2) by (auto simp: make_room_def intro: order_trans [OF length_filter_le] split: option.splits)
  show "map_of (make_room tw fresh flows) \<subseteq>\<^sub>m map_of flows"
    by (auto simp: make_room_def map_of_filter_key map_le_def split: option.splits)
  show "map_of flows k = None \<Longrightarrow> map_of (make_room tw fresh flows) k = None"
    by (auto simp: make_room_def map_of_filter_key split: option.splits)
  assume k: "map_of flows k = Some f" "map_of (make_room tw fresh flows) k = None"
  then obtain f' where "oldest_time_wait tw flows = Some (k, f')"
    by (auto simp: make_room_def map_of_filter_key split: if_splits option.splits)
  then have "(k, f') \<in> set flows" "tw (handle f')"
    by (auto dest: oldest_time_wait_in)
  with k(1) assms(1) show "tw (handle f)" by simp
qed

text \<open>
  C36. Flow admission: whatever the frame, the flow table keeps at most 64 entries with
  distinct keys, no flow that is not in TIME_WAIT is retired, and a connection is only
  ever opened to the resolver (for DNS to the gateway address), to an endpoint that the
  host granted, or to a public address that is not one of the host's own; then at most
  64 connection attempts are in progress.
\<close>

theorem tcp_admit_safe:
  assumes "tcp_admit W resolver acc tw host listen_ok h now observed ip flows connecting = (v, flows', connecting')"
    and flows: "distinct (map fst flows)" "length flows \<le> MAX_FLOWS"
  shows "distinct (map fst flows') \<and> length flows' \<le> MAX_FLOWS
    \<and> (\<forall>k f. map_of flows k = Some f \<and> map_of flows' k = None \<longrightarrow> tw (handle f))
    \<and> (\<forall>target port. v = Open_Flow target port \<longrightarrow> connecting' \<le> MAX_FLOWS
         \<and> (target = resolver \<and> ip_dst W ip = GW \<and> port = 53
            \<or> target = ip_dst W ip \<and> (target, port) \<in> set acc
            \<or> target = ip_dst W ip \<and> public target [] \<and> (\<exists>ips. host = Some ips \<and> public target ips)))"
proof -
  let ?key = "(ip_dst W ip, tcp_dst_port W (ip_payload W ip), tcp_src_port W (ip_payload W ip))"
  let ?fresh = "tcp_syn W (ip_payload W ip) \<and> \<not> tcp_ack W (ip_payload W ip) \<and> map_of flows ?key = None"
  let ?flows1 = "make_room tw ?fresh flows"
  note room = make_room_ok [OF flows, where tw = tw and fresh = ?fresh]
  have "flows' = flows \<or> flows' = ?flows1
      \<or> ?fresh \<and> length ?flows1 < MAX_FLOWS \<and> flows' = (?key, \<lparr>handle = h, last_active = now\<rparr>) # ?flows1"
    using assms(1) unfolding tcp_admit_def Let_def by (auto split: if_splits option.splits)
  then have "distinct (map fst flows') \<and> length flows' \<le> MAX_FLOWS
      \<and> (\<forall>k f. map_of flows k = Some f \<and> map_of flows' k = None \<longrightarrow> tw (handle f))"
  proof (elim disjE conjE)
    assume f: "map_of flows ?key = None" "length ?flows1 < MAX_FLOWS"
      "flows' = (?key, \<lparr>handle = h, last_active = now\<rparr>) # ?flows1"
    have "map_of ?flows1 ?key = None"
      using f(1) by (rule room(5))
    then have "?key \<notin> fst ` set ?flows1" by (simp add: map_of_eq_None_iff)
    with f room show ?thesis by (auto split: if_splits)
  qed (use flows room in auto)
  moreover have "connecting' \<le> MAX_FLOWS
      \<and> (target = resolver \<and> ip_dst W ip = GW \<and> port = 53
         \<or> target = ip_dst W ip \<and> (target, port) \<in> set acc
         \<or> target = ip_dst W ip \<and> public target [] \<and> (\<exists>ips. host = Some ips \<and> public target ips))"
    if "v = Open_Flow target port" for target port
    using assms(1) that unfolding tcp_admit_def Let_def
    by (auto split: if_splits option.splits dest: permit_take_bound)
  ultimately show ?thesis by blast
qed

text \<open>A concrete packet reader: every packet is a TCP SYN from the guest to \<open>1.1.1.1:443\<close>.\<close>

definition syn_wire :: smoltcp where
  "syn_wire =
     \<lparr>eth_checked = \<lambda>_. True, eth_src = \<lambda>_. MAC, eth_type = \<lambda>_. EthIpv4, eth_payload = \<lambda>f. f,
      ip_checked = \<lambda>_. True, ip_version = \<lambda>_. 4, ip_src = \<lambda>_. GUEST, ip_dst = \<lambda>_. (1, 1, 1, 1),
      ip_checksum = \<lambda>_. True, ip_more_frags = \<lambda>_. False, ip_frag_offset = \<lambda>_. 0,
      ip_next_header = \<lambda>_. ProtoTcp, ip_payload = \<lambda>p. p,
      tcp_checked = \<lambda>_. True, tcp_src_port = \<lambda>_. 40000, tcp_dst_port = \<lambda>_. 443,
      tcp_syn = \<lambda>_. True, tcp_ack = \<lambda>_. False, tcp_fin = \<lambda>_. False, tcp_rst = \<lambda>_. False,
      tcp_checksum = \<lambda>_ _ _. True,
      udp_checked = \<lambda>_. True, udp_src_port = \<lambda>_. 1, udp_dst_port = \<lambda>_. 53, udp_checksum = \<lambda>_ _ _. True,
      icmp_checked = \<lambda>_. True, icmp_echo_request = \<lambda>_. True, icmp_echo_reply = \<lambda>_. True,
      icmp_code = \<lambda>_. 0, icmp_checksum = \<lambda>_. True, icmp_ident = \<lambda>_. 7\<rparr>"

lemma public_example: "public (1, 1, 1, 1) []"
  by code_simp

lemma syn_admitted:
  "tcp_admit syn_wire (9, 9, 9, 9) [] (\<lambda>_. False) (Some []) True 5 0 [] [] [] 3 =
     (Open_Flow (1, 1, 1, 1) 443, [(((1, 1, 1, 1), 443, 40000), \<lparr>handle = 5, last_active = 0\<rparr>)], 4)"
  by (simp add: tcp_admit_def Let_def syn_wire_def make_room_def MAX_FLOWS_def GW_def public_example permit_take.simps)

theorem tcp_admit_safe_witness:
  "length [(((1, 1, 1, 1) :: ipv4, 443 :: 16 word, 40000 :: 16 word), \<lparr>handle = 5, last_active = 0\<rparr>)] \<le> MAX_FLOWS
    \<and> (\<exists>ips. Some [] = Some ips \<and> public (1, 1, 1, 1) ips)"
  using tcp_admit_safe [OF syn_admitted] by (simp add: GW_def syn_wire_def)

text \<open>
  C37. The destination test on octets is exactly membership in the thirteen special-purpose
  address blocks (this network, private, loopback, shared, link-local, benchmarking,
  documentation, 6to4 relay, multicast and reserved) or in the host's own addresses.
\<close>

theorem public_iff_no_special_block:
  "public ip host = (ip \<notin> set host \<and> list_all (\<lambda>blk. \<not> in_cidr ip blk) special_blocks)"
  by (simp add: public_cidr_aux list_all_iff)

section \<open>The echo proxy\<close>

text \<open>
  Runs of the proxy: requests and polls in any order, at non-decreasing instants, with
  any outcome of the host lookups and sockets. The last argument counts the requests
  that were answered or forwarded.
\<close>

inductive echo_run :: "smoltcp \<Rightarrow> (ipv4 \<Rightarrow> bytes \<Rightarrow> bytes) \<Rightarrow> nat \<Rightarrow> nat \<Rightarrow> forwarder \<Rightarrow> nat \<Rightarrow> bool"
  for W rframe start where
  start: "echo_run W rframe start start (new_forwarder start) 0"
| request: "echo_run W rframe start t f n \<Longrightarrow> t \<le> now \<Longrightarrow>
    echo_request W rframe ips sock dest bs now f = (reply, f') \<Longrightarrow>
    echo_run W rframe start now f'
      (n + (if reply = None then 0 else 1) + (length (pending f') - length (pending f)))"
| poll: "echo_run W rframe start t f n \<Longrightarrow> t \<le> now \<Longrightarrow>
    echo_poll W rframe now recv f = (frames, f') \<Longrightarrow> echo_run W rframe start now f' n"

lemma echo_request_step:
  assumes "echo_request W rframe ips sock dest bs now f = (reply, f')"
    "credits f \<le> BURST" "length (pending f) \<le> MAX_PENDING" "f_last f \<le> now"
  shows "credits f' \<le> BURST" "length (pending f') \<le> MAX_PENDING" "f_last f' \<le> now" "f_last f \<le> f_last f'"
    "((if reply = None then 0 else 1) + (length (pending f') - length (pending f))) * INTERVAL + credits f'
       \<le> credits f + (f_last f' - f_last f)"
    "\<forall>e \<in> set (pending f'). e \<in> set (pending f) \<or> public (destination e) [] \<and> e_started e = now"
  using assms by (auto simp: echo_request_def echo_open_def Let_def split: if_splits option.splits)

lemma echo_poll_step:
  assumes "echo_poll W rframe now recv f = (frames, f')"
  shows "credits f' = credits f" "length (pending f') \<le> length (pending f)" "f_last f' = f_last f"
    "set (pending f') \<subseteq> set (pending f)"
  using assms by (auto simp: echo_poll_def)

lemma echo_run_inv:
  "echo_run W rframe start t f n \<Longrightarrow>
     start \<le> f_last f \<and> f_last f \<le> t \<and> credits f \<le> BURST \<and> length (pending f) \<le> MAX_PENDING
     \<and> n * INTERVAL + credits f \<le> BURST + (f_last f - start)
     \<and> (\<forall>e \<in> set (pending f). public (destination e) [])"
proof (induction rule: echo_run.induct)
  case start
  then show ?case by (simp add: new_forwarder_def)
next
  case (request t f n now ips sock dest bs reply f')
  have "credits f \<le> BURST" "length (pending f) \<le> MAX_PENDING" "f_last f \<le> now"
    using request by auto
  note st = echo_request_step [OF request.hyps(3) this]
  have "(n + (if reply = None then 0 else 1) + (length (pending f') - length (pending f))) * INTERVAL =
      n * INTERVAL + ((if reply = None then 0 else 1) + (length (pending f') - length (pending f))) * INTERVAL"
    by (simp add: algebra_simps)
  with st request.IH show ?case by auto
next
  case (poll t f n now recv frames f')
  then show ?case
    using echo_poll_step [OF poll.hyps(3)] by auto
qed

text \<open>
  The echo proxy is bounded in every run: at most 64 requests are pending, every
  pending request is for a public address, and the requests answered or forwarded up
  to an instant number at most 20 plus one per 50 milliseconds since the start.
\<close>

theorem echo_rate_bounded:
  assumes "echo_run W rframe start t f n"
  shows "length (pending f) \<le> MAX_PENDING \<and> n \<le> 20 + (t - start) div INTERVAL
    \<and> (\<forall>e \<in> set (pending f). public (destination e) [])"
proof -
  note inv = echo_run_inv [OF assms]
  then have "n * INTERVAL \<le> BURST + (t - start)" by auto
  then have "n \<le> (BURST + (t - start)) div INTERVAL"
    by (simp add: less_eq_div_iff_mult_less_eq INTERVAL_def)
  also have "\<dots> = 20 + (t - start) div INTERVAL"
    using div_mult_self3 [of INTERVAL 20 "t - start"] by (simp add: BURST_def INTERVAL_def)
  finally show ?thesis using inv by blast
qed

lemma one_echo:
  "echo_run syn_wire (\<lambda>_ _. []) 0 10
     \<lparr>pending = [\<lparr>destination = (1, 1, 1, 1), host_ident = 9, request = replicate 8 0, e_started = 10\<rparr>],
      credits = 950000000, f_last = 10, reported_socket_error = False\<rparr> 1"
proof -
  have "echo_request syn_wire (\<lambda>_ _. []) (Some []) (Some 9) (1, 1, 1, 1) (replicate 8 0) 10 (new_forwarder 0) =
    (None, \<lparr>pending = [\<lparr>destination = (1, 1, 1, 1), host_ident = 9, request = replicate 8 0, e_started = 10\<rparr>],
      credits = 950000000, f_last = 10, reported_socket_error = False\<rparr>)"
    by (simp add: echo_request_def valid_echo_request_def syn_wire_def new_forwarder_def echo_open_def
        BURST_def INTERVAL_def MAX_PENDING_def GW_def public_example Let_def)
  from echo_run.request [OF echo_run.start _ this] show ?thesis
    by (simp add: new_forwarder_def)
qed

theorem echo_rate_bounded_witness: "(1::nat) \<le> 20 + (10 - 0) div INTERVAL"
  using echo_rate_bounded [OF one_echo] by blast

section \<open>The DNS exchange table\<close>

lemma dns_keep_reply:
  assumes "(c, r) \<in> set (snd (dns_keep now e rv))"
  shows "c = client e" "matches (asked e) r" "length r \<le> 1232" "\<not> fst (dns_keep now e rv)"
    "now - started e < 5000000000"
proof -
  from assms obtain p where p: "rv = Received p" "matches (asked e) p" "now - started e < 5000000000"
    by (auto simp: dns_keep_def split: if_splits dns_recv.splits)
  show "now - started e < 5000000000" by (rule p(3))
  show "\<not> fst (dns_keep now e rv)" using p by (simp add: dns_keep_def)
  obtain t where t: "truncated_reply (asked e) p = Some t" "matches (asked e) t" "length t \<le> 273"
    using truncated_reply_ok [OF p(2)] by blast
  from assms p t show "c = client e" "matches (asked e) r" "length r \<le> 1232"
    by (auto simp: dns_keep_def split: if_splits)
qed

text \<open>
  C38. DNS forwarding: the table never holds more than 64 exchanges, and every datagram
  sent back to the guest fits the link (at most 1232 bytes), goes to the client that
  asked, and answers the question of an exchange that is younger than five seconds and
  that is closed by it.
\<close>

theorem dns_replies_answer_questions:
  assumes "length tab \<le> 64"
  shows "length (dns_request now open_ok send_ok from p tab) \<le> 64
    \<and> (\<forall>xs c r. map fst xs = tab \<and> (c, r) \<in> set (snd (dns_poll now xs)) \<longrightarrow>
         length r \<le> 1232 \<and> (\<exists>e rv. (e, rv) \<in> set xs \<and> client e = c \<and> matches (asked e) r
           \<and> now - started e < 5000000000 \<and> \<not> fst (dns_keep now e rv)))"
proof
  show "length (dns_request now open_ok send_ok from p tab) \<le> 64"
    using assms by (simp add: dns_request_def split: option.splits)
  show "\<forall>xs c r. map fst xs = tab \<and> (c, r) \<in> set (snd (dns_poll now xs)) \<longrightarrow>
         length r \<le> 1232 \<and> (\<exists>e rv. (e, rv) \<in> set xs \<and> client e = c \<and> matches (asked e) r
           \<and> now - started e < 5000000000 \<and> \<not> fst (dns_keep now e rv))"
    by (fastforce simp: dns_poll_def dest: dns_keep_reply)
qed

theorem dns_replies_answer_questions_witness:
  "\<exists>r. snd (dns_poll 7 [(\<lparr>client = 1, started = 0, asked = example_question\<rparr>, Received example_reply)]) = [(1, r)]
     \<and> length r \<le> 1232"
proof -
  have "snd (dns_poll 7 [(\<lparr>client = 1, started = 0, asked = example_question\<rparr>, Received example_reply)]) =
      [(1, example_reply)]"
    using example_matches by (simp add: dns_poll_def dns_keep_def example_reply_def)
  moreover have "length [\<lparr>client = 1, started = 0, asked = example_question\<rparr>] \<le> (64 :: nat)" by simp
  note dns_replies_answer_questions [OF this, THEN conjunct2, rule_format,
      of "[(\<lparr>client = 1, started = 0, asked = example_question\<rparr>, Received example_reply)]" 1 example_reply 7]
  ultimately show ?thesis by auto
qed

end
