(* ===== verification/BTree_Map.thy ===== *)
theory BTree_Map
  imports Prelude
begin

text \<open>
  Rust's \<open>BTreeMap\<close> as an association list in strictly increasing key order: what
  the sources use of it is lookup, insertion, removal, iteration in key order,
  \<open>extend\<close>, \<open>retain\<close> and extensional equality. The interface is a locale, and the
  sorted list is shown to provide it; the clients (manifests, dirty maps, index
  roots) rest on the facts of the interpretation.
\<close>

type_synonym ('k, 'v) btree = "('k \<times> 'v) list"

abbreviation bt_get :: "('k, 'v) btree \<Rightarrow> 'k \<Rightarrow> 'v option" where
  "bt_get \<equiv> map_of"

fun bt_insert :: "'k::linorder \<Rightarrow> 'v \<Rightarrow> ('k, 'v) btree \<Rightarrow> ('k, 'v) btree" where
  "bt_insert k v [] = [(k, v)]"
| "bt_insert k v ((k', v') # m) =
     (if k < k' then (k, v) # (k', v') # m
      else if k = k' then (k, v) # m
      else (k', v') # bt_insert k v m)"

definition bt_remove :: "'k::linorder \<Rightarrow> ('k, 'v) btree \<Rightarrow> ('k, 'v) btree" where
  "bt_remove k m = filter (\<lambda>(k', _). k' \<noteq> k) m"

definition bt_extend :: "('k::linorder, 'v) btree \<Rightarrow> ('k, 'v) btree \<Rightarrow> ('k, 'v) btree" where
  "bt_extend m n = fold (\<lambda>(k, v). bt_insert k v) n m"

definition bt_retain :: "('k \<Rightarrow> 'v \<Rightarrow> bool) \<Rightarrow> ('k, 'v) btree \<Rightarrow> ('k, 'v) btree" where
  "bt_retain p m = filter (\<lambda>(k, v). p k v) m"

definition bt_ok :: "('k::linorder, 'v) btree \<Rightarrow> bool" where
  "bt_ok m = sorted_wrt (<) (map fst m)"

section \<open>The interface\<close>

locale ordered_map =
  fixes get :: "'m \<Rightarrow> 'k \<Rightarrow> 'v option"
    and put :: "'k \<Rightarrow> 'v \<Rightarrow> 'm \<Rightarrow> 'm"
    and del :: "'k \<Rightarrow> 'm \<Rightarrow> 'm"
    and entries :: "'m \<Rightarrow> ('k \<times> 'v) list"
    and emp :: 'm
    and inv :: "'m \<Rightarrow> bool"
  assumes get_emp: "get emp k = None"
    and get_put: "inv m \<Longrightarrow> get (put k v m) = (get m)(k \<mapsto> v)"
    and get_del: "inv m \<Longrightarrow> get (del k m) = (get m)(k := None)"
    and get_entries: "inv m \<Longrightarrow> (k, v) \<in> set (entries m) \<longleftrightarrow> get m k = Some v"
    and inv_emp: "inv emp"
    and inv_put: "inv m \<Longrightarrow> inv (put k v m)"
    and inv_del: "inv m \<Longrightarrow> inv (del k m)"
    and distinct_entries: "inv m \<Longrightarrow> distinct (map fst (entries m))"
begin

text \<open>Insertion of every entry of a list, in order (\<open>extend\<close>).\<close>

lemma inv_fold_put: "inv m \<Longrightarrow> inv (fold (\<lambda>(k, v). put k v) es m)"
  by (induction es arbitrary: m) (auto simp: inv_put)

lemma get_fold_put:
  "inv m \<Longrightarrow> distinct (map fst es) \<Longrightarrow>
    get (fold (\<lambda>(k, v). put k v) es m) k = (case map_of es k of None \<Rightarrow> get m k | Some v \<Rightarrow> Some v)"
proof (induction es arbitrary: m)
  case Nil
  then show ?case by simp
next
  case (Cons e es)
  obtain k' v' where e: "e = (k', v')" by force
  from Cons.prems(2) e have "map_of es k' = None"
    by (auto simp: map_of_eq_None_iff)
  with Cons e show ?case
    by (auto simp: inv_put get_put split: option.split)
qed

lemma finite_dom: "inv m \<Longrightarrow> finite (dom (get m))"
proof -
  assume m: "inv m"
  have "dom (get m) = fst ` set (entries m)"
    using get_entries [OF m] by (force simp: dom_def)
  then show ?thesis by simp
qed

lemma card_dom: "inv m \<Longrightarrow> card (dom (get m)) = length (entries m)"
proof -
  assume m: "inv m"
  have "dom (get m) = set (map fst (entries m))"
    using get_entries [OF m] by (force simp: dom_def)
  then show ?thesis
    using distinct_entries [OF m] by (simp add: distinct_card del: set_map)
qed

end

section \<open>Sorted association lists provide it\<close>

lemma bt_ok_Nil [simp]: "bt_ok []"
  by (simp add: bt_ok_def)

lemma bt_ok_Cons [simp]: "bt_ok ((k, v) # m) \<longleftrightarrow> (\<forall>k' \<in> fst ` set m. k < k') \<and> bt_ok m"
  by (auto simp: bt_ok_def)

lemma bt_ok_distinct: "bt_ok m \<Longrightarrow> distinct (map fst m)"
  by (simp add: bt_ok_def strict_sorted_iff)

lemma set_bt_insert: "fst ` set (bt_insert k v m) = insert k (fst ` set m)"
  by (induction k v m rule: bt_insert.induct) auto

lemma bt_ok_insert [simp]: "bt_ok m \<Longrightarrow> bt_ok (bt_insert k v m)"
  by (induction k v m rule: bt_insert.induct) (auto simp: set_bt_insert)

lemma bt_get_insert [simp]: "bt_ok m \<Longrightarrow> bt_get (bt_insert k v m) = (bt_get m)(k \<mapsto> v)"
proof (induction k v m rule: bt_insert.induct)
  case (1 k v)
  then show ?case by (simp add: fun_eq_iff)
next
  case (2 k v k' v' m)
  then show ?case by (auto simp: fun_eq_iff)
qed

lemma bt_ok_filter [simp]: "bt_ok m \<Longrightarrow> bt_ok (filter p m)"
  by (induction m) auto

lemma bt_ok_remove [simp]: "bt_ok m \<Longrightarrow> bt_ok (bt_remove k m)"
  by (simp add: bt_remove_def)

lemma bt_ok_retain [simp]: "bt_ok m \<Longrightarrow> bt_ok (bt_retain p m)"
  by (simp add: bt_retain_def)

lemma bt_get_remove [simp]: "bt_get (bt_remove k m) = (bt_get m)(k := None)"
  by (induction m) (auto simp: bt_remove_def fun_eq_iff)

lemma bt_get_retain:
  "bt_ok m \<Longrightarrow> bt_get (bt_retain p m) k =
     (case bt_get m k of Some v \<Rightarrow> if p k v then Some v else None | None \<Rightarrow> None)"
proof (induction m)
  case Nil
  then show ?case by (simp add: bt_retain_def)
next
  case (Cons e m)
  obtain k' v' where e: "e = (k', v')" by force
  from Cons.prems e have "map_of m k' = None"
    by (force simp: map_of_eq_None_iff)
  with Cons e show ?case
    by (auto simp: bt_retain_def split: option.splits)
qed

lemma bt_entries: "bt_ok m \<Longrightarrow> (k, v) \<in> set m \<longleftrightarrow> bt_get m k = Some v"
  using bt_ok_distinct map_of_eq_Some_iff by metis

interpretation bt: ordered_map bt_get bt_insert bt_remove "\<lambda>m. m" "[]" bt_ok
  by unfold_locales (simp_all add: bt_ok_distinct)

text \<open>Equality of maps is equality of the lists (\<open>next.pages == self.root.pages\<close>).\<close>

lemma bt_extensional:
  assumes "bt_ok m" "bt_ok n" "bt_get m = bt_get n"
  shows "m = n"
proof -
  have "(k, v) \<in> set m \<longleftrightarrow> (k, v) \<in> set n" for k v
    using assms by (simp only: bt_entries)
  then have "set m = set n"
    by auto
  moreover have "distinct m" "distinct n"
    using assms(1,2) by (auto dest: bt_ok_distinct simp: distinct_map)
  moreover have "sorted (map fst m)" "sorted (map fst n)" "distinct (map fst m)" "distinct (map fst n)"
    using assms(1,2) by (auto simp: bt_ok_def strict_sorted_iff)
  ultimately show ?thesis
    using map_sorted_distinct_set_unique [of fst m n]
    by (auto simp: distinct_map inj_on_Un)
qed

lemma bt_ok_extend [simp]: "bt_ok m \<Longrightarrow> bt_ok (bt_extend m n)"
  unfolding bt_extend_def by (rule bt.inv_fold_put)

lemma bt_get_extend:
  "bt_ok m \<Longrightarrow> bt_ok n \<Longrightarrow>
    bt_get (bt_extend m n) k = (case bt_get n k of None \<Rightarrow> bt_get m k | Some v \<Rightarrow> Some v)"
  unfolding bt_extend_def by (rule bt.get_fold_put) (simp_all add: bt_ok_distinct)

lemma bt_get_extend_add: "bt_ok m \<Longrightarrow> bt_ok n \<Longrightarrow> bt_get (bt_extend m n) = bt_get m ++ bt_get n"
  by (rule ext) (simp add: bt_get_extend map_add_def)

text \<open>A \<open>BTreeSet\<close> is a map to the unit type.\<close>

lemma unit_option [simp]: "x \<noteq> Some () \<longleftrightarrow> x = None" for x :: "unit option"
  by (cases x) auto

end
