(* ===== verification/Object_Store.thy ===== *)
theory Object_Store
  imports BTree_Map
begin

text \<open>
  The store interface of the replicated volumes (\<open>trait ObjectStore\<close> in
  \<open>rust/ahvm-volume/src/lib.rs\<close>): immutable objects named by their digest, and one
  mutable head per volume that is replaced by compare-and-set. A store is a record of
  operations over a world state \<open>'s\<close>, as the code takes a trait object; the default
  methods of the trait are definitions. The contract that the trait's documentation
  states is the locale \<open>object_store_laws\<close>; the volumes are verified against it and
  the stores are shown to provide it.
\<close>

section \<open>Constants, errors and identifiers\<close>

definition CHUNK_BYTES :: nat where "CHUNK_BYTES = 64 * 1024"
definition MAX_OBJECT_BYTES :: nat where "MAX_OBJECT_BYTES = 1024 * 1024"
definition MAX_VOLUME_BYTES :: nat where "MAX_VOLUME_BYTES = 64 * 1024 * 1024"
definition MAX_MANIFEST_BYTES :: nat where "MAX_MANIFEST_BYTES = 128 * 1024"

lemma CHUNK_BYTES_pos [simp]: "0 < CHUNK_BYTES"
  by (simp add: CHUNK_BYTES_def)

text \<open>The errors of the crate, and \<open>Panic\<close> for a failed assertion or \<open>unwrap\<close>.\<close>

datatype verror =
    Backpressure | NotReady | Deadline | InvalidInput | NotFound | Corrupt
  | Conflict | Store | Uncertain | ReopenRequired | Panic

text \<open>A cancellation test or a clock is read from the world, which it may advance.\<close>

type_synonym 's cancel = "'s \<Rightarrow> bool \<times> 's"

definition check_cancel :: "'s cancel \<Rightarrow> ('s, unit, verror) io" where
  "check_cancel cancel s = (case cancel s of (b, s') \<Rightarrow> (if b then Err Deadline else Ok (), s'))"

definition never :: "'s cancel" where
  "never s = (False, s)"

definition valid_id :: "string \<Rightarrow> bool" where
  "valid_id i = (i \<noteq> [] \<and> length i \<le> 64
     \<and> list_all (\<lambda>c. ascii_alphanumeric c \<or> c = CHR ''-'' \<or> c = CHR ''_'') i)"

definition valid_hash :: "string \<Rightarrow> bool" where
  "valid_hash h = (length h = 64
     \<and> list_all (\<lambda>c. ascii_digit c \<or> (CHR ''a'' \<le> c \<and> c \<le> CHR ''f'')) h)"

definition publication_error :: "verror \<Rightarrow> verror" where
  "publication_error e = (case e of Conflict \<Rightarrow> Conflict | _ \<Rightarrow> Uncertain)"

lemma publication_error_simps [simp]:
  "publication_error Conflict = Conflict" "e \<noteq> Conflict \<Longrightarrow> publication_error e = Uncertain"
  by (cases e; simp add: publication_error_def)+

section \<open>The trait\<close>

record head =
  h_revision :: string
  h_manifest :: bytes

record 's object_store =
  os_base_chunk :: "string \<Rightarrow> string \<Rightarrow> nat option \<Rightarrow> ('s, bytes, verror) io"
  os_prefetch_base :: "string \<Rightarrow> string list \<Rightarrow> 's \<Rightarrow> 's"
  os_prefetch :: "string \<Rightarrow> string list \<Rightarrow> 's \<Rightarrow> 's"
  os_cached_chunk :: "string \<Rightarrow> string \<Rightarrow> 's \<Rightarrow> bytes option"
  os_list_chunks :: "string \<Rightarrow> nat \<Rightarrow> ('s, string list, verror) io"
  os_list_chunks_after :: "string \<Rightarrow> string option \<Rightarrow> nat \<Rightarrow> ('s, string list, verror) io"
  os_delete_chunk :: "string \<Rightarrow> string \<Rightarrow> ('s, unit, verror) io"
  os_delete_chunks :: "string \<Rightarrow> string list \<Rightarrow> ('s, unit, verror) io"
  os_head :: "string \<Rightarrow> ('s, head option, verror) io"
  os_chunk :: "string \<Rightarrow> string \<Rightarrow> ('s, bytes, verror) io"
  os_put_chunk :: "string \<Rightarrow> string \<Rightarrow> bytes \<Rightarrow> ('s, unit, verror) io"
  os_put_chunk_cancellable :: "string \<Rightarrow> string \<Rightarrow> bytes \<Rightarrow> 's cancel \<Rightarrow> ('s, unit, verror) io"
  os_publish :: "string \<Rightarrow> string option \<Rightarrow> bytes \<Rightarrow> ('s, string, verror) io"
  os_publish_cancellable ::
    "string \<Rightarrow> string option \<Rightarrow> bytes \<Rightarrow> 's cancel \<Rightarrow> ('s, string, verror) io"

subsection \<open>Default methods\<close>

definition default_base_chunk :: "string \<Rightarrow> string \<Rightarrow> nat option \<Rightarrow> ('s, bytes, verror) io" where
  "default_base_chunk img hash offset = io_throw InvalidInput"

definition default_prefetch :: "string \<Rightarrow> string list \<Rightarrow> 's \<Rightarrow> 's" where
  "default_prefetch volume digests s = s"

definition default_cached_chunk :: "string \<Rightarrow> string \<Rightarrow> 's \<Rightarrow> bytes option" where
  "default_cached_chunk volume digest s = None"

definition default_list_chunks :: "string \<Rightarrow> nat \<Rightarrow> ('s, string list, verror) io" where
  "default_list_chunks volume limit = io_throw InvalidInput"

definition default_list_chunks_after ::
  "(string \<Rightarrow> nat \<Rightarrow> ('s, string list, verror) io) \<Rightarrow> string \<Rightarrow> string option \<Rightarrow> nat \<Rightarrow> ('s, string list, verror) io" where
  "default_list_chunks_after list_chunks volume after limit =
     (if after \<noteq> None then io_throw InvalidInput else list_chunks volume limit)"

definition default_delete_chunk :: "string \<Rightarrow> string \<Rightarrow> ('s, unit, verror) io" where
  "default_delete_chunk volume digest = io_throw InvalidInput"

text \<open>
  The fallback of \<open>delete_chunks\<close>: at most eight workers, worker \<open>w\<close> deletes the hashes
  at the positions congruent to \<open>w\<close> and stops at its first error; the workers are joined
  in order and the last error wins. The workers are run here in join order.
\<close>

fun delete_list :: "(string \<Rightarrow> string \<Rightarrow> ('s, unit, verror) io) \<Rightarrow> string \<Rightarrow> string list \<Rightarrow> ('s, unit, verror) io" where
  "delete_list del volume [] = io_return ()"
| "delete_list del volume (h # hs) = io_bind (del volume h) (\<lambda>_. delete_list del volume hs)"

definition worker_share :: "nat \<Rightarrow> string list \<Rightarrow> string list" where
  "worker_share w hashes = map (nth hashes) (filter (\<lambda>i. i mod 8 = w) [0..<length hashes])"

fun join_workers :: "('s, unit, verror) io list \<Rightarrow> (unit, verror) result \<Rightarrow> ('s, unit, verror) io" where
  "join_workers [] res s = (res, s)"
| "join_workers (w # ws) res s =
     (case w s of (Ok _, s') \<Rightarrow> join_workers ws res s' | (Err e, s') \<Rightarrow> join_workers ws (Err e) s')"

definition default_delete_chunks ::
  "(string \<Rightarrow> string \<Rightarrow> ('s, unit, verror) io) \<Rightarrow> string \<Rightarrow> string list \<Rightarrow> ('s, unit, verror) io" where
  "default_delete_chunks del volume hashes =
     (if \<not> valid_id volume \<or> 1000 < length hashes \<or> list_ex (\<lambda>h. \<not> valid_hash h) hashes
      then io_throw InvalidInput
      else join_workers
        (map (\<lambda>w. delete_list del volume (worker_share w hashes)) [0..<min 8 (length hashes)]) (Ok ()))"

definition default_put_chunk_cancellable ::
  "(string \<Rightarrow> string \<Rightarrow> bytes \<Rightarrow> ('s, unit, verror) io)
   \<Rightarrow> string \<Rightarrow> string \<Rightarrow> bytes \<Rightarrow> 's cancel \<Rightarrow> ('s, unit, verror) io" where
  "default_put_chunk_cancellable put volume digest bs cancel =
     io_bind (check_cancel cancel) (\<lambda>_. io_bind (put volume digest bs) (\<lambda>_. check_cancel cancel))"

definition default_publish_cancellable ::
  "(string \<Rightarrow> string option \<Rightarrow> bytes \<Rightarrow> ('s, string, verror) io)
   \<Rightarrow> string \<Rightarrow> string option \<Rightarrow> bytes \<Rightarrow> 's cancel \<Rightarrow> ('s, string, verror) io" where
  "default_publish_cancellable publish volume expected m cancel =
     io_bind (check_cancel cancel) (\<lambda>_. publish volume expected m)"

section \<open>The contract\<close>

type_synonym heads_view = "string \<Rightarrow> head option"
type_synonym objs_view = "string \<Rightarrow> string \<Rightarrow> bytes option"

definition put_obj :: "objs_view \<Rightarrow> string \<Rightarrow> string \<Rightarrow> bytes \<Rightarrow> objs_view" where
  "put_obj X v d b = X(v := (X v)(d \<mapsto> b))"

text \<open>Immutable objects are never changed or lost.\<close>

definition objs_le :: "objs_view \<Rightarrow> objs_view \<Rightarrow> bool" where
  "objs_le X Y \<longleftrightarrow> (\<forall>v. X v \<subseteq>\<^sub>m Y v)"

lemma objs_le_refl [simp]: "objs_le X X"
  by (simp add: objs_le_def)

lemma objs_le_trans: "objs_le X Y \<Longrightarrow> objs_le Y Z \<Longrightarrow> objs_le X Z"
  by (auto simp: objs_le_def intro: map_le_trans)

lemma objs_leD: "objs_le X Y \<Longrightarrow> X v d = Some b \<Longrightarrow> Y v d = Some b"
  by (force simp: objs_le_def map_le_def)

lemma objs_le_put [simp]: "X v d = None \<or> X v d = Some b \<Longrightarrow> objs_le X (put_obj X v d b)"
  by (auto simp: objs_le_def put_obj_def map_le_def)

lemma put_obj_same [simp]: "put_obj X v d b v d = Some b"
  by (simp add: put_obj_def)

text \<open>
  The laws, for validated volume identifiers. \<open>heads\<close> and \<open>objs\<close> are the durable contents, \<open>ok\<close> an invariant of the
  adapter. A successful \<open>put_chunk\<close> means that the object is present with exactly
  these bytes; a failed one may have stored them, but never replaced others. A
  successful \<open>publish\<close> replaced exactly the expected revision; \<open>Conflict\<close> means that
  nothing was replaced, any other error that the outcome is unknown.
\<close>

locale object_store_laws =
  fixes os :: "'s object_store"
    and heads :: "'s \<Rightarrow> heads_view"
    and objs :: "'s \<Rightarrow> objs_view"
    and ok :: "'s \<Rightarrow> bool"
  assumes head_law: "ok s \<Longrightarrow> valid_id v \<Longrightarrow> post (os_head os v)
      (\<lambda>h s'. ok s' \<and> heads s' = heads s \<and> objs s' = objs s \<and> h = heads s v)
      (\<lambda>e s'. ok s' \<and> heads s' = heads s \<and> objs s' = objs s) s"
    and chunk_law: "ok s \<Longrightarrow> valid_id v \<Longrightarrow> post (os_chunk os v d)
      (\<lambda>b s'. ok s' \<and> heads s' = heads s \<and> objs s' = objs s \<and> objs s v d = Some b)
      (\<lambda>e s'. ok s' \<and> heads s' = heads s \<and> objs s' = objs s) s"
    and put_law: "ok s \<Longrightarrow> valid_id v \<Longrightarrow> post (os_put_chunk os v d b)
      (\<lambda>_ s'. ok s' \<and> heads s' = heads s \<and> (objs s v d = None \<or> objs s v d = Some b)
         \<and> objs s' = put_obj (objs s) v d b)
      (\<lambda>e s'. ok s' \<and> heads s' = heads s
         \<and> (objs s' = objs s \<or> objs s v d = None \<and> objs s' = put_obj (objs s) v d b)) s"
    and publish_law: "ok s \<Longrightarrow> valid_id v \<Longrightarrow> post (os_publish os v expected m)
      (\<lambda>rev s'. ok s' \<and> objs s' = objs s \<and> map_option h_revision (heads s v) = expected
         \<and> heads s' = (heads s)(v \<mapsto> \<lparr>h_revision = rev, h_manifest = m\<rparr>)
         \<and> (\<forall>h. heads s v = Some h \<and> h_manifest h \<noteq> m \<longrightarrow> rev \<noteq> h_revision h))
      (\<lambda>e s'. ok s' \<and> objs s' = objs s
         \<and> (heads s' = heads s
            \<or> e \<noteq> Conflict \<and> map_option h_revision (heads s v) = expected
              \<and> (\<exists>rev. heads s' = (heads s)(v \<mapsto> \<lparr>h_revision = rev, h_manifest = m\<rparr>)))) s"
begin

lemma put_mono:
  "ok s \<Longrightarrow> valid_id v \<Longrightarrow> post (os_put_chunk os v d b)
     (\<lambda>_ s'. ok s' \<and> heads s' = heads s \<and> objs_le (objs s) (objs s') \<and> objs s' v d = Some b)
     (\<lambda>e s'. ok s' \<and> heads s' = heads s \<and> objs_le (objs s) (objs s')) s"
  by (rule post_mono [OF put_law]) auto

end

end
