(* ===== verification/Block_Io.thy ===== *)
theory Block_Io
  imports Object_Store
begin

text \<open>
  The two loops that turn reads and writes of arbitrary byte ranges into accesses of
  64 KiB chunks. They occur twice in the sources, in \<open>Volume::read\<close> and
  \<open>Volume::write\<close> (\<open>lib.rs\<close>) and in \<open>IndexedVolume::read\<close> and \<open>write\<close>
  (\<open>indexed.rs\<close>), with a different way to load a chunk; here the loader is an
  argument. The locale \<open>block_device\<close> is what the loops need of the loader and
  proves once that they implement reads and writes of a flat byte array.
\<close>

section \<open>The loops\<close>

text \<open>How many bytes one iteration handles: the rest of the chunk or of the request.\<close>

definition loop_count :: "nat \<Rightarrow> nat \<Rightarrow> nat \<Rightarrow> nat" where
  "loop_count pos copied len = min (CHUNK_BYTES - pos mod CHUNK_BYTES) (len - copied)"

lemma loop_count_pos [simp]: "copied < len \<Longrightarrow> 0 < loop_count pos copied len"
  by (simp add: loop_count_def)

lemma loop_count_le:
  "loop_count pos copied len \<le> len - copied"
  "pos mod CHUNK_BYTES + loop_count pos copied len \<le> CHUNK_BYTES"
  by (auto simp: loop_count_def min_def le_diff_conv2 CHUNK_BYTES_def)

function read_loop ::
  "(nat \<Rightarrow> ('s, bytes, verror) io) \<Rightarrow> nat \<Rightarrow> nat \<Rightarrow> nat \<Rightarrow> bytes \<Rightarrow> ('s, bytes, verror) io" where
  "read_loop load offset len copied buf =
     (if copied < len then
        (let pos = offset + copied;
             within = pos mod CHUNK_BYTES;
             count = loop_count pos copied len in
         io_bind (load (pos div CHUNK_BYTES)) (\<lambda>bs.
           read_loop load offset len (copied + count)
             (copy_at buf copied (slice_of bs within (within + count)))))
      else io_return buf)"
  by pat_completeness auto
termination
  by (relation "measure (\<lambda>(load, offset, len, copied, buf). len - copied)")
    (auto intro!: diff_less_mono2 loop_count_pos)

function write_loop ::
  "(nat \<Rightarrow> nat \<Rightarrow> nat \<Rightarrow> ('s, bytes, verror) io) \<Rightarrow> nat \<Rightarrow> bytes \<Rightarrow> nat
   \<Rightarrow> (nat, bytes) btree \<Rightarrow> ('s, (nat, bytes) btree, verror) io" where
  "write_loop load offset input copied pending =
     (if copied < length input then
        (let pos = offset + copied;
             index = pos div CHUNK_BYTES;
             within = pos mod CHUNK_BYTES;
             count = loop_count pos copied (length input) in
         io_bind (load index within count) (\<lambda>bs.
           write_loop load offset input (copied + count)
             (bt_insert index (copy_at bs within (slice_of input copied (copied + count))) pending)))
      else io_return pending)"
  by pat_completeness auto
termination
  by (relation "measure (\<lambda>(load, offset, input, copied, pending). length input - copied)")
    (auto intro!: diff_less_mono2 loop_count_pos)

declare read_loop.simps [simp del] write_loop.simps [simp del]

section \<open>What the loops compute\<close>

text \<open>Byte \<open>p\<close> of the disk whose chunks are \<open>blk\<close>, and the extent \<open>[a, b)\<close>.\<close>

definition dbyte :: "(nat \<Rightarrow> bytes) \<Rightarrow> nat \<Rightarrow> byte" where
  "dbyte blk p = blk (p div CHUNK_BYTES) ! (p mod CHUNK_BYTES)"

definition dextent :: "(nat \<Rightarrow> bytes) \<Rightarrow> nat \<Rightarrow> nat \<Rightarrow> bytes" where
  "dextent blk a b = map (dbyte blk) [a..<b]"

lemma length_dextent [simp]: "length (dextent blk a b) = b - a"
  by (simp add: dextent_def)

lemma nth_dextent [simp]: "i < b - a \<Longrightarrow> dextent blk a b ! i = dbyte blk (a + i)"
  by (simp add: dextent_def)

lemma dextent_self [simp]: "dextent blk a a = []"
  by (simp add: dextent_def)

lemma dextent_eqI:
  "(\<And>p. a \<le> p \<Longrightarrow> p < b \<Longrightarrow> dbyte f p = dbyte g p) \<Longrightarrow> dextent f a b = dextent g a b"
  by (simp add: dextent_def)

lemma dextent_append: "dextent blk a (a + m) @ dextent blk (a + m) (a + m + n) = dextent blk a (a + m + n)"
  by (simp add: dextent_def flip: map_append upt_add_eq_append)

lemma take_copy_at:
  "at \<le> length bs \<Longrightarrow> length src = n \<Longrightarrow> take (at + n) (copy_at bs at src) = take at bs @ src"
  by (simp add: copy_at_def)

lemma slice_of_dextent: "b \<le> n \<Longrightarrow> slice_of (dextent blk 0 n) a b = dextent blk a b"
  by (rule nth_equalityI) (auto simp: nth_slice_of)

text \<open>The chunk of a position inside an iteration.\<close>

lemma same_chunk:
  assumes "j < loop_count pos copied len"
  shows "(pos + j) div CHUNK_BYTES = pos div CHUNK_BYTES"
    and "(pos + j) mod CHUNK_BYTES = pos mod CHUNK_BYTES + j"
proof -
  have lt: "pos mod CHUNK_BYTES + j < CHUNK_BYTES"
    using assms loop_count_le(2) [of pos copied len] by linarith
  show "(pos + j) div CHUNK_BYTES = pos div CHUNK_BYTES"
    using lt CHUNK_BYTES_pos div_add1_eq [of pos j CHUNK_BYTES] by simp
  show "(pos + j) mod CHUNK_BYTES = pos mod CHUNK_BYTES + j"
    using lt mod_add_left_eq [of pos CHUNK_BYTES j] by (simp add: mod_less)
qed

lemma chunk_end:
  "loop_count pos copied len < len - copied \<Longrightarrow> (pos + loop_count pos copied len) mod CHUNK_BYTES = 0"
proof -
  assume "loop_count pos copied len < len - copied"
  then have "loop_count pos copied len = CHUNK_BYTES - pos mod CHUNK_BYTES"
    by (auto simp: loop_count_def)
  moreover have "pos mod CHUNK_BYTES < CHUNK_BYTES" by simp
  ultimately have "pos + loop_count pos copied len = (pos div CHUNK_BYTES + 1) * CHUNK_BYTES"
    using div_mult_mod_eq [of pos CHUNK_BYTES] by (simp only: add_mult_distrib)
  then show ?thesis by simp
qed

text \<open>What the pending map holds after \<open>copied\<close> bytes of a write.\<close>

definition wr_inv :: "(nat \<Rightarrow> bytes) \<Rightarrow> nat \<Rightarrow> bytes \<Rightarrow> nat \<Rightarrow> (nat, bytes) btree \<Rightarrow> bool" where
  "wr_inv blk offset input copied pending \<longleftrightarrow> bt_ok pending
     \<and> (\<forall>i. bt_get pending i \<noteq> None \<longleftrightarrow> (\<exists>p. offset \<le> p \<and> p < offset + copied \<and> p div CHUNK_BYTES = i))
     \<and> (\<forall>i b. bt_get pending i = Some b \<longrightarrow> length b = CHUNK_BYTES
          \<and> (\<forall>p. p div CHUNK_BYTES = i \<longrightarrow> b ! (p mod CHUNK_BYTES) =
                (if offset \<le> p \<and> p < offset + copied then input ! (p - offset) else dbyte blk p)))
     \<and> copied \<le> length input
     \<and> (copied = 0 \<or> copied = length input \<or> (offset + copied) mod CHUNK_BYTES = 0)"

lemma wr_inv_0: "wr_inv blk offset input 0 []"
  by (simp add: wr_inv_def)

text \<open>The bytes of the chunk that an iteration writes.\<close>

lemma patched_chunk:
  assumes lt: "copied < length input"
    and cnt: "count = loop_count (offset + copied) copied (length input)"
    and within: "within = (offset + copied) mod CHUNK_BYTES"
    and len: "length bs = CHUNK_BYTES"
    and rest: "\<And>j. j < CHUNK_BYTES \<Longrightarrow> j < within \<or> within + count \<le> j \<Longrightarrow> bs ! j = blk ((offset + copied) div CHUNK_BYTES) ! j"
    and al: "copied = 0 \<or> (offset + copied) mod CHUNK_BYTES = 0"
    and p: "p div CHUNK_BYTES = (offset + copied) div CHUNK_BYTES"
  shows "copy_at bs within (slice_of input copied (copied + count)) ! (p mod CHUNK_BYTES) =
    (if offset \<le> p \<and> p < offset + (copied + count) then input ! (p - offset) else dbyte blk p)"
proof -
  define pos where "pos = offset + copied"
  have cb: "within + count \<le> CHUNK_BYTES" "count \<le> length input - copied"
    using loop_count_le [of pos copied "length input"] by (simp_all add: cnt within pos_def)
  have sl: "length (slice_of input copied (copied + count)) = count"
    using cb lt by simp
  have pm: "p mod CHUNK_BYTES < CHUNK_BYTES" by simp
  have pe: "p = pos div CHUNK_BYTES * CHUNK_BYTES + p mod CHUNK_BYTES"
    using div_mult_mod_eq [of p CHUNK_BYTES] p by (simp add: pos_def)
  have pose: "pos = pos div CHUNK_BYTES * CHUNK_BYTES + within"
    using div_mult_mod_eq [of pos CHUNK_BYTES] within by (simp add: pos_def)
  have iff: "within \<le> p mod CHUNK_BYTES \<longleftrightarrow> pos \<le> p"
    "p mod CHUNK_BYTES < within + count \<longleftrightarrow> p < pos + count"
    "p mod CHUNK_BYTES - within = p - pos"
    using pe pose by linarith+
  have src: "slice_of input copied (copied + count) ! (p - pos) = input ! (p - offset)"
    if "pos \<le> p" "p < pos + count"
    using cb lt that by (subst nth_slice_of) (auto simp: pos_def)
  have nth: "copy_at bs within (slice_of input copied (copied + count)) ! (p mod CHUNK_BYTES) =
      (if pos \<le> p \<and> p < pos + count then input ! (p - offset) else blk (pos div CHUNK_BYTES) ! (p mod CHUNK_BYTES))"
    using cb sl len pm iff src rest [of "p mod CHUNK_BYTES"]
    by (subst nth_copy_at) (auto simp: pos_def not_le not_less)
  have "within = 0 \<or> copied = 0" using al within by auto
  then have low: "offset \<le> p \<longleftrightarrow> pos \<le> p" if "p < pos + count"
    using iff(1) by (auto simp: pos_def)
  show ?thesis
    using nth low p by (auto simp: dbyte_def pos_def add.assoc)
qed

lemma wr_inv_step:
  assumes inv: "wr_inv blk offset input copied pending"
    and lt: "copied < length input"
    and cnt: "count = loop_count (offset + copied) copied (length input)"
    and within: "within = (offset + copied) mod CHUNK_BYTES"
    and len: "length bs = CHUNK_BYTES"
    and rest: "\<And>j. j < CHUNK_BYTES \<Longrightarrow> j < within \<or> within + count \<le> j \<Longrightarrow> bs ! j = blk ((offset + copied) div CHUNK_BYTES) ! j"
  shows "wr_inv blk offset input (copied + count)
    (bt_insert ((offset + copied) div CHUNK_BYTES)
      (copy_at bs within (slice_of input copied (copied + count))) pending)"
proof -
  define idx where "idx = (offset + copied) div CHUNK_BYTES"
  define chunk where "chunk = copy_at bs within (slice_of input copied (copied + count))"
  have al: "copied = 0 \<or> (offset + copied) mod CHUNK_BYTES = 0"
    using inv lt by (auto simp: wr_inv_def)
  have cb: "within + count \<le> CHUNK_BYTES" "count \<le> length input - copied" "0 < count"
    using loop_count_le [of "offset + copied" copied "length input"] lt by (simp_all add: cnt within)
  have fresh: "p div CHUNK_BYTES < idx" if "offset \<le> p" "p < offset + copied" for p
  proof -
    have "(offset + copied) mod CHUNK_BYTES = 0" using al that by auto
    then have "offset + copied = idx * CHUNK_BYTES"
      using div_mult_mod_eq [of "offset + copied" CHUNK_BYTES] by (simp add: idx_def)
    then show ?thesis using that(2) by (simp add: less_mult_imp_div_less)
  qed
  have chunk_of: "p div CHUNK_BYTES = idx" if "offset + copied \<le> p" "p < offset + copied + count" for p
    using same_chunk(1) [of "p - (offset + copied)" "offset + copied" copied "length input"] that
    by (simp add: idx_def cnt)
  have dom: "bt_get (bt_insert idx chunk pending) i \<noteq> None \<longleftrightarrow>
      (\<exists>p. offset \<le> p \<and> p < offset + (copied + count) \<and> p div CHUNK_BYTES = i)" for i
  proof (cases "i = idx")
    case True
    have "offset \<le> offset + copied \<and> offset + copied < offset + (copied + count)
        \<and> (offset + copied) div CHUNK_BYTES = i"
      using True cb(3) by (simp add: idx_def)
    then have "\<exists>p. offset \<le> p \<and> p < offset + (copied + count) \<and> p div CHUNK_BYTES = i"
      by (rule exI)
    with True inv show ?thesis by (simp add: wr_inv_def)
  next
    case False
    have "(\<exists>p. offset \<le> p \<and> p < offset + (copied + count) \<and> p div CHUNK_BYTES = i) \<longleftrightarrow>
      (\<exists>p. offset \<le> p \<and> p < offset + copied \<and> p div CHUNK_BYTES = i)"
      using chunk_of False by (metis add.assoc not_le trans_less_add1)
    with False inv show ?thesis by (auto simp: wr_inv_def)
  qed
  have old: "b ! (p mod CHUNK_BYTES) =
      (if offset \<le> p \<and> p < offset + (copied + count) then input ! (p - offset) else dbyte blk p)"
    if "i \<noteq> idx" "bt_get pending i = Some b" "p div CHUNK_BYTES = i" for i b p
  proof -
    have "b ! (p mod CHUNK_BYTES) =
      (if offset \<le> p \<and> p < offset + copied then input ! (p - offset) else dbyte blk p)"
      using inv that by (auto simp: wr_inv_def)
    moreover have "p < offset + copied" if "p < offset + (copied + count)"
      using chunk_of [of p] that \<open>i \<noteq> idx\<close> \<open>p div CHUNK_BYTES = i\<close> by (cases "offset + copied \<le> p") auto
    ultimately show ?thesis by auto
  qed
  have new: "chunk ! (p mod CHUNK_BYTES) =
      (if offset \<le> p \<and> p < offset + (copied + count) then input ! (p - offset) else dbyte blk p)"
    if "p div CHUNK_BYTES = idx" for p
    unfolding chunk_def 
    by (rule patched_chunk [where blk = blk, OF lt cnt within len _ al]) (use rest that in \<open>auto simp: idx_def\<close>)
  have len': "length chunk = CHUNK_BYTES"
    using cb len lt by (simp add: chunk_def)
  have al': "copied + count = length input \<or> (offset + (copied + count)) mod CHUNK_BYTES = 0"
    using chunk_end [of "offset + copied" copied "length input"] cb(2) lt
    by (cases "count < length input - copied") (simp_all add: cnt add.assoc)
  have "bt_ok pending" using inv by (simp add: wr_inv_def)
  then show ?thesis
    unfolding wr_inv_def idx_def [symmetric] chunk_def [symmetric]
    using dom old new len' al' cb(2) lt inv
    by (auto simp: wr_inv_def split: if_splits)
qed

section \<open>The loops over a loader\<close>

text \<open>
  \<open>load\<close> returns chunk \<open>i\<close> of the disk \<open>blk\<close> or fails; \<open>load_for\<close> is the loader of a
  write, which has to be right only outside the bytes that are about to be replaced.
  \<open>good\<close> holds of the worlds that both keep, \<open>fail\<close> of a failed load; with \<open>fail\<close>
  false the lemmas below say that the loops succeed.
\<close>

locale block_device =
  fixes load :: "nat \<Rightarrow> ('s, bytes, verror) io"
    and load_for :: "nat \<Rightarrow> nat \<Rightarrow> nat \<Rightarrow> ('s, bytes, verror) io"
    and blk :: "nat \<Rightarrow> bytes"
    and good :: "'s \<Rightarrow> bool"
    and fail :: "verror \<Rightarrow> 's \<Rightarrow> bool"
  assumes load_law: "good s \<Longrightarrow> post (load i)
      (\<lambda>b s'. good s' \<and> b = blk i \<and> length b = CHUNK_BYTES) fail s"
    and load_for_law: "good s \<Longrightarrow> post (load_for i w n)
      (\<lambda>b s'. good s' \<and> length b = CHUNK_BYTES
         \<and> (\<forall>j < CHUNK_BYTES. j < w \<or> w + n \<le> j \<longrightarrow> b ! j = blk i ! j)) fail s"
begin

lemma read_loop_extent:
  assumes "good s" "copied \<le> len" "length buf = len" "take copied buf = dextent blk offset (offset + copied)"
  shows "post (read_loop load offset len copied buf)
    (\<lambda>out s'. good s' \<and> out = dextent blk offset (offset + len)) fail s"
  using assms
proof (induction "len - copied" arbitrary: copied buf s rule: less_induct)
  case less
  show ?case
  proof (cases "copied < len")
    case False
    with less show ?thesis by (subst read_loop.simps) (simp add: post_simps)
  next
    case True
    define count where "count = loop_count (offset + copied) copied len"
    define within where "within = (offset + copied) mod CHUNK_BYTES"
    have cb: "within + count \<le> CHUNK_BYTES" "count \<le> len - copied"
      using loop_count_le [of "offset + copied" copied len] by (simp_all add: count_def within_def)
    have step: "take (copied + count) (copy_at buf copied (slice_of b within (within + count))) =
        dextent blk offset (offset + (copied + count))"
      if "b = blk ((offset + copied) div CHUNK_BYTES)" "length b = CHUNK_BYTES" for b
    proof -
      have "slice_of b within (within + count) = dextent blk (offset + copied) (offset + copied + count)"
        (is "_ = ?ext")
        using that cb same_chunk [of _ "offset + copied" copied len]
        by (intro nth_equalityI) (simp_all add: dbyte_def within_def count_def)
      then have "take (copied + count) (copy_at buf copied (slice_of b within (within + count))) =
          take copied buf @ ?ext"
        using less.prems(3) True by (simp add: take_copy_at)
      then show ?thesis
        unfolding less.prems(4) dextent_append by (simp add: add.assoc)
    qed
    have rec: "post (read_loop load offset len (copied + count)
          (copy_at buf copied (slice_of b within (within + count))))
        (\<lambda>out s'. good s' \<and> out = dextent blk offset (offset + len)) fail t"
      if "good t" "b = blk ((offset + copied) div CHUNK_BYTES)" "length b = CHUNK_BYTES" for b t
      using less.prems cb True that step [OF that(2,3)] loop_count_pos [OF True, of "offset + copied"]
      by (intro less.hyps) (auto simp flip: count_def)
    show ?thesis
      using True load_law [OF \<open>good s\<close>, of "(offset + copied) div CHUNK_BYTES"]
      by (subst read_loop.simps)
        (auto simp: Let_def post_simps rec simp flip: count_def within_def elim!: post_mono)
  qed
qed

lemma write_loop_pending:
  assumes "good s" "wr_inv blk offset input copied pending"
  shows "post (write_loop load_for offset input copied pending)
    (\<lambda>pending' s'. good s' \<and> wr_inv blk offset input (length input) pending') fail s"
  using assms
proof (induction "length input - copied" arbitrary: copied pending s rule: less_induct)
  case less
  show ?case
  proof (cases "copied < length input")
    case False
    with less.prems have "copied = length input" by (simp add: wr_inv_def)
    with less.prems show ?thesis by (subst write_loop.simps) (simp add: post_simps)
  next
    case True
    define count where "count = loop_count (offset + copied) copied (length input)"
    define within where "within = (offset + copied) mod CHUNK_BYTES"
    have rec: "post (write_loop load_for offset input (copied + count)
          (bt_insert ((offset + copied) div CHUNK_BYTES)
            (copy_at b within (slice_of input copied (copied + count))) pending))
        (\<lambda>pending' s'. good s' \<and> wr_inv blk offset input (length input) pending') fail t"
      if "good t" "length b = CHUNK_BYTES"
        "\<forall>j < CHUNK_BYTES. j < within \<or> within + count \<le> j \<longrightarrow> b ! j = blk ((offset + copied) div CHUNK_BYTES) ! j"
      for b t
      using True that loop_count_pos [OF True, of "offset + copied"]
      by (intro less.hyps wr_inv_step [OF less.prems(2) True count_def within_def]) (auto simp flip: count_def)
    show ?thesis
      using True load_for_law [OF \<open>good s\<close>, of "(offset + copied) div CHUNK_BYTES" within count]
      by (subst write_loop.simps)
        (auto simp: Let_def post_simps rec simp flip: count_def within_def elim!: post_mono)
  qed
qed

end

text \<open>The disk after the pending chunks of a finished write are laid over it.\<close>

lemma wr_inv_disk:
  assumes "wr_inv blk offset input (length input) pending"
    and blk': "\<And>i. blk' i = (case bt_get pending i of None \<Rightarrow> blk i | Some b \<Rightarrow> b)"
  shows "dbyte blk' p = (if offset \<le> p \<and> p < offset + length input then input ! (p - offset) else dbyte blk p)"
proof (cases "bt_get pending (p div CHUNK_BYTES)")
  case None
  then have "\<not> (offset \<le> p \<and> p < offset + length input)"
    using assms(1) unfolding wr_inv_def by (metis (no_types, lifting))
  with None show ?thesis by (auto simp: dbyte_def blk')
next
  case (Some b)
  then show ?thesis
    using assms(1) by (auto simp: wr_inv_def dbyte_def blk')
qed

lemma dextent_write:
  assumes "\<And>p. dbyte blk' p = (if offset \<le> p \<and> p < offset + length input then input ! (p - offset) else dbyte blk p)"
    and "offset + length input \<le> n"
  shows "dextent blk' 0 n = copy_at (dextent blk 0 n) offset input"
  using assms by (intro nth_equalityI) (auto simp: nth_copy_at)

end
