(* ===== verification/Volume.thy ===== *)
theory Volume
  imports Block_Io
begin

text \<open>
  The volume protocol of \<open>rust/ahvm-volume/src/lib.rs\<close>: a disk is a manifest that
  maps chunk indexes to digests of immutable objects; writes are buffered in a dirty map
  and a commit uploads the dirty chunks and then replaces the head by compare-and-set.
  The lemmas show that reads and writes are those of a flat byte array, that a commit
  is atomic and durable, and that a handle that lost a race never overwrites.
\<close>

section \<open>Data\<close>

text \<open>
  SHA-256 and the JSON serialisation are library code: the digest and the two serde
  functions are a parameter of the model, \<open>codec\<close>.
\<close>

record 'm codec =
  c_digest :: "bytes \<Rightarrow> string"
  c_to_vec :: "'m \<Rightarrow> bytes option"
  c_from_slice :: "bytes \<Rightarrow> 'm option"

record manifest =
  m_format :: nat
  m_volume :: string
  m_size :: nat
  m_generation :: nat
  m_chunks :: "(nat, string) btree"

record volume =
  v_manifest :: manifest
  v_revision :: string
  v_dirty :: "(nat, bytes) btree"
  v_reopen :: bool

definition volume_validate :: "manifest \<Rightarrow> string \<Rightarrow> (unit, verror) result" where
  "volume_validate m i =
     (if m_format m \<noteq> 1 \<or> m_volume m \<noteq> i \<or> m_size m = 0 \<or> MAX_VOLUME_BYTES < m_size m
         \<or> m_size m mod CHUNK_BYTES \<noteq> 0
         \<or> list_ex (\<lambda>(index, hash). m_size m div CHUNK_BYTES \<le> index \<or> \<not> valid_hash hash) (m_chunks m)
      then Err Corrupt else Ok ())"

section \<open>Operations\<close>

definition volume_size :: "volume \<Rightarrow> nat" where
  "volume_size vol = m_size (v_manifest vol)"

definition volume_create :: "manifest codec \<Rightarrow> 's object_store \<Rightarrow> string \<Rightarrow> nat \<Rightarrow> ('s, volume, verror) io" where
  "volume_create cd os i sz =
     (if \<not> valid_id i \<or> sz = 0 \<or> MAX_VOLUME_BYTES < sz \<or> sz mod CHUNK_BYTES \<noteq> 0
      then io_throw InvalidInput
      else
        (let m = \<lparr>m_format = 1, m_volume = i, m_size = sz, m_generation = 0, m_chunks = []\<rparr> in
         io_bind (io_lift (ok_or Corrupt (c_to_vec cd m))) (\<lambda>bs.
         io_bind (io_map_err publication_error (os_publish os i None bs)) (\<lambda>revision.
           if revision = [] then io_throw Uncertain
           else io_return \<lparr>v_manifest = m, v_revision = revision, v_dirty = [], v_reopen = False\<rparr>))))"

definition volume_open :: "manifest codec \<Rightarrow> 's object_store \<Rightarrow> string \<Rightarrow> ('s, volume, verror) io" where
  "volume_open cd os i =
     (if \<not> valid_id i then io_throw InvalidInput
      else
        io_bind (os_head os i) (\<lambda>h.
        io_bind (io_lift (ok_or NotFound h)) (\<lambda>hd.
          if MAX_MANIFEST_BYTES < length (h_manifest hd) \<or> h_revision hd = [] then io_throw Corrupt
          else
            io_bind (io_lift (ok_or Corrupt (c_from_slice cd (h_manifest hd)))) (\<lambda>m.
            io_bind (io_lift (volume_validate m i)) (\<lambda>_.
            io_return \<lparr>v_manifest = m, v_revision = h_revision hd, v_dirty = [], v_reopen = False\<rparr>)))))"

definition check_range :: "volume \<Rightarrow> nat \<Rightarrow> nat \<Rightarrow> (unit, verror) result" where
  "check_range vol offset len =
     (if v_reopen vol then Err ReopenRequired
      else if (case checked_add offset len of None \<Rightarrow> True | Some e \<Rightarrow> m_size (v_manifest vol) < e)
        then Err InvalidInput
      else Ok ())"

definition volume_load :: "manifest codec \<Rightarrow> 's object_store \<Rightarrow> volume \<Rightarrow> nat \<Rightarrow> ('s, bytes, verror) io" where
  "volume_load cd os vol index =
     (case bt_get (v_dirty vol) index of
        Some bs \<Rightarrow> io_return bs
      | None \<Rightarrow>
          (case bt_get (m_chunks (v_manifest vol)) index of
             None \<Rightarrow> io_return (zeros CHUNK_BYTES)
           | Some hash \<Rightarrow>
               io_bind (os_chunk os (m_volume (v_manifest vol)) hash) (\<lambda>bs.
                 if length bs \<noteq> CHUNK_BYTES \<or> c_digest cd bs \<noteq> hash then io_throw Corrupt
                 else io_return bs)))"

definition volume_read ::
  "manifest codec \<Rightarrow> 's object_store \<Rightarrow> volume \<Rightarrow> nat \<Rightarrow> bytes \<Rightarrow> ('s, bytes, verror) io" where
  "volume_read cd os vol offset buf =
     io_bind (io_lift (check_range vol offset (length buf))) (\<lambda>_.
       read_loop (volume_load cd os vol) offset (length buf) 0 buf)"

text \<open>
  Methods with \<open>&mut self\<close> are computations over the handle and the world together.
\<close>

definition volume_write ::
  "manifest codec \<Rightarrow> 's object_store \<Rightarrow> nat \<Rightarrow> bytes \<Rightarrow> (volume \<times> 's, unit, verror) io" where
  "volume_write cd os offset input = (\<lambda>(vol, s).
     (case io_bind (io_lift (check_range vol offset (length input))) (\<lambda>_.
        write_loop (\<lambda>index _ _. volume_load cd os vol index) offset input 0 []) s of
        (Err e, s') \<Rightarrow> (Err e, vol, s')
      | (Ok pending, s') \<Rightarrow> (Ok (), vol\<lparr>v_dirty := bt_extend (v_dirty vol) pending\<rparr>, s')))"

fun commit_chunks ::
  "manifest codec \<Rightarrow> 's object_store \<Rightarrow> (nat \<times> bytes) list \<Rightarrow> manifest \<Rightarrow> ('s, manifest, verror) io" where
  "commit_chunks cd os [] m = io_return m"
| "commit_chunks cd os ((index, bs) # dirty) m =
     (if all_zero bs
      then commit_chunks cd os dirty (m\<lparr>m_chunks := bt_remove index (m_chunks m)\<rparr>)
      else
        (let hash = c_digest cd bs in
         io_bind (os_put_chunk os (m_volume m) hash bs) (\<lambda>_.
           commit_chunks cd os dirty (m\<lparr>m_chunks := bt_insert index hash (m_chunks m)\<rparr>))))"

text \<open>
  The part of \<open>commit\<close> before the publication leaves the handle alone: it uploads and
  serialises the next manifest.
\<close>

definition commit_prepare ::
  "manifest codec \<Rightarrow> 's object_store \<Rightarrow> volume \<Rightarrow> ('s, manifest \<times> bytes, verror) io" where
  "commit_prepare cd os vol =
     io_bind (io_lift (ok_or Corrupt (checked_add (m_generation (v_manifest vol)) 1))) (\<lambda>g.
     io_bind (commit_chunks cd os (v_dirty vol) ((v_manifest vol)\<lparr>m_generation := g\<rparr>)) (\<lambda>m.
     io_bind (io_lift (ok_or Corrupt (c_to_vec cd m))) (\<lambda>bs.
       if MAX_MANIFEST_BYTES < length bs then io_throw Corrupt else io_return (m, bs))))"

definition commit_publish :: "'s object_store \<Rightarrow> manifest \<Rightarrow> bytes \<Rightarrow> (volume \<times> 's, nat, verror) io" where
  "commit_publish os m bs = (\<lambda>(vol, s).
     (case os_publish os (m_volume m) (Some (v_revision vol)) bs s of
        (Ok revision, t) \<Rightarrow>
          (if revision \<noteq> []
           then (Ok (m_generation m), vol\<lparr>v_manifest := m, v_revision := revision, v_dirty := []\<rparr>, t)
           else (Err (publication_error Uncertain), vol\<lparr>v_reopen := True\<rparr>, t))
      | (Err e, t) \<Rightarrow> (Err (publication_error e), vol\<lparr>v_reopen := True\<rparr>, t)))"

definition volume_commit :: "manifest codec \<Rightarrow> 's object_store \<Rightarrow> (volume \<times> 's, nat, verror) io" where
  "volume_commit cd os = (\<lambda>(vol, s).
     if v_reopen vol then (Err ReopenRequired, vol, s)
     else if v_dirty vol = [] then (Ok (m_generation (v_manifest vol)), vol, s)
     else
       (case commit_prepare cd os vol s of
          (Err e, s') \<Rightarrow> (Err e, vol, s')
        | (Ok (m, bs), s') \<Rightarrow> commit_publish os m bs (vol, s')))"

section \<open>The disk a handle stands for\<close>

definition vblock :: "objs_view \<Rightarrow> volume \<Rightarrow> nat \<Rightarrow> bytes" where
  "vblock X vol i =
     (case bt_get (v_dirty vol) i of
        Some b \<Rightarrow> b
      | None \<Rightarrow> (case bt_get (m_chunks (v_manifest vol)) i of
            None \<Rightarrow> zeros CHUNK_BYTES
          | Some h \<Rightarrow> the (X (m_volume (v_manifest vol)) h)))"

definition disk_bytes :: "objs_view \<Rightarrow> volume \<Rightarrow> bytes" where
  "disk_bytes X vol = dextent (vblock X vol) 0 (volume_size vol)"

text \<open>A manifest whose chunks are all in the store, and the invariant of a handle.\<close>

definition manifest_complete :: "manifest codec \<Rightarrow> objs_view \<Rightarrow> manifest \<Rightarrow> bool" where
  "manifest_complete cd X m \<longleftrightarrow> volume_validate m (m_volume m) = Ok () \<and> bt_ok (m_chunks m)
     \<and> (\<forall>h \<in> snd ` set (m_chunks m). \<exists>b. X (m_volume m) h = Some b \<and> length b = CHUNK_BYTES \<and> c_digest cd b = h)"

definition volume_inv :: "manifest codec \<Rightarrow> objs_view \<Rightarrow> volume \<Rightarrow> bool" where
  "volume_inv cd X vol \<longleftrightarrow> valid_id (m_volume (v_manifest vol)) \<and> manifest_complete cd X (v_manifest vol) \<and> bt_ok (v_dirty vol)
     \<and> (\<forall>(i, b) \<in> set (v_dirty vol). i < volume_size vol div CHUNK_BYTES \<and> length b = CHUNK_BYTES)"

text \<open>What the code relies on of SHA-256 in hexadecimal and of the serde round trip.\<close>

definition codec_ok :: "('m \<Rightarrow> bool) \<Rightarrow> 'm codec \<Rightarrow> bool" where
  "codec_ok good cd \<longleftrightarrow>
     (\<forall>m b. good m \<longrightarrow> c_to_vec cd m = Some b \<longrightarrow> c_from_slice cd b = Some m)
     \<and> (\<forall>b m. c_from_slice cd b = Some m \<longrightarrow> good m)
     \<and> (\<forall>b. valid_hash (c_digest cd b))"

text \<open>A deserialised manifest is well formed: its chunks are a \<open>BTreeMap\<close>.\<close>

definition manifest_wf :: "manifest \<Rightarrow> bool" where
  "manifest_wf m = bt_ok (m_chunks m)"

text \<open>No head names a chunk that is not in the store.\<close>

definition store_complete :: "manifest codec \<Rightarrow> heads_view \<Rightarrow> objs_view \<Rightarrow> bool" where
  "store_complete cd H X \<longleftrightarrow>
     (\<forall>v h m. H v = Some h \<longrightarrow> c_from_slice cd (h_manifest h) = Some m
        \<longrightarrow> volume_validate m v = Ok () \<longrightarrow> manifest_complete cd X m)"

section \<open>Lemmas on manifests\<close>

lemma validate_Ok:
  "volume_validate m i = Ok () \<longleftrightarrow> m_format m = 1 \<and> m_volume m = i \<and> 0 < m_size m \<and> m_size m \<le> MAX_VOLUME_BYTES
     \<and> m_size m mod CHUNK_BYTES = 0
     \<and> (\<forall>(index, hash) \<in> set (m_chunks m). index < m_size m div CHUNK_BYTES \<and> valid_hash hash)"
  unfolding volume_validate_def list_ex_iff by (auto simp: not_le not_less; fastforce)

lemma check_range_Ok:
  "check_range vol offset len = Ok () \<longleftrightarrow>
     \<not> v_reopen vol \<and> offset + len < U64 \<and> offset + len \<le> volume_size vol"
  by (auto simp: check_range_def volume_size_def checked_add_def)

lemma check_range_Err:
  "check_range vol offset len = Err e \<Longrightarrow>
     v_reopen vol \<and> e = ReopenRequired \<or> \<not> v_reopen vol \<and> volume_size vol < offset + len \<and> e = InvalidInput
     \<or> \<not> v_reopen vol \<and> U64 \<le> offset + len \<and> e = InvalidInput"
  by (auto simp: check_range_def volume_size_def checked_add_def split: if_splits)

lemma manifest_complete_chunk:
  "manifest_complete cd X m \<Longrightarrow> bt_get (m_chunks m) i = Some h \<Longrightarrow>
     \<exists>b. X (m_volume m) h = Some b \<and> length b = CHUNK_BYTES \<and> c_digest cd b = h"
  unfolding manifest_complete_def by (auto simp: bt_entries [symmetric] image_iff Bex_def)

lemma manifest_complete_mono:
  "manifest_complete cd X m \<Longrightarrow> objs_le X Y \<Longrightarrow> manifest_complete cd Y m"
  unfolding manifest_complete_def by (metis objs_leD)

lemma volume_inv_mono: "volume_inv cd X vol \<Longrightarrow> objs_le X Y \<Longrightarrow> volume_inv cd Y vol"
  unfolding volume_inv_def using manifest_complete_mono by blast

lemma vblock_mono:
  "volume_inv cd X vol \<Longrightarrow> objs_le X Y \<Longrightarrow> vblock Y vol i = vblock X vol i"
  using manifest_complete_chunk [of cd X "v_manifest vol" i] objs_leD [of X Y]
  by (fastforce simp: vblock_def volume_inv_def split: option.split)

lemma vblock_length: "volume_inv cd X vol \<Longrightarrow> length (vblock X vol i) = CHUNK_BYTES"
  using manifest_complete_chunk [of cd X "v_manifest vol" i]
  by (auto simp: vblock_def volume_inv_def bt_entries [symmetric] split: option.split)

subsection \<open>The next manifest\<close>

definition next_chunks :: "manifest codec \<Rightarrow> (nat \<times> bytes) list \<Rightarrow> (nat, string) btree \<Rightarrow> (nat, string) btree" where
  "next_chunks cd dirty chunks =
     fold (\<lambda>(i, b) c. if all_zero b then bt_remove i c else bt_insert i (c_digest cd b) c) dirty chunks"

lemma bt_ok_next_chunks [simp]: "bt_ok chunks \<Longrightarrow> bt_ok (next_chunks cd dirty chunks)"
  unfolding next_chunks_def by (induction dirty arbitrary: chunks) auto

lemma get_next_chunks:
  "bt_ok chunks \<Longrightarrow> distinct (map fst dirty) \<Longrightarrow>
   bt_get (next_chunks cd dirty chunks) i =
     (case map_of dirty i of
        None \<Rightarrow> bt_get chunks i
      | Some b \<Rightarrow> if all_zero b then None else Some (c_digest cd b))"
proof (induction dirty arbitrary: chunks)
  case Nil
  then show ?case by (simp add: next_chunks_def)
next
  case (Cons e dirty)
  obtain j b where e: "e = (j, b)" by force
  define c' where "c' = (if all_zero b then bt_remove j chunks else bt_insert j (c_digest cd b) chunks)"
  have "map_of dirty j = None"
    using Cons.prems e by (auto simp: map_of_eq_None_iff)
  moreover have "bt_ok c'" using Cons.prems(1) by (simp add: c'_def)
  then have "bt_get (next_chunks cd dirty c') i =
      (case map_of dirty i of None \<Rightarrow> bt_get c' i | Some b \<Rightarrow> if all_zero b then None else Some (c_digest cd b))"
    using Cons by simp
  moreover have "next_chunks cd (e # dirty) chunks = next_chunks cd dirty c'"
    by (simp add: next_chunks_def e c'_def)
  ultimately show ?case
    using Cons.prems(1) e by (auto simp: c'_def split: option.split)
qed

definition next_manifest :: "manifest codec \<Rightarrow> volume \<Rightarrow> manifest" where
  "next_manifest cd vol = (v_manifest vol)\<lparr>m_generation := Suc (m_generation (v_manifest vol)),
     m_chunks := next_chunks cd (v_dirty vol) (m_chunks (v_manifest vol))\<rparr>"

definition dirty_stored :: "manifest codec \<Rightarrow> objs_view \<Rightarrow> string \<Rightarrow> (nat \<times> bytes) list \<Rightarrow> bool" where
  "dirty_stored cd X v dirty \<longleftrightarrow> (\<forall>(i, b) \<in> set dirty. \<not> all_zero b \<longrightarrow> X v (c_digest cd b) = Some b)"

lemma all_zero_chunk: "all_zero b \<Longrightarrow> length b = CHUNK_BYTES \<Longrightarrow> b = zeros CHUNK_BYTES"
  using all_zero_iff by metis

text \<open>The committed handle shows the same disk, and its manifest is complete.\<close>

lemma next_manifest_vblock:
  assumes inv: "volume_inv cd X vol" and le: "objs_le X Y"
    and st: "dirty_stored cd Y (m_volume (v_manifest vol)) (v_dirty vol)"
  shows "vblock Y (vol\<lparr>v_manifest := next_manifest cd vol, v_revision := r, v_dirty := []\<rparr>) i = vblock X vol i"
proof (cases "bt_get (v_dirty vol) i")
  case None
  then have "vblock Y (vol\<lparr>v_manifest := next_manifest cd vol, v_revision := r, v_dirty := []\<rparr>) i = vblock Y vol i"
    using inv by (simp add: vblock_def next_manifest_def get_next_chunks volume_inv_def manifest_complete_def
        bt_ok_distinct split: option.split)
  then show ?thesis
    using vblock_mono [OF inv le] by simp
next
  case (Some b)
  then have "(i, b) \<in> set (v_dirty vol)"
    by (rule map_of_SomeD)
  then have "length b = CHUNK_BYTES" "\<not> all_zero b \<longrightarrow> Y (m_volume (v_manifest vol)) (c_digest cd b) = Some b"
    using inv st by (auto simp: volume_inv_def dirty_stored_def)
  with Some inv show ?thesis
    using all_zero_chunk [of b]
    by (simp add: vblock_def next_manifest_def get_next_chunks volume_inv_def manifest_complete_def bt_ok_distinct)
qed

lemma next_manifest_disk:
  assumes "volume_inv cd X vol" "objs_le X Y" "dirty_stored cd Y (m_volume (v_manifest vol)) (v_dirty vol)"
  shows "disk_bytes Y (vol\<lparr>v_manifest := next_manifest cd vol, v_revision := r, v_dirty := []\<rparr>) = disk_bytes X vol"
proof -
  have "volume_size (vol\<lparr>v_manifest := next_manifest cd vol, v_revision := r, v_dirty := []\<rparr>) = volume_size vol"
    by (simp add: volume_size_def next_manifest_def)
  then show ?thesis
    unfolding disk_bytes_def by (simp add: dextent_def dbyte_def next_manifest_vblock [OF assms])
qed

lemma next_manifest_complete:
  assumes inv: "volume_inv cd X vol" and le: "objs_le X Y"
    and st: "dirty_stored cd Y (m_volume (v_manifest vol)) (v_dirty vol)"
    and hash: "\<And>b. valid_hash (c_digest cd b)"
  shows "manifest_complete cd Y (next_manifest cd vol)"
proof -
  let ?m = "v_manifest vol" and ?n = "next_manifest cd vol"
  have m: "manifest_complete cd X ?m" "bt_ok (m_chunks ?m)" "distinct (map fst (v_dirty vol))"
    using inv by (simp_all add: volume_inv_def manifest_complete_def bt_ok_distinct)
  then have ok: "bt_ok (m_chunks ?n)" by (simp add: next_manifest_def)
  have entry: "i < m_size ?m div CHUNK_BYTES \<and> valid_hash h
      \<and> (\<exists>b. Y (m_volume ?m) h = Some b \<and> length b = CHUNK_BYTES \<and> c_digest cd b = h)"
    if "(i, h) \<in> set (m_chunks ?n)" for i h
  proof -
    have "bt_get (m_chunks ?n) i = Some h" using that ok by (simp only: bt_entries)
    then consider (old) "bt_get (m_chunks ?m) i = Some h"
      | (new) b where "(i, b) \<in> set (v_dirty vol)" "\<not> all_zero b" "h = c_digest cd b"
      using m by (auto simp: next_manifest_def get_next_chunks split: option.splits if_splits dest: map_of_SomeD)
    then show ?thesis
    proof cases
      case old
      then have "(i, h) \<in> set (m_chunks ?m)" using m by (simp only: bt_entries)
      with old m(1) show ?thesis
        using manifest_complete_chunk [OF m(1) old] objs_leD [OF le]
        by (auto simp: manifest_complete_def validate_Ok)
    next
      case new
      with inv st hash show ?thesis
        by (auto simp: volume_inv_def dirty_stored_def volume_size_def)
    qed
  qed
  have "volume_validate ?n (m_volume ?n) = Ok ()"
    using m(1) entry by (auto simp: manifest_complete_def validate_Ok next_manifest_def)
  with ok entry show ?thesis
    by (auto simp: manifest_complete_def next_manifest_def)
qed

section \<open>Volumes over a store\<close>

locale volume_store = object_store_laws os heads objs ok
  for os :: "'s object_store" and heads :: "'s \<Rightarrow> heads_view" and objs :: "'s \<Rightarrow> objs_view" and ok :: "'s \<Rightarrow> bool" +
  fixes cd :: "manifest codec"
  assumes codec: "codec_ok manifest_wf cd"
begin

lemma hash_ok: "valid_hash (c_digest cd b)"
  and from_to: "manifest_wf m \<Longrightarrow> c_to_vec cd m = Some b \<Longrightarrow> c_from_slice cd b = Some m"
  and from_wf: "c_from_slice cd b = Some m \<Longrightarrow> manifest_wf m"
  using codec unfolding codec_ok_def by blast+

text \<open>A load keeps the store, and fails only where the store fails to answer.\<close>

definition quiet :: "'s \<Rightarrow> 's \<Rightarrow> bool" where
  "quiet s s' \<longleftrightarrow> ok s' \<and> heads s' = heads s \<and> objs s' = objs s"

definition chunks_answered :: bool where
  "chunks_answered \<longleftrightarrow>
     (\<forall>t v d b. ok t \<longrightarrow> objs t v d = Some b \<longrightarrow> (\<exists>t'. os_chunk os v d t = (Ok b, t')))"

lemma load_block:
  assumes "ok s" "volume_inv cd (objs s) vol"
  shows "post (volume_load cd os vol i)
    (\<lambda>b s'. quiet s s' \<and> b = vblock (objs s) vol i \<and> length b = CHUNK_BYTES)
    (\<lambda>_ s'. quiet s s' \<and> \<not> chunks_answered) s"
proof (cases "bt_get (v_dirty vol) i = None \<and> bt_get (m_chunks (v_manifest vol)) i \<noteq> None")
  case True
  then obtain h where h: "bt_get (v_dirty vol) i = None" "bt_get (m_chunks (v_manifest vol)) i = Some h" by auto
  then obtain b where b: "objs s (m_volume (v_manifest vol)) h = Some b" "length b = CHUNK_BYTES" "c_digest cd b = h"
    using assms(2) manifest_complete_chunk [of cd "objs s" "v_manifest vol" i h] by (auto simp: volume_inv_def)
  then have "chunks_answered \<Longrightarrow> \<exists>t'. os_chunk os (m_volume (v_manifest vol)) h s = (Ok b, t')"
    using assms(1) by (simp add: chunks_answered_def)
  then have ans: "post (os_chunk os (m_volume (v_manifest vol)) h) (\<lambda>_ _. True) (\<lambda>_ _. \<not> chunks_answered) s"
    by (cases chunks_answered) (auto simp: post_def split: prod.split result.split)
  have "valid_id (m_volume (v_manifest vol))" using assms(2) by (simp add: volume_inv_def)
  note law = chunk_law [OF assms(1) this, of h]
  have "post (os_chunk os (m_volume (v_manifest vol)) h)
      (\<lambda>c s'. quiet s s' \<and> c = b) (\<lambda>_ s'. quiet s s' \<and> \<not> chunks_answered) s"
    by (rule post_mono [OF post_conj [OF ans law]]) (use b in \<open>auto simp: quiet_def\<close>)
  then show ?thesis
    using h b
    by (auto simp: volume_load_def vblock_def post_simps quiet_def elim!: post_mono)
next
  case False
  with assms vblock_length [OF assms(2), of i] show ?thesis
    by (auto simp: volume_load_def vblock_def post_simps quiet_def split: option.splits)
qed

text \<open>The loader of a handle provides the block device that the loops need.\<close>

lemma device:
  assumes "ok s" "volume_inv cd (objs s) vol"
  shows "block_device (volume_load cd os vol) (\<lambda>i _ _. volume_load cd os vol i) (vblock (objs s) vol)
    (quiet s) (\<lambda>_ s'. quiet s s' \<and> \<not> chunks_answered)"
proof
  fix t i w n
  assume t: "quiet s t"
  then have "volume_inv cd (objs t) vol" using assms by (simp add: quiet_def)
  note l = load_block [OF _ this, of i]
  show "post (volume_load cd os vol i)
      (\<lambda>b s'. quiet s s' \<and> b = vblock (objs s) vol i \<and> length b = CHUNK_BYTES)
      (\<lambda>_ s'. quiet s s' \<and> \<not> chunks_answered) t"
    by (rule post_mono [OF l]) (use t in \<open>auto simp: quiet_def\<close>)
  show "post (volume_load cd os vol i)
      (\<lambda>b s'. quiet s s' \<and> length b = CHUNK_BYTES
         \<and> (\<forall>j < CHUNK_BYTES. j < w \<or> w + n \<le> j \<longrightarrow> b ! j = vblock (objs s) vol i ! j))
      (\<lambda>_ s'. quiet s s' \<and> \<not> chunks_answered) t"
    by (rule post_mono [OF l]) (use t in \<open>auto simp: quiet_def\<close>)
qed

lemma read_correct:
  assumes "ok s" "volume_inv cd (objs s) vol"
  shows "post (volume_read cd os vol offset buf)
    (\<lambda>out s'. offset + length buf \<le> volume_size vol \<and> \<not> v_reopen vol
       \<and> out = slice_of (disk_bytes (objs s) vol) offset (offset + length buf) \<and> quiet s s')
    (\<lambda>e s'. quiet s s' \<and> (check_range vol offset (length buf) = Ok () \<and> \<not> chunks_answered
        \<or> check_range vol offset (length buf) = Err e)) s"
proof -
  note r = block_device.read_loop_extent [OF device [OF assms], of s 0 "length buf" buf offset]
  show ?thesis
    using assms(1) check_range_Ok [of vol offset "length buf"]
    by (cases "check_range vol offset (length buf)")
      (auto simp: volume_read_def post_simps disk_bytes_def slice_of_dextent quiet_def
        intro!: post_mono [OF r])
qed

text \<open>A write of the handle is a write of the disk.\<close>

lemma write_inv:
  assumes inv: "volume_inv cd X vol" and wr: "wr_inv (vblock X vol) offset input (length input) pending"
    and range: "offset + length input \<le> volume_size vol"
  defines "vol' \<equiv> vol\<lparr>v_dirty := bt_extend (v_dirty vol) pending\<rparr>"
  shows "volume_inv cd X vol'" "disk_bytes X vol' = copy_at (disk_bytes X vol) offset input"
    "input \<noteq> [] \<Longrightarrow> v_dirty vol' \<noteq> []"
proof -
  have ok: "bt_ok pending" "bt_ok (v_dirty vol)" using wr inv by (simp_all add: wr_inv_def volume_inv_def)
  have blk: "vblock X vol' i = (case bt_get pending i of None \<Rightarrow> vblock X vol i | Some b \<Rightarrow> b)" for i
    using ok by (simp add: vblock_def vol'_def bt_get_extend split: option.split)
  show "v_dirty vol' \<noteq> []" if "input \<noteq> []"
  proof -
    have "\<exists>p. offset \<le> p \<and> p < offset + length input \<and> p div CHUNK_BYTES = offset div CHUNK_BYTES"
      using that by (intro exI [of _ offset]) simp
    then have "bt_get pending (offset div CHUNK_BYTES) \<noteq> None"
      using wr unfolding wr_inv_def by blast
    then have "bt_get (v_dirty vol') (offset div CHUNK_BYTES) \<noteq> None"
      using ok by (auto simp: vol'_def bt_get_extend)
    then show ?thesis by auto
  qed
  have size: "volume_size vol' = volume_size vol" by (simp add: vol'_def volume_size_def)
  show "disk_bytes X vol' = copy_at (disk_bytes X vol) offset input"
    unfolding disk_bytes_def size
    by (rule dextent_write [OF _ range]) (rule wr_inv_disk [OF wr blk])
  have mult: "volume_size vol mod CHUNK_BYTES = 0"
    using inv by (simp add: volume_inv_def manifest_complete_def validate_Ok volume_size_def)
  have new: "i < volume_size vol div CHUNK_BYTES \<and> length b = CHUNK_BYTES" if get: "bt_get pending i = Some b" for i b
  proof -
    obtain p where p: "p < offset + length input" "p div CHUNK_BYTES = i"
      using wr get unfolding wr_inv_def by (metis option.distinct(1))
    have "p < volume_size vol div CHUNK_BYTES * CHUNK_BYTES"
      using p(1) range mult div_mult_mod_eq [of "volume_size vol" CHUNK_BYTES] by simp
    then show ?thesis
      using p(2) wr get by (auto simp: wr_inv_def less_mult_imp_div_less)
  qed
  have "i < volume_size vol div CHUNK_BYTES \<and> length b = CHUNK_BYTES"
    if "(i, b) \<in> set (bt_extend (v_dirty vol) pending)" for i b
  proof -
    have "bt_get (bt_extend (v_dirty vol) pending) i = Some b"
      using that ok by (simp only: bt_entries [OF bt_ok_extend])
    then consider "bt_get pending i = Some b" | "(i, b) \<in> set (v_dirty vol)"
      using ok by (auto simp: bt_get_extend split: option.splits dest: map_of_SomeD)
    then show ?thesis using new inv by cases (auto simp: volume_inv_def)
  qed
  then show "volume_inv cd X vol'"
    using inv ok by (auto simp: volume_inv_def vol'_def size volume_size_def)
qed

lemma write_correct:
  assumes "ok s" "volume_inv cd (objs s) vol"
  shows "post (volume_write cd os offset input)
    (\<lambda>_ (vol', s'). offset + length input \<le> volume_size vol \<and> \<not> v_reopen vol \<and> quiet s s'
       \<and> vol' = vol\<lparr>v_dirty := v_dirty vol'\<rparr> \<and> volume_inv cd (objs s') vol' \<and> (input \<noteq> [] \<longrightarrow> v_dirty vol' \<noteq> [])
       \<and> disk_bytes (objs s') vol' = copy_at (disk_bytes (objs s) vol) offset input)
    (\<lambda>e (vol', s'). vol' = vol \<and> quiet s s' \<and> (check_range vol offset (length input) = Ok () \<and> \<not> chunks_answered
        \<or> check_range vol offset (length input) = Err e)) (vol, s)"
proof -
  have r: "post (io_bind (io_lift (check_range vol offset (length input))) (\<lambda>_.
        write_loop (\<lambda>index _ _. volume_load cd os vol index) offset input 0 []))
      (\<lambda>pending s'. offset + length input \<le> volume_size vol \<and> \<not> v_reopen vol \<and> quiet s s'
         \<and> wr_inv (vblock (objs s) vol) offset input (length input) pending)
      (\<lambda>e s'. quiet s s' \<and> (check_range vol offset (length input) = Ok () \<and> \<not> chunks_answered
        \<or> check_range vol offset (length input) = Err e)) s"
    using assms(1) check_range_Ok [of vol offset "length input"]
    by (cases "check_range vol offset (length input)")
      (auto simp: post_simps quiet_def
        intro!: post_mono [OF block_device.write_loop_pending [OF device [OF assms] _ wr_inv_0]])
  show ?thesis
    using r write_inv [OF assms(2)]
    by (auto simp: volume_write_def post_def quiet_def split: prod.splits result.splits)
qed

lemma commit_chunks_post:
  "ok s \<Longrightarrow> valid_id (m_volume m) \<Longrightarrow> post (commit_chunks cd os dirty m)
    (\<lambda>m' s'. ok s' \<and> heads s' = heads s \<and> objs_le (objs s) (objs s')
       \<and> m' = m\<lparr>m_chunks := next_chunks cd dirty (m_chunks m)\<rparr> \<and> dirty_stored cd (objs s') (m_volume m) dirty)
    (\<lambda>_ s'. ok s' \<and> heads s' = heads s \<and> objs_le (objs s) (objs s')) s"
proof (induction dirty arbitrary: m s)
  case Nil
  then show ?case by (simp add: post_simps next_chunks_def dirty_stored_def)
next
  case (Cons e dirty)
  obtain i b where e: "e = (i, b)" by force
  show ?case
  proof (cases "all_zero b")
    case True
    with Cons e show ?thesis
      by (auto simp: next_chunks_def dirty_stored_def intro!: post_mono [OF Cons.IH])
  next
    case False
    have step: "post (commit_chunks cd os dirty (m\<lparr>m_chunks := bt_insert i (c_digest cd b) (m_chunks m)\<rparr>))
      (\<lambda>m' s'. ok s' \<and> heads s' = heads s \<and> objs_le (objs s) (objs s')
         \<and> m' = m\<lparr>m_chunks := next_chunks cd (e # dirty) (m_chunks m)\<rparr> \<and> dirty_stored cd (objs s') (m_volume m) (e # dirty))
      (\<lambda>_ s'. ok s' \<and> heads s' = heads s \<and> objs_le (objs s) (objs s')) t"
      if "ok t" "heads t = heads s" "objs_le (objs s) (objs t)" "objs t (m_volume m) (c_digest cd b) = Some b" for t
      using that False e Cons.prems(2)
      by (auto simp: next_chunks_def dirty_stored_def intro: objs_le_trans objs_leD intro!: post_mono [OF Cons.IH])
    show ?thesis
      using False e step
      by (auto simp: Let_def post_simps intro!: post_mono [OF put_mono [OF Cons.prems]])
  qed
qed

lemma commit_prepare_post:
  assumes "ok s" "valid_id (m_volume (v_manifest vol))"
  shows "post (commit_prepare cd os vol)
    (\<lambda>(m, bs) s'. ok s' \<and> heads s' = heads s \<and> objs_le (objs s) (objs s') \<and> m = next_manifest cd vol
       \<and> c_to_vec cd m = Some bs \<and> length bs \<le> MAX_MANIFEST_BYTES
       \<and> dirty_stored cd (objs s') (m_volume (v_manifest vol)) (v_dirty vol))
    (\<lambda>_ s'. ok s' \<and> heads s' = heads s \<and> objs_le (objs s) (objs s')) s"
  unfolding commit_prepare_def using assms
  by (auto simp: post_simps ok_or_def checked_add_def next_manifest_def not_less
      split: option.split intro!: post_mono [OF commit_chunks_post])

text \<open>
  The outcomes of a commit. On success the complete next manifest replaced exactly the
  revision that the handle had read; on failure either nothing changed but for added
  immutable objects, or the handle is poisoned.
\<close>

definition published :: "'s \<Rightarrow> 's \<Rightarrow> volume \<Rightarrow> string \<Rightarrow> bytes \<Rightarrow> bool" where
  "published s s' vol r bs \<longleftrightarrow>
     map_option h_revision (heads s (m_volume (v_manifest vol))) = Some (v_revision vol)
     \<and> heads s' = (heads s)(m_volume (v_manifest vol) \<mapsto> \<lparr>h_revision = r, h_manifest = bs\<rparr>)"

definition prepared :: "'s \<Rightarrow> volume \<Rightarrow> bytes \<Rightarrow> bool" where
  "prepared s vol bs \<longleftrightarrow> c_to_vec cd (next_manifest cd vol) = Some bs \<and> length bs \<le> MAX_MANIFEST_BYTES
     \<and> manifest_complete cd (objs s) (next_manifest cd vol)"

lemma commit_publish_post:
  assumes ok: "ok t" and v: "v = m_volume (v_manifest vol)" and n: "n = next_manifest cd vol" and vid: "valid_id v"
  shows "post (commit_publish os n bs)
    (\<lambda>g (vol', s'). ok s' \<and> objs s' = objs t \<and> (\<exists>rev. rev \<noteq> []
       \<and> vol' = vol\<lparr>v_manifest := n, v_revision := rev, v_dirty := []\<rparr> \<and> g = m_generation n
       \<and> published t s' vol rev bs
       \<and> (\<forall>h. heads t v = Some h \<and> h_manifest h \<noteq> bs \<longrightarrow> rev \<noteq> h_revision h)))
    (\<lambda>e (vol', s'). ok s' \<and> objs s' = objs t \<and> vol' = vol\<lparr>v_reopen := True\<rparr>
       \<and> (heads s' = heads t \<or> e = Uncertain \<and> (\<exists>rev. published t s' vol rev bs))) (vol, t)"
proof -
  have "m_volume n = v" by (simp add: v n next_manifest_def)
  with publish_law [OF ok vid, of "Some (v_revision vol)" bs] show ?thesis
    by (auto simp: commit_publish_def post_def published_def v split: prod.splits result.splits)
qed

lemma commit_post:
  assumes ok: "ok s" and inv: "volume_inv cd (objs s) vol"
  shows "post (volume_commit cd os)
    (\<lambda>g (vol', s'). ok s' \<and> objs_le (objs s) (objs s') \<and> \<not> v_reopen vol' \<and> v_dirty vol' = []
       \<and> volume_inv cd (objs s') vol' \<and> disk_bytes (objs s') vol' = disk_bytes (objs s) vol
       \<and> g = m_generation (v_manifest vol')
       \<and> (if v_dirty vol = [] then vol' = vol \<and> s' = s
          else \<exists>bs. v_manifest vol' = next_manifest cd vol \<and> prepared s' vol bs \<and> v_revision vol' \<noteq> []
             \<and> published s s' vol (v_revision vol') bs
             \<and> (\<forall>h. heads s (m_volume (v_manifest vol)) = Some h \<and> h_manifest h \<noteq> bs
                  \<longrightarrow> v_revision vol' \<noteq> h_revision h)))
    (\<lambda>e (vol', s'). ok s' \<and> objs_le (objs s) (objs s')
       \<and> (vol' = vol \<and> heads s' = heads s
          \<or> vol' = vol\<lparr>v_reopen := True\<rparr> \<and> (heads s' = heads s
             \<or> e = Uncertain \<and> (\<exists>rev bs. prepared s' vol bs \<and> published s s' vol rev bs)))) (vol, s)"
    (is "post _ ?Q ?E _")
proof (cases "v_reopen vol \<or> v_dirty vol = []")
  case True
  with ok inv show ?thesis
    by (auto simp: volume_commit_def post_def)
next
  case False
  define n where "n = next_manifest cd vol"
  have vid: "valid_id (m_volume (v_manifest vol))" using inv by (simp add: volume_inv_def)
  have pub: "post (commit_publish os n bs) ?Q ?E (vol, t)"
    if t: "ok t" "heads t = heads s" "objs_le (objs s) (objs t)" "c_to_vec cd n = Some bs"
      "length bs \<le> MAX_MANIFEST_BYTES" "dirty_stored cd (objs t) (m_volume (v_manifest vol)) (v_dirty vol)" for t bs
  proof -
    have mc: "manifest_complete cd (objs t) n"
      unfolding n_def by (rule next_manifest_complete [OF inv t(3) t(6) hash_ok])
    have "volume_inv cd (objs t) (vol\<lparr>v_manifest := n, v_revision := r, v_dirty := []\<rparr>)" for r
      using mc inv by (simp add: volume_inv_def n_def next_manifest_def)
    moreover have "disk_bytes (objs t) (vol\<lparr>v_manifest := n, v_revision := r, v_dirty := []\<rparr>) = disk_bytes (objs s) vol" for r
      unfolding n_def by (rule next_manifest_disk [OF inv t(3) t(6)])
    ultimately show ?thesis
      using t False mc
      by (intro post_mono [OF commit_publish_post [OF t(1) refl n_def vid]])
        (auto simp: published_def prepared_def n_def)
  qed
  obtain r t where run: "commit_prepare cd os vol s = (r, t)" by force
  show ?thesis
  proof (cases r)
    case (Ok mb)
    obtain m bs where mb: "mb = (m, bs)" by force
    note p = post_run [OF commit_prepare_post [OF ok vid] run [unfolded Ok mb]]
    then have "m = n" by (simp add: n_def)
    then have "volume_commit cd os (vol, s) = commit_publish os n bs (vol, t)"
      using False run Ok mb by (simp add: volume_commit_def)
    moreover have "post (commit_publish os n bs) ?Q ?E (vol, t)"
      by (rule pub) (use p in \<open>auto simp: n_def\<close>)
    ultimately show ?thesis by (simp add: post_def)
  next
    case (Err e)
    then show ?thesis
      using post_run_err [OF commit_prepare_post [OF ok vid]] run False
      by (auto simp: volume_commit_def post_def)
  qed
qed

lemma open_head:
  assumes "ok s"
  shows "post (volume_open cd os i)
    (\<lambda>vol s'. quiet s s' \<and> valid_id i \<and> v_dirty vol = [] \<and> \<not> v_reopen vol
       \<and> volume_validate (v_manifest vol) i = Ok () \<and> manifest_wf (v_manifest vol)
       \<and> (\<exists>h. heads s i = Some h \<and> v_revision vol = h_revision h \<and> c_from_slice cd (h_manifest h) = Some (v_manifest vol)))
    (\<lambda>e s'. quiet s s' \<and> (fst (os_head os i s) = Err e \<or> \<not> valid_id i
       \<or> (\<forall>h m. heads s i = Some h \<longrightarrow> c_from_slice cd (h_manifest h) = Some m
            \<longrightarrow> h_revision h = [] \<or> MAX_MANIFEST_BYTES < length (h_manifest h) \<or> volume_validate m i \<noteq> Ok ()))) s"
proof (cases "valid_id i")
  case False
  with assms show ?thesis by (simp add: volume_open_def post_simps quiet_def)
next
  case True
  have "post (os_head os i) (\<lambda>h s'. quiet s s' \<and> h = heads s i) (\<lambda>e s'. quiet s s' \<and> fst (os_head os i s) = Err e) s"
    using head_law [OF assms True] by (auto simp: post_def quiet_def split: prod.splits result.splits)
  then show ?thesis
    using assms True
    by (auto simp: volume_open_def post_simps quiet_def ok_or_def from_wf
        split: option.split result.split elim!: post_mono)
qed

lemma open_inv:
  assumes "ok s" "store_complete cd (heads s) (objs s)"
  shows "post (volume_open cd os i) (\<lambda>vol s'. quiet s s' \<and> volume_inv cd (objs s') vol) (\<lambda>_ s'. quiet s s') s"
  using assms
  by (intro post_mono [OF open_head])
    (auto simp: quiet_def store_complete_def volume_inv_def validate_Ok)

lemma create_post:
  assumes "ok s"
  shows "post (volume_create cd os i sz)
    (\<lambda>vol s'. ok s' \<and> objs s' = objs s \<and> heads s i = None \<and> volume_inv cd (objs s') vol
       \<and> m_volume (v_manifest vol) = i \<and> disk_bytes (objs s') vol = zeros sz
       \<and> (\<exists>bs. c_to_vec cd (v_manifest vol) = Some bs
            \<and> heads s' = (heads s)(i \<mapsto> \<lparr>h_revision = v_revision vol, h_manifest = bs\<rparr>)))
    (\<lambda>e s'. ok s' \<and> objs s' = objs s \<and> (heads s' = heads s
       \<or> e = Uncertain \<and> heads s i = None
         \<and> (\<exists>r m bs. manifest_wf m \<and> m_volume m = i \<and> m_chunks m = [] \<and> volume_validate m i = Ok ()
              \<and> c_to_vec cd m = Some bs \<and> heads s' = (heads s)(i \<mapsto> \<lparr>h_revision = r, h_manifest = bs\<rparr>)))) s"
proof (cases "\<not> valid_id i \<or> sz = 0 \<or> MAX_VOLUME_BYTES < sz \<or> sz mod CHUNK_BYTES \<noteq> 0")
  case True
  with assms show ?thesis by (simp add: volume_create_def post_simps)
next
  case False
  then have vid: "valid_id i" by simp
  define m where "m = \<lparr>m_format = 1, m_volume = i, m_size = sz, m_generation = 0, m_chunks = []\<rparr>"
  have val: "volume_validate m i = Ok ()" "manifest_wf m" "m_volume m = i" "m_chunks m = []"
    using False by (auto simp: m_def validate_Ok manifest_wf_def)
  have inv: "volume_inv cd X \<lparr>v_manifest = m, v_revision = r, v_dirty = [], v_reopen = b\<rparr>" for X r b
    using val False by (simp add: volume_inv_def manifest_complete_def)
  have "dbyte (vblock X \<lparr>v_manifest = m, v_revision = r, v_dirty = [], v_reopen = b\<rparr>) p = 0" for X r b p
    using val(4) by (simp add: dbyte_def vblock_def)
  then have disk: "disk_bytes X \<lparr>v_manifest = m, v_revision = r, v_dirty = [], v_reopen = b\<rparr> = zeros sz" for X r b
    by (intro nth_equalityI) (simp_all add: disk_bytes_def volume_size_def m_def)
  have run: "volume_create cd os i sz =
      io_bind (io_lift (ok_or Corrupt (c_to_vec cd m))) (\<lambda>bs.
      io_bind (io_map_err publication_error (os_publish os i None bs)) (\<lambda>revision.
        if revision = [] then io_throw Uncertain
        else io_return \<lparr>v_manifest = m, v_revision = revision, v_dirty = [], v_reopen = False\<rparr>))"
    unfolding volume_create_def Let_def m_def using False by (simp only: if_False)
  show ?thesis
  proof (cases "c_to_vec cd m")
    case None
    with assms show ?thesis by (simp add: run ok_or_def post_simps)
  next
    case (Some bs)
    show ?thesis
      unfolding run Some ok_or_def option.case post_bind post_lift result.case post_map_err
      by (rule post_mono [OF publish_law [OF assms vid, of None bs]])
        (use Some inv disk val in \<open>(auto simp: post_simps; blast)+\<close>)
  qed
qed

lemma store_complete_update:
  assumes "store_complete cd H X" "objs_le X Y" "manifest_complete cd Y m" "c_to_vec cd m = Some bs" "m_volume m = v"
  shows "store_complete cd (H(v \<mapsto> \<lparr>h_revision = r, h_manifest = bs\<rparr>)) Y"
proof -
  have "manifest_wf m" using assms(3) by (simp add: manifest_complete_def manifest_wf_def)
  then have "c_from_slice cd bs = Some m" using assms(4) by (rule from_to)
  with assms show ?thesis
    by (auto simp: store_complete_def intro: manifest_complete_mono)
qed

lemma store_complete_mono: "store_complete cd H X \<Longrightarrow> objs_le X Y \<Longrightarrow> store_complete cd H Y"
  unfolding store_complete_def using manifest_complete_mono by blast

end

section \<open>Clients that share a store\<close>

text \<open>
  Any number of clients, each with at most one handle, operate on the volumes of one
  store in any order. A handle may be dropped at any time (a crash of its client).
\<close>

inductive client_step ::
  "manifest codec \<Rightarrow> 's object_store \<Rightarrow> (nat \<Rightarrow> volume option) \<times> 's \<Rightarrow> (nat \<Rightarrow> volume option) \<times> 's \<Rightarrow> bool"
  for cd :: "manifest codec" and os :: "'s object_store" where
  cs_create: "volume_create cd os i sz s = (r, s') \<Longrightarrow>
    client_step cd os (hs, s) (case r of Ok vol \<Rightarrow> hs(c \<mapsto> vol) | Err e \<Rightarrow> hs, s')"
| cs_open: "volume_open cd os i s = (r, s') \<Longrightarrow>
    client_step cd os (hs, s) (case r of Ok vol \<Rightarrow> hs(c \<mapsto> vol) | Err e \<Rightarrow> hs, s')"
| cs_read: "hs c = Some vol \<Longrightarrow> volume_read cd os vol offset buf s = (r, s') \<Longrightarrow>
    client_step cd os (hs, s) (hs, s')"
| cs_write: "hs c = Some vol \<Longrightarrow> volume_write cd os offset input (vol, s) = (r, vol', s') \<Longrightarrow>
    client_step cd os (hs, s) (hs(c \<mapsto> vol'), s')"
| cs_commit: "hs c = Some vol \<Longrightarrow> volume_commit cd os (vol, s) = (r, vol', s') \<Longrightarrow>
    client_step cd os (hs, s) (hs(c \<mapsto> vol'), s')"
| cs_drop: "client_step cd os (hs, s) (hs(c := None), s)"

definition clients_inv ::
  "manifest codec \<Rightarrow> ('s \<Rightarrow> heads_view) \<Rightarrow> ('s \<Rightarrow> objs_view) \<Rightarrow> ('s \<Rightarrow> bool) \<Rightarrow> (nat \<Rightarrow> volume option) \<times> 's \<Rightarrow> bool" where
  "clients_inv cd heads objs ok = (\<lambda>(hs, s). ok s \<and> store_complete cd (heads s) (objs s)
     \<and> (\<forall>c vol. hs c = Some vol \<longrightarrow> volume_inv cd (objs s) vol))"

context volume_store
begin

lemma clients_inv_world:
  assumes "clients_inv cd heads objs ok (hs, s)" "ok s'" "objs_le (objs s) (objs s')"
    "store_complete cd (heads s') (objs s')" "\<forall>vol'. hs' c = Some vol' \<longrightarrow> volume_inv cd (objs s') vol'"
    "\<forall>d. d \<noteq> c \<longrightarrow> hs' d = hs d"
  shows "clients_inv cd heads objs ok (hs', s')"
  unfolding clients_inv_def
proof (clarsimp simp: assms(2,4))
  fix d vol
  assume "hs' d = Some vol"
  then show "volume_inv cd (objs s') vol"
    using assms(1,3,5,6) volume_inv_mono unfolding clients_inv_def
    by (cases "d = c") fastforce+
qed

lemma create_clients:
  assumes inv: "clients_inv cd heads objs ok (hs, s)" and run: "volume_create cd os i sz s = (r, s')"
  shows "clients_inv cd heads objs ok (case r of Ok vol \<Rightarrow> hs(c \<mapsto> vol) | Err e \<Rightarrow> hs, s')"
proof -
  have ok: "ok s" and sc: "store_complete cd (heads s) (objs s)" using inv by (auto simp: clients_inv_def)
  note p = create_post [OF ok, of i sz]
  show ?thesis
  proof (cases r)
    case (Ok vol)
    note post_run [OF p run [unfolded Ok]]
    then show ?thesis
      using inv Ok store_complete_update [OF sc objs_le_refl]
      by (intro clients_inv_world [OF inv, where c = c]) (auto simp: volume_inv_def)
  next
    case (Err e)
    note q = post_run_err [OF p run [unfolded Err]]
    have "manifest_complete cd X m" if "manifest_wf m" "m_volume m = i" "m_chunks m = []" "volume_validate m i = Ok ()" for m X
      using that by (simp add: manifest_complete_def manifest_wf_def)
    with q have "store_complete cd (heads s') (objs s')"
      using sc store_complete_update [OF sc objs_le_refl] by (metis (no_types, lifting))
    then show ?thesis
      using inv Err q by (intro clients_inv_world [OF inv, where c = c]) (auto simp: clients_inv_def)
  qed
qed

lemma commit_clients:
  assumes inv: "clients_inv cd heads objs ok (hs, s)" and hc: "hs c = Some vol"
    and run: "volume_commit cd os (vol, s) = (r, vol', s')"
  shows "clients_inv cd heads objs ok (hs(c \<mapsto> vol'), s')"
proof -
  have ok: "ok s" and sc: "store_complete cd (heads s) (objs s)" and vi: "volume_inv cd (objs s) vol"
    using inv hc by (auto simp: clients_inv_def)
  note p = commit_post [OF ok vi]
  have pub: "store_complete cd (heads s') (objs s')"
    if "prepared s' vol bs" "published s s' vol rv bs" "objs_le (objs s) (objs s')" for rv bs
    using that store_complete_update [OF sc that(3), of "next_manifest cd vol" bs]
    by (auto simp: prepared_def published_def next_manifest_def)
  have "ok s' \<and> objs_le (objs s) (objs s') \<and> store_complete cd (heads s') (objs s') \<and> volume_inv cd (objs s') vol'"
  proof (cases r)
    case (Ok g)
    show ?thesis
      using post_run [OF p run [unfolded Ok]] sc pub by (auto split: if_splits)
  next
    case (Err e)
    have poison: "volume_inv cd (objs s') (vol\<lparr>v_reopen := True\<rparr>) = volume_inv cd (objs s') vol"
      by (simp add: volume_inv_def volume_size_def)
    show ?thesis
      using post_run_err [OF p run [unfolded Err]] sc pub store_complete_mono [OF sc] volume_inv_mono [OF vi] poison
      by auto
  qed
  then show ?thesis
    by (intro clients_inv_world [OF inv, where c = c]) auto
qed

lemma clients_invariant:
  assumes "clients_inv cd heads objs ok x" "client_step cd os x y"
  shows "clients_inv cd heads objs ok y"
  using assms(2,1)
proof cases
  case (cs_create i sz s r s' hs c)
  with assms(1) show ?thesis by (simp add: create_clients)
next
  case (cs_open i s r s' hs c)
  with assms(1) have sc: "ok s" "store_complete cd (heads s) (objs s)" by (auto simp: clients_inv_def)
  show ?thesis
    using cs_open assms(1) post_run [OF open_inv [OF sc, of i]] post_run_err [OF open_inv [OF sc, of i]]
    by (cases r) (auto simp: quiet_def clients_inv_def)
next
  case (cs_read hs c vol offset buf s r s')
  with assms(1) have "ok s" "volume_inv cd (objs s) vol" by (auto simp: clients_inv_def)
  note p = read_correct [OF this, of offset buf]
  show ?thesis
    using cs_read assms(1) post_run [OF p] post_run_err [OF p]
    by (cases r) (auto simp: quiet_def clients_inv_def)
next
  case (cs_write hs c vol offset input s r vol' s')
  with assms(1) have "ok s" "volume_inv cd (objs s) vol" by (auto simp: clients_inv_def)
  note p = write_correct [OF this, of offset input]
  show ?thesis
    using cs_write assms(1) post_run [OF p] post_run_err [OF p]
    by (cases r) (auto simp: quiet_def clients_inv_def)
next
  case (cs_commit hs c vol s r vol' s')
  with assms(1) show ?thesis by (simp add: commit_clients)
next
  case (cs_drop hs s c)
  with assms(1) show ?thesis by (auto simp: clients_inv_def)
qed

end

context volume_store
begin

lemma commit_durable:
  assumes "ok s" "volume_inv cd (objs s) vol" "v_dirty vol \<noteq> []"
    and "volume_commit cd os (vol, s) = (Ok g, vol', s')"
  shows "g = m_generation (v_manifest vol) + 1 \<and> volume_inv cd (objs s') vol'
    \<and> disk_bytes (objs s') vol' = disk_bytes (objs s) vol
    \<and> post (volume_open cd os (m_volume (v_manifest vol)))
        (\<lambda>w t. w = vol' \<and> objs t = objs s') (\<lambda>e t. fst (os_head os (m_volume (v_manifest vol)) s') = Err e) s'"
proof -
  let ?v = "m_volume (v_manifest vol)"
  note c = post_run [OF commit_post [OF assms(1,2)] assms(4)]
  then obtain bs where ok': "ok s'" and n: "v_manifest vol' = next_manifest cd vol"
    and bs: "c_to_vec cd (next_manifest cd vol) = Some bs" "length bs \<le> MAX_MANIFEST_BYTES"
      "manifest_complete cd (objs s') (next_manifest cd vol)"
    and h: "heads s' ?v = Some \<lparr>h_revision = v_revision vol', h_manifest = bs\<rparr>"
    and rest: "v_revision vol' \<noteq> []" "v_dirty vol' = []" "\<not> v_reopen vol'"
    using assms(3) by (auto simp: prepared_def published_def)
  have vid: "m_volume (next_manifest cd vol) = ?v" "m_generation (next_manifest cd vol) = m_generation (v_manifest vol) + 1"
    by (simp_all add: next_manifest_def)
  have parse: "c_from_slice cd bs = Some (next_manifest cd vol)"
    using bs by (intro from_to) (auto simp: manifest_complete_def manifest_wf_def)
  have val: "volume_validate (next_manifest cd vol) ?v = Ok ()"
    using bs(3) vid by (simp add: manifest_complete_def)
  have "valid_id ?v" using assms(2) by (simp add: volume_inv_def)
  then have "post (volume_open cd os ?v) (\<lambda>w t. w = vol' \<and> objs t = objs s') (\<lambda>e t. fst (os_head os ?v s') = Err e) s'"
    using h parse val n rest bs(2)
    by (intro post_mono [OF open_head [OF ok', of ?v]])
      (auto simp: quiet_def)
  then show ?thesis using c n vid by auto
qed

end

section \<open>Properties of volumes\<close>


text \<open>
  A successful write changes the handle's disk exactly as the assignment of the
  bytes at that offset would, and touches neither the store nor the committed manifest;
  a failed write, also one that fails half way through its chunks, leaves the handle
  as it was.
\<close>

theorem volume_write_correct:
  assumes "volume_store os heads objs ok cd" "ok s" "volume_inv cd (objs s) vol"
  shows "post (volume_write cd os offset input)
    (\<lambda>_ (vol', s'). offset + length input \<le> volume_size vol
       \<and> disk_bytes (objs s') vol' = copy_at (disk_bytes (objs s) vol) offset input
       \<and> vol' = vol\<lparr>v_dirty := v_dirty vol'\<rparr> \<and> volume_inv cd (objs s') vol'
       \<and> heads s' = heads s \<and> objs s' = objs s)
    (\<lambda>e (vol', s'). vol' = vol \<and> heads s' = heads s \<and> objs s' = objs s) (vol, s)"
  using volume_store.quiet_def [OF assms(1)]
  by (intro post_mono [OF volume_store.write_correct [OF assms]]) auto

text \<open>
  C1. A commit of buffered writes that reports success is durable and complete: the
  generation is the next one, the disk of the handle did not change, and whoever opens
  the volume from the store in that state gets a handle equal to the committed one,
  with the same bytes, unless the store does not return the head.
\<close>

theorem volume_commit_durable:
  assumes "volume_store os heads objs ok cd" "ok s" "volume_inv cd (objs s) vol" "v_dirty vol \<noteq> []"
    and "volume_commit cd os (vol, s) = (Ok g, vol', s')"
  shows "g = m_generation (v_manifest vol) + 1 \<and> volume_inv cd (objs s') vol'
    \<and> disk_bytes (objs s') vol' = disk_bytes (objs s) vol
    \<and> post (volume_open cd os (m_volume (v_manifest vol)))
        (\<lambda>w t. w = vol' \<and> objs t = objs s') (\<lambda>e t. fst (os_head os (m_volume (v_manifest vol)) s') = Err e) s'"
  by (rule volume_store.commit_durable [OF assms])

text \<open>
  C3. A commit that fails never loses or tears data. Either the head is untouched and
  the handle is as before, so that the commit can be retried, or the handle is
  poisoned; and then the head is untouched or, with the error \<open>Uncertain\<close>, holds the
  complete next manifest, all of whose chunks are in the store. A poisoned handle
  refuses every read, write and commit without touching the world.
\<close>

theorem volume_commit_failure:
  assumes "volume_store os heads objs ok cd" "ok s" "volume_inv cd (objs s) vol"
    and "volume_commit cd os (vol, s) = (Err e, vol', s')"
  shows "objs_le (objs s) (objs s') \<and>
    (vol' = vol \<and> heads s' = heads s
     \<or> vol' = vol\<lparr>v_reopen := True\<rparr>
       \<and> (heads s' = heads s
          \<or> e = Uncertain \<and> (\<exists>bs r. c_to_vec cd (next_manifest cd vol) = Some bs
               \<and> manifest_complete cd (objs s') (next_manifest cd vol)
               \<and> heads s' = (heads s)(m_volume (v_manifest vol) \<mapsto> \<lparr>h_revision = r, h_manifest = bs\<rparr>)))
       \<and> (\<forall>t offset buf. volume_read cd os vol' offset buf t = (Err ReopenRequired, t)
            \<and> volume_write cd os offset buf (vol', t) = (Err ReopenRequired, vol', t)
            \<and> volume_commit cd os (vol', t) = (Err ReopenRequired, vol', t)))"
proof -
  have poison: "volume_read cd os (vol\<lparr>v_reopen := True\<rparr>) offset buf t = (Err ReopenRequired, t)"
    "volume_write cd os offset buf (vol\<lparr>v_reopen := True\<rparr>, t) = (Err ReopenRequired, vol\<lparr>v_reopen := True\<rparr>, t)"
    "volume_commit cd os (vol\<lparr>v_reopen := True\<rparr>, t) = (Err ReopenRequired, vol\<lparr>v_reopen := True\<rparr>, t)" for offset buf t
    by (simp_all add: volume_read_def volume_write_def volume_commit_def check_range_def io_bind_def io_lift_def)
  show ?thesis
    using post_run_err [OF volume_store.commit_post [OF assms(1-3)] assms(4)] poison
    by (auto simp: volume_store.prepared_def [OF assms(1)] volume_store.published_def [OF assms(1)])
qed

text \<open>
  C4. No lost update. Two handles were opened from the same head and both have buffered
  writes; once one of them has committed, the commit of the other fails, leaves the
  head that the first one published and either leaves the handle or poisons it.
\<close>

theorem volume_no_lost_update:
  assumes "volume_store os heads objs ok cd" "ok s" "volume_inv cd (objs s) a" "volume_inv cd (objs s) b"
    and "heads s (m_volume (v_manifest a)) = Some h" "c_from_slice cd (h_manifest h) = Some (v_manifest a)"
    and "v_manifest b = v_manifest a" "v_revision b = h_revision h"
    and "v_dirty a \<noteq> []" "v_dirty b \<noteq> []"
    and "volume_commit cd os (a, s) = (Ok g, a', s')"
  shows "\<exists>e b' s''. volume_commit cd os (b, s') = (Err e, b', s'')
    \<and> heads s'' = heads s' \<and> (b' = b \<or> b' = b\<lparr>v_reopen := True\<rparr>)"
proof -
  let ?v = "m_volume (v_manifest a)"
  note laws = assms(1)
  note c = post_run [OF volume_store.commit_post [OF assms(1-3)] assms(11)]
  then obtain bs where ok': "ok s'" "objs_le (objs s) (objs s')"
    and bs: "c_to_vec cd (next_manifest cd a) = Some bs" "manifest_complete cd (objs s') (next_manifest cd a)"
    and h: "heads s' ?v = Some \<lparr>h_revision = v_revision a', h_manifest = bs\<rparr>"
    and fresh: "h_manifest h \<noteq> bs \<longrightarrow> v_revision a' \<noteq> h_revision h"
    using assms(5,9) by (auto simp: volume_store.prepared_def [OF laws] volume_store.published_def [OF laws])
  have "c_from_slice cd bs = Some (next_manifest cd a)"
    using bs by (intro volume_store.from_to [OF laws]) (auto simp: manifest_complete_def manifest_wf_def)
  moreover have "next_manifest cd a \<noteq> v_manifest a"
    by (metis next_manifest_def manifest.ext_inject manifest.select_convs(4) manifest.surjective
        manifest.update_convs(4,5) n_not_Suc_n)
  ultimately have "v_revision a' \<noteq> h_revision h"
    using fresh assms(6) by auto
  then have stale: "map_option h_revision (heads s' (m_volume (v_manifest b))) \<noteq> Some (v_revision b)"
    using h assms(7,8) by simp
  obtain r b' s'' where run: "volume_commit cd os (b, s') = (r, b', s'')" by (metis prod_cases3)
  note p = volume_store.commit_post [OF laws ok'(1) volume_inv_mono [OF assms(4) ok'(2)]]
  show ?thesis
  proof (cases r)
    case (Ok g')
    with post_run [OF p run [unfolded Ok]] stale assms(10) show ?thesis
      by (auto simp: volume_store.published_def [OF laws])
  next
    case (Err e)
    with post_run_err [OF p run [unfolded Err]] stale run show ?thesis
      by (auto simp: volume_store.published_def [OF laws])
  qed
qed

text \<open>
  Creating a volume succeeds only where there was no head, and then gives a disk
  of zero bytes of the requested size; whatever it returns, an existing head of that
  volume or of any other is never replaced.
\<close>

theorem volume_create_safe:
  assumes "volume_store os heads objs ok cd" "ok s"
  shows "post (volume_create cd os i sz)
      (\<lambda>vol s'. heads s i = None \<and> disk_bytes (objs s') vol = zeros sz \<and> volume_inv cd (objs s') vol) (\<lambda>_ _. True) s
    \<and> (\<forall>r s'. volume_create cd os i sz s = (r, s') \<longrightarrow> heads s \<subseteq>\<^sub>m heads s' \<and> objs s' = objs s)"
proof -
  note p = volume_store.create_post [OF assms, of i sz]
  have "heads s \<subseteq>\<^sub>m heads s' \<and> objs s' = objs s" if run: "volume_create cd os i sz s = (r, s')" for r s'
  proof (cases r)
    case (Ok vol)
    with post_run [OF p run [unfolded Ok]] show ?thesis by (auto simp: map_le_def)
  next
    case (Err e)
    with post_run_err [OF p run [unfolded Err]] show ?thesis by (auto simp: map_le_def)
  qed
  moreover have "post (volume_create cd os i sz)
      (\<lambda>vol s'. heads s i = None \<and> disk_bytes (objs s') vol = zeros sz \<and> volume_inv cd (objs s') vol) (\<lambda>_ _. True) s"
    by (rule post_mono [OF p]) auto
  ultimately show ?thesis by blast
qed

text \<open>
  C2. Crash consistency of the whole system. Starting from a store without heads, any
  interleaving of creations, openings, reads, writes, commits and crashes of any number
  of clients keeps every published manifest complete, so that each of its chunks is in
  the store with the right digest, and every handle well formed.
\<close>

theorem volume_clients_consistent:
  assumes "volume_store os heads objs ok cd" "ok s" "heads s = (\<lambda>_. None)"
    and "(client_step cd os)\<^sup>*\<^sup>* (\<lambda>_. None, s) (hs, t)"
  shows "store_complete cd (heads t) (objs t) \<and> (\<forall>c vol. hs c = Some vol \<longrightarrow> volume_inv cd (objs t) vol)"
proof -
  have "clients_inv cd heads objs ok (\<lambda>_. None, s)"
    using assms(2,3) by (simp add: clients_inv_def store_complete_def)
  with assms(4) have "clients_inv cd heads objs ok (hs, t)"
    by (induction rule: rtranclp_induct) (auto intro: volume_store.clients_invariant [OF assms(1)])
  then show ?thesis by (simp add: clients_inv_def)
qed

end
