(* ===== verification/Memory_Store.thy ===== *)
theory Memory_Store
  imports Volume
begin

text \<open>
  The deterministic object service of \<open>rust/ahvm-volume/src/tests.rs\<close>
  (\<open>MemoryStore\<close>), with its failure injection: uploads that fail, a publication that
  fails before the head changes and one whose reply is lost. It is shown to keep the
  contract of the store interface for every setting of the failure switch, so the
  volume lemmas hold of it.
\<close>

section \<open>The store\<close>

datatype failure = FNone | FChunk nat | FBeforeHead | FLostHeadReply

record mem_state =
  ms_heads :: "(string, head) btree"
  ms_objects :: "(string \<times> string, bytes) btree"
  ms_revision :: nat
  ms_failure :: failure
  ms_puts :: nat
  ms_gets :: nat

definition mem_empty :: mem_state where
  "mem_empty = \<lparr>ms_heads = [], ms_objects = [], ms_revision = 0, ms_failure = FNone, ms_puts = 0, ms_gets = 0\<rparr>"

definition mem_head :: "string \<Rightarrow> (mem_state, head option, verror) io" where
  "mem_head volume s = (Ok (bt_get (ms_heads s) volume), s)"

definition mem_chunk :: "string \<Rightarrow> string \<Rightarrow> (mem_state, bytes, verror) io" where
  "mem_chunk volume hash s =
     (ok_or Corrupt (bt_get (ms_objects s) (volume, hash)), s\<lparr>ms_gets := ms_gets s + 1\<rparr>)"

text \<open>
  The two assertions are panics. \<open>entry(..).or_insert_with(..)\<close> keeps an object that
  is already there.
\<close>

definition mem_put_chunk :: "manifest codec \<Rightarrow> string \<Rightarrow> string \<Rightarrow> bytes \<Rightarrow> (mem_state, unit, verror) io" where
  "mem_put_chunk cd volume hash bs s =
     (let s1 = s\<lparr>ms_puts := ms_puts s + 1\<rparr> in
      if ms_failure s1 = FChunk (ms_puts s1) then (Err Store, s1)
      else if hash \<noteq> c_digest cd bs then (Err Panic, s1)
      else
        (case bt_get (ms_objects s1) (volume, hash) of
           None \<Rightarrow> (Ok (), s1\<lparr>ms_objects := bt_insert (volume, hash) bs (ms_objects s1)\<rparr>)
         | Some existing \<Rightarrow> (if existing \<noteq> bs then (Err Panic, s1) else (Ok (), s1))))"

definition etag :: "nat \<Rightarrow> string" where
  "etag n = ''opaque-etag-'' @ show_nat n"

definition mem_publish ::
  "manifest codec \<Rightarrow> string \<Rightarrow> string option \<Rightarrow> bytes \<Rightarrow> (mem_state, string, verror) io" where
  "mem_publish cd volume expected bs s =
     (if map_option h_revision (bt_get (ms_heads s) volume) \<noteq> expected then (Err Conflict, s)
      else if ms_failure s = FBeforeHead then (Err Store, s)
      else
        (case c_from_slice cd bs of
           None \<Rightarrow> (Err Panic, s)
         | Some m \<Rightarrow>
             if list_ex (\<lambda>(_, hash). bt_get (ms_objects s) (volume, hash) = None) (m_chunks m)
                \<or> U64 \<le> ms_revision s + 1
             then (Err Panic, s)
             else
               (let n = ms_revision s + 1;
                    s1 = s\<lparr>ms_revision := n,
                      ms_heads := bt_insert volume \<lparr>h_revision = etag n, h_manifest = bs\<rparr> (ms_heads s)\<rparr> in
                if ms_failure s1 = FLostHeadReply then (Err Store, s1) else (Ok (etag n), s1))))"

text \<open>The methods that the test store does not define are the trait's defaults.\<close>

definition memory_store :: "manifest codec \<Rightarrow> mem_state object_store" where
  "memory_store cd = \<lparr>
     os_base_chunk = default_base_chunk,
     os_prefetch_base = default_prefetch,
     os_prefetch = default_prefetch,
     os_cached_chunk = default_cached_chunk,
     os_list_chunks = default_list_chunks,
     os_list_chunks_after = default_list_chunks_after default_list_chunks,
     os_delete_chunk = default_delete_chunk,
     os_delete_chunks = default_delete_chunks default_delete_chunk,
     os_head = mem_head,
     os_chunk = mem_chunk,
     os_put_chunk = mem_put_chunk cd,
     os_put_chunk_cancellable = default_put_chunk_cancellable (mem_put_chunk cd),
     os_publish = mem_publish cd,
     os_publish_cancellable = default_publish_cancellable (mem_publish cd)\<rparr>"

section \<open>It keeps the contract\<close>

definition mem_heads :: "mem_state \<Rightarrow> heads_view" where
  "mem_heads s = bt_get (ms_heads s)"

definition mem_objs :: "mem_state \<Rightarrow> objs_view" where
  "mem_objs s v d = bt_get (ms_objects s) (v, d)"

definition mem_ok :: "mem_state \<Rightarrow> bool" where
  "mem_ok s \<longleftrightarrow> bt_ok (ms_heads s) \<and> bt_ok (ms_objects s)
     \<and> (\<forall>v h. bt_get (ms_heads s) v = Some h \<longrightarrow> (\<exists>n \<le> ms_revision s. h_revision h = etag n))"

lemma etag_inject [simp]: "etag a = etag b \<longleftrightarrow> a = b"
  by (simp add: etag_def)

lemma etag_nonempty [simp]: "etag n \<noteq> []"
  by (simp add: etag_def)

lemma mem_objs_insert:
  "bt_ok (ms_objects s) \<Longrightarrow>
   mem_objs (s\<lparr>ms_objects := bt_insert (v, d) b (ms_objects s)\<rparr>) = put_obj (mem_objs s) v d b"
  by (auto simp: mem_objs_def put_obj_def fun_eq_iff)

lemma mem_objs_present: "mem_objs s v d = Some b \<Longrightarrow> put_obj (mem_objs s) v d b = mem_objs s"
  by (auto simp: put_obj_def fun_eq_iff)

lemma mem_put_law:
  assumes "mem_ok s"
  shows "post (mem_put_chunk cd v d b)
      (\<lambda>_ s'. mem_ok s' \<and> mem_heads s' = mem_heads s \<and> (mem_objs s v d = None \<or> mem_objs s v d = Some b)
         \<and> mem_objs s' = put_obj (mem_objs s) v d b)
      (\<lambda>e s'. mem_ok s' \<and> mem_heads s' = mem_heads s
         \<and> (mem_objs s' = mem_objs s \<or> mem_objs s v d = None \<and> mem_objs s' = put_obj (mem_objs s) v d b)) s"
proof -
  define s1 where "s1 = s\<lparr>ms_puts := ms_puts s + 1\<rparr>"
  have s1: "mem_ok s1" "mem_heads s1 = mem_heads s" "mem_objs s1 = mem_objs s" "bt_ok (ms_objects s1)"
    using assms by (simp_all add: s1_def mem_ok_def mem_heads_def mem_objs_def fun_eq_iff)
  have ins: "mem_ok (s1\<lparr>ms_objects := bt_insert (v, d) b (ms_objects s1)\<rparr>)"
    "mem_heads (s1\<lparr>ms_objects := bt_insert (v, d) b (ms_objects s1)\<rparr>) = mem_heads s"
    using s1 by (simp_all add: mem_ok_def mem_heads_def)
  have get: "bt_get (ms_objects s1) (v, d) = mem_objs s v d"
    using s1(3) by (metis mem_objs_def)
  show ?thesis
    unfolding mem_put_chunk_def Let_def s1_def [symmetric] post_def
    using s1 ins mem_objs_insert [OF s1(4), of v d b] mem_objs_present [of s v d] get
    by (auto split: option.split)
qed

lemma mem_publish_law:
  assumes "mem_ok s"
  shows "post (mem_publish cd v expected m)
      (\<lambda>r s'. mem_ok s' \<and> mem_objs s' = mem_objs s \<and> map_option h_revision (mem_heads s v) = expected
         \<and> mem_heads s' = (mem_heads s)(v \<mapsto> \<lparr>h_revision = r, h_manifest = m\<rparr>)
         \<and> (\<forall>h. mem_heads s v = Some h \<and> h_manifest h \<noteq> m \<longrightarrow> r \<noteq> h_revision h))
      (\<lambda>e s'. mem_ok s' \<and> mem_objs s' = mem_objs s
         \<and> (mem_heads s' = mem_heads s
            \<or> e \<noteq> Conflict \<and> map_option h_revision (mem_heads s v) = expected
              \<and> (\<exists>r. mem_heads s' = (mem_heads s)(v \<mapsto> \<lparr>h_revision = r, h_manifest = m\<rparr>)))) s"
proof -
  define n where "n = ms_revision s + 1"
  define s1 where "s1 = s\<lparr>ms_revision := n, ms_heads := bt_insert v \<lparr>h_revision = etag n, h_manifest = m\<rparr> (ms_heads s)\<rparr>"
  have ok: "bt_ok (ms_heads s)" "bt_ok (ms_objects s)"
    "\<And>w h. bt_get (ms_heads s) w = Some h \<Longrightarrow> \<exists>k \<le> ms_revision s. h_revision h = etag k"
    using assms by (auto simp: mem_ok_def)
  have fresh: "h_revision h \<noteq> etag n" if "bt_get (ms_heads s) v = Some h" for h
    using ok(3) [OF that] by (auto simp: n_def)
  have heads: "mem_heads s1 = (mem_heads s)(v \<mapsto> \<lparr>h_revision = etag n, h_manifest = m\<rparr>)"
    using ok(1) by (simp add: s1_def mem_heads_def)
  have objs: "mem_objs s1 = mem_objs s" by (simp add: s1_def mem_objs_def fun_eq_iff)
  have ok1: "mem_ok s1"
    using ok by (force simp: mem_ok_def s1_def n_def split: if_splits)
  show ?thesis
    unfolding mem_publish_def Let_def n_def [symmetric] s1_def [symmetric] post_def
    using assms heads objs ok1 fresh
    by (auto simp: mem_heads_def split: option.split)
qed

lemma memory_store_laws: "object_store_laws (memory_store cd) mem_heads mem_objs mem_ok"
proof
  fix s v d b expected m
  assume ok: "mem_ok s" and "valid_id v"
  show "post (os_head (memory_store cd) v)
      (\<lambda>h s'. mem_ok s' \<and> mem_heads s' = mem_heads s \<and> mem_objs s' = mem_objs s \<and> h = mem_heads s v)
      (\<lambda>e s'. mem_ok s' \<and> mem_heads s' = mem_heads s \<and> mem_objs s' = mem_objs s) s"
    using ok by (simp add: memory_store_def mem_head_def post_def mem_heads_def)
  show "post (os_chunk (memory_store cd) v d)
      (\<lambda>b s'. mem_ok s' \<and> mem_heads s' = mem_heads s \<and> mem_objs s' = mem_objs s \<and> mem_objs s v d = Some b)
      (\<lambda>e s'. mem_ok s' \<and> mem_heads s' = mem_heads s \<and> mem_objs s' = mem_objs s) s"
    using ok by (auto simp: memory_store_def mem_chunk_def post_def mem_heads_def mem_objs_def mem_ok_def
        ok_or_def fun_eq_iff split: option.split)
  show "post (os_put_chunk (memory_store cd) v d b)
      (\<lambda>_ s'. mem_ok s' \<and> mem_heads s' = mem_heads s \<and> (mem_objs s v d = None \<or> mem_objs s v d = Some b)
         \<and> mem_objs s' = put_obj (mem_objs s) v d b)
      (\<lambda>e s'. mem_ok s' \<and> mem_heads s' = mem_heads s
         \<and> (mem_objs s' = mem_objs s \<or> mem_objs s v d = None \<and> mem_objs s' = put_obj (mem_objs s) v d b)) s"
    using mem_put_law [OF ok] by (simp add: memory_store_def)
  show "post (os_publish (memory_store cd) v expected m)
      (\<lambda>rev s'. mem_ok s' \<and> mem_objs s' = mem_objs s \<and> map_option h_revision (mem_heads s v) = expected
         \<and> mem_heads s' = (mem_heads s)(v \<mapsto> \<lparr>h_revision = rev, h_manifest = m\<rparr>)
         \<and> (\<forall>h. mem_heads s v = Some h \<and> h_manifest h \<noteq> m \<longrightarrow> rev \<noteq> h_revision h))
      (\<lambda>e s'. mem_ok s' \<and> mem_objs s' = mem_objs s
         \<and> (mem_heads s' = mem_heads s
            \<or> e \<noteq> Conflict \<and> map_option h_revision (mem_heads s v) = expected
              \<and> (\<exists>rev. mem_heads s' = (mem_heads s)(v \<mapsto> \<lparr>h_revision = rev, h_manifest = m\<rparr>)))) s"
    using mem_publish_law [OF ok] by (simp add: memory_store_def)
qed

interpretation mem: object_store_laws "memory_store cd" mem_heads mem_objs mem_ok for cd
  by (rule memory_store_laws)

section \<open>A run of the store\<close>

text \<open>
  A volume of one chunk is created, one byte is written and committed. The codec knows
  the two manifests that occur.
\<close>

definition demo_hash :: string where "demo_hash = replicate 64 (CHR ''0'')"

definition demo_manifest :: "nat \<Rightarrow> (nat, string) btree \<Rightarrow> manifest" where
  "demo_manifest g chunks = \<lparr>m_format = 1, m_volume = ''vm'', m_size = CHUNK_BYTES, m_generation = g, m_chunks = chunks\<rparr>"

definition demo_codec :: "manifest codec" where
  "demo_codec = \<lparr>c_digest = (\<lambda>_. demo_hash),
     c_to_vec = (\<lambda>m. if m = demo_manifest 0 [] then Some [0]
       else if m = demo_manifest 1 [(0, demo_hash)] then Some [1] else None),
     c_from_slice = (\<lambda>b. if b = [0] then Some (demo_manifest 0 [])
       else if b = [1] then Some (demo_manifest 1 [(0, demo_hash)]) else None)\<rparr>"

abbreviation demo_os :: "mem_state object_store" where
  "demo_os \<equiv> memory_store demo_codec"

definition demo_chunk :: bytes where "demo_chunk = copy_at (zeros CHUNK_BYTES) 0 [1]"

definition demo_s1 :: mem_state where
  "demo_s1 = mem_empty\<lparr>ms_revision := 1, ms_heads := [(''vm'', \<lparr>h_revision = etag 1, h_manifest = [0]\<rparr>)]\<rparr>"

definition demo_s2 :: mem_state where
  "demo_s2 = mem_empty\<lparr>ms_revision := 2, ms_puts := 1, ms_objects := [((''vm'', demo_hash), demo_chunk)],
     ms_heads := [(''vm'', \<lparr>h_revision = etag 2, h_manifest = [1]\<rparr>)]\<rparr>"

definition demo_vol :: "(nat, bytes) btree \<Rightarrow> volume" where
  "demo_vol d = \<lparr>v_manifest = demo_manifest 0 [], v_revision = etag 1, v_dirty = d, v_reopen = False\<rparr>"

definition demo_vol2 :: volume where
  "demo_vol2 = \<lparr>v_manifest = demo_manifest 1 [(0, demo_hash)], v_revision = etag 2, v_dirty = [], v_reopen = False\<rparr>"

lemma demo_codec_ok: "codec_ok manifest_wf demo_codec"
  by (auto simp: codec_ok_def demo_codec_def manifest_wf_def demo_manifest_def valid_hash_def demo_hash_def
      ascii_digit_def list_all_iff split: if_splits)

interpretation demo: volume_store "memory_store demo_codec" mem_heads mem_objs mem_ok demo_codec
  by unfold_locales (rule demo_codec_ok)

lemma chunk_bounds [simp]: "CHUNK_BYTES \<le> MAX_VOLUME_BYTES" "\<not> MAX_VOLUME_BYTES < CHUNK_BYTES"
    "Suc 0 < CHUNK_BYTES" "CHUNK_BYTES \<noteq> 0" "\<not> MAX_MANIFEST_BYTES < 1" "Suc 0 < U64" "2 < U64"
    "Suc 0 \<le> CHUNK_BYTES" "\<not> U64 \<le> Suc 0" "\<not> U64 \<le> 2" "MAX_MANIFEST_BYTES \<noteq> 0" "\<not> U64 \<le> Suc (Suc 0)"
  by (simp_all add: CHUNK_BYTES_def MAX_VOLUME_BYTES_def MAX_MANIFEST_BYTES_def U64_def)

lemma demo_vm: "valid_id ''vm''"
  by (simp add: valid_id_def ascii_alphanumeric_def ascii_digit_def)

lemma demo_create: "volume_create demo_codec demo_os ''vm'' CHUNK_BYTES mem_empty = (Ok (demo_vol []), demo_s1)"
  by (simp add: volume_create_def demo_vm Let_def demo_codec_def demo_manifest_def memory_store_def mem_publish_def
      mem_empty_def demo_s1_def demo_vol_def io_bind_def io_lift_def io_map_err_def io_return_def ok_or_def)

lemma demo_write: "volume_write demo_codec demo_os 0 [1] (demo_vol [], demo_s1) = (Ok (), demo_vol [(0, demo_chunk)], demo_s1)"
proof -
  have "check_range (demo_vol []) 0 1 = Ok ()"
    by (simp add: check_range_Ok demo_vol_def volume_size_def demo_manifest_def)
  moreover have "write_loop (\<lambda>i _ _. volume_load demo_codec demo_os (demo_vol []) i) 0 [1] 0 [] demo_s1 = (Ok [(0, demo_chunk)], demo_s1)"
    by (subst write_loop.simps, subst write_loop.simps)
      (simp add: Let_def loop_count_def volume_load_def demo_vol_def demo_manifest_def io_bind_def io_return_def
        demo_chunk_def slice_of_def)
  ultimately show ?thesis
    by (simp add: volume_write_def io_bind_def io_lift_def demo_vol_def bt_extend_def)
qed

lemma demo_chunk_nonzero: "\<not> all_zero demo_chunk" "length demo_chunk = CHUNK_BYTES"
  by (simp_all add: demo_chunk_def copy_at_def all_zero_def)

lemma demo_prepare: "commit_prepare demo_codec demo_os (demo_vol [(0, demo_chunk)]) demo_s1 =
    (Ok (demo_manifest 1 [(0, demo_hash)], [1]),
     demo_s1\<lparr>ms_puts := 1, ms_objects := [((''vm'', demo_hash), demo_chunk)]\<rparr>)"
proof -
  have "commit_chunks demo_codec demo_os [(0, demo_chunk)] (demo_manifest 1 []) demo_s1 =
      (Ok (demo_manifest 1 [(0, demo_hash)]), demo_s1\<lparr>ms_puts := 1, ms_objects := [((''vm'', demo_hash), demo_chunk)]\<rparr>)"
    by (simp add: demo_chunk_nonzero Let_def memory_store_def mem_put_chunk_def demo_s1_def mem_empty_def
        demo_codec_def demo_manifest_def io_bind_def io_return_def)
  moreover have "(v_manifest (demo_vol [(0, demo_chunk)]))\<lparr>m_generation := Suc 0\<rparr> = demo_manifest 1 []"
    by (simp add: demo_vol_def demo_manifest_def)
  moreover have "c_to_vec demo_codec (demo_manifest 1 [(0, demo_hash)]) = Some [1]"
    by (simp add: demo_codec_def demo_manifest_def)
  ultimately show ?thesis
    unfolding commit_prepare_def
    by (simp add: io_bind_def io_lift_def io_return_def ok_or_def checked_add_def demo_vol_def demo_manifest_def)
qed

lemma demo_commit: "volume_commit demo_codec demo_os (demo_vol [(0, demo_chunk)], demo_s1) = (Ok 1, demo_vol2, demo_s2)"
proof -
  have "v_dirty (demo_vol [(0, demo_chunk)]) \<noteq> []" "\<not> v_reopen (demo_vol [(0, demo_chunk)])"
    by (simp_all add: demo_vol_def)
  moreover have "commit_publish demo_os (demo_manifest 1 [(0, demo_hash)]) [1]
      (demo_vol [(0, demo_chunk)], demo_s1\<lparr>ms_puts := 1, ms_objects := [((''vm'', demo_hash), demo_chunk)]\<rparr>) =
      (Ok 1, demo_vol2, demo_s2)"
    by (simp add: commit_publish_def demo_vol_def demo_vol2_def demo_s1_def demo_s2_def demo_manifest_def demo_codec_def
        memory_store_def mem_publish_def mem_empty_def Let_def numeral_2_eq_2)
  ultimately show ?thesis
    by (simp add: volume_commit_def demo_prepare)
qed

lemma demo_read: "volume_read demo_codec demo_os demo_vol2 0 [0] demo_s2 = (Ok [1], demo_s2\<lparr>ms_gets := 1\<rparr>)"
proof -
  have "check_range demo_vol2 0 1 = Ok ()"
    by (simp add: check_range_Ok demo_vol2_def volume_size_def demo_manifest_def)
  moreover have "read_loop (volume_load demo_codec demo_os demo_vol2) 0 1 0 [0] demo_s2 = (Ok [1], demo_s2\<lparr>ms_gets := 1\<rparr>)"
    by (subst read_loop.simps, subst read_loop.simps)
      (simp add: Let_def loop_count_def volume_load_def demo_vol2_def demo_manifest_def io_bind_def io_return_def
        memory_store_def mem_chunk_def demo_s2_def ok_or_def demo_chunk_nonzero demo_codec_def mem_empty_def
        slice_of_def copy_at_def demo_chunk_def)
  ultimately show ?thesis
    by (simp add: volume_read_def io_bind_def io_lift_def)
qed

lemma demo_store: "volume_store demo_os mem_heads mem_objs mem_ok demo_codec"
  by unfold_locales

lemma demo_ok: "mem_ok mem_empty" "mem_ok demo_s1" "mem_ok demo_s2"
  by (auto simp: mem_ok_def mem_empty_def demo_s1_def demo_s2_def)

lemma demo_inv: "volume_inv demo_codec (mem_objs demo_s1) (demo_vol [])"
    "volume_inv demo_codec (mem_objs demo_s1) (demo_vol [(0, demo_chunk)])"
  by (simp_all add: volume_inv_def manifest_complete_def demo_vol_def demo_manifest_def demo_vm validate_Ok
      volume_size_def demo_chunk_nonzero)

lemma demo_inv2: "volume_inv demo_codec (mem_objs demo_s2) demo_vol2"
  using post_run [OF demo.commit_post [OF demo_ok(2) demo_inv(2)] demo_commit] by simp


theorem volume_write_correct_witness:
  "volume_write demo_codec demo_os 0 [1] (demo_vol [], demo_s1) = (Ok (), demo_vol [(0, demo_chunk)], demo_s1)
   \<and> disk_bytes (mem_objs demo_s1) (demo_vol [(0, demo_chunk)]) = copy_at (disk_bytes (mem_objs demo_s1) (demo_vol [])) 0 [1]"
  using post_run [OF volume_write_correct [OF demo_store demo_ok(2) demo_inv(1), of 0 "[1]"] demo_write] demo_write
  by simp

lemma demo_dirty: "v_dirty (demo_vol [(0, demo_chunk)]) \<noteq> []"
  "m_volume (v_manifest (demo_vol d)) = ''vm''" "m_generation (v_manifest (demo_vol d)) = 0"
  by (simp_all add: demo_vol_def demo_manifest_def)

theorem volume_commit_durable_witness:
  "volume_commit demo_codec demo_os (demo_vol [(0, demo_chunk)], demo_s1) = (Ok 1, demo_vol2, demo_s2)
   \<and> disk_bytes (mem_objs demo_s2) demo_vol2 = disk_bytes (mem_objs demo_s1) (demo_vol [(0, demo_chunk)])
   \<and> fst (volume_open demo_codec demo_os ''vm'' demo_s2) = Ok demo_vol2"
proof -
  note d = volume_commit_durable [OF demo_store demo_ok(2) demo_inv(2) demo_dirty(1) demo_commit]
  have "fst (os_head demo_os ''vm'' demo_s2) \<noteq> Err e" for e
    by (simp add: memory_store_def mem_head_def)
  with d show ?thesis
    by (auto simp: demo_dirty demo_commit post_def split: prod.splits result.splits)
qed

text \<open>With the reply of the publication lost, the commit is uncertain and the head is the new one.\<close>

definition demo_lost :: mem_state where
  "demo_lost = demo_s1\<lparr>ms_failure := FLostHeadReply\<rparr>"

lemma demo_lost_run:
  "mem_ok demo_lost" "volume_inv demo_codec (mem_objs demo_lost) (demo_vol [(0, demo_chunk)])"
  "volume_commit demo_codec demo_os (demo_vol [(0, demo_chunk)], demo_lost) =
     (Err Uncertain, (demo_vol [(0, demo_chunk)])\<lparr>v_reopen := True\<rparr>, demo_s2\<lparr>ms_failure := FLostHeadReply\<rparr>)"
proof -
  have objs: "mem_objs demo_lost = mem_objs demo_s1"
    by (simp add: demo_lost_def mem_objs_def fun_eq_iff)
  show "mem_ok demo_lost"
    using demo_ok(2) by (simp add: demo_lost_def mem_ok_def)
  show "volume_inv demo_codec (mem_objs demo_lost) (demo_vol [(0, demo_chunk)])"
    unfolding objs by (rule demo_inv(2))
  have "commit_prepare demo_codec demo_os (demo_vol [(0, demo_chunk)]) demo_lost =
      (Ok (demo_manifest 1 [(0, demo_hash)], [1]),
       demo_lost\<lparr>ms_puts := 1, ms_objects := [((''vm'', demo_hash), demo_chunk)]\<rparr>)"
    by (simp add: commit_prepare_def demo_vol_def demo_chunk_nonzero memory_store_def mem_put_chunk_def demo_lost_def
        demo_s1_def mem_empty_def demo_codec_def demo_manifest_def io_bind_def io_return_def io_lift_def ok_or_def
        checked_add_def Let_def)
  moreover have "commit_publish demo_os (demo_manifest 1 [(0, demo_hash)]) [1]
      (demo_vol [(0, demo_chunk)], demo_lost\<lparr>ms_puts := 1, ms_objects := [((''vm'', demo_hash), demo_chunk)]\<rparr>) =
      (Err Uncertain, (demo_vol [(0, demo_chunk)])\<lparr>v_reopen := True\<rparr>, demo_s2\<lparr>ms_failure := FLostHeadReply\<rparr>)"
    by (simp add: commit_publish_def demo_vol_def demo_lost_def demo_s1_def demo_s2_def demo_manifest_def demo_codec_def
        memory_store_def mem_publish_def mem_empty_def Let_def numeral_2_eq_2)
  moreover have "\<not> v_reopen (demo_vol [(0, demo_chunk)])" by (simp add: demo_vol_def)
  ultimately show "volume_commit demo_codec demo_os (demo_vol [(0, demo_chunk)], demo_lost) =
     (Err Uncertain, (demo_vol [(0, demo_chunk)])\<lparr>v_reopen := True\<rparr>, demo_s2\<lparr>ms_failure := FLostHeadReply\<rparr>)"
    using demo_dirty(1) by (simp add: volume_commit_def)
qed

theorem volume_commit_failure_witness:
  "volume_commit demo_codec demo_os (demo_vol [(0, demo_chunk)], demo_lost) =
     (Err Uncertain, (demo_vol [(0, demo_chunk)])\<lparr>v_reopen := True\<rparr>, demo_s2\<lparr>ms_failure := FLostHeadReply\<rparr>)
   \<and> volume_commit demo_codec demo_os ((demo_vol [(0, demo_chunk)])\<lparr>v_reopen := True\<rparr>, demo_s2) =
     (Err ReopenRequired, (demo_vol [(0, demo_chunk)])\<lparr>v_reopen := True\<rparr>, demo_s2)"
  using volume_commit_failure [OF demo_store demo_lost_run] demo_lost_run(3)
  by (auto simp: demo_vol_def)

theorem volume_no_lost_update_witness:
  "\<exists>e b' s. volume_commit demo_codec demo_os (demo_vol [(0, demo_chunk)], demo_s2) = (Err e, b', s)
     \<and> mem_heads s = mem_heads demo_s2"
proof -
  have h: "mem_heads demo_s1 (m_volume (v_manifest (demo_vol [(0, demo_chunk)]))) = Some \<lparr>h_revision = etag 1, h_manifest = [0]\<rparr>"
    "c_from_slice demo_codec (h_manifest \<lparr>h_revision = etag 1, h_manifest = [0]\<rparr>) = Some (v_manifest (demo_vol [(0, demo_chunk)]))"
    "v_revision (demo_vol [(0, demo_chunk)]) = h_revision \<lparr>h_revision = etag 1, h_manifest = [0]\<rparr>"
    by (simp_all add: mem_heads_def demo_s1_def demo_vol_def demo_manifest_def demo_codec_def)
  show ?thesis
    using volume_no_lost_update [OF demo_store demo_ok(2) demo_inv(2) demo_inv(2) h(1,2) refl h(3) demo_dirty(1) demo_dirty(1) demo_commit]
    by blast
qed

theorem volume_create_safe_witness:
  "volume_create demo_codec demo_os ''vm'' CHUNK_BYTES mem_empty = (Ok (demo_vol []), demo_s1)
   \<and> disk_bytes (mem_objs demo_s1) (demo_vol []) = zeros CHUNK_BYTES"
  using volume_create_safe [OF demo_store demo_ok(1), of "''vm''" CHUNK_BYTES] demo_create
  by (auto simp: post_def)

theorem volume_clients_consistent_witness:
  "(client_step demo_codec demo_os)\<^sup>*\<^sup>* (\<lambda>_. None, mem_empty) ([0 \<mapsto> demo_vol2], demo_s2)
   \<and> store_complete demo_codec (mem_heads demo_s2) (mem_objs demo_s2)"
proof -
  let ?st = "client_step demo_codec demo_os"
  have "?st (\<lambda>_. None, mem_empty) ([0 \<mapsto> demo_vol []], demo_s1)"
    using cs_create [OF demo_create, of "\<lambda>_. None" 0] by simp
  moreover have "?st ([0 \<mapsto> demo_vol []], demo_s1) ([0 \<mapsto> demo_vol [(0, demo_chunk)]], demo_s1)"
    using cs_write [OF _ demo_write, of "[0 \<mapsto> demo_vol []]" 0] by simp
  moreover have "?st ([0 \<mapsto> demo_vol [(0, demo_chunk)]], demo_s1) ([0 \<mapsto> demo_vol2], demo_s2)"
    using cs_commit [OF _ demo_commit, of "[0 \<mapsto> demo_vol [(0, demo_chunk)]]" 0] by simp
  ultimately have run: "?st\<^sup>*\<^sup>* (\<lambda>_. None, mem_empty) ([0 \<mapsto> demo_vol2], demo_s2)"
    by (meson converse_rtranclp_into_rtranclp rtranclp.rtrancl_refl)
  moreover have "mem_heads mem_empty = (\<lambda>_. None)" by (simp add: mem_heads_def mem_empty_def fun_eq_iff)
  ultimately show ?thesis
    using volume_clients_consistent [OF demo_store demo_ok(1) _ run] by blast
qed

end
