(* ===== verification/Hash_Hex.thy ===== *)
theory Hash_Hex
  imports Object_Store
begin

text \<open>
  Lower-case hexadecimal digests (\<open>decode\<close> in \<open>rust/ahvm-volume/src/indexed.rs\<close> and
  the \<open>format!("{b:02x}")\<close> of \<open>indexed.rs\<close> and \<open>base.rs\<close>). Decoding and printing
  are inverse to each other on digests of 64 digits, so that raw digests in index pages
  name exactly one object.
\<close>

definition hex_digit :: "nat \<Rightarrow> char" where
  "hex_digit d = (if d < 10 then char_of (48 + d) else char_of (87 + d))"

definition hex_value :: "char \<Rightarrow> nat" where
  "hex_value c = (if ascii_digit c then of_char c - 48 else of_char c - 87)"

definition hex_byte :: "byte \<Rightarrow> string" where
  "hex_byte b = [hex_digit (unat b div 16), hex_digit (unat b mod 16)]"

definition hex_string :: "bytes \<Rightarrow> string" where
  "hex_string bs = concat (map hex_byte bs)"

fun hex_pairs :: "string \<Rightarrow> bytes" where
  "hex_pairs (a # b # cs) = word_of_nat (16 * hex_value a + hex_value b) # hex_pairs cs"
| "hex_pairs cs = []"

definition hash_decode :: "string \<Rightarrow> (bytes, verror) result" where
  "hash_decode s = (if \<not> valid_hash s then Err Corrupt else Ok (hex_pairs s))"

section \<open>Inverses\<close>

definition hex_char :: "char \<Rightarrow> bool" where
  "hex_char c = (ascii_digit c \<or> (CHR ''a'' \<le> c \<and> c \<le> CHR ''f''))"

lemma char_le_iff: "(c \<le> d) = (of_char c \<le> (of_char d :: nat))" for c d :: char
  by (simp add: less_eq_char_def)

lemma valid_hash_iff: "valid_hash h \<longleftrightarrow> length h = 64 \<and> (\<forall>c \<in> set h. hex_char c)"
  by (auto simp: valid_hash_def hex_char_def list_all_iff)

lemma hex_char_iff:
  "hex_char c \<longleftrightarrow> 48 \<le> (of_char c :: nat) \<and> (of_char c :: nat) \<le> 57 \<or> 97 \<le> (of_char c :: nat) \<and> (of_char c :: nat) \<le> 102"
  by (auto simp: hex_char_def ascii_digit_def char_le_iff)

lemma ascii_digit_iff: "ascii_digit c \<longleftrightarrow> 48 \<le> (of_char c :: nat) \<and> (of_char c :: nat) \<le> 57"
  by (auto simp: ascii_digit_def char_le_iff)

lemma hex_value_less: "hex_char c \<Longrightarrow> hex_value c < 16"
  by (auto simp: hex_char_iff hex_value_def ascii_digit_iff)

lemma hex_digit_value: "hex_char c \<Longrightarrow> hex_digit (hex_value c) = c"
  by (auto simp: hex_char_iff hex_value_def ascii_digit_iff hex_digit_def)

lemma of_hex_digit: "d < 16 \<Longrightarrow> of_char (hex_digit d) = (if d < 10 then 48 + d else 87 + d :: nat)"
  by (simp add: hex_digit_def)

lemma hex_value_digit: "d < 16 \<Longrightarrow> hex_value (hex_digit d) = d"
  by (auto simp: hex_value_def ascii_digit_iff of_hex_digit)

lemma hex_char_digit: "d < 16 \<Longrightarrow> hex_char (hex_digit d)"
  by (auto simp: hex_char_iff of_hex_digit)

lemma hex_byte_pair:
  assumes "hex_char a" "hex_char b"
  shows "hex_byte (word_of_nat (16 * hex_value a + hex_value b)) = [a, b]"
proof -
  have "16 * hex_value a + hex_value b < 256"
    using hex_value_less [OF assms(1)] hex_value_less [OF assms(2)] by linarith
  then have "unat (word_of_nat (16 * hex_value a + hex_value b) :: byte) = 16 * hex_value a + hex_value b"
    by (rule unat_byte_of_nat)
  then show ?thesis
    unfolding hex_byte_def using assms hex_value_less [OF assms(2)] by (simp only:) (simp add: hex_digit_value)
qed

lemma nibble_less: "unat (b :: byte) div 16 < 16"
  using unat_byte_less [of b] by linarith

lemma hex_string_pairs: "even (length h) \<Longrightarrow> \<forall>c \<in> set h. hex_char c \<Longrightarrow> hex_string (hex_pairs h) = h"
  by (induction h rule: hex_pairs.induct) (auto simp: hex_string_def hex_byte_pair simp del: of_nat_add of_nat_mult)

lemma length_hex_pairs: "length (hex_pairs h) = length h div 2"
  by (induction h rule: hex_pairs.induct) auto

lemma hex_pairs_string: "hex_pairs (hex_string bs) = bs"
proof (induction bs)
  case Nil
  then show ?case by (simp add: hex_string_def)
next
  case (Cons b bs)
  have "16 * hex_value (hex_digit (unat b div 16)) + hex_value (hex_digit (unat b mod 16)) = unat b"
    using nibble_less [of b] by (simp add: hex_value_digit)
  then show ?case
    using Cons by (simp add: hex_string_def hex_byte_def del: of_nat_add of_nat_mult)
qed

lemma hex_char_string: "c \<in> set (hex_string bs) \<Longrightarrow> hex_char c"
  using nibble_less by (auto simp: hex_string_def hex_byte_def intro: hex_char_digit)

lemma length_hex_string [simp]: "length (hex_string bs) = 2 * length bs"
  by (induction bs) (auto simp: hex_string_def hex_byte_def)

lemma valid_hash_hex [simp]: "valid_hash (hex_string bs) \<longleftrightarrow> length bs = 32"
  by (auto simp: valid_hash_iff hex_char_string)

text \<open>The two round trips.\<close>

lemma hash_decode_hex [simp]: "length bs = 32 \<Longrightarrow> hash_decode (hex_string bs) = Ok bs"
  by (simp add: hash_decode_def hex_pairs_string)

lemma hex_hash_decode: "hash_decode h = Ok bs \<Longrightarrow> hex_string bs = h \<and> length bs = 32"
  by (auto simp: hash_decode_def valid_hash_iff hex_string_pairs length_hex_pairs split: if_splits)

lemma hash_decode_Ok: "(\<exists>bs. hash_decode h = Ok bs) \<longleftrightarrow> valid_hash h"
  by (simp add: hash_decode_def)

lemma hash_decode_valid: "valid_hash h \<Longrightarrow> hash_decode h = Ok (hex_pairs h)"
  by (simp add: hash_decode_def)

lemma hash_decode_inject:
  "hash_decode h = Ok bs \<Longrightarrow> hash_decode h' = Ok bs \<Longrightarrow> h = h'"
  using hex_hash_decode by metis

end
