(* ===== verification/Cache.thy ===== *)
theory Cache
  imports Memory_Store Hash_Hex
begin

text \<open>
  The read cache in front of an object store (\<open>rust/ahvm-volume/src/cache.rs\<close> and
  \<open>cache/metadata.rs\<close>): a FIFO of verified immutable objects bounded by a byte
  capacity, speculative reads with a bounded number of reservations, an optional local
  copy of a base image and an optional directory of metadata slots. The cache is a
  transformer of stores. The lemmas show that it is bounded, that it only returns
  verified bytes, and that it keeps the contract of the store behind it.
\<close>

section \<open>State\<close>

type_synonym ckey = "string \<times> string"

record cache_state =
  ca_objects :: "(ckey, bytes) btree"
  ca_bytes :: nat
  ca_order :: "ckey list"
  ca_pending :: "ckey list"
  ca_local_failed :: bool
  ca_slots :: "(string, bytes) btree"

text \<open>
  The configuration: the capacity, the local base image with what a positioned read of
  its file returns in the current world, and whether there is a metadata directory and
  whether its files can be written.
\<close>

record 's cache_config =
  cc_digest :: "bytes \<Rightarrow> string"
  cc_capacity :: nat
  cc_local_base :: "(string \<times> (nat \<Rightarrow> 's \<Rightarrow> bytes option)) option"
  cc_metadata :: bool
  cc_slots_writable :: bool

definition cache_empty :: cache_state where
  "cache_empty = \<lparr>ca_objects = [], ca_bytes = 0, ca_order = [], ca_pending = [], ca_local_failed = False, ca_slots = []\<rparr>"

definition cache_new :: "nat \<Rightarrow> (cache_state, verror) result" where
  "cache_new capacity =
     (if CHUNK_BYTES \<le> capacity \<and> capacity \<le> 256 * 1024 * 1024 then Ok cache_empty else Err InvalidInput)"

section \<open>Insertion and eviction\<close>

text \<open>
  The eviction loop pops the oldest key until the new object fits. The two \<open>unwrap\<close>
  calls and the subtraction are the ways in which it could panic.
\<close>

fun evict ::
  "nat \<Rightarrow> nat \<Rightarrow> ckey list \<Rightarrow> (ckey, bytes) btree \<Rightarrow> nat \<Rightarrow> (ckey list \<times> (ckey, bytes) btree \<times> nat) option" where
  "evict capacity len [] objects used = (if used + len > capacity then None else Some ([], objects, used))"
| "evict capacity len (old # order) objects used =
     (if used + len > capacity
      then (case bt_get objects old of
              None \<Rightarrow> None
            | Some removed \<Rightarrow>
                if used < length removed then None
                else evict capacity len order (bt_remove old objects) (used - length removed))
      else Some (old # order, objects, used))"

definition insert_into ::
  "(bytes \<Rightarrow> string) \<Rightarrow> nat \<Rightarrow> string \<Rightarrow> string \<Rightarrow> bytes \<Rightarrow> (cache_state, unit, verror) io" where
  "insert_into dg capacity i hash bs c =
     (if \<not> (CHUNK_BYTES \<le> length bs \<and> length bs \<le> MAX_OBJECT_BYTES) \<or> length bs mod CHUNK_BYTES \<noteq> 0 \<or> dg bs \<noteq> hash
      then (Err Corrupt, c)
      else if length bs > capacity then (Ok (), c)
      else if bt_get (ca_objects c) (i, hash) \<noteq> None then (Ok (), c)
      else
        (case evict capacity (length bs) (ca_order c) (ca_objects c) (ca_bytes c) of
           None \<Rightarrow> (Err Panic, c)
         | Some (order, objects, used) \<Rightarrow>
             (Ok (), c\<lparr>ca_order := order @ [(i, hash)], ca_bytes := used + length bs,
                ca_objects := bt_insert (i, hash) bs objects\<rparr>)))"

section \<open>The metadata slots\<close>

definition slot_name :: "string \<Rightarrow> string option" where
  "slot_name hash =
     (case hash_decode hash of Err _ \<Rightarrow> None | Ok raw \<Rightarrow> Some (hex_byte (hd raw)))"

definition metadata_get :: "(bytes \<Rightarrow> string) \<Rightarrow> string \<Rightarrow> cache_state \<Rightarrow> bytes option" where
  "metadata_get dg hash c =
     (case slot_name hash of
        None \<Rightarrow> None
      | Some slot \<Rightarrow>
          (case bt_get (ca_slots c) slot of
             None \<Rightarrow> None
           | Some file \<Rightarrow>
               (let bs = take (CHUNK_BYTES + 1) file in
                if length bs = CHUNK_BYTES \<and> dg bs = hash then Some bs else None)))"

definition metadata_put :: "(bytes \<Rightarrow> string) \<Rightarrow> bool \<Rightarrow> string \<Rightarrow> bytes \<Rightarrow> cache_state \<Rightarrow> cache_state" where
  "metadata_put dg writable hash bs c =
     (if length bs \<noteq> CHUNK_BYTES \<or> dg bs \<noteq> hash then c
      else
        (case slot_name hash of
           None \<Rightarrow> c
         | Some slot \<Rightarrow> if writable then c\<lparr>ca_slots := bt_insert slot bs (ca_slots c)\<rparr> else c))"

section \<open>Operations\<close>

definition on_inner :: "('s, 'a, verror) io \<Rightarrow> ('s \<times> cache_state, 'a, verror) io" where
  "on_inner m = (\<lambda>(s, c). case m s of (r, s') \<Rightarrow> (r, s', c))"

definition on_cache :: "(cache_state, 'a, verror) io \<Rightarrow> ('s \<times> cache_state, 'a, verror) io" where
  "on_cache m = (\<lambda>(s, c). case m c of (r, c') \<Rightarrow> (r, s, c'))"

definition cache_insert :: "'s cache_config \<Rightarrow> string \<Rightarrow> string \<Rightarrow> bytes \<Rightarrow> ('s \<times> cache_state, unit, verror) io" where
  "cache_insert cf i hash bs = on_cache (insert_into (cc_digest cf) (cc_capacity cf) i hash bs)"

definition cache_cached_chunk :: "string \<Rightarrow> string \<Rightarrow> 's \<times> cache_state \<Rightarrow> bytes option" where
  "cache_cached_chunk i hash = (\<lambda>(s, c). bt_get (ca_objects c) (i, hash))"

definition base_key :: "string \<Rightarrow> string" where
  "base_key img = ''base:'' @ img"

text \<open>The read from the local copy of the image, verified; a mismatch disables it for good.\<close>

definition local_base_read ::
  "'s cache_config \<Rightarrow> string \<Rightarrow> string \<Rightarrow> nat option \<Rightarrow> 's \<times> cache_state \<Rightarrow> bytes option \<times> ('s \<times> cache_state)" where
  "local_base_read cf img hash offset = (\<lambda>(s, c).
     (case (offset, cc_local_base cf) of
        (Some off, Some (local_image, read_exact_at)) \<Rightarrow>
          if local_image = img \<and> \<not> ca_local_failed c then
            (case read_exact_at off s of
               Some bs \<Rightarrow>
                 if length bs = CHUNK_BYTES \<and> cc_digest cf bs = hash then (Some bs, s, c)
                 else (None, s, c\<lparr>ca_local_failed := True\<rparr>)
             | None \<Rightarrow> (None, s, c\<lparr>ca_local_failed := True\<rparr>))
          else (None, s, c)
      | _ \<Rightarrow> (None, s, c)))"

definition base_fetch ::
  "'s cache_config \<Rightarrow> 's object_store \<Rightarrow> string \<Rightarrow> string \<Rightarrow> nat option \<Rightarrow> ('s \<times> cache_state, bytes, verror) io" where
  "base_fetch cf os img hash offset =
     io_bind (on_inner (os_base_chunk os img hash offset)) (\<lambda>bs.
     io_bind (\<lambda>(s, c). (Ok (), s,
         if offset = None \<and> cc_metadata cf then metadata_put (cc_digest cf) (cc_slots_writable cf) hash bs c else c)) (\<lambda>_.
     io_bind (cache_insert cf (base_key img) hash bs) (\<lambda>_. io_return bs)))"

definition cache_base_chunk ::
  "'s cache_config \<Rightarrow> 's object_store \<Rightarrow> string \<Rightarrow> string \<Rightarrow> nat option \<Rightarrow> ('s \<times> cache_state, bytes, verror) io" where
  "cache_base_chunk cf os img hash offset = (\<lambda>w.
     (case cache_cached_chunk (base_key img) hash w of
        Some bs \<Rightarrow> (Ok bs, w)
      | None \<Rightarrow>
          (case (if offset = None \<and> cc_metadata cf then metadata_get (cc_digest cf) hash (snd w) else None) of
             Some bs \<Rightarrow> io_bind (cache_insert cf (base_key img) hash bs) (\<lambda>_. io_return bs) w
           | None \<Rightarrow>
               (case local_base_read cf img hash offset w of
                  (Some bs, w') \<Rightarrow> (Ok bs, w')
                | (None, w') \<Rightarrow> base_fetch cf os img hash offset w'))))"

definition cache_chunk ::
  "'s cache_config \<Rightarrow> 's object_store \<Rightarrow> string \<Rightarrow> string \<Rightarrow> ('s \<times> cache_state, bytes, verror) io" where
  "cache_chunk cf os i hash = (\<lambda>w.
     (case cache_cached_chunk i hash w of
        Some bs \<Rightarrow> (Ok bs, w)
      | None \<Rightarrow>
          io_bind (on_inner (os_chunk os i hash)) (\<lambda>bs.
          io_bind (cache_insert cf i hash bs) (\<lambda>_. io_return bs)) w))"

definition cache_put_chunk ::
  "'s cache_config \<Rightarrow> 's object_store \<Rightarrow> string \<Rightarrow> string \<Rightarrow> bytes \<Rightarrow> ('s \<times> cache_state, unit, verror) io" where
  "cache_put_chunk cf os i hash bs =
     io_bind (on_inner (os_put_chunk os i hash bs)) (\<lambda>_. cache_insert cf i hash bs)"

text \<open>A cancellation test of the caller, as the store behind the cache sees it.\<close>

definition inner_cancel :: "('s \<times> cache_state) cancel \<Rightarrow> cache_state \<Rightarrow> 's cancel" where
  "inner_cancel cancel c s = (case cancel (s, c) of (b, s', _) \<Rightarrow> (b, s'))"

definition cache_put_chunk_cancellable ::
  "'s cache_config \<Rightarrow> 's object_store \<Rightarrow> string \<Rightarrow> string \<Rightarrow> bytes \<Rightarrow> ('s \<times> cache_state) cancel
   \<Rightarrow> ('s \<times> cache_state, unit, verror) io" where
  "cache_put_chunk_cancellable cf os i hash bs cancel = (\<lambda>(s, c).
     io_bind (on_inner (os_put_chunk_cancellable os i hash bs (inner_cancel cancel c)))
       (\<lambda>_. cache_insert cf i hash bs) (s, c))"

definition cache_publish_cancellable ::
  "'s object_store \<Rightarrow> string \<Rightarrow> string option \<Rightarrow> bytes \<Rightarrow> ('s \<times> cache_state) cancel
   \<Rightarrow> ('s \<times> cache_state, string, verror) io" where
  "cache_publish_cancellable os i expected bs cancel = (\<lambda>(s, c).
     on_inner (os_publish_cancellable os i expected bs (inner_cancel cancel c)) (s, c))"

text \<open>Deletion: behind the cache first, then from the cache and its order.\<close>

fun drop_objects :: "string \<Rightarrow> string list \<Rightarrow> (ckey, bytes) btree \<Rightarrow> nat \<Rightarrow> (ckey, bytes) btree \<times> nat" where
  "drop_objects i [] objects used = (objects, used)"
| "drop_objects i (hash # hashes) objects used =
     (case bt_get objects (i, hash) of
        None \<Rightarrow> drop_objects i hashes objects used
      | Some bs \<Rightarrow> drop_objects i hashes (bt_remove (i, hash) objects) (used - length bs))"

definition cache_forget :: "string \<Rightarrow> string list \<Rightarrow> cache_state \<Rightarrow> cache_state" where
  "cache_forget i hashes c =
     (case drop_objects i hashes (ca_objects c) (ca_bytes c) of
        (objects, used) \<Rightarrow>
          c\<lparr>ca_objects := objects, ca_bytes := used,
            ca_order := filter (\<lambda>k. bt_get objects k \<noteq> None) (ca_order c)\<rparr>)"

definition cache_delete_chunks ::
  "'s object_store \<Rightarrow> string \<Rightarrow> string list \<Rightarrow> ('s \<times> cache_state, unit, verror) io" where
  "cache_delete_chunks os i hashes =
     io_bind (on_inner (os_delete_chunks os i hashes)) (\<lambda>_. on_cache (\<lambda>c. (Ok (), cache_forget i hashes c)))"

section \<open>Read-ahead\<close>

text \<open>
  The reservation loop of \<open>prefetch_objects\<close>: it stops at seven reservations and skips
  what is cached or already reserved. Each reserved key is fetched by a thread of its
  own; \<open>prefetch_done\<close> is the end of that thread, which also drops the reservation.
\<close>

fun reserve :: "string \<Rightarrow> string list \<Rightarrow> cache_state \<Rightarrow> ckey list \<times> cache_state" where
  "reserve i [] c = ([], c)"
| "reserve i (hash # hashes) c =
     (if 7 \<le> length (ca_pending c) then ([], c)
      else if bt_get (ca_objects c) (i, hash) \<noteq> None \<or> (i, hash) \<in> set (ca_pending c) then reserve i hashes c
      else
        (case reserve i hashes (c\<lparr>ca_pending := (i, hash) # ca_pending c\<rparr>) of
           (ks, c') \<Rightarrow> ((i, hash) # ks, c')))"

definition cache_prefetch :: "string \<Rightarrow> string list \<Rightarrow> 's \<times> cache_state \<Rightarrow> 's \<times> cache_state" where
  "cache_prefetch i hashes = (\<lambda>(s, c). (s, snd (reserve i hashes c)))"

definition cache_prefetch_base ::
  "'s cache_config \<Rightarrow> string \<Rightarrow> string list \<Rightarrow> 's \<times> cache_state \<Rightarrow> 's \<times> cache_state" where
  "cache_prefetch_base cf img hashes = (\<lambda>(s, c).
     if (case cc_local_base cf of None \<Rightarrow> False | Some (i, _) \<Rightarrow> i = img) \<and> \<not> ca_local_failed c then (s, c)
     else (s, snd (reserve (base_key img) hashes c)))"

definition prefetch_done ::
  "'s cache_config \<Rightarrow> 's object_store \<Rightarrow> bool \<Rightarrow> string \<Rightarrow> ckey \<Rightarrow> 's \<times> cache_state \<Rightarrow> 's \<times> cache_state" where
  "prefetch_done cf os base source key = (\<lambda>(s, c).
     (case (if base then os_base_chunk os source (snd key) None s else os_chunk os source (snd key) s) of
        (r, s') \<Rightarrow>
          (let c' = (case r of
                       Ok bs \<Rightarrow> snd (insert_into (cc_digest cf) (cc_capacity cf) (fst key) (snd key) bs c)
                     | Err _ \<Rightarrow> c) in
           (s', c'\<lparr>ca_pending := removeAll key (ca_pending c')\<rparr>))))"

definition cached_store :: "'s cache_config \<Rightarrow> 's object_store \<Rightarrow> ('s \<times> cache_state) object_store" where
  "cached_store cf os = \<lparr>
     os_base_chunk = cache_base_chunk cf os,
     os_prefetch_base = cache_prefetch_base cf,
     os_prefetch = cache_prefetch,
     os_cached_chunk = cache_cached_chunk,
     os_list_chunks = (\<lambda>i limit. on_inner (os_list_chunks os i limit)),
     os_list_chunks_after = (\<lambda>i after limit. on_inner (os_list_chunks_after os i after limit)),
     os_delete_chunk = (\<lambda>i hash. cache_delete_chunks os i [hash]),
     os_delete_chunks = cache_delete_chunks os,
     os_head = (\<lambda>i. on_inner (os_head os i)),
     os_chunk = cache_chunk cf os,
     os_put_chunk = cache_put_chunk cf os,
     os_put_chunk_cancellable = cache_put_chunk_cancellable cf os,
     os_publish = (\<lambda>i expected bs. on_inner (os_publish os i expected bs)),
     os_publish_cancellable = cache_publish_cancellable os\<rparr>"

section \<open>The cache invariant\<close>

definition weight :: "('k, bytes) btree \<Rightarrow> nat" where
  "weight m = sum_list (map (\<lambda>(_, b). length b) m)"

definition cache_objects_ok :: "(bytes \<Rightarrow> string) \<Rightarrow> ckey list \<Rightarrow> (ckey, bytes) btree \<Rightarrow> nat \<Rightarrow> bool" where
  "cache_objects_ok dg order objects used \<longleftrightarrow> bt_ok objects \<and> distinct order \<and> set order = fst ` set objects
     \<and> used = weight objects
     \<and> (\<forall>k b. bt_get objects k = Some b \<longrightarrow> dg b = snd k \<and> CHUNK_BYTES \<le> length b \<and> length b \<le> MAX_OBJECT_BYTES)"

definition cache_inv :: "(bytes \<Rightarrow> string) \<Rightarrow> nat \<Rightarrow> cache_state \<Rightarrow> bool" where
  "cache_inv dg capacity c \<longleftrightarrow> cache_objects_ok dg (ca_order c) (ca_objects c) (ca_bytes c)
     \<and> ca_bytes c \<le> capacity \<and> distinct (ca_pending c) \<and> length (ca_pending c) \<le> 7"

lemma bt_remove_absent: "k \<notin> fst ` set m \<Longrightarrow> bt_remove k m = m"
  by (induction m) (auto simp: bt_remove_def)

lemma weight_remove:
  "bt_ok m \<Longrightarrow> bt_get m k = Some b \<Longrightarrow> weight (bt_remove k m) + length b = weight m"
proof (induction m)
  case Nil
  then show ?case by simp
next
  case (Cons e m)
  obtain k' b' where e: "e = (k', b')" by force
  show ?case
  proof (cases "k' = k")
    case True
    then have "k \<notin> fst ` set m" using Cons.prems(1) e by auto
    then have "bt_remove k (e # m) = m"
      using True e bt_remove_absent [of k m] by (simp add: bt_remove_def)
    then show ?thesis using Cons.prems(2) True e by (simp add: weight_def)
  next
    case False
    then show ?thesis using Cons e by (simp add: weight_def bt_remove_def)
  qed
qed

lemma weight_insert:
  "k \<notin> fst ` set m \<Longrightarrow> weight (bt_insert k b m) = weight m + length b"
  by (induction k b m rule: bt_insert.induct) (auto simp: weight_def)

lemma bt_get_domE: "k \<in> fst ` set m \<Longrightarrow> \<exists>b. bt_get m k = Some b"
  by (metis map_of_eq_None_iff not_None_eq)

lemma bt_get_dom: "bt_get m k \<noteq> None \<longleftrightarrow> k \<in> fst ` set m"
  by (metis map_of_eq_None_iff)

lemma set_bt_remove: "fst ` set (bt_remove k m) = fst ` set m - {k}"
  by (auto simp: bt_remove_def image_iff split: prod.splits; blast)

text \<open>Dropping one cached object keeps the bookkeeping exact.\<close>

lemma cache_objects_remove:
  assumes "cache_objects_ok dg order objects used" "bt_get objects k = Some b"
  shows "length b \<le> used"
    "cache_objects_ok dg (removeAll k order) (bt_remove k objects) (used - length b)"
proof -
  have w: "weight (bt_remove k objects) + length b = weight objects"
    using assms by (intro weight_remove) (auto simp: cache_objects_ok_def)
  then show "length b \<le> used" using assms(1) by (simp add: cache_objects_ok_def)
  show "cache_objects_ok dg (removeAll k order) (bt_remove k objects) (used - length b)"
    using assms w by (auto simp: cache_objects_ok_def set_bt_remove distinct_removeAll split: if_splits)
qed

lemma evict_ok:
  assumes "cache_objects_ok dg order objects used" "len \<le> capacity"
  shows "\<exists>order' objects' used'. evict capacity len order objects used = Some (order', objects', used')
    \<and> cache_objects_ok dg order' objects' used' \<and> used' + len \<le> capacity
    \<and> (\<forall>k b. bt_get objects' k = Some b \<longrightarrow> bt_get objects k = Some b)"
  using assms
proof (induction capacity len order objects used rule: evict.induct)
  case (1 capacity len objects used)
  then have "objects = []" by (auto simp: cache_objects_ok_def)
  with 1 show ?case by (auto simp: cache_objects_ok_def weight_def)
next
  case (2 capacity len old order objects used)
  show ?case
  proof (cases "used + len > capacity")
    case False
    with 2 show ?thesis by auto
  next
    case True
    have d: "distinct (old # order)" "old \<in> fst ` set objects" using 2(2) by (auto simp: cache_objects_ok_def)
    obtain b where b: "bt_get objects old = Some b" using bt_get_domE [OF d(2)] by blast
    note r = cache_objects_remove [OF 2(2) b]
    have "removeAll old (old # order) = order" using d(1) by simp
    with r 2(1) [OF True b] 2(3) True b
    obtain order' objects' used' where ev:
      "evict capacity len order (bt_remove old objects) (used - length b) = Some (order', objects', used')"
      "cache_objects_ok dg order' objects' used'" "used' + len \<le> capacity"
      "\<forall>k c. bt_get objects' k = Some c \<longrightarrow> bt_get (bt_remove old objects) k = Some c"
      by (auto simp: not_less)
    have "bt_get objects k = Some c" if "bt_get objects' k = Some c" for k c
    proof -
      have "bt_get (bt_remove old objects) k = Some c" using ev(4) that by blast
      then show ?thesis by (simp split: if_splits)
    qed
    with ev show ?thesis
      using True b r(1) by auto
  qed
qed

text \<open>
  Insertion never panics; afterwards the cache satisfies its invariant, holds nothing
  that it did not hold before but the new object, and that is verified.
\<close>

lemma insert_into_ok:
  assumes "cache_inv dg capacity c"
  shows "case insert_into dg capacity i hash bs c of (r, c') \<Rightarrow>
    r \<noteq> Err Panic \<and> cache_inv dg capacity c' \<and> ca_pending c' = ca_pending c
    \<and> (r = Ok () \<longrightarrow> dg bs = hash)
    \<and> (\<forall>k b. bt_get (ca_objects c') k = Some b \<longrightarrow> bt_get (ca_objects c) k = Some b \<or> k = (i, hash) \<and> b = bs)"
proof (cases "length bs \<le> capacity \<and> bt_get (ca_objects c) (i, hash) = None
    \<and> CHUNK_BYTES \<le> length bs \<and> length bs \<le> MAX_OBJECT_BYTES \<and> length bs mod CHUNK_BYTES = 0 \<and> dg bs = hash")
  case False
  then show ?thesis
    using assms by (auto simp: insert_into_def)
next
  case True
  have "cache_objects_ok dg (ca_order c) (ca_objects c) (ca_bytes c)"
    using assms by (simp add: cache_inv_def)
  from evict_ok [OF this, of "length bs" capacity] True
  obtain order objects used where ev:
      "evict capacity (length bs) (ca_order c) (ca_objects c) (ca_bytes c) = Some (order, objects, used)"
      "cache_objects_ok dg order objects used" "used + length bs \<le> capacity"
      "\<forall>k b. bt_get objects k = Some b \<longrightarrow> bt_get (ca_objects c) k = Some b"
    by blast
  have "bt_get objects (i, hash) = None"
    using ev(4) True by (metis option.distinct(1) not_None_eq)
  then have fresh: "(i, hash) \<notin> fst ` set objects"
    by (simp add: map_of_eq_None_iff)
  have "cache_objects_ok dg (order @ [(i, hash)]) (bt_insert (i, hash) bs objects) (used + length bs)"
    using ev(2) fresh True
    by (auto simp: cache_objects_ok_def set_bt_insert weight_insert split: if_splits)
  then show ?thesis
    using ev True assms by (auto simp: insert_into_def cache_inv_def cache_objects_ok_def split: if_splits)
qed

section \<open>Every operation keeps the invariant\<close>

text \<open>
  The operations and the completions of speculative reads, in any order and over any
  store: \<open>ret\<close> collects the bytes that reads returned with the digest they were asked
  for.
\<close>

inductive cache_step :: "'s cache_config \<Rightarrow> 's object_store \<Rightarrow> 's \<times> cache_state \<Rightarrow> (string \<times> bytes) list \<Rightarrow> 's \<times> cache_state \<Rightarrow> bool"
  for cf :: "'s cache_config" and os :: "'s object_store" where
  ca_chunk: "cache_chunk cf os i hash w = (r, w') \<Longrightarrow>
    cache_step cf os w (case r of Ok bs \<Rightarrow> [(hash, bs)] | Err e \<Rightarrow> []) w'"
| ca_base: "cache_base_chunk cf os img hash offset w = (r, w') \<Longrightarrow>
    cache_step cf os w (case r of Ok bs \<Rightarrow> [(hash, bs)] | Err e \<Rightarrow> []) w'"
| ca_put: "cache_put_chunk cf os i hash bs w = (r, w') \<Longrightarrow> cache_step cf os w [] w'"
| ca_put_cancellable: "cache_put_chunk_cancellable cf os i hash bs cancel w = (r, w') \<Longrightarrow> cache_step cf os w [] w'"
| ca_delete: "cache_delete_chunks os i hashes w = (r, w') \<Longrightarrow> cache_step cf os w [] w'"
| ca_prefetch: "cache_step cf os w [] (cache_prefetch i hashes w)"
| ca_prefetch_base: "cache_step cf os w [] (cache_prefetch_base cf img hashes w)"
| ca_done: "cache_step cf os w [] (prefetch_done cf os base source key w)"
| ca_world: "cache_step cf os (s, c) [] (s', c)"

abbreviation cinv :: "'s cache_config \<Rightarrow> 's \<times> cache_state \<Rightarrow> bool" where
  "cinv cf w \<equiv> cache_inv (cc_digest cf) (cc_capacity cf) (snd w)"

lemma post_inner [post_simps]:
  "post (on_inner m) Q E (s, c) = post m (\<lambda>x s'. Q x (s', c)) (\<lambda>e s'. E e (s', c)) s"
  by (simp add: on_inner_def post_def split: prod.split result.split)

lemma insert_post:
  assumes "cinv cf w"
  shows "post (cache_insert cf i hash bs)
    (\<lambda>_ w'. cinv cf w' \<and> fst w' = fst w \<and> cc_digest cf bs = hash
       \<and> (\<forall>k b. bt_get (ca_objects (snd w')) k = Some b \<longrightarrow> bt_get (ca_objects (snd w)) k = Some b \<or> k = (i, hash) \<and> b = bs))
    (\<lambda>e w'. cinv cf w' \<and> fst w' = fst w \<and> e \<noteq> Panic
       \<and> (\<forall>k b. bt_get (ca_objects (snd w')) k = Some b \<longrightarrow> bt_get (ca_objects (snd w)) k = Some b \<or> k = (i, hash) \<and> b = bs)) w"
  using insert_into_ok [OF assms, where i = i and hash = hash and bs = bs]
  by (cases w) (auto simp: cache_insert_def on_cache_def post_def split: prod.splits result.splits)

lemma cached_verified:
  "cinv cf w \<Longrightarrow> cache_cached_chunk i hash w = Some bs \<Longrightarrow> cc_digest cf bs = hash"
  by (cases w) (auto simp: cache_cached_chunk_def cache_inv_def cache_objects_ok_def)

lemma chunk_verified:
  assumes "cinv cf w"
  shows "post (cache_chunk cf os i hash) (\<lambda>bs w'. cc_digest cf bs = hash \<and> cinv cf w') (\<lambda>_. cinv cf) w"
proof (cases "cache_cached_chunk i hash w")
  case None
  then have "cache_chunk cf os i hash w =
      io_bind (on_inner (os_chunk os i hash)) (\<lambda>bs. io_bind (cache_insert cf i hash bs) (\<lambda>_. io_return bs)) w"
    by (simp add: cache_chunk_def)
  moreover have "post (io_bind (on_inner (os_chunk os i hash)) (\<lambda>bs. io_bind (cache_insert cf i hash bs) (\<lambda>_. io_return bs)))
      (\<lambda>bs w'. cc_digest cf bs = hash \<and> cinv cf w') (\<lambda>_. cinv cf) w"
    using assms by (cases w) (auto simp: post_simps post_def [of "os_chunk os i hash"] split: prod.split result.split
        intro!: post_mono [OF insert_post])
  ultimately show ?thesis by (simp add: post_def)
next
  case (Some bs)
  then show ?thesis
    using assms cached_verified by (simp add: cache_chunk_def post_def)
qed

lemma metadata_inv [simp]: "cache_inv dg cap (metadata_put dg' w hash bs c) = cache_inv dg cap c"
  by (simp add: metadata_put_def cache_inv_def split: option.split)

lemma local_read_verified:
  assumes "cinv cf w" "local_base_read cf img hash offset w = (r, w')"
  shows "cinv cf w'" "r = Some bs \<Longrightarrow> cc_digest cf bs = hash"
  using assms by (cases w; auto simp: local_base_read_def cache_inv_def split: option.splits if_splits)+

lemma base_fetch_verified:
  assumes "cinv cf w"
  shows "post (base_fetch cf os img hash offset) (\<lambda>bs w'. cc_digest cf bs = hash \<and> cinv cf w') (\<lambda>_. cinv cf) w"
proof -
  obtain s c where w: "w = (s, c)" by force
  obtain r s' where run: "os_base_chunk os img hash offset s = (r, s')" by force
  let ?c = "\<lambda>bs. if offset = None \<and> cc_metadata cf then metadata_put (cc_digest cf) (cc_slots_writable cf) hash bs c else c"
  have "post (cache_insert cf (base_key img) hash bs) (\<lambda>_ w'. cc_digest cf bs = hash \<and> cinv cf w') (\<lambda>_. cinv cf) (s', ?c bs)" for bs
    using assms w by (intro post_mono [OF insert_post]) auto
  then show ?thesis
    using assms w run
    by (cases r) (auto simp: base_fetch_def post_simps post_def [of "os_base_chunk os img hash offset"]
        post_def [of "\<lambda>(s, c). (Ok (), s, _ c)"])
qed

lemma base_chunk_verified:
  assumes "cinv cf w"
  shows "post (cache_base_chunk cf os img hash offset) (\<lambda>bs w'. cc_digest cf bs = hash \<and> cinv cf w') (\<lambda>_. cinv cf) w"
proof -
  consider (cached) bs where "cache_cached_chunk (base_key img) hash w = Some bs"
    | (meta) bs where "cache_cached_chunk (base_key img) hash w = None" "offset = None" "cc_metadata cf"
        "metadata_get (cc_digest cf) hash (snd w) = Some bs"
    | (rest) "cache_base_chunk cf os img hash offset w = (case local_base_read cf img hash offset w of
        (Some bs, w') \<Rightarrow> (Ok bs, w') | (None, w') \<Rightarrow> base_fetch cf os img hash offset w')"
    by (cases "cache_cached_chunk (base_key img) hash w";
        cases offset; cases "cc_metadata cf"; cases "metadata_get (cc_digest cf) hash (snd w)")
      (auto simp: cache_base_chunk_def)
  then show ?thesis
  proof cases
    case cached
    then show ?thesis using assms cached_verified by (simp add: cache_base_chunk_def post_def)
  next
    case meta
    have "post (io_bind (cache_insert cf (base_key img) hash bs) (\<lambda>_. io_return bs))
        (\<lambda>bs w'. cc_digest cf bs = hash \<and> cinv cf w') (\<lambda>_. cinv cf) w"
      by (auto simp: post_simps intro!: post_mono [OF insert_post [OF assms]])
    with meta show ?thesis by (simp add: cache_base_chunk_def post_def)
  next
    case rest
    obtain r w' where l: "local_base_read cf img hash offset w = (r, w')"
      by (cases "local_base_read cf img hash offset w")
    show ?thesis
      using rest l local_read_verified [OF assms l] base_fetch_verified [of cf w' os img hash offset]
      by (cases r) (auto simp: post_def)
  qed
qed

lemma reserve_inv: "cache_inv dg cap c \<Longrightarrow> cache_inv dg cap (snd (reserve i hashes c))"
  by (induction i hashes c rule: reserve.induct) (auto simp: cache_inv_def split: prod.split)

lemma reserve_objects: "ca_objects (snd (reserve i hashes c)) = ca_objects c"
  by (induction i hashes c rule: reserve.induct) (auto split: prod.split)

lemma drop_objects_ok:
  assumes "cache_objects_ok dg order objects used"
  shows "case drop_objects i hashes objects used of (objects', used') \<Rightarrow>
    cache_objects_ok dg (filter (\<lambda>k. bt_get objects' k \<noteq> None) order) objects' used' \<and> used' \<le> used
    \<and> (\<forall>k b. bt_get objects' k = Some b \<longrightarrow> bt_get objects k = Some b)"
  using assms
proof (induction i hashes objects used arbitrary: order rule: drop_objects.induct)
  case (1 i objects used)
  then have "filter (\<lambda>k. bt_get objects k \<noteq> None) order = order"
    by (auto simp: cache_objects_ok_def filter_id_conv dest!: bt_get_domE)
  with 1 show ?case by simp
next
  case (2 i hash hashes objects used)
  show ?case
  proof (cases "bt_get objects (i, hash)")
    case None
    with 2 show ?thesis by simp
  next
    case (Some b)
    note r = cache_objects_remove [OF 2(3) Some]
    obtain objects' used' where run: "drop_objects i hashes (bt_remove (i, hash) objects) (used - length b) = (objects', used')"
      by force
    note ih = 2(2) [OF Some r(2), unfolded run prod.case]
    then have rem: "bt_get (bt_remove (i, hash) objects) k = Some c" if "bt_get objects' k = Some c" for k c
      using that by blast
    have sub: "bt_get objects k = Some c" if "bt_get objects' k = Some c" for k c
      using rem [OF that] by (simp split: if_splits)
    have gone: "bt_get objects' (i, hash) = None"
      using rem [of "(i, hash)"] by (cases "bt_get objects' (i, hash)") auto
    have "filter (\<lambda>k. bt_get objects' k \<noteq> None) (removeAll (i, hash) order) = filter (\<lambda>k. bt_get objects' k \<noteq> None) order"
      using gone by (induction order) auto
    with ih sub Some run show ?thesis by auto
  qed
qed

lemma forget_inv: "cache_inv dg cap c \<Longrightarrow> cache_inv dg cap (cache_forget i hashes c)"
  using drop_objects_ok [of dg "ca_order c" "ca_objects c" "ca_bytes c" i hashes]
  by (auto simp: cache_forget_def cache_inv_def split: prod.splits)

lemma cache_step_inv:
  assumes "cache_step cf os w ret w'" "cinv cf w"
  shows "cinv cf w' \<and> (\<forall>(hash, bs) \<in> set ret. cc_digest cf bs = hash)"
  using assms
proof cases
  case (ca_chunk i hash r)
  then show ?thesis
    using chunk_verified [OF assms(2), of os i hash] by (auto simp: post_def split: result.splits)
next
  case (ca_base img hash offset r)
  then show ?thesis
    using base_chunk_verified [OF assms(2), of os img hash offset] by (auto simp: post_def split: result.splits)
next
  case (ca_put i hash bs r)
  have "post (cache_put_chunk cf os i hash bs) (\<lambda>_. cinv cf) (\<lambda>_. cinv cf) w"
    using assms(2) by (cases w) (auto simp: cache_put_chunk_def post_simps post_def [of "os_put_chunk os i hash bs"]
        split: prod.split result.split intro!: post_mono [OF insert_post])
  with ca_put show ?thesis by (auto simp: post_def split: result.splits)
next
  case (ca_put_cancellable i hash bs cancel r)
  have "post (cache_put_chunk_cancellable cf os i hash bs cancel) (\<lambda>_. cinv cf) (\<lambda>_. cinv cf) w"
  proof -
    obtain s c where w: "w = (s, c)" by force
    have "post (io_bind (on_inner (os_put_chunk_cancellable os i hash bs (inner_cancel cancel c)))
        (\<lambda>_. cache_insert cf i hash bs)) (\<lambda>_. cinv cf) (\<lambda>_. cinv cf) (s, c)"
      using assms(2) w by (auto simp: post_simps post_def [of "os_put_chunk_cancellable os i hash bs (inner_cancel cancel c)"]
          split: prod.split result.split intro!: post_mono [OF insert_post])
    then show ?thesis by (simp add: w cache_put_chunk_cancellable_def post_def)
  qed
  with ca_put_cancellable show ?thesis by (auto simp: post_def split: result.splits)
next
  case (ca_delete i hashes r)
  with assms(2) show ?thesis
    by (cases w) (auto simp: cache_delete_chunks_def io_bind_def on_inner_def on_cache_def forget_inv
        split: prod.splits result.splits)
next
  case (ca_prefetch i hashes)
  with assms(2) show ?thesis by (cases w) (simp add: cache_prefetch_def reserve_inv)
next
  case (ca_prefetch_base img hashes)
  with assms(2) show ?thesis by (cases w) (auto simp: cache_prefetch_base_def reserve_inv)
next
  case (ca_done base source key)
  have "cache_inv dg cap c \<Longrightarrow> cache_inv dg cap (c\<lparr>ca_pending := removeAll key (ca_pending c)\<rparr>)" for dg cap c
    by (auto simp: cache_inv_def distinct_removeAll removeAll_filter_not_eq intro: order_trans [OF length_filter_le])
  moreover have "cache_inv (cc_digest cf) (cc_capacity cf) (snd (insert_into (cc_digest cf) (cc_capacity cf) (fst key) (snd key) bs c))"
    if "cache_inv (cc_digest cf) (cc_capacity cf) c" for bs c
    using insert_into_ok [OF that, where i = "fst key" and hash = "snd key" and bs = bs] by (auto split: prod.splits)
  ultimately show ?thesis
    using ca_done assms(2) by (cases w) (auto simp: prefetch_done_def Let_def split: prod.split result.split)
next
  case (ca_world s c s')
  with assms(2) show ?thesis by simp
qed

section \<open>The cache keeps the contract of the store behind it\<close>

text \<open>What is cached for a volume is what the store holds; keys of base images are disjoint.\<close>

definition coherent :: "objs_view \<Rightarrow> cache_state \<Rightarrow> bool" where
  "coherent X c \<longleftrightarrow> (\<forall>v d b. valid_id v \<longrightarrow> bt_get (ca_objects c) (v, d) = Some b \<longrightarrow> X v d = Some b)"

definition cached_ok :: "'s cache_config \<Rightarrow> ('s \<Rightarrow> objs_view) \<Rightarrow> ('s \<Rightarrow> bool) \<Rightarrow> 's \<times> cache_state \<Rightarrow> bool" where
  "cached_ok cf objs ok = (\<lambda>(s, c). ok s \<and> cache_inv (cc_digest cf) (cc_capacity cf) c \<and> coherent (objs s) c)"

lemma coherent_mono: "coherent X c \<Longrightarrow> objs_le X Y \<Longrightarrow> coherent Y c"
  unfolding coherent_def using objs_leD by blast

lemma coherent_insert:
  assumes "coherent X c" "X i hash = Some bs"
    and "\<forall>k b. bt_get (ca_objects c') k = Some b \<longrightarrow> bt_get (ca_objects c) k = Some b \<or> k = (i, hash) \<and> b = bs"
  shows "coherent X c'"
  using assms unfolding coherent_def by (metis prod.inject)

context object_store_laws
begin

lemma cached_chunk_law:
  assumes "cached_ok cf objs ok (s, c)" "valid_id v"
  shows "post (cache_chunk cf os v d)
      (\<lambda>b (s', c'). cached_ok cf objs ok (s', c') \<and> heads s' = heads s \<and> objs s' = objs s \<and> objs s v d = Some b)
      (\<lambda>e (s', c'). cached_ok cf objs ok (s', c') \<and> heads s' = heads s \<and> objs s' = objs s) (s, c)"
proof (cases "bt_get (ca_objects c) (v, d)")
  case (Some b)
  with assms show ?thesis
    by (auto simp: cache_chunk_def cache_cached_chunk_def post_def cached_ok_def coherent_def)
next
  case None
  have ins: "post (cache_insert cf v d b)
      (\<lambda>_ (s', c'). cached_ok cf objs ok (s', c') \<and> s' = t) (\<lambda>e (s', c'). cached_ok cf objs ok (s', c') \<and> s' = t) (t, c)"
    if "ok t" "objs t = objs s" "objs s v d = Some b" for b t
    using assms that coherent_insert [of "objs s" c v d b]
    by (intro post_mono [OF insert_post]) (auto simp: cached_ok_def)
  have "post (io_bind (on_inner (os_chunk os v d)) (\<lambda>bs. io_bind (cache_insert cf v d bs) (\<lambda>_. io_return bs)))
      (\<lambda>b (s', c'). cached_ok cf objs ok (s', c') \<and> heads s' = heads s \<and> objs s' = objs s \<and> objs s v d = Some b)
      (\<lambda>e (s', c'). cached_ok cf objs ok (s', c') \<and> heads s' = heads s \<and> objs s' = objs s) (s, c)"
    unfolding post_bind post_inner
    using assms
    by (intro post_mono [OF chunk_law])
      (auto simp: cached_ok_def post_simps intro!: post_mono [OF ins])
  then show ?thesis
    using None by (simp add: cache_chunk_def cache_cached_chunk_def post_def)
qed

lemma cached_put_law:
  assumes "cached_ok cf objs ok (s, c)" "valid_id v"
  shows "post (cache_put_chunk cf os v d b)
      (\<lambda>_ (s', c'). cached_ok cf objs ok (s', c') \<and> heads s' = heads s \<and> (objs s v d = None \<or> objs s v d = Some b)
         \<and> objs s' = put_obj (objs s) v d b)
      (\<lambda>e (s', c'). cached_ok cf objs ok (s', c') \<and> heads s' = heads s
         \<and> (objs s' = objs s \<or> objs s v d = None \<and> objs s' = put_obj (objs s) v d b)) (s, c)"
proof -
  have same: "put_obj X v d b = X" if "X v d = Some b" for X
    using that by (auto simp: put_obj_def fun_eq_iff)
  have ins: "post (cache_insert cf v d b)
      (\<lambda>_ (s', c'). cached_ok cf objs ok (s', c') \<and> s' = t) (\<lambda>e (s', c'). cached_ok cf objs ok (s', c') \<and> s' = t) (t, c)"
    if "ok t" "coherent (objs t) c" "objs t v d = Some b" for t
    using assms that coherent_insert [of "objs t" c v d b]
    by (intro post_mono [OF insert_post]) (auto simp: cached_ok_def)
  have co: "coherent (put_obj (objs s) v d b) c" if "objs s v d = None \<or> objs s v d = Some b"
    using assms that coherent_mono [of "objs s" c] by (auto simp: cached_ok_def)
  show ?thesis
    unfolding cache_put_chunk_def post_bind post_inner
    using assms co same
    by (intro post_mono [OF put_law])
      (auto simp: cached_ok_def intro!: post_mono [OF ins])
qed

lemma cached_laws: "object_store_laws (cached_store cf os) (\<lambda>w. heads (fst w)) (\<lambda>w. objs (fst w)) (cached_ok cf objs ok)"
proof
  fix w v d b expected m
  assume ok: "cached_ok cf objs ok w" and v: "valid_id v"
  obtain s c where w: "w = (s, c)" by force
  have s: "ok s" using ok w by (simp add: cached_ok_def)
  show "post (os_head (cached_store cf os) v)
      (\<lambda>h w'. cached_ok cf objs ok w' \<and> heads (fst w') = heads (fst w) \<and> objs (fst w') = objs (fst w) \<and> h = heads (fst w) v)
      (\<lambda>e w'. cached_ok cf objs ok w' \<and> heads (fst w') = heads (fst w) \<and> objs (fst w') = objs (fst w)) w"
    using ok unfolding w by (auto simp: cached_store_def post_inner cached_ok_def intro!: post_mono [OF head_law [OF s v]])
  show "post (os_chunk (cached_store cf os) v d)
      (\<lambda>b w'. cached_ok cf objs ok w' \<and> heads (fst w') = heads (fst w) \<and> objs (fst w') = objs (fst w) \<and> objs (fst w) v d = Some b)
      (\<lambda>e w'. cached_ok cf objs ok w' \<and> heads (fst w') = heads (fst w) \<and> objs (fst w') = objs (fst w)) w"
    using ok v unfolding w by (auto simp: cached_store_def intro!: post_mono [OF cached_chunk_law])
  show "post (os_put_chunk (cached_store cf os) v d b)
      (\<lambda>_ w'. cached_ok cf objs ok w' \<and> heads (fst w') = heads (fst w) \<and> (objs (fst w) v d = None \<or> objs (fst w) v d = Some b)
         \<and> objs (fst w') = put_obj (objs (fst w)) v d b)
      (\<lambda>e w'. cached_ok cf objs ok w' \<and> heads (fst w') = heads (fst w)
         \<and> (objs (fst w') = objs (fst w) \<or> objs (fst w) v d = None \<and> objs (fst w') = put_obj (objs (fst w)) v d b)) w"
    using ok v unfolding w by (auto simp: cached_store_def intro!: post_mono [OF cached_put_law])
  show "post (os_publish (cached_store cf os) v expected m)
      (\<lambda>rev w'. cached_ok cf objs ok w' \<and> objs (fst w') = objs (fst w) \<and> map_option h_revision (heads (fst w) v) = expected
         \<and> heads (fst w') = (heads (fst w))(v \<mapsto> \<lparr>h_revision = rev, h_manifest = m\<rparr>)
         \<and> (\<forall>h. heads (fst w) v = Some h \<and> h_manifest h \<noteq> m \<longrightarrow> rev \<noteq> h_revision h))
      (\<lambda>e w'. cached_ok cf objs ok w' \<and> objs (fst w') = objs (fst w)
         \<and> (heads (fst w') = heads (fst w)
            \<or> e \<noteq> Conflict \<and> map_option h_revision (heads (fst w) v) = expected
              \<and> (\<exists>rev. heads (fst w') = (heads (fst w))(v \<mapsto> \<lparr>h_revision = rev, h_manifest = m\<rparr>)))) w"
    using ok unfolding w by (auto simp: cached_store_def post_inner cached_ok_def intro!: post_mono [OF publish_law [OF s v]])
qed

end

interpretation cached: object_store_laws "cached_store cf (memory_store cd)" "\<lambda>w. mem_heads (fst w)" "\<lambda>w. mem_objs (fst w)"
    "cached_ok cf mem_objs mem_ok" for cf cd
  by (rule mem.cached_laws)

section \<open>Properties\<close>

text \<open>
  C30. The cache is bounded and never panics, whatever the store behind it answers: from
  an empty cache, after any sequence of reads, uploads, deletions, reservations and
  completed speculative reads, the bytes accounted are exactly those of the cached
  objects and at most the capacity, the eviction order lists every cached object once,
  and at most seven speculative reads are pending.
\<close>

theorem cache_bounded:
  assumes "(\<lambda>w w'. \<exists>ret. cache_step cf os w ret w')\<^sup>*\<^sup>* (s, cache_empty) (t, c)"
  shows "ca_bytes c = weight (ca_objects c) \<and> ca_bytes c \<le> cc_capacity cf \<and> distinct (ca_order c)
    \<and> set (ca_order c) = fst ` set (ca_objects c) \<and> length (ca_pending c) \<le> 7
    \<and> (\<forall>i hash bs. fst (insert_into (cc_digest cf) (cc_capacity cf) i hash bs c) \<noteq> Err Panic)"
proof -
  have "cinv cf (s, cache_empty)"
    by (simp add: cache_empty_def cache_inv_def cache_objects_ok_def weight_def)
  with assms have "cinv cf (t, c)"
    by (induction rule: rtranclp_induct) (use cache_step_inv in \<open>blast+\<close>)
  then have inv: "cache_inv (cc_digest cf) (cc_capacity cf) c" by simp
  then have "fst (insert_into (cc_digest cf) (cc_capacity cf) i hash bs c) \<noteq> Err Panic" for i hash bs
    using insert_into_ok [OF inv, where i = i and hash = hash and bs = bs] by (auto split: prod.splits)
  then show ?thesis
    using inv by (simp add: cache_inv_def cache_objects_ok_def)
qed

definition demo_cache :: "mem_state cache_config" where
  "demo_cache = \<lparr>cc_digest = c_digest demo_codec, cc_capacity = CHUNK_BYTES, cc_local_base = None,
     cc_metadata = False, cc_slots_writable = False\<rparr>"

lemma demo_cache_put:
  "cache_put_chunk demo_cache demo_os ''vm'' demo_hash demo_chunk (demo_s2, cache_empty) =
     (Ok (), demo_s2\<lparr>ms_puts := 2\<rparr>, cache_empty\<lparr>ca_objects := [((''vm'', demo_hash), demo_chunk)],
        ca_bytes := CHUNK_BYTES, ca_order := [(''vm'', demo_hash)]\<rparr>)"
proof -
  have "CHUNK_BYTES \<le> MAX_OBJECT_BYTES" by (simp add: CHUNK_BYTES_def MAX_OBJECT_BYTES_def)
  then have "insert_into (c_digest demo_codec) CHUNK_BYTES ''vm'' demo_hash demo_chunk cache_empty =
      (Ok (), cache_empty\<lparr>ca_objects := [((''vm'', demo_hash), demo_chunk)],
        ca_bytes := CHUNK_BYTES, ca_order := [(''vm'', demo_hash)]\<rparr>)"
    by (simp add: insert_into_def cache_empty_def demo_codec_def demo_chunk_nonzero)
  moreover have "mem_put_chunk demo_codec ''vm'' demo_hash demo_chunk demo_s2 = (Ok (), demo_s2\<lparr>ms_puts := 2\<rparr>)"
    by (simp add: mem_put_chunk_def Let_def demo_s2_def mem_empty_def demo_codec_def numeral_2_eq_2)
  ultimately show ?thesis
    by (simp add: cache_put_chunk_def memory_store_def on_inner_def io_bind_def cache_insert_def on_cache_def demo_cache_def)
qed

theorem cache_bounded_witness:
  "\<exists>t c. (\<lambda>w w'. \<exists>ret. cache_step demo_cache demo_os w ret w')\<^sup>*\<^sup>* (demo_s2, cache_empty) (t, c)
     \<and> ca_order c = [(''vm'', demo_hash)] \<and> ca_bytes c \<le> CHUNK_BYTES"
proof -
  have "(\<lambda>w w'. \<exists>ret. cache_step demo_cache demo_os w ret w')\<^sup>*\<^sup>* (demo_s2, cache_empty)
      (demo_s2\<lparr>ms_puts := 2\<rparr>, cache_empty\<lparr>ca_objects := [((''vm'', demo_hash), demo_chunk)],
        ca_bytes := CHUNK_BYTES, ca_order := [(''vm'', demo_hash)]\<rparr>)"
    using ca_put [OF demo_cache_put] by blast
  with cache_bounded [OF this] show ?thesis
    by (fastforce simp: demo_cache_def)
qed

text \<open>
  The cache returns verified bytes only: in every state that it can reach, whatever
  the store, the local image file and the metadata directory contain, the bytes that a
  read of an object or of a base image object returns have the digest that was asked
  for.
\<close>

theorem cache_returns_verified:
  assumes "cache_inv (cc_digest cf) (cc_capacity cf) c" "cache_step cf os (s, c) ret (s', c')" "(hash, bs) \<in> set ret"
  shows "cc_digest cf bs = hash"
  using cache_step_inv [OF assms(2)] assms(1,3) by auto

lemma demo_cache_hit:
  "cache_chunk demo_cache demo_os ''vm'' demo_hash (demo_s2, cache_empty\<lparr>ca_objects := [((''vm'', demo_hash), demo_chunk)],
        ca_bytes := CHUNK_BYTES, ca_order := [(''vm'', demo_hash)]\<rparr>) =
     (Ok demo_chunk, demo_s2, cache_empty\<lparr>ca_objects := [((''vm'', demo_hash), demo_chunk)],
        ca_bytes := CHUNK_BYTES, ca_order := [(''vm'', demo_hash)]\<rparr>)"
  by (simp add: cache_chunk_def cache_cached_chunk_def)

theorem cache_returns_verified_witness:
  "cc_digest demo_cache demo_chunk = demo_hash"
proof -
  let ?c = "cache_empty\<lparr>ca_objects := [((''vm'', demo_hash), demo_chunk)], ca_bytes := CHUNK_BYTES, ca_order := [(''vm'', demo_hash)]\<rparr>"
  have "CHUNK_BYTES \<le> MAX_OBJECT_BYTES" by (simp add: CHUNK_BYTES_def MAX_OBJECT_BYTES_def)
  then have "cache_inv (cc_digest demo_cache) (cc_capacity demo_cache) ?c"
    by (simp add: cache_inv_def cache_objects_ok_def cache_empty_def demo_cache_def demo_codec_def weight_def demo_chunk_nonzero)
  moreover have "cache_step demo_cache demo_os (demo_s2, ?c) [(demo_hash, demo_chunk)] (demo_s2, ?c)"
    using ca_chunk [OF demo_cache_hit] by simp
  ultimately show ?thesis
    by (rule cache_returns_verified) simp
qed

text \<open>
  C31. Refinement: a cache in front of a store that keeps the store contract keeps it
  too, with the same heads and objects, so every property of volumes holds over cached
  stores; the cache is never evidence that an upload succeeded.
\<close>

theorem cached_store_keeps_contract:
  assumes "object_store_laws os heads objs ok"
  shows "object_store_laws (cached_store cf os) (\<lambda>w. heads (fst w)) (\<lambda>w. objs (fst w)) (cached_ok cf objs ok)"
  by (rule object_store_laws.cached_laws [OF assms])

theorem cached_store_keeps_contract_witness:
  "object_store_laws (cached_store demo_cache demo_os) (\<lambda>w. mem_heads (fst w)) (\<lambda>w. mem_objs (fst w))
     (cached_ok demo_cache mem_objs mem_ok) \<and> cached_ok demo_cache mem_objs mem_ok (demo_s2, cache_empty)"
  using cached_store_keeps_contract [OF memory_store_laws] demo_ok(3)
  by (auto simp: cached_ok_def cache_inv_def cache_objects_ok_def weight_def cache_empty_def coherent_def)

end
