(* ===== verification/S3.thy ===== *)
theory S3
  imports Volume Hash_Hex
begin

text \<open>
  The S3 transport (\<open>rust/ahvm-volume/src/s3.rs\<close>): an object store over conditional
  HTTP requests. The HTTP client with its request signing, the XML parser, the URL and
  MD5 libraries are parameters; what the adapter relies on of the service (conditional
  writes, entity tags) is the locale \<open>s3_service\<close>. The adapter is shown to keep the
  contract of the store interface over every such service, through lost replies,
  retries and ambiguous publications.
\<close>

section \<open>Configuration\<close>

record s3_config =
  s3_endpoint :: string
  s3_region :: string
  s3_bucket :: string
  s3_prefix :: string
  s3_access_key_id :: string
  s3_secret_access_key :: string
  s3_session_token :: "string option"

text \<open>What the URL library says of the endpoint.\<close>

record parsed_url =
  u_scheme :: string
  u_host :: "string option"
  u_username :: string
  u_password :: "string option"
  u_query :: "string option"
  u_fragment :: "string option"
  u_path :: string

fun split_slash :: "string \<Rightarrow> string list" where
  "split_slash [] = [[]]"
| "split_slash (c # cs) =
     (if c = CHR ''/'' then [] # split_slash cs
      else (case split_slash cs of [] \<Rightarrow> [[c]] | p # ps \<Rightarrow> (c # p) # ps))"

definition ascii_lowercase :: "char \<Rightarrow> bool" where
  "ascii_lowercase c = (CHR ''a'' \<le> c \<and> c \<le> CHR ''z'')"

definition s3_build :: "parsed_url option \<Rightarrow> bool \<Rightarrow> bool \<Rightarrow> s3_config \<Rightarrow> (s3_config, verror) result" where
  "s3_build parsed test_http client_ok cf =
     (case parsed of
        None \<Rightarrow> Err InvalidInput
      | Some url \<Rightarrow>
          (let allowed_scheme = (u_scheme url = ''https''
                 \<or> (test_http \<and> u_scheme url = ''http'' \<and> u_host url = Some ''127.0.0.1'')) in
           if \<not> allowed_scheme \<or> u_host url = None \<or> u_username url \<noteq> [] \<or> u_password url \<noteq> None
              \<or> u_query url \<noteq> None \<or> u_fragment url \<noteq> None \<or> u_path url \<noteq> ''/''
              \<or> \<not> valid_id (s3_region cf)
              \<or> length (s3_bucket cf) < 3 \<or> length (s3_bucket cf) > 63
              \<or> \<not> list_all (\<lambda>c. ascii_lowercase c \<or> ascii_digit c \<or> c = CHR ''-'') (s3_bucket cf)
              \<or> hd (s3_bucket cf) = CHR ''-'' \<or> last (s3_bucket cf) = CHR ''-''
              \<or> length (s3_prefix cf) > 256 \<or> \<not> list_all valid_id (split_slash (s3_prefix cf))
              \<or> s3_access_key_id cf = [] \<or> s3_secret_access_key cf = []
              \<or> length (s3_access_key_id cf) > 256 \<or> length (s3_secret_access_key cf) > 1024
              \<or> (case s3_session_token cf of None \<Rightarrow> False | Some t \<Rightarrow> t = [] \<or> length t > 8192)
           then Err InvalidInput
           else if \<not> client_ok then Err Store
           else Ok cf))"

definition s3_with_timeout :: "nat \<Rightarrow> parsed_url option \<Rightarrow> bool \<Rightarrow> s3_config \<Rightarrow> (s3_config, verror) result" where
  "s3_with_timeout millis parsed client_ok cf =
     (if millis < 1000 \<or> millis > 20000 then Err InvalidInput else s3_build parsed False client_ok cf)"

definition s3_bases :: "s3_config \<Rightarrow> (s3_config, verror) result" where
  "s3_bases cf =
     (let cf' = cf\<lparr>s3_prefix := s3_prefix cf @ ''/bases''\<rparr> in
      if length (s3_prefix cf') > 256 then Err InvalidInput else Ok cf')"

text \<open>\<open>trim_end_matches('/')\<close>.\<close>

definition trim_slashes :: "string \<Rightarrow> string" where
  "trim_slashes s = rev (dropWhile (\<lambda>c. c = CHR ''/'') (rev s))"

definition s3_key :: "s3_config \<Rightarrow> string \<Rightarrow> string \<Rightarrow> (string, verror) result" where
  "s3_key cf volume suffix =
     (if \<not> valid_id volume then Err InvalidInput
      else Ok (trim_slashes (s3_endpoint cf) @ ''/'' @ s3_bucket cf @ ''/'' @ s3_prefix cf @ ''/'' @ volume @ ''/'' @ suffix))"

section \<open>The environment\<close>

datatype http_method = GET | PUT | DELETE | POST

record response =
  r_status :: nat
  r_etag :: "string option"
  r_content_length :: "nat option"
  r_body :: "bytes option"

record listing =
  l_prefix :: string
  l_truncated :: bool
  l_keys :: "string list"

record deletion =
  d_deleted :: "string list"
  d_errors :: "(string \<times> string) list"

text \<open>
  A request that cannot be signed or sent, or whose reply does not arrive, has no
  response. \<open>e_polls\<close> is how often the wait before another attempt wakes up.
\<close>

record 's s3_env =
  e_send :: "http_method \<Rightarrow> string \<Rightarrow> (string \<times> string) list \<Rightarrow> bytes \<Rightarrow> 's \<Rightarrow> response option \<times> 's"
  e_query_url :: "string \<Rightarrow> (string \<times> string) list \<Rightarrow> string option"
  e_parse_listing :: "bytes \<Rightarrow> listing option"
  e_parse_deletion :: "bytes \<Rightarrow> deletion option"
  e_content_md5 :: "string \<Rightarrow> string"
  e_digest :: "bytes \<Rightarrow> string"
  e_polls :: "nat \<Rightarrow> 's \<Rightarrow> nat"

definition s3_request_headers ::
  "'s s3_env \<Rightarrow> http_method \<Rightarrow> string \<Rightarrow> (string \<times> string) list \<Rightarrow> bytes \<Rightarrow> ('s, response, verror) io" where
  "s3_request_headers env meth url headers body s =
     (case e_send env meth url headers body s of
        (None, s') \<Rightarrow> (Err Store, s')
      | (Some r, s') \<Rightarrow> (Ok r, s'))"

definition s3_request ::
  "'s s3_env \<Rightarrow> http_method \<Rightarrow> string \<Rightarrow> (string \<times> string) option \<Rightarrow> bytes \<Rightarrow> ('s, response, verror) io" where
  "s3_request env meth url condition body =
     s3_request_headers env meth url (case condition of None \<Rightarrow> [] | Some c \<Rightarrow> [c]) body"

text \<open>Reading a body with \<open>take(limit + 1)\<close> and the announced length checked first.\<close>

definition read_bounded :: "nat \<Rightarrow> response \<Rightarrow> (bytes, verror) result" where
  "read_bounded limit r =
     (if (case r_content_length r of None \<Rightarrow> False | Some n \<Rightarrow> n > limit) then Err Corrupt
      else
        (case r_body r of
           None \<Rightarrow> Err Store
         | Some body \<Rightarrow>
             (let bs = take (limit + 1) body in
              if length bs > limit then Err Corrupt else Ok bs)))"

definition valid_etag :: "string \<Rightarrow> bool" where
  "valid_etag tag =
     (length tag \<ge> 2 \<and> length tag \<le> 256 \<and> hd tag = CHR 0x22 \<and> last tag = CHR 0x22
      \<and> list_all (\<lambda>c. (of_char c :: nat) \<ge> 0x21 \<and> c \<noteq> CHR 0x22 \<and> (of_char c :: nat) < 0x7f) (butlast (tl tag)))"

definition response_etag :: "response \<Rightarrow> (string, verror) result" where
  "response_etag r =
     (case r_etag r of
        None \<Rightarrow> Err Corrupt
      | Some tag \<Rightarrow> if \<not> valid_etag tag then Err Corrupt else Ok tag)"

definition s3_get :: "'s s3_env \<Rightarrow> string \<Rightarrow> nat \<Rightarrow> ('s, (string \<times> bytes) option, verror) io" where
  "s3_get env url limit =
     io_bind (s3_request env GET url None []) (\<lambda>r.
       if r_status r = 404 then io_return None
       else if r_status r \<noteq> 200 then io_throw Store
       else
         io_bind (io_lift (response_etag r)) (\<lambda>revision.
         io_bind (io_lift (read_bounded limit r)) (\<lambda>bs. io_return (Some (revision, bs)))))"

section \<open>Objects\<close>

definition s3_head :: "'s s3_env \<Rightarrow> s3_config \<Rightarrow> string \<Rightarrow> ('s, head option, verror) io" where
  "s3_head env cf volume =
     io_bind (io_lift (s3_key cf volume ''head.json'')) (\<lambda>url.
     io_bind (s3_get env url MAX_MANIFEST_BYTES) (\<lambda>g.
       io_return (map_option (\<lambda>(revision, m). \<lparr>h_revision = revision, h_manifest = m\<rparr>) g)))"

definition object_bounds :: "bytes \<Rightarrow> bool" where
  "object_bounds bs \<longleftrightarrow> CHUNK_BYTES \<le> length bs \<and> length bs \<le> MAX_OBJECT_BYTES \<and> length bs mod CHUNK_BYTES = 0"

definition s3_chunk :: "'s s3_env \<Rightarrow> s3_config \<Rightarrow> string \<Rightarrow> string \<Rightarrow> ('s, bytes, verror) io" where
  "s3_chunk env cf volume hash =
     (if \<not> valid_hash hash then io_throw InvalidInput
      else
        io_bind (io_lift (s3_key cf volume (''chunks/'' @ hash))) (\<lambda>url.
        io_bind (s3_get env url MAX_OBJECT_BYTES) (\<lambda>g.
        io_bind (io_lift (ok_or Corrupt g)) (\<lambda>(_, bs).
          if \<not> object_bounds bs \<or> e_digest env bs \<noteq> hash then io_throw Corrupt else io_return bs))))"

definition s3_base_chunk ::
  "'s s3_env \<Rightarrow> s3_config \<Rightarrow> string \<Rightarrow> string \<Rightarrow> nat option \<Rightarrow> ('s, bytes, verror) io" where
  "s3_base_chunk env cf img hash offset =
     (case hash_decode img of
        Err _ \<Rightarrow> io_throw InvalidInput
      | Ok _ \<Rightarrow> io_bind (io_lift (s3_bases cf)) (\<lambda>cf'. s3_chunk env cf' img hash))"

subsection \<open>Uploads\<close>

fun wait_loop :: "'s cancel \<Rightarrow> nat \<Rightarrow> ('s, unit, verror) io" where
  "wait_loop cancel 0 = check_cancel cancel"
| "wait_loop cancel (Suc n) = io_bind (check_cancel cancel) (\<lambda>_. wait_loop cancel n)"

text \<open>What one attempt decides: done, try again, or give up with an error.\<close>

datatype attempt = Uploaded | Try_Again | Give_Up verror

definition put_existing ::
  "'s s3_env \<Rightarrow> s3_config \<Rightarrow> string \<Rightarrow> string \<Rightarrow> bytes \<Rightarrow> 's cancel \<Rightarrow> ('s, attempt, verror) io" where
  "put_existing env cf volume hash bs cancel =
     io_bind (check_cancel cancel) (\<lambda>_.
     io_bind (\<lambda>s. case s3_chunk env cf volume hash s of (r, s') \<Rightarrow> (Ok r, s')) (\<lambda>existing.
     io_bind (check_cancel cancel) (\<lambda>_.
       io_return (case existing of
           Ok b \<Rightarrow> if b = bs then Uploaded else Give_Up Corrupt
         | Err Corrupt \<Rightarrow> Give_Up Corrupt
         | Err Store \<Rightarrow> Try_Again
         | Err e \<Rightarrow> Give_Up e))))"

definition put_attempt ::
  "'s s3_env \<Rightarrow> s3_config \<Rightarrow> string \<Rightarrow> string \<Rightarrow> bytes \<Rightarrow> 's cancel \<Rightarrow> ('s, attempt, verror) io" where
  "put_attempt env cf volume hash bs cancel =
     io_bind (check_cancel cancel) (\<lambda>_.
     io_bind (io_lift (s3_key cf volume (''chunks/'' @ hash))) (\<lambda>url.
     io_bind (\<lambda>s. case s3_request env PUT url (Some (''if-none-match'', ''*'')) bs s of (r, s') \<Rightarrow> (Ok r, s')) (\<lambda>response.
     io_bind (check_cancel cancel) (\<lambda>_.
       case response of
         Ok r \<Rightarrow>
           if r_status r = 200 then io_return Uploaded
           else if r_status r = 412 then put_existing env cf volume hash bs cancel
           else if 500 \<le> r_status r \<and> r_status r < 600 \<or> r_status r = 429 \<or> r_status r = 408 then io_return Try_Again
           else io_return (Give_Up Store)
       | Err e \<Rightarrow> io_return (if e = Store then Try_Again else Give_Up e)))))"

function put_attempts ::
  "'s s3_env \<Rightarrow> s3_config \<Rightarrow> string \<Rightarrow> string \<Rightarrow> bytes \<Rightarrow> 's cancel \<Rightarrow> nat \<Rightarrow> ('s, unit, verror) io" where
  "put_attempts env cf volume hash bs cancel n =
     (if 3 \<le> n then io_throw Store
      else
        io_bind (put_attempt env cf volume hash bs cancel) (\<lambda>a.
          case a of
            Uploaded \<Rightarrow> io_return ()
          | Give_Up e \<Rightarrow> io_throw e
          | Try_Again \<Rightarrow>
              io_bind (\<lambda>s. if n < 2 then wait_loop cancel (e_polls env n s) s else (Ok (), s)) (\<lambda>_.
                put_attempts env cf volume hash bs cancel (Suc n))))"
  by pat_completeness auto
termination
  by (relation "measure (\<lambda>(env, cf, volume, hash, bs, cancel, n). 3 - n)") auto

declare put_attempts.simps [simp del]

definition s3_put_chunk_cancellable ::
  "'s s3_env \<Rightarrow> s3_config \<Rightarrow> string \<Rightarrow> string \<Rightarrow> bytes \<Rightarrow> 's cancel \<Rightarrow> ('s, unit, verror) io" where
  "s3_put_chunk_cancellable env cf volume hash bs cancel =
     (if \<not> object_bounds bs \<or> \<not> valid_hash hash \<or> e_digest env bs \<noteq> hash then io_throw InvalidInput
      else put_attempts env cf volume hash bs cancel 0)"

definition s3_put_chunk :: "'s s3_env \<Rightarrow> s3_config \<Rightarrow> string \<Rightarrow> string \<Rightarrow> bytes \<Rightarrow> ('s, unit, verror) io" where
  "s3_put_chunk env cf volume hash bs = s3_put_chunk_cancellable env cf volume hash bs never"

subsection \<open>Publication\<close>

definition s3_condition :: "string option \<Rightarrow> string \<times> string" where
  "s3_condition expected = (case expected of Some t \<Rightarrow> (''if-match'', t) | None \<Rightarrow> (''if-none-match'', ''*''))"

definition s3_publish ::
  "'s s3_env \<Rightarrow> s3_config \<Rightarrow> string \<Rightarrow> string option \<Rightarrow> bytes \<Rightarrow> ('s, string, verror) io" where
  "s3_publish env cf volume expected m =
     (if m = [] \<or> length m > MAX_MANIFEST_BYTES \<or> (case expected of None \<Rightarrow> False | Some t \<Rightarrow> \<not> valid_etag t)
      then io_throw InvalidInput
      else
        io_bind (io_lift (s3_key cf volume ''head.json'')) (\<lambda>url.
        io_bind (io_map_err (\<lambda>_. Uncertain) (s3_request env PUT url (Some (s3_condition expected)) m)) (\<lambda>r.
          if r_status r = 200 then io_map_err (\<lambda>_. Uncertain) (io_lift (response_etag r))
          else if r_status r = 412 then io_throw Conflict
          else io_throw Uncertain)))"

section \<open>Listing and deletion\<close>

definition strip_prefix :: "string \<Rightarrow> string \<Rightarrow> string option" where
  "strip_prefix p s = (if take (length p) s = p then Some (drop (length p) s) else None)"

text \<open>The set of hashes that the items name; a \<open>BTreeSet\<close>, so sorted and distinct.\<close>

fun list_items :: "string \<Rightarrow> string option \<Rightarrow> string list \<Rightarrow> (string, unit) btree \<Rightarrow> ((string, unit) btree, verror) result" where
  "list_items p after [] hashes = Ok hashes"
| "list_items p after (k # ks) hashes =
     (case strip_prefix p k of
        None \<Rightarrow> Err Corrupt
      | Some hash \<Rightarrow>
          if \<not> valid_hash hash \<or> (case after of None \<Rightarrow> False | Some a \<Rightarrow> hash \<le> a) \<or> bt_get hashes hash \<noteq> None
          then Err Corrupt
          else list_items p after ks (bt_insert hash () hashes))"

definition s3_list_chunks_after ::
  "'s s3_env \<Rightarrow> s3_config \<Rightarrow> string \<Rightarrow> string option \<Rightarrow> nat \<Rightarrow> ('s, string list, verror) io" where
  "s3_list_chunks_after env cf volume after limit =
     (if (case after of None \<Rightarrow> False | Some h \<Rightarrow> \<not> valid_hash h) \<or> \<not> valid_id volume \<or> \<not> (1 \<le> limit \<and> limit \<le> 1000)
      then io_throw InvalidInput
      else
        (let p = s3_prefix cf @ ''/'' @ volume @ ''/chunks/'' in
         io_bind (io_lift (ok_or InvalidInput
             (e_query_url env (trim_slashes (s3_endpoint cf) @ ''/'' @ s3_bucket cf)
               ([(''list-type'', ''2''), (''prefix'', p), (''max-keys'', show_nat limit)]
                @ (case after of None \<Rightarrow> [] | Some hash \<Rightarrow> [(''start-after'', p @ hash)]))))) (\<lambda>url.
         io_bind (s3_request env GET url None []) (\<lambda>r.
           if r_status r \<noteq> 200 then io_throw Store
           else
             io_bind (io_lift (read_bounded (1024 * 1024) r)) (\<lambda>body.
             io_bind (io_lift (ok_or Corrupt (e_parse_listing env body))) (\<lambda>list.
               if l_prefix list \<noteq> p \<or> length (l_keys list) > limit \<or> (l_truncated list \<and> l_keys list = [])
               then io_throw Corrupt
               else
                 io_bind (io_lift (list_items p after (l_keys list) [])) (\<lambda>hashes.
                   io_return (map fst hashes))))))))"

definition s3_list_chunks :: "'s s3_env \<Rightarrow> s3_config \<Rightarrow> string \<Rightarrow> nat \<Rightarrow> ('s, string list, verror) io" where
  "s3_list_chunks env cf volume limit = s3_list_chunks_after env cf volume None limit"

definition s3_delete_chunk :: "'s s3_env \<Rightarrow> s3_config \<Rightarrow> string \<Rightarrow> string \<Rightarrow> ('s, unit, verror) io" where
  "s3_delete_chunk env cf volume hash =
     (if \<not> valid_hash hash then io_throw InvalidInput
      else
        io_bind (io_lift (s3_key cf volume (''chunks/'' @ hash))) (\<lambda>url.
        io_bind (s3_request env DELETE url None []) (\<lambda>r.
          if r_status r = 204 \<or> r_status r = 404 then io_return () else io_throw Store)))"

definition bytes_of :: "string \<Rightarrow> bytes" where
  "bytes_of s = map (\<lambda>c. word_of_nat (of_char c)) s"

definition key_set :: "string list \<Rightarrow> (string, unit) btree" where
  "key_set ks = fold (\<lambda>k. bt_insert k ()) ks []"

definition delete_body :: "(string, unit) btree \<Rightarrow> string" where
  "delete_body keys = ''<Delete xmlns='' @ [CHR 0x22] @ ''http://s3.amazonaws.com/doc/2006-03-01/'' @ [CHR 0x22] @ ''>''
     @ concat (map (\<lambda>(k, _). ''<Object><Key>'' @ k @ ''</Key></Object>'') keys) @ ''</Delete>''"

fun check_reported :: "(string, unit) btree \<Rightarrow> string list \<Rightarrow> (string, unit) btree \<Rightarrow> ((string, unit) btree, verror) result" where
  "check_reported keys [] seen = Ok seen"
| "check_reported keys (k # ks) seen =
     (if bt_get keys k = None \<or> bt_get seen k \<noteq> None then Err Corrupt
      else check_reported keys ks (bt_insert k () seen))"

definition s3_delete_chunks :: "'s s3_env \<Rightarrow> s3_config \<Rightarrow> string \<Rightarrow> string list \<Rightarrow> ('s, unit, verror) io" where
  "s3_delete_chunks env cf volume hashes =
     (if \<not> valid_id volume \<or> length hashes > 1000 \<or> list_ex (\<lambda>h. \<not> valid_hash h) hashes then io_throw InvalidInput
      else if hashes = [] then io_return ()
      else
        (let keys = key_set (map (\<lambda>hash. s3_prefix cf @ ''/'' @ volume @ ''/chunks/'' @ hash) hashes) in
         if length keys \<noteq> length hashes then io_throw InvalidInput
         else
           (let body = delete_body keys;
                url = trim_slashes (s3_endpoint cf) @ ''/'' @ s3_bucket cf @ ''?delete'' in
            io_bind (s3_request_headers env POST url
                [(''content-md5'', e_content_md5 env body), (''content-type'', ''application/xml'')] (bytes_of body)) (\<lambda>r.
              if r_status r \<noteq> 200 then io_throw Store
              else
                io_bind (io_lift (read_bounded (1024 * 1024) r)) (\<lambda>bs.
                io_bind (io_lift (ok_or Corrupt (e_parse_deletion env bs))) (\<lambda>d.
                io_bind (io_lift (check_reported keys (d_deleted d @ map fst (d_errors d)) [])) (\<lambda>seen.
                  if seen \<noteq> keys then io_throw Corrupt
                  else if list_ex (\<lambda>(_, code). code = []) (d_errors d) then io_throw Corrupt
                  else if d_errors d \<noteq> [] then io_throw Store
                  else io_return ())))))))"

definition s3_store :: "'s s3_env \<Rightarrow> s3_config \<Rightarrow> 's object_store" where
  "s3_store env cf = \<lparr>
     os_base_chunk = s3_base_chunk env cf,
     os_prefetch_base = default_prefetch,
     os_prefetch = default_prefetch,
     os_cached_chunk = default_cached_chunk,
     os_list_chunks = s3_list_chunks env cf,
     os_list_chunks_after = s3_list_chunks_after env cf,
     os_delete_chunk = s3_delete_chunk env cf,
     os_delete_chunks = s3_delete_chunks env cf,
     os_head = s3_head env cf,
     os_chunk = s3_chunk env cf,
     os_put_chunk = s3_put_chunk env cf,
     os_put_chunk_cancellable = s3_put_chunk_cancellable env cf,
     os_publish = s3_publish env cf,
     os_publish_cancellable = default_publish_cancellable (s3_publish env cf)\<rparr>"

section \<open>What the service promises\<close>

lemma post_request:
  "e_send env meth url (case c of None \<Rightarrow> [] | Some x \<Rightarrow> [x]) body s = (r, s') \<Longrightarrow>
   post (s3_request env meth url c body) Q E s = (case r of None \<Rightarrow> E Store s' | Some resp \<Rightarrow> Q resp s')"
  by (auto simp: post_def s3_request_def s3_request_headers_def split: option.split)

definition s3_url :: "s3_config \<Rightarrow> string \<Rightarrow> string \<Rightarrow> string" where
  "s3_url cf volume suffix =
     trim_slashes (s3_endpoint cf) @ ''/'' @ s3_bucket cf @ ''/'' @ s3_prefix cf @ ''/'' @ volume @ ''/'' @ suffix"

lemma s3_key_url: "valid_id v \<Longrightarrow> s3_key cf v suffix = Ok (s3_url cf v suffix)"
  by (simp add: s3_key_def s3_url_def)

lemma valid_id_no_slash: "valid_id v \<Longrightarrow> CHR ''/'' \<notin> set v"
  by (auto simp: valid_id_def list_all_iff ascii_alphanumeric_def ascii_digit_def)

lemma slash_split:
  "CHR ''/'' \<notin> set v \<Longrightarrow> CHR ''/'' \<notin> set w \<Longrightarrow> v @ CHR ''/'' # a = w @ CHR ''/'' # b \<Longrightarrow> v = w \<and> a = b"
proof (induction v arbitrary: w)
  case Nil
  then show ?case by (cases w) auto
next
  case (Cons c v)
  then show ?case by (cases w) auto
qed

lemma s3_url_inject: "valid_id v \<Longrightarrow> valid_id w \<Longrightarrow> s3_url cf v a = s3_url cf w b \<longleftrightarrow> v = w \<and> a = b"
  using slash_split [of v w a b] valid_id_no_slash by (auto simp: s3_url_def)

text \<open>
  The documented behaviour of the service: reads see the stored object with its entity
  tag, a conditional write succeeds only if its condition holds and then stores exactly
  the body, \<open>412\<close> means that nothing was written, and any other outcome, a lost reply
  included, is either of the two. Different contents have different entity tags.
\<close>

definition s3_stored ::
  "(string \<Rightarrow> (string \<times> bytes) option) \<Rightarrow> (string \<Rightarrow> (string \<times> bytes) option) \<Rightarrow> string \<Rightarrow> string option \<Rightarrow> bytes \<Rightarrow> string \<Rightarrow> bool" where
  "s3_stored V V' url expected b tag \<longleftrightarrow> map_option fst (V url) = expected \<and> V' = V(url \<mapsto> (tag, b))
     \<and> (\<forall>t0 b0. V url = Some (t0, b0) \<longrightarrow> b \<noteq> b0 \<longrightarrow> tag \<noteq> t0)"

text \<open>The heads and objects of the store, read off the objects of the service.\<close>

definition s3_heads :: "s3_config \<Rightarrow> ('s \<Rightarrow> string \<Rightarrow> (string \<times> bytes) option) \<Rightarrow> 's \<Rightarrow> heads_view" where
  "s3_heads cf sview s v =
     (if valid_id v then map_option (\<lambda>(t, b). \<lparr>h_revision = t, h_manifest = b\<rparr>) (sview s (s3_url cf v ''head.json'')) else None)"

definition s3_objs :: "s3_config \<Rightarrow> ('s \<Rightarrow> string \<Rightarrow> (string \<times> bytes) option) \<Rightarrow> 's \<Rightarrow> objs_view" where
  "s3_objs cf sview s v d =
     (if valid_id v \<and> valid_hash d then map_option snd (sview s (s3_url cf v (''chunks/'' @ d))) else None)"

text \<open>The keys that the store uses below a volume.\<close>

definition s3_suffix :: "string \<Rightarrow> bool" where
  "s3_suffix suffix \<longleftrightarrow> suffix = ''head.json'' \<or> (\<exists>d. valid_hash d \<and> suffix = ''chunks/'' @ d)"

lemma s3_suffix_simps: "s3_suffix ''head.json''" "valid_hash d \<Longrightarrow> s3_suffix (''chunks/'' @ d)"
  unfolding s3_suffix_def by blast+

lemmas s3_suffix_intros [simp] = s3_suffix_simps [simplified]

locale s3_service =
  fixes env :: "'s s3_env"
    and cf :: s3_config
    and sview :: "'s \<Rightarrow> string \<Rightarrow> (string \<times> bytes) option"
    and ok :: "'s \<Rightarrow> bool"
  assumes get_law: "ok s \<Longrightarrow> valid_id v \<Longrightarrow> s3_suffix suffix \<Longrightarrow> url = s3_url cf v suffix \<Longrightarrow> e_send env GET url [] [] s = (r, s') \<Longrightarrow>
      ok s' \<and> sview s' = sview s
      \<and> (\<forall>resp. r = Some resp \<longrightarrow>
           (r_status resp = 404 \<longrightarrow> sview s url = None)
           \<and> (r_status resp = 200 \<longrightarrow>
                (\<exists>tag bs. sview s url = Some (tag, bs) \<and> r_etag resp = Some tag
                   \<and> (\<forall>b. r_body resp = Some b \<longrightarrow> b = bs))))"
    and put_law: "ok s \<Longrightarrow> valid_id v \<Longrightarrow> s3_suffix suffix \<Longrightarrow> url = s3_url cf v suffix \<Longrightarrow>
      e_send env PUT url [s3_condition expected] b s = (r, s') \<Longrightarrow>
      ok s' \<and>
      (case r of
         Some resp \<Rightarrow>
           if r_status resp = 200
           then \<exists>tag. s3_stored (sview s) (sview s') url expected b tag \<and> (\<forall>t. r_etag resp = Some t \<longrightarrow> t = tag)
           else if r_status resp = 412 then sview s' = sview s
           else sview s' = sview s \<or> (\<exists>tag. s3_stored (sview s) (sview s') url expected b tag)
       | None \<Rightarrow> sview s' = sview s \<or> (\<exists>tag. s3_stored (sview s) (sview s') url expected b tag))"
begin

lemma views_cong: "sview s' = sview s \<Longrightarrow> s3_heads cf sview s' = s3_heads cf sview s \<and> s3_objs cf sview s' = s3_objs cf sview s"
  by (simp add: s3_heads_def s3_objs_def fun_eq_iff)

lemma views_head:
  assumes "valid_id v" "sview s' = (sview s)(s3_url cf v ''head.json'' \<mapsto> (tag, b))"
  shows "s3_heads cf sview s' = (s3_heads cf sview s)(v \<mapsto> \<lparr>h_revision = tag, h_manifest = b\<rparr>)" "s3_objs cf sview s' = s3_objs cf sview s"
  using assms by (auto simp: s3_heads_def s3_objs_def fun_eq_iff s3_url_inject)

lemma views_chunk:
  assumes "valid_id v" "valid_hash d" "sview s' = (sview s)(s3_url cf v (''chunks/'' @ d) \<mapsto> (tag, b))"
  shows "s3_heads cf sview s' = s3_heads cf sview s" "s3_objs cf sview s' = put_obj (s3_objs cf sview s) v d b"
  using assms by (auto simp: s3_heads_def s3_objs_def put_obj_def fun_eq_iff s3_url_inject)

lemma get_post:
  assumes "ok s" "valid_id v" "s3_suffix suffix"
  shows "post (s3_get env (s3_url cf v suffix) limit)
    (\<lambda>g s'. ok s' \<and> sview s' = sview s \<and> g = sview s (s3_url cf v suffix))
    (\<lambda>_ s'. ok s' \<and> sview s' = sview s) s"
proof -
  obtain r s' where run: "e_send env GET (s3_url cf v suffix) [] [] s = (r, s')" by force
  note law = get_law [OF assms refl run]
  have req: "post (s3_request env GET (s3_url cf v suffix) None []) Q E s =
      (case r of None \<Rightarrow> E Store s' | Some resp \<Rightarrow> Q resp s')" for Q E
    using run by (intro post_request) simp
  have body: "read_bounded limit resp = Ok bs \<Longrightarrow> r_body resp = Some bs" for resp bs
    by (auto simp: read_bounded_def Let_def split: if_splits option.splits)
  show ?thesis
  proof (cases r)
    case None
    with law show ?thesis by (simp add: s3_get_def post_bind req)
  next
    case (Some resp)
    show ?thesis
      using law Some body [of resp]
      by (cases "response_etag resp"; cases "read_bounded limit resp")
        (auto simp: s3_get_def post_simps req response_etag_def split: option.splits if_splits)
  qed
qed

lemma head_post:
  assumes "ok s" "valid_id v"
  shows "post (s3_head env cf v)
    (\<lambda>h s'. ok s' \<and> s3_heads cf sview s' = s3_heads cf sview s \<and> s3_objs cf sview s' = s3_objs cf sview s \<and> h = s3_heads cf sview s v)
    (\<lambda>_ s'. ok s' \<and> s3_heads cf sview s' = s3_heads cf sview s \<and> s3_objs cf sview s' = s3_objs cf sview s) s"
proof -
  have "post (s3_get env (s3_url cf v ''head.json'') MAX_MANIFEST_BYTES)
      (\<lambda>g s'. ok s' \<and> (s3_heads cf sview s' = s3_heads cf sview s \<and> s3_objs cf sview s' = s3_objs cf sview s) \<and> g = sview s (s3_url cf v ''head.json''))
      (\<lambda>_ s'. ok s' \<and> s3_heads cf sview s' = s3_heads cf sview s \<and> s3_objs cf sview s' = s3_objs cf sview s) s"
    by (rule post_mono [OF get_post [OF assms s3_suffix_simps(1)]]) (use views_cong in blast)+
  then show ?thesis
    using assms(2) by (auto simp: s3_head_def s3_key_url post_simps s3_heads_def [of cf sview s v] elim!: post_mono)
qed

lemma chunk_post:
  assumes "ok s" "valid_id v"
  shows "post (s3_chunk env cf v d)
    (\<lambda>b s'. ok s' \<and> sview s' = sview s \<and> s3_objs cf sview s v d = Some b)
    (\<lambda>_ s'. ok s' \<and> sview s' = sview s) s"
  using assms
  by (auto simp: s3_chunk_def s3_key_url post_simps s3_objs_def ok_or_def split: option.split
      intro!: post_mono [OF get_post])

text \<open>A cancellation test that does not touch the volumes.\<close>

definition quiet_cancel :: "'s cancel \<Rightarrow> bool" where
  "quiet_cancel cancel \<longleftrightarrow> (\<forall>s. ok s \<longrightarrow> ok (snd (cancel s)) \<and> s3_heads cf sview (snd (cancel s)) = s3_heads cf sview s
     \<and> s3_objs cf sview (snd (cancel s)) = s3_objs cf sview s)"

lemma quiet_never: "quiet_cancel never"
  by (simp add: quiet_cancel_def never_def)

text \<open>The only change an upload can make: the object appears where there was none.\<close>

definition grown :: "string \<Rightarrow> string \<Rightarrow> bytes \<Rightarrow> 's \<Rightarrow> 's \<Rightarrow> bool" where
  "grown v d b s s' \<longleftrightarrow> ok s' \<and> s3_heads cf sview s' = s3_heads cf sview s
     \<and> (s3_objs cf sview s' = s3_objs cf sview s \<or> s3_objs cf sview s v d = None \<and> s3_objs cf sview s' = put_obj (s3_objs cf sview s) v d b)"

lemma grown_refl: "ok s \<Longrightarrow> grown v d b s s"
  by (simp add: grown_def)

lemma grown_trans: "grown v d b s t \<Longrightarrow> grown v d b t u \<Longrightarrow> grown v d b s u"
  by (auto simp: grown_def)

lemma grown_ok: "grown v d b s t \<Longrightarrow> ok t"
  by (simp add: grown_def)

lemma grown_view: "ok s' \<Longrightarrow> sview s' = sview s \<Longrightarrow> grown v d b s s'"
  using views_cong [of s' s] by (auto simp: grown_def)

lemma check_cancel_grown:
  assumes "quiet_cancel cancel" "grown v d b t s"
  shows "post (check_cancel cancel) (\<lambda>_. grown v d b t) (\<lambda>_. grown v d b t) s"
proof -
  have "grown v d b s (snd (cancel s))"
    using assms grown_ok [OF assms(2)] by (simp add: quiet_cancel_def grown_def)
  then have "grown v d b t (snd (cancel s))"
    by (rule grown_trans [OF assms(2)])
  then show ?thesis
    by (auto simp: check_cancel_def post_def split: prod.splits)
qed

lemma wait_grown:
  assumes "quiet_cancel cancel"
  shows "grown v d b t s \<Longrightarrow> post (wait_loop cancel n) (\<lambda>_. grown v d b t) (\<lambda>_. grown v d b t) s"
proof (induction n arbitrary: s)
  case 0
  then show ?case using assms by (simp add: check_cancel_grown)
next
  case (Suc n)
  show ?case
    unfolding wait_loop.simps post_bind
    by (rule post_mono [OF check_cancel_grown [OF assms Suc.prems]]) (auto intro: Suc.IH)
qed

lemma send_grown:
  assumes "ok s" "valid_id v" "valid_hash d"
    and run: "s3_request env PUT (s3_url cf v (''chunks/'' @ d)) (Some (''if-none-match'', ''*'')) b s = (r, s')"
  shows "grown v d b s s' \<and> (\<forall>resp. r = Ok resp \<longrightarrow> r_status resp = 200 \<longrightarrow> s3_objs cf sview s' v d = Some b)"
proof -
  obtain q where q: "e_send env PUT (s3_url cf v (''chunks/'' @ d)) [s3_condition None] b s = (q, s')"
      "r = (case q of None \<Rightarrow> Err Store | Some resp \<Rightarrow> Ok resp)"
    using run by (auto simp: s3_request_def s3_request_headers_def s3_condition_def split: prod.splits option.splits)
  note law = put_law [OF assms(1,2) s3_suffix_simps(2) [OF assms(3)] refl q(1)]
  have stored: "grown v d b s s' \<and> s3_objs cf sview s' v d = Some b"
    if "ok s'" "s3_stored (sview s) (sview s') (s3_url cf v (''chunks/'' @ d)) None b tag" for tag
  proof -
    from that(2) have new: "sview s (s3_url cf v (''chunks/'' @ d)) = None"
        "sview s' = (sview s)(s3_url cf v (''chunks/'' @ d) \<mapsto> (tag, b))"
      by (auto simp: s3_stored_def)
    have "s3_objs cf sview s v d = None" using new(1) by (simp add: s3_objs_def)
    with views_chunk [OF assms(2,3) new(2)] that(1) show ?thesis by (simp add: grown_def)
  qed
  have unk: "grown v d b s s'" if "ok s'"
    "sview s' = sview s \<or> (\<exists>tag. s3_stored (sview s) (sview s') (s3_url cf v (''chunks/'' @ d)) None b tag)"
    using that stored grown_view by blast
  show ?thesis
  proof (cases q)
    case None
    then show ?thesis using law q(2) unk by auto
  next
    case (Some resp)
    show ?thesis
    proof (cases "r_status resp = 200")
      case True
      with law Some obtain tag where "ok s'" "s3_stored (sview s) (sview s') (s3_url cf v (''chunks/'' @ d)) None b tag"
        by auto
      then show ?thesis using stored by blast
    next
      case False
      with law Some unk have "grown v d b s s'" by (auto split: if_splits)
      with False Some q(2) show ?thesis by auto
    qed
  qed
qed

lemma existing_grown:
  assumes "grown v d b t s" "valid_id v" "s3_chunk env cf v d s = (r, s')"
  shows "grown v d b t s' \<and> (\<forall>c. r = Ok c \<longrightarrow> s3_objs cf sview s' v d = Some c)"
proof -
  have p: "post (s3_chunk env cf v d) (\<lambda>b s'. ok s' \<and> sview s' = sview s \<and> s3_objs cf sview s v d = Some b)
      (\<lambda>_ s'. ok s' \<and> sview s' = sview s) s"
    using assms by (intro chunk_post) (auto simp: grown_ok)
  have "ok s' \<and> sview s' = sview s \<and> (\<forall>c. r = Ok c \<longrightarrow> s3_objs cf sview s v d = Some c)"
    using p assms(3) by (auto simp: post_def split: result.splits)
  then show ?thesis
    using grown_trans [OF assms(1)] grown_view [of s' s] views_cong [of s' s] by auto
qed

lemma put_attempt_grown:
  assumes q: "quiet_cancel cancel" and g: "grown v d b t s" and v: "valid_id v" "valid_hash d"
  shows "post (put_attempt env cf v d b cancel)
    (\<lambda>a s'. grown v d b t s' \<and> (a = Uploaded \<longrightarrow> s3_objs cf sview s' v d = Some b)) (\<lambda>_. grown v d b t) s"
proof -
  note cc = check_cancel_grown [OF q, of v d b t]
  have keep: "post (check_cancel cancel) (\<lambda>_ s'. grown v d b t s' \<and> (P \<longrightarrow> s3_objs cf sview s' v d = Some c)) (\<lambda>_. grown v d b t) u"
    if "grown v d b t u" "P \<longrightarrow> s3_objs cf sview u v d = Some c" for P u c
  proof -
    have "grown v d b u (snd (cancel u)) \<and> s3_objs cf sview (snd (cancel u)) = s3_objs cf sview u"
      using q grown_ok [OF that(1)] by (simp add: quiet_cancel_def grown_def)
    then show ?thesis
      using grown_trans [OF that(1)] that(2) by (auto simp: check_cancel_def post_def split: prod.splits)
  qed
  have exist: "post (\<lambda>s. case s3_chunk env cf v d s of (r, s') \<Rightarrow> (Ok r, s'))
      (\<lambda>r s'. grown v d b t s' \<and> (\<forall>c. r = Ok c \<longrightarrow> s3_objs cf sview s' v d = Some c)) E u" if "grown v d b t u" for u E
    using existing_grown [OF that v(1)] by (auto simp: post_def split: prod.splits)
  have send: "post (\<lambda>s. case s3_request env PUT (s3_url cf v (''chunks/'' @ d)) (Some (''if-none-match'', ''*'')) b s of (r, s') \<Rightarrow> (Ok r, s'))
      (\<lambda>r s'. grown v d b t s' \<and> (\<forall>resp. r = Ok resp \<longrightarrow> r_status resp = 200 \<longrightarrow> s3_objs cf sview s' v d = Some b)) E u"
    if "grown v d b t u" for u E
    using send_grown [OF grown_ok [OF that] v] grown_trans [OF that] by (auto simp: post_def split: prod.splits)
  have ex: "post (put_existing env cf v d b cancel)
      (\<lambda>a s'. grown v d b t s' \<and> (a = Uploaded \<longrightarrow> s3_objs cf sview s' v d = Some b)) (\<lambda>_. grown v d b t) u" if "grown v d b t u" for u
    unfolding put_existing_def post_bind post_return
  proof (rule post_mono [OF cc [OF that]], rule post_mono [OF exist], assumption)
    fix r :: "(bytes, verror) result" and u'
    assume "grown v d b t u' \<and> (\<forall>c. r = Ok c \<longrightarrow> s3_objs cf sview u' v d = Some c)"
    then have "post (check_cancel cancel) (\<lambda>_ s'. grown v d b t s' \<and> (r = Ok b \<longrightarrow> s3_objs cf sview s' v d = Some b)) (\<lambda>_. grown v d b t) u'"
      by (intro keep) auto
    then show "post (check_cancel cancel)
        (\<lambda>_ s'. grown v d b t s'
           \<and> ((case r of Ok b' \<Rightarrow> if b' = b then Uploaded else Give_Up Corrupt
               | Err Corrupt \<Rightarrow> Give_Up Corrupt | Err Store \<Rightarrow> Try_Again | Err e \<Rightarrow> Give_Up e) = Uploaded
              \<longrightarrow> s3_objs cf sview s' v d = Some b)) (\<lambda>_. grown v d b t) u'"
      by (rule post_mono) (auto split: result.splits verror.splits if_splits)
  qed simp_all
  show ?thesis
    unfolding put_attempt_def s3_key_url [OF v(1)] post_bind post_lift result.case
  proof (rule post_mono [OF cc [OF g]], rule post_mono [OF send], assumption)
    fix r :: "(response, verror) result" and u
    assume u: "grown v d b t u \<and> (\<forall>resp. r = Ok resp \<longrightarrow> r_status resp = 200 \<longrightarrow> s3_objs cf sview u v d = Some b)"
    let ?P = "\<exists>resp. r = Ok resp \<and> r_status resp = 200"
    have "post (check_cancel cancel) (\<lambda>_ s'. grown v d b t s' \<and> (?P \<longrightarrow> s3_objs cf sview s' v d = Some b)) (\<lambda>_. grown v d b t) u"
      using u by (intro keep) auto
    then show "post (check_cancel cancel)
        (\<lambda>_. post (case r of
              Ok r \<Rightarrow>
                if r_status r = 200 then io_return Uploaded
                else if r_status r = 412 then put_existing env cf v d b cancel
                else if 500 \<le> r_status r \<and> r_status r < 600 \<or> r_status r = 429 \<or> r_status r = 408 then io_return Try_Again
                else io_return (Give_Up Store)
            | Err e \<Rightarrow> io_return (if e = Store then Try_Again else Give_Up e))
           (\<lambda>a s'. grown v d b t s' \<and> (a = Uploaded \<longrightarrow> s3_objs cf sview s' v d = Some b)) (\<lambda>_. grown v d b t)) (\<lambda>_. grown v d b t) u"
      by (rule post_mono) (auto simp: post_return ex split: result.split)
  qed simp_all
qed

lemma put_attempts_grown:
  assumes q: "quiet_cancel cancel" and v: "valid_id v" "valid_hash d"
  shows "grown v d b t s \<Longrightarrow> post (put_attempts env cf v d b cancel n)
    (\<lambda>_ s'. grown v d b t s' \<and> s3_objs cf sview s' v d = Some b) (\<lambda>_. grown v d b t) s"
proof (induction "3 - n" arbitrary: n s rule: less_induct)
  case less
  show ?case
  proof (cases "3 \<le> n")
    case True
    with less.prems show ?thesis by (subst put_attempts.simps) (simp add: post_throw)
  next
    case False
    have wait: "post (\<lambda>s. if n < 2 then wait_loop cancel (e_polls env n s) s else (Ok (), s))
        (\<lambda>_. grown v d b t) (\<lambda>_. grown v d b t) u" if "grown v d b t u" for u
      using wait_grown [OF q that, of "e_polls env n u"] that by (simp add: post_def)
    have rec: "post (put_attempts env cf v d b cancel (Suc n))
        (\<lambda>_ s'. grown v d b t s' \<and> s3_objs cf sview s' v d = Some b) (\<lambda>_. grown v d b t) u" if "grown v d b t u" for u
      using False that by (intro less.hyps) auto
    show ?thesis
      using False
      by (subst put_attempts.simps)
        (auto simp: post_bind post_return post_throw split: attempt.split
          intro!: post_mono [OF put_attempt_grown [OF q less.prems v]] post_mono [OF wait] rec)
  qed
qed

lemma put_post:
  assumes "ok s" "valid_id v" "quiet_cancel cancel"
  shows "post (s3_put_chunk_cancellable env cf v d b cancel)
    (\<lambda>_ s'. ok s' \<and> s3_heads cf sview s' = s3_heads cf sview s \<and> (s3_objs cf sview s v d = None \<or> s3_objs cf sview s v d = Some b)
       \<and> s3_objs cf sview s' = put_obj (s3_objs cf sview s) v d b)
    (\<lambda>e s'. ok s' \<and> s3_heads cf sview s' = s3_heads cf sview s
       \<and> (s3_objs cf sview s' = s3_objs cf sview s \<or> s3_objs cf sview s v d = None \<and> s3_objs cf sview s' = put_obj (s3_objs cf sview s) v d b)) s"
proof (cases "valid_hash d")
  case False
  with assms show ?thesis by (simp add: s3_put_chunk_cancellable_def post_throw)
next
  case True
  have same: "X = put_obj X v d b" if "X v d = Some b" for X :: objs_view
    using that by (auto simp: put_obj_def fun_eq_iff)
  note p = put_attempts_grown [OF assms(3,2) True grown_refl [OF assms(1)], of b 0]
  have "post (put_attempts env cf v d b cancel 0)
    (\<lambda>_ s'. ok s' \<and> s3_heads cf sview s' = s3_heads cf sview s \<and> (s3_objs cf sview s v d = None \<or> s3_objs cf sview s v d = Some b)
       \<and> s3_objs cf sview s' = put_obj (s3_objs cf sview s) v d b)
    (\<lambda>e s'. ok s' \<and> s3_heads cf sview s' = s3_heads cf sview s
       \<and> (s3_objs cf sview s' = s3_objs cf sview s \<or> s3_objs cf sview s v d = None \<and> s3_objs cf sview s' = put_obj (s3_objs cf sview s) v d b)) s"
    using same by (intro post_mono [OF p]) (auto simp: grown_def)
  with assms(1) show ?thesis
    by (simp add: s3_put_chunk_cancellable_def post_throw)
qed

lemma publish_post:
  assumes "ok s" "valid_id v"
  shows "post (s3_publish env cf v expected m)
    (\<lambda>r s'. ok s' \<and> s3_objs cf sview s' = s3_objs cf sview s \<and> map_option h_revision (s3_heads cf sview s v) = expected
       \<and> s3_heads cf sview s' = (s3_heads cf sview s)(v \<mapsto> \<lparr>h_revision = r, h_manifest = m\<rparr>)
       \<and> (\<forall>h. s3_heads cf sview s v = Some h \<and> h_manifest h \<noteq> m \<longrightarrow> r \<noteq> h_revision h))
    (\<lambda>e s'. ok s' \<and> s3_objs cf sview s' = s3_objs cf sview s
       \<and> (s3_heads cf sview s' = s3_heads cf sview s
          \<or> e \<noteq> Conflict \<and> map_option h_revision (s3_heads cf sview s v) = expected
            \<and> (\<exists>r. s3_heads cf sview s' = (s3_heads cf sview s)(v \<mapsto> \<lparr>h_revision = r, h_manifest = m\<rparr>)))) s"
    (is "post _ ?Q ?E s")
proof -
  let ?url = "s3_url cf v ''head.json''"
  obtain q s' where run: "e_send env PUT ?url [s3_condition expected] m s = (q, s')" by force
  note law = put_law [OF assms s3_suffix_simps(1) refl run]
  have req: "post (s3_request env PUT ?url (Some (s3_condition expected)) m) Q E s =
      (case q of None \<Rightarrow> E Store s' | Some resp \<Rightarrow> Q resp s')" for Q E
    using run by (intro post_request) simp
  have view: "map_option h_revision (s3_heads cf sview s v) = map_option fst (sview s ?url)"
    using assms(2) by (cases "sview s ?url") (auto simp: s3_heads_def split: prod.split)
  have stored: "?Q tag s'" if "ok s'" "s3_stored (sview s) (sview s') ?url expected m tag" for tag
    using that views_head [OF assms(2), of s' s tag m] view assms(2)
    by (auto simp: s3_stored_def s3_heads_def [of cf sview s v])
  have unk: "?E Uncertain s'" if "ok s'" "sview s' = sview s \<or> (\<exists>tag. s3_stored (sview s) (sview s') ?url expected m tag)"
    using that stored views_cong [of s' s] by blast
  show ?thesis
  proof (cases q)
    case None
    then show ?thesis
      using law unk assms by (auto simp: s3_publish_def s3_key_url post_simps req)
  next
    case (Some resp)
    consider (written) tag where "r_status resp = 200" "s3_stored (sview s) (sview s') ?url expected m tag"
        "\<forall>t. r_etag resp = Some t \<longrightarrow> t = tag"
      | (refused) "r_status resp = 412" "sview s' = sview s"
      | (other) "r_status resp \<noteq> 200" "r_status resp \<noteq> 412" "?E Uncertain s'"
      using law Some unk by (auto split: if_splits)
    then show ?thesis
    proof cases
      case written
      then show ?thesis
        using stored [of tag] law Some assms
        by (auto simp: s3_publish_def s3_key_url post_simps req response_etag_def split: option.split)
    next
      case refused
      then show ?thesis
        using law Some assms views_cong [of s' s] by (auto simp: s3_publish_def s3_key_url post_simps req)
    next
      case other
      then show ?thesis
        using Some assms by (auto simp: s3_publish_def s3_key_url post_simps req)
    qed
  qed
qed

lemma s3_laws: "object_store_laws (s3_store env cf) (s3_heads cf sview) (s3_objs cf sview) ok"
proof
  fix s v d b expected m
  assume ok: "ok s" and v: "valid_id v"
  show "post (os_head (s3_store env cf) v)
      (\<lambda>h s'. ok s' \<and> s3_heads cf sview s' = s3_heads cf sview s \<and> s3_objs cf sview s' = s3_objs cf sview s \<and> h = s3_heads cf sview s v)
      (\<lambda>e s'. ok s' \<and> s3_heads cf sview s' = s3_heads cf sview s \<and> s3_objs cf sview s' = s3_objs cf sview s) s"
    using head_post [OF ok v] by (simp add: s3_store_def)
  have "post (s3_chunk env cf v d)
      (\<lambda>b s'. ok s' \<and> (s3_heads cf sview s' = s3_heads cf sview s \<and> s3_objs cf sview s' = s3_objs cf sview s) \<and> s3_objs cf sview s v d = Some b)
      (\<lambda>e s'. ok s' \<and> s3_heads cf sview s' = s3_heads cf sview s \<and> s3_objs cf sview s' = s3_objs cf sview s) s"
    by (rule post_mono [OF chunk_post [OF ok v]]) (use views_cong in blast)+
  then show "post (os_chunk (s3_store env cf) v d)
      (\<lambda>b s'. ok s' \<and> s3_heads cf sview s' = s3_heads cf sview s \<and> s3_objs cf sview s' = s3_objs cf sview s \<and> s3_objs cf sview s v d = Some b)
      (\<lambda>e s'. ok s' \<and> s3_heads cf sview s' = s3_heads cf sview s \<and> s3_objs cf sview s' = s3_objs cf sview s) s"
    by (simp add: s3_store_def)
  show "post (os_put_chunk (s3_store env cf) v d b)
      (\<lambda>_ s'. ok s' \<and> s3_heads cf sview s' = s3_heads cf sview s \<and> (s3_objs cf sview s v d = None \<or> s3_objs cf sview s v d = Some b)
         \<and> s3_objs cf sview s' = put_obj (s3_objs cf sview s) v d b)
      (\<lambda>e s'. ok s' \<and> s3_heads cf sview s' = s3_heads cf sview s
         \<and> (s3_objs cf sview s' = s3_objs cf sview s \<or> s3_objs cf sview s v d = None \<and> s3_objs cf sview s' = put_obj (s3_objs cf sview s) v d b)) s"
    using put_post [OF ok v quiet_never] by (simp add: s3_store_def s3_put_chunk_def)
  show "post (os_publish (s3_store env cf) v expected m)
      (\<lambda>rev s'. ok s' \<and> s3_objs cf sview s' = s3_objs cf sview s \<and> map_option h_revision (s3_heads cf sview s v) = expected
         \<and> s3_heads cf sview s' = (s3_heads cf sview s)(v \<mapsto> \<lparr>h_revision = rev, h_manifest = m\<rparr>)
         \<and> (\<forall>h. s3_heads cf sview s v = Some h \<and> h_manifest h \<noteq> m \<longrightarrow> rev \<noteq> h_revision h))
      (\<lambda>e s'. ok s' \<and> s3_objs cf sview s' = s3_objs cf sview s
         \<and> (s3_heads cf sview s' = s3_heads cf sview s
            \<or> e \<noteq> Conflict \<and> map_option h_revision (s3_heads cf sview s v) = expected
              \<and> (\<exists>rev. s3_heads cf sview s' = (s3_heads cf sview s)(v \<mapsto> \<lparr>h_revision = rev, h_manifest = m\<rparr>)))) s"
    using publish_post [OF ok v] by (simp add: s3_store_def)
qed

end

section \<open>A service\<close>

text \<open>A service with conditional writes that numbers its entity tags.\<close>

record service_state =
  sv_objects :: "string \<Rightarrow> (string \<times> bytes) option"
  sv_count :: nat

definition service_tag :: "nat \<Rightarrow> string" where
  "service_tag n = [CHR 0x22] @ show_nat n @ [CHR 0x22]"

definition service_reply :: "nat \<Rightarrow> string option \<Rightarrow> bytes \<Rightarrow> response option" where
  "service_reply status tag body =
     Some \<lparr>r_status = status, r_etag = tag, r_content_length = Some (length body), r_body = Some body\<rparr>"

definition service_send ::
  "http_method \<Rightarrow> string \<Rightarrow> (string \<times> string) list \<Rightarrow> bytes \<Rightarrow> service_state \<Rightarrow> response option \<times> service_state" where
  "service_send meth url headers body s =
     (case meth of
        GET \<Rightarrow> (case sv_objects s url of
            None \<Rightarrow> (service_reply 404 None [], s)
          | Some (tag, bs) \<Rightarrow> (service_reply 200 (Some tag) bs, s))
      | PUT \<Rightarrow>
          if headers = [s3_condition (map_option fst (sv_objects s url))]
          then (service_reply 200 (Some (service_tag (sv_count s + 1))) [],
                s\<lparr>sv_count := sv_count s + 1,
                  sv_objects := (sv_objects s)(url \<mapsto> (service_tag (sv_count s + 1), body))\<rparr>)
          else (service_reply 412 None [], s)
      | _ \<Rightarrow> (service_reply 501 None [], s))"

definition service_env :: "(bytes \<Rightarrow> string) \<Rightarrow> service_state s3_env" where
  "service_env dg = \<lparr>e_send = service_send, e_query_url = (\<lambda>_ _. None), e_parse_listing = (\<lambda>_. None),
     e_parse_deletion = (\<lambda>_. None), e_content_md5 = (\<lambda>_. []), e_digest = dg, e_polls = (\<lambda>_ _. 0)\<rparr>"

definition service_ok :: "service_state \<Rightarrow> bool" where
  "service_ok s \<longleftrightarrow> (\<forall>url tag b. sv_objects s url = Some (tag, b) \<longrightarrow> (\<exists>n \<le> sv_count s. tag = service_tag n))"

lemma service_tag_inject [simp]: "service_tag a = service_tag b \<longleftrightarrow> a = b"
  by (simp add: service_tag_def)

lemma s3_condition_inject: "s3_condition a = s3_condition b \<longleftrightarrow> a = b"
  by (auto simp: s3_condition_def split: option.splits)

interpretation service: s3_service "service_env dg" cf sv_objects service_ok for dg cf
proof
  fix s v url suffix r s'
  assume "service_ok s" "e_send (service_env dg) GET url [] [] s = (r, s')"
  then show "service_ok s' \<and> sv_objects s' = sv_objects s
      \<and> (\<forall>resp. r = Some resp \<longrightarrow>
           (r_status resp = 404 \<longrightarrow> sv_objects s url = None)
           \<and> (r_status resp = 200 \<longrightarrow>
                (\<exists>tag bs. sv_objects s url = Some (tag, bs) \<and> r_etag resp = Some tag
                   \<and> (\<forall>b. r_body resp = Some b \<longrightarrow> b = bs))))"
    by (auto simp: service_env_def service_send_def service_reply_def split: option.splits)
next
  fix s v url suffix expected b r s'
  assume ok: "service_ok s" and run: "e_send (service_env dg) PUT url [s3_condition expected] b s = (r, s')"
  define n where "n = Suc (sv_count s)"
  have fresh: "tag \<noteq> service_tag n" if "sv_objects s url = Some (tag, b0)" for tag b0
    using ok that unfolding service_ok_def n_def by fastforce
  have keep: "service_ok (s\<lparr>sv_count := n, sv_objects := (sv_objects s)(url \<mapsto> (service_tag n, b))\<rparr>)"
    using ok unfolding service_ok_def n_def by (auto; meson le_SucI)
  show "service_ok s' \<and>
      (case r of
         Some resp \<Rightarrow>
           if r_status resp = 200
           then \<exists>tag. s3_stored (sv_objects s) (sv_objects s') url expected b tag \<and> (\<forall>t. r_etag resp = Some t \<longrightarrow> t = tag)
           else if r_status resp = 412 then sv_objects s' = sv_objects s
           else sv_objects s' = sv_objects s \<or> (\<exists>tag. s3_stored (sv_objects s) (sv_objects s') url expected b tag)
       | None \<Rightarrow> sv_objects s' = sv_objects s \<or> (\<exists>tag. s3_stored (sv_objects s) (sv_objects s') url expected b tag))"
    using run ok keep fresh
    by (auto simp: service_env_def service_send_def service_reply_def s3_condition_inject s3_stored_def simp flip: n_def
        split: if_splits)
qed

section \<open>Properties\<close>

text \<open>
  C27. Over every service with conditional writes and entity tags, with replies that may
  be lost and writes whose outcome is unknown, the S3 adapter keeps the contract of the
  object store: a successful upload means that exactly these bytes are stored, an upload
  never replaces an object, a publication replaces exactly the expected head, and
  \<open>Conflict\<close> means that it did not.
\<close>

theorem s3_store_keeps_contract:
  assumes "s3_service env cf sview ok"
  shows "object_store_laws (s3_store env cf) (s3_heads cf sview) (s3_objs cf sview) ok"
  by (rule s3_service.s3_laws [OF assms])

definition demo_s3 :: s3_config where
  "demo_s3 = \<lparr>s3_endpoint = ''https://s3.local/'', s3_region = ''eu'', s3_bucket = ''disks'', s3_prefix = ''vm'',
     s3_access_key_id = ''id'', s3_secret_access_key = ''key'', s3_session_token = None\<rparr>"

definition demo_env :: "service_state s3_env" where
  "demo_env = service_env (\<lambda>_. replicate 64 (CHR ''0''))"

theorem s3_store_keeps_contract_witness:
  "object_store_laws (s3_store demo_env demo_s3) (s3_heads demo_s3 sv_objects) (s3_objs demo_s3 sv_objects) service_ok
   \<and> service_ok \<lparr>sv_objects = (\<lambda>_. None), sv_count = 0\<rparr>"
  using s3_store_keeps_contract [OF service.s3_service_axioms] by (auto simp: service_ok_def demo_env_def)

text \<open>
  An upload with retries and a cancellation test that does not touch the service:
  when it returns success, the object is stored with exactly these bytes; when it fails
  or is cancelled, the store is unchanged but for this object, which may have been
  stored where there was none. Heads are never touched.
\<close>

theorem s3_upload_safe:
  assumes "s3_service env cf sview ok" "ok s" "valid_id v"
    and "\<forall>s. ok s \<longrightarrow> ok (snd (cancel s)) \<and> sview (snd (cancel s)) = sview s"
  shows "post (s3_put_chunk_cancellable env cf v d b cancel)
    (\<lambda>_ s'. s3_heads cf sview s' = s3_heads cf sview s \<and> s3_objs cf sview s' v d = Some b
       \<and> s3_objs cf sview s' = put_obj (s3_objs cf sview s) v d b)
    (\<lambda>e s'. s3_heads cf sview s' = s3_heads cf sview s
       \<and> (s3_objs cf sview s' = s3_objs cf sview s
          \<or> s3_objs cf sview s v d = None \<and> s3_objs cf sview s' = put_obj (s3_objs cf sview s) v d b)) s"
proof -
  have "s3_service.quiet_cancel cf sview ok cancel"
    unfolding s3_service.quiet_cancel_def [OF assms(1)] using assms(4) s3_service.views_cong [OF assms(1)] by blast
  from s3_service.put_post [OF assms(1-3) this] show ?thesis
    by (rule post_mono) auto
qed

lemma demo_valid: "valid_id ''vm''" "valid_hash (replicate 64 (CHR ''0''))"
  by (simp_all add: valid_id_def valid_hash_def ascii_alphanumeric_def ascii_digit_def list_all_iff)

theorem s3_upload_safe_witness:
  "\<exists>s'. s3_put_chunk_cancellable demo_env demo_s3 ''vm'' (replicate 64 (CHR ''0'')) (zeros CHUNK_BYTES) never
      \<lparr>sv_objects = (\<lambda>_. None), sv_count = 0\<rparr> = (Ok (), s')
    \<and> s3_objs demo_s3 sv_objects s' ''vm'' (replicate 64 (CHR ''0'')) = Some (zeros CHUNK_BYTES)"
proof -
  let ?d = "replicate 64 (CHR ''0'')" and ?s = "\<lparr>sv_objects = (\<lambda>_. None), sv_count = 0\<rparr>"
  have "CHUNK_BYTES \<le> MAX_OBJECT_BYTES" by (simp add: CHUNK_BYTES_def MAX_OBJECT_BYTES_def)
  then have run: "\<exists>s'. s3_put_chunk_cancellable demo_env demo_s3 ''vm'' ?d (zeros CHUNK_BYTES) never ?s = (Ok (), s')"
    by (subst s3_put_chunk_cancellable_def, subst put_attempts.simps)
      (simp add: object_bounds_def demo_valid demo_env_def service_env_def put_attempt_def io_bind_def check_cancel_def never_def
        s3_key_def io_lift_def s3_request_def s3_request_headers_def service_send_def s3_condition_def service_reply_def io_return_def)
  have "s3_service demo_env demo_s3 sv_objects service_ok"
    unfolding demo_env_def by (rule service.s3_service_axioms)
  from s3_upload_safe [OF this _ demo_valid(1), of ?s never ?d "zeros CHUNK_BYTES"] run show ?thesis
    by (auto simp: service_ok_def never_def post_def)
qed

lemma list_items_sound:
  "list_items p after ks hs = Ok hs' \<Longrightarrow> bt_ok hs \<Longrightarrow>
   bt_ok hs' \<and> fst ` set hs' = fst ` set hs \<union> {h. p @ h \<in> set ks} \<and> length hs' = length hs + length ks
   \<and> (\<forall>h. p @ h \<in> set ks \<longrightarrow> valid_hash h \<and> (\<forall>a. after = Some a \<longrightarrow> a < h)) \<and> (\<forall>k \<in> set ks. \<exists>h. k = p @ h)"
proof (induction p after ks hs rule: list_items.induct)
  case (1 p after hs)
  then show ?case by simp
next
  case (2 p after k ks hs)
  from 2(2) obtain h where h: "strip_prefix p k = Some h" "valid_hash h" "\<forall>a. after = Some a \<longrightarrow> a < h" "bt_get hs h = None"
      "list_items p after ks (bt_insert h () hs) = Ok hs'"
    by (cases "strip_prefix p k") (auto split: option.splits if_splits simp: not_le)
  have k: "k = p @ h" using h(1) by (auto simp: strip_prefix_def split: if_splits) (metis append_take_drop_id)
  have len: "length (bt_insert h () hs) = Suc (length hs)"
    using h(4) by (induction h "()" hs rule: bt_insert.induct) (auto split: if_splits)
  have "\<not> (\<not> valid_hash h \<or> (case after of None \<Rightarrow> False | Some a \<Rightarrow> h \<le> a) \<or> bt_get hs h \<noteq> None)"
    using h by (auto split: option.splits simp: not_le)
  from 2(1) [OF h(1) this h(5)] 2(3) h k len show ?case
    by (auto simp: set_bt_insert)
qed

lemma list_items_keys:
  assumes "list_items p after ks [] = Ok hs"
  shows "set ks = (@) p ` set (map fst hs)" "length hs = length ks" "sorted_wrt (<) (map fst hs)"
    "\<And>h. h \<in> set (map fst hs) \<Longrightarrow> valid_hash h \<and> (\<forall>a. after = Some a \<longrightarrow> a < h)"
proof -
  note i = list_items_sound [OF assms bt_ok_Nil]
  then have dom: "set (map fst hs) = {h. p @ h \<in> set ks}" by simp
  have "k \<in> (@) p ` {h. p @ h \<in> set ks}" if "k \<in> set ks" for k
    using i that by fastforce
  then show "set ks = (@) p ` set (map fst hs)" unfolding dom by auto
  show "length hs = length ks" "sorted_wrt (<) (map fst hs)" using i by (simp_all add: bt_ok_def)
  show "valid_hash h \<and> (\<forall>a. after = Some a \<longrightarrow> a < h)" if "h \<in> set (map fst hs)" for h
    using i that unfolding dom by blast
qed

text \<open>
  A listing that the adapter accepts is a sorted page without duplicates of at most
  the requested length, of well-formed digests after the given one, and names exactly
  the objects of this volume that the service reported.
\<close>

theorem s3_list_sound:
  assumes "s3_list_chunks_after env cf volume after limit s = (Ok hashes, s')"
  shows "length hashes \<le> limit \<and> sorted_wrt (<) hashes \<and> (\<forall>h \<in> set hashes. valid_hash h \<and> (\<forall>a. after = Some a \<longrightarrow> a < h))
    \<and> (\<exists>bs list. e_parse_listing env bs = Some list
         \<and> set (l_keys list) = (\<lambda>h. s3_prefix cf @ ''/'' @ volume @ ''/chunks/'' @ h) ` set hashes)"
proof -
  let ?key = "\<lambda>h. s3_prefix cf @ ''/'' @ volume @ ''/chunks/'' @ h"
  let ?p = "s3_prefix cf @ ''/'' @ volume @ ''/chunks/''"
  define P where "P hashes \<longleftrightarrow> length hashes \<le> limit \<and> sorted_wrt (<) hashes
    \<and> (\<forall>h \<in> set hashes. valid_hash h \<and> (\<forall>a. after = Some a \<longrightarrow> a < h))
    \<and> (\<exists>bs list. e_parse_listing env bs = Some list \<and> set (l_keys list) = ?key ` set hashes)" for hashes
  have sound: "P (map fst hs)"
    if l: "e_parse_listing env bs = Some list" "length (l_keys list) \<le> limit" "list_items ?p after (l_keys list) [] = Ok hs"
    for list hs bs
  proof -
    note i = list_items_keys [OF l(3)]
    have "set (l_keys list) = ?key ` set (map fst hs)"
      unfolding i(1) by simp
    moreover have "valid_hash h \<and> (\<forall>a. after = Some a \<longrightarrow> a < h)" if "h \<in> set (map fst hs)" for h
      using i(4) that .
    moreover have "sorted_wrt (<) (map fst hs)" "length (map fst hs) \<le> limit"
      using i(2,3) l(2) by simp_all
    ultimately show ?thesis unfolding P_def using l(1) by blast
  qed
  have "post (s3_list_chunks_after env cf volume after limit) (\<lambda>hashes _. P hashes) (\<lambda>_ _. True) s"
    unfolding s3_list_chunks_after_def Let_def post_if post_throw post_bind post_lift
    by (auto simp: ok_or_def post_if post_throw post_bind post_lift post_return not_less simp del: append.simps
        split: option.split result.split intro!: post_any intro: sound)
  from post_run [OF this assms] show ?thesis unfolding P_def .
qed

text \<open>The page of a listing with one object.\<close>

definition demo_list_env :: "service_state s3_env" where
  "demo_list_env = demo_env\<lparr>e_query_url := (\<lambda>base ps. Some base),
     e_send := (\<lambda>_ _ _ _ s. (service_reply 200 None [], s)),
     e_parse_listing := (\<lambda>_. Some \<lparr>l_prefix = ''vm/disk/chunks/'', l_truncated = False,
        l_keys = [''vm/disk/chunks/'' @ replicate 64 (CHR ''0'')]\<rparr>)\<rparr>"

theorem s3_list_sound_witness:
  "s3_list_chunks_after demo_list_env demo_s3 ''disk'' None 5 \<lparr>sv_objects = (\<lambda>_. None), sv_count = 0\<rparr> =
     (Ok [replicate 64 (CHR ''0'')], \<lparr>sv_objects = (\<lambda>_. None), sv_count = 0\<rparr>)
   \<and> sorted_wrt (<) [replicate 64 (CHR ''0'')]"
proof -
  have "valid_id ''disk''" by (simp add: valid_id_def ascii_alphanumeric_def ascii_digit_def)
  then have run: "s3_list_chunks_after demo_list_env demo_s3 ''disk'' None 5 \<lparr>sv_objects = (\<lambda>_. None), sv_count = 0\<rparr> =
     (Ok [replicate 64 (CHR ''0'')], \<lparr>sv_objects = (\<lambda>_. None), sv_count = 0\<rparr>)"
    using demo_valid(2)
    by (simp add: s3_list_chunks_after_def Let_def demo_list_env_def demo_env_def service_env_def demo_s3_def io_bind_def
        io_lift_def io_return_def ok_or_def s3_request_def s3_request_headers_def service_reply_def read_bounded_def
        strip_prefix_def)
  show ?thesis
    using s3_list_sound [OF run] run by simp
qed

lemma check_reported_sound:
  "check_reported keys ks seen = Ok seen' \<Longrightarrow> bt_ok seen \<Longrightarrow> distinct ks \<and> (\<forall>k \<in> set ks. bt_get keys k \<noteq> None)
     \<and> bt_ok seen' \<and> fst ` set seen' = fst ` set seen \<union> set ks \<and> (\<forall>k \<in> set ks. bt_get seen k = None)"
proof (induction keys ks seen rule: check_reported.induct)
  case (1 keys seen)
  then show ?case by simp
next
  case (2 keys k ks seen)
  then show ?case by (auto simp: set_bt_insert split: if_splits)
qed

lemma key_set_keys: "fst ` set (fold (\<lambda>k. bt_insert k ()) ks m) = set ks \<union> fst ` set m"
  by (induction ks arbitrary: m) (auto simp: set_bt_insert)

text \<open>
  A batch deletion that reports success was acknowledged completely: the keys that
  the service reports as deleted are exactly those of the requested objects of this
  volume, each once, and no error was reported.
\<close>

theorem s3_delete_acknowledged:
  assumes "s3_delete_chunks env cf volume hashes s = (Ok (), s')"
  shows "hashes = [] \<or> (\<exists>bs d. e_parse_deletion env bs = Some d \<and> d_errors d = [] \<and> distinct (d_deleted d)
      \<and> set (d_deleted d) = (\<lambda>h. s3_prefix cf @ ''/'' @ volume @ ''/chunks/'' @ h) ` set hashes)"
proof (cases "hashes = []")
  case False
  let ?key = "\<lambda>h. s3_prefix cf @ ''/'' @ volume @ ''/chunks/'' @ h"
  define P where "P \<longleftrightarrow> (\<exists>bs d. e_parse_deletion env bs = Some d \<and> d_errors d = [] \<and> distinct (d_deleted d)
    \<and> set (d_deleted d) = ?key ` set hashes)"
  define keys where "keys = key_set (map ?key hashes)"
  have keys: "fst ` set keys = ?key ` set hashes"
    by (simp add: keys_def key_set_def key_set_keys)
  have sound: P if "e_parse_deletion env bs = Some d" "d_errors d = []" "check_reported keys (d_deleted d) [] = Ok keys" for d bs
    using check_reported_sound [OF that(3) bt_ok_Nil] that(1,2) keys by (auto simp: P_def)
  have "post (s3_delete_chunks env cf volume hashes) (\<lambda>_ _. P) (\<lambda>_ _. True) s"
    unfolding s3_delete_chunks_def Let_def keys_def [symmetric] post_if post_throw post_bind post_lift
    using False
    by (auto simp: ok_or_def post_if post_throw post_bind post_lift post_return
        split: option.split result.split intro!: post_any dest: sound)
  from post_run [OF this assms] show ?thesis unfolding P_def by blast
qed simp

definition demo_delete_env :: "service_state s3_env" where
  "demo_delete_env = demo_env\<lparr>e_send := (\<lambda>_ _ _ _ s. (service_reply 200 None [], s)),
     e_parse_deletion := (\<lambda>_. Some \<lparr>d_deleted = [''vm/disk/chunks/'' @ replicate 64 (CHR ''0'')], d_errors = []\<rparr>)\<rparr>"

theorem s3_delete_acknowledged_witness:
  "s3_delete_chunks demo_delete_env demo_s3 ''disk'' [replicate 64 (CHR ''0'')] \<lparr>sv_objects = (\<lambda>_. None), sv_count = 0\<rparr> =
     (Ok (), \<lparr>sv_objects = (\<lambda>_. None), sv_count = 0\<rparr>)
   \<and> (\<exists>bs d. e_parse_deletion demo_delete_env bs = Some d \<and> d_errors d = [])"
proof -
  have "valid_id ''disk''" by (simp add: valid_id_def ascii_alphanumeric_def ascii_digit_def)
  then have run: "s3_delete_chunks demo_delete_env demo_s3 ''disk'' [replicate 64 (CHR ''0'')] \<lparr>sv_objects = (\<lambda>_. None), sv_count = 0\<rparr> =
     (Ok (), \<lparr>sv_objects = (\<lambda>_. None), sv_count = 0\<rparr>)"
    using demo_valid(2)
    by (simp add: s3_delete_chunks_def Let_def demo_delete_env_def demo_env_def service_env_def demo_s3_def io_bind_def
        io_lift_def io_return_def ok_or_def s3_request_headers_def service_reply_def read_bounded_def key_set_def)
  show ?thesis
    using s3_delete_acknowledged [OF run] run by auto
qed

end
