(* ===== verification/Nbd.thy ===== *)
theory Nbd
  imports Memory_Store
begin

text \<open>
  The NBD transport (\<open>rust/ahvm-volume/src/nbd.rs\<close>): the option handshake and the
  request loop of one client over a byte stream, in front of any disk. The disk is a
  record of operations, as the code takes a trait; \<open>volume_disk\<close> is the
  implementation for volumes. The lemmas show that requests are executed one by one in
  the order received, each with exactly one reply that echoes its cookie, and that
  invalid requests never reach the disk.
\<close>

section \<open>Streams\<close>

text \<open>
  What the peer has sent and not yet been read, what was written to it, and after how
  many more bytes, if ever, the connection breaks.
\<close>

record nstream =
  n_in :: bytes
  n_out :: bytes
  n_room :: "nat option"

datatype nbd_error = Invalid_Data | Stream_Error

definition nread_exact :: "nat \<Rightarrow> (nstream, bytes, nbd_error) io" where
  "nread_exact n st =
     (if length (n_in st) < n then (Err Stream_Error, st\<lparr>n_in := []\<rparr>)
      else (Ok (take n (n_in st)), st\<lparr>n_in := drop n (n_in st)\<rparr>))"

definition nwrite_all :: "bytes \<Rightarrow> (nstream, unit, nbd_error) io" where
  "nwrite_all bs st =
     (case n_room st of
        None \<Rightarrow> (Ok (), st\<lparr>n_out := n_out st @ bs\<rparr>)
      | Some room \<Rightarrow>
          if room < length bs then (Err Stream_Error, st\<lparr>n_out := n_out st @ take room bs, n_room := Some 0\<rparr>)
          else (Ok (), st\<lparr>n_out := n_out st @ bs, n_room := Some (room - length bs)\<rparr>))"

definition u16_at :: "bytes \<Rightarrow> nat \<Rightarrow> nat" where "u16_at bs at = be_nat (slice_of bs at (at + 2))"
definition u32_at :: "bytes \<Rightarrow> nat \<Rightarrow> nat" where "u32_at bs at = be_nat (slice_of bs at (at + 4))"
definition u64_at :: "bytes \<Rightarrow> nat \<Rightarrow> nat" where "u64_at bs at = be_nat (slice_of bs at (at + 8))"

section \<open>The disk\<close>

record 's disk =
  d_size :: "'s \<Rightarrow> nat"
  d_read :: "nat \<Rightarrow> bytes \<Rightarrow> ('s, bytes, verror) io"
  d_write :: "nat \<Rightarrow> bytes \<Rightarrow> ('s, unit, verror) io"
  d_flush :: "('s, unit, verror) io"

definition volume_disk :: "manifest codec \<Rightarrow> 's object_store \<Rightarrow> (volume \<times> 's) disk" where
  "volume_disk cd os = \<lparr>
     d_size = (\<lambda>(vol, s). volume_size vol),
     d_read = (\<lambda>offset buf (vol, s). case volume_read cd os vol offset buf s of (r, s') \<Rightarrow> (r, vol, s')),
     d_write = volume_write cd os,
     d_flush = io_bind (volume_commit cd os) (\<lambda>_. io_return ())\<rparr>"

section \<open>The handshake\<close>

definition MAX_REQUEST :: nat where "MAX_REQUEST = 32 * 1024 * 1024"
definition OPT_MAGIC :: nat where "OPT_MAGIC = 0x49484156454f5054"
definition FLAGS :: nat where "FLAGS = 13"

definition option_reply :: "nat \<Rightarrow> nat \<Rightarrow> bytes \<Rightarrow> (nstream, unit, nbd_error) io" where
  "option_reply opt kind data =
     io_bind (nwrite_all (be_bytes 8 0x3e889045565a9)) (\<lambda>_.
     io_bind (nwrite_all (be_bytes 4 opt)) (\<lambda>_.
     io_bind (nwrite_all (be_bytes 4 kind)) (\<lambda>_.
     io_bind (nwrite_all (be_bytes 4 (length data))) (\<lambda>_. nwrite_all data))))"

text \<open>
  One option: \<open>Some b\<close> ends the handshake with that result, \<open>None\<close> goes on. Bits of
  the client flags are tested on the number.
\<close>

definition handshake_option :: "nat \<Rightarrow> nat \<Rightarrow> nat \<Rightarrow> bytes \<Rightarrow> (nstream, bool option, nbd_error) io" where
  "handshake_option sz flags opt data =
     (if opt = 1 then
        (if data \<noteq> [] then io_throw Invalid_Data
         else
           io_bind (nwrite_all (be_bytes 8 sz)) (\<lambda>_.
           io_bind (nwrite_all (be_bytes 2 FLAGS)) (\<lambda>_.
           io_bind (if (flags div 2) mod 2 = 0 then nwrite_all (zeros 124) else io_return ()) (\<lambda>_.
             io_return (Some True)))))
      else if opt = 2 \<and> data = [] then
        io_bind (option_reply opt 1 []) (\<lambda>_. io_return (Some False))
      else if opt = 6 \<or> opt = 7 then
        (if length data < 6 then io_throw Invalid_Data
         else
           (let name_len = u32_at data 0 in
            if name_len > length data - 6 then io_throw Invalid_Data
            else
              (let n = u16_at data (4 + name_len) in
               if length data \<noteq> 6 + name_len + 2 * n then io_throw Invalid_Data
               else if name_len \<noteq> 0 then
                 io_bind (option_reply opt 0x80000006 []) (\<lambda>_. io_return None)
               else
                 io_bind (option_reply opt 3 (be_bytes 2 0 @ be_bytes 8 sz @ be_bytes 2 FLAGS)) (\<lambda>_.
                 io_bind (option_reply opt 3 (be_bytes 2 3 @ be_bytes 4 512 @ be_bytes 4 65536 @ be_bytes 4 MAX_REQUEST)) (\<lambda>_.
                 io_bind (option_reply opt 1 []) (\<lambda>_.
                   io_return (if opt = 7 then Some True else None)))))))
      else io_bind (option_reply opt 0x80000001 []) (\<lambda>_. io_return None))"

fun handshake_options :: "nat \<Rightarrow> nat \<Rightarrow> nat \<Rightarrow> (nstream, bool, nbd_error) io" where
  "handshake_options 0 sz flags = io_throw Invalid_Data"
| "handshake_options (Suc n) sz flags =
     io_bind (nread_exact 16) (\<lambda>header.
       if u64_at header 0 \<noteq> OPT_MAGIC then io_throw Invalid_Data
       else
         (let opt = u32_at header 8; len = u32_at header 12 in
          if len > 4096 then io_throw Invalid_Data
          else
            io_bind (nread_exact len) (\<lambda>data.
            io_bind (handshake_option sz flags opt data) (\<lambda>r.
              case r of Some b \<Rightarrow> io_return b | None \<Rightarrow> handshake_options n sz flags))))"

definition handshake :: "nat \<Rightarrow> (nstream, bool, nbd_error) io" where
  "handshake sz =
     io_bind (nwrite_all (be_bytes 8 0x4e42444d41474943)) (\<lambda>_.
     io_bind (nwrite_all (be_bytes 8 OPT_MAGIC)) (\<lambda>_.
     io_bind (nwrite_all (be_bytes 2 3)) (\<lambda>_.
     io_bind (nread_exact 4) (\<lambda>client.
       (let flags = be_nat client in
        if flags div 4 \<noteq> 0 \<or> flags mod 2 = 0 then io_throw Invalid_Data
        else handshake_options 32 sz flags)))))"

section \<open>Requests\<close>

definition nbd_valid :: "nat \<Rightarrow> nat \<Rightarrow> nat \<Rightarrow> nat \<Rightarrow> nat \<Rightarrow> bool" where
  "nbd_valid sz command flags offset len =
     (if command = 0 \<or> command = 1 then
        (if command = 1 then flags div 2 = 0 else flags = 0)
        \<and> len > 0 \<and> len mod 512 = 0 \<and> offset mod 512 = 0
        \<and> (case checked_add offset len of None \<Rightarrow> False | Some e \<Rightarrow> e \<le> sz)
      else if command = 3 then flags = 0 \<and> offset = 0 \<and> len = 0
      else False)"

text \<open>The disk operation of a request; the result is the data of the reply.\<close>

definition run_command :: "'s disk \<Rightarrow> nat \<Rightarrow> nat \<Rightarrow> nat \<Rightarrow> bytes \<Rightarrow> ('s, bytes, verror) io" where
  "run_command dk command flags offset data = (\<lambda>s.
     if \<not> nbd_valid (d_size dk s) command flags offset (length data) then (Err InvalidInput, s)
     else if command = 0 then d_read dk offset data s
     else if command = 1 then
       io_bind (d_write dk offset data) (\<lambda>_.
       io_bind (if flags mod 2 \<noteq> 0 then d_flush dk else io_return ()) (\<lambda>_. io_return data)) s
     else io_bind (d_flush dk) (\<lambda>_. io_return data) s)"

definition errno_of :: "('a, verror) result \<Rightarrow> nat" where
  "errno_of r = (case r of Ok _ \<Rightarrow> 0 | Err InvalidInput \<Rightarrow> 22 | Err _ \<Rightarrow> 5)"

definition reply_bytes :: "nat \<Rightarrow> bytes \<Rightarrow> (bytes, verror) result \<Rightarrow> bytes list" where
  "reply_bytes command cookie r =
     [be_bytes 4 0x67446698, be_bytes 4 (errno_of r), cookie]
     @ (case r of Ok data \<Rightarrow> if command = 0 then [data] else [] | Err _ \<Rightarrow> [])"

fun nwrite_parts :: "bytes list \<Rightarrow> (nstream, unit, nbd_error) io" where
  "nwrite_parts [] = io_return ()"
| "nwrite_parts (p # ps) = io_bind (nwrite_all p) (\<lambda>_. nwrite_parts ps)"

text \<open>
  One turn of the loop: \<open>Inl r\<close> ends the service, \<open>Inr\<close> goes on with the new stream
  and disk.
\<close>

definition serve_one :: "'s disk \<Rightarrow> nstream \<times> 's \<Rightarrow> (unit, nbd_error) result option \<times> nstream \<times> 's" where
  "serve_one dk = (\<lambda>(st, s).
     (case nread_exact 28 st of
        (Err e, st1) \<Rightarrow> (Some (Err e), st1, s)
      | (Ok header, st1) \<Rightarrow>
          (let flags = u16_at header 4; command = u16_at header 6;
               offset = u64_at header 16; len = u32_at header 24 in
           if u32_at header 0 \<noteq> 0x25609513 then (Some (Err Invalid_Data), st1, s)
           else if len > MAX_REQUEST then (Some (Err Invalid_Data), st1, s)
           else if command = 2 then (Some (Ok ()), st1, s)
           else
             (case (if command = 1 then nread_exact len st1 else (Ok (zeros len), st1)) of
                (Err e, st2) \<Rightarrow> (Some (Err e), st2, s)
              | (Ok data, st2) \<Rightarrow>
                  (case run_command dk command flags offset data s of
                     (r, s') \<Rightarrow>
                       (case nwrite_parts (reply_bytes command (slice_of header 8 16) r) st2 of
                          (Err e, st3) \<Rightarrow> (Some (Err e), st3, s')
                        | (Ok _, st3) \<Rightarrow> (None, st3, s')))))))"

lemma n_in_write: "nwrite_all bs st = (r, st') \<Longrightarrow> n_in st' = n_in st"
  by (auto simp: nwrite_all_def split: option.splits if_splits)

lemma n_in_parts: "nwrite_parts ps st = (r, st') \<Longrightarrow> n_in st' = n_in st"
proof (induction ps arbitrary: st)
  case Nil
  then show ?case by (simp add: io_return_def)
next
  case (Cons p ps)
  show ?case
    using Cons.prems Cons.IH by (auto simp: io_bind_def split: prod.splits result.splits dest!: n_in_write)
qed

lemma serve_one_consumes:
  assumes "serve_one dk (st, s) = (None, st', s')"
  shows "length (n_in st') < length (n_in st)"
proof -
  have r: "length (n_in st1) \<le> length (n_in st) - n \<and> n \<le> length (n_in st)"
    if "nread_exact n st = (Ok x, st1)" for n x st st1
    using that by (auto simp: nread_exact_def split: if_splits)
  show ?thesis
    using assms
    by (fastforce simp: serve_one_def Let_def split: prod.splits result.splits if_splits dest: r n_in_parts)
qed

function serve_loop :: "'s disk \<Rightarrow> nstream \<times> 's \<Rightarrow> (unit, nbd_error) result \<times> nstream \<times> 's" where
  "serve_loop dk w =
     (case serve_one dk w of
        (Some r, w') \<Rightarrow> (r, w')
      | (None, w') \<Rightarrow> serve_loop dk w')"
  by pat_completeness auto
termination
proof (relation "measure (\<lambda>(dk, st, s). length (n_in st))", goal_cases)
  case (2 dk w x w')
  obtain st s st' s' where w: "w = (st, s)" "w' = (st', s')" by (metis surj_pair)
  have "length (n_in st') < length (n_in st)"
    by (rule serve_one_consumes [of dk st s st' s']) (use 2 w in auto)
  with w show ?case by simp
qed simp

declare serve_loop.simps [simp del]

definition serve :: "'s disk \<Rightarrow> nstream \<times> 's \<Rightarrow> (unit, nbd_error) result \<times> nstream \<times> 's" where
  "serve dk = (\<lambda>(st, s).
     (case handshake (d_size dk s) st of
        (Err e, st') \<Rightarrow> (Err e, st', s)
      | (Ok False, st') \<Rightarrow> (Ok (), st', s)
      | (Ok True, st') \<Rightarrow> serve_loop dk (st', s)))"

section \<open>Sessions\<close>

text \<open>A request as the client means it, its encoding, and what the server does with it.\<close>

record nbd_request =
  q_flags :: nat
  q_command :: nat
  q_cookie :: bytes
  q_offset :: nat
  q_len :: nat
  q_data :: bytes

definition encode_request :: "nbd_request \<Rightarrow> bytes" where
  "encode_request q = be_bytes 4 0x25609513 @ be_bytes 2 (q_flags q) @ be_bytes 2 (q_command q) @ q_cookie q
     @ be_bytes 8 (q_offset q) @ be_bytes 4 (q_len q) @ (if q_command q = 1 then q_data q else [])"

definition request_wf :: "nbd_request \<Rightarrow> bool" where
  "request_wf q \<longleftrightarrow> q_flags q < 2 ^ 16 \<and> q_command q < 2 ^ 16 \<and> length (q_cookie q) = 8 \<and> q_offset q < 2 ^ 64
     \<and> q_len q \<le> MAX_REQUEST \<and> (q_command q = 1 \<longrightarrow> length (q_data q) = q_len q)"

definition exec_request :: "'s disk \<Rightarrow> nbd_request \<Rightarrow> 's \<Rightarrow> bytes \<times> 's" where
  "exec_request dk q s =
     (case run_command dk (q_command q) (q_flags q) (q_offset q) (if q_command q = 1 then q_data q else zeros (q_len q)) s of
        (r, s') \<Rightarrow> (concat (reply_bytes (q_command q) (q_cookie q) r), s'))"

fun exec_requests :: "'s disk \<Rightarrow> nbd_request list \<Rightarrow> 's \<Rightarrow> bytes \<times> 's" where
  "exec_requests dk [] s = ([], s)"
| "exec_requests dk (q # qs) s =
     (case exec_request dk q s of (out, s') \<Rightarrow>
        (case exec_requests dk qs s' of (out', s'') \<Rightarrow> (out @ out', s'')))"

lemma MAX_REQUEST_less: "n \<le> MAX_REQUEST \<Longrightarrow> n < 4294967296"
  by (simp add: MAX_REQUEST_def)

lemma header_fields:
  assumes "request_wf q"
  defines "header \<equiv> be_bytes 4 0x25609513 @ be_bytes 2 (q_flags q) @ be_bytes 2 (q_command q) @ q_cookie q
     @ be_bytes 8 (q_offset q) @ be_bytes 4 (q_len q)"
  shows "length header = 28" "u32_at header 0 = 0x25609513" "u16_at header 4 = q_flags q" "u16_at header 6 = q_command q"
    "slice_of header 8 16 = q_cookie q" "u64_at header 16 = q_offset q" "u32_at header 24 = q_len q"
  using assms(1) MAX_REQUEST_less [of "q_len q"]
  by (simp_all add: header_def request_wf_def u16_at_def u32_at_def u64_at_def slice_of_def be_nat_bytes)

lemma nwrite_parts_open:
  "n_room st = None \<Longrightarrow> nwrite_parts ps st = (Ok (), st\<lparr>n_out := n_out st @ concat ps\<rparr>)"
  by (induction ps arbitrary: st) (simp_all add: io_return_def io_bind_def nwrite_all_def)

lemma nread_exact_append:
  "length a = n \<Longrightarrow> n_in st = a @ b \<Longrightarrow> nread_exact n st = (Ok a, st\<lparr>n_in := b\<rparr>)"
  by (simp add: nread_exact_def)

lemma serve_one_request:
  assumes wf: "request_wf q" "q_command q \<noteq> 2" and st: "n_room st = None" "n_in st = encode_request q @ rest"
  shows "serve_one dk (st, s) =
    (case exec_request dk q s of (out, s') \<Rightarrow> (None, st\<lparr>n_in := rest, n_out := n_out st @ out\<rparr>, s'))"
proof -
  define header where "header = be_bytes 4 0x25609513 @ be_bytes 2 (q_flags q) @ be_bytes 2 (q_command q) @ q_cookie q
     @ be_bytes 8 (q_offset q) @ be_bytes 4 (q_len q)"
  define payload where "payload = (if q_command q = 1 then q_data q else [])"
  note h = header_fields [OF wf(1), folded header_def]
  have "n_in st = header @ payload @ rest"
    using st(2) by (simp add: encode_request_def header_def payload_def)
  then have r1: "nread_exact 28 st = (Ok header, st\<lparr>n_in := payload @ rest\<rparr>)"
    using h(1) by (intro nread_exact_append) auto
  have len: "q_len q \<le> MAX_REQUEST" using wf(1) by (simp add: request_wf_def)
  let ?data = "if q_command q = 1 then q_data q else zeros (q_len q)"
  have r2: "(if q_command q = 1 then nread_exact (q_len q) (st\<lparr>n_in := payload @ rest\<rparr>)
      else (Ok (zeros (q_len q)), st\<lparr>n_in := payload @ rest\<rparr>)) = (Ok ?data, st\<lparr>n_in := rest\<rparr>)"
    using wf(1) by (auto simp: payload_def request_wf_def nread_exact_append)
  obtain r s' where run: "run_command dk (q_command q) (q_flags q) (q_offset q) ?data s = (r, s')" by force
  have w: "nwrite_parts (reply_bytes (q_command q) (q_cookie q) r) (st\<lparr>n_in := rest\<rparr>) =
      (Ok (), st\<lparr>n_in := rest, n_out := n_out st @ concat (reply_bytes (q_command q) (q_cookie q) r)\<rparr>)"
    using st(1) by (simp add: nwrite_parts_open)
  show ?thesis
    unfolding serve_one_def Let_def prod.case r1 result.case h r2 exec_request_def run w
    using wf(2) len by simp
qed

lemma serve_loop_requests:
  assumes "\<forall>q \<in> set qs. request_wf q \<and> q_command q \<noteq> 2" "n_room st = None"
    "n_in st = concat (map encode_request qs) @ rest" "exec_requests dk qs s = (out, s')"
  shows "serve_loop dk (st, s) = serve_loop dk (st\<lparr>n_in := rest, n_out := n_out st @ out\<rparr>, s')"
  using assms
proof (induction qs arbitrary: st s out)
  case Nil
  then show ?case by (cases st) simp
next
  case (Cons q qs)
  obtain o1 s1 o2 where ex: "exec_request dk q s = (o1, s1)" "exec_requests dk qs s1 = (o2, s')" "out = o1 @ o2"
    using Cons.prems(4) by (auto split: prod.splits)
  let ?st = "st\<lparr>n_in := concat (map encode_request qs) @ rest, n_out := n_out st @ o1\<rparr>"
  have "serve_one dk (st, s) = (None, ?st, s1)"
    using serve_one_request [of q st "concat (map encode_request qs) @ rest" dk s] Cons.prems(1-3) ex(1) by simp
  then have "serve_loop dk (st, s) = serve_loop dk (?st, s1)"
    by (subst serve_loop.simps) simp
  also have "\<dots> = serve_loop dk (?st\<lparr>n_in := rest, n_out := n_out ?st @ o2\<rparr>, s')"
    using Cons.prems ex(2) by (intro Cons.IH) auto
  finally show ?case using ex(3) by simp
qed

subsection \<open>Opening\<close>

definition greeting :: bytes where
  "greeting = be_bytes 8 0x4e42444d41474943 @ be_bytes 8 OPT_MAGIC @ be_bytes 2 3"

definition option_bytes :: "nat \<Rightarrow> nat \<Rightarrow> bytes \<Rightarrow> bytes" where
  "option_bytes opt kind data =
     be_bytes 8 0x3e889045565a9 @ be_bytes 4 opt @ be_bytes 4 kind @ be_bytes 4 (length data) @ data"

text \<open>A client that opens the unnamed export with \<open>NBD_OPT_GO\<close>, and the answer.\<close>

definition client_go :: bytes where
  "client_go = be_bytes 4 3 @ be_bytes 8 OPT_MAGIC @ be_bytes 4 7 @ be_bytes 4 6 @ zeros 6"

definition go_reply :: "nat \<Rightarrow> bytes" where
  "go_reply sz = option_bytes 7 3 (be_bytes 2 0 @ be_bytes 8 sz @ be_bytes 2 FLAGS)
     @ option_bytes 7 3 (be_bytes 2 3 @ be_bytes 4 512 @ be_bytes 4 65536 @ be_bytes 4 MAX_REQUEST)
     @ option_bytes 7 1 []"

lemma nwrite_open: "n_room st = None \<Longrightarrow> nwrite_all bs st = (Ok (), st\<lparr>n_out := n_out st @ bs\<rparr>)"
  by (simp add: nwrite_all_def)

lemma option_reply_open:
  "n_room st = None \<Longrightarrow> option_reply opt kind data st = (Ok (), st\<lparr>n_out := n_out st @ option_bytes opt kind data\<rparr>)"
  by (simp add: option_reply_def io_bind_def nwrite_open option_bytes_def)

lemma be_nat_zeros [simp]: "be_nat (zeros n) = 0"
proof (induction n)
  case (Suc n)
  have "zeros (Suc n) = zeros n @ [0]" by (simp add: zeros_def replicate_append_same)
  with Suc show ?case by simp
qed (simp add: zeros_def)

lemma stream_comm: "st\<lparr>n_out := a, n_in := b\<rparr> = st\<lparr>n_in := b, n_out := a\<rparr>"
  by simp

lemma handshake_go:
  assumes "n_room st = None" "n_in st = client_go @ rest"
  shows "handshake sz st = (Ok True, st\<lparr>n_in := rest, n_out := n_out st @ greeting @ go_reply sz\<rparr>)"
proof -
  let ?h = "be_bytes 8 OPT_MAGIC @ be_bytes 4 7 @ be_bytes 4 6"
  define st1 where "st1 = st\<lparr>n_in := ?h @ zeros 6 @ rest, n_out := n_out st @ greeting\<rparr>"
  have f: "be_nat (be_bytes 4 3) = 3" by (simp add: be_nat_bytes)
  have "handshake sz st = handshake_options 32 sz 3 st1"
    using assms
    by (simp add: handshake_def io_bind_def nwrite_open Let_def client_go_def greeting_def st1_def f
        nread_exact_append [of "be_bytes 4 3" 4] stream_comm)
  also have "\<dots> = handshake_options (Suc 31) sz 3 st1" by simp
  also have "\<dots> = (Ok True, st\<lparr>n_in := rest, n_out := n_out st @ greeting @ go_reply sz\<rparr>)"
  proof -
    have h: "u64_at ?h 0 = OPT_MAGIC" "u32_at ?h 8 = 7" "u32_at ?h 12 = 6"
      by (simp_all add: u64_at_def u32_at_def slice_of_def be_nat_bytes OPT_MAGIC_def)
    have r1: "nread_exact 16 st1 = (Ok ?h, st1\<lparr>n_in := zeros 6 @ rest\<rparr>)"
      by (rule nread_exact_append) (simp_all add: st1_def)
    have r2: "nread_exact 6 (st1\<lparr>n_in := zeros 6 @ rest\<rparr>) = (Ok (zeros 6), st1\<lparr>n_in := rest\<rparr>)"
      by (simp add: nread_exact_append [of "zeros 6" 6])
    have z: "u32_at (zeros 6) 0 = 0" "u16_at (zeros 6) 4 = 0"
      by (simp_all add: u32_at_def u16_at_def)
    have opt: "handshake_option sz 3 7 (zeros 6) (st1\<lparr>n_in := rest\<rparr>) =
        (Ok (Some True), st1\<lparr>n_in := rest, n_out := n_out st1 @ go_reply sz\<rparr>)"
      using assms(1)
      by (simp add: handshake_option_def Let_def z io_bind_def option_reply_open st1_def io_return_def go_reply_def)
    show ?thesis
      unfolding handshake_options.simps
      using r1 h r2 opt by (simp add: io_bind_def Let_def io_return_def st1_def)
  qed
  finally show ?thesis .
qed

section \<open>Properties\<close>

text \<open>
  C29. A session: a client opens the export and sends any requests, reads, writes with and
  without forced unit access, flushes and unknown commands among them, and then
  disconnects. The server executes them one after the other in that order and answers
  each exactly once with its own cookie, an error number and, for a successful read, the
  data; then it ends without error. It advertises the size of the disk.
\<close>

theorem nbd_session:
  assumes "n_room st = None" "\<forall>q \<in> set qs. request_wf q \<and> q_command q \<noteq> 2"
    and "request_wf bye" "q_command bye = 2"
    and "n_in st = client_go @ concat (map encode_request qs) @ encode_request bye @ rest"
    and "exec_requests dk qs s = (out, s')"
  shows "serve dk (st, s) =
    (Ok (), st\<lparr>n_in := rest, n_out := n_out st @ greeting @ go_reply (d_size dk s) @ out\<rparr>, s')"
proof -
  let ?st1 = "st\<lparr>n_in := concat (map encode_request qs) @ encode_request bye @ rest, n_out := n_out st @ greeting @ go_reply (d_size dk s)\<rparr>"
  let ?st2 = "?st1\<lparr>n_in := encode_request bye @ rest, n_out := n_out ?st1 @ out\<rparr>"
  have "serve dk (st, s) = serve_loop dk (?st1, s)"
    using handshake_go [of st "concat (map encode_request qs) @ encode_request bye @ rest" "d_size dk s"] assms(1,5)
    by (simp add: serve_def)
  also have "\<dots> = serve_loop dk (?st2, s')"
    using assms by (intro serve_loop_requests) auto
  also have "\<dots> = (Ok (), ?st2\<lparr>n_in := rest\<rparr>, s')"
  proof -
    note h = header_fields [OF assms(3)]
    have "nread_exact 28 ?st2 = (Ok (be_bytes 4 0x25609513 @ be_bytes 2 (q_flags bye) @ be_bytes 2 (q_command bye) @ q_cookie bye
     @ be_bytes 8 (q_offset bye) @ be_bytes 4 (q_len bye)), ?st2\<lparr>n_in := rest\<rparr>)"
      using h(1) assms(4) by (intro nread_exact_append) (simp_all add: encode_request_def)
    then have "serve_one dk (?st2, s') = (Some (Ok ()), ?st2\<lparr>n_in := rest\<rparr>, s')"
      using h assms(3,4) by (simp add: serve_one_def Let_def request_wf_def)
    then show ?thesis by (subst serve_loop.simps) simp
  qed
  finally show ?thesis by simp
qed

text \<open>A disk in memory.\<close>

definition ram_disk :: "bytes disk" where
  "ram_disk = \<lparr>d_size = length,
     d_read = (\<lambda>offset buf s. (Ok (slice_of s offset (offset + length buf)), s)),
     d_write = (\<lambda>offset data s. (Ok (), copy_at s offset data)),
     d_flush = (\<lambda>s. (Ok (), s))\<rparr>"

definition demo_read_request :: nbd_request where
  "demo_read_request = \<lparr>q_flags = 0, q_command = 0, q_cookie = [1, 2, 3, 4, 5, 6, 7, 8], q_offset = 512, q_len = 512, q_data = []\<rparr>"

definition demo_bye :: nbd_request where
  "demo_bye = \<lparr>q_flags = 0, q_command = 2, q_cookie = zeros 8, q_offset = 0, q_len = 0, q_data = []\<rparr>"

theorem nbd_session_witness:
  "serve ram_disk (\<lparr>n_in = client_go @ encode_request demo_read_request @ encode_request demo_bye, n_out = [], n_room = None\<rparr>, zeros 1024) =
    (Ok (), \<lparr>n_in = [], n_out = greeting @ go_reply 1024
       @ be_bytes 4 0x67446698 @ be_bytes 4 0 @ [1, 2, 3, 4, 5, 6, 7, 8] @ zeros 512, n_room = None\<rparr>, zeros 1024)"
proof -
  have wf: "request_wf demo_read_request" "request_wf demo_bye" "q_command demo_bye = 2" "q_command demo_read_request = 0"
    by (simp_all add: request_wf_def demo_read_request_def demo_bye_def MAX_REQUEST_def)
  have "exec_requests ram_disk [demo_read_request] (zeros 1024) =
      (be_bytes 4 0x67446698 @ be_bytes 4 0 @ [1, 2, 3, 4, 5, 6, 7, 8] @ zeros 512, zeros 1024)"
    by (simp add: exec_request_def run_command_def nbd_valid_def demo_read_request_def ram_disk_def checked_add_def U64_def
        reply_bytes_def errno_of_def)
  from nbd_session [OF _ _ wf(2,3) _ this, of "\<lparr>n_in = client_go @ encode_request demo_read_request @ encode_request demo_bye, n_out = [], n_room = None\<rparr>" "[]"]
  show ?thesis
    using wf by (simp add: ram_disk_def)
qed

definition in_range :: "'s disk \<Rightarrow> 's \<Rightarrow> nat \<Rightarrow> bytes \<Rightarrow> bool" where
  "in_range dk s offset data \<longleftrightarrow> data \<noteq> [] \<and> length data mod 512 = 0 \<and> offset mod 512 = 0
     \<and> offset + length data \<le> d_size dk s \<and> length data \<le> MAX_REQUEST"

lemma run_command_cong:
  assumes "d_size dk = d_size dk'" "d_flush dk = d_flush dk'" "length data \<le> MAX_REQUEST"
    and "\<And>offset data s. in_range dk s offset data \<Longrightarrow>
      d_read dk offset data s = d_read dk' offset data s \<and> d_write dk offset data s = d_write dk' offset data s"
  shows "run_command dk command flags offset data s = run_command dk' command flags offset data s"
proof (cases "nbd_valid (d_size dk s) command flags offset (length data) \<and> command < 2")
  case True
  then have c: "command = 0 \<or> command = 1" by auto
  with True have "in_range dk s offset data"
    using assms(3) by (auto simp: nbd_valid_def in_range_def split: if_splits option.splits)
  from assms(4) [OF this] c assms(1,2) show ?thesis
    by (auto simp: run_command_def io_bind_def split: prod.split result.split)
next
  case False
  with assms(1,2) show ?thesis by (auto simp: run_command_def nbd_valid_def)
qed

lemma serve_one_cong:
  assumes "\<And>command flags offset data s. length data \<le> MAX_REQUEST \<Longrightarrow>
      run_command dk command flags offset data s = run_command dk' command flags offset data s"
  shows "serve_one dk w = serve_one dk' w"
proof -
  have len: "length data = n" if "nread_exact n st = (Ok data, st')" for n st st' data
    using that by (auto simp: nread_exact_def split: if_splits)
  obtain st s where w: "w = (st, s)" by force
  obtain h st1 where r: "nread_exact 28 st = (h, st1)" by force
  show ?thesis
  proof (cases h)
    case (Err e)
    with w r show ?thesis by (simp add: serve_one_def)
  next
    case (Ok header)
    obtain d st2 where d: "(if u16_at header 6 = 1 then nread_exact (u32_at header 24) st1 else (Ok (zeros (u32_at header 24)), st1)) = (d, st2)"
      by force
    have "length data = u32_at header 24" if "d = Ok data" for data
      using d that len by (auto split: if_splits)
    then have "run_command dk c f x data s = run_command dk' c f x data s"
      if "d = Ok data" "u32_at header 24 \<le> MAX_REQUEST" for data c f x
      using that assms by simp
    then show ?thesis
      unfolding serve_one_def w prod.case r Ok result.case Let_def d
      by (cases d) auto
  qed
qed

lemma serve_loop_cong:
  assumes "\<And>w. serve_one dk w = serve_one dk' w"
  shows "serve_loop dk w = serve_loop dk' w"
proof (induction "length (n_in (fst w))" arbitrary: w rule: less_induct)
  case less
  obtain st s r st' s' where w: "w = (st, s)" and one: "serve_one dk (st, s) = (r, st', s')"
    by (metis prod_cases3 surj_pair)
  show ?case
  proof (cases r)
    case None
    then have "length (n_in st') < length (n_in st)"
      using one by (intro serve_one_consumes [of dk st s st' s']) simp
    then have "serve_loop dk (st', s') = serve_loop dk' (st', s')"
      by (intro less) (simp add: w)
    then show ?thesis
      using one assms None w by (subst (1 2) serve_loop.simps) simp
  next
    case (Some x)
    then show ?thesis
      using one assms w by (subst (1 2) serve_loop.simps) simp
  qed
qed

text \<open>
  Requests that are not aligned to sectors, not inside the disk, longer than the
  limit, of unknown kind or with flags that the command does not have never reach the
  disk: two disks that agree on flushes and on non-empty aligned reads and writes inside
  the disk of at most 32 MiB behave the same over every byte stream.
\<close>

theorem nbd_disk_calls_in_range:
  assumes "d_size dk = d_size dk'" "d_flush dk = d_flush dk'"
    and "\<And>offset data s. in_range dk s offset data \<Longrightarrow>
      d_read dk offset data s = d_read dk' offset data s \<and> d_write dk offset data s = d_write dk' offset data s"
  shows "serve dk = serve dk'"
proof
  fix w
  have "serve_one dk v = serve_one dk' v" for v
    by (rule serve_one_cong) (rule run_command_cong [OF assms(1,2) _ assms(3)], auto)
  then have "serve_loop dk v = serve_loop dk' v" for v
    by (rule serve_loop_cong)
  then show "serve dk w = serve dk' w"
    by (simp add: serve_def assms(1) split: prod.split result.split bool.split)
qed

text \<open>A disk that fails on every access outside its range is indistinguishable.\<close>

theorem nbd_disk_calls_in_range_witness:
  "serve ram_disk = serve (ram_disk\<lparr>
     d_read := (\<lambda>offset buf s. if in_range ram_disk s offset buf then d_read ram_disk offset buf s else (Err Panic, s)),
     d_write := (\<lambda>offset data s. if in_range ram_disk s offset data then d_write ram_disk offset data s else (Err Panic, s))\<rparr>)"
  by (rule nbd_disk_calls_in_range) auto

lemma reply_errno_0: "slice_of (concat (reply_bytes c cookie r)) 4 8 = be_bytes 4 0 \<Longrightarrow> \<exists>data. r = Ok data"
proof (rule ccontr)
  assume e: "slice_of (concat (reply_bytes c cookie r)) 4 8 = be_bytes 4 0" "\<nexists>data. r = Ok data"
  then obtain x where r: "r = Err x" by (cases r) auto
  then have "be_bytes 4 (errno_of r) = be_bytes 4 0"
    using e(1) by (simp add: reply_bytes_def slice_of_def)
  then have "be_nat (be_bytes 4 (errno_of r)) = be_nat (be_bytes 4 0)" by simp
  then show False
    using r by (cases x) (simp_all add: errno_of_def be_nat_bytes)
qed



end
