(* ===== verification/Base_Catalog.thy ===== *)
theory Base_Catalog
  imports Hash_Hex Memory_Store
begin

text \<open>
  The catalog of a shared base image (\<open>rust/ahvm-volume/src/base.rs\<close>): one 64 KiB
  object with the image identity, its size and the digests of up to 1024 index pages.
  Encoding and loading are shown to be inverse to each other, so a digest pins exactly
  one catalog.
\<close>

section \<open>Encoding\<close>

record base_ref =
  b_image :: string
  b_catalog :: string

record catalog =
  ct_size :: nat
  ct_pages :: "(nat, string) btree"

definition CATALOG_MAGIC :: bytes where
  "CATALOG_MAGIC = [0x41, 0x48, 0x56, 0x4d, 0x42, 0x53, 0x30, 0x31]"

definition HEADER :: nat where "HEADER = 48"
definition PAGES :: nat where "PAGES = 1024"
definition MAX_SIZE :: nat where "MAX_SIZE = 64 * 1024 * 1024 * 1024"

fun encode_pages :: "(nat, string) btree \<Rightarrow> bytes \<Rightarrow> (bytes, verror) result" where
  "encode_pages [] bs = Ok bs"
| "encode_pages ((page, hash) # pages) bs =
     (if PAGES \<le> page then Err InvalidInput
      else
        (let at = HEADER + page * 32 in
         res_bind (hash_decode hash) (\<lambda>raw. encode_pages pages (copy_at bs at raw))))"

definition catalog_encode :: "catalog \<Rightarrow> string \<Rightarrow> (bytes, verror) result" where
  "catalog_encode cat img =
     res_bind (hash_decode img) (\<lambda>raw.
       encode_pages (ct_pages cat)
         (copy_at (copy_at (copy_at (zeros CHUNK_BYTES) 0 CATALOG_MAGIC) 8 (be_bytes 8 (ct_size cat))) 16 raw))"

section \<open>Loading\<close>

definition page_raw :: "bytes \<Rightarrow> nat \<Rightarrow> bytes" where
  "page_raw bs i = slice_of bs (HEADER + i * 32) (HEADER + (i + 1) * 32)"

fun load_pages :: "bytes \<Rightarrow> nat \<Rightarrow> nat list \<Rightarrow> (nat, string) btree \<Rightarrow> ((nat, string) btree, verror) result" where
  "load_pages bs count [] pages = Ok pages"
| "load_pages bs count (i # is) pages =
     (let hash = page_raw bs i in
      if \<not> all_zero hash
      then (if count \<le> i then Err Corrupt else load_pages bs count is (bt_insert i (hex_string hash) pages))
      else load_pages bs count is pages)"

text \<open>The checks and the decoding of a fetched catalog object.\<close>

definition catalog_decode :: "(bytes \<Rightarrow> string) \<Rightarrow> base_ref \<Rightarrow> bytes \<Rightarrow> bytes \<Rightarrow> (catalog, verror) result" where
  "catalog_decode dg base raw_image bs =
     (if length bs \<noteq> CHUNK_BYTES \<or> dg bs \<noteq> b_catalog base \<or> slice_of bs 0 8 \<noteq> CATALOG_MAGIC
         \<or> slice_of bs 16 48 \<noteq> raw_image \<or> \<not> all_zero (drop (HEADER + PAGES * 32) bs)
      then Err Corrupt
      else
        (let sz = be_nat (slice_of bs 8 16) in
         if sz = 0 \<or> sz > MAX_SIZE \<or> sz mod CHUNK_BYTES \<noteq> 0 then Err Corrupt
         else
           (let count = div_ceil (sz div CHUNK_BYTES) 1024 in
            res_bind (load_pages bs count [0..<PAGES] []) (\<lambda>pages.
              Ok \<lparr>ct_size = sz, ct_pages = pages\<rparr>))))"

definition catalog_load :: "(bytes \<Rightarrow> string) \<Rightarrow> 's object_store \<Rightarrow> base_ref \<Rightarrow> ('s, catalog, verror) io" where
  "catalog_load dg os base =
     io_bind (io_lift (hash_decode (b_image base))) (\<lambda>raw.
     io_bind (io_lift (hash_decode (b_catalog base))) (\<lambda>_.
     io_bind (os_base_chunk os (b_image base) (b_catalog base) None) (\<lambda>bs.
       io_lift (catalog_decode dg base raw bs))))"

section \<open>What a catalog object contains\<close>

lemma HEADER_PAGES: "HEADER + PAGES * 32 = 32816" "32816 \<le> CHUNK_BYTES" "48 \<le> CHUNK_BYTES"
  by (simp_all add: HEADER_def PAGES_def CHUNK_BYTES_def)

lemma page_in_range: "i < PAGES \<Longrightarrow> HEADER + i * 32 + 32 \<le> 32816"
  by (simp add: HEADER_def PAGES_def)

lemma page_raw_length: "i < PAGES \<Longrightarrow> length bs = CHUNK_BYTES \<Longrightarrow> length (page_raw bs i) = 32"
  using page_in_range [of i] HEADER_PAGES by (simp add: page_raw_def)

text \<open>One page digest is written into its own slot.\<close>

lemma page_raw_copy:
  assumes "length bs = CHUNK_BYTES" "length raw = 32" "i < PAGES" "j < PAGES"
  shows "page_raw (copy_at bs (HEADER + i * 32) raw) j = (if j = i then raw else page_raw bs j)"
proof (cases "j = i")
  case True
  with assms page_in_range [of i] HEADER_PAGES show ?thesis
    using slice_of_copy_at_same [of "HEADER + i * 32" raw bs] by (simp add: page_raw_def add.commute add.left_commute)
next
  case False
  then have "HEADER + (j + 1) * 32 \<le> HEADER + i * 32 \<or> HEADER + i * 32 + length raw \<le> HEADER + j * 32"
    using assms(2) by auto
  with assms page_in_range [of i] page_in_range [of j] HEADER_PAGES False show ?thesis
    by (simp add: page_raw_def slice_of_copy_at_other)
qed

lemma header_copy:
  assumes "length bs = CHUNK_BYTES" "length raw = 32" "i < PAGES"
  shows "length (copy_at bs (HEADER + i * 32) raw) = CHUNK_BYTES"
    "b \<le> 48 \<Longrightarrow> slice_of (copy_at bs (HEADER + i * 32) raw) a b = slice_of bs a b"
    "drop 32816 (copy_at bs (HEADER + i * 32) raw) = drop 32816 bs"
proof -
  have r: "HEADER + i * 32 + length raw \<le> 32816" using assms page_in_range [of i] by simp
  with assms(1) HEADER_PAGES show l: "length (copy_at bs (HEADER + i * 32) raw) = CHUNK_BYTES" by simp
  show "slice_of (copy_at bs (HEADER + i * 32) raw) a b = slice_of bs a b" if "b \<le> 48"
    using that r assms(1) HEADER_PAGES by (intro slice_of_copy_at_other) (auto simp: HEADER_def)
  show "drop 32816 (copy_at bs (HEADER + i * 32) raw) = drop 32816 bs"
    using r assms(1) HEADER_PAGES l by (intro nth_equalityI) (auto simp: nth_copy_at)
qed

lemma encode_pages_Ok:
  assumes "encode_pages pages bs = Ok bs'" "bt_ok pages" "length bs = CHUNK_BYTES"
  shows "length bs' = CHUNK_BYTES \<and> (\<forall>a b. b \<le> 48 \<longrightarrow> slice_of bs' a b = slice_of bs a b) \<and> drop 32816 bs' = drop 32816 bs
    \<and> (\<forall>(i, h) \<in> set pages. i < PAGES \<and> valid_hash h)
    \<and> (\<forall>j < PAGES. page_raw bs' j = (case bt_get pages j of None \<Rightarrow> page_raw bs j | Some h \<Rightarrow> hex_pairs h))"
  using assms
proof (induction pages bs rule: encode_pages.induct)
  case (1 bs)
  then show ?case by simp
next
  case (2 page hash pages bs)
  from 2(2) obtain raw where p: "page < PAGES" "hash_decode hash = Ok raw"
      "encode_pages pages (copy_at bs (HEADER + page * 32) raw) = Ok bs'"
    by (cases "hash_decode hash") (auto simp: Let_def res_bind_def split: if_splits)
  have raw: "length raw = 32" "raw = hex_pairs hash" "valid_hash hash"
    using hex_hash_decode [OF p(2)] p(2) by (auto simp: hash_decode_def split: if_splits)
  have fresh: "bt_get pages page = None"
    using 2(3) by (force simp: map_of_eq_None_iff)
  note ih = 2(1) [OF _ refl p(3)]
  have ih: "length bs' = CHUNK_BYTES \<and> (\<forall>a b. b \<le> 48 \<longrightarrow> slice_of bs' a b = slice_of (copy_at bs (HEADER + page * 32) raw) a b)
    \<and> drop 32816 bs' = drop 32816 (copy_at bs (HEADER + page * 32) raw)
    \<and> (\<forall>(i, h) \<in> set pages. i < PAGES \<and> valid_hash h)
    \<and> (\<forall>j < PAGES. page_raw bs' j = (case bt_get pages j of None \<Rightarrow> page_raw (copy_at bs (HEADER + page * 32) raw) j | Some h \<Rightarrow> hex_pairs h))"
    using ih p(1) 2(3,4) header_copy(1) [OF 2(4) raw(1) p(1)] by simp
  then show ?case
    using header_copy [OF 2(4) raw(1) p(1)] page_raw_copy [OF 2(4) raw(1) p(1)] p(1) raw fresh
    by (auto split: option.split)
qed

lemma load_pages_Ok:
  assumes "load_pages bs count is acc = Ok pages" "bt_ok acc"
  shows "bt_ok pages \<and> (\<forall>i \<in> set is. \<not> all_zero (page_raw bs i) \<longrightarrow> i < count)
    \<and> (\<forall>i. bt_get pages i = (if i \<in> set is \<and> \<not> all_zero (page_raw bs i) then Some (hex_string (page_raw bs i)) else bt_get acc i))"
  using assms
proof (induction bs count "is" acc rule: load_pages.induct)
  case (1 bs count acc)
  then show ?case by simp
next
  case (2 bs count i "is" acc)
  show ?case
  proof (cases "all_zero (page_raw bs i)")
    case True
    with 2 show ?thesis by (auto simp: Let_def)
  next
    case False
    with 2(3) have c: "i < count" "load_pages bs count is (bt_insert i (hex_string (page_raw bs i)) acc) = Ok pages"
      by (auto simp: Let_def split: if_splits)
    from 2(1) [OF refl _ _ c(2)] False c(1) 2(4) show ?thesis by auto
  qed
qed

lemma load_pages_succeeds:
  "(\<forall>i \<in> set is. \<not> all_zero (page_raw bs i) \<longrightarrow> i < count) \<Longrightarrow> \<exists>pages. load_pages bs count is acc = Ok pages"
  by (induction bs count "is" acc rule: load_pages.induct) (auto simp: Let_def)

lemma nth_of_slice: "slice_of xs a b = slice_of ys a b \<Longrightarrow> a \<le> i \<Longrightarrow> i < b \<Longrightarrow> b \<le> length xs \<Longrightarrow> b \<le> length ys \<Longrightarrow> xs ! i = ys ! i"
  using nth_slice_of [of "i - a" b a xs] nth_slice_of [of "i - a" b a ys] by simp

text \<open>A catalog object is determined by its header, its page slots and its zero tail.\<close>

lemma catalog_bytes_eqI:
  assumes "length xs = CHUNK_BYTES" "length ys = CHUNK_BYTES" "slice_of xs 0 48 = slice_of ys 0 48"
    and "\<And>i. i < PAGES \<Longrightarrow> page_raw xs i = page_raw ys i" "drop 32816 xs = drop 32816 ys"
  shows "xs = ys"
proof (rule nth_equalityI)
  show "length xs = length ys" using assms by simp
  fix p
  assume p: "p < length xs"
  consider "p < 48" | "48 \<le> p" "p < 32816" | "32816 \<le> p" by linarith
  then show "xs ! p = ys ! p"
  proof cases
    case 1
    then show ?thesis using assms(1-3) HEADER_PAGES by (intro nth_of_slice [of xs 0 48 ys]) auto
  next
    case 2
    define i where "i = (p - 48) div 32"
    have i: "i < PAGES" "HEADER + i * 32 \<le> p" "p < HEADER + (i + 1) * 32"
      using 2 by (auto simp: i_def PAGES_def HEADER_def)
    have "slice_of xs (HEADER + i * 32) (HEADER + (i + 1) * 32) = slice_of ys (HEADER + i * 32) (HEADER + (i + 1) * 32)"
      using assms(4) [OF i(1)] by (simp add: page_raw_def)
    then show ?thesis
      using i page_in_range [OF i(1)] assms(1,2) HEADER_PAGES
      by (intro nth_of_slice [of xs "HEADER + i * 32" "HEADER + (i + 1) * 32" ys]) auto
  next
    case 3
    have "xs ! p = drop 32816 xs ! (p - 32816)" "ys ! p = drop 32816 ys ! (p - 32816)"
      using 3 p assms(1,2) HEADER_PAGES by simp_all
    then show ?thesis using assms(5) by simp
  qed
qed

definition catalog_ok :: "catalog \<Rightarrow> bool" where
  "catalog_ok cat \<longleftrightarrow> 0 < ct_size cat \<and> ct_size cat \<le> MAX_SIZE \<and> ct_size cat mod CHUNK_BYTES = 0 \<and> bt_ok (ct_pages cat)
     \<and> (\<forall>(i, h) \<in> set (ct_pages cat). i < div_ceil (ct_size cat div CHUNK_BYTES) 1024 \<and> valid_hash h
          \<and> h \<noteq> replicate 64 (CHR ''0''))"

lemma size_u64: "n \<le> MAX_SIZE \<Longrightarrow> n < 256 ^ 8"
  by (simp add: MAX_SIZE_def)

lemma encode_header:
  assumes "catalog_encode cat img = Ok bs" "bt_ok (ct_pages cat)"
  shows "length bs = CHUNK_BYTES" "slice_of bs 0 8 = CATALOG_MAGIC" "slice_of bs 8 16 = be_bytes 8 (ct_size cat)"
    "hash_decode img = Ok (slice_of bs 16 48)" "drop 32816 bs = zeros (CHUNK_BYTES - 32816)"
    "\<And>i h. (i, h) \<in> set (ct_pages cat) \<Longrightarrow> i < PAGES \<and> valid_hash h"
    "\<And>j. j < PAGES \<Longrightarrow> page_raw bs j = (case bt_get (ct_pages cat) j of None \<Rightarrow> zeros 32 | Some h \<Rightarrow> hex_pairs h)"
proof -
  from assms(1) obtain raw where raw: "hash_decode img = Ok raw"
    by (cases "hash_decode img") (auto simp: catalog_encode_def res_bind_def)
  then have len: "length raw = 32" using hex_hash_decode by blast
  define h where "h = CATALOG_MAGIC @ be_bytes 8 (ct_size cat) @ raw"
  have hl: "length h = 48" by (simp add: h_def CATALOG_MAGIC_def len)
  have start: "copy_at (copy_at (copy_at (zeros CHUNK_BYTES) 0 CATALOG_MAGIC) 8 (be_bytes 8 (ct_size cat))) 16 raw =
      h @ zeros (CHUNK_BYTES - 48)"
    using len HEADER_PAGES by (simp add: copy_at_def CATALOG_MAGIC_def h_def zeros_def)
  from assms(1) raw start have enc: "encode_pages (ct_pages cat) (h @ zeros (CHUNK_BYTES - 48)) = Ok bs"
    by (simp add: catalog_encode_def res_bind_def)
  have l0: "length (h @ zeros (CHUNK_BYTES - 48)) = CHUNK_BYTES" using hl HEADER_PAGES by simp
  note e = encode_pages_Ok [OF enc assms(2) l0]
  show "length bs = CHUNK_BYTES" using e by blast
  have sl: "slice_of (h @ zeros (CHUNK_BYTES - 48)) 0 8 = CATALOG_MAGIC"
    "slice_of (h @ zeros (CHUNK_BYTES - 48)) 8 16 = be_bytes 8 (ct_size cat)"
    "slice_of (h @ zeros (CHUNK_BYTES - 48)) 16 48 = raw"
    using len by (simp_all add: slice_of_def h_def CATALOG_MAGIC_def)
  show "slice_of bs 0 8 = CATALOG_MAGIC" "slice_of bs 8 16 = be_bytes 8 (ct_size cat)" "hash_decode img = Ok (slice_of bs 16 48)"
    using e sl raw by simp_all
  show "drop 32816 bs = zeros (CHUNK_BYTES - 32816)"
    using e hl by (simp add: zeros_def)
  show "i < PAGES \<and> valid_hash hh" if "(i, hh) \<in> set (ct_pages cat)" for i hh
    using e that by blast
  show "page_raw bs j = (case bt_get (ct_pages cat) j of None \<Rightarrow> zeros 32 | Some h \<Rightarrow> hex_pairs h)" if "j < PAGES" for j
  proof -
    have "page_raw (h @ zeros (CHUNK_BYTES - 48)) j = zeros 32"
      using that page_in_range [OF that] hl HEADER_PAGES
      by (simp add: page_raw_def slice_of_def HEADER_def zeros_def)
    then show ?thesis using e that by (cases "bt_get (ct_pages cat) j") simp_all
  qed
qed

lemma hex_zeros: "hex_string (zeros 32) = replicate 64 (CHR ''0'')"
proof -
  have "hex_byte 0 = [CHR ''0'', CHR ''0'']" by code_simp
  moreover have "concat (replicate n [CHR ''0'', CHR ''0'']) = replicate (2 * n) (CHR ''0'')" for n
    by (induction n) auto
  ultimately show ?thesis by (simp add: hex_string_def zeros_def)
qed

lemma all_zero_pairs: "valid_hash h \<Longrightarrow> all_zero (hex_pairs h) \<longleftrightarrow> h = replicate 64 (CHR ''0'')"
proof
  assume v: "valid_hash h"
  then have d: "hash_decode h = Ok (hex_pairs h)" by (rule hash_decode_valid)
  note hx = hex_hash_decode [OF d]
  show "h = replicate 64 (CHR ''0'')" if "all_zero (hex_pairs h)"
    using that hx hex_zeros by (metis all_zero_iff)
  show "all_zero (hex_pairs h)" if "h = replicate 64 (CHR ''0'')"
    using that hex_zeros hex_pairs_string [of "zeros 32"] all_zero_iff [of "hex_pairs h"] hx by simp
qed

lemma div_ceil_pages: "n \<le> MAX_SIZE \<Longrightarrow> div_ceil (n div CHUNK_BYTES) 1024 \<le> PAGES"
proof -
  assume "n \<le> MAX_SIZE"
  then have "n div CHUNK_BYTES \<le> MAX_SIZE div CHUNK_BYTES" by (rule div_le_mono)
  then have "n div CHUNK_BYTES \<le> 1024 * 1024" by (simp add: MAX_SIZE_def CHUNK_BYTES_def)
  then have "n div CHUNK_BYTES = 1024 * 1024 \<or> n div CHUNK_BYTES div 1024 < 1024" by linarith
  then show ?thesis by (auto simp: div_ceil_def PAGES_def)
qed

lemma encode_pages_succeeds:
  "(\<forall>(i, h) \<in> set pages. i < PAGES \<and> valid_hash h) \<Longrightarrow> \<exists>bs'. encode_pages pages bs = Ok bs'"
  by (induction pages bs rule: encode_pages.induct) (auto simp: Let_def res_bind_def hash_decode_valid)

lemma slice_of_join: "a \<le> b \<Longrightarrow> b \<le> c \<Longrightarrow> c \<le> length bs \<Longrightarrow> slice_of bs a c = slice_of bs a b @ slice_of bs b c"
  using take_add [of "b - a" "c - b" "drop a bs"] by (simp add: slice_of_def)

lemma header_eqI:
  assumes "length xs = CHUNK_BYTES" "length ys = CHUNK_BYTES" "slice_of xs 0 8 = slice_of ys 0 8"
    "slice_of xs 8 16 = slice_of ys 8 16" "slice_of xs 16 48 = slice_of ys 16 48"
  shows "slice_of xs 0 48 = slice_of ys 0 48"
  using assms HEADER_PAGES slice_of_join [of 0 8 48 xs] slice_of_join [of 8 16 48 xs]
    slice_of_join [of 0 8 48 ys] slice_of_join [of 8 16 48 ys]
  by simp

text \<open>What a successful decoding has established.\<close>

lemma catalog_decode_Ok:
  assumes "catalog_decode dg base raw bs = Ok cat"
  shows "catalog_ok cat \<and> length bs = CHUNK_BYTES \<and> dg bs = b_catalog base \<and> slice_of bs 0 8 = CATALOG_MAGIC
    \<and> slice_of bs 16 48 = raw \<and> drop 32816 bs = zeros (CHUNK_BYTES - 32816) \<and> ct_size cat = be_nat (slice_of bs 8 16)
    \<and> (\<forall>i < PAGES. bt_get (ct_pages cat) i = (if all_zero (page_raw bs i) then None else Some (hex_string (page_raw bs i))))"
proof -
  define sz where "sz = be_nat (slice_of bs 8 16)"
  from assms obtain pages where
    h: "length bs = CHUNK_BYTES" "dg bs = b_catalog base" "slice_of bs 0 8 = CATALOG_MAGIC" "slice_of bs 16 48 = raw"
      "all_zero (drop 32816 bs)" and
    sz: "0 < sz" "sz \<le> MAX_SIZE" "sz mod CHUNK_BYTES = 0" and
    l: "load_pages bs (div_ceil (sz div CHUNK_BYTES) 1024) [0..<PAGES] [] = Ok pages" and
    cat: "cat = \<lparr>ct_size = sz, ct_pages = pages\<rparr>"
    unfolding catalog_decode_def HEADER_PAGES
    by (auto simp: Let_def res_bind_def sz_def split: if_splits result.splits)
  note lp = load_pages_Ok [OF l bt_ok_Nil]
  have get: "bt_get pages i = (if i < PAGES \<and> \<not> all_zero (page_raw bs i) then Some (hex_string (page_raw bs i)) else None)" for i
    using lp by simp
  have entry: "i < div_ceil (sz div CHUNK_BYTES) 1024 \<and> valid_hash h \<and> h \<noteq> replicate 64 (CHR ''0'')"
    if "(i, h) \<in> set pages" for i h
  proof -
    have i: "i < PAGES" "\<not> all_zero (page_raw bs i)" "h = hex_string (page_raw bs i)"
      using that get [of i] bt_entries [of pages i h] lp by (auto split: if_splits)
    have "h \<noteq> replicate 64 (CHR ''0'')"
    proof
      assume "h = replicate 64 (CHR ''0'')"
      then have "hex_pairs h = zeros 32" using hex_zeros hex_pairs_string by metis
      with i show False by (simp add: hex_pairs_string)
    qed
    with i lp page_raw_length [OF i(1) h(1)] show ?thesis by auto
  qed
  have "drop 32816 bs = zeros (CHUNK_BYTES - 32816)"
    using h(1,5) by (simp add: all_zero_iff)
  with h sz lp get entry show ?thesis
    by (auto simp: cat catalog_ok_def sz_def)
qed

text \<open>Decoding inverts encoding.\<close>

lemma catalog_decode_encoded:
  assumes "catalog_ok cat" "catalog_encode cat (b_image base) = Ok bs" "dg bs = b_catalog base"
  shows "catalog_decode dg base (slice_of bs 16 48) bs = Ok cat"
proof -
  have ok: "bt_ok (ct_pages cat)" using assms(1) by (simp add: catalog_ok_def)
  note e = encode_header [OF assms(2) ok]
  define count where "count = div_ceil (ct_size cat div CHUNK_BYTES) 1024"
  have sz: "be_nat (slice_of bs 8 16) = ct_size cat"
    using e(3) assms(1) size_u64 by (simp add: catalog_ok_def be_nat_bytes_id)
  have entry: "valid_hash h \<and> i < count \<and> \<not> all_zero (hex_pairs h)" if "bt_get (ct_pages cat) i = Some h" for i h
    using that map_of_SomeD [OF that] assms(1) all_zero_pairs [of h] by (auto simp: catalog_ok_def count_def)
  have live: "\<not> all_zero (page_raw bs i) \<longleftrightarrow> bt_get (ct_pages cat) i \<noteq> None" if "i < PAGES" for i
    using e(7) [OF that] entry [of i] by (auto simp: all_zero_iff split: option.splits)
  have "\<exists>pages. load_pages bs count [0..<PAGES] [] = Ok pages"
    using live entry by (intro load_pages_succeeds) (auto; blast)
  then obtain pages where l: "load_pages bs count [0..<PAGES] [] = Ok pages" by blast
  note lp = load_pages_Ok [OF l bt_ok_Nil]
  have "bt_get pages i = bt_get (ct_pages cat) i" for i
  proof (cases "i < PAGES")
    case True
    show ?thesis
    proof (cases "bt_get (ct_pages cat) i")
      case None
      with lp live [OF True] show ?thesis by simp
    next
      case (Some h)
      have "hex_string (page_raw bs i) = h"
        using e(7) [OF True] Some entry [OF Some] hex_hash_decode hash_decode_valid by auto
      with lp live [OF True] Some True show ?thesis by simp
    qed
  next
    case False
    then have "bt_get (ct_pages cat) i = None"
      using e(6) map_of_SomeD [of "ct_pages cat" i] by (cases "bt_get (ct_pages cat) i") auto
    with lp False show ?thesis by simp
  qed
  then have "pages = ct_pages cat"
    using bt_extensional [of pages "ct_pages cat"] lp ok by auto
  moreover have "all_zero (drop (HEADER + PAGES * 32) bs)"
    unfolding HEADER_PAGES e(5) by (simp add: all_zero_iff)
  ultimately show ?thesis
    using e assms(1,3) sz l by (simp add: catalog_decode_def Let_def res_bind_def count_def catalog_ok_def)
qed

section \<open>Properties\<close>

text \<open>
  Round trip: a well-formed catalog that is encoded for an image and stored under its
  digest is loaded back unchanged.
\<close>

theorem catalog_encode_load:
  assumes "catalog_ok cat" "catalog_encode cat (b_image base) = Ok bs"
    and "valid_hash (b_catalog base)" "dg bs = b_catalog base"
    and "os_base_chunk os (b_image base) (b_catalog base) None s = (Ok bs, s')"
  shows "catalog_load dg os base s = (Ok cat, s')"
proof -
  have "hash_decode (b_image base) = Ok (slice_of bs 16 48)"
    using encode_header(4) [OF assms(2)] assms(1) by (simp add: catalog_ok_def)
  then show ?thesis
    using catalog_decode_encoded [of cat base bs dg] assms hash_decode_valid
    by (simp add: catalog_load_def io_bind_def io_lift_def)
qed

text \<open>
  C33. Loading accepts nothing else: a catalog that is loaded is well formed, its page
  indexes are inside the image, and the fetched object is byte for byte its encoding, so
  a catalog digest pins exactly one image map.
\<close>

theorem catalog_load_canonical:
  assumes "catalog_load dg os base s = (Ok cat, s')"
  shows "catalog_ok cat \<and> (\<exists>bs. fst (os_base_chunk os (b_image base) (b_catalog base) None s) = Ok bs
    \<and> dg bs = b_catalog base \<and> catalog_encode cat (b_image base) = Ok bs)"
proof -
  from assms obtain raw s1 bs where l: "hash_decode (b_image base) = Ok raw"
      "os_base_chunk os (b_image base) (b_catalog base) None s = (Ok bs, s1)" "catalog_decode dg base raw bs = Ok cat"
    unfolding catalog_load_def by (auto elim!: io_bind_OkE simp: io_lift_def)
  note d = catalog_decode_Ok [OF l(3)]
  have ok: "catalog_ok cat" using d by blast
  have inside: "i < PAGES \<and> valid_hash h" if "(i, h) \<in> set (ct_pages cat)" for i h
    using that ok div_ceil_pages [of "ct_size cat"] by (fastforce simp: catalog_ok_def)
  obtain bs' where bs': "catalog_encode cat (b_image base) = Ok bs'"
    using encode_pages_succeeds [of "ct_pages cat"] inside l(1) by (fastforce simp: catalog_encode_def res_bind_def)
  have okp: "bt_ok (ct_pages cat)" using ok by (simp add: catalog_ok_def)
  note e = encode_header [OF bs' okp]
  have "bs = bs'"
  proof (rule catalog_bytes_eqI)
    show "slice_of bs 0 48 = slice_of bs' 0 48"
      using d e(1-4) l(1) be_bytes_nat [of "slice_of bs 8 16"] HEADER_PAGES
      by (intro header_eqI) auto
    show "page_raw bs i = page_raw bs' i" if "i < PAGES" for i
      using d e(7) [OF that] that page_raw_length [OF that] by (auto simp: hex_pairs_string all_zero_iff)
  qed (use d e in auto)
  then show ?thesis using ok l(2) bs' d by auto
qed

section \<open>An image with one index page\<close>

definition demo_page_hash :: string where "demo_page_hash = replicate 64 (CHR ''a'')"

definition demo_catalog :: catalog where
  "demo_catalog = \<lparr>ct_size = CHUNK_BYTES, ct_pages = [(0, demo_page_hash)]\<rparr>"

definition demo_base :: base_ref where
  "demo_base = \<lparr>b_image = demo_page_hash, b_catalog = demo_page_hash\<rparr>"

definition demo_base_store :: "mem_state object_store" where
  "demo_base_store = (memory_store demo_codec)\<lparr>os_base_chunk := \<lambda>img h off s. (catalog_encode demo_catalog img, s)\<rparr>"

lemma demo_page_hash_valid [simp]: "valid_hash demo_page_hash"
  by code_simp

lemma demo_catalog_ok: "catalog_ok demo_catalog"
proof -
  have "demo_page_hash \<noteq> replicate 64 (CHR ''0'')" by code_simp
  moreover have "CHUNK_BYTES \<le> MAX_SIZE" "div_ceil 1 1024 = 1" by (simp_all add: CHUNK_BYTES_def MAX_SIZE_def div_ceil_def)
  ultimately show ?thesis by (simp add: catalog_ok_def demo_catalog_def)
qed

lemma demo_catalog_bytes: "\<exists>bs. catalog_encode demo_catalog demo_page_hash = Ok bs"
  by (simp add: catalog_encode_def demo_catalog_def res_bind_def hash_decode_valid Let_def PAGES_def)

lemma demo_catalog_load:
  "catalog_load (\<lambda>_. demo_page_hash) demo_base_store demo_base mem_empty = (Ok demo_catalog, mem_empty)"
proof -
  obtain bs where bs: "catalog_encode demo_catalog demo_page_hash = Ok bs" using demo_catalog_bytes by blast
  then have "catalog_decode (\<lambda>_. demo_page_hash) demo_base (slice_of bs 16 48) bs = Ok demo_catalog"
    using catalog_decode_encoded [OF demo_catalog_ok, of demo_base bs] by (simp add: demo_base_def)
  moreover have "hash_decode demo_page_hash = Ok (slice_of bs 16 48)"
    using encode_header(4) [OF bs] demo_catalog_ok by (simp add: catalog_ok_def)
  ultimately show ?thesis
    using bs by (simp add: catalog_load_def io_bind_def io_lift_def demo_base_def demo_base_store_def)
qed

theorem catalog_encode_load_witness:
  "catalog_load (\<lambda>_. demo_page_hash) demo_base_store demo_base mem_empty = (Ok demo_catalog, mem_empty)"
proof -
  obtain bs where "catalog_encode demo_catalog demo_page_hash = Ok bs" using demo_catalog_bytes by blast
  then show ?thesis
    by (intro catalog_encode_load [OF demo_catalog_ok, of _ bs])
       (simp_all add: demo_base_def demo_base_store_def)
qed

theorem catalog_load_canonical_witness:
  "catalog_ok demo_catalog \<and> (\<exists>bs. catalog_encode demo_catalog demo_page_hash = Ok bs)"
proof -
  from catalog_load_canonical [OF demo_catalog_load] show ?thesis by (simp add: demo_base_def) blast
qed

end
