(* ===== verification/Reclaim.thy ===== *)
theory Reclaim
  imports Memory_Store
begin

text \<open>
  Reclamation of retired disks (\<open>rust/ahvm-volume/src/reclaim.rs\<close>): a retired volume
  keeps a tombstone as its head forever, and bounded passes delete its objects. A pass is
  shown to touch nothing but the objects of a volume whose head is a tombstone, to make
  progress, and to report completion only when nothing is left. The in-memory service of
  the reclamation tests (\<open>reclaim/tests.rs\<close>), which lists and deletes with the trait's
  default worker fan-out, is shown to keep the interface the pass relies on.
\<close>

section \<open>Tombstones\<close>

record tombstone =
  ts_format :: nat
  ts_volume :: string
  ts_deleted :: bool

text \<open>
  The JSON library: a document \<open>'j\<close>, whether its \<open>format\<close> member is 5, and the
  (de)serialisation of a tombstone.
\<close>

record 'j tomb_codec =
  tc_parse :: "bytes \<Rightarrow> 'j option"
  tc_format_is_5 :: "'j \<Rightarrow> bool"
  tc_from_value :: "'j \<Rightarrow> tombstone option"
  tc_to_vec :: "tombstone \<Rightarrow> bytes option"

definition tombstone_bytes :: "'j tomb_codec \<Rightarrow> string \<Rightarrow> (bytes, verror) result" where
  "tombstone_bytes tc i = ok_or Corrupt (tc_to_vec tc \<lparr>ts_format = 5, ts_volume = i, ts_deleted = True\<rparr>)"

definition retired :: "'j tomb_codec \<Rightarrow> string \<Rightarrow> head \<Rightarrow> (bool, verror) result" where
  "retired tc i h =
     (if MAX_MANIFEST_BYTES < length (h_manifest h) \<or> h_revision h = [] then Err Corrupt
      else
        res_bind (ok_or Corrupt (tc_parse tc (h_manifest h))) (\<lambda>v.
          if \<not> tc_format_is_5 tc v then Ok False
          else
            res_bind (ok_or Corrupt (tc_from_value tc v)) (\<lambda>t.
              if ts_volume t \<noteq> i \<or> \<not> ts_deleted t then Err Corrupt else Ok True)))"

section \<open>A pass\<close>

record progress =
  pg_deleted_objects :: nat
  pg_complete :: bool

definition sweep :: "'j tomb_codec \<Rightarrow> 's object_store \<Rightarrow> string \<Rightarrow> nat \<Rightarrow> ('s, progress, verror) io" where
  "sweep tc os i limit =
     (if \<not> valid_id i \<or> \<not> (1 \<le> limit \<and> limit \<le> 1000) then io_throw InvalidInput
      else
        io_bind (os_head os i) (\<lambda>oh.
        io_bind (io_lift (ok_or NotFound oh)) (\<lambda>h.
        io_bind (io_lift (retired tc i h)) (\<lambda>r.
          if \<not> r then io_throw Conflict
          else
            io_bind (os_list_chunks os i limit) (\<lambda>hashes.
              if limit < length hashes \<or> list_ex (\<lambda>h. \<not> valid_hash h) hashes then io_throw Corrupt
              else
                io_bind (os_delete_chunks os i hashes) (\<lambda>_.
                  io_return \<lparr>pg_deleted_objects = length hashes, pg_complete = (hashes = [])\<rparr>))))))"

section \<open>The interface a pass relies on\<close>

definition drop_objs :: "objs_view \<Rightarrow> string \<Rightarrow> string set \<Rightarrow> objs_view" where
  "drop_objs X v D = X(v := X v |` (- D))"

lemma drop_objs_empty [simp]: "drop_objs X v {} = X"
  by (simp add: drop_objs_def restrict_map_def)

lemma drop_objs_other [simp]: "w \<noteq> v \<Longrightarrow> drop_objs X v D w = X w"
  by (simp add: drop_objs_def)

lemma drop_objs_same [simp]: "drop_objs X v D v = X v |` (- D)"
  by (simp add: drop_objs_def)

lemma drop_objs_drop [simp]: "drop_objs (drop_objs X v D) v E = drop_objs X v (D \<union> E)"
  by (auto simp: drop_objs_def restrict_map_def fun_eq_iff)

lemma card_drop_objs:
  assumes "finite (dom (X v))" "set hs \<subseteq> dom (X v)" "distinct hs"
  shows "card (dom (drop_objs X v (set hs) v)) + length hs = card (dom (X v))"
proof -
  have "dom (drop_objs X v (set hs) v) = dom (X v) - set hs" by auto
  moreover have "card (set hs) = length hs" using assms(3) by (rule distinct_card)
  moreover have "card (set hs) \<le> card (dom (X v))" using assms(1,2) by (intro card_mono)
  ultimately show ?thesis using assms(1,2) by (simp add: card_Diff_subset)
qed

locale reclaim_store =
  fixes os :: "'s object_store"
    and heads :: "'s \<Rightarrow> heads_view"
    and objs :: "'s \<Rightarrow> objs_view"
    and ok :: "'s \<Rightarrow> bool"
  assumes r_head_law: "ok s \<Longrightarrow> valid_id v \<Longrightarrow> post (os_head os v)
      (\<lambda>h s'. ok s' \<and> heads s' = heads s \<and> objs s' = objs s \<and> h = heads s v)
      (\<lambda>e s'. ok s' \<and> heads s' = heads s \<and> objs s' = objs s) s"
    and r_list_law: "ok s \<Longrightarrow> valid_id v \<Longrightarrow> 0 < n \<Longrightarrow> post (os_list_chunks os v n)
      (\<lambda>hs s'. ok s' \<and> heads s' = heads s \<and> objs s' = objs s \<and> distinct hs \<and> set hs \<subseteq> dom (objs s v)
         \<and> (hs = [] \<longrightarrow> objs s v = Map.empty))
      (\<lambda>e s'. ok s' \<and> heads s' = heads s \<and> objs s' = objs s) s"
    and r_delete_law: "ok s \<Longrightarrow> valid_id v \<Longrightarrow> post (os_delete_chunks os v hs)
      (\<lambda>_ s'. ok s' \<and> heads s' = heads s \<and> objs s' = drop_objs (objs s) v (set hs))
      (\<lambda>e s'. ok s' \<and> heads s' = heads s \<and> (\<exists>D \<subseteq> set hs. objs s' = drop_objs (objs s) v D)) s"
    and r_finite: "ok s \<Longrightarrow> finite (dom (objs s v))"
begin

text \<open>
  The objects that a pass may remove are of this volume, and only if its head is a tombstone.
\<close>

lemma sweep_post:
  assumes "ok s"
  shows "post (sweep tc os v limit)
    (\<lambda>p s'. ok s' \<and> heads s' = heads s
       \<and> (\<exists>h hs. heads s v = Some h \<and> retired tc v h = Ok True \<and> distinct hs \<and> set hs \<subseteq> dom (objs s v)
            \<and> objs s' = drop_objs (objs s) v (set hs) \<and> length hs \<le> limit
            \<and> p = \<lparr>pg_deleted_objects = length hs, pg_complete = (hs = [])\<rparr> \<and> (hs = [] \<longrightarrow> objs s v = Map.empty)))
    (\<lambda>e s'. ok s' \<and> heads s' = heads s
       \<and> (\<exists>D. objs s' = drop_objs (objs s) v D
            \<and> (D \<noteq> {} \<longrightarrow> (\<exists>h. heads s v = Some h \<and> retired tc v h = Ok True)))) s"
  (is "post _ ?Q ?E s")
proof -
  define Q where "Q = ?Q"
  define E :: "verror \<Rightarrow> 's \<Rightarrow> bool" where "E = ?E"
  have untouched: "E e t" if "ok t" "heads t = heads s" "objs t = objs s" for e t
    using that by (auto simp: E_def intro: exI [of _ "{}"])
  consider "\<not> valid_id v \<or> \<not> (1 \<le> limit \<and> limit \<le> 1000)" | "valid_id v" "1 \<le> limit" "limit \<le> 1000" by blast
  then have "post (sweep tc os v limit) Q E s"
  proof cases
    case 1
    then have "sweep tc os v limit = io_throw InvalidInput" by (simp only: sweep_def if_True)
    then show ?thesis by (simp add: post_throw untouched [OF assms refl refl])
  next
    case 2
    have del: "post (os_delete_chunks os v hs) (\<lambda>_. Q \<lparr>pg_deleted_objects = length hs, pg_complete = (hs = [])\<rparr>) E t"
      if "ok t" "heads t = heads s" "objs t = objs s" "heads s v = Some h" "retired tc v h = Ok True"
        "distinct hs" "set hs \<subseteq> dom (objs s v)" "hs = [] \<longrightarrow> objs s v = Map.empty" "length hs \<le> limit" for h hs t
      unfolding Q_def E_def by (rule post_mono [OF r_delete_law [OF that(1) 2(1)]]) (use that in auto)
    define fin where "fin = (\<lambda>hs. if limit < length hs \<or> list_ex (\<lambda>h. \<not> valid_hash h) hs then io_throw Corrupt
        else io_bind (os_delete_chunks os v hs) (\<lambda>_. io_return \<lparr>pg_deleted_objects = length hs, pg_complete = (hs = [])\<rparr>))"
    have lst: "post (os_list_chunks os v limit) (\<lambda>hs. post (fin hs) Q E) E t"
      if "ok t" "heads t = heads s" "objs t = objs s" "heads s v = Some h" "retired tc v h = Ok True" for h t
    proof (rule post_mono [OF r_list_law [OF that(1) 2(1)]])
      note outer = that
      show "0 < limit" using 2(2) by simp
      show "post (fin hs) Q E u" if l: "ok u \<and> heads u = heads t \<and> objs u = objs t \<and> distinct hs \<and> set hs \<subseteq> dom (objs t v)
          \<and> (hs = [] \<longrightarrow> objs t v = Map.empty)" for hs u
        using del [of u h hs] untouched [of u] l outer by (simp add: fin_def post_simps)
    qed (use that untouched in auto)
    have ret: "post (io_lift (retired tc v h)) (\<lambda>r. post (if \<not> r then io_throw Conflict else io_bind (os_list_chunks os v limit) fin) Q E) E t"
      if "ok t" "heads t = heads s" "objs t = objs s" "heads s v = Some h" for h t
      using lst [OF that(1,2,3,4)] untouched [OF that(1,2,3)] by (simp add: post_lift post_bind post_throw split: result.split)
    have "post (os_head os v) (\<lambda>oh. post (io_bind (io_lift (ok_or NotFound oh)) (\<lambda>h. io_bind (io_lift (retired tc v h))
        (\<lambda>r. if \<not> r then io_throw Conflict else io_bind (os_list_chunks os v limit) fin))) Q E) E s"
    proof (rule post_mono [OF r_head_law [OF assms 2(1)]])
      fix oh t
      assume "ok t \<and> heads t = heads s \<and> objs t = objs s \<and> oh = heads s v"
      then show "post (io_bind (io_lift (ok_or NotFound oh)) (\<lambda>h. io_bind (io_lift (retired tc v h))
          (\<lambda>r. if \<not> r then io_throw Conflict else io_bind (os_list_chunks os v limit) fin))) Q E t"
        using ret [of t] untouched [of t]
        by (cases "heads s v") (simp_all add: post_bind post_lift ok_or_def)
    qed (use untouched in auto)
    then show ?thesis using 2 unfolding fin_def by (simp add: sweep_def post_bind)
  qed
  then show ?thesis unfolding Q_def E_def .
qed

text \<open>A pass that is not the last one has shrunk the volume by what it reports.\<close>

lemma card_drop:
  assumes "ok s" "set hs \<subseteq> dom (objs s v)" "distinct hs"
  shows "card (dom (drop_objs (objs s) v (set hs) v)) + length hs = card (dom (objs s v))"
  by (rule card_drop_objs) (use assms r_finite in blast)+

end

section \<open>The service of the reclamation tests\<close>

record sweep_state =
  sw_heads :: "(string, head) btree"
  sw_chunks :: "(string \<times> string, bytes) btree"
  sw_revision :: nat
  sw_lose_publish :: bool
  sw_fail_delete :: bool
  sw_reads :: nat

definition sw_head :: "string \<Rightarrow> (sweep_state, head option, verror) io" where
  "sw_head i s = (Ok (bt_get (sw_heads s) i), s)"

definition sw_chunk :: "string \<Rightarrow> string \<Rightarrow> (sweep_state, bytes, verror) io" where
  "sw_chunk i hash s = (ok_or Corrupt (bt_get (sw_chunks s) (i, hash)), s\<lparr>sw_reads := sw_reads s + 1\<rparr>)"

definition sw_put_chunk :: "(bytes \<Rightarrow> string) \<Rightarrow> string \<Rightarrow> string \<Rightarrow> bytes \<Rightarrow> (sweep_state, unit, verror) io" where
  "sw_put_chunk dg i hash b s =
     (if hash \<noteq> dg b then (Err Panic, s)
      else (Ok (), s\<lparr>sw_chunks := bt_insert (i, hash) b (sw_chunks s)\<rparr>))"

definition sw_publish :: "string \<Rightarrow> string option \<Rightarrow> bytes \<Rightarrow> (sweep_state, string, verror) io" where
  "sw_publish i expected bs s =
     (if map_option h_revision (bt_get (sw_heads s) i) \<noteq> expected then (Err Conflict, s)
      else if U64 \<le> sw_revision s + 1 then (Err Panic, s)
      else
        (let n = sw_revision s + 1;
             s1 = s\<lparr>sw_revision := n,
               sw_heads := bt_insert i \<lparr>h_revision = show_nat n, h_manifest = bs\<rparr> (sw_heads s)\<rparr> in
         if sw_lose_publish s1 then (Err Uncertain, s1\<lparr>sw_lose_publish := False\<rparr>)
         else (Ok (show_nat n), s1)))"

definition sw_list_chunks :: "string \<Rightarrow> nat \<Rightarrow> (sweep_state, string list, verror) io" where
  "sw_list_chunks i limit s =
     (Ok (map snd (take limit (filter (\<lambda>(v, _). v = i) (map fst (sw_chunks s))))), s)"

definition sw_list_chunks_after :: "string \<Rightarrow> string option \<Rightarrow> nat \<Rightarrow> (sweep_state, string list, verror) io" where
  "sw_list_chunks_after i after limit s =
     (Ok (map snd (take limit (filter (\<lambda>(v, h). v = i \<and> (case after of None \<Rightarrow> True | Some a \<Rightarrow> a < h)) (map fst (sw_chunks s))))), s)"

definition sw_delete_chunk :: "string \<Rightarrow> string \<Rightarrow> (sweep_state, unit, verror) io" where
  "sw_delete_chunk i hash s =
     (let s1 = s\<lparr>sw_chunks := bt_remove (i, hash) (sw_chunks s)\<rparr> in
      if sw_fail_delete s1 then (Err Store, s1\<lparr>sw_fail_delete := False\<rparr>) else (Ok (), s1))"

definition sweep_store :: "(bytes \<Rightarrow> string) \<Rightarrow> sweep_state object_store" where
  "sweep_store dg = \<lparr>
     os_base_chunk = default_base_chunk,
     os_prefetch_base = default_prefetch,
     os_prefetch = default_prefetch,
     os_cached_chunk = default_cached_chunk,
     os_list_chunks = sw_list_chunks,
     os_list_chunks_after = sw_list_chunks_after,
     os_delete_chunk = sw_delete_chunk,
     os_delete_chunks = default_delete_chunks sw_delete_chunk,
     os_head = sw_head,
     os_chunk = sw_chunk,
     os_put_chunk = sw_put_chunk dg,
     os_put_chunk_cancellable = default_put_chunk_cancellable (sw_put_chunk dg),
     os_publish = sw_publish,
     os_publish_cancellable = default_publish_cancellable sw_publish\<rparr>"

definition sw_view :: "sweep_state \<Rightarrow> objs_view" where
  "sw_view s v d = bt_get (sw_chunks s) (v, d)"

definition sw_ok :: "sweep_state \<Rightarrow> bool" where
  "sw_ok s \<longleftrightarrow> bt_ok (sw_heads s) \<and> bt_ok (sw_chunks s)"

text \<open>
  What the worker fan-out of \<open>delete_chunks\<close> needs of \<open>delete_chunk\<close>: a single deletion
  removes at most the object it names, and has removed it when it reports success.
\<close>

definition deletes :: "('s \<Rightarrow> 'h) \<Rightarrow> ('s \<Rightarrow> objs_view) \<Rightarrow> ('s \<Rightarrow> bool) \<Rightarrow> string \<Rightarrow> string set \<Rightarrow> ('s, unit, verror) io \<Rightarrow> bool" where
  "deletes hv X ok v D m \<longleftrightarrow> (\<forall>s. ok s \<longrightarrow>
     post m (\<lambda>_ s'. ok s' \<and> hv s' = hv s \<and> X s' = drop_objs (X s) v D)
       (\<lambda>_ s'. ok s' \<and> hv s' = hv s \<and> (\<exists>E \<subseteq> D. X s' = drop_objs (X s) v E)) s)"

lemma deletes_list:
  assumes "\<And>h. deletes hv X ok v {h} (del v h)"
  shows "deletes hv X ok v (set hs) (delete_list del v hs)"
proof (induction hs)
  case Nil
  then show ?case by (simp add: deletes_def post_return)
next
  case (Cons h hs)
  show ?case
    unfolding deletes_def
  proof (intro allI impI)
    fix s
    assume s: "ok s"
    have rest: "post (delete_list del v hs) (\<lambda>_ s'. ok s' \<and> hv s' = hv s \<and> X s' = drop_objs (X s) v (set (h # hs)))
        (\<lambda>_ s'. ok s' \<and> hv s' = hv s \<and> (\<exists>E \<subseteq> set (h # hs). X s' = drop_objs (X s) v E)) t"
      if t: "ok t" "hv t = hv s" "X t = drop_objs (X s) v {h}" for t
    proof (rule post_mono [OF Cons.IH [unfolded deletes_def, rule_format, OF t(1)]])
      fix e u
      assume "ok u \<and> hv u = hv t \<and> (\<exists>E \<subseteq> set hs. X u = drop_objs (X t) v E)"
      then obtain E where "ok u" "hv u = hv t" "E \<subseteq> set hs" "X u = drop_objs (X t) v E" by blast
      then show "ok u \<and> hv u = hv s \<and> (\<exists>E \<subseteq> set (h # hs). X u = drop_objs (X s) v E)"
        using t by (auto intro!: exI [of _ "insert h E"])
    qed (use t in auto)
    show "post (delete_list del v (h # hs)) (\<lambda>_ s'. ok s' \<and> hv s' = hv s \<and> X s' = drop_objs (X s) v (set (h # hs)))
        (\<lambda>_ s'. ok s' \<and> hv s' = hv s \<and> (\<exists>E \<subseteq> set (h # hs). X s' = drop_objs (X s) v E)) s"
      unfolding delete_list.simps post_bind
    proof (rule post_mono [OF assms [unfolded deletes_def, rule_format, OF s]])
      fix e u
      assume "ok u \<and> hv u = hv s \<and> (\<exists>E \<subseteq> {h}. X u = drop_objs (X s) v E)"
      then obtain E where "ok u" "hv u = hv s" "E \<subseteq> {h}" "X u = drop_objs (X s) v E" by blast
      then show "ok u \<and> hv u = hv s \<and> (\<exists>E \<subseteq> set (h # hs). X u = drop_objs (X s) v E)"
        by (intro conjI exI [of _ E]) auto
    qed (rule rest; blast)
  qed
qed

lemma deletes_join:
  assumes "\<And>i. i \<in> set is \<Longrightarrow> deletes hv X ok v (D i) (f i)" "ok s" "join_workers (map f is) res s = (r, s')"
  shows "ok s' \<and> hv s' = hv s \<and> (\<exists>E \<subseteq> (\<Union>i \<in> set is. D i). X s' = drop_objs (X s) v E
    \<and> (r = Ok () \<longrightarrow> res = Ok () \<and> E = (\<Union>i \<in> set is. D i)))"
  using assms
proof (induction "is" arbitrary: s res)
  case Nil
  then show ?case by (auto intro!: exI [of _ "{}"])
next
  case (Cons i "is")
  obtain r1 s1 where run: "f i s = (r1, s1)" by force
  have d: "post (f i) (\<lambda>_ s'. ok s' \<and> hv s' = hv s \<and> X s' = drop_objs (X s) v (D i))
       (\<lambda>_ s'. ok s' \<and> hv s' = hv s \<and> (\<exists>E \<subseteq> D i. X s' = drop_objs (X s) v E)) s"
    using Cons.prems(1) [of i] Cons.prems(2) by (simp add: deletes_def)
  then obtain E1 where e1: "ok s1" "hv s1 = hv s" "E1 \<subseteq> D i" "X s1 = drop_objs (X s) v E1" "r1 = Ok () \<longrightarrow> E1 = D i"
    using run by (cases r1) (auto simp: post_def)
  have jw: "join_workers (map f is) (case r1 of Ok _ \<Rightarrow> res | Err e \<Rightarrow> Err e) s1 = (r, s')"
    using Cons.prems(3) run by (cases r1) auto
  from Cons.IH [OF _ e1(1) jw] Cons.prems(1) obtain E where
    e: "ok s'" "hv s' = hv s1" "E \<subseteq> (\<Union>i \<in> set is. D i)" "X s' = drop_objs (X s1) v E"
      "r = Ok () \<longrightarrow> (case r1 of Ok _ \<Rightarrow> res | Err e \<Rightarrow> Err e) = Ok () \<and> E = (\<Union>i \<in> set is. D i)"
    by auto
  show ?case
    using e e1 by (intro conjI exI [of _ "E1 \<union> E"]) (auto split: result.splits)
qed

text \<open>The shares of the eight workers are the whole list.\<close>

lemma worker_shares: "(\<Union>w < min 8 (length hs). set (worker_share w hs)) = set hs"
proof
  show "(\<Union>w < min 8 (length hs). set (worker_share w hs)) \<subseteq> set hs"
    by (auto simp: worker_share_def)
  show "set hs \<subseteq> (\<Union>w < min 8 (length hs). set (worker_share w hs))"
  proof
    fix h
    assume "h \<in> set hs"
    then obtain i where i: "i < length hs" "h = hs ! i" by (auto simp: in_set_conv_nth)
    have "i mod 8 < min 8 (length hs)" using i(1) by (auto intro: le_less_trans [OF mod_less_eq_dividend])
    moreover have "h \<in> set (worker_share (i mod 8) hs)" using i by (auto simp: worker_share_def)
    ultimately show "h \<in> (\<Union>w < min 8 (length hs). set (worker_share w hs))" by blast
  qed
qed

lemma default_delete_chunks_post:
  assumes "\<And>h. deletes hv X ok v {h} (del v h)" "ok s"
  shows "post (default_delete_chunks del v hs)
    (\<lambda>_ s'. ok s' \<and> hv s' = hv s \<and> X s' = drop_objs (X s) v (set hs))
    (\<lambda>_ s'. ok s' \<and> hv s' = hv s \<and> (\<exists>D \<subseteq> set hs. X s' = drop_objs (X s) v D)) s"
proof (cases "\<not> valid_id v \<or> 1000 < length hs \<or> list_ex (\<lambda>h. \<not> valid_hash h) hs")
  case True
  then have t: "default_delete_chunks del v hs = io_throw InvalidInput" by (simp only: default_delete_chunks_def if_True)
  have "X s = drop_objs (X s) v {}" by simp
  then have "\<exists>D \<subseteq> set hs. X s = drop_objs (X s) v D" by blast
  then show ?thesis using assms(2) unfolding t post_throw by simp
next
  case False
  obtain r s' where run: "join_workers (map (\<lambda>w. delete_list del v (worker_share w hs)) [0..<min 8 (length hs)]) (Ok ()) s = (r, s')"
    by force
  have sh: "(\<Union>w \<in> set [0..<min 8 (length hs)]. set (worker_share w hs)) = set hs"
    using worker_shares [of hs] by (simp add: atLeast0LessThan)
  note j = deletes_join [OF deletes_list [where del = del and hv = hv and X = X and ok = ok and v = v, OF assms(1)] assms(2) run, unfolded sh]
  have "default_delete_chunks del v hs s = (r, s')"
    using False run by (simp add: default_delete_chunks_def)
  then show ?thesis using j by (cases r) (auto simp: post_def)
qed

lemma sw_delete_deletes: "deletes sw_heads sw_view sw_ok v {h} (sw_delete_chunk v h)"
  by (auto simp: deletes_def post_def sw_delete_chunk_def Let_def sw_ok_def sw_view_def drop_objs_def restrict_map_def fun_eq_iff
      intro!: exI [of _ "{h}"])

lemma sw_listed: "distinct (map snd (filter (\<lambda>(v, _). v = i) (map fst m)))" "set (map snd (filter (\<lambda>(v, _). v = i) (map fst m))) = {h. (i, h) \<in> fst ` set m}"
  if "bt_ok m"
proof -
  have "distinct (map fst m)" using that by (rule bt_ok_distinct)
  then have "distinct (filter (\<lambda>(v, _). v = i) (map fst m))" by simp
  moreover have "inj_on snd (set (filter (\<lambda>(v, _). v = i) (map fst m)))" by (auto simp: inj_on_def)
  ultimately show "distinct (map snd (filter (\<lambda>(v, _). v = i) (map fst m)))" by (simp add: distinct_map)
  show "set (map snd (filter (\<lambda>(v, _). v = i) (map fst m))) = {h. (i, h) \<in> fst ` set m}" by force
qed

lemma sw_dom: "dom (sw_view s v) = {h. (v, h) \<in> fst ` set (sw_chunks s)}"
  by (auto simp: sw_view_def dom_map_of_conv_image_fst [symmetric] dom_def)

interpretation swept: reclaim_store "sweep_store dg" "\<lambda>s. bt_get (sw_heads s)" sw_view sw_ok for dg
proof
  fix s :: sweep_state and v :: string and n :: nat and hs :: "string list"
  assume ok: "sw_ok s"
  show "post (os_head (sweep_store dg) v)
      (\<lambda>h s'. sw_ok s' \<and> bt_get (sw_heads s') = bt_get (sw_heads s) \<and> sw_view s' = sw_view s \<and> h = bt_get (sw_heads s) v)
      (\<lambda>e s'. sw_ok s' \<and> bt_get (sw_heads s') = bt_get (sw_heads s) \<and> sw_view s' = sw_view s) s"
    using ok by (simp add: sweep_store_def sw_head_def post_def)
  show "finite (dom (sw_view s v))"
  proof -
    have "dom (sw_view s v) \<subseteq> snd ` fst ` set (sw_chunks s)" unfolding sw_dom by force
    then show ?thesis by (rule finite_subset) simp
  qed
  define hs where "hs = map snd (take n (filter (\<lambda>(v', _). v' = v) (map fst (sw_chunks s))))"
  note ls = sw_listed [of "sw_chunks s" v]
  have hs: "hs = take n (map snd (filter (\<lambda>(v', _). v' = v) (map fst (sw_chunks s))))" by (simp add: hs_def take_map)
  have h: "distinct hs" "set hs \<subseteq> dom (sw_view s v)"
    using ls ok set_take_subset [of n "map snd (filter (\<lambda>(v', _). v' = v) (map fst (sw_chunks s)))"]
    unfolding hs sw_dom by (auto simp: sw_ok_def distinct_take simp del: set_map set_filter)
  have e: "sw_view s v = Map.empty" if "hs = []" "0 < n"
  proof -
    have "map snd (filter (\<lambda>(v', _). v' = v) (map fst (sw_chunks s))) = []" using that unfolding hs by (simp only: take_eq_Nil) simp
    then have "dom (sw_view s v) = {}" using ls(2) ok unfolding sw_dom by (simp add: sw_ok_def)
    then show ?thesis by simp
  qed
  show "post (os_list_chunks (sweep_store dg) v n)
      (\<lambda>hs s'. sw_ok s' \<and> bt_get (sw_heads s') = bt_get (sw_heads s) \<and> sw_view s' = sw_view s \<and> distinct hs
         \<and> set hs \<subseteq> dom (sw_view s v) \<and> (hs = [] \<longrightarrow> sw_view s v = Map.empty))
      (\<lambda>e s'. sw_ok s' \<and> bt_get (sw_heads s') = bt_get (sw_heads s) \<and> sw_view s' = sw_view s) s" if "0 < n"
    using ok h e that by (simp add: sweep_store_def sw_list_chunks_def post_def hs_def)
next
  fix s :: sweep_state and v :: string and hs :: "string list"
  assume ok: "sw_ok s"
  have del: "os_delete_chunks (sweep_store dg) = default_delete_chunks sw_delete_chunk" by (simp add: sweep_store_def)
  show "post (os_delete_chunks (sweep_store dg) v hs)
      (\<lambda>_ s'. sw_ok s' \<and> bt_get (sw_heads s') = bt_get (sw_heads s) \<and> sw_view s' = drop_objs (sw_view s) v (set hs))
      (\<lambda>e s'. sw_ok s' \<and> bt_get (sw_heads s') = bt_get (sw_heads s) \<and> (\<exists>D \<subseteq> set hs. sw_view s' = drop_objs (sw_view s) v D)) s"
    unfolding del
    by (rule post_mono [OF default_delete_chunks_post [where del = sw_delete_chunk and v = v, OF sw_delete_deletes ok]]) simp_all
qed

section \<open>Properties\<close>

text \<open>
  C32. A pass over a retired volume never touches a head, another volume or an object of
  a volume whose head is not its tombstone, whatever the pass returns. A successful pass
  deleted at most \<open>limit\<close> objects, exactly as many as it reports, and it reports
  completion only when the volume has no objects left.
\<close>

theorem sweep_safe:
  assumes "reclaim_store os heads objs ok" "ok s" "sweep tc os v limit s = (r, s')"
  shows "heads s' = heads s \<and> (\<forall>w. w \<noteq> v \<longrightarrow> objs s' w = objs s w) \<and> objs s' v \<subseteq>\<^sub>m objs s v
    \<and> (objs s' v \<noteq> objs s v \<longrightarrow> (\<exists>h. heads s v = Some h \<and> retired tc v h = Ok True))
    \<and> (\<forall>p. r = Ok p \<longrightarrow> pg_deleted_objects p \<le> limit
         \<and> card (dom (objs s' v)) + pg_deleted_objects p = card (dom (objs s v))
         \<and> (pg_complete p \<longleftrightarrow> objs s v = Map.empty) \<and> (pg_complete p \<longrightarrow> objs s' v = Map.empty))"
proof (cases r)
  case (Ok p)
  from post_run [OF reclaim_store.sweep_post [OF assms(1,2)] assms(3) [unfolded Ok]]
  obtain h hs where p: "heads s' = heads s" "heads s v = Some h" "retired tc v h = Ok True" "distinct hs" "set hs \<subseteq> dom (objs s v)"
      "objs s' = drop_objs (objs s) v (set hs)" "length hs \<le> limit" "p = \<lparr>pg_deleted_objects = length hs, pg_complete = (hs = [])\<rparr>"
      "hs = [] \<longrightarrow> objs s v = Map.empty" by blast
  have "card (dom (objs s' v)) + length hs = card (dom (objs s v))"
    using reclaim_store.card_drop [OF assms(1,2) p(5,4)] p(6) by simp
  moreover have "objs s v = Map.empty \<longrightarrow> hs = []" using p(5) by auto
  ultimately show ?thesis
    using p Ok by (auto simp: map_le_def restrict_map_def)
next
  case (Err e)
  from post_run_err [OF reclaim_store.sweep_post [OF assms(1,2)] assms(3) [unfolded Err]]
  obtain D where "heads s' = heads s" "objs s' = drop_objs (objs s) v D"
    "D \<noteq> {} \<longrightarrow> (\<exists>h. heads s v = Some h \<and> retired tc v h = Ok True)" by blast
  then show ?thesis using Err by (auto simp: map_le_def restrict_map_def fun_eq_iff)
qed

text \<open>A retired volume with one object, in the service of the tests.\<close>

definition demo_tomb :: "unit tomb_codec" where
  "demo_tomb = \<lparr>tc_parse = (\<lambda>_. Some ()), tc_format_is_5 = (\<lambda>_. True),
     tc_from_value = (\<lambda>_. Some \<lparr>ts_format = 5, ts_volume = ''disk'', ts_deleted = True\<rparr>), tc_to_vec = (\<lambda>_. Some [])\<rparr>"

definition demo_swept :: sweep_state where
  "demo_swept = \<lparr>sw_heads = [(''disk'', \<lparr>h_revision = ''1'', h_manifest = []\<rparr>)],
     sw_chunks = [((''disk'', demo_hash), [1]), ((''peer'', demo_hash), [2])], sw_revision = 1, sw_lose_publish = False,
     sw_fail_delete = False, sw_reads = 0\<rparr>"

lemma demo_sweep:
  "sweep demo_tomb (sweep_store (\<lambda>_. demo_hash)) ''disk'' 1 demo_swept =
    (Ok \<lparr>pg_deleted_objects = 1, pg_complete = False\<rparr>, demo_swept\<lparr>sw_chunks := [((''peer'', demo_hash), [2])]\<rparr>)"
proof -
  have id: "valid_id ''disk''" "valid_hash demo_hash" by code_simp+
  have head: "sw_head ''disk'' demo_swept = (Ok (Some \<lparr>h_revision = ''1'', h_manifest = []\<rparr>), demo_swept)"
    by (simp add: sw_head_def demo_swept_def)
  have ret: "retired demo_tomb ''disk'' \<lparr>h_revision = ''1'', h_manifest = []\<rparr> = Ok True"
    by (simp add: retired_def demo_tomb_def res_bind_def ok_or_def)
  have ls: "sw_list_chunks ''disk'' (Suc 0) demo_swept = (Ok [demo_hash], demo_swept)"
    by (simp add: sw_list_chunks_def demo_swept_def)
  have share: "worker_share 0 [demo_hash] = [demo_hash]" by (simp add: worker_share_def)
  have del: "default_delete_chunks sw_delete_chunk ''disk'' [demo_hash] demo_swept =
      (Ok (), demo_swept\<lparr>sw_chunks := [((''peer'', demo_hash), [2])]\<rparr>)"
    using id by (simp add: default_delete_chunks_def share io_bind_def io_return_def sw_delete_chunk_def bt_remove_def demo_swept_def)
  show ?thesis
    using id ret
    by (simp add: sweep_def sweep_store_def io_bind_def head ls del io_lift_def ok_or_def io_return_def)
qed

theorem sweep_safe_witness:
  "sweep demo_tomb (sweep_store (\<lambda>_. demo_hash)) ''disk'' 1 demo_swept =
     (Ok \<lparr>pg_deleted_objects = 1, pg_complete = False\<rparr>, demo_swept\<lparr>sw_chunks := [((''peer'', demo_hash), [2])]\<rparr>)
   \<and> card (dom (sw_view (demo_swept\<lparr>sw_chunks := [((''peer'', demo_hash), [2])]\<rparr>) ''disk'')) + 1 = card (dom (sw_view demo_swept ''disk''))"
proof -
  have "sw_ok demo_swept" by (simp add: sw_ok_def demo_swept_def)
  from sweep_safe [OF swept.reclaim_store_axioms this demo_sweep] show ?thesis
    using demo_sweep by simp
qed

end
