(* ===== verification/Indexed.thy ===== *)
theory Indexed
  imports Base_Catalog Reclaim
begin

text \<open>
  Indexed volumes (\<open>rust/ahvm-volume/src/indexed.rs\<close>): a root names immutable index
  pages of 1024 slots, a slot names an immutable data object, directly or as a range of a
  pack of up to sixteen blocks, and pages that equal those of a shared base image are
  inherited from it. Every method of \<open>IndexedVolume\<close> is here.
\<close>

section \<open>Constants, roots and handles\<close>

definition DIRTY_LIMIT :: nat where "DIRTY_LIMIT = 64 * 1024 * 1024"
definition WRITE_LIMIT :: nat where "WRITE_LIMIT = 32 * 1024 * 1024"
definition SLOTS :: nat where "SLOTS = 1024"
definition PAGE_MAGIC :: bytes where "PAGE_MAGIC = [0x41, 0x48, 0x56, 0x4d, 0x50, 0x47, 0x30, 0x32]"
definition PACK_MAGIC :: bytes where "PACK_MAGIC = [0x41, 0x48, 0x56, 0x4d, 0x50, 0x47, 0x30, 0x38]"
definition PACK_PAGE_BYTES :: nat where "PACK_PAGE_BYTES = 128 * 1024"
definition PACK_SLOT_BYTES :: nat where "PACK_SLOT_BYTES = 72"
definition WORKERS :: nat where "WORKERS = 8"

text \<open>Instants and durations are nanoseconds.\<close>

definition from_secs :: "nat \<Rightarrow> nat" where "from_secs n = n * 10 ^ 9"
definition BUDGET :: nat where "BUDGET = from_secs 30"

record replication =
  rp_id :: string
  rp_sequence :: nat

record root =
  rt_format :: nat
  rt_volume :: string
  rt_size :: nat
  rt_generation :: nat
  rt_ready :: bool
  rt_pages :: "(nat, string) btree"
  rt_replication :: "replication option"
  rt_base :: "base_ref option"

record indexed =
  x_root :: root
  x_base :: "catalog option"
  x_revision :: string
  x_dirty :: "(nat, bytes) btree"
  x_poisoned :: bool

text \<open>
  What a handle runs on: serialisation and digest, the store, the clock, and the order in
  which the threads of an upload take their steps, which the world decides.
\<close>

record 's ix_env =
  ix_codec :: "root codec"
  ix_os :: "'s object_store"
  ix_now :: "'s \<Rightarrow> nat \<times> 's"
  ix_sched :: "'s \<Rightarrow> nat list"

definition ix_deadline :: "'s ix_env \<Rightarrow> nat \<Rightarrow> ('s, unit, verror) io" where
  "ix_deadline E end_at s = (case ix_now E s of (t, s') \<Rightarrow> (if end_at \<le> t then Err Deadline else Ok (), s'))"

definition ix_clock :: "'s ix_env \<Rightarrow> ('s, nat, verror) io" where
  "ix_clock E s = (case ix_now E s of (t, s') \<Rightarrow> (Ok t, s'))"

section \<open>Index pages\<close>

definition stride :: "bytes \<Rightarrow> nat" where
  "stride page = (if slice_of page 0 8 = PACK_MAGIC then PACK_SLOT_BYTES else 32)"

definition slot_at :: "bytes \<Rightarrow> nat \<Rightarrow> nat" where
  "slot_at page index = 16 + index mod SLOTS * stride page"

definition page_slot :: "bytes \<Rightarrow> nat \<Rightarrow> string option" where
  "page_slot page index =
     (let at = slot_at page index; hash = slice_of page at (at + 32) in
      if all_zero hash then None else Some (hex_string hash))"

definition object_slot :: "bytes \<Rightarrow> nat \<Rightarrow> (string \<times> nat) option" where
  "object_slot page index =
     (case page_slot page index of
        None \<Rightarrow> None
      | Some chunk \<Rightarrow>
          (let at = slot_at page index in
           if stride page = PACK_SLOT_BYTES \<and> \<not> all_zero (slice_of page (at + 32) (at + 64))
           then Some (hex_string (slice_of page (at + 32) (at + 64)), be_nat (slice_of page (at + 64) (at + 68)))
           else Some (chunk, 0)))"

definition packed_page :: "bytes \<Rightarrow> bytes" where
  "packed_page page =
     (if stride page = PACK_SLOT_BYTES then page
      else
        fold (\<lambda>index out.
            let old = slot_at page index; new = slot_at out index in
            copy_at out new (slice_of page old (old + 32)))
          [0..<SLOTS]
          (copy_at (copy_at (zeros PACK_PAGE_BYTES) 0 PACK_MAGIC) 8 (slice_of page 8 16)))"

text \<open>The scan of the slots of a packed page.\<close>

fun check_slots :: "bytes \<Rightarrow> nat list \<Rightarrow> (bytes \<times> nat, bytes) btree \<Rightarrow> (unit, verror) result" where
  "check_slots bs [] locations = Ok ()"
| "check_slots bs (i # is) locations =
     (let at = slot_at bs i;
          hash = slice_of bs at (at + 32);
          empty = all_zero hash;
          direct = all_zero (slice_of bs (at + 32) (at + 64));
          offset = be_nat (slice_of bs (at + 64) (at + 68)) in
      if \<not> all_zero (slice_of bs (at + 68) (at + 72)) \<or> (empty \<and> \<not> all_zero (slice_of bs (at + 32) (at + 68)))
         \<or> (direct \<and> offset \<noteq> 0) \<or> (\<not> direct \<and> (offset mod CHUNK_BYTES \<noteq> 0 \<or> MAX_OBJECT_BYTES \<le> offset))
      then Err Corrupt
      else if \<not> empty \<and> \<not> direct
        then
          (let key = (slice_of bs (at + 32) (at + 64), offset) in
           case bt_get locations key of
             Some previous \<Rightarrow>
               (if previous \<noteq> hash then Err Corrupt else check_slots bs is (bt_insert key hash locations))
           | None \<Rightarrow> check_slots bs is (bt_insert key hash locations))
      else check_slots bs is locations)"

definition page_check :: "(bytes \<Rightarrow> string) \<Rightarrow> nat \<Rightarrow> bool \<Rightarrow> nat \<Rightarrow> string \<Rightarrow> bytes \<Rightarrow> (unit, verror) result" where
  "page_check dg sz packed index hash bs =
     (let page_bytes = (if packed then PACK_PAGE_BYTES else CHUNK_BYTES);
          width = (if packed then PACK_SLOT_BYTES else 32);
          magic = (if packed then PACK_MAGIC else PAGE_MAGIC) in
      if length bs \<noteq> page_bytes \<or> dg bs \<noteq> hash \<or> slice_of bs 0 8 \<noteq> magic \<or> be_nat (slice_of bs 8 16) \<noteq> index
         \<or> \<not> all_zero (drop (16 + SLOTS * width) bs)
      then Err Corrupt
      else if sz div CHUNK_BYTES < index * SLOTS then Err Panic
      else
        (let valid = min (sz div CHUNK_BYTES - index * SLOTS) SLOTS in
         if \<not> all_zero (slice_of bs (16 + valid * width) (16 + SLOTS * width)) then Err Corrupt
         else if packed then check_slots bs [0..<SLOTS] [] else Ok ()))"

section \<open>Reading\<close>

definition x_size :: "indexed \<Rightarrow> nat" where
  "x_size vol = rt_size (x_root vol)"

definition x_dirty_bytes :: "indexed \<Rightarrow> nat" where
  "x_dirty_bytes vol = length (x_dirty vol) * CHUNK_BYTES"

definition x_check :: "indexed \<Rightarrow> nat \<Rightarrow> nat \<Rightarrow> (unit, verror) result" where
  "x_check vol at len =
     (if x_poisoned vol then Err ReopenRequired
      else if (case checked_add at len of None \<Rightarrow> True | Some e \<Rightarrow> rt_size (x_root vol) < e) then Err InvalidInput
      else Ok ())"

definition packed :: "indexed \<Rightarrow> bool" where
  "packed vol \<longleftrightarrow> 8 \<le> rt_format (x_root vol) \<and> rt_format (x_root vol) \<le> 11"

definition page_from :: "'s ix_env \<Rightarrow> indexed \<Rightarrow> nat \<Rightarrow> string option \<Rightarrow> bool \<Rightarrow> ('s, bytes, verror) io" where
  "page_from E vol index oh base =
     (let pk = (packed vol \<and> \<not> base);
          page_bytes = (if pk then PACK_PAGE_BYTES else CHUNK_BYTES);
          magic = (if pk then PACK_MAGIC else PAGE_MAGIC) in
      io_bind
        (case oh of
           Some hash \<Rightarrow>
             io_bind
               (if base
                then io_bind (io_lift (ok_or Corrupt (rt_base (x_root vol)))) (\<lambda>b. os_base_chunk (ix_os E) (b_image b) hash None)
                else os_chunk (ix_os E) (rt_volume (x_root vol)) hash) (\<lambda>bs.
             io_bind (io_lift (page_check (c_digest (ix_codec E)) (rt_size (x_root vol)) pk index hash bs)) (\<lambda>_. io_return bs))
         | None \<Rightarrow> io_return (copy_at (copy_at (zeros page_bytes) 0 magic) 8 (be_bytes 8 index)))
        (\<lambda>bs. io_return (if packed vol \<and> base then packed_page bs else bs)))"

definition catalog_page :: "indexed \<Rightarrow> nat \<Rightarrow> string option" where
  "catalog_page vol index = (case x_base vol of None \<Rightarrow> None | Some b \<Rightarrow> bt_get (ct_pages b) index)"

definition base_page :: "'s ix_env \<Rightarrow> indexed \<Rightarrow> nat \<Rightarrow> ('s, bytes, verror) io" where
  "base_page E vol index = page_from E vol index (catalog_page vol index) True"

definition x_page :: "'s ix_env \<Rightarrow> indexed \<Rightarrow> nat \<Rightarrow> ('s, bytes, verror) io" where
  "x_page E vol index =
     (let hash = bt_get (rt_pages (x_root vol)) index;
          inherited = (hash \<noteq> None \<and> x_base vol \<noteq> None \<and> catalog_page vol index = hash) in
      page_from E vol index hash inherited)"

text \<open>The references of a page that are not those of the base page, and the mark phase.\<close>

fun slot_references :: "bytes \<Rightarrow> bytes \<Rightarrow> nat list \<Rightarrow> bytes list \<Rightarrow> (bytes list, verror) result" where
  "slot_references page bpage [] live = Ok live"
| "slot_references page bpage (i # is) live =
     (case object_slot page i of
        None \<Rightarrow> slot_references page bpage is live
      | Some (obj, _) \<Rightarrow>
          if page_slot page i = page_slot bpage i \<and> object_slot page i = object_slot bpage i
          then slot_references page bpage is live
          else res_bind (hash_decode obj) (\<lambda>raw. slot_references page bpage is (live @ [raw])))"

fun page_references :: "'s ix_env \<Rightarrow> indexed \<Rightarrow> 's cancel \<Rightarrow> (nat \<times> string) list \<Rightarrow> bytes list \<Rightarrow> ('s, bytes list, verror) io" where
  "page_references E vol cancel [] live = io_return live"
| "page_references E vol cancel ((index, hash) # pages) live =
     io_bind (check_cancel cancel) (\<lambda>_.
       if x_base vol \<noteq> None \<and> catalog_page vol index = Some hash
       then page_references E vol cancel pages live
       else
         io_bind (x_page E vol index) (\<lambda>page.
         io_bind (base_page E vol index) (\<lambda>bpage.
         io_bind (io_lift (hash_decode hash)) (\<lambda>raw.
         io_bind (io_lift (slot_references page bpage [0..<SLOTS] (live @ [raw]))) (\<lambda>live'.
           page_references E vol cancel pages live')))))"

definition references :: "'s ix_env \<Rightarrow> indexed \<Rightarrow> 's cancel \<Rightarrow> ('s, bytes list, verror) io" where
  "references E vol cancel =
     io_bind (page_references E vol cancel (rt_pages (x_root vol)) []) (\<lambda>live.
     io_bind (check_cancel cancel) (\<lambda>_. io_return (remdups_adj (sort live))))"

text \<open>The blocks that a read announces to the cache before it waits for its own.\<close>

fun prefetch_lists :: "bytes \<Rightarrow> bytes option \<Rightarrow> string \<Rightarrow> string \<Rightarrow> nat list \<Rightarrow> string list \<times> string list \<Rightarrow> string list \<times> string list" where
  "prefetch_lists page bp hash obj [] acc = acc"
| "prefetch_lists page bp hash obj (i # is) (private, shared) =
     (case page_slot page i of
        None \<Rightarrow> prefetch_lists page bp hash obj is (private, shared)
      | Some nxt \<Rightarrow>
          if nxt = hash then prefetch_lists page bp hash obj is (private, shared)
          else if (case bp of None \<Rightarrow> False | Some p \<Rightarrow> page_slot p i = Some nxt)
            then prefetch_lists page bp hash obj is (private, shared @ [nxt])
          else
            (case object_slot page i of
               None \<Rightarrow> prefetch_lists page bp hash obj is (private, shared)
             | Some (o', _) \<Rightarrow>
                 if o' \<noteq> obj \<and> o' \<notin> set private
                 then prefetch_lists page bp hash obj is (private @ [o'], shared)
                 else prefetch_lists page bp hash obj is (private, shared)))"

definition x_prefetch :: "'s ix_env \<Rightarrow> indexed \<Rightarrow> nat \<Rightarrow> bytes \<Rightarrow> bytes option \<Rightarrow> string \<Rightarrow> string \<Rightarrow> ('s, unit, verror) io" where
  "x_prefetch E vol index page bp hash obj s =
     (let end_at = min (min (index + 8) ((index div SLOTS + 1) * SLOTS)) (x_size vol div CHUNK_BYTES);
          (private, shared) = prefetch_lists page bp hash obj [index + 1..<end_at] ([], []);
          s1 = os_prefetch (ix_os E) (rt_volume (x_root vol)) private s in
      (Ok (), case rt_base (x_root vol) of None \<Rightarrow> s1 | Some b \<Rightarrow> os_prefetch_base (ix_os E) (b_image b) shared s1))"

definition extract_block :: "(bytes \<Rightarrow> string) \<Rightarrow> bool \<Rightarrow> string \<Rightarrow> string \<Rightarrow> nat \<Rightarrow> bytes \<Rightarrow> (bytes, verror) result" where
  "extract_block dg inherited hash obj offset bs =
     res_bind
       (if \<not> inherited \<and> obj \<noteq> hash
        then
          (if MAX_OBJECT_BYTES < length bs \<or> length bs mod CHUNK_BYTES \<noteq> 0 \<or> dg bs \<noteq> obj
              \<or> (case checked_add offset CHUNK_BYTES of None \<Rightarrow> True | Some e \<Rightarrow> length bs < e)
           then Err Corrupt else Ok (slice_of bs offset (offset + CHUNK_BYTES)))
        else Ok bs)
       (\<lambda>b. if length b \<noteq> CHUNK_BYTES \<or> dg b \<noteq> hash then Err Corrupt else Ok b)"

text \<open>The part of a load after the slot and the base page are known.\<close>

definition x_fetch :: "'s ix_env \<Rightarrow> indexed \<Rightarrow> nat \<Rightarrow> bool \<Rightarrow> bytes \<Rightarrow> bytes option \<Rightarrow> string \<Rightarrow> ('s, bytes, verror) io" where
  "x_fetch E vol index prefetch page bp hash =
     (let inherited = (case bp of None \<Rightarrow> False
            | Some p \<Rightarrow> page_slot p index = Some hash \<and> object_slot p index = object_slot page index) in
      io_bind (io_lift (ok_or Corrupt (object_slot page index))) (\<lambda>(obj, offset).
      io_bind (\<lambda>s. (Ok (if inherited then None else os_cached_chunk (ix_os E) (rt_volume (x_root vol)) obj s), s)) (\<lambda>cached.
      io_bind (if prefetch \<and> cached = None then x_prefetch E vol index page bp hash obj else io_return ()) (\<lambda>_.
      io_bind
        (if inherited
         then io_bind (io_lift (ok_or Panic (rt_base (x_root vol)))) (\<lambda>b.
           os_base_chunk (ix_os E) (b_image b) hash (Some (index * CHUNK_BYTES)))
         else (case cached of Some bs \<Rightarrow> io_return bs | None \<Rightarrow> os_chunk (ix_os E) (rt_volume (x_root vol)) obj)) (\<lambda>bs.
      io_lift (extract_block (c_digest (ix_codec E)) inherited hash obj offset bs))))))"

definition x_load :: "'s ix_env \<Rightarrow> indexed \<Rightarrow> nat \<Rightarrow> bool \<Rightarrow> ('s, bytes, verror) io" where
  "x_load E vol index prefetch =
     (case bt_get (x_dirty vol) index of
        Some b \<Rightarrow> io_return b
      | None \<Rightarrow>
          io_bind (x_page E vol (index div SLOTS)) (\<lambda>page.
            case page_slot page index of
              None \<Rightarrow> io_return (zeros CHUNK_BYTES)
            | Some hash \<Rightarrow>
                io_bind (if x_base vol = None then io_return None
                         else io_bind (base_page E vol (index div SLOTS)) (\<lambda>p. io_return (Some p))) (\<lambda>bp.
                  x_fetch E vol index prefetch page bp hash)))"

definition x_read :: "'s ix_env \<Rightarrow> indexed \<Rightarrow> nat \<Rightarrow> bytes \<Rightarrow> ('s, bytes, verror) io" where
  "x_read E vol offset buf =
     io_bind (io_lift (x_check vol offset (length buf))) (\<lambda>_.
       if WRITE_LIMIT < length buf then io_throw InvalidInput
       else read_loop (\<lambda>i. x_load E vol i True) offset (length buf) 0 buf)"

section \<open>Creating and opening\<close>

definition fresh_handle :: "root \<Rightarrow> catalog option \<Rightarrow> string \<Rightarrow> indexed" where
  "fresh_handle r b rv = \<lparr>x_root = r, x_base = b, x_revision = rv, x_dirty = [], x_poisoned = False\<rparr>"

text \<open>The first publication of a root, common to the two ways to create a volume.\<close>

definition publish_new :: "'s ix_env \<Rightarrow> root \<Rightarrow> catalog option \<Rightarrow> bytes \<Rightarrow> ('s, indexed, verror) io" where
  "publish_new E r b bs =
     io_bind (io_map_err publication_error (os_publish (ix_os E) (rt_volume r) None bs)) (\<lambda>revision.
       if revision = [] then io_throw Uncertain else io_return (fresh_handle r b revision))"

definition create_inner :: "'s ix_env \<Rightarrow> string \<Rightarrow> nat \<Rightarrow> bool \<Rightarrow> ('s, indexed, verror) io" where
  "create_inner E i sz ready =
     (if \<not> valid_id i \<or> sz = 0 \<or> MAX_SIZE < sz \<or> sz mod CHUNK_BYTES \<noteq> 0 then io_throw InvalidInput
      else
        (let r = \<lparr>rt_format = (if ready then 8 else 2), rt_volume = i, rt_size = sz, rt_generation = 0, rt_ready = ready,
               rt_pages = [], rt_replication = None, rt_base = None\<rparr> in
         io_bind (io_lift (ok_or Corrupt (c_to_vec (ix_codec E) r))) (\<lambda>bs. publish_new E r None bs)))"

definition x_create :: "'s ix_env \<Rightarrow> string \<Rightarrow> nat \<Rightarrow> ('s, indexed, verror) io" where
  "x_create E i sz = create_inner E i sz True"

definition create_import :: "'s ix_env \<Rightarrow> string \<Rightarrow> nat \<Rightarrow> ('s, indexed, verror) io" where
  "create_import E i sz = create_inner E i sz False"

definition create_from_base :: "'s ix_env \<Rightarrow> string \<Rightarrow> base_ref \<Rightarrow> ('s, indexed, verror) io" where
  "create_from_base E i reference =
     (if \<not> valid_id i then io_throw InvalidInput
      else
        io_bind (catalog_load (c_digest (ix_codec E)) (ix_os E) reference) (\<lambda>base.
          let r = \<lparr>rt_format = 10, rt_volume = i, rt_size = ct_size base, rt_generation = 0, rt_ready = True,
                rt_pages = ct_pages base, rt_replication = None, rt_base = Some reference\<rparr> in
          io_bind (io_lift (ok_or Corrupt (c_to_vec (ix_codec E) r))) (\<lambda>bs.
            if MAX_MANIFEST_BYTES < length bs then io_throw Corrupt else publish_new E r (Some base) bs)))"

definition export_base :: "'s ix_env \<Rightarrow> indexed \<Rightarrow> ('s, base_ref, verror) io" where
  "export_base E vol =
     (if \<not> rt_ready (x_root vol) \<or> (packed vol \<and> rt_pages (x_root vol) \<noteq> []) \<or> rt_base (x_root vol) \<noteq> None
         \<or> rt_replication (x_root vol) \<noteq> None \<or> x_dirty vol \<noteq> [] \<or> x_poisoned vol
      then io_throw InvalidInput
      else
        io_bind (io_lift (hash_decode (rt_volume (x_root vol)))) (\<lambda>_.
        io_bind (io_lift (catalog_encode \<lparr>ct_size = x_size vol, ct_pages = rt_pages (x_root vol)\<rparr> (rt_volume (x_root vol)))) (\<lambda>bs.
          let hash = c_digest (ix_codec E) bs in
          io_bind (os_put_chunk (ix_os E) (rt_volume (x_root vol)) hash bs) (\<lambda>_.
            io_return \<lparr>b_image = rt_volume (x_root vol), b_catalog = hash\<rparr>))))"

definition root_valid :: "string \<Rightarrow> root \<Rightarrow> bool" where
  "root_valid i r \<longleftrightarrow>
     rt_format r \<in> {2, 3, 6, 7, 8, 9, 10, 11}
     \<and> (rt_format r \<in> {3, 7, 9, 11}) = (rt_replication r \<noteq> None)
     \<and> (rt_format r \<in> {6, 7, 10, 11}) = (rt_base r \<noteq> None)
     \<and> (case rt_replication r of None \<Rightarrow> True | Some m \<Rightarrow> valid_hash (rp_id m) \<and> rp_sequence m \<noteq> 0)
     \<and> rt_volume r = i \<and> rt_size r \<noteq> 0 \<and> rt_size r \<le> MAX_SIZE \<and> rt_size r mod CHUNK_BYTES = 0
     \<and> list_all (\<lambda>(p, h). p < div_ceil (rt_size r div CHUNK_BYTES) SLOTS \<and> valid_hash h) (rt_pages r)"

definition decode_head :: "'s ix_env \<Rightarrow> string \<Rightarrow> head \<Rightarrow> bool \<Rightarrow> ('s, indexed, verror) io" where
  "decode_head E i h ready =
     (if MAX_MANIFEST_BYTES < length (h_manifest h) \<or> h_revision h = [] then io_throw Corrupt
      else
        io_bind (io_lift (ok_or Corrupt (c_from_slice (ix_codec E) (h_manifest h)))) (\<lambda>r.
          if \<not> root_valid i r then io_throw Corrupt
          else if ready \<and> \<not> rt_ready r then io_throw NotReady
          else
            io_bind (case rt_base r of None \<Rightarrow> io_return None
                     | Some b \<Rightarrow> io_bind (catalog_load (c_digest (ix_codec E)) (ix_os E) b) (\<lambda>c. io_return (Some c))) (\<lambda>base.
              if (case base of None \<Rightarrow> False | Some b \<Rightarrow> ct_size b \<noteq> rt_size r) then io_throw Corrupt
              else io_return (fresh_handle r base (h_revision h)))))"

definition from_head :: "'s ix_env \<Rightarrow> string \<Rightarrow> head \<Rightarrow> ('s, indexed, verror) io" where
  "from_head E i h = decode_head E i h True"

definition x_open :: "'s ix_env \<Rightarrow> string \<Rightarrow> ('s, indexed, verror) io" where
  "x_open E i =
     (if \<not> valid_id i then io_throw InvalidInput
      else
        io_bind (os_head (ix_os E) i) (\<lambda>oh.
        io_bind (io_lift (ok_or NotFound oh)) (\<lambda>h. from_head E i h)))"

definition resume_import :: "'s ix_env \<Rightarrow> string \<Rightarrow> nat \<Rightarrow> ('s, indexed, verror) io" where
  "resume_import E i sz =
     (if \<not> valid_id i then io_throw InvalidInput
      else
        io_bind (os_head (ix_os E) i) (\<lambda>oh.
        io_bind (io_lift (ok_or NotFound oh)) (\<lambda>h.
        io_bind (decode_head E i h False) (\<lambda>disk.
          if rt_ready (x_root disk) \<or> rt_format (x_root disk) \<noteq> 2 \<or> x_size disk \<noteq> sz then io_throw Conflict
          else io_return disk))))"

definition clean_copy :: "indexed \<Rightarrow> (indexed, verror) result" where
  "clean_copy vol =
     res_bind (x_check vol 0 0) (\<lambda>_.
       if x_dirty vol \<noteq> [] then Err InvalidInput
       else Ok (fresh_handle (x_root vol) (x_base vol) (x_revision vol)))"

section \<open>Publication\<close>

definition publish_cancellable :: "'s ix_env \<Rightarrow> root \<Rightarrow> nat \<Rightarrow> 's cancel \<Rightarrow> (indexed \<times> 's, nat, verror) io" where
  "publish_cancellable E nxt end_at cancel =
     io_bind (io_lift (ok_or Corrupt (c_to_vec (ix_codec E) nxt))) (\<lambda>bs.
       if MAX_MANIFEST_BYTES < length bs then io_throw Corrupt
       else
         io_bind (lift_world (ix_deadline E end_at)) (\<lambda>_.
         io_bind (lift_world (check_cancel cancel)) (\<lambda>_.
           (\<lambda>(vol, s).
              (case os_publish_cancellable (ix_os E) (rt_volume nxt) (Some (x_revision vol)) bs cancel s of
                 (Ok revision, t) \<Rightarrow>
                   (if revision \<noteq> []
                    then (Ok (rt_generation nxt), vol\<lparr>x_root := nxt, x_revision := revision, x_dirty := []\<rparr>, t)
                    else (Err (publication_error Uncertain), vol\<lparr>x_poisoned := True\<rparr>, t))
               | (Err e, t) \<Rightarrow>
                   (if e = Deadline then (Err Deadline, vol, t)
                    else (Err (publication_error e), vol\<lparr>x_poisoned := True\<rparr>, t)))))))"

definition x_publish :: "'s ix_env \<Rightarrow> root \<Rightarrow> nat \<Rightarrow> (indexed \<times> 's, nat, verror) io" where
  "x_publish E nxt end_at = publish_cancellable E nxt end_at never"

section \<open>Uploads by a pool of threads\<close>

text \<open>
  A worker is the list of its remaining steps and its result so far; it stops at its first
  error. The schedule says which worker takes the next step; after it, every worker runs
  to its end. The results are joined in order, the last error wins, and a panic in a
  worker is the error \<open>Store\<close>.
\<close>

type_synonym 's worker = "('s, unit, verror) io list \<times> (unit, verror) result"

definition worker_step :: "nat \<Rightarrow> 's worker list \<times> 's \<Rightarrow> 's worker list \<times> 's" where
  "worker_step w = (\<lambda>(ws, s).
     if w < length ws
     then (case ws ! w of
             ([], r) \<Rightarrow> (ws, s)
           | (m # ms, r) \<Rightarrow>
               (case m s of
                  (Ok _, s') \<Rightarrow> (ws[w := (ms, Ok ())], s')
                | (Err e, s') \<Rightarrow> (ws[w := ([], Err e)], s')))
     else (ws, s))"

definition join_result :: "'s worker list \<Rightarrow> (unit, verror) result" where
  "join_result ws =
     foldl (\<lambda>res (_, q). case q of Ok _ \<Rightarrow> res | Err e \<Rightarrow> Err (if e = Panic then Store else e)) (Ok ()) ws"

definition run_workers :: "nat list \<Rightarrow> ('s, unit, verror) io list list \<Rightarrow> ('s, unit, verror) io" where
  "run_workers sched jobs s =
     (let tail = concat (map (\<lambda>w. replicate (length (jobs ! w)) w) [0..<length jobs]);
          (ws, s') = fold worker_step (sched @ tail) (map (\<lambda>ms. (ms, Ok ())) jobs, s) in
      (join_result ws, s'))"

definition worker_jobs :: "nat \<Rightarrow> nat \<Rightarrow> (nat \<Rightarrow> ('s, unit, verror) io) \<Rightarrow> ('s, unit, verror) io list list" where
  "worker_jobs concurrency n job =
     map (\<lambda>w. map job (filter (\<lambda>i. i mod concurrency = w) [0..<n])) [0..<min concurrency n]"

definition upload_all :: "'s ix_env \<Rightarrow> indexed \<Rightarrow> (string \<times> bytes) list \<Rightarrow> nat \<Rightarrow> nat \<Rightarrow> ('s, unit, verror) io" where
  "upload_all E vol objects end_at concurrency s =
     run_workers (ix_sched E s)
       (worker_jobs concurrency (length objects) (\<lambda>i.
          io_bind (ix_deadline E end_at) (\<lambda>_.
            os_put_chunk (ix_os E) (rt_volume (x_root vol)) (fst (objects ! i)) (snd (objects ! i))))) s"

definition upload_objects ::
  "'s ix_env \<Rightarrow> indexed \<Rightarrow> (string \<times> bytes) list \<Rightarrow> nat \<Rightarrow> nat \<Rightarrow> 's cancel \<Rightarrow> ('s, unit, verror) io" where
  "upload_objects E vol objects end_at concurrency cancel s =
     run_workers (ix_sched E s)
       (worker_jobs concurrency (length objects) (\<lambda>i.
          io_bind (ix_deadline E end_at) (\<lambda>_.
          io_bind (check_cancel cancel) (\<lambda>_.
            os_put_chunk_cancellable (ix_os E) (rt_volume (x_root vol)) (fst (objects ! i)) (snd (objects ! i)) cancel)))) s"

section \<open>Commit of direct pages\<close>

definition or_insert :: "'k::linorder \<Rightarrow> 'v \<Rightarrow> ('k, 'v) btree \<Rightarrow> ('k, 'v) btree" where
  "or_insert k v m = (case bt_get m k of None \<Rightarrow> bt_insert k v m | Some _ \<Rightarrow> m)"

text \<open>The page of a dirty block, from the pages already fetched or from the store.\<close>

definition entry_page :: "'s ix_env \<Rightarrow> indexed \<Rightarrow> (nat, bytes) btree \<Rightarrow> nat \<Rightarrow> ('s, bytes, verror) io" where
  "entry_page E vol pages pi = (case bt_get pages pi of Some page \<Rightarrow> io_return page | None \<Rightarrow> x_page E vol pi)"

fun direct_blocks ::
  "'s ix_env \<Rightarrow> indexed \<Rightarrow> nat \<Rightarrow> (nat \<times> bytes) list \<Rightarrow> (nat, bytes) btree \<Rightarrow> (string, bytes) btree
   \<Rightarrow> ('s, (nat, bytes) btree \<times> (string, bytes) btree, verror) io" where
  "direct_blocks E vol end_at [] pages uploads = io_return (pages, uploads)"
| "direct_blocks E vol end_at ((index, bs) # dirty) pages uploads =
     io_bind (ix_deadline E end_at) (\<lambda>_.
     io_bind (entry_page E vol pages (index div SLOTS)) (\<lambda>page.
       let pi = index div SLOTS; at = 16 + index mod SLOTS * 32 in
       if all_zero bs
       then direct_blocks E vol end_at dirty (bt_insert pi (copy_at page at (zeros 32)) pages) uploads
       else
         (let hash = c_digest (ix_codec E) bs in
          io_bind (io_lift (hash_decode hash)) (\<lambda>raw.
            if slice_of page at (at + 32) = raw
            then direct_blocks E vol end_at dirty (bt_insert pi page pages) uploads
            else
              io_bind (if x_base vol = None then io_return False
                       else io_bind (base_page E vol pi) (\<lambda>bp. io_return (page_slot bp index = Some hash))) (\<lambda>inherited.
                direct_blocks E vol end_at dirty (bt_insert pi (copy_at page at raw) pages)
                  (if inherited then uploads else or_insert hash bs uploads))))))"

fun direct_pages ::
  "(bytes \<Rightarrow> string) \<Rightarrow> indexed \<Rightarrow> (nat \<times> bytes) list \<Rightarrow> (nat, string) btree \<Rightarrow> (string, bytes) btree
   \<Rightarrow> (nat, string) btree \<times> (string, bytes) btree" where
  "direct_pages dg vol [] nxt uploads = (nxt, uploads)"
| "direct_pages dg vol ((index, page) # pages) nxt uploads =
     (if all_zero (drop 16 page) then direct_pages dg vol pages (bt_remove index nxt) uploads
      else
        (let hash = dg page in
         if bt_get (rt_pages (x_root vol)) index \<noteq> Some hash
         then direct_pages dg vol pages (bt_insert index hash nxt)
           (if x_base vol \<noteq> None \<and> catalog_page vol index = Some hash then uploads else bt_insert hash page uploads)
         else direct_pages dg vol pages nxt uploads))"

text \<open>A commit that changes no page is a clean flush.\<close>

definition clean_flush :: "indexed \<Rightarrow> root \<Rightarrow> bool" where
  "clean_flush vol nxt \<longleftrightarrow> rt_pages nxt = rt_pages (x_root vol) \<and> rt_replication nxt = rt_replication (x_root vol)"

definition commit_direct :: "'s ix_env \<Rightarrow> root \<Rightarrow> nat \<Rightarrow> nat \<Rightarrow> (indexed \<times> 's, nat, verror) io" where
  "commit_direct E nxt end_at concurrency =
     io_bind get_self (\<lambda>vol.
     io_bind (lift_world (direct_blocks E vol end_at (x_dirty vol) [] [])) (\<lambda>(pages, uploads).
       let (np, uploads') = direct_pages (c_digest (ix_codec E)) vol pages (rt_pages nxt) uploads;
           nxt' = nxt\<lparr>rt_pages := np\<rparr> in
       if clean_flush vol nxt'
       then io_bind (set_self (vol\<lparr>x_dirty := []\<rparr>)) (\<lambda>_. io_return (rt_generation (x_root vol)))
       else
         io_bind (lift_world (upload_all E vol uploads' end_at concurrency)) (\<lambda>_.
           x_publish E nxt' end_at)))"

section \<open>Commit of packed pages\<close>

definition stopped :: "'s ix_env \<Rightarrow> nat \<Rightarrow> 's cancel \<Rightarrow> 's cancel" where
  "stopped E end_at cancel s =
     (case cancel s of
        (True, s') \<Rightarrow> (True, s')
      | (False, s') \<Rightarrow> (case ix_now E s' of (t, s'') \<Rightarrow> (end_at \<le> t, s'')))"

record packing =
  pk_pages :: "(nat, bytes) btree"
  pk_chunks :: "(string, bytes) btree"
  pk_changed :: "(nat \<times> string) list"
  pk_base_pages :: "(nat, bytes) btree"

definition packed_entry :: "'s ix_env \<Rightarrow> indexed \<Rightarrow> packing \<Rightarrow> nat \<Rightarrow> ('s, packing, verror) io" where
  "packed_entry E vol pk pi =
     (case bt_get (pk_pages pk) pi of
        Some _ \<Rightarrow> io_return pk
      | None \<Rightarrow>
          io_bind (x_page E vol pi) (\<lambda>page.
          io_bind (base_page E vol pi) (\<lambda>bp.
            io_return (pk\<lparr>pk_pages := bt_insert pi page (pk_pages pk),
              pk_base_pages := bt_insert pi bp (pk_base_pages pk)\<rparr>))))"

text \<open>
  What one dirty block does to its page. The lookups of a page that
  \<open>packed_entry\<close> has put there are the \<open>unwrap\<close> and the index of the source.
\<close>

definition packed_block :: "(bytes \<Rightarrow> string) \<Rightarrow> bool \<Rightarrow> nat \<Rightarrow> bytes \<Rightarrow> packing \<Rightarrow> (packing, verror) result" where
  "packed_block dg force index bs pk =
     (let pi = index div SLOTS in
      case (bt_get (pk_pages pk) pi, bt_get (pk_base_pages pk) pi) of
        (Some page, Some bp) \<Rightarrow>
          (let at = slot_at page index; cleared = copy_at page at (zeros PACK_SLOT_BYTES) in
           if all_zero bs then Ok (pk\<lparr>pk_pages := bt_insert pi cleared (pk_pages pk)\<rparr>)
           else
             (let hash = dg bs in
              if \<not> force \<and> page_slot page index = Some hash then Ok pk
              else
                res_bind (hash_decode hash) (\<lambda>raw.
                  let pk' = pk\<lparr>pk_pages := bt_insert pi (copy_at cleared at raw) (pk_pages pk)\<rparr> in
                  if page_slot bp index \<noteq> Some hash
                  then Ok (pk'\<lparr>pk_chunks := or_insert hash bs (pk_chunks pk'), pk_changed := pk_changed pk' @ [(index, hash)]\<rparr>)
                  else Ok pk')))
      | _ \<Rightarrow> Err Panic)"

fun packed_blocks ::
  "'s ix_env \<Rightarrow> indexed \<Rightarrow> nat \<Rightarrow> bool \<Rightarrow> 's cancel \<Rightarrow> (nat \<times> bytes) list \<Rightarrow> packing \<Rightarrow> ('s, packing, verror) io" where
  "packed_blocks E vol end_at force stop [] pk = io_return pk"
| "packed_blocks E vol end_at force stop ((index, bs) # dirty) pk =
     io_bind (ix_deadline E end_at) (\<lambda>_.
     io_bind (check_cancel stop) (\<lambda>_.
     io_bind (packed_entry E vol pk (index div SLOTS)) (\<lambda>pk1.
     io_bind (io_lift (packed_block (c_digest (ix_codec E)) force index bs pk1)) (\<lambda>pk2.
       packed_blocks E vol end_at force stop dirty pk2))))"

fun chunks_of :: "nat \<Rightarrow> 'a list \<Rightarrow> 'a list list" where
  "chunks_of n xs = (if n = 0 \<or> xs = [] then [] else take n xs # chunks_of n (drop n xs))"

declare chunks_of.simps [simp del]

definition group_locations :: "string \<Rightarrow> (string \<times> bytes) list \<Rightarrow> (string, string \<times> nat) btree \<Rightarrow> (string, string \<times> nat) btree" where
  "group_locations hash grp locations =
     fold (\<lambda>(offset, (chunk, _)). bt_insert chunk (hash, offset * CHUNK_BYTES)) (enumerate 0 grp) locations"

fun pack_groups ::
  "'s ix_env \<Rightarrow> nat \<Rightarrow> 's cancel \<Rightarrow> (string \<times> bytes) list list \<Rightarrow> (string \<times> bytes) list \<Rightarrow> (string, string \<times> nat) btree
   \<Rightarrow> ('s, (string \<times> bytes) list \<times> (string, string \<times> nat) btree, verror) io" where
  "pack_groups E end_at stop [] uploads locations = io_return (uploads, locations)"
| "pack_groups E end_at stop (grp # groups) uploads locations =
     io_bind (ix_deadline E end_at) (\<lambda>_.
     io_bind (check_cancel stop) (\<lambda>_.
       let bs = concat (map snd grp); hash = c_digest (ix_codec E) bs in
       pack_groups E end_at stop groups (uploads @ [(hash, bs)]) (group_locations hash grp locations)))"

definition place_block :: "(string, string \<times> nat) btree \<Rightarrow> nat \<Rightarrow> string \<Rightarrow> (nat, bytes) btree \<Rightarrow> ((nat, bytes) btree, verror) result" where
  "place_block locations index hash pages =
     (case (bt_get pages (index div SLOTS), bt_get locations hash) of
        (Some page, Some (pack, offset)) \<Rightarrow>
          (let at = slot_at page index in
           res_bind (hash_decode pack) (\<lambda>raw.
             Ok (bt_insert (index div SLOTS) (copy_at (copy_at page (at + 32) raw) (at + 64) (be_bytes 4 offset)) pages)))
      | _ \<Rightarrow> Err Panic)"

fun place_blocks ::
  "'s cancel \<Rightarrow> (string, string \<times> nat) btree \<Rightarrow> (nat \<times> string) list \<Rightarrow> (nat, bytes) btree \<Rightarrow> ('s, (nat, bytes) btree, verror) io" where
  "place_blocks stop locations [] pages = io_return pages"
| "place_blocks stop locations ((index, hash) # changed) pages =
     io_bind (check_cancel stop) (\<lambda>_.
     io_bind (io_lift (place_block locations index hash pages)) (\<lambda>pages'.
       place_blocks stop locations changed pages'))"

definition packed_page_step ::
  "(bytes \<Rightarrow> string) \<Rightarrow> indexed \<Rightarrow> (nat, bytes) btree \<Rightarrow> nat \<Rightarrow> bytes \<Rightarrow> (nat, string) btree \<times> (string \<times> bytes) list
   \<Rightarrow> ((nat, string) btree \<times> (string \<times> bytes) list, verror) result" where
  "packed_page_step dg vol base_pages index page = (\<lambda>(nxt, uploads).
     if all_zero (drop 16 page) then Ok (bt_remove index nxt, uploads)
     else
       (let hash = dg page;
            own = (if bt_get (rt_pages (x_root vol)) index \<noteq> Some hash then (bt_insert index hash nxt, uploads @ [(hash, page)])
                   else (nxt, uploads)) in
        case x_base vol of
          None \<Rightarrow> Ok own
        | Some b \<Rightarrow>
            (case bt_get base_pages index of
               None \<Rightarrow> Err Panic
             | Some bp \<Rightarrow>
                 if page = bp
                 then (case bt_get (ct_pages b) index of None \<Rightarrow> Err Panic | Some h \<Rightarrow> Ok (bt_insert index h nxt, uploads))
                 else Ok own)))"

fun packed_pages ::
  "'s ix_env \<Rightarrow> indexed \<Rightarrow> 's cancel \<Rightarrow> (nat, bytes) btree \<Rightarrow> (nat \<times> bytes) list \<Rightarrow> (nat, string) btree \<times> (string \<times> bytes) list
   \<Rightarrow> ('s, (nat, string) btree \<times> (string \<times> bytes) list, verror) io" where
  "packed_pages E vol stop base_pages [] acc = io_return acc"
| "packed_pages E vol stop base_pages ((index, page) # pages) acc =
     io_bind (check_cancel stop) (\<lambda>_.
     io_bind (io_lift (packed_page_step (c_digest (ix_codec E)) vol base_pages index page acc)) (\<lambda>acc'.
       packed_pages E vol stop base_pages pages acc'))"

definition packed_plan ::
  "'s ix_env \<Rightarrow> indexed \<Rightarrow> root \<Rightarrow> nat \<Rightarrow> bool \<Rightarrow> 's cancel \<Rightarrow> ('s, root \<times> (string \<times> bytes) list, verror) io" where
  "packed_plan E vol nxt end_at force stop =
     io_bind (packed_blocks E vol end_at force stop (x_dirty vol)
         \<lparr>pk_pages = [], pk_chunks = [], pk_changed = [], pk_base_pages = []\<rparr>) (\<lambda>pk.
     io_bind (pack_groups E end_at stop (chunks_of (MAX_OBJECT_BYTES div CHUNK_BYTES) (pk_chunks pk)) [] []) (\<lambda>(uploads, locations).
     io_bind (place_blocks stop locations (pk_changed pk) (pk_pages pk)) (\<lambda>pages.
     io_bind (packed_pages E vol stop (pk_base_pages pk) pages (rt_pages nxt, uploads)) (\<lambda>(np, uploads').
       io_return (nxt\<lparr>rt_pages := np\<rparr>, uploads')))))"

definition commit_packed :: "'s ix_env \<Rightarrow> root \<Rightarrow> nat \<Rightarrow> nat \<Rightarrow> bool \<Rightarrow> 's cancel \<Rightarrow> (indexed \<times> 's, nat, verror) io" where
  "commit_packed E nxt end_at concurrency force cancel =
     io_bind get_self (\<lambda>vol.
     io_bind (lift_world (packed_plan E vol nxt end_at force (stopped E end_at cancel))) (\<lambda>(nxt', uploads).
       if clean_flush vol nxt'
       then io_bind (set_self (vol\<lparr>x_dirty := []\<rparr>)) (\<lambda>_. io_return (rt_generation (x_root vol)))
       else
         io_bind (lift_world (upload_objects E vol uploads end_at concurrency (stopped E end_at cancel))) (\<lambda>_.
           publish_cancellable E nxt' end_at (stopped E end_at cancel))))"

section \<open>Commit\<close>

definition marked_root :: "indexed \<Rightarrow> replication option \<Rightarrow> root" where
  "marked_root vol mark =
     (case mark of
        None \<Rightarrow> x_root vol
      | Some m \<Rightarrow>
          (x_root vol)\<lparr>rt_format := (if packed vol then (if rt_base (x_root vol) \<noteq> None then 11 else 9)
               else if rt_base (x_root vol) \<noteq> None then 7 else 3), rt_replication := Some m\<rparr>)"

definition commit_inner :: "'s ix_env \<Rightarrow> nat \<Rightarrow> replication option \<Rightarrow> nat \<Rightarrow> (indexed \<times> 's, nat, verror) io" where
  "commit_inner E end_at mark concurrency =
     io_bind get_self (\<lambda>vol.
     io_bind (io_lift (x_check vol 0 0)) (\<lambda>_.
       if x_dirty vol = [] \<and> mark = None then io_return (rt_generation (x_root vol))
       else
         io_bind (lift_world (ix_deadline E end_at)) (\<lambda>_.
         io_bind (io_lift (ok_or Corrupt (checked_add (rt_generation (x_root vol)) 1))) (\<lambda>g.
           let nxt = (marked_root vol mark)\<lparr>rt_generation := g\<rparr> in
           if packed vol then commit_packed E nxt end_at concurrency False never
           else commit_direct E nxt end_at concurrency))))"

definition commit_replication :: "'s ix_env \<Rightarrow> replication \<Rightarrow> (indexed \<times> 's, nat, verror) io" where
  "commit_replication E mark =
     (if \<not> valid_hash (rp_id mark) \<or> rp_sequence mark = 0 then io_throw InvalidInput
      else io_bind (lift_world (ix_clock E)) (\<lambda>t. commit_inner E (t + from_secs 120) (Some mark) WORKERS))"

definition commit_until :: "'s ix_env \<Rightarrow> nat \<Rightarrow> (indexed \<times> 's, nat, verror) io" where
  "commit_until E end_at =
     io_bind get_self (\<lambda>vol.
       if rt_replication (x_root vol) \<noteq> None then io_throw InvalidInput else commit_inner E end_at None WORKERS)"

definition x_commit :: "'s ix_env \<Rightarrow> (indexed \<times> 's, nat, verror) io" where
  "x_commit E = io_bind (lift_world (ix_clock E)) (\<lambda>t. commit_until E (t + BUDGET))"

definition commit_import :: "'s ix_env \<Rightarrow> (indexed \<times> 's, nat, verror) io" where
  "commit_import E =
     io_bind get_self (\<lambda>vol.
       if rt_ready (x_root vol) \<or> rt_replication (x_root vol) \<noteq> None then io_throw InvalidInput
       else io_bind (lift_world (ix_clock E)) (\<lambda>t. commit_inner E (t + from_secs 120) None 32))"

definition finish_import :: "'s ix_env \<Rightarrow> (indexed \<times> 's, nat, verror) io" where
  "finish_import E =
     io_bind (x_commit E) (\<lambda>_.
     io_bind get_self (\<lambda>vol.
     io_bind (io_lift (x_check vol 0 0)) (\<lambda>_.
     io_bind (io_lift (ok_or Corrupt (checked_add (rt_generation (x_root vol)) 1))) (\<lambda>g.
     io_bind (lift_world (ix_clock E)) (\<lambda>t.
       x_publish E ((x_root vol)\<lparr>rt_ready := True, rt_generation := g\<rparr>) (t + BUDGET))))))"

section \<open>Writing\<close>

definition x_load_for :: "'s ix_env \<Rightarrow> indexed \<Rightarrow> nat \<Rightarrow> nat \<Rightarrow> nat \<Rightarrow> ('s, bytes, verror) io" where
  "x_load_for E vol index within n =
     (if within = 0 \<and> n = CHUNK_BYTES then io_return (zeros CHUNK_BYTES) else x_load E vol index False)"

definition x_write :: "'s ix_env \<Rightarrow> nat \<Rightarrow> bytes \<Rightarrow> (indexed \<times> 's, unit, verror) io" where
  "x_write E offset input =
     io_bind get_self (\<lambda>vol.
     io_bind (io_lift (x_check vol offset (length input))) (\<lambda>_.
       if WRITE_LIMIT < length input then io_throw InvalidInput
       else if input = [] then io_return ()
       else
         (let first = offset div CHUNK_BYTES;
              last_chunk = (offset + length input - 1) div CHUNK_BYTES;
              extra = length (filter (\<lambda>i. bt_get (x_dirty vol) i = None) [first..<last_chunk + 1]) in
          io_bind (if DIRTY_LIMIT < x_dirty_bytes vol + extra * CHUNK_BYTES
                   then io_bind (x_commit E) (\<lambda>_. io_return ()) else io_return ()) (\<lambda>_.
          io_bind get_self (\<lambda>vol1.
          io_bind (lift_world (write_loop (x_load_for E vol1) offset input 0 [])) (\<lambda>pending.
            set_self (vol1\<lparr>x_dirty := bt_extend (x_dirty vol1) pending\<rparr>)))))))"

end
