(* ===== verification/Index_Page.thy ===== *)
theory Index_Page
  imports Indexed
begin

text \<open>
  The geometry of a packed index page (\<open>slot\<close>, \<open>slot_at\<close>, \<open>object_slot\<close>,
  \<open>packed_page\<close> in \<open>rust/ahvm-volume/src/indexed.rs\<close>): sixteen bytes of header, 1024
  slots of 72 bytes and a zero tail. A write into a slot changes that slot only, a slot is
  read off its 72 bytes, and a direct page keeps its slots when it is converted.
\<close>

section \<open>Slots as byte strings\<close>

definition pslot :: "bytes \<Rightarrow> nat \<Rightarrow> bytes" where
  "pslot page j = slice_of page (16 + j * 72) (16 + j * 72 + 72)"

text \<open>What a slot of 72 bytes says: the digest of the block and where it is stored.\<close>

definition cell_hash :: "bytes \<Rightarrow> string option" where
  "cell_hash c = (if all_zero (take 32 c) then None else Some (hex_string (take 32 c)))"

definition cell_object :: "bytes \<Rightarrow> (string \<times> nat) option" where
  "cell_object c =
     (case cell_hash c of
        None \<Rightarrow> None
      | Some h \<Rightarrow>
          if all_zero (slice_of c 32 64) then Some (h, 0)
          else Some (hex_string (slice_of c 32 64), be_nat (slice_of c 64 68)))"

definition packed_form :: "bytes \<Rightarrow> bool" where
  "packed_form page \<longleftrightarrow> length page = PACK_PAGE_BYTES \<and> slice_of page 0 8 = PACK_MAGIC"

lemma page_bounds: "j < SLOTS \<Longrightarrow> 16 + j * 72 + 72 \<le> PACK_PAGE_BYTES" "16 + SLOTS * 72 \<le> PACK_PAGE_BYTES"
  by (simp_all add: SLOTS_def PACK_PAGE_BYTES_def)

lemma length_pslot [simp]: "length page = PACK_PAGE_BYTES \<Longrightarrow> j < SLOTS \<Longrightarrow> length (pslot page j) = 72"
  using page_bounds(1) [of j] by (simp add: pslot_def)

lemma packed_stride: "packed_form page \<Longrightarrow> stride page = 72"
  by (simp add: packed_form_def stride_def PACK_SLOT_BYTES_def)

lemma packed_slot_at: "packed_form page \<Longrightarrow> slot_at page i = 16 + i mod SLOTS * 72"
  by (simp add: slot_at_def packed_stride)

lemma SLOTS_pos [simp]: "0 < SLOTS" "i mod SLOTS < SLOTS"
  by (simp_all add: SLOTS_def)

lemma slice_of_pslot:
  "length page = PACK_PAGE_BYTES \<Longrightarrow> j < SLOTS \<Longrightarrow> b \<le> 72 \<Longrightarrow> slice_of (pslot page j) a b = slice_of page (16 + j * 72 + a) (16 + j * 72 + b)"
  using page_bounds(1) [of j] by (intro nth_equalityI) (auto simp: pslot_def add.assoc)

lemma take_pslot:
  "length page = PACK_PAGE_BYTES \<Longrightarrow> j < SLOTS \<Longrightarrow> take 32 (pslot page j) = slice_of page (16 + j * 72) (16 + j * 72 + 32)"
  using slice_of_pslot [of page j 32 0] by (simp add: slice_of_def)

lemma page_slot_cell: "packed_form page \<Longrightarrow> page_slot page i = cell_hash (pslot page (i mod SLOTS))"
  by (simp add: page_slot_def cell_hash_def packed_slot_at take_pslot packed_form_def Let_def)

lemma object_slot_cell: "packed_form page \<Longrightarrow> object_slot page i = cell_object (pslot page (i mod SLOTS))"
  using packed_stride [of page] packed_slot_at [of page i]
  by (simp add: object_slot_def cell_object_def page_slot_cell PACK_SLOT_BYTES_def slice_of_pslot packed_form_def Let_def
      split: option.split)

text \<open>Writing inside slot \<open>j\<close>.\<close>

lemma pslot_copy:
  assumes "length page = PACK_PAGE_BYTES" "j < SLOTS" "j' < SLOTS" "a + length src \<le> 72"
  shows "pslot (copy_at page (16 + j * 72 + a) src) j' = (if j' = j then copy_at (pslot page j) a src else pslot page j')"
proof (cases "j' = j")
  case True
  have b: "16 + j * 72 + a + length src \<le> length page" using assms page_bounds(1) [OF assms(2)] by simp
  show ?thesis
    using True assms page_bounds(1) [OF assms(2)] b
    by (intro nth_equalityI) (auto simp: pslot_def nth_copy_at)
next
  case False
  then have "16 + j' * 72 + 72 \<le> 16 + j * 72 + a \<or> 16 + j * 72 + a + length src \<le> 16 + j' * 72"
    using assms(4) by auto
  then show ?thesis
    using False assms page_bounds(1) [OF assms(2)] page_bounds(1) [OF assms(3)]
    by (simp add: pslot_def slice_of_copy_at_other)
qed

lemma page_copy_rest:
  assumes "length page = PACK_PAGE_BYTES" "j < SLOTS" "a + length src \<le> 72"
  shows "length (copy_at page (16 + j * 72 + a) src) = PACK_PAGE_BYTES"
    "take 16 (copy_at page (16 + j * 72 + a) src) = take 16 page"
    "drop (16 + SLOTS * 72) (copy_at page (16 + j * 72 + a) src) = drop (16 + SLOTS * 72) page"
proof -
  have b: "16 + j * 72 + a + length src \<le> 16 + SLOTS * 72"
    using assms(2,3) by (simp add: SLOTS_def)
  then show l: "length (copy_at page (16 + j * 72 + a) src) = PACK_PAGE_BYTES"
    using assms(1) page_bounds(2) by simp
  show "take 16 (copy_at page (16 + j * 72 + a) src) = take 16 page"
    using b assms(1) page_bounds(2) l by (intro nth_equalityI) (auto simp: nth_copy_at)
  show "drop (16 + SLOTS * 72) (copy_at page (16 + j * 72 + a) src) = drop (16 + SLOTS * 72) page"
    using b assms(1) page_bounds(2) l by (intro nth_equalityI) (auto simp: nth_copy_at)
qed

lemma packed_form_take: "packed_form page \<longleftrightarrow> length page = PACK_PAGE_BYTES \<and> take 8 (take 16 page) = PACK_MAGIC"
  by (simp add: packed_form_def slice_of_def)

text \<open>A page is its header, its slots and its tail.\<close>

lemma page_eqI:
  assumes "length p = PACK_PAGE_BYTES" "length q = PACK_PAGE_BYTES" "take 16 p = take 16 q"
    and "\<And>j. j < SLOTS \<Longrightarrow> pslot p j = pslot q j" "drop (16 + SLOTS * 72) p = drop (16 + SLOTS * 72) q"
  shows "p = q"
proof (rule nth_equalityI)
  show "length p = length q" using assms by simp
  fix n
  assume n: "n < length p"
  consider "n < 16" | "16 \<le> n" "n < 16 + SLOTS * 72" | "16 + SLOTS * 72 \<le> n" by linarith
  then show "p ! n = q ! n"
  proof cases
    case 1
    then have "p ! n = take 16 p ! n" "q ! n = take 16 q ! n" by simp_all
    then show ?thesis using assms(3) by simp
  next
    case 2
    define j where "j = (n - 16) div 72"
    have j: "j < SLOTS" "16 + j * 72 \<le> n" "n - (16 + j * 72) < 72"
      using 2 by (auto simp: j_def SLOTS_def)
    have "p ! n = pslot p j ! (n - (16 + j * 72))" "q ! n = pslot q j ! (n - (16 + j * 72))"
      using j page_bounds(1) [OF j(1)] assms(1,2) by (simp_all add: pslot_def)
    then show ?thesis using assms(4) [OF j(1)] by simp
  next
    case 3
    have "p ! n = drop (16 + SLOTS * 72) p ! (n - (16 + SLOTS * 72))" "q ! n = drop (16 + SLOTS * 72) q ! (n - (16 + SLOTS * 72))"
      using 3 n assms(1,2) by simp_all
    then show ?thesis using assms(5) by simp
  qed
qed

section \<open>Conversion of a direct page\<close>

definition direct_cell :: "bytes \<Rightarrow> nat \<Rightarrow> bytes" where
  "direct_cell page j = slice_of page (16 + j * 32) (16 + j * 32 + 32)"

definition direct_form :: "bytes \<Rightarrow> bool" where
  "direct_form page \<longleftrightarrow> length page = CHUNK_BYTES \<and> slice_of page 0 8 = PAGE_MAGIC"

lemma direct_bounds: "j < SLOTS \<Longrightarrow> 16 + j * 32 + 32 \<le> CHUNK_BYTES"
  by (simp add: SLOTS_def CHUNK_BYTES_def)

lemma direct_stride: "direct_form page \<Longrightarrow> stride page = 32"
  by (simp add: direct_form_def stride_def PAGE_MAGIC_def PACK_MAGIC_def)

lemma direct_slot_at: "direct_form page \<Longrightarrow> slot_at page i = 16 + i mod SLOTS * 32"
  by (simp add: slot_at_def direct_stride)

lemma length_direct_cell: "length page = CHUNK_BYTES \<Longrightarrow> j < SLOTS \<Longrightarrow> length (direct_cell page j) = 32"
  using direct_bounds [of j] by (simp add: direct_cell_def)

definition packed_start :: "bytes \<Rightarrow> bytes" where
  "packed_start page = copy_at (copy_at (zeros PACK_PAGE_BYTES) 0 PACK_MAGIC) 8 (slice_of page 8 16)"

lemma packed_start_form:
  assumes "length page = CHUNK_BYTES"
  shows "length (packed_start page) = PACK_PAGE_BYTES" "take 16 (packed_start page) = PACK_MAGIC @ slice_of page 8 16"
    "drop 16 (packed_start page) = zeros (PACK_PAGE_BYTES - 16)"
proof -
  have l: "length (slice_of page 8 16) = 8" using assms by (simp add: CHUNK_BYTES_def)
  have eq: "packed_start page = PACK_MAGIC @ slice_of page 8 16 @ zeros (PACK_PAGE_BYTES - 16)"
    using l by (simp add: packed_start_def copy_at_def PACK_MAGIC_def zeros_def PACK_PAGE_BYTES_def)
  show "length (packed_start page) = PACK_PAGE_BYTES" "take 16 (packed_start page) = PACK_MAGIC @ slice_of page 8 16"
    "drop 16 (packed_start page) = zeros (PACK_PAGE_BYTES - 16)"
    using l by (simp_all add: eq PACK_MAGIC_def PACK_PAGE_BYTES_def)
qed

lemma pslot_zero_tail:
  assumes "length p = PACK_PAGE_BYTES" "drop 16 p = zeros (PACK_PAGE_BYTES - 16)" "j < SLOTS"
  shows "pslot p j = zeros 72"
proof -
  have "pslot p j = slice_of (drop 16 p) (j * 72) (j * 72 + 72)"
    by (simp add: pslot_def slice_of_def add.commute)
  then show ?thesis using assms(2) page_bounds(1) [OF assms(3)] by simp
qed

text \<open>The conversion loop, slot by slot.\<close>

lemma packed_page_loop:
  assumes d: "direct_form page" and n: "n \<le> SLOTS"
  defines "out \<equiv> fold (\<lambda>index out. let old = slot_at page index; new = slot_at out index in
      copy_at out new (slice_of page old (old + 32))) [0..<n] (packed_start page)"
  shows "packed_form out \<and> take 16 out = PACK_MAGIC @ slice_of page 8 16
    \<and> drop (16 + SLOTS * 72) out = zeros (PACK_PAGE_BYTES - (16 + SLOTS * 72))
    \<and> (\<forall>j < SLOTS. pslot out j = (if j < n then direct_cell page j @ zeros 40 else zeros 72))"
  using n unfolding out_def
proof (induction n)
  case 0
  have l: "length page = CHUNK_BYTES" using d by (simp add: direct_form_def)
  note st = packed_start_form [OF l]
  have "drop (16 + SLOTS * 72) (packed_start page) = drop (SLOTS * 72) (drop 16 (packed_start page))" by (simp add: add.commute)
  then have "drop (16 + SLOTS * 72) (packed_start page) = zeros (PACK_PAGE_BYTES - (16 + SLOTS * 72))"
    by (simp add: st zeros_def)
  moreover have "packed_form (packed_start page)"
    using st(1,2) by (simp add: packed_form_take PACK_MAGIC_def)
  ultimately show ?case using st pslot_zero_tail [OF st(1) st(3)] by simp
next
  case (Suc n)
  define prev where "prev = fold (\<lambda>index out. let old = slot_at page index; new = slot_at out index in
      copy_at out new (slice_of page old (old + 32))) [0..<n] (packed_start page)"
  have n: "n < SLOTS" using Suc.prems by simp
  have ih: "packed_form prev" "take 16 prev = PACK_MAGIC @ slice_of page 8 16"
      "drop (16 + SLOTS * 72) prev = zeros (PACK_PAGE_BYTES - (16 + SLOTS * 72))"
      "\<forall>j < SLOTS. pslot prev j = (if j < n then direct_cell page j @ zeros 40 else zeros 72)"
    using Suc by (auto simp: prev_def)
  have lp: "length prev = PACK_PAGE_BYTES" using ih(1) by (simp add: packed_form_def)
  define nxt where "nxt = copy_at prev (16 + n * 72 + 0) (direct_cell page n)"
  have step: "fold (\<lambda>index out. let old = slot_at page index; new = slot_at out index in
      copy_at out new (slice_of page old (old + 32))) [0..<Suc n] (packed_start page) = nxt"
    using direct_slot_at [OF d, of n] packed_slot_at [OF ih(1), of n] n
    unfolding upt_Suc_append [OF zero_le] fold_append comp_apply prev_def [symmetric]
    by (simp add: nxt_def direct_cell_def Let_def)
  have lc: "length (direct_cell page n) = 32" using d n by (simp add: direct_form_def length_direct_cell)
  have sz: "0 + length (direct_cell page n) \<le> 72" by (simp add: lc)
  have cell: "copy_at (zeros 72) 0 (direct_cell page n) = direct_cell page n @ zeros 40"
    by (simp add: copy_at_def lc zeros_def)
  have "pslot nxt j = (if j < Suc n then direct_cell page j @ zeros 40 else zeros 72)" if "j < SLOTS" for j
    using pslot_copy [OF lp n that sz] ih(4) that n cell unfolding nxt_def by (auto simp: less_Suc_eq)
  moreover have "packed_form nxt"
    using ih(1) page_copy_rest [OF lp n sz] by (simp add: packed_form_take nxt_def)
  ultimately show ?case
    unfolding step using ih page_copy_rest [OF lp n sz] by (simp add: nxt_def)
qed

lemma packed_page_form:
  assumes "direct_form page"
  shows "packed_form (packed_page page)" "take 16 (packed_page page) = PACK_MAGIC @ slice_of page 8 16"
    "drop (16 + SLOTS * 72) (packed_page page) = zeros (PACK_PAGE_BYTES - (16 + SLOTS * 72))"
    "\<And>j. j < SLOTS \<Longrightarrow> pslot (packed_page page) j = direct_cell page j @ zeros 40"
proof -
  have "packed_page page = fold (\<lambda>index out. let old = slot_at page index; new = slot_at out index in
      copy_at out new (slice_of page old (old + 32))) [0..<SLOTS] (packed_start page)"
    using direct_stride [OF assms] by (simp add: packed_page_def packed_start_def PACK_SLOT_BYTES_def)
  then show "packed_form (packed_page page)" "take 16 (packed_page page) = PACK_MAGIC @ slice_of page 8 16"
    "drop (16 + SLOTS * 72) (packed_page page) = zeros (PACK_PAGE_BYTES - (16 + SLOTS * 72))"
    "\<And>j. j < SLOTS \<Longrightarrow> pslot (packed_page page) j = direct_cell page j @ zeros 40"
    using packed_page_loop [OF assms le_refl] by auto
qed

end
