(* ===== verification/Packed_Plan.thy ===== *)
theory Packed_Plan
  imports Index_Page
begin

text \<open>
  What a commit of packed pages decides to write (\<open>commit_packed\<close> in
  \<open>rust/ahvm-volume/src/indexed.rs\<close>), as a function of the pages \<open>V\<close> of the volume and
  the pages \<open>W\<close> of the base image: the cells of the new pages, the packs with the place of
  every block in them, and the new page table. Deadlines, cancellation and the store are
  not part of it.
\<close>

section \<open>The plan as a function of the pages\<close>

definition plan_entry :: "(nat \<Rightarrow> bytes) \<Rightarrow> (nat \<Rightarrow> bytes) \<Rightarrow> packing \<Rightarrow> nat \<Rightarrow> packing" where
  "plan_entry V W pk pi =
     (case bt_get (pk_pages pk) pi of
        Some _ \<Rightarrow> pk
      | None \<Rightarrow> pk\<lparr>pk_pages := bt_insert pi (V pi) (pk_pages pk), pk_base_pages := bt_insert pi (W pi) (pk_base_pages pk)\<rparr>)"

fun plan_blocks ::
  "(bytes \<Rightarrow> string) \<Rightarrow> bool \<Rightarrow> (nat \<Rightarrow> bytes) \<Rightarrow> (nat \<Rightarrow> bytes) \<Rightarrow> (nat \<times> bytes) list \<Rightarrow> packing \<Rightarrow> (packing, verror) result" where
  "plan_blocks dg force V W [] pk = Ok pk"
| "plan_blocks dg force V W ((index, bs) # dirty) pk =
     res_bind (packed_block dg force index bs (plan_entry V W pk (index div SLOTS))) (\<lambda>pk'.
       plan_blocks dg force V W dirty pk')"

definition pack_of :: "(string \<times> bytes) list \<Rightarrow> bytes" where
  "pack_of grp = concat (map snd grp)"

fun plan_groups ::
  "(bytes \<Rightarrow> string) \<Rightarrow> (string \<times> bytes) list list \<Rightarrow> (string \<times> bytes) list \<Rightarrow> (string, string \<times> nat) btree
   \<Rightarrow> (string \<times> bytes) list \<times> (string, string \<times> nat) btree" where
  "plan_groups dg [] uploads locations = (uploads, locations)"
| "plan_groups dg (grp # groups) uploads locations =
     plan_groups dg groups (uploads @ [(dg (pack_of grp), pack_of grp)]) (group_locations (dg (pack_of grp)) grp locations)"

fun plan_places :: "(string, string \<times> nat) btree \<Rightarrow> (nat \<times> string) list \<Rightarrow> (nat, bytes) btree \<Rightarrow> ((nat, bytes) btree, verror) result" where
  "plan_places locations [] pages = Ok pages"
| "plan_places locations ((index, hash) # changed) pages =
     res_bind (place_block locations index hash pages) (\<lambda>pages'. plan_places locations changed pages')"

fun plan_pages ::
  "(bytes \<Rightarrow> string) \<Rightarrow> indexed \<Rightarrow> (nat, bytes) btree \<Rightarrow> (nat \<times> bytes) list \<Rightarrow> (nat, string) btree \<times> (string \<times> bytes) list
   \<Rightarrow> ((nat, string) btree \<times> (string \<times> bytes) list, verror) result" where
  "plan_pages dg vol base_pages [] acc = Ok acc"
| "plan_pages dg vol base_pages ((index, page) # pages) acc =
     res_bind (packed_page_step dg vol base_pages index page acc) (\<lambda>acc'. plan_pages dg vol base_pages pages acc')"

record commit_plan =
  pl_packs :: "(string \<times> bytes) list"
  pl_pages :: "(nat, bytes) btree"
  pl_table :: "(nat, string) btree"
  pl_uploads :: "(string \<times> bytes) list"

definition no_packing :: packing where
  "no_packing = \<lparr>pk_pages = [], pk_chunks = [], pk_changed = [], pk_base_pages = []\<rparr>"

definition commit_plan ::
  "(bytes \<Rightarrow> string) \<Rightarrow> bool \<Rightarrow> indexed \<Rightarrow> (nat \<Rightarrow> bytes) \<Rightarrow> (nat \<Rightarrow> bytes) \<Rightarrow> (nat, string) btree \<Rightarrow> (commit_plan, verror) result" where
  "commit_plan dg force vol V W table =
     res_bind (plan_blocks dg force V W (x_dirty vol) no_packing) (\<lambda>pk.
       let (packs, locations) = plan_groups dg (chunks_of (MAX_OBJECT_BYTES div CHUNK_BYTES) (pk_chunks pk)) [] [] in
       res_bind (plan_places locations (pk_changed pk) (pk_pages pk)) (\<lambda>pages.
       res_bind (plan_pages dg vol (pk_base_pages pk) pages (table, packs)) (\<lambda>(np, uploads).
         Ok \<lparr>pl_packs = packs, pl_pages = pages, pl_table = np, pl_uploads = uploads\<rparr>)))"

lemma res_bind_Ok: "res_bind r f = Ok y \<longleftrightarrow> (\<exists>x. r = Ok x \<and> f x = Ok y)"
  by (cases r) (auto simp: res_bind_def)

lemma bt_insert_same: "bt_ok m \<Longrightarrow> bt_get m k = Some v \<Longrightarrow> bt_insert k v m = m"
  by (rule bt_extensional) (auto simp: fun_eq_iff)

section \<open>Cells of a framed page\<close>

definition page_frame :: "nat \<Rightarrow> bytes \<Rightarrow> bool" where
  "page_frame pi p \<longleftrightarrow> length p = PACK_PAGE_BYTES \<and> take 16 p = PACK_MAGIC @ be_bytes 8 pi
     \<and> drop (16 + SLOTS * 72) p = zeros (PACK_PAGE_BYTES - (16 + SLOTS * 72))"

definition cell :: "bytes \<Rightarrow> nat \<Rightarrow> bytes" where
  "cell p i = pslot p (i mod SLOTS)"

lemma frame_packed: "page_frame pi p \<Longrightarrow> packed_form p"
  by (simp add: page_frame_def packed_form_take PACK_MAGIC_def)

lemma frame_length: "page_frame pi p \<Longrightarrow> length p = PACK_PAGE_BYTES"
  by (simp add: page_frame_def)

lemma frame_slot_at: "page_frame pi p \<Longrightarrow> slot_at p i = 16 + i mod SLOTS * 72"
  by (rule packed_slot_at [OF frame_packed])

lemma length_cell: "page_frame pi p \<Longrightarrow> length (cell p i) = 72"
  by (simp add: cell_def frame_length)

lemma frame_page_slot: "page_frame pi p \<Longrightarrow> page_slot p i = cell_hash (cell p i)"
  by (simp add: cell_def page_slot_cell frame_packed)

lemma frame_object_slot: "page_frame pi p \<Longrightarrow> object_slot p i = cell_object (cell p i)"
  by (simp add: cell_def object_slot_cell frame_packed)

lemma cell_write:
  assumes "page_frame pi p" "a + length src \<le> 72"
  shows "page_frame pi (copy_at p (slot_at p i + a) src)"
    "cell (copy_at p (slot_at p i + a) src) i' = (if i' mod SLOTS = i mod SLOTS then copy_at (cell p i') a src else cell p i')"
proof -
  note l = frame_length [OF assms(1)] and at = frame_slot_at [OF assms(1), of i]
  show "page_frame pi (copy_at p (slot_at p i + a) src)"
    using assms(1) page_copy_rest [OF l SLOTS_pos(2) assms(2), of i] unfolding at page_frame_def by simp
  show "cell (copy_at p (slot_at p i + a) src) i' = (if i' mod SLOTS = i mod SLOTS then copy_at (cell p i') a src else cell p i')"
    using pslot_copy [OF l SLOTS_pos(2) SLOTS_pos(2) assms(2), of i i'] unfolding at cell_def by auto
qed

lemma frame_eqI:
  assumes "page_frame pi p" "page_frame pi q" "\<And>j. j < SLOTS \<Longrightarrow> cell p j = cell q j"
  shows "p = q"
proof (rule page_eqI)
  show "pslot p j = pslot q j" if "j < SLOTS" for j
    using assms(3) [OF that] that by (simp add: cell_def)
qed (use assms(1,2) in \<open>simp_all add: page_frame_def\<close>)

text \<open>A page without references.\<close>

lemma frame_zero:
  assumes "page_frame pi p" "all_zero (drop 16 p)"
  shows "cell p i = zeros 72"
  using assms by (auto simp: cell_def page_frame_def all_zero_iff intro!: pslot_zero_tail)

subsection \<open>The kinds of cells\<close>

definition raw_hash :: "string \<Rightarrow> bytes" where
  "raw_hash h = hex_pairs h"

lemma raw_hash: "valid_hash h \<Longrightarrow> hash_decode h = Ok (raw_hash h)" "valid_hash h \<Longrightarrow> length (raw_hash h) = 32"
    "valid_hash h \<Longrightarrow> hex_string (raw_hash h) = h"
  using hex_hash_decode [of h "hex_pairs h"] by (simp_all add: hash_decode_def raw_hash_def)

text \<open>A digest that a slot can hold: the empty slot is the zero digest.\<close>

definition slot_digest :: "string \<Rightarrow> bool" where
  "slot_digest h \<longleftrightarrow> valid_hash h \<and> \<not> all_zero (raw_hash h)"

lemma slot_digestD: "slot_digest h \<Longrightarrow> valid_hash h \<and> length (raw_hash h) = 32 \<and> hex_string (raw_hash h) = h \<and> hash_decode h = Ok (raw_hash h)"
  by (simp add: slot_digest_def raw_hash)

definition direct_value :: "string \<Rightarrow> bytes" where
  "direct_value h = raw_hash h @ zeros 40"

definition packed_value :: "string \<Rightarrow> string \<Rightarrow> nat \<Rightarrow> bytes" where
  "packed_value h pack offset = raw_hash h @ raw_hash pack @ be_bytes 4 offset @ zeros 4"

lemma take_zeros: "take k (zeros n) = zeros (min k n)"
  by (simp add: zeros_def)

lemma cell_zero [simp]: "cell_hash (zeros 72) = None" "cell_object (zeros 72) = None"
  by (simp_all add: cell_hash_def cell_object_def take_zeros)

lemma cell_direct:
  assumes "slot_digest h"
  shows "cell_hash (direct_value h) = Some h" "cell_object (direct_value h) = Some (h, 0)"
proof -
  note d = slot_digestD [OF assms]
  show "cell_hash (direct_value h) = Some h"
    using d assms by (simp add: cell_hash_def direct_value_def slot_digest_def)
  moreover have "all_zero (slice_of (direct_value h) 32 64)"
    using d by (simp add: slice_of_def direct_value_def take_zeros)
  ultimately show "cell_object (direct_value h) = Some (h, 0)"
    by (simp add: cell_object_def)
qed

lemma cell_packed:
  assumes "slot_digest h" "slot_digest pack" "offset < 256 ^ 4"
  shows "cell_hash (packed_value h pack offset) = Some h" "cell_object (packed_value h pack offset) = Some (pack, offset)"
proof -
  note d = slot_digestD [OF assms(1)] slot_digestD [OF assms(2)]
  show "cell_hash (packed_value h pack offset) = Some h"
    using d assms by (simp add: cell_hash_def packed_value_def slot_digest_def)
  moreover have "slice_of (packed_value h pack offset) 32 64 = raw_hash pack"
    using d by (simp add: slice_of_def packed_value_def)
  moreover have "slice_of (packed_value h pack offset) 64 68 = be_bytes 4 offset"
    using d by (simp add: slice_of_def packed_value_def)
  ultimately show "cell_object (packed_value h pack offset) = Some (pack, offset)"
    using d assms by (simp add: cell_object_def slot_digest_def be_nat_bytes_id)
qed

section \<open>The dirty blocks\<close>

text \<open>Is the slot of this block written, and does the block have to be stored?\<close>

definition rewritten :: "(bytes \<Rightarrow> string) \<Rightarrow> bool \<Rightarrow> (nat \<Rightarrow> bytes) \<Rightarrow> nat \<Rightarrow> bytes \<Rightarrow> bool" where
  "rewritten dg force V i b \<longleftrightarrow> \<not> all_zero b \<and> (force \<or> page_slot (V (i div SLOTS)) i \<noteq> Some (dg b))"

definition stored_block :: "(bytes \<Rightarrow> string) \<Rightarrow> bool \<Rightarrow> (nat \<Rightarrow> bytes) \<Rightarrow> (nat \<Rightarrow> bytes) \<Rightarrow> nat \<Rightarrow> bytes \<Rightarrow> bool" where
  "stored_block dg force V W i b \<longleftrightarrow> rewritten dg force V i b \<and> page_slot (W (i div SLOTS)) i \<noteq> Some (dg b)"

text \<open>The cell of a slot after the blocks of a list.\<close>

definition cell1 :: "(bytes \<Rightarrow> string) \<Rightarrow> bool \<Rightarrow> (nat \<Rightarrow> bytes) \<Rightarrow> (nat \<times> bytes) list \<Rightarrow> nat \<Rightarrow> bytes" where
  "cell1 dg force V ds i =
     (case map_of ds i of
        None \<Rightarrow> cell (V (i div SLOTS)) i
      | Some b \<Rightarrow>
          if all_zero b then zeros 72
          else if rewritten dg force V i b then direct_value (dg b)
          else cell (V (i div SLOTS)) i)"

definition touched :: "(nat \<times> bytes) list \<Rightarrow> nat set" where
  "touched ds = (\<lambda>(i, _). i div SLOTS) ` set ds"

definition framed :: "(nat, bytes) btree \<Rightarrow> bool" where
  "framed pages \<longleftrightarrow> bt_ok pages \<and> (\<forall>pi p. bt_get pages pi = Some p \<longrightarrow> page_frame pi p)"

definition blocks_inv ::
  "(bytes \<Rightarrow> string) \<Rightarrow> bool \<Rightarrow> (nat \<Rightarrow> bytes) \<Rightarrow> (nat \<Rightarrow> bytes) \<Rightarrow> (nat \<times> bytes) list \<Rightarrow> packing \<Rightarrow> bool" where
  "blocks_inv dg force V W ds pk \<longleftrightarrow>
     bt_ok (pk_pages pk) \<and> bt_ok (pk_chunks pk) \<and> bt_ok (pk_base_pages pk)
     \<and> bt_get (pk_base_pages pk) = (\<lambda>pi. if pi \<in> touched ds then Some (W pi) else None)
     \<and> dom (bt_get (pk_pages pk)) = touched ds
     \<and> (\<forall>pi p. bt_get (pk_pages pk) pi = Some p \<longrightarrow> page_frame pi p \<and> (\<forall>i. i div SLOTS = pi \<longrightarrow> cell p i = cell1 dg force V ds i))
     \<and> pk_changed pk = map (\<lambda>(i, b). (i, dg b)) (filter (\<lambda>(i, b). stored_block dg force V W i b) ds)
     \<and> (\<forall>h b. bt_get (pk_chunks pk) h = Some b \<longrightarrow> dg b = h \<and> b \<in> snd ` set ds)
     \<and> (\<forall>i b. (i, b) \<in> set ds \<longrightarrow> stored_block dg force V W i b \<longrightarrow> bt_get (pk_chunks pk) (dg b) \<noteq> None)"

lemma blocks_invD:
  assumes "blocks_inv dg force V W ds pk"
  shows "bt_ok (pk_chunks pk)" "framed (pk_pages pk)" "dom (bt_get (pk_pages pk)) = touched ds"
    "bt_get (pk_base_pages pk) = (\<lambda>pi. if pi \<in> touched ds then Some (W pi) else None)"
    "bt_get (pk_pages pk) (i div SLOTS) = Some p \<Longrightarrow> cell p i = cell1 dg force V ds i"
    "pk_changed pk = map (\<lambda>(i, b). (i, dg b)) (filter (\<lambda>(i, b). stored_block dg force V W i b) ds)"
    "(h, b) \<in> set (pk_chunks pk) \<Longrightarrow> dg b = h \<and> b \<in> snd ` set ds"
    "(i, b) \<in> set ds \<Longrightarrow> stored_block dg force V W i b \<Longrightarrow> \<exists>c. (dg b, c) \<in> set (pk_chunks pk)"
  using assms unfolding blocks_inv_def framed_def by (blast, blast, blast, blast, blast, blast, metis bt_entries, metis bt_entries option.exhaust)

lemma blocks_inv_start: "blocks_inv dg force V W [] no_packing"
  by (simp add: blocks_inv_def no_packing_def touched_def)

lemma touched_snoc [simp]: "touched (ds @ [(i, b)]) = insert (i div SLOTS) (touched ds)"
  by (simp add: touched_def)

lemma slots_same: "i div SLOTS = i' div SLOTS \<Longrightarrow> i mod SLOTS = i' mod SLOTS \<Longrightarrow> i = i'"
  by (metis div_mod_decomp)

text \<open>The page of a block is fetched before the block is handled.\<close>

lemma plan_entry_inv:
  assumes "blocks_inv dg force V W ds pk" "\<And>pi. page_frame pi (V pi)" "pi = i div SLOTS"
  defines "pk' \<equiv> plan_entry V W pk pi"
  obtains p where "bt_get (pk_pages pk') pi = Some p" "page_frame pi p" "\<forall>i'. i' div SLOTS = pi \<longrightarrow> cell p i' = cell1 dg force V ds i'"
    "bt_get (pk_base_pages pk') = (\<lambda>q. if q \<in> insert pi (touched ds) then Some (W q) else None)"
    "dom (bt_get (pk_pages pk')) = insert pi (touched ds)" "bt_ok (pk_pages pk')" "bt_ok (pk_base_pages pk')"
    "pk_chunks pk' = pk_chunks pk" "pk_changed pk' = pk_changed pk"
    "\<forall>q. q \<noteq> pi \<longrightarrow> bt_get (pk_pages pk') q = bt_get (pk_pages pk) q"
proof (cases "bt_get (pk_pages pk) pi")
  case (Some p)
  then have pk': "pk' = pk" by (simp add: pk'_def plan_entry_def)
  have "pi \<in> touched ds" using assms(1) Some by (auto simp: blocks_inv_def)
  then show thesis
    using assms(1) Some by (intro that [of p]) (auto simp: pk' blocks_inv_def insert_absorb)
next
  case None
  then have pk': "pk' = pk\<lparr>pk_pages := bt_insert pi (V pi) (pk_pages pk), pk_base_pages := bt_insert pi (W pi) (pk_base_pages pk)\<rparr>"
    by (simp add: pk'_def plan_entry_def)
  have new: "pi \<notin> touched ds" using assms(1) None by (auto simp: blocks_inv_def)
  have fresh: "map_of ds i' = None" if "i' div SLOTS = pi" for i'
    using new that by (auto simp: touched_def map_of_eq_None_iff)
  show thesis
  proof (rule that [of "V pi"])
    show "\<forall>i'. i' div SLOTS = pi \<longrightarrow> cell (V pi) i' = cell1 dg force V ds i'"
      using fresh by (simp add: cell1_def)
  qed (use assms(1,2) in \<open>auto simp: pk' blocks_inv_def\<close>)
qed

lemma cell1_snoc:
  assumes "map_of ds i = None"
  shows "cell1 dg force V (ds @ [(i, b)]) i' =
    (if i' = i then (if all_zero b then zeros 72 else if rewritten dg force V i b then direct_value (dg b) else cell (V (i div SLOTS)) i)
     else cell1 dg force V ds i')"
proof -
  have "map_of (ds @ [(i, b)]) i' = (if i' = i then Some b else map_of ds i')"
    using assms by (auto simp: map_add_def split: option.split)
  then show ?thesis by (simp add: cell1_def)
qed

text \<open>Clearing a slot and writing a digest into it.\<close>

lemma clear_cell:
  assumes "page_frame pi p"
  shows "page_frame pi (copy_at p (slot_at p i) (zeros PACK_SLOT_BYTES))"
    "cell (copy_at p (slot_at p i) (zeros PACK_SLOT_BYTES)) i' = (if i' mod SLOTS = i mod SLOTS then zeros 72 else cell p i')"
proof -
  have "copy_at (cell p i') 0 (zeros 72) = zeros 72"
    using length_cell [OF assms, of i'] by (simp add: copy_at_def)
  then show "page_frame pi (copy_at p (slot_at p i) (zeros PACK_SLOT_BYTES))"
    "cell (copy_at p (slot_at p i) (zeros PACK_SLOT_BYTES)) i' = (if i' mod SLOTS = i mod SLOTS then zeros 72 else cell p i')"
    using cell_write [OF assms, of 0 "zeros PACK_SLOT_BYTES" i] by (simp_all add: PACK_SLOT_BYTES_def)
qed

lemma direct_cell_write:
  fixes i :: nat
  assumes "page_frame pi p" "valid_hash h"
  defines "q \<equiv> copy_at (copy_at p (slot_at p i) (zeros PACK_SLOT_BYTES)) (slot_at p i) (raw_hash h)"
  shows "page_frame pi q" "cell q i' = (if i' mod SLOTS = i mod SLOTS then direct_value h else cell p i')"
proof -
  let ?c = "copy_at p (slot_at p i) (zeros PACK_SLOT_BYTES)"
  note c = clear_cell [OF assms(1), of i]
  have at: "slot_at ?c i = slot_at p i"
    using frame_slot_at [OF assms(1)] frame_slot_at [OF c(1)] by simp
  have len: "0 + length (raw_hash h) \<le> 72" using raw_hash(2) [OF assms(2)] by simp
  have "copy_at (zeros 72) 0 (raw_hash h) = direct_value h"
    using raw_hash(2) [OF assms(2)] by (simp add: copy_at_def direct_value_def zeros_def)
  then show "page_frame pi q" "cell q i' = (if i' mod SLOTS = i mod SLOTS then direct_value h else cell p i')"
    using cell_write [OF c(1) len, of i] unfolding at q_def by (simp_all add: c(2))
qed

lemma blocks_inv_step:
  assumes inv: "blocks_inv dg force V W ds pk" and V: "\<And>pi. page_frame pi (V pi)" and new: "map_of ds i = None"
    and digest: "valid_hash (dg b)"
    and run: "packed_block dg force i b (plan_entry V W pk (i div SLOTS)) = Ok pk2"
  shows "blocks_inv dg force V W (ds @ [(i, b)]) pk2"
proof -
  define pi where "pi = i div SLOTS"
  define pk' where "pk' = plan_entry V W pk pi"
  obtain p where p: "bt_get (pk_pages pk') pi = Some p" "page_frame pi p" "\<forall>i'. i' div SLOTS = pi \<longrightarrow> cell p i' = cell1 dg force V ds i'"
    and e: "bt_get (pk_base_pages pk') = (\<lambda>q. if q \<in> insert pi (touched ds) then Some (W q) else None)"
      "dom (bt_get (pk_pages pk')) = insert pi (touched ds)" "bt_ok (pk_pages pk')" "bt_ok (pk_base_pages pk')"
      "pk_chunks pk' = pk_chunks pk" "pk_changed pk' = pk_changed pk"
      "\<forall>q. q \<noteq> pi \<longrightarrow> bt_get (pk_pages pk') q = bt_get (pk_pages pk) q"
    by (rule plan_entry_inv [OF inv V pi_def, folded pk'_def])
  note snoc = cell1_snoc [OF new, of dg force V b]
  have old: "cell1 dg force V ds i = cell (V (i div SLOTS)) i" using new by (simp add: cell1_def)
  have slot: "page_slot p i = page_slot (V pi) i"
    using p(2,3) V [of pi] old by (simp add: frame_page_slot [of pi] pi_def)
  have other: "page_frame q p' \<and> (\<forall>i'. i' div SLOTS = q \<longrightarrow> cell p' i' = cell1 dg force V (ds @ [(i, b)]) i')"
    if "q \<noteq> pi" "bt_get (pk_pages pk') q = Some p'" for q p'
    using inv e(7) that by (auto simp: blocks_inv_def snoc pi_def)
  have pages: "blocks_inv dg force V W (ds @ [(i, b)]) (pk'\<lparr>pk_pages := bt_insert pi p' (pk_pages pk'), pk_chunks := ch, pk_changed := cg\<rparr>)"
    if "page_frame pi p'" "\<And>i'. i' div SLOTS = pi \<Longrightarrow> cell p' i' = cell1 dg force V (ds @ [(i, b)]) i'"
      "if stored_block dg force V W i b then ch = or_insert (dg b) b (pk_chunks pk) \<and> cg = pk_changed pk @ [(i, dg b)]
       else ch = pk_chunks pk \<and> cg = pk_changed pk" for p' ch cg
  proof -
    have "bt_ok (pk_chunks pk)" "\<forall>h b. bt_get (pk_chunks pk) h = Some b \<longrightarrow> dg b = h \<and> b \<in> snd ` set ds"
        "\<forall>i b. (i, b) \<in> set ds \<longrightarrow> stored_block dg force V W i b \<longrightarrow> bt_get (pk_chunks pk) (dg b) \<noteq> None"
      using inv by (simp_all add: blocks_inv_def)
    with that(3) have ch: "bt_ok ch" "\<forall>h c. bt_get ch h = Some c \<longrightarrow> dg c = h \<and> c \<in> snd ` set (ds @ [(i, b)])"
        "\<forall>j c. (j, c) \<in> set (ds @ [(i, b)]) \<longrightarrow> stored_block dg force V W j c \<longrightarrow> bt_get ch (dg c) \<noteq> None"
      by (auto simp: or_insert_def split: if_splits option.splits)
    have cg: "cg = map (\<lambda>(i, b). (i, dg b)) (filter (\<lambda>(i, b). stored_block dg force V W i b) (ds @ [(i, b)]))"
      using that(3) inv by (simp add: blocks_inv_def split: if_splits)
    show ?thesis
      unfolding blocks_inv_def
      using e ch cg that(1,2) other by (auto simp: pi_def)
  qed
  have dec: "hash_decode (dg b) = Ok (raw_hash (dg b))" by (rule raw_hash(1) [OF digest])
  have bp: "bt_get (pk_base_pages pk') pi = Some (W pi)" using e(1) by simp
  have same: "i' = i" if "i' div SLOTS = pi" "i' mod SLOTS = i mod SLOTS" for i'
    using slots_same that unfolding pi_def by blast
  show ?thesis
  proof (cases "all_zero b")
    case True
    then have pk2: "pk2 = pk'\<lparr>pk_pages := bt_insert pi (copy_at p (slot_at p i) (zeros PACK_SLOT_BYTES)) (pk_pages pk'),
        pk_chunks := pk_chunks pk, pk_changed := pk_changed pk\<rparr>"
      using run p(1) bp unfolding pk'_def [symmetric] pi_def [symmetric]
      by (auto simp: packed_block_def pi_def [symmetric] Let_def e(5,6) [symmetric])
    show ?thesis
      unfolding pk2 using clear_cell [OF p(2), of i] p(3) True same
      by (intro pages) (auto simp: snoc stored_block_def rewritten_def)
  next
    case False
    note nz = this
    show ?thesis
    proof (cases "rewritten dg force V i b")
      case no: False
      then have pk2: "pk2 = pk'\<lparr>pk_pages := bt_insert pi p (pk_pages pk'), pk_chunks := pk_chunks pk, pk_changed := pk_changed pk\<rparr>"
        using run p(1) bp e(3,5,6) slot nz unfolding pk'_def [symmetric] pi_def [symmetric]
        by (simp add: packed_block_def pi_def [symmetric] Let_def rewritten_def bt_insert_same)
      show ?thesis
        unfolding pk2 using p(2,3) no nz old by (intro pages) (auto simp: snoc stored_block_def)
    next
      case yes: True
      define q where "q = copy_at (copy_at p (slot_at p i) (zeros PACK_SLOT_BYTES)) (slot_at p i) (raw_hash (dg b))"
      have pk2: "pk2 = pk'\<lparr>pk_pages := bt_insert pi q (pk_pages pk'),
          pk_chunks := (if stored_block dg force V W i b then or_insert (dg b) b (pk_chunks pk) else pk_chunks pk),
          pk_changed := (if stored_block dg force V W i b then pk_changed pk @ [(i, dg b)] else pk_changed pk)\<rparr>"
        using run p(1) bp e(5,6) slot nz yes dec unfolding pk'_def [symmetric] pi_def [symmetric]
        by (auto simp: packed_block_def pi_def [symmetric] Let_def rewritten_def stored_block_def q_def res_bind_def split: if_splits)
      show ?thesis
        unfolding pk2 using direct_cell_write [OF p(2) digest, of i, folded q_def] p(3) yes nz same
        by (intro pages) (auto simp: snoc)
    qed
  qed
qed

lemma plan_blocks_inv:
  assumes "plan_blocks dg force V W es pk = Ok pk2" "blocks_inv dg force V W ds pk" "\<And>pi. page_frame pi (V pi)"
    "distinct (map fst (ds @ es))" "\<And>b. valid_hash (dg b)"
  shows "blocks_inv dg force V W (ds @ es) pk2"
  using assms(1,2,4)
proof (induction es arbitrary: ds pk)
  case Nil
  then show ?case by simp
next
  case (Cons e es)
  obtain i b where e: "e = (i, b)" by force
  from Cons.prems(1) obtain pk1 where pk1: "packed_block dg force i b (plan_entry V W pk (i div SLOTS)) = Ok pk1"
      "plan_blocks dg force V W es pk1 = Ok pk2"
    by (auto simp: e res_bind_Ok)
  have "map_of ds i = None" using Cons.prems(3) by (auto simp: e map_of_eq_None_iff)
  then have "blocks_inv dg force V W (ds @ [(i, b)]) pk1"
    by (rule blocks_inv_step [OF Cons.prems(2) assms(3) _ assms(5) pk1(1)])
  from Cons.IH [OF pk1(2) this] Cons.prems(3) show ?case by (simp add: e)
qed

section \<open>Packs\<close>

lemma chunks_of_concat: "0 < n \<Longrightarrow> concat (chunks_of n xs) = xs"
  by (induction n xs rule: chunks_of.induct) (subst chunks_of.simps, auto)

lemma chunks_of_group: "g \<in> set (chunks_of n xs) \<Longrightarrow> g \<noteq> [] \<and> length g \<le> n"
proof (induction n xs rule: chunks_of.induct)
  case (1 n xs)
  then show ?case by (subst (asm) chunks_of.simps) (auto split: if_splits)
qed

lemma length_pack_of: "\<forall>(h, b) \<in> set grp. length b = CHUNK_BYTES \<Longrightarrow> length (pack_of grp) = length grp * CHUNK_BYTES"
  by (induction grp) (auto simp: pack_of_def)

lemma slice_pack_of:
  assumes "\<forall>(h, b) \<in> set grp. length b = CHUNK_BYTES" "k < length grp"
  shows "slice_of (pack_of grp) (k * CHUNK_BYTES) (k * CHUNK_BYTES + CHUNK_BYTES) = snd (grp ! k)"
  using assms
proof (induction grp arbitrary: k)
  case Nil
  then show ?case by simp
next
  case (Cons g grp)
  have l: "length (snd g) = CHUNK_BYTES" using Cons.prems(1) by (cases g) auto
  show ?case
  proof (cases k)
    case 0
    then show ?thesis using l by (simp add: slice_of_def pack_of_def)
  next
    case (Suc k')
    then show ?thesis
      using Cons l by (auto simp: slice_of_def pack_of_def)
  qed
qed

lemma group_locations_get:
  fixes hash :: string and n :: nat
  assumes "bt_ok locations" "distinct (map fst grp)"
  defines "new \<equiv> fold (\<lambda>(offset, (chunk, _)). bt_insert chunk (hash, offset * CHUNK_BYTES)) (enumerate n grp) locations"
  shows "bt_ok new \<and> (\<forall>k < length grp. bt_get new (fst (grp ! k)) = Some (hash, (n + k) * CHUNK_BYTES))
    \<and> (\<forall>c. c \<notin> fst ` set grp \<longrightarrow> bt_get new c = bt_get locations c)"
  using assms(1,2) unfolding new_def
proof (induction grp arbitrary: n locations)
  case Nil
  then show ?case by simp
next
  case (Cons g grp)
  obtain c b where g: "g = (c, b)" by force
  have ok: "bt_ok (bt_insert c (hash, n * CHUNK_BYTES) locations)" using Cons.prems(1) by simp
  have "distinct (map fst grp)" "c \<notin> fst ` set grp" using Cons.prems(2) by (simp_all add: g)
  with Cons.IH [OF ok, of "Suc n"] show ?case
    by (auto simp: g less_Suc_eq_0_disj Cons.prems(1))
qed

text \<open>Where a block is stored: a range of one of the packs.\<close>

definition in_pack :: "bytes \<Rightarrow> nat \<Rightarrow> bytes \<Rightarrow> bool" where
  "in_pack pack offset b \<longleftrightarrow> slice_of pack offset (offset + CHUNK_BYTES) = b \<and> offset mod CHUNK_BYTES = 0
     \<and> offset + CHUNK_BYTES \<le> length pack \<and> length pack \<le> MAX_OBJECT_BYTES \<and> length pack mod CHUNK_BYTES = 0"

definition located :: "(bytes \<Rightarrow> string) \<Rightarrow> (string, string \<times> nat) btree \<Rightarrow> (string \<times> bytes) list \<Rightarrow> string \<Rightarrow> bytes \<Rightarrow> bool" where
  "located dg locations packs h b \<longleftrightarrow> (\<exists>pack offset. bt_get locations h = Some (dg pack, offset) \<and> (dg pack, pack) \<in> set packs
     \<and> in_pack pack offset b)"

lemma located_mono:
  "located dg locations packs h b \<Longrightarrow> bt_get locations' h = bt_get locations h \<Longrightarrow> set packs \<subseteq> set packs' \<Longrightarrow> located dg locations' packs' h b"
  unfolding located_def by auto

lemma plan_groups_located:
  assumes "\<forall>g \<in> set groups. length g * CHUNK_BYTES \<le> MAX_OBJECT_BYTES" "\<forall>(h, b) \<in> set (concat groups). length b = CHUNK_BYTES"
    and "distinct (map fst (concat groups))" "bt_ok locations"
    and "\<forall>(h, b) \<in> S. located dg locations uploads h b \<and> h \<notin> fst ` set (concat groups)"
    and "plan_groups dg groups uploads locations = (packs, locations')"
  shows "(\<forall>(h, b) \<in> S \<union> set (concat groups). located dg locations' packs h b)
    \<and> set packs = set uploads \<union> (\<lambda>g. (dg (pack_of g), pack_of g)) ` set groups"
  using assms
proof (induction groups arbitrary: uploads locations S)
  case Nil
  then show ?case by auto
next
  case (Cons g groups)
  let ?up = "uploads @ [(dg (pack_of g), pack_of g)]" and ?loc = "group_locations (dg (pack_of g)) g locations"
  have dist: "distinct (map fst g)" using Cons.prems(3) by simp
  note get = group_locations_get [OF Cons.prems(4) dist, of "dg (pack_of g)" 0, folded group_locations_def, simplified]
  have len: "\<forall>(h, b) \<in> set g. length b = CHUNK_BYTES" using Cons.prems(2) by auto
  have here: "located dg ?loc ?up h b" if hb: "(h, b) \<in> set g" for h b
  proof -
    obtain k where k: "k < length g" "g ! k = (h, b)" using hb by (auto simp: in_set_conv_nth)
    have bound: "k * CHUNK_BYTES + CHUNK_BYTES \<le> length g * CHUNK_BYTES"
      using k(1) by (metis Suc_leI add.commute mult_Suc mult_le_mono1)
    have "bt_get ?loc h = Some (dg (pack_of g), k * CHUNK_BYTES)" using get k by (metis fst_conv)
    moreover have "in_pack (pack_of g) (k * CHUNK_BYTES) b"
      using slice_pack_of [OF len k(1)] k bound Cons.prems(1) length_pack_of [OF len] by (simp add: in_pack_def)
    ultimately show ?thesis unfolding located_def by auto
  qed
  have before: "located dg ?loc ?up h b" if "(h, b) \<in> S" for h b
  proof (rule located_mono [of dg locations uploads h b])
    have l: "located dg locations uploads h b" "h \<notin> fst ` set g" using Cons.prems(5) that by auto
    show "located dg locations uploads h b" by (rule l(1))
    show "bt_get ?loc h = bt_get locations h" using get l(2) by blast
  qed auto
  have apart: "h \<notin> fst ` set (concat groups)" if "(h, b) \<in> S \<union> set g" for h b
  proof (cases "(h, b) \<in> S")
    case True
    then have "h \<notin> fst ` set (concat (g # groups))" using Cons.prems(5) by blast
    then show ?thesis by (simp add: image_Un)
  next
    case False
    then have "h \<in> fst ` set g" using that by force
    moreover have "fst ` set g \<inter> fst ` set (concat groups) = {}" using Cons.prems(3) by auto
    ultimately show ?thesis by blast
  qed
  have "(\<forall>(h, b) \<in> (S \<union> set g) \<union> set (concat groups). located dg locations' packs h b)
    \<and> set packs = set ?up \<union> (\<lambda>g. (dg (pack_of g), pack_of g)) ` set groups"
  proof (rule Cons.IH)
    show "\<forall>(h, b) \<in> S \<union> set g. located dg ?loc ?up h b \<and> h \<notin> fst ` set (concat groups)"
      using here before apart by blast
    show "plan_groups dg groups ?up ?loc = (packs, locations')" using Cons.prems(6) by simp
  qed (use Cons.prems get in auto)
  then show ?case by auto
qed

section \<open>Places in the new pages\<close>

definition placed_cell :: "(string, string \<times> nat) btree \<Rightarrow> (nat \<times> string) list \<Rightarrow> (nat, bytes) btree \<Rightarrow> nat \<Rightarrow> bytes" where
  "placed_cell locations changed pages i =
     (case map_of changed i of
        None \<Rightarrow> cell (the (bt_get pages (i div SLOTS))) i
      | Some h \<Rightarrow> (case bt_get locations h of Some (pack, offset) \<Rightarrow> packed_value h pack offset | None \<Rightarrow> []))"

lemma packed_cell_write:
  fixes i offset :: nat
  assumes "page_frame pi p" "cell p i = direct_value h" "valid_hash h" "valid_hash pack"
  defines "q \<equiv> copy_at (copy_at p (slot_at p i + 32) (raw_hash pack)) (slot_at p i + 64) (be_bytes 4 offset)"
  shows "page_frame pi q" "i' mod SLOTS \<noteq> i mod SLOTS \<Longrightarrow> cell q i' = cell p i'" "cell q i = packed_value h pack offset"
proof -
  let ?c = "copy_at p (slot_at p i + 32) (raw_hash pack)"
  have l: "length (raw_hash h) = 32" "length (raw_hash pack) = 32" using assms(3,4) by (simp_all add: raw_hash)
  have len: "32 + length (raw_hash pack) \<le> 72" using l by simp
  note c = cell_write [OF assms(1) len, of i]
  have at: "slot_at ?c i = slot_at p i"
    using frame_slot_at [OF assms(1)] frame_slot_at [OF c(1)] by simp
  note w = cell_write [OF c(1), of 64 "be_bytes 4 offset" i, unfolded at, folded q_def, simplified]
  show "page_frame pi q" using w by simp
  show "i' mod SLOTS \<noteq> i mod SLOTS \<Longrightarrow> cell q i' = cell p i'" using w c by simp
  have "cell ?c i = copy_at (direct_value h) 32 (raw_hash pack)"
    unfolding c(2) by (simp add: assms(2))
  also have "\<dots> = raw_hash h @ raw_hash pack @ zeros 8"
    using l by (simp add: copy_at_def direct_value_def zeros_def)
  finally have "cell ?c i = raw_hash h @ raw_hash pack @ zeros 8" .
  then show "cell q i = packed_value h pack offset"
    using l w(2) [of i] by (simp add: copy_at_def packed_value_def zeros_def)
qed

lemma plan_places_cells:
  assumes "plan_places locations changed pages = Ok pages'" "framed pages" "distinct (map fst changed)"
    "\<forall>(i, h) \<in> set changed. valid_hash h \<and> (\<forall>p. bt_get pages (i div SLOTS) = Some p \<longrightarrow> cell p i = direct_value h)"
  shows "framed pages' \<and> dom (bt_get pages') = dom (bt_get pages)
    \<and> (\<forall>i p. bt_get pages' (i div SLOTS) = Some p \<longrightarrow> cell p i = placed_cell locations changed pages i)"
  using assms
proof (induction changed arbitrary: pages)
  case Nil
  then show ?case by (auto simp: placed_cell_def)
next
  case (Cons c changed)
  obtain i h where c: "c = (i, h)" by force
  from Cons.prems(1) obtain pages1 where p1: "place_block locations i h pages = Ok pages1" "plan_places locations changed pages1 = Ok pages'"
    by (auto simp: c res_bind_Ok)
  then obtain p pack offset raw where p: "bt_get pages (i div SLOTS) = Some p" "bt_get locations h = Some (pack, offset)" "hash_decode pack = Ok raw"
      "pages1 = bt_insert (i div SLOTS) (copy_at (copy_at p (slot_at p i + 32) raw) (slot_at p i + 64) (be_bytes 4 offset)) pages"
    by (auto simp: place_block_def Let_def res_bind_Ok split: option.splits)
  have v: "valid_hash pack" "raw = raw_hash pack" using p(3) by (auto simp: hash_decode_def raw_hash_def split: if_splits)
  have h: "page_frame (i div SLOTS) p" "cell p i = direct_value h" "valid_hash h" "bt_ok pages"
    using Cons.prems(2,4) p(1) by (auto simp: c framed_def)
  define q where "q = copy_at (copy_at p (slot_at p i + 32) (raw_hash pack)) (slot_at p i + 64) (be_bytes 4 offset)"
  note q = packed_cell_write [OF h(1,2,3) v(1), where offset = offset, folded q_def]
  have pages1: "pages1 = bt_insert (i div SLOTS) q pages" using p(4) v(2) by (simp add: q_def)
  have other: "cell q i' = cell p i'" if "i' div SLOTS = i div SLOTS" "i' \<noteq> i" for i'
    using q(2) [of i'] slots_same [of i' i] that by auto
  have new: "i \<notin> fst ` set changed" using Cons.prems(3) by (simp add: c)
  have f1: "framed pages1" using Cons.prems(2) q(1) by (auto simp: pages1 framed_def)
  have d1: "\<forall>(i', h') \<in> set changed. valid_hash h' \<and> (\<forall>p. bt_get pages1 (i' div SLOTS) = Some p \<longrightarrow> cell p i' = direct_value h')"
  proof clarify
    fix i' h'
    assume m: "(i', h') \<in> set changed"
    then have ne: "i' \<noteq> i" using new by force
    have "valid_hash h'" "\<forall>p. bt_get pages (i' div SLOTS) = Some p \<longrightarrow> cell p i' = direct_value h'"
      using Cons.prems(4) m by (auto simp: c)
    then show "valid_hash h' \<and> (\<forall>p. bt_get pages1 (i' div SLOTS) = Some p \<longrightarrow> cell p i' = direct_value h')"
      using other [OF _ ne] p(1) h(4) by (auto simp: pages1)
  qed
  have "placed_cell locations changed pages1 i' = placed_cell locations (c # changed) pages i'" for i'
  proof (cases "i' = i")
    case True
    have "map_of changed i = None" using new by (simp add: map_of_eq_None_iff)
    then show ?thesis using True p(1,2) q(3) h(4) by (simp add: placed_cell_def c pages1)
  next
    case False
    then show ?thesis using p(1) h(4) other [OF _ False] by (auto simp: placed_cell_def c pages1 split: option.split)
  qed
  moreover have "dom (bt_get pages1) = dom (bt_get pages)" using p(1) h(4) by (auto simp: pages1)
  ultimately show ?case
    using Cons.IH [OF p1(2) f1 _ d1] Cons.prems(3) by (simp add: c)
qed

section \<open>The new page table\<close>

text \<open>What the last loop does with one page.\<close>

definition page_outcome ::
  "(bytes \<Rightarrow> string) \<Rightarrow> indexed \<Rightarrow> (nat \<Rightarrow> bytes option) \<Rightarrow> (nat, string) btree \<Rightarrow> (nat, string) btree \<Rightarrow> (string \<times> bytes) set
   \<Rightarrow> nat \<Rightarrow> bytes \<Rightarrow> bool" where
  "page_outcome dg vol bp table table' uploads pi p \<longleftrightarrow>
     (if all_zero (drop 16 p) then bt_get table' pi = None
      else if x_base vol \<noteq> None \<and> bp pi = Some p
        then catalog_page vol pi \<noteq> None \<and> bt_get table' pi = catalog_page vol pi
      else if bt_get (rt_pages (x_root vol)) pi = Some (dg p) then bt_get table' pi = bt_get table pi
      else bt_get table' pi = Some (dg p) \<and> (dg p, p) \<in> uploads)"

lemma page_outcome_cong:
  "page_outcome dg vol bp table table' uploads pi p \<Longrightarrow> bp' pi = bp pi \<Longrightarrow> bt_get table2 pi = bt_get table pi \<Longrightarrow>
   bt_get table2' pi = bt_get table' pi \<Longrightarrow> uploads \<subseteq> uploads2 \<Longrightarrow> page_outcome dg vol bp' table2 table2' uploads2 pi p"
  by (auto simp: page_outcome_def split: if_splits)

lemma packed_page_step_outcome:
  assumes "packed_page_step dg vol base_pages pi p (table, uploads) = Ok (t1, u1)" "bt_ok table"
  shows "bt_ok t1" "set uploads \<subseteq> set u1" "set u1 \<subseteq> insert (dg p, p) (set uploads)" "\<And>q. q \<noteq> pi \<Longrightarrow> bt_get t1 q = bt_get table q"
    "page_outcome dg vol (bt_get base_pages) table t1 (set u1) pi p"
  using assms
  by (auto simp: packed_page_step_def Let_def catalog_page_def page_outcome_def split: if_splits option.splits)

lemma plan_pages_table:
  assumes "plan_pages dg vol base_pages pages (table, uploads) = Ok (table', uploads')" "bt_ok table" "distinct (map fst pages)"
  shows "bt_ok table' \<and> set uploads \<subseteq> set uploads' \<and> set uploads' \<subseteq> set uploads \<union> (\<lambda>(_, p). (dg p, p)) ` set pages
    \<and> (\<forall>pi. pi \<notin> fst ` set pages \<longrightarrow> bt_get table' pi = bt_get table pi)
    \<and> (\<forall>(pi, p) \<in> set pages. page_outcome dg vol (bt_get base_pages) table table' (set uploads') pi p)"
  using assms
proof (induction pages arbitrary: table uploads)
  case Nil
  then show ?case by auto
next
  case (Cons e pages)
  obtain pi p where e: "e = (pi, p)" by force
  from Cons.prems(1) obtain t1 u1 where s: "packed_page_step dg vol base_pages pi p (table, uploads) = Ok (t1, u1)"
      "plan_pages dg vol base_pages pages (t1, u1) = Ok (table', uploads')"
    by (auto simp: e res_bind_Ok)
  note step = packed_page_step_outcome [OF s(1) Cons.prems(2)]
  have new: "pi \<notin> fst ` set pages" using Cons.prems(3) by (simp add: e)
  have ih: "bt_ok table'" "set u1 \<subseteq> set uploads'" "set uploads' \<subseteq> set u1 \<union> (\<lambda>(_, p). (dg p, p)) ` set pages"
      "\<And>pi. pi \<notin> fst ` set pages \<Longrightarrow> bt_get table' pi = bt_get t1 pi"
      "\<And>pi p. (pi, p) \<in> set pages \<Longrightarrow> page_outcome dg vol (bt_get base_pages) t1 table' (set uploads') pi p"
    using Cons.IH [OF s(2) step(1)] Cons.prems(3) by (auto simp: e)
  have at: "page_outcome dg vol (bt_get base_pages) table table' (set uploads') pi p"
    by (rule page_outcome_cong [OF step(5)]) (use ih(2,4) new in auto)
  have rest: "page_outcome dg vol (bt_get base_pages) table table' (set uploads') q r" if "(q, r) \<in> set pages" for q r
  proof -
    have "q \<noteq> pi" using that new by force
    then show ?thesis by (intro page_outcome_cong [OF ih(5) [OF that]]) (use step(4) in auto)
  qed
  have "bt_get table' q = bt_get table q" if "q \<notin> fst ` set (e # pages)" for q
    using ih(4) step(4) that by (simp add: e)
  moreover have "set uploads \<subseteq> set uploads'" "set uploads' \<subseteq> set uploads \<union> (\<lambda>(_, p). (dg p, p)) ` set (e # pages)"
    using step(2,3) ih(2,3) by (auto simp: e)
  ultimately show ?case using ih(1) at rest by (auto simp: e)
qed

section \<open>The plan of a commit\<close>

text \<open>The cell that a block gets in its new page.\<close>

definition planned_cell ::
  "(bytes \<Rightarrow> string) \<Rightarrow> bool \<Rightarrow> (nat \<Rightarrow> bytes) \<Rightarrow> (nat \<Rightarrow> bytes) \<Rightarrow> (nat \<times> bytes) list \<Rightarrow> (string \<times> bytes) list \<Rightarrow> nat \<Rightarrow> bytes \<Rightarrow> bool" where
  "planned_cell dg force V W ds packs i c \<longleftrightarrow>
     (case map_of ds i of
        None \<Rightarrow> c = cell (V (i div SLOTS)) i
      | Some b \<Rightarrow>
          if all_zero b then c = zeros 72
          else if \<not> rewritten dg force V i b then c = cell (V (i div SLOTS)) i
          else if page_slot (W (i div SLOTS)) i = Some (dg b) then c = direct_value (dg b)
          else \<exists>pack offset. c = packed_value (dg b) (dg pack) offset \<and> (dg pack, pack) \<in> set packs \<and> in_pack pack offset b)"

lemma object_blocks: "MAX_OBJECT_BYTES div CHUNK_BYTES * CHUNK_BYTES = MAX_OBJECT_BYTES" "0 < MAX_OBJECT_BYTES div CHUNK_BYTES"
  by (simp_all add: MAX_OBJECT_BYTES_def CHUNK_BYTES_def)

lemma map_of_stored:
  "distinct (map fst ds) \<Longrightarrow> map_of (map (\<lambda>(i, b). (i, dg b)) (filter (\<lambda>(i, b). Q i b) ds)) i =
     (case map_of ds i of Some b \<Rightarrow> if Q i b then Some (dg b) else None | None \<Rightarrow> None)"
proof (induction ds)
  case Nil
  then show ?case by simp
next
  case (Cons d ds)
  obtain k v where d: "d = (k, v)" by force
  have "map_of ds k = None" using Cons.prems by (simp add: d map_of_eq_None_iff)
  with Cons show ?case by (auto simp: d)
qed

lemma packs_located:
  assumes inv: "blocks_inv dg force V W ds pk" and len: "\<forall>b \<in> snd ` set ds. length b = CHUNK_BYTES"
    and run: "plan_groups dg (chunks_of (MAX_OBJECT_BYTES div CHUNK_BYTES) (pk_chunks pk)) [] [] = (packs, locations)"
  shows "\<forall>(h, b) \<in> set (pk_chunks pk). located dg locations packs h b" "\<forall>(d, b) \<in> set packs. d = dg b"
proof -
  let ?g = "chunks_of (MAX_OBJECT_BYTES div CHUNK_BYTES) (pk_chunks pk)"
  have c: "concat ?g = pk_chunks pk" by (rule chunks_of_concat [OF object_blocks(2)])
  note ok = blocks_invD(1) [OF inv]
  have "length b = CHUNK_BYTES" if "(h, b) \<in> set (pk_chunks pk)" for h b
    using blocks_invD(7) [OF inv that] len by blast
  moreover have "length g * CHUNK_BYTES \<le> MAX_OBJECT_BYTES" if "g \<in> set ?g" for g
    using chunks_of_group [OF that] object_blocks(1) by (metis mult_le_mono1)
  ultimately have "(\<forall>(h, b) \<in> {} \<union> set (concat ?g). located dg locations packs h b)
      \<and> set packs = set [] \<union> (\<lambda>g. (dg (pack_of g), pack_of g)) ` set ?g"
    using ok by (intro plan_groups_located [OF _ _ _ _ _ run]) (auto simp: c bt_ok_distinct)
  then show "\<forall>(h, b) \<in> set (pk_chunks pk). located dg locations packs h b" "\<forall>(d, b) \<in> set packs. d = dg b"
    by (auto simp: c)
qed

lemma stored_cell1: "map_of ds i = Some b \<Longrightarrow> rewritten dg force V i b \<Longrightarrow> cell1 dg force V ds i = direct_value (dg b)"
  by (simp add: cell1_def rewritten_def)

lemma placed_planned:
  assumes inv: "blocks_inv dg force V W ds pk" and ds: "distinct (map fst ds)" "inj_on dg (snd ` set ds)"
    and loc: "\<forall>(h, b) \<in> set (pk_chunks pk). located dg locations packs h b"
    and p: "bt_get (pk_pages pk) (i div SLOTS) = Some p"
  shows "planned_cell dg force V W ds packs i (placed_cell locations (pk_changed pk) (pk_pages pk) i)"
proof -
  note old = blocks_invD(5) [OF inv p]
  have changed: "map_of (pk_changed pk) i =
      (case map_of ds i of Some b \<Rightarrow> if stored_block dg force V W i b then Some (dg b) else None | None \<Rightarrow> None)"
    by (simp only: blocks_invD(6) [OF inv] map_of_stored [OF ds(1)])
  show ?thesis
  proof (cases "map_of ds i")
    case None
    then show ?thesis using changed p old by (simp add: planned_cell_def placed_cell_def cell1_def)
  next
    case (Some b)
    then have mem: "(i, b) \<in> set ds" by (rule map_of_SomeD)
    show ?thesis
    proof (cases "stored_block dg force V W i b")
      case False
      then show ?thesis
        using Some changed p old by (auto simp: planned_cell_def placed_cell_def cell1_def stored_block_def)
    next
      case True
      then obtain c where c: "(dg b, c) \<in> set (pk_chunks pk)" using blocks_invD(8) [OF inv mem] by blast
      then have "dg c = dg b" "c \<in> snd ` set ds" using blocks_invD(7) [OF inv c] by simp_all
      then have "c = b" using inj_onD [OF ds(2)] mem by force
      then have "located dg locations packs (dg b) b" using loc c by blast
      then obtain pack offset where l: "bt_get locations (dg b) = Some (dg pack, offset)" "(dg pack, pack) \<in> set packs" "in_pack pack offset b"
        unfolding located_def by blast
      have cell: "placed_cell locations (pk_changed pk) (pk_pages pk) i = packed_value (dg b) (dg pack) offset"
        using Some True changed l(1) by (simp add: placed_cell_def)
      show ?thesis
        unfolding cell planned_cell_def Some using True l(2,3) by (auto simp: stored_block_def rewritten_def)
    qed
  qed
qed

lemma changed_direct:
  assumes inv: "blocks_inv dg force V W ds pk" and ds: "distinct (map fst ds)" and dg: "\<And>b. valid_hash (dg b)"
  shows "distinct (map fst (pk_changed pk))"
    "\<forall>(i, h) \<in> set (pk_changed pk). valid_hash h \<and> (\<forall>p. bt_get (pk_pages pk) (i div SLOTS) = Some p \<longrightarrow> cell p i = direct_value h)"
proof -
  have "map fst (map (\<lambda>(i, b). (i, dg b)) xs) = map fst xs" for xs :: "(nat \<times> bytes) list"
    by (induction xs) auto
  then show "distinct (map fst (pk_changed pk))"
    unfolding blocks_invD(6) [OF inv] by (simp only: distinct_map_filter [OF ds])
  show "\<forall>(i, h) \<in> set (pk_changed pk). valid_hash h \<and> (\<forall>p. bt_get (pk_pages pk) (i div SLOTS) = Some p \<longrightarrow> cell p i = direct_value h)"
  proof clarify
    fix i h
    assume "(i, h) \<in> set (pk_changed pk)"
    then obtain b where b: "(i, b) \<in> set ds" "stored_block dg force V W i b" "h = dg b"
      by (auto simp: blocks_invD(6) [OF inv])
    have "map_of ds i = Some b" using ds b(1) by (simp add: map_of_eq_Some_iff)
    then show "valid_hash h \<and> (\<forall>p. bt_get (pk_pages pk) (i div SLOTS) = Some p \<longrightarrow> cell p i = direct_value h)"
      using blocks_invD(5) [OF inv] stored_cell1 b(2) dg b(3) by (auto simp: stored_block_def)
  qed
qed

text \<open>The plan, in one statement.\<close>

lemma commit_plan_spec:
  assumes run: "commit_plan dg force vol V W table = Ok pl" and V: "\<And>pi. page_frame pi (V pi)"
    and ds: "bt_ok (x_dirty vol)" "\<forall>b \<in> snd ` set (x_dirty vol). length b = CHUNK_BYTES" "inj_on dg (snd ` set (x_dirty vol))"
    and dg: "\<And>b. valid_hash (dg b)" and table: "bt_ok table"
  shows "framed (pl_pages pl)" "dom (bt_get (pl_pages pl)) = touched (x_dirty vol)"
    "bt_get (pl_pages pl) (i div SLOTS) = Some p \<Longrightarrow> planned_cell dg force V W (x_dirty vol) (pl_packs pl) i (cell p i)"
    "bt_ok (pl_table pl)" "pi \<notin> touched (x_dirty vol) \<Longrightarrow> bt_get (pl_table pl) pi = bt_get table pi"
    "bt_get (pl_pages pl) pi = Some p \<Longrightarrow> page_outcome dg vol (\<lambda>pi. Some (W pi)) table (pl_table pl) (set (pl_uploads pl)) pi p"
    "set (pl_packs pl) \<subseteq> set (pl_uploads pl)" "(d, b) \<in> set (pl_uploads pl) \<Longrightarrow> d = dg b"
proof -
  have dist: "distinct (map fst (x_dirty vol))" using ds(1) by (rule bt_ok_distinct)
  obtain pk packs locations pages np uploads where s: "plan_blocks dg force V W (x_dirty vol) no_packing = Ok pk"
      "plan_groups dg (chunks_of (MAX_OBJECT_BYTES div CHUNK_BYTES) (pk_chunks pk)) [] [] = (packs, locations)"
      "plan_places locations (pk_changed pk) (pk_pages pk) = Ok pages"
      "plan_pages dg vol (pk_base_pages pk) pages (table, packs) = Ok (np, uploads)"
      "pl = \<lparr>pl_packs = packs, pl_pages = pages, pl_table = np, pl_uploads = uploads\<rparr>"
  proof -
    obtain pk where pk: "plan_blocks dg force V W (x_dirty vol) no_packing = Ok pk"
      using run by (auto simp: commit_plan_def res_bind_Ok)
    obtain packs locations where g: "plan_groups dg (chunks_of (MAX_OBJECT_BYTES div CHUNK_BYTES) (pk_chunks pk)) [] [] = (packs, locations)"
      by force
    show thesis using run pk g that by (auto simp: commit_plan_def res_bind_Ok)
  qed
  have inv: "blocks_inv dg force V W (x_dirty vol) pk"
    using plan_blocks_inv [OF s(1) blocks_inv_start V _ dg] dist by simp
  note loc = packs_located [OF inv ds(2) s(2)]
  note cells = plan_places_cells [OF s(3) blocks_invD(2) [OF inv] changed_direct [OF inv dist dg]]
  have ok: "bt_ok pages" using cells by (simp add: framed_def)
  note tab = plan_pages_table [OF s(4) table bt_ok_distinct [OF ok]]
  have dom: "dom (bt_get pages) = touched (x_dirty vol)" using cells blocks_invD(3) [OF inv] by simp
  have keys: "fst ` set pages = touched (x_dirty vol)" unfolding dom [symmetric] by (simp add: dom_map_of_conv_image_fst)
  show "framed (pl_pages pl)" "dom (bt_get (pl_pages pl)) = touched (x_dirty vol)" "bt_ok (pl_table pl)" "set (pl_packs pl) \<subseteq> set (pl_uploads pl)"
    using cells tab dom by (auto simp: s(5))
  show "planned_cell dg force V W (x_dirty vol) (pl_packs pl) i (cell p i)" if "bt_get (pl_pages pl) (i div SLOTS) = Some p"
  proof -
    have p: "bt_get pages (i div SLOTS) = Some p" using that by (simp add: s(5))
    then obtain p0 where p0: "bt_get (pk_pages pk) (i div SLOTS) = Some p0" using cells by (metis domD domI)
    have "cell p i = placed_cell locations (pk_changed pk) (pk_pages pk) i" using cells p by blast
    then show ?thesis
      using placed_planned [OF inv dist ds(3) loc(1) p0] by (simp add: s(5))
  qed
  show "bt_get (pl_table pl) pi = bt_get table pi" if "pi \<notin> touched (x_dirty vol)"
    using tab that keys by (simp add: s(5))
  show "page_outcome dg vol (\<lambda>pi. Some (W pi)) table (pl_table pl) (set (pl_uploads pl)) pi p" if "bt_get (pl_pages pl) pi = Some p"
  proof -
    have mem: "(pi, p) \<in> set pages" using that by (simp add: s(5) bt_entries [OF ok])
    have t: "pi \<in> touched (x_dirty vol)" using mem keys by force
    have "page_outcome dg vol (bt_get (pk_base_pages pk)) table np (set uploads) pi p" using tab mem by blast
    then show ?thesis
      by (rule page_outcome_cong) (use t in \<open>simp_all add: s(5) blocks_invD(4) [OF inv]\<close>)
  qed
  show "d = dg b" if "(d, b) \<in> set (pl_uploads pl)"
    using that tab loc(2) by (auto simp: s(5))
qed

text \<open>The objects of a plan: packs of the dirty blocks, and the pages.\<close>

lemma commit_plan_uploads:
  assumes run: "commit_plan dg force vol V W table = Ok pl" and V: "\<And>pi. page_frame pi (V pi)"
    and ds: "bt_ok (x_dirty vol)" "\<forall>b \<in> snd ` set (x_dirty vol). length b = CHUNK_BYTES"
    and dg: "\<And>b. valid_hash (dg b)" and table: "bt_ok table"
  obtains chunks where "bt_ok chunks" "\<forall>(h, b) \<in> set chunks. h = dg b \<and> b \<in> snd ` set (x_dirty vol)"
    "snd ` set (pl_uploads pl) \<subseteq> pack_of ` set (chunks_of (MAX_OBJECT_BYTES div CHUNK_BYTES) chunks) \<union> snd ` set (pl_pages pl)"
    "framed (pl_pages pl)" "fst ` set (pl_pages pl) = touched (x_dirty vol)"
proof -
  have dist: "distinct (map fst (x_dirty vol))" using ds(1) by (rule bt_ok_distinct)
  obtain pk where pk: "plan_blocks dg force V W (x_dirty vol) no_packing = Ok pk"
    using run by (auto simp: commit_plan_def res_bind_Ok)
  let ?groups = "chunks_of (MAX_OBJECT_BYTES div CHUNK_BYTES) (pk_chunks pk)"
  obtain packs locations where g: "plan_groups dg ?groups [] [] = (packs, locations)" by force
  obtain pages np uploads where s: "plan_places locations (pk_changed pk) (pk_pages pk) = Ok pages"
      "plan_pages dg vol (pk_base_pages pk) pages (table, packs) = Ok (np, uploads)"
      "pl = \<lparr>pl_packs = packs, pl_pages = pages, pl_table = np, pl_uploads = uploads\<rparr>"
    using run pk g by (auto simp: commit_plan_def res_bind_Ok)
  have inv: "blocks_inv dg force V W (x_dirty vol) pk"
    using plan_blocks_inv [OF pk blocks_inv_start V _ dg] dist by simp
  note cells = plan_places_cells [OF s(1) blocks_invD(2) [OF inv] changed_direct [OF inv dist dg]]
  have ok: "bt_ok pages" using cells by (simp add: framed_def)
  note tab = plan_pages_table [OF s(2) table bt_ok_distinct [OF ok]]
  have groups: "set ps = set us \<union> (\<lambda>g. (dg (pack_of g), pack_of g)) ` set gs" if "plan_groups dg gs us ls = (ps, ls')" for gs us ls ps ls'
    using that by (induction gs arbitrary: us ls) auto
  show thesis
  proof (rule that [of "pk_chunks pk"])
    show "bt_ok (pk_chunks pk)" by (rule blocks_invD(1) [OF inv])
    show "\<forall>(h, b) \<in> set (pk_chunks pk). h = dg b \<and> b \<in> snd ` set (x_dirty vol)" using blocks_invD(7) [OF inv] by blast
    show "snd ` set (pl_uploads pl) \<subseteq> pack_of ` set ?groups \<union> snd ` set (pl_pages pl)"
    proof
      fix b assume "b \<in> snd ` set (pl_uploads pl)"
      then obtain h where h: "(h, b) \<in> set uploads" by (auto simp: s(3))
      have "set uploads \<subseteq> set packs \<union> (\<lambda>(_, p). (dg p, p)) ` set pages" using tab by blast
      with h consider "(h, b) \<in> set packs" | "(h, b) \<in> (\<lambda>(_, p). (dg p, p)) ` set pages" by blast
      then show "b \<in> pack_of ` set ?groups \<union> snd ` set (pl_pages pl)"
      proof cases
        case 1
        then show ?thesis using groups [OF g] by auto
      next
        case 2
        then show ?thesis by (force simp: s(3))
      qed
    qed
    show "framed (pl_pages pl)" using cells by (simp add: s(3))
    show "fst ` set (pl_pages pl) = touched (x_dirty vol)"
      using cells blocks_invD(3) [OF inv] dom_map_of_conv_image_fst [of pages] by (simp add: s(3))
  qed
qed

end
