(* ===== verification/Workers.thy ===== *)
theory Workers
  imports Indexed
begin

text \<open>
  The pool of threads of an upload (\<open>upload_objects\<close> and \<open>commit_inner\<close> in
  \<open>rust/ahvm-volume/src/indexed.rs\<close>) under every schedule: whatever the order in which
  the workers take their steps, a pool that reports success has completed every job, and
  it reports success unless a job failed.
\<close>

section \<open>One worker among others\<close>

text \<open>
  \<open>R\<close> is how a job may change the world, \<open>D w j\<close> what job \<open>j\<close> of worker \<open>w\<close> achieves
  when it succeeds; later steps must keep it.
\<close>

definition jobs_sound ::
  "('s, unit, verror) io list list \<Rightarrow> ('s \<Rightarrow> bool) \<Rightarrow> ('s \<Rightarrow> 's \<Rightarrow> bool) \<Rightarrow> (nat \<Rightarrow> nat \<Rightarrow> 's \<Rightarrow> bool) \<Rightarrow> bool" where
  "jobs_sound jobs ok R D \<longleftrightarrow>
     (\<forall>s. ok s \<longrightarrow> R s s) \<and> (\<forall>s t u. R s t \<longrightarrow> R t u \<longrightarrow> R s u) \<and> (\<forall>w j s t. D w j s \<longrightarrow> R s t \<longrightarrow> D w j t)
     \<and> (\<forall>w < length jobs. \<forall>j < length (jobs ! w). \<forall>s. ok s \<longrightarrow>
          post (jobs ! w ! j) (\<lambda>_ s'. ok s' \<and> R s s' \<and> D w j s') (\<lambda>_ s'. ok s' \<and> R s s') s)"

text \<open>Where worker \<open>w\<close> stands after it was scheduled \<open>n\<close> times.\<close>

definition worker_at ::
  "('s, unit, verror) io list list \<Rightarrow> (nat \<Rightarrow> nat \<Rightarrow> 's \<Rightarrow> bool) \<Rightarrow> nat \<Rightarrow> nat \<Rightarrow> 's worker \<Rightarrow> 's \<Rightarrow> bool" where
  "worker_at jobs D w n wk s \<longleftrightarrow>
     (case snd wk of
        Ok _ \<Rightarrow> (\<exists>k \<le> length (jobs ! w). fst wk = drop k (jobs ! w) \<and> min n (length (jobs ! w)) \<le> k \<and> (\<forall>j < k. D w j s))
      | Err _ \<Rightarrow> fst wk = [])"

definition pool_at ::
  "('s, unit, verror) io list list \<Rightarrow> ('s \<Rightarrow> bool) \<Rightarrow> ('s \<Rightarrow> 's \<Rightarrow> bool) \<Rightarrow> (nat \<Rightarrow> nat \<Rightarrow> 's \<Rightarrow> bool)
   \<Rightarrow> 's \<Rightarrow> nat list \<Rightarrow> 's worker list \<times> 's \<Rightarrow> bool" where
  "pool_at jobs ok R D s0 sched = (\<lambda>(ws, s). length ws = length jobs \<and> ok s \<and> R s0 s
     \<and> (\<forall>w < length jobs. worker_at jobs D w (count_list sched w) (ws ! w) s))"

lemma worker_at_keep:
  assumes "jobs_sound jobs ok R D" "worker_at jobs D w n wk s" "R s t"
  shows "worker_at jobs D w n wk t"
proof (cases "snd wk")
  case (Ok u)
  with assms(2) obtain k where k: "k \<le> length (jobs ! w)" "fst wk = drop k (jobs ! w)" "min n (length (jobs ! w)) \<le> k" "\<forall>j < k. D w j s"
    by (auto simp: worker_at_def)
  have "\<forall>j < k. D w j t" using k(4) assms(1,3) unfolding jobs_sound_def by blast
  with k(1-3) Ok show ?thesis by (auto simp: worker_at_def)
next
  case (Err e)
  with assms(2) show ?thesis by (simp add: worker_at_def)
qed

lemma worker_at_idle:
  assumes "worker_at jobs D w n wk s" "fst wk = []"
  shows "worker_at jobs D w (Suc n) wk s"
proof (cases "snd wk")
  case (Ok u)
  with assms obtain k where k: "k \<le> length (jobs ! w)" "drop k (jobs ! w) = []" "\<forall>j < k. D w j s"
    by (auto simp: worker_at_def)
  then have "k = length (jobs ! w)" by simp
  with k Ok assms(2) show ?thesis by (auto simp: worker_at_def)
next
  case (Err e)
  with assms show ?thesis by (simp add: worker_at_def)
qed

text \<open>The step of a worker that has a job left.\<close>

lemma worker_at_step:
  assumes js: "jobs_sound jobs ok R D" and w: "w < length jobs" and wk: "worker_at jobs D w n (m # ms, q) s" and s: "ok s"
    and run: "m s = (r, t)"
  shows "ok t \<and> R s t \<and> worker_at jobs D w (Suc n) (case r of Ok _ \<Rightarrow> (ms, Ok ()) | Err e \<Rightarrow> ([], Err e)) t"
proof -
  from wk obtain k where k: "k \<le> length (jobs ! w)" "m # ms = drop k (jobs ! w)" "min n (length (jobs ! w)) \<le> k" "\<forall>j < k. D w j s"
    by (cases q) (auto simp: worker_at_def)
  then have lt: "k < length (jobs ! w)" by (cases "k = length (jobs ! w)") auto
  from k(2) lt have m: "m = jobs ! w ! k" "ms = drop (Suc k) (jobs ! w)"
    using Cons_nth_drop_Suc [OF lt] by (metis list.inject)+
  have p: "post m (\<lambda>_ s'. ok s' \<and> R s s' \<and> D w k s') (\<lambda>_ s'. ok s' \<and> R s s') s"
    using js w lt s unfolding jobs_sound_def m by blast
  have keep: "D w j t" if "D w j s" "R s t" for j
    using js that unfolding jobs_sound_def by blast
  show ?thesis
  proof (cases r)
    case (Ok u)
    then have t: "ok t" "R s t" "D w k t" using post_run [OF p] run by auto
    then have "\<forall>j < Suc k. D w j t" using k(4) keep by (auto simp: less_Suc_eq)
    with t lt k(3) m(2) Ok show ?thesis
      by (auto simp: worker_at_def intro!: exI [of _ "Suc k"])
  next
    case (Err e)
    then show ?thesis using post_run_err [OF p] run by (auto simp: worker_at_def)
  qed
qed

lemma pool_step:
  assumes js: "jobs_sound jobs ok R D" and p: "pool_at jobs ok R D s0 sched (ws, s)"
  shows "pool_at jobs ok R D s0 (sched @ [w]) (worker_step w (ws, s))"
proof (cases "w < length jobs \<and> fst (ws ! w) \<noteq> []")
  case False
  have "worker_at jobs D v (count_list (sched @ [w]) v) (ws ! v) s" if "v < length jobs" for v
    using False p that worker_at_idle [of jobs D v "count_list sched v" "ws ! v" s] by (auto simp: pool_at_def)
  moreover have "worker_step w (ws, s) = (ws, s)"
    using False p by (cases "ws ! w") (auto simp: worker_step_def pool_at_def)
  ultimately show ?thesis using p by (simp add: pool_at_def)
next
  case True
  then obtain m ms q where wk: "ws ! w = (m # ms, q)" by (cases "ws ! w"; cases "fst (ws ! w)") auto
  obtain r t where run: "m s = (r, t)" by force
  have at: "worker_at jobs D v (count_list sched v) (ws ! v) s" if "v < length jobs" for v
    using p that by (simp add: pool_at_def)
  have s: "ok s" "R s0 s" "length ws = length jobs" using p by (auto simp: pool_at_def)
  note st = worker_at_step [OF js _ at [of w, unfolded wk] s(1) run]
  have "worker_step w (ws, s) = (ws[w := (case r of Ok _ \<Rightarrow> (ms, Ok ()) | Err e \<Rightarrow> ([], Err e))], t)"
    using True s(3) wk run by (simp add: worker_step_def split: result.split)
  moreover have "worker_at jobs D v (count_list (sched @ [w]) v) (ws[w := (case r of Ok _ \<Rightarrow> (ms, Ok ()) | Err e \<Rightarrow> ([], Err e))] ! v) t"
    if "v < length jobs" for v
  proof (cases "v = w")
    case True
    then show ?thesis using st that s(3) by simp
  next
    case False
    then show ?thesis using worker_at_keep [OF js at [OF that]] st True by simp
  qed
  moreover have "R s0 t" using js s(2) st True unfolding jobs_sound_def by blast
  ultimately show ?thesis using st True s(3) by (simp add: pool_at_def)
qed

lemma pool_run:
  assumes "jobs_sound jobs ok R D" "ok s"
  shows "pool_at jobs ok R D s sched (fold worker_step sched (map (\<lambda>ms. (ms, Ok ())) jobs, s))"
proof (induction sched rule: rev_induct)
  case Nil
  have "R s s" using assms unfolding jobs_sound_def by blast
  with assms(2) show ?case by (auto simp: pool_at_def worker_at_def intro: exI [of _ 0])
next
  case (snoc w sched)
  then show ?case
    using pool_step [OF assms(1)] by (cases "fold worker_step sched (map (\<lambda>ms. (ms, Ok ())) jobs, s)") simp
qed

section \<open>The whole pool\<close>

lemma join_result_Ok: "join_result ws = Ok () \<longleftrightarrow> (\<forall>wk \<in> set ws. snd wk = Ok ())"
proof -
  have "foldl (\<lambda>res (_, q). case q of Ok _ \<Rightarrow> res | Err e \<Rightarrow> Err (if e = Panic then Store else e)) r ws = Ok ()
      \<longleftrightarrow> r = Ok () \<and> (\<forall>wk \<in> set ws. snd wk = Ok ())" for r :: "(unit, verror) result"
    by (induction ws arbitrary: r) (auto split: result.splits)
  then show ?thesis by (simp add: join_result_def)
qed

lemma count_list_concat: "count_list (concat xss) w = sum_list (map (\<lambda>xs. count_list xs w) xss)"
  by (induction xss) auto

lemma count_list_replicate: "count_list (replicate n v) w = (if v = w then n else 0)"
  by (induction n) auto

lemma tail_count: "w < n \<Longrightarrow> f w \<le> count_list (concat (map (\<lambda>w. replicate (f w) w) [0..<n])) w"
proof -
  assume w: "w < n"
  have "f w = count_list (replicate (f w) w) w" by (simp add: count_list_replicate)
  also have "\<dots> \<le> sum_list (map (\<lambda>xs. count_list xs w) (map (\<lambda>w. replicate (f w) w) [0..<n]))"
    using w by (intro member_le_sum_list) auto
  finally show ?thesis by (simp add: count_list_concat)
qed

lemma run_workers_sound:
  assumes js: "jobs_sound jobs ok R D" "ok s" and run: "run_workers sched jobs s = (r, t)"
  shows "ok t \<and> R s t \<and> (r = Ok () \<longrightarrow> (\<forall>w < length jobs. \<forall>j < length (jobs ! w). D w j t))"
proof -
  define tl where "tl = concat (map (\<lambda>w. replicate (length (jobs ! w)) w) [0..<length jobs])"
  obtain ws where f: "fold worker_step (sched @ tl) (map (\<lambda>ms. (ms, Ok ())) jobs, s) = (ws, t)" "r = join_result ws"
    using run by (auto simp: run_workers_def tl_def Let_def split: prod.splits)
  note p = pool_run [OF js, of "sched @ tl", unfolded f(1)]
  have "D w j t" if "r = Ok ()" "w < length jobs" "j < length (jobs ! w)" for w j
  proof -
    have "snd (ws ! w) = Ok ()" using that p f(2) join_result_Ok [of ws] by (simp add: pool_at_def)
    moreover have "length (jobs ! w) \<le> count_list (sched @ tl) w"
      using tail_count [OF that(2), of "\<lambda>w. length (jobs ! w)"] by (simp add: tl_def)
    moreover have "worker_at jobs D w (count_list (sched @ tl) w) (ws ! w) t" using p that by (simp add: pool_at_def)
    ultimately obtain k where "min (count_list (sched @ tl) w) (length (jobs ! w)) \<le> k" "\<forall>j < k. D w j t"
        "length (jobs ! w) \<le> count_list (sched @ tl) w" by (auto simp: worker_at_def)
    then show ?thesis using that(3) by (simp add: min_def split: if_splits)
  qed
  with p show ?thesis by (simp add: pool_at_def)
qed

text \<open>Every job belongs to a worker.\<close>

lemma worker_of_job:
  assumes "i < n" "0 < c"
  obtains w j where "w < length (worker_jobs c n job)" "j < length (worker_jobs c n job ! w)" "filter (\<lambda>i. i mod c = w) [0..<n] ! j = i"
proof -
  define w where "w = i mod c"
  have w: "w < min c n" using assms by (auto simp: w_def intro: le_less_trans [OF mod_less_eq_dividend])
  have "i \<in> set (filter (\<lambda>i. i mod c = w) [0..<n])" using assms by (simp add: w_def)
  then obtain j where "j < length (filter (\<lambda>i. i mod c = w) [0..<n])" "filter (\<lambda>i. i mod c = w) [0..<n] ! j = i"
    by (meson in_set_conv_nth)
  then show thesis using w by (intro that [of w j]) (simp_all add: worker_jobs_def)
qed

text \<open>The pool of an upload: what job \<open>i\<close> achieves is \<open>A i\<close>.\<close>

lemma upload_pool:
  assumes refl: "\<And>s. ok s \<Longrightarrow> R s s" and trans: "\<And>s t u. R s t \<Longrightarrow> R t u \<Longrightarrow> R s u"
    and keep: "\<And>i s t. A i s \<Longrightarrow> R s t \<Longrightarrow> A i t"
    and job: "\<And>i s. i < n \<Longrightarrow> ok s \<Longrightarrow> post (job i) (\<lambda>_ s'. ok s' \<and> R s s' \<and> A i s') (\<lambda>_ s'. ok s' \<and> R s s') s"
    and c: "0 < c" and s: "ok s"
  shows "post (run_workers sched (worker_jobs c n job)) (\<lambda>_ s'. ok s' \<and> R s s' \<and> (\<forall>i < n. A i s')) (\<lambda>_ s'. ok s' \<and> R s s') s"
proof -
  define share where "share w = filter (\<lambda>i. i mod c = w) [0..<n]" for w
  have nth: "worker_jobs c n job ! w = map job (share w)" if "w < length (worker_jobs c n job)" for w
    using that by (simp add: worker_jobs_def share_def)
  have mem: "share w ! j < n" if "j < length (share w)" for w j
    using nth_mem [OF that] by (simp add: share_def)
  have js: "jobs_sound (worker_jobs c n job) ok R (\<lambda>w j. A (share w ! j))"
    unfolding jobs_sound_def
  proof (intro conjI allI impI)
    fix w j s
    assume w: "w < length (worker_jobs c n job)" and j: "j < length (worker_jobs c n job ! w)" and "ok s"
    then show "post (worker_jobs c n job ! w ! j) (\<lambda>_ s'. ok s' \<and> R s s' \<and> A (share w ! j) s') (\<lambda>_ s'. ok s' \<and> R s s') s"
      using job [OF mem, of j w s] by (simp add: nth [OF w])
  qed (fact refl, fact trans, fact keep)
  obtain r t where run: "run_workers sched (worker_jobs c n job) s = (r, t)" by force
  note rs = run_workers_sound [OF js s run]
  have "A i t" if r: "r = Ok ()" and i: "i < n" for i
  proof -
    obtain w j where "w < length (worker_jobs c n job)" "j < length (worker_jobs c n job ! w)" "share w ! j = i"
      using worker_of_job [OF i c, of job] unfolding share_def by blast
    with rs r show ?thesis by auto
  qed
  with rs run show ?thesis by (cases r) (auto simp: post_def)
qed

end
