(* ===== verification/Indexed_Disk.thy ===== *)
theory Indexed_Disk
  imports Workers S3
begin

text \<open>
  What an indexed volume means and how its handles behave: the disk that a root with its
  pages, packs and base image stands for, reads and writes of it, the threads of an
  upload under every schedule, and publication. The locale \<open>indexed_store\<close> is what a
  volume relies on of its store, its clock and its serialisation; the S3 store is shown
  to provide it.
\<close>

section \<open>The disk of a handle\<close>

type_synonym base_view = "string \<Rightarrow> string \<Rightarrow> bytes option"

text \<open>The page that \<open>page_from\<close> returns, read off the contents of the store.\<close>

definition blank_page :: "bool \<Rightarrow> nat \<Rightarrow> bytes" where
  "blank_page pk index =
     copy_at (copy_at (zeros (if pk then PACK_PAGE_BYTES else CHUNK_BYTES)) 0 (if pk then PACK_MAGIC else PAGE_MAGIC)) 8 (be_bytes 8 index)"

definition raw_page :: "objs_view \<Rightarrow> base_view \<Rightarrow> indexed \<Rightarrow> nat \<Rightarrow> string option \<Rightarrow> bool \<Rightarrow> bytes" where
  "raw_page X B vol index oh base =
     (case oh of
        None \<Rightarrow> blank_page (packed vol \<and> \<not> base) index
      | Some h \<Rightarrow> the (if base then B (b_image (the (rt_base (x_root vol)))) h else X (rt_volume (x_root vol)) h))"

definition page_view :: "objs_view \<Rightarrow> base_view \<Rightarrow> indexed \<Rightarrow> nat \<Rightarrow> string option \<Rightarrow> bool \<Rightarrow> bytes" where
  "page_view X B vol index oh base =
     (if packed vol \<and> base then packed_page (raw_page X B vol index oh base) else raw_page X B vol index oh base)"

definition inherits :: "indexed \<Rightarrow> nat \<Rightarrow> bool" where
  "inherits vol index \<longleftrightarrow> bt_get (rt_pages (x_root vol)) index \<noteq> None \<and> x_base vol \<noteq> None
     \<and> catalog_page vol index = bt_get (rt_pages (x_root vol)) index"

definition vpage :: "objs_view \<Rightarrow> base_view \<Rightarrow> indexed \<Rightarrow> nat \<Rightarrow> bytes" where
  "vpage X B vol index = page_view X B vol index (bt_get (rt_pages (x_root vol)) index) (inherits vol index)"

definition bpage :: "objs_view \<Rightarrow> base_view \<Rightarrow> indexed \<Rightarrow> nat \<Rightarrow> bytes" where
  "bpage X B vol index = page_view X B vol index (catalog_page vol index) True"

text \<open>The block that a slot of a page stands for, given the page of the base image.\<close>

definition slot_inherited :: "bool \<Rightarrow> bytes \<Rightarrow> bytes \<Rightarrow> nat \<Rightarrow> bool" where
  "slot_inherited based page bp i \<longleftrightarrow> based \<and> page_slot bp i = page_slot page i \<and> object_slot bp i = object_slot page i"

definition object_block :: "objs_view \<Rightarrow> string \<Rightarrow> bytes \<Rightarrow> nat \<Rightarrow> bytes" where
  "object_block X v page i =
     (case (page_slot page i, object_slot page i) of
        (Some hash, Some (obj, offset)) \<Rightarrow>
          if obj = hash then the (X v obj) else slice_of (the (X v obj)) offset (offset + CHUNK_BYTES)
      | _ \<Rightarrow> zeros CHUNK_BYTES)"

definition slot_block :: "objs_view \<Rightarrow> base_view \<Rightarrow> indexed \<Rightarrow> bytes \<Rightarrow> bytes \<Rightarrow> nat \<Rightarrow> bytes" where
  "slot_block X B vol page bp i =
     (case page_slot page i of
        None \<Rightarrow> zeros CHUNK_BYTES
      | Some hash \<Rightarrow>
          if slot_inherited (x_base vol \<noteq> None) page bp i then the (B (b_image (the (rt_base (x_root vol)))) hash)
          else object_block X (rt_volume (x_root vol)) page i)"

definition committed_block :: "objs_view \<Rightarrow> base_view \<Rightarrow> indexed \<Rightarrow> nat \<Rightarrow> bytes" where
  "committed_block X B vol i =
     slot_block X B vol (vpage X B vol (i div SLOTS)) (bpage X B vol (i div SLOTS)) i"

definition xblock :: "objs_view \<Rightarrow> base_view \<Rightarrow> indexed \<Rightarrow> nat \<Rightarrow> bytes" where
  "xblock X B vol i = (case bt_get (x_dirty vol) i of Some b \<Rightarrow> b | None \<Rightarrow> committed_block X B vol i)"

definition xdisk :: "objs_view \<Rightarrow> base_view \<Rightarrow> indexed \<Rightarrow> bytes" where
  "xdisk X B vol = dextent (xblock X B vol) 0 (x_size vol)"

text \<open>The invariant of a handle.\<close>

definition x_inv :: "indexed \<Rightarrow> bool" where
  "x_inv vol \<longleftrightarrow> valid_id (rt_volume (x_root vol)) \<and> root_valid (rt_volume (x_root vol)) (x_root vol)
     \<and> bt_ok (rt_pages (x_root vol)) \<and> bt_ok (x_dirty vol)
     \<and> (x_base vol = None \<longleftrightarrow> rt_base (x_root vol) = None)
     \<and> (\<forall>b. x_base vol = Some b \<longrightarrow> catalog_ok b \<and> ct_size b = rt_size (x_root vol))
     \<and> (\<forall>(i, b) \<in> set (x_dirty vol). i < x_size vol div CHUNK_BYTES \<and> length b = CHUNK_BYTES)"

lemma x_inv_dirty: "x_inv vol \<Longrightarrow> bt_get (x_dirty vol) i = Some b \<Longrightarrow> i < x_size vol div CHUNK_BYTES \<and> length b = CHUNK_BYTES"
  by (auto simp: x_inv_def dest: map_of_SomeD)

lemma x_check_Ok:
  "x_check vol at len = Ok () \<longleftrightarrow> \<not> x_poisoned vol \<and> at + len < U64 \<and> at + len \<le> x_size vol"
  by (auto simp: x_check_def x_size_def checked_add_def)

lemma object_slot_Some: "page_slot page i = Some h \<Longrightarrow> \<exists>obj offset. object_slot page i = Some (obj, offset)"
  by (simp add: object_slot_def Let_def)

lemma extract_block_Ok:
  "extract_block dg inherited hash obj offset bs = Ok b \<Longrightarrow>
     length b = CHUNK_BYTES \<and> dg b = hash
     \<and> b = (if \<not> inherited \<and> obj \<noteq> hash then slice_of bs offset (offset + CHUNK_BYTES) else bs)"
  by (auto simp: extract_block_def res_bind_def split: if_splits option.splits)

section \<open>The interface\<close>

definition root_wf :: "root \<Rightarrow> bool" where
  "root_wf r = bt_ok (rt_pages r)"

locale indexed_store = object_store_laws "ix_os E" heads objs ok
  for E :: "'s ix_env" and heads :: "'s \<Rightarrow> heads_view" and objs :: "'s \<Rightarrow> objs_view" and ok :: "'s \<Rightarrow> bool" +
  fixes B :: base_view
  assumes base_law: "ok s \<Longrightarrow> post (os_base_chunk (ix_os E) img h off)
      (\<lambda>b s'. ok s' \<and> heads s' = heads s \<and> objs s' = objs s \<and> B img h = Some b)
      (\<lambda>_ s'. ok s' \<and> heads s' = heads s \<and> objs s' = objs s) s"
    and cached_law: "ok s \<Longrightarrow> valid_id v \<Longrightarrow> os_cached_chunk (ix_os E) v d s = Some b \<Longrightarrow> objs s v d = Some b"
    and prefetch_law: "ok s \<Longrightarrow> os_prefetch (ix_os E) v ds s = s' \<Longrightarrow> ok s' \<and> heads s' = heads s \<and> objs s' = objs s"
    and prefetch_base_law: "ok s \<Longrightarrow> os_prefetch_base (ix_os E) img ds s = s' \<Longrightarrow> ok s' \<and> heads s' = heads s \<and> objs s' = objs s"
    and now_law: "ok s \<Longrightarrow> ix_now E s = (t, s') \<Longrightarrow> ok s' \<and> heads s' = heads s \<and> objs s' = objs s"
    and put_cancellable_law: "ok s \<Longrightarrow> valid_id v \<Longrightarrow>
      (\<And>t c t'. ok t \<Longrightarrow> cancel t = (c, t') \<Longrightarrow> ok t' \<and> heads t' = heads t \<and> objs t' = objs t) \<Longrightarrow>
      post (os_put_chunk_cancellable (ix_os E) v d b cancel)
        (\<lambda>_ s'. ok s' \<and> heads s' = heads s \<and> objs_le (objs s) (objs s') \<and> objs s' v d = Some b)
        (\<lambda>_ s'. ok s' \<and> heads s' = heads s \<and> objs_le (objs s) (objs s')) s"
    and publish_cancellable_law: "ok s \<Longrightarrow> valid_id v \<Longrightarrow>
      (\<And>t c t'. ok t \<Longrightarrow> cancel t = (c, t') \<Longrightarrow> ok t' \<and> heads t' = heads t \<and> objs t' = objs t) \<Longrightarrow>
      post (os_publish_cancellable (ix_os E) v expected m cancel)
        (\<lambda>rev s'. ok s' \<and> objs s' = objs s \<and> map_option h_revision (heads s v) = expected
           \<and> heads s' = (heads s)(v \<mapsto> \<lparr>h_revision = rev, h_manifest = m\<rparr>)
           \<and> (\<forall>h. heads s v = Some h \<and> h_manifest h \<noteq> m \<longrightarrow> rev \<noteq> h_revision h))
        (\<lambda>e s'. ok s' \<and> objs s' = objs s
           \<and> (heads s' = heads s
              \<or> e \<noteq> Conflict \<and> e \<noteq> Deadline \<and> map_option h_revision (heads s v) = expected
                \<and> (\<exists>rev. heads s' = (heads s)(v \<mapsto> \<lparr>h_revision = rev, h_manifest = m\<rparr>)))) s"
    and codec: "codec_ok root_wf (ix_codec E)"
begin

definition same :: "'s \<Rightarrow> 's \<Rightarrow> bool" where
  "same s s' \<longleftrightarrow> ok s' \<and> heads s' = heads s \<and> objs s' = objs s"

lemma same_refl: "ok s \<Longrightarrow> same s s"
  by (simp add: same_def)

lemma same_trans: "same s t \<Longrightarrow> same t u \<Longrightarrow> same s u"
  by (simp add: same_def)

lemma same_ok: "same s t \<Longrightarrow> ok t"
  by (simp add: same_def)

definition harmless :: "'s cancel \<Rightarrow> bool" where
  "harmless cancel \<longleftrightarrow> (\<forall>t c t'. ok t \<longrightarrow> cancel t = (c, t') \<longrightarrow> same t t')"

lemma harmlessD: "harmless cancel \<Longrightarrow> ok t \<Longrightarrow> cancel t = (c, t') \<Longrightarrow> ok t' \<and> heads t' = heads t \<and> objs t' = objs t"
  by (simp add: harmless_def same_def)

lemma harmless_never: "harmless never"
  by (simp add: harmless_def never_def same_def)

lemma harmless_stopped: "harmless cancel \<Longrightarrow> harmless (stopped E end_at cancel)"
  unfolding harmless_def stopped_def
  by (auto split: prod.splits bool.splits simp: same_def dest: now_law; metis now_law)

lemma check_cancel_same:
  "harmless cancel \<Longrightarrow> same s t \<Longrightarrow> post (check_cancel cancel) (\<lambda>_. same s) (\<lambda>_. same s) t"
  by (cases "cancel t") (use harmlessD [of cancel t] in \<open>auto simp: check_cancel_def post_def same_def\<close>)

lemma deadline_same: "same s t \<Longrightarrow> post (ix_deadline E end_at) (\<lambda>_. same s) (\<lambda>_. same s) t"
  unfolding ix_deadline_def post_def using now_law by (auto split: prod.splits simp: same_def)

lemma clock_same: "same s t \<Longrightarrow> post (ix_clock E) (\<lambda>_. same s) (\<lambda>_. same s) t"
  unfolding ix_clock_def post_def using now_law by (auto split: prod.splits simp: same_def)

text \<open>A page that is returned is the page of the view, and was checked.\<close>

lemma page_from_post:
  assumes "same s t" "valid_id (rt_volume (x_root vol))"
  shows "post (page_from E vol index oh base)
    (\<lambda>p u. same s u \<and> p = page_view (objs s) B vol index oh base
       \<and> (\<forall>h. oh = Some h \<longrightarrow> (base \<longrightarrow> rt_base (x_root vol) \<noteq> None)
            \<and> page_check (c_digest (ix_codec E)) (rt_size (x_root vol)) (packed vol \<and> \<not> base) index h
                (raw_page (objs s) B vol index oh base) = Ok ()))
    (\<lambda>_. same s) t"
proof (cases oh)
  case None
  then show ?thesis
    using assms by (simp add: page_from_def Let_def post_simps page_view_def raw_page_def blank_page_def)
next
  case (Some h)
  define dgc where "dgc = page_check (c_digest (ix_codec E)) (rt_size (x_root vol)) (packed vol \<and> \<not> base) index h"
  define fetch where "fetch = (if base
      then io_bind (io_lift (ok_or Corrupt (rt_base (x_root vol)))) (\<lambda>b. os_base_chunk (ix_os E) (b_image b) h None)
      else os_chunk (ix_os E) (rt_volume (x_root vol)) h)"
  have f: "post fetch (\<lambda>bs u. same s u \<and> bs = raw_page (objs s) B vol index oh base \<and> (base \<longrightarrow> rt_base (x_root vol) \<noteq> None)) (\<lambda>_. same s) t"
  proof (cases base)
    case True
    show ?thesis
    proof (cases "rt_base (x_root vol)")
      case None
      then show ?thesis using True assms by (simp add: fetch_def post_simps ok_or_def)
    next
      case (Some b)
      have "post (os_base_chunk (ix_os E) (b_image b) h None)
          (\<lambda>bs u. same s u \<and> B (b_image b) h = Some bs) (\<lambda>_. same s) t"
        by (rule post_mono [OF base_law [OF same_ok [OF assms(1)]]]) (use assms(1) in \<open>auto simp: same_def\<close>)
      then show ?thesis
        using True Some \<open>oh = Some h\<close>
        by (auto simp: fetch_def post_simps ok_or_def raw_page_def elim!: post_mono)
    qed
  next
    case False
    have "post (os_chunk (ix_os E) (rt_volume (x_root vol)) h)
        (\<lambda>bs u. same s u \<and> objs s (rt_volume (x_root vol)) h = Some bs) (\<lambda>_. same s) t"
      by (rule post_mono [OF chunk_law [OF same_ok [OF assms(1)] assms(2)]]) (use assms(1) in \<open>auto simp: same_def\<close>)
    then show ?thesis
      using False Some by (auto simp: fetch_def raw_page_def elim!: post_mono)
  qed
  have "page_from E vol index oh base =
      io_bind (io_bind fetch (\<lambda>bs. io_bind (io_lift (dgc bs)) (\<lambda>_. io_return bs)))
        (\<lambda>bs. io_return (if packed vol \<and> base then packed_page bs else bs))"
    using Some by (simp add: page_from_def Let_def fetch_def dgc_def)
  moreover have "post (io_bind (io_bind fetch (\<lambda>bs. io_bind (io_lift (dgc bs)) (\<lambda>_. io_return bs)))
        (\<lambda>bs. io_return (if packed vol \<and> base then packed_page bs else bs)))
    (\<lambda>p u. same s u \<and> p = page_view (objs s) B vol index oh base
       \<and> (base \<longrightarrow> rt_base (x_root vol) \<noteq> None) \<and> dgc (raw_page (objs s) B vol index oh base) = Ok ()) (\<lambda>_. same s) t"
    unfolding post_simps
    by (rule post_mono [OF f]) (auto simp: post_simps page_view_def split: result.split)
  ultimately show ?thesis using Some by (simp add: dgc_def)
qed

lemma x_page_same:
  assumes "same s t" "valid_id (rt_volume (x_root vol))"
  shows "post (x_page E vol index) (\<lambda>p u. same s u \<and> p = vpage (objs s) B vol index) (\<lambda>_. same s) t"
proof -
  have "x_page E vol index = page_from E vol index (bt_get (rt_pages (x_root vol)) index) (inherits vol index)"
    by (simp add: x_page_def Let_def inherits_def)
  then show ?thesis
    unfolding vpage_def by (simp only:) (rule post_mono [OF page_from_post [OF assms]], auto)
qed

lemma base_page_same:
  assumes "same s t" "valid_id (rt_volume (x_root vol))"
  shows "post (base_page E vol index) (\<lambda>p u. same s u \<and> p = bpage (objs s) B vol index) (\<lambda>_. same s) t"
  unfolding base_page_def bpage_def by (rule post_mono [OF page_from_post [OF assms]]) auto

text \<open>A block that is loaded is the block of the view.\<close>

lemma prefetch_same:
  "same s t \<Longrightarrow> post (x_prefetch E vol index page bp hash obj) (\<lambda>_. same s) (\<lambda>_. same s) t"
proof -
  assume s: "same s t"
  obtain own shared where ls: "prefetch_lists page bp hash obj
      [index + 1..<min (min (index + 8) ((index div SLOTS + 1) * SLOTS)) (x_size vol div CHUNK_BYTES)] ([], []) = (own, shared)"
    by force
  define t1 where "t1 = os_prefetch (ix_os E) (rt_volume (x_root vol)) own t"
  have s1: "same s t1" using prefetch_law [OF same_ok [OF s] t1_def [symmetric]] s by (simp add: same_def)
  have "same s (os_prefetch_base (ix_os E) img shared t1)" for img
    using prefetch_base_law [OF same_ok [OF s1] refl] s1 by (simp add: same_def)
  with s1 ls show ?thesis by (simp add: x_prefetch_def post_def t1_def Let_def split: option.split)
qed

lemma fetch_block_same:
  assumes "same s t" "valid_id (rt_volume (x_root vol))" "page_slot page index = Some hash" "object_slot page index = Some (obj, offset)"
    and inh: "inherited = slot_inherited (x_base vol \<noteq> None) page bp index"
    and c: "cached = None \<or> \<not> inherited \<and> cached = objs s (rt_volume (x_root vol)) obj"
  shows "post (io_bind
      (if inherited
       then io_bind (io_lift (ok_or Panic (rt_base (x_root vol)))) (\<lambda>b.
         os_base_chunk (ix_os E) (b_image b) hash (Some (index * CHUNK_BYTES)))
       else (case cached of Some bs \<Rightarrow> io_return bs | None \<Rightarrow> os_chunk (ix_os E) (rt_volume (x_root vol)) obj))
      (\<lambda>bs. io_lift (extract_block (c_digest (ix_codec E)) inherited hash obj offset bs)))
    (\<lambda>b u. same s u \<and> b = slot_block (objs s) B vol page bp index \<and> length b = CHUNK_BYTES \<and> c_digest (ix_codec E) b = hash) (\<lambda>_. same s) t"
    (is "post (io_bind ?fetch _) ?Q _ t")
proof -
  have "post ?fetch (\<lambda>bs u. same s u \<and> (if inherited then B (b_image (the (rt_base (x_root vol)))) hash = Some bs
      else objs s (rt_volume (x_root vol)) obj = Some bs)) (\<lambda>_. same s) t"
  proof (cases inherited)
    case True
    show ?thesis
    proof (cases "rt_base (x_root vol)")
      case None
      then show ?thesis using True assms(1) by (simp add: post_simps ok_or_def)
    next
      case (Some b)
      then show ?thesis
        using True assms(1) by (auto simp: post_simps ok_or_def same_def intro!: post_mono [OF base_law])
    qed
  next
    case False
    then show ?thesis
      using assms(1,2) c by (auto simp: post_simps same_def split: option.split intro!: post_mono [OF chunk_law])
  qed
  then show ?thesis
    unfolding post_bind
    by (rule post_mono)
       (use assms(3,4) inh in \<open>auto simp: post_simps slot_block_def object_block_def split: result.split dest!: extract_block_Ok\<close>)
qed

lemma x_fetch_post:
  assumes "same s u" "valid_id (rt_volume (x_root vol))" "page_slot page index = Some hash"
    and q: "q = (if x_base vol = None then None else Some bp)"
  shows "post (x_fetch E vol index prefetch page q hash)
    (\<lambda>b u. same s u \<and> b = slot_block (objs s) B vol page bp index \<and> length b = CHUNK_BYTES) (\<lambda>_. same s) u"
proof -
  obtain obj offset where o: "object_slot page index = Some (obj, offset)"
    using assms(3) object_slot_Some by blast
  define inherited where "inherited = slot_inherited (x_base vol \<noteq> None) page bp index"
  have inh: "(case q of None \<Rightarrow> False
      | Some p \<Rightarrow> page_slot p index = Some hash \<and> object_slot p index = object_slot page index) = inherited"
    using assms(3) q by (auto simp: slot_inherited_def inherited_def)
  define ch where "ch = (if inherited then None else os_cached_chunk (ix_os E) (rt_volume (x_root vol)) obj u)"
  have ch: "ch = None \<or> \<not> inherited \<and> ch = objs s (rt_volume (x_root vol)) obj"
    using cached_law [OF same_ok [OF assms(1)] assms(2), of obj] assms(1)
    by (cases ch) (auto simp: ch_def same_def split: if_splits)
  have pre: "post (if prefetch \<and> ch = None then x_prefetch E vol index page q hash obj else io_return ()) (\<lambda>_. same s) (\<lambda>_. same s) u"
    using prefetch_same [OF assms(1)] assms(1) by (auto simp: post_simps)
  have fetch: "post (io_bind
        (if inherited
         then io_bind (io_lift (ok_or Panic (rt_base (x_root vol)))) (\<lambda>b.
           os_base_chunk (ix_os E) (b_image b) hash (Some (index * CHUNK_BYTES)))
         else (case ch of Some bs \<Rightarrow> io_return bs | None \<Rightarrow> os_chunk (ix_os E) (rt_volume (x_root vol)) obj)) (\<lambda>bs.
      io_lift (extract_block (c_digest (ix_codec E)) inherited hash obj offset bs)))
    (\<lambda>b u. same s u \<and> b = slot_block (objs s) B vol page bp index \<and> length b = CHUNK_BYTES) (\<lambda>_. same s) w" if "same s w" for w
    by (rule post_mono [OF fetch_block_same [OF that assms(2,3) o inherited_def ch]]) auto
  show ?thesis
    unfolding x_fetch_def Let_def inh
    unfolding o ok_or_Some io_bind_return_Ok prod.case
    unfolding post_bind [of "\<lambda>s. (Ok (if inherited then None else os_cached_chunk (ix_os E) (rt_volume (x_root vol)) obj s), s)"]
    unfolding post_read ch_def [symmetric]
    unfolding post_bind [of "if prefetch \<and> ch = None then _ else _"]
    by (rule post_mono [OF pre]) (rule fetch, auto)
qed

lemma x_load_post:
  assumes "same s t" "x_inv vol"
  shows "post (x_load E vol index prefetch)
    (\<lambda>b u. same s u \<and> b = xblock (objs s) B vol index \<and> length b = CHUNK_BYTES) (\<lambda>_. same s) t"
proof (cases "bt_get (x_dirty vol) index")
  case (Some b)
  then show ?thesis
    using assms x_inv_dirty [OF assms(2) Some] by (simp add: x_load_def post_simps xblock_def)
next
  case None
  have v: "valid_id (rt_volume (x_root vol))" using assms(2) by (simp add: x_inv_def)
  define page where "page = vpage (objs s) B vol (index div SLOTS)"
  define bp where "bp = bpage (objs s) B vol (index div SLOTS)"
  have blk: "xblock (objs s) B vol index = slot_block (objs s) B vol page bp index"
    using None by (simp add: xblock_def committed_block_def page_def bp_def)
  have base: "post (if x_base vol = None then io_return None
      else io_bind (base_page E vol (index div SLOTS)) (\<lambda>p. io_return (Some p)))
      (\<lambda>q u. same s u \<and> q = (if x_base vol = None then None else Some bp)) (\<lambda>_. same s) u" if "same s u" for u
    using that base_page_same [OF that v, of "index div SLOTS"] by (auto simp: post_simps bp_def elim!: post_mono)
  have "post (case page_slot page index of None \<Rightarrow> io_return (zeros CHUNK_BYTES)
      | Some hash \<Rightarrow> io_bind (if x_base vol = None then io_return None
          else io_bind (base_page E vol (index div SLOTS)) (\<lambda>p. io_return (Some p))) (\<lambda>q. x_fetch E vol index prefetch page q hash))
    (\<lambda>b u. same s u \<and> b = xblock (objs s) B vol index \<and> length b = CHUNK_BYTES) (\<lambda>_. same s) u" if "same s u" for u
  proof (cases "page_slot page index")
    case None
    then show ?thesis using that by (simp add: post_simps blk slot_block_def)
  next
    case (Some hash)
    show ?thesis
      unfolding Some option.case post_bind blk
      by (rule post_mono [OF base [OF that]]) (auto intro!: x_fetch_post [OF _ v Some])
  qed
  note rest = this
  show ?thesis
    unfolding x_load_def None option.case post_bind [of "x_page E vol (index div SLOTS)"]
    by (rule post_mono [OF x_page_same [OF assms(1) v]]) (elim conjE, simp only: flip: page_def, rule rest)
qed

text \<open>The loaders of a handle provide the block device of the read and write loops.\<close>

lemma x_device:
  assumes "x_inv vol"
  shows "block_device (\<lambda>i. x_load E vol i True) (x_load_for E vol) (xblock (objs s) B vol) (same s) (\<lambda>_. same s)"
proof
  fix t i w n
  assume t: "same s t"
  show "post (x_load E vol i True) (\<lambda>b s'. same s s' \<and> b = xblock (objs s) B vol i \<and> length b = CHUNK_BYTES) (\<lambda>_. same s) t"
    by (rule x_load_post [OF t assms])
  show "post (x_load_for E vol i w n) (\<lambda>b s'. same s s' \<and> length b = CHUNK_BYTES
      \<and> (\<forall>j < CHUNK_BYTES. j < w \<or> w + n \<le> j \<longrightarrow> b ! j = xblock (objs s) B vol i ! j)) (\<lambda>_. same s) t"
  proof (cases "w = 0 \<and> n = CHUNK_BYTES")
    case True
    then show ?thesis using t by (auto simp: x_load_for_def post_simps)
  next
    case False
    then have "x_load_for E vol i w n = x_load E vol i False" by (auto simp: x_load_for_def)
    then show ?thesis by (simp only:) (rule post_mono [OF x_load_post [OF t assms]], auto)
  qed
qed

lemma x_read_post:
  assumes "ok s" "x_inv vol"
  shows "post (x_read E vol offset buf)
    (\<lambda>out s'. same s s' \<and> \<not> x_poisoned vol \<and> offset + length buf \<le> x_size vol
       \<and> out = slice_of (xdisk (objs s) B vol) offset (offset + length buf))
    (\<lambda>_. same s) s"
proof (cases "x_check vol offset (length buf)")
  case (Err e)
  then show ?thesis using assms by (simp add: x_read_def post_simps same_refl)
next
  case (Ok u)
  then have r: "\<not> x_poisoned vol" "offset + length buf \<le> x_size vol" using x_check_Ok by auto
  note loop = block_device.read_loop_extent [OF x_device [OF assms(2)] same_refl [OF assms(1)], of 0 "length buf" buf offset]
  show ?thesis
    using Ok r same_refl [OF assms(1)]
    by (auto simp: x_read_def post_simps xdisk_def slice_of_dextent intro!: post_mono [OF loop])
qed

subsection \<open>Uploads\<close>

definition grows :: "'s \<Rightarrow> 's \<Rightarrow> bool" where
  "grows s s' \<longleftrightarrow> ok s' \<and> heads s' = heads s \<and> objs_le (objs s) (objs s')"

lemma grows_refl: "ok s \<Longrightarrow> grows s s"
  by (simp add: grows_def)

lemma grows_trans: "grows s t \<Longrightarrow> grows t u \<Longrightarrow> grows s u"
  by (auto simp: grows_def intro: objs_le_trans)

lemma same_grows: "same s t \<Longrightarrow> grows s t"
  by (simp add: same_def grows_def)

lemma stored_grows: "objs s v d = Some b \<Longrightarrow> grows s t \<Longrightarrow> objs t v d = Some b"
  by (auto simp: grows_def dest: objs_leD)

lemma post_grows:
  assumes "post m (\<lambda>x. same t) (\<lambda>_. same t) t" "\<And>x u. same t u \<Longrightarrow> post (f x) (\<lambda>y v. grows u v \<and> Q y v) (\<lambda>_ v. grows u v) u"
  shows "post (io_bind m f) (\<lambda>y v. grows t v \<and> Q y v) (\<lambda>_ v. grows t v) t"
  unfolding post_bind
proof (rule post_mono [OF assms(1)])
  fix x u
  assume "same t u"
  then show "post (f x) (\<lambda>y v. grows t v \<and> Q y v) (\<lambda>_ v. grows t v) u"
    by (intro post_mono [OF assms(2)]) (auto dest: same_grows intro: grows_trans)
qed (rule same_grows)

lemma pool_post:
  assumes s: "ok s" and c: "0 < c"
    and j: "\<And>i t. ok t \<Longrightarrow> post (job i) (\<lambda>_ s'. grows t s' \<and> objs s' v (fst (objects ! i)) = Some (snd (objects ! i))) (\<lambda>_. grows t) t"
    and m: "m s = run_workers (ix_sched E s) (worker_jobs c (length objects) job) s"
  shows "post m (\<lambda>_ s'. grows s s' \<and> (\<forall>(d, b) \<in> set objects. objs s' v d = Some b)) (\<lambda>_. grows s) s"
proof -
  have pool: "post (run_workers (ix_sched E s) (worker_jobs c (length objects) job))
      (\<lambda>_ s'. ok s' \<and> grows s s' \<and> (\<forall>i < length objects. objs s' v (fst (objects ! i)) = Some (snd (objects ! i)))) (\<lambda>_ s'. ok s' \<and> grows s s') s"
  proof (rule upload_pool [where ok = ok and R = grows and A = "\<lambda>i s. objs s v (fst (objects ! i)) = Some (snd (objects ! i))", OF _ _ _ _ c s])
    show "post (job i) (\<lambda>_ s'. ok s' \<and> grows t s' \<and> objs s' v (fst (objects ! i)) = Some (snd (objects ! i))) (\<lambda>_ s'. ok s' \<and> grows t s') t"
      if "ok t" for i t
      by (rule post_mono [OF j [OF that]]) (auto simp: grows_def)
  qed (auto intro: grows_refl grows_trans dest: stored_grows)
  have "post m Q F s = post (run_workers (ix_sched E s) (worker_jobs c (length objects) job)) Q F s" for Q F
    using m by (simp add: post_def)
  then show ?thesis
    by (simp only:) (rule post_mono [OF pool], auto simp: in_set_conv_nth, metis fst_conv snd_conv)
qed

lemma upload_all_post:
  assumes "ok s" "valid_id (rt_volume (x_root vol))" "0 < concurrency"
  shows "post (upload_all E vol objects end_at concurrency)
    (\<lambda>_ s'. grows s s' \<and> (\<forall>(d, b) \<in> set objects. objs s' (rt_volume (x_root vol)) d = Some b)) (\<lambda>_. grows s) s"
proof (rule pool_post [where job = "\<lambda>i. io_bind (ix_deadline E end_at) (\<lambda>_.
      os_put_chunk (ix_os E) (rt_volume (x_root vol)) (fst (objects ! i)) (snd (objects ! i)))"
      and m = "upload_all E vol objects end_at concurrency" and objects = objects, OF assms(1,3) _ upload_all_def])
  fix i t
  assume t: "ok t"
  show "post (io_bind (ix_deadline E end_at) (\<lambda>_. os_put_chunk (ix_os E) (rt_volume (x_root vol)) (fst (objects ! i)) (snd (objects ! i))))
      (\<lambda>_ s'. grows t s' \<and> objs s' (rt_volume (x_root vol)) (fst (objects ! i)) = Some (snd (objects ! i))) (\<lambda>_. grows t) t"
    by (rule post_grows [OF deadline_same [OF same_refl [OF t]]])
       (auto simp: grows_def intro!: post_mono [OF put_mono [OF same_ok assms(2)]])
qed

lemma upload_objects_post:
  assumes "ok s" "valid_id (rt_volume (x_root vol))" "0 < concurrency" "harmless cancel"
  shows "post (upload_objects E vol objects end_at concurrency cancel)
    (\<lambda>_ s'. grows s s' \<and> (\<forall>(d, b) \<in> set objects. objs s' (rt_volume (x_root vol)) d = Some b)) (\<lambda>_. grows s) s"
proof (rule pool_post [where job = "\<lambda>i. io_bind (ix_deadline E end_at) (\<lambda>_. io_bind (check_cancel cancel) (\<lambda>_.
      os_put_chunk_cancellable (ix_os E) (rt_volume (x_root vol)) (fst (objects ! i)) (snd (objects ! i)) cancel))"
      and m = "upload_objects E vol objects end_at concurrency cancel" and objects = objects, OF assms(1,3) _ upload_objects_def])
  fix i t
  assume t: "ok t"
  have put: "post (os_put_chunk_cancellable (ix_os E) (rt_volume (x_root vol)) (fst (objects ! i)) (snd (objects ! i)) cancel)
      (\<lambda>_ s'. grows u s' \<and> objs s' (rt_volume (x_root vol)) (fst (objects ! i)) = Some (snd (objects ! i))) (\<lambda>_. grows u) u" if "ok u" for u
    by (rule post_mono [OF put_cancellable_law [OF that assms(2) harmlessD [OF assms(4)]]]) (auto simp: grows_def)
  show "post (io_bind (ix_deadline E end_at) (\<lambda>_. io_bind (check_cancel cancel) (\<lambda>_.
        os_put_chunk_cancellable (ix_os E) (rt_volume (x_root vol)) (fst (objects ! i)) (snd (objects ! i)) cancel)))
      (\<lambda>_ s'. grows t s' \<and> objs s' (rt_volume (x_root vol)) (fst (objects ! i)) = Some (snd (objects ! i))) (\<lambda>_. grows t) t"
    by (intro post_grows [OF deadline_same [OF same_refl [OF t]]] post_grows [OF check_cancel_same [OF assms(4) same_refl [OF same_ok]]] put)
       (auto intro: same_ok)
qed

subsection \<open>Publication\<close>

text \<open>The head of this volume was replaced, from the revision that the handle knows, by this root.\<close>

definition replaced :: "indexed \<Rightarrow> root \<Rightarrow> string \<Rightarrow> 's \<Rightarrow> 's \<Rightarrow> bool" where
  "replaced vol nxt rv s s' \<longleftrightarrow> (\<exists>m. c_to_vec (ix_codec E) nxt = Some m
     \<and> map_option h_revision (heads s (rt_volume nxt)) = Some (x_revision vol)
     \<and> heads s' = (heads s)(rt_volume nxt \<mapsto> \<lparr>h_revision = rv, h_manifest = m\<rparr>))"

text \<open>The revision of the new head differs from the old one unless the heads are the same.\<close>

definition renamed :: "indexed \<Rightarrow> root \<Rightarrow> string \<Rightarrow> 's \<Rightarrow> bool" where
  "renamed vol nxt rv s \<longleftrightarrow>
     (\<forall>h. heads s (rt_volume nxt) = Some h \<and> c_to_vec (ix_codec E) nxt \<noteq> Some (h_manifest h) \<longrightarrow> rv \<noteq> x_revision vol)"

text \<open>What a failed publication leaves behind.\<close>

definition publish_failed :: "indexed \<Rightarrow> root \<Rightarrow> 's \<Rightarrow> verror \<Rightarrow> indexed \<times> 's \<Rightarrow> bool" where
  "publish_failed vol nxt s e = (\<lambda>(vol', s'). ok s' \<and> objs s' = objs s
     \<and> (vol' = vol \<and> heads s' = heads s
        \<or> vol' = vol\<lparr>x_poisoned := True\<rparr>
          \<and> (e = Conflict \<and> heads s' = heads s \<or> e = Uncertain \<and> (heads s' = heads s \<or> (\<exists>rv. replaced vol nxt rv s s')))))"

definition publish_done :: "indexed \<Rightarrow> root \<Rightarrow> 's \<Rightarrow> nat \<Rightarrow> indexed \<times> 's \<Rightarrow> bool" where
  "publish_done vol nxt s g = (\<lambda>(vol', s'). ok s' \<and> objs s' = objs s \<and> g = rt_generation nxt
     \<and> (\<exists>rv. rv \<noteq> [] \<and> vol' = vol\<lparr>x_root := nxt, x_revision := rv, x_dirty := []\<rparr> \<and> replaced vol nxt rv s s' \<and> renamed vol nxt rv s))"

lemma replaced_same: "same s t \<Longrightarrow> replaced vol nxt rv t u \<Longrightarrow> replaced vol nxt rv s u"
  by (simp add: replaced_def same_def)

lemma publish_post:
  assumes "ok s" "valid_id (rt_volume nxt)" "harmless cancel"
  shows "post (publish_cancellable E nxt end_at cancel) (publish_done vol nxt s) (publish_failed vol nxt s) (vol, s)"
proof -
  have quiet: "publish_failed vol nxt s e (vol, t)" if "same s t" for e t
    using that by (simp add: publish_failed_def same_def)
  show ?thesis
  proof (cases "c_to_vec (ix_codec E) nxt")
    case None
    then show ?thesis using quiet [OF same_refl [OF assms(1)]] by (simp add: publish_cancellable_def post_simps)
  next
    case (Some m)
    define send :: "(indexed \<times> 's, nat, verror) io" where "send = (\<lambda>(vol, s). (case os_publish_cancellable (ix_os E) (rt_volume nxt) (Some (x_revision vol)) m cancel s of
       (Ok revision, t) \<Rightarrow>
         (if revision \<noteq> [] then (Ok (rt_generation nxt), vol\<lparr>x_root := nxt, x_revision := revision, x_dirty := []\<rparr>, t)
          else (Err (publication_error Uncertain), vol\<lparr>x_poisoned := True\<rparr>, t))
     | (Err e, t) \<Rightarrow>
         (if e = Deadline then (Err Deadline, vol, t)
          else (Err (publication_error e), vol\<lparr>x_poisoned := True\<rparr>, t))))"
    have sd: "post send (publish_done vol nxt s) (publish_failed vol nxt s) (vol, t)" if t: "same s t" for t
    proof -
      note law = publish_cancellable_law [where cancel = cancel and expected = "Some (x_revision vol)" and m = m, OF same_ok [OF t] assms(2) harmlessD [OF assms(3)]]
      obtain r u where run: "os_publish_cancellable (ix_os E) (rt_volume nxt) (Some (x_revision vol)) m cancel t = (r, u)" by force
      have hs: "heads t = heads s" "objs t = objs s" using t by (simp_all add: same_def)
      show ?thesis
      proof (cases r)
        case (Ok rv)
        have l: "ok u" "objs u = objs s" "map_option h_revision (heads s (rt_volume nxt)) = Some (x_revision vol)"
            "heads u = (heads s)(rt_volume nxt \<mapsto> \<lparr>h_revision = rv, h_manifest = m\<rparr>)"
            "\<forall>h. heads s (rt_volume nxt) = Some h \<and> h_manifest h \<noteq> m \<longrightarrow> rv \<noteq> h_revision h"
          using post_run [OF law run [unfolded Ok]] hs by auto
        then have "replaced vol nxt rv s u" "renamed vol nxt rv s" using Some by (auto simp: replaced_def renamed_def)
        with l run Ok show ?thesis
          by (auto simp: post_def send_def publish_done_def publish_failed_def)
      next
        case (Err e)
        have l: "ok u" "objs u = objs s" "heads u = heads s \<or> e \<noteq> Conflict \<and> e \<noteq> Deadline
            \<and> map_option h_revision (heads s (rt_volume nxt)) = Some (x_revision vol)
            \<and> (\<exists>rv. heads u = (heads s)(rt_volume nxt \<mapsto> \<lparr>h_revision = rv, h_manifest = m\<rparr>))"
          using post_run_err [OF law run [unfolded Err]] hs by auto
        then have "heads u = heads s \<or> e \<noteq> Conflict \<and> e \<noteq> Deadline \<and> (\<exists>rv. replaced vol nxt rv s u)"
          using Some by (auto simp: replaced_def)
        with l(1,2) run Err show ?thesis
          by (cases "e = Conflict") (auto simp: post_def send_def publish_failed_def)
      qed
    qed
    have "post (io_bind (lift_world (ix_deadline E end_at)) (\<lambda>_. io_bind (lift_world (check_cancel cancel)) (\<lambda>_. send)))
        (publish_done vol nxt s) (publish_failed vol nxt s) (vol, s)"
      unfolding post_bind post_lift_world
      by (intro post_mono [OF deadline_same [OF same_refl [OF assms(1)]]] post_mono [OF check_cancel_same [OF assms(3)]] sd quiet)
    then show ?thesis
      using Some quiet [OF same_refl [OF assms(1)]]
      by (simp add: publish_cancellable_def send_def post_lift post_if post_throw post_bind [of "io_lift _"])
  qed
qed

end

end
