(* ===== verification/Packed_Commit.thy ===== *)
theory Packed_Commit
  imports Packed_Plan Indexed_Disk
begin

text \<open>
  A commit of packed pages keeps the disk: the root that it publishes stands for the
  committed blocks with the dirty ones on top, every object that it refers to is stored,
  and every page that it writes passes the checks of the next read. Digests are assumed
  not to collide on the objects that occur.
\<close>

section \<open>A volume whose objects are all there\<close>

text \<open>The page table entry \<open>oh\<close> names a stored page that passes the checks of a read.\<close>

definition page_stored :: "(bytes \<Rightarrow> string) \<Rightarrow> objs_view \<Rightarrow> base_view \<Rightarrow> indexed \<Rightarrow> nat \<Rightarrow> string option \<Rightarrow> bool \<Rightarrow> bool" where
  "page_stored dg X B vol pi oh base \<longleftrightarrow>
     (case oh of
        None \<Rightarrow> True
      | Some h \<Rightarrow> \<exists>bs. (if base then rt_base (x_root vol) \<noteq> None \<and> B (b_image (the (rt_base (x_root vol)))) h = Some bs
                       else X (rt_volume (x_root vol)) h = Some bs)
          \<and> page_check dg (rt_size (x_root vol)) (packed vol \<and> \<not> base) pi h bs = Ok ())"

text \<open>The slot names a stored block, in an object of \<open>U\<close>: a load of it succeeds once the store answers.\<close>

definition slot_stored :: "(bytes \<Rightarrow> string) \<Rightarrow> bytes set \<Rightarrow> objs_view \<Rightarrow> base_view \<Rightarrow> indexed \<Rightarrow> bytes \<Rightarrow> bytes \<Rightarrow> nat \<Rightarrow> bool" where
  "slot_stored dg U X B vol page bp i \<longleftrightarrow>
     (case (page_slot page i, object_slot page i) of
        (Some h, Some (obj, offset)) \<Rightarrow>
          \<exists>bs \<in> U. \<exists>b. (if slot_inherited (x_base vol \<noteq> None) page bp i then B (b_image (the (rt_base (x_root vol)))) h = Some bs
                  else X (rt_volume (x_root vol)) obj = Some bs)
            \<and> extract_block dg (slot_inherited (x_base vol \<noteq> None) page bp i) h obj offset bs = Ok b
      | _ \<Rightarrow> True)"

text \<open>The base image is complete: its pages and the blocks they name are there.\<close>

definition base_complete :: "(bytes \<Rightarrow> string) \<Rightarrow> objs_view \<Rightarrow> base_view \<Rightarrow> indexed \<Rightarrow> bool" where
  "base_complete dg X B vol \<longleftrightarrow> (\<forall>pi. page_stored dg X B vol pi (catalog_page vol pi) True)
     \<and> (\<forall>i h. page_slot (bpage X B vol (i div SLOTS)) i = Some h \<longrightarrow>
          (\<exists>b. B (b_image (the (rt_base (x_root vol)))) h = Some b \<and> length b = CHUNK_BYTES \<and> dg b = h))"

definition x_complete :: "(bytes \<Rightarrow> string) \<Rightarrow> objs_view \<Rightarrow> base_view \<Rightarrow> indexed \<Rightarrow> bool" where
  "x_complete dg X B vol \<longleftrightarrow> base_complete dg X B vol
     \<and> (\<forall>pi. page_stored dg X B vol pi (bt_get (rt_pages (x_root vol)) pi) (inherits vol pi))
     \<and> (\<forall>i. slot_stored dg UNIV X B vol (vpage X B vol (i div SLOTS)) (bpage X B vol (i div SLOTS)) i)"

text \<open>No two of these byte strings have the same digest, and none has the digest of an empty slot.\<close>

definition digest_sound :: "(bytes \<Rightarrow> string) \<Rightarrow> bytes set \<Rightarrow> bool" where
  "digest_sound dg U \<longleftrightarrow> inj_on dg U \<and> (\<forall>b \<in> U. slot_digest (dg b))"

lemma digest_soundD: "digest_sound dg U \<Longrightarrow> a \<in> U \<Longrightarrow> b \<in> U \<Longrightarrow> dg a = dg b \<Longrightarrow> a = b"
  by (auto simp: digest_sound_def dest: inj_onD)

section \<open>Pages of the view\<close>

lemma header_split: "take 16 (bs :: bytes) = slice_of bs 0 8 @ slice_of bs 8 16"
  using take_add [of 8 8 bs] by (simp add: slice_of_def)

lemma be_header: "be_nat (slice_of bs 8 16) = pi \<Longrightarrow> 16 \<le> length bs \<Longrightarrow> slice_of bs 8 16 = be_bytes 8 pi"
  using be_bytes_nat [of "slice_of bs 8 16"] by simp

lemma page_check_frame:
  assumes "page_check dg sz True pi h bs = Ok ()"
  shows "page_frame pi bs" "dg bs = h" "pi * SLOTS \<le> sz div CHUNK_BYTES" "check_slots bs [0..<SLOTS] [] = Ok ()"
    "all_zero (slice_of bs (16 + min (sz div CHUNK_BYTES - pi * SLOTS) SLOTS * 72) (16 + SLOTS * 72))"
proof -
  have c: "length bs = PACK_PAGE_BYTES" "dg bs = h" "slice_of bs 0 8 = PACK_MAGIC" "be_nat (slice_of bs 8 16) = pi"
      "all_zero (drop (16 + SLOTS * 72) bs)" "pi * SLOTS \<le> sz div CHUNK_BYTES" "check_slots bs [0..<SLOTS] [] = Ok ()"
      "all_zero (slice_of bs (16 + min (sz div CHUNK_BYTES - pi * SLOTS) SLOTS * 72) (16 + SLOTS * 72))"
    using assms by (auto simp: page_check_def Let_def PACK_SLOT_BYTES_def split: if_splits)
  have "16 \<le> length bs" using c(1) by (simp add: PACK_PAGE_BYTES_def)
  then have "take 16 bs = PACK_MAGIC @ be_bytes 8 pi" unfolding header_split by (simp only: c(3) be_header [OF c(4)])
  then show "page_frame pi bs" using c(1,5) by (simp add: page_frame_def all_zero_iff)
  show "dg bs = h" "pi * SLOTS \<le> sz div CHUNK_BYTES" "check_slots bs [0..<SLOTS] [] = Ok ()"
    "all_zero (slice_of bs (16 + min (sz div CHUNK_BYTES - pi * SLOTS) SLOTS * 72) (16 + SLOTS * 72))"
    using c by simp_all
qed

lemma page_check_direct:
  assumes "page_check dg sz False pi h bs = Ok ()"
  shows "direct_form bs" "slice_of bs 8 16 = be_bytes 8 pi" "dg bs = h" "pi * SLOTS \<le> sz div CHUNK_BYTES"
    "all_zero (slice_of bs (16 + min (sz div CHUNK_BYTES - pi * SLOTS) SLOTS * 32) (16 + SLOTS * 32))"
proof -
  have c: "length bs = CHUNK_BYTES" "dg bs = h" "slice_of bs 0 8 = PAGE_MAGIC" "be_nat (slice_of bs 8 16) = pi"
      "pi * SLOTS \<le> sz div CHUNK_BYTES"
      "all_zero (slice_of bs (16 + min (sz div CHUNK_BYTES - pi * SLOTS) SLOTS * 32) (16 + SLOTS * 32))"
    using assms by (auto simp: page_check_def Let_def split: if_splits)
  have "16 \<le> length bs" using c(1) by (simp add: CHUNK_BYTES_def)
  then show "slice_of bs 8 16 = be_bytes 8 pi" by (rule be_header [OF c(4)])
  show "direct_form bs" "dg bs = h" "pi * SLOTS \<le> sz div CHUNK_BYTES"
    "all_zero (slice_of bs (16 + min (sz div CHUNK_BYTES - pi * SLOTS) SLOTS * 32) (16 + SLOTS * 32))"
    using c by (simp_all add: direct_form_def)
qed

text \<open>A converted page of the base image.\<close>

lemma direct_frame:
  assumes "direct_form bs" "slice_of bs 8 16 = be_bytes 8 pi"
  shows "page_frame pi (packed_page bs)" "cell (packed_page bs) i = direct_cell bs (i mod SLOTS) @ zeros 40"
  using packed_page_form [OF assms(1)] assms(2) by (simp_all add: page_frame_def packed_form_def cell_def)

lemma blank_direct: "direct_form (blank_page False pi)" "slice_of (blank_page False pi) 8 16 = be_bytes 8 pi"
  "j < SLOTS \<Longrightarrow> direct_cell (blank_page False pi) j = zeros 32"
proof -
  have eq: "blank_page False pi = PAGE_MAGIC @ be_bytes 8 pi @ zeros (CHUNK_BYTES - 16)"
    by (simp add: blank_page_def copy_at_def PAGE_MAGIC_def zeros_def CHUNK_BYTES_def)
  show "direct_form (blank_page False pi)" "slice_of (blank_page False pi) 8 16 = be_bytes 8 pi"
    by (simp_all add: eq direct_form_def slice_of_def PAGE_MAGIC_def CHUNK_BYTES_def)
  show "direct_cell (blank_page False pi) j = zeros 32" if "j < SLOTS"
  proof -
    have "direct_cell (blank_page False pi) j = slice_of (zeros (CHUNK_BYTES - 16)) (j * 32) (j * 32 + 32)"
      using drop_drop [of "j * 32" 16 "blank_page False pi"] by (simp add: direct_cell_def eq slice_of_def PAGE_MAGIC_def add.commute)
    then show ?thesis using direct_bounds [OF that] by simp
  qed
qed

lemma blank_packed: "page_frame pi (blank_page True pi)" "cell (blank_page True pi) i = zeros 72"
proof -
  have eq: "blank_page True pi = PACK_MAGIC @ be_bytes 8 pi @ zeros (PACK_PAGE_BYTES - 16)"
    by (simp add: blank_page_def copy_at_def PACK_MAGIC_def zeros_def PACK_PAGE_BYTES_def)
  show f: "page_frame pi (blank_page True pi)"
    by (simp add: eq page_frame_def PACK_MAGIC_def PACK_PAGE_BYTES_def SLOTS_def zeros_def)
  show "cell (blank_page True pi) i = zeros 72"
    by (rule frame_zero [OF f]) (simp add: eq PACK_MAGIC_def)
qed

subsection \<open>The slot scan on cells\<close>

lemma zeros_append: "zeros a @ zeros b = zeros (a + b)"
  by (simp add: zeros_def replicate_add)

lemma drop_zeros: "drop k (zeros n) = zeros (n - k)"
  by (simp add: zeros_def)

definition cell_key :: "bytes \<Rightarrow> bytes \<times> nat" where
  "cell_key c = (slice_of c 32 64, be_nat (slice_of c 64 68))"

definition cell_wf :: "bytes \<Rightarrow> bool" where
  "cell_wf c \<longleftrightarrow> all_zero (slice_of c 68 72) \<and> (all_zero (take 32 c) \<longrightarrow> all_zero (slice_of c 32 68))
     \<and> (if all_zero (slice_of c 32 64) then be_nat (slice_of c 64 68) = 0
        else be_nat (slice_of c 64 68) mod CHUNK_BYTES = 0 \<and> be_nat (slice_of c 64 68) < MAX_OBJECT_BYTES)"

text \<open>A cell that points into a pack.\<close>

definition cell_in_pack :: "bytes \<Rightarrow> bool" where
  "cell_in_pack c \<longleftrightarrow> \<not> all_zero (take 32 c) \<and> \<not> all_zero (slice_of c 32 64)"

lemma frame_slices:
  assumes "page_frame pi p" "b \<le> 72"
  shows "slice_of p (slot_at p i + a) (slot_at p i + b) = slice_of (cell p i) a b"
  using slice_of_pslot [OF frame_length [OF assms(1)] SLOTS_pos(2) assms(2), of i a] by (simp add: cell_def frame_slot_at [OF assms(1)])

lemma check_slots_step:
  assumes "page_frame pi p"
  shows "check_slots p (i # is) L =
    (if \<not> cell_wf (cell p i) then Err Corrupt
     else if cell_in_pack (cell p i)
       then (if bt_get L (cell_key (cell p i)) \<noteq> None \<and> bt_get L (cell_key (cell p i)) \<noteq> Some (take 32 (cell p i)) then Err Corrupt
             else check_slots p is (bt_insert (cell_key (cell p i)) (take 32 (cell p i)) L))
     else check_slots p is L)"
proof -
  let ?at = "slot_at p i" and ?c = "cell p i"
  have s: "slice_of p ?at (?at + 32) = take 32 ?c" "slice_of p (?at + 32) (?at + 64) = slice_of ?c 32 64"
      "slice_of p (?at + 64) (?at + 68) = slice_of ?c 64 68" "slice_of p (?at + 68) (?at + 72) = slice_of ?c 68 72"
      "slice_of p (?at + 32) (?at + 68) = slice_of ?c 32 68"
    using frame_slices [OF assms, of 32 i 0] by (simp_all add: frame_slices [OF assms]) (simp add: slice_of_def)
  show ?thesis
    unfolding check_slots.simps Let_def s
    by (auto simp: cell_wf_def cell_in_pack_def cell_key_def not_le split: option.split)
qed

lemma check_slots_wf: "page_frame pi p \<Longrightarrow> check_slots p is L = Ok () \<Longrightarrow> i \<in> set is \<Longrightarrow> cell_wf (cell p i)"
  by (induction "is" arbitrary: L) (auto simp: check_slots_step simp del: check_slots.simps(2) split: if_splits)

lemma check_slots_ok:
  assumes "page_frame pi p" "\<forall>i \<in> set is. cell_wf (cell p i) \<and> (cell_in_pack (cell p i) \<longrightarrow> take 32 (cell p i) = F (cell_key (cell p i)))"
    "bt_ok L" "\<forall>k v. bt_get L k = Some v \<longrightarrow> v = F k"
  shows "check_slots p is L = Ok ()"
  using assms(2-4)
proof (induction "is" arbitrary: L)
  case Nil
  then show ?case by simp
next
  case (Cons i "is")
  show ?case
  proof (cases "cell_in_pack (cell p i)")
    case True
    have h: "take 32 (cell p i) = F (cell_key (cell p i))" using Cons.prems(1) True by simp
    have "check_slots p is (bt_insert (cell_key (cell p i)) (take 32 (cell p i)) L) = Ok ()"
      using Cons.prems h by (intro Cons.IH) auto
    moreover have "bt_get L (cell_key (cell p i)) = None \<or> bt_get L (cell_key (cell p i)) = Some (take 32 (cell p i))"
      using Cons.prems(3) [rule_format, of "cell_key (cell p i)"] h by (cases "bt_get L (cell_key (cell p i))") simp_all
    ultimately show ?thesis
      using Cons.prems(1) True by (auto simp: check_slots_step [OF assms(1)] simp del: check_slots.simps(2))
  next
    case False
    then show ?thesis
      using Cons by (simp add: check_slots_step [OF assms(1)] del: check_slots.simps(2))
  qed
qed

lemma cell_wf_kinds:
  "cell_wf (zeros 72)" "length c = 32 \<Longrightarrow> cell_wf (c @ zeros 40)"
  "slot_digest h \<Longrightarrow> slot_digest pack \<Longrightarrow> offset mod CHUNK_BYTES = 0 \<Longrightarrow> offset < MAX_OBJECT_BYTES \<Longrightarrow> cell_wf (packed_value h pack offset)"
proof -
  have z: "be_nat (zeros 4) = 0" by (simp add: be_nat_def zeros_def eval_nat_numeral)
  show "cell_wf (zeros 72)" by (simp add: cell_wf_def z take_zeros)
  show "cell_wf (c @ zeros 40)" if "length c = 32"
    using that z by (simp add: cell_wf_def slice_of_def take_zeros drop_zeros)
  show "cell_wf (packed_value h pack offset)"
    if "slot_digest h" "slot_digest pack" "offset mod CHUNK_BYTES = 0" "offset < MAX_OBJECT_BYTES"
  proof -
    have "offset < 256 ^ 4" using that(4) by (simp add: MAX_OBJECT_BYTES_def)
    then show ?thesis
      using that slot_digestD [OF that(1)] slot_digestD [OF that(2)]
      by (simp add: cell_wf_def packed_value_def slice_of_def slot_digest_def be_nat_bytes_id)
  qed
qed

subsection \<open>Pages of a complete volume\<close>

text \<open>A well-formed page: its frame, its cells, and nothing beyond the end of the disk.\<close>

definition page_wf :: "nat \<Rightarrow> nat \<Rightarrow> bytes \<Rightarrow> bool" where
  "page_wf sz pi p \<longleftrightarrow> page_frame pi p
     \<and> (\<forall>i. i div SLOTS = pi \<longrightarrow> cell_wf (cell p i) \<and> (sz div CHUNK_BYTES \<le> i \<longrightarrow> cell p i = zeros 72))"

lemma page_wfD: "page_wf sz pi p \<Longrightarrow> page_frame pi p"
  by (simp add: page_wf_def)

lemma beyond:
  assumes "sz div CHUNK_BYTES \<le> i" "i div SLOTS = pi"
  shows "min (sz div CHUNK_BYTES - pi * SLOTS) SLOTS \<le> i mod SLOTS"
  using assms div_mult_mod_eq [of i SLOTS] by auto

lemma slice_zero_part:
  assumes "all_zero (slice_of bs a b)" "a \<le> c" "d \<le> b" "b \<le> length bs"
  shows "all_zero (slice_of bs c d)"
proof -
  have "slice_of bs c d = slice_of (slice_of bs a b) (c - a) (d - a)"
    using assms(2-4) by (intro nth_equalityI) auto
  then show ?thesis
    using assms by (cases "d - a \<le> b - a") (auto simp: all_zero_iff)
qed

lemma own_page_wf:
  assumes "page_check dg sz True pi h bs = Ok ()"
  shows "page_wf sz pi bs"
  unfolding page_wf_def
proof (intro conjI allI impI)
  note c = page_check_frame [OF assms]
  show f: "page_frame pi bs" by (rule c(1))
  fix i
  assume i: "i div SLOTS = pi"
  have "cell bs i = cell bs (i mod SLOTS)" by (simp add: cell_def)
  then show "cell_wf (cell bs i)" using check_slots_wf [OF f c(4), of "i mod SLOTS"] by simp
  assume "sz div CHUNK_BYTES \<le> i"
  then have m: "16 + min (sz div CHUNK_BYTES - pi * SLOTS) SLOTS * 72 \<le> 16 + i mod SLOTS * 72" using beyond [OF _ i] by simp
  have "16 + i mod SLOTS * 72 + 72 \<le> 16 + SLOTS * 72" using SLOTS_pos(2) [of i] by (simp add: SLOTS_def)
  then have "all_zero (pslot bs (i mod SLOTS))"
    unfolding pslot_def
    by (rule slice_zero_part [OF c(5) m]) (use page_bounds(2) frame_length [OF f] in simp)
  then show "cell bs i = zeros 72"
    using length_cell [OF f, of i] by (simp add: cell_def all_zero_iff)
qed

lemma converted_page_wf:
  assumes "direct_form bs" "slice_of bs 8 16 = be_bytes 8 pi"
    "\<And>j. j < SLOTS \<Longrightarrow> sz div CHUNK_BYTES \<le> pi * SLOTS + j \<Longrightarrow> direct_cell bs j = zeros 32"
  shows "page_wf sz pi (packed_page bs)" "\<exists>c. length c = 32 \<and> cell (packed_page bs) i = c @ zeros 40"
proof -
  have len: "length (direct_cell bs (i mod SLOTS)) = 32" for i
    using assms(1) by (simp add: direct_form_def length_direct_cell)
  have "cell (packed_page bs) i = zeros 72" if "i div SLOTS = pi" "sz div CHUNK_BYTES \<le> i" for i
  proof -
    have "direct_cell bs (i mod SLOTS) = zeros 32"
      using assms(3) [of "i mod SLOTS"] that div_mult_mod_eq [of i SLOTS] by simp
    then show ?thesis by (simp add: direct_frame [OF assms(1,2)] zeros_append)
  qed
  then show "page_wf sz pi (packed_page bs)"
    using direct_frame [OF assms(1,2)] cell_wf_kinds(2) len by (simp add: page_wf_def)
  show "\<exists>c. length c = 32 \<and> cell (packed_page bs) i = c @ zeros 40"
    using direct_frame(2) [OF assms(1,2)] len by auto
qed

lemma checked_direct_zero:
  assumes "page_check dg sz False pi h bs = Ok ()" "j < SLOTS" "sz div CHUNK_BYTES \<le> pi * SLOTS + j"
  shows "direct_cell bs j = zeros 32"
proof -
  note c = page_check_direct [OF assms(1)]
  have l: "length bs = CHUNK_BYTES" using c(1) by (simp add: direct_form_def)
  have "16 + min (sz div CHUNK_BYTES - pi * SLOTS) SLOTS * 32 \<le> 16 + j * 32" using assms(3) by auto
  moreover have "16 + j * 32 + 32 \<le> 16 + SLOTS * 32" "16 + SLOTS * 32 \<le> length bs"
    using assms(2) l by (simp_all add: SLOTS_def CHUNK_BYTES_def)
  ultimately have "all_zero (direct_cell bs j)"
    unfolding direct_cell_def by (rule slice_zero_part [OF c(5)])
  then show ?thesis using length_direct_cell [OF l assms(2)] by (simp add: all_zero_iff)
qed

lemma base_view_wf:
  assumes "page_stored dg X B vol pi oh True" "packed vol"
  shows "page_wf (x_size vol) pi (page_view X B vol pi oh True)"
    "\<exists>c. length c = 32 \<and> cell (page_view X B vol pi oh True) i = c @ zeros 40"
proof -
  have v: "page_view X B vol pi oh True = packed_page (raw_page X B vol pi oh True)"
    using assms(2) by (simp add: page_view_def)
  have "direct_form (raw_page X B vol pi oh True) \<and> slice_of (raw_page X B vol pi oh True) 8 16 = be_bytes 8 pi
      \<and> (\<forall>j < SLOTS. x_size vol div CHUNK_BYTES \<le> pi * SLOTS + j \<longrightarrow> direct_cell (raw_page X B vol pi oh True) j = zeros 32)"
  proof (cases oh)
    case None
    then show ?thesis using blank_direct by (simp add: raw_page_def)
  next
    case (Some h)
    then obtain bs where "B (b_image (the (rt_base (x_root vol)))) h = Some bs" and c: "page_check dg (x_size vol) False pi h bs = Ok ()"
      using assms(1) by (auto simp: page_stored_def x_size_def)
    then have "raw_page X B vol pi oh True = bs" using Some by (simp add: raw_page_def)
    then show ?thesis using page_check_direct [OF c] checked_direct_zero [OF c] by simp
  qed
  then show "page_wf (x_size vol) pi (page_view X B vol pi oh True)"
    "\<exists>c. length c = 32 \<and> cell (page_view X B vol pi oh True) i = c @ zeros 40"
    unfolding v using converted_page_wf [of "raw_page X B vol pi oh True" pi "x_size vol"] by blast+
qed

lemma blank_wf: "page_wf sz pi (blank_page True pi)"
  using blank_packed cell_wf_kinds(1) by (simp add: page_wf_def)

lemma own_view_wf:
  assumes "page_stored dg X B vol pi oh False" "packed vol"
  shows "page_wf (x_size vol) pi (page_view X B vol pi oh False)"
proof (cases oh)
  case None
  then show ?thesis using assms(2) blank_wf by (simp add: page_view_def raw_page_def)
next
  case (Some h)
  then obtain bs where "X (rt_volume (x_root vol)) h = Some bs" "page_check dg (x_size vol) True pi h bs = Ok ()"
    using assms by (auto simp: page_stored_def x_size_def)
  then show ?thesis using Some own_page_wf by (simp add: page_view_def raw_page_def)
qed

lemma complete_wf:
  assumes "x_complete dg X B vol" "packed vol"
  shows "page_wf (x_size vol) pi (vpage X B vol pi)" "page_wf (x_size vol) pi (bpage X B vol pi)"
    "\<exists>c. length c = 32 \<and> cell (bpage X B vol pi) i = c @ zeros 40"
proof -
  have s: "page_stored dg X B vol pi (bt_get (rt_pages (x_root vol)) pi) (inherits vol pi)" "page_stored dg X B vol pi (catalog_page vol pi) True"
    using assms(1) by (simp_all add: x_complete_def base_complete_def)
  show "page_wf (x_size vol) pi (vpage X B vol pi)"
    using s(1) base_view_wf(1) own_view_wf assms(2) by (cases "inherits vol pi") (auto simp: vpage_def)
  show "page_wf (x_size vol) pi (bpage X B vol pi)" "\<exists>c. length c = 32 \<and> cell (bpage X B vol pi) i = c @ zeros 40"
    using base_view_wf [OF s(2) assms(2)] by (auto simp: bpage_def)
qed

section \<open>Blocks of the view\<close>

lemma slot_stored_block:
  assumes "slot_stored dg U X B vol page bp i" "page_slot page i = Some h"
  shows "dg (slot_block X B vol page bp i) = h" "length (slot_block X B vol page bp i) = CHUNK_BYTES"
proof -
  obtain obj offset where o: "object_slot page i = Some (obj, offset)" using object_slot_Some [OF assms(2)] by blast
  then obtain bs b where b: "if slot_inherited (x_base vol \<noteq> None) page bp i then B (b_image (the (rt_base (x_root vol)))) h = Some bs
        else X (rt_volume (x_root vol)) obj = Some bs"
      "extract_block dg (slot_inherited (x_base vol \<noteq> None) page bp i) h obj offset bs = Ok b"
    using assms unfolding slot_stored_def by auto
  have e: "length b = CHUNK_BYTES" "dg b = h" using extract_block_Ok [OF b(2)] by blast+
  have "slot_block X B vol page bp i = b"
    using b(1) extract_block_Ok [OF b(2)] assms(2) o by (auto simp: slot_block_def object_block_def split: if_splits)
  then show "dg (slot_block X B vol page bp i) = h" "length (slot_block X B vol page bp i) = CHUNK_BYTES"
    using e by simp_all
qed

text \<open>A later state of the same volume.\<close>

definition successor :: "indexed \<Rightarrow> indexed \<Rightarrow> bool" where
  "successor vol vol' \<longleftrightarrow> x_base vol' = x_base vol \<and> rt_base (x_root vol') = rt_base (x_root vol)
     \<and> rt_volume (x_root vol') = rt_volume (x_root vol) \<and> rt_size (x_root vol') = rt_size (x_root vol) \<and> packed vol' = packed vol"

lemma successor_catalog: "successor vol vol' \<Longrightarrow> catalog_page vol' = catalog_page vol"
  by (simp add: successor_def catalog_page_def fun_eq_iff)

lemma base_view_successor: "successor vol vol' \<Longrightarrow> page_view X' B vol' pi oh True = page_view X B vol pi oh True"
  by (simp add: successor_def page_view_def raw_page_def split: option.split)

lemma bpage_successor: "successor vol vol' \<Longrightarrow> bpage X' B vol' pi = bpage X B vol pi"
  by (simp add: bpage_def successor_catalog base_view_successor)

lemma base_stored_successor: "successor vol vol' \<Longrightarrow> page_stored dg X' B vol' pi oh True = page_stored dg X B vol pi oh True"
  by (cases oh) (auto simp: page_stored_def successor_def)

lemma base_complete_successor: "successor vol vol' \<Longrightarrow> base_complete dg X' B vol' = base_complete dg X B vol"
proof -
  assume v: "successor vol vol'"
  have img: "rt_base (x_root vol') = rt_base (x_root vol)" using v by (simp add: successor_def)
  show ?thesis
    unfolding base_complete_def bpage_successor [OF v, where X' = X' and X = X] base_stored_successor [OF v, where X' = X' and X = X]
      successor_catalog [OF v] img ..
qed

lemma slot_stored_mono:
  assumes "slot_stored dg U X B vol p bp i" "successor vol vol'" "objs_le X X'"
  shows "slot_stored dg U X' B vol' p bp i" "slot_block X' B vol' p bp i = slot_block X B vol p bp i"
  using assms objs_leD [OF assms(3)] object_slot_Some [of p i]
  by (auto simp: slot_stored_def slot_block_def object_block_def successor_def split: option.splits if_splits; blast)+

lemma slot_cell_cong:
  assumes "page_frame pi p" "page_frame pi q" "cell p i = cell q i"
  shows "slot_stored dg U X B vol p bp i = slot_stored dg U X B vol q bp i" "slot_block X B vol p bp i = slot_block X B vol q bp i"
    "page_slot p i = page_slot q i" "object_slot p i = object_slot q i"
proof -
  show s: "page_slot p i = page_slot q i" "object_slot p i = object_slot q i"
    using assms by (simp_all add: frame_page_slot frame_object_slot)
  have e: "slot_inherited based p bp i = slot_inherited based q bp i" "object_block X v p i = object_block X v q i" for based v
    by (simp_all add: slot_inherited_def object_block_def s)
  show "slot_stored dg U X B vol p bp i = slot_stored dg U X B vol q bp i" "slot_block X B vol p bp i = slot_block X B vol q bp i"
    unfolding slot_stored_def slot_block_def s e by (rule refl)+
qed

section \<open>The blocks of the new pages\<close>

text \<open>The byte strings that occur in a commit.\<close>

definition known_objects :: "objs_view \<Rightarrow> base_view \<Rightarrow> indexed \<Rightarrow> bytes set" where
  "known_objects X B vol = {b. \<exists>d. X (rt_volume (x_root vol)) d = Some b}
     \<union> {b. \<exists>h. B (b_image (the (rt_base (x_root vol)))) h = Some b}
     \<union> range (committed_block X B vol) \<union> snd ` set (x_dirty vol)"

lemma slot_stored_known:
  assumes "slot_stored dg UNIV X B vol p bp i" "known_objects X B vol \<subseteq> U"
  shows "slot_stored dg U X B vol p bp i"
proof -
  have kn: "bs \<in> U" if "if inh then B (b_image (the (rt_base (x_root vol)))) h = Some bs else X (rt_volume (x_root vol)) d = Some bs" for bs d h inh
    using that assms(2) unfolding known_objects_def by (cases inh) auto
  show ?thesis
  proof (cases "page_slot p i")
    case (Some h)
    then obtain obj offset where "object_slot p i = Some (obj, offset)" using object_slot_Some by blast
    then show ?thesis using assms(1) kn Some unfolding slot_stored_def by auto
  qed (simp add: slot_stored_def)
qed

lemma slot_stored_UNIV: "slot_stored dg U X B vol p bp i \<Longrightarrow> slot_stored dg UNIV X B vol p bp i"
  unfolding slot_stored_def by (auto split: option.splits)

lemma converted_object: "length c = 32 \<Longrightarrow> cell_object (c @ zeros 40) = map_option (\<lambda>h. (h, 0)) (cell_hash (c @ zeros 40))"
  by (simp add: cell_object_def slice_of_def take_zeros split: option.split)

lemma unbased_slot:
  assumes "x_base vol = None" "packed vol"
  shows "page_slot (bpage X B vol pi) i = None"
proof -
  have "bpage X B vol pi = packed_page (blank_page False pi)"
    using assms by (simp add: bpage_def page_view_def raw_page_def catalog_page_def)
  moreover have "direct_cell (blank_page False pi) (i mod SLOTS) @ zeros 40 = zeros 72"
    by (simp add: blank_direct(3) zeros_append)
  ultimately show ?thesis
    using direct_frame [OF blank_direct(1,2), of pi] by (simp add: frame_page_slot)
qed

lemma extract_in_pack:
  assumes "in_pack pack offset b" "length b = CHUNK_BYTES" "dg pack = dg b \<Longrightarrow> pack = b"
  shows "extract_block dg False (dg b) (dg pack) offset pack = Ok b"
    "(if dg pack = dg b then pack else slice_of pack offset (offset + CHUNK_BYTES)) = b"
proof -
  have "offset + CHUNK_BYTES < U64"
    using assms(1) by (simp add: in_pack_def MAX_OBJECT_BYTES_def U64_def)
  then show "extract_block dg False (dg b) (dg pack) offset pack = Ok b"
  proof (cases "dg pack = dg b")
    case True
    then show ?thesis using assms(2) assms(3) [OF True] by (simp add: extract_block_def res_bind_def)
  next
    case False
    then show ?thesis
      using assms(1,2) \<open>offset + CHUNK_BYTES < U64\<close> by (simp add: extract_block_def in_pack_def res_bind_def checked_add_def not_less)
  qed
  show "(if dg pack = dg b then pack else slice_of pack offset (offset + CHUNK_BYTES)) = b"
    using assms by (simp add: in_pack_def)
qed

lemma complete_slot:
  assumes "x_complete dg X B vol"
  shows "slot_stored dg UNIV X B vol (vpage X B vol (i div SLOTS)) (bpage X B vol (i div SLOTS)) i"
    "page_slot (vpage X B vol (i div SLOTS)) i = Some h \<Longrightarrow> dg (committed_block X B vol i) = h"
proof -
  show s: "slot_stored dg UNIV X B vol (vpage X B vol (i div SLOTS)) (bpage X B vol (i div SLOTS)) i"
    using assms by (simp add: x_complete_def)
  show "dg (committed_block X B vol i) = h" if "page_slot (vpage X B vol (i div SLOTS)) i = Some h"
    using slot_stored_block(1) [OF s that] by (simp add: committed_block_def)
qed

lemma zero_block: "all_zero b \<Longrightarrow> length b = CHUNK_BYTES \<Longrightarrow> b = zeros CHUNK_BYTES"
  by (metis all_zero_iff)

lemma planned_slot:
  assumes full: "x_complete dg X B vol" and pk: "packed vol" and inv: "x_inv vol"
    and U: "digest_sound dg U" "known_objects X B vol \<subseteq> U" "snd ` set packs \<subseteq> U"
    and nxt: "successor vol vol'" "objs_le X X'" "\<forall>(d, b) \<in> set packs. X' (rt_volume (x_root vol)) d = Some b"
    and c: "planned_cell dg force (vpage X B vol) (bpage X B vol) (x_dirty vol) packs i (cell p i)" and f: "page_frame (i div SLOTS) p"
  shows "slot_stored dg U X' B vol' p (bpage X B vol (i div SLOTS)) i
    \<and> slot_block X' B vol' p (bpage X B vol (i div SLOTS)) i = xblock X B vol i"
proof -
  let ?V = "vpage X B vol (i div SLOTS)" and ?W = "bpage X B vol (i div SLOTS)"
  have fV: "page_frame (i div SLOTS) ?V" and fW: "page_frame (i div SLOTS) ?W"
    using complete_wf [OF full pk] page_wfD by blast+
  have kept: "slot_stored dg U X' B vol' p ?W i \<and> slot_block X' B vol' p ?W i = committed_block X B vol i" if "cell p i = cell ?V i"
    using slot_cell_cong(1,2) [OF f fV that] slot_stored_mono [OF slot_stored_known [OF complete_slot(1) [OF full] U(2)] nxt(1,2)]
    by (simp add: committed_block_def)
  show ?thesis
  proof (cases "map_of (x_dirty vol) i")
    case None
    then show ?thesis using c kept by (simp add: planned_cell_def xblock_def)
  next
    case (Some b)
    have b: "length b = CHUNK_BYTES" "xblock X B vol i = b" using x_inv_dirty [OF inv Some] Some by (simp_all add: xblock_def)
    have "b \<in> snd ` set (x_dirty vol)" using map_of_SomeD [OF Some] by force
    then have bU: "b \<in> U" using U(2) unfolding known_objects_def by blast
    have dig: "slot_digest (dg b)" using U(1) bU by (simp add: digest_sound_def)
    consider (zero) "all_zero b" "cell p i = zeros 72"
      | (old) "\<not> all_zero b" "page_slot ?V i = Some (dg b)" "cell p i = cell ?V i"
      | (shared) "page_slot ?W i = Some (dg b)" "cell p i = direct_value (dg b)"
      | (own) pack offset where "page_slot ?W i \<noteq> Some (dg b)" "cell p i = packed_value (dg b) (dg pack) offset" "(dg pack, pack) \<in> set packs" "in_pack pack offset b"
    proof -
      note pc = c [unfolded planned_cell_def Some option.case]
      show thesis
      proof (cases "all_zero b")
        case True
        then show ?thesis using pc zero by simp
      next
        case nz: False
        show ?thesis
        proof (cases "rewritten dg force (vpage X B vol) i b")
          case True
          show ?thesis
          proof (cases "page_slot ?W i = Some (dg b)")
            case sh: True
            show ?thesis by (rule shared [OF sh]) (use pc nz True sh in simp)
          next
            case False
            then show ?thesis using pc nz True own by auto
          qed
        next
          case False
          then show ?thesis using pc nz old by (simp add: rewritten_def)
        qed
      qed
    qed
    then show ?thesis
    proof cases
      case zero
      then have "page_slot p i = None" by (simp add: frame_page_slot [OF f])
      then show ?thesis using b zero_block [OF zero(1) b(1)] by (simp add: slot_stored_def slot_block_def)
    next
      case old
      have "committed_block X B vol i = b"
        using complete_slot(2) [OF full old(2)] U(2) bU by (intro digest_soundD [OF U(1)]) (auto simp: known_objects_def)
      then show ?thesis using kept [OF old(3)] b by simp
    next
      case shared
      have s: "page_slot p i = Some (dg b)" "object_slot p i = Some (dg b, 0)"
        using cell_direct [OF dig] by (simp_all add: frame_page_slot [OF f] frame_object_slot [OF f] shared(2))
      obtain c where "length c = 32" "cell ?W i = c @ zeros 40" using complete_wf(3) [OF full pk] by blast
      then have "object_slot ?W i = Some (dg b, 0)"
        using shared(1) converted_object [of c] by (simp add: frame_page_slot [OF fW] frame_object_slot [OF fW])
      moreover have "x_base vol \<noteq> None" using unbased_slot [OF _ pk] shared(1) by fastforce
      ultimately have inh: "slot_inherited (x_base vol' \<noteq> None) p ?W i" using s shared(1) nxt(1) by (simp add: slot_inherited_def successor_def)
      obtain b' where b': "B (b_image (the (rt_base (x_root vol)))) (dg b) = Some b'" "dg b' = dg b"
        using full shared(1) unfolding x_complete_def base_complete_def by blast
      have "b' = b" using b' bU U(2) by (intro digest_soundD [OF U(1)]) (auto simp: known_objects_def)
      then show ?thesis
        using inh s b b'(1) nxt(1) bU by (auto simp: slot_stored_def slot_block_def extract_block_def res_bind_def successor_def)
    next
      case own
      have pU: "pack \<in> U" using U(3) own(3) by force
      have "offset < 256 ^ 4" using own(4) by (simp add: in_pack_def MAX_OBJECT_BYTES_def CHUNK_BYTES_def)
      then have s: "page_slot p i = Some (dg b)" "object_slot p i = Some (dg pack, offset)"
        using cell_packed [OF dig, of "dg pack" offset] U(1) pU
        by (simp_all add: frame_page_slot [OF f] frame_object_slot [OF f] own(2) digest_sound_def)
      have inh: "\<not> slot_inherited (x_base vol' \<noteq> None) p ?W i" using s own(1) by (auto simp: slot_inherited_def)
      have st: "X' (rt_volume (x_root vol')) (dg pack) = Some pack" using nxt(1,3) own(3) by (auto simp: successor_def)
      note ext = extract_in_pack [where dg = dg, OF own(4) b(1) digest_soundD [OF U(1) pU bU]]
      show ?thesis
        using inh s st b(2) ext pU by (auto simp: slot_stored_def slot_block_def object_block_def split: if_splits)
    qed
  qed
qed

section \<open>The new pages pass the check\<close>

lemma cell_mod: "cell p (pi * SLOTS + j) = cell p j" "j < SLOTS \<Longrightarrow> (pi * SLOTS + j) div SLOTS = pi"
  by (simp_all add: cell_def)

lemma cells_zero_slice:
  assumes f: "page_frame pi p" and z: "\<And>j. j < SLOTS \<Longrightarrow> n \<le> j \<Longrightarrow> cell p j = zeros 72"
  shows "all_zero (slice_of p (16 + n * 72) (16 + SLOTS * 72))"
proof -
  have "p ! (16 + n * 72 + k) = 0" if k: "k < SLOTS * 72 - n * 72" for k
  proof -
    define j where "j = n + k div 72"
    have j: "j < SLOTS" "n \<le> j" using k by (auto simp: j_def)
    have at: "16 + n * 72 + k = 16 + j * 72 + k mod 72" by (simp add: j_def)
    have "p ! (16 + j * 72 + k mod 72) = cell p j ! (k mod 72)"
      using page_bounds(1) [OF j(1)] frame_length [OF f] j(1) by (simp add: cell_def pslot_def)
    then show ?thesis unfolding at using z [OF j] by simp
  qed
  then have "slice_of p (16 + n * 72) (16 + SLOTS * 72) = zeros (16 + SLOTS * 72 - (16 + n * 72))"
    using page_bounds(2) frame_length [OF f] by (intro nth_equalityI) auto
  then show ?thesis by simp
qed

lemma page_check_Ok:
  assumes wf: "page_wf sz pi p" and bound: "pi * SLOTS \<le> sz div CHUNK_BYTES" "pi < 256 ^ 8"
    and same: "\<And>i i'. i div SLOTS = pi \<Longrightarrow> i' div SLOTS = pi \<Longrightarrow> cell_in_pack (cell p i) \<Longrightarrow> cell_in_pack (cell p i') \<Longrightarrow>
      cell_key (cell p i) = cell_key (cell p i') \<Longrightarrow> take 32 (cell p i) = take 32 (cell p i')"
  shows "page_check dg sz True pi (dg p) p = Ok ()"
proof -
  note f = page_wfD [OF wf]
  have head: "slice_of p 0 8 = PACK_MAGIC" "slice_of p 8 16 = be_bytes 8 pi"
  proof -
    have t: "take 16 p = PACK_MAGIC @ be_bytes 8 pi" using f by (simp add: page_frame_def)
    have "slice_of p 0 8 = take 8 (take 16 p)" "slice_of p 8 16 = drop 8 (take 16 p)"
      by (simp_all add: slice_of_def take_drop)
    then show "slice_of p 0 8 = PACK_MAGIC" "slice_of p 8 16 = be_bytes 8 pi"
      unfolding t by (simp_all add: PACK_MAGIC_def)
  qed
  define F where "F k = take 32 (cell p (SOME i. i div SLOTS = pi \<and> cell_in_pack (cell p i) \<and> cell_key (cell p i) = k))" for k
  have F: "take 32 (cell p i) = F (cell_key (cell p i))" if "i div SLOTS = pi" "cell_in_pack (cell p i)" for i
  proof -
    let ?P = "\<lambda>i'. i' div SLOTS = pi \<and> cell_in_pack (cell p i') \<and> cell_key (cell p i') = cell_key (cell p i)"
    have "?P (SOME i'. ?P i')" using that by (intro someI [of ?P i]) simp
    then show ?thesis unfolding F_def using that by (intro same) simp_all
  qed
  have "cell_wf (cell p j) \<and> (cell_in_pack (cell p j) \<longrightarrow> take 32 (cell p j) = F (cell_key (cell p j)))" if "j < SLOTS" for j
    using wf F [of "pi * SLOTS + j"] cell_mod(1) [of p pi j] cell_mod(2) [of j pi] that unfolding page_wf_def by metis
  then have "check_slots p [0..<SLOTS] [] = Ok ()"
    by (intro check_slots_ok [OF f, where F = F]) auto
  moreover have "all_zero (slice_of p (16 + min (sz div CHUNK_BYTES - pi * SLOTS) SLOTS * 72) (16 + SLOTS * 72))"
  proof (rule cells_zero_slice [OF f])
    fix j
    assume "j < SLOTS" "min (sz div CHUNK_BYTES - pi * SLOTS) SLOTS \<le> j"
    then show "cell p j = zeros 72"
      using wf cell_mod(1) [of p pi j] cell_mod(2) [of j pi] unfolding page_wf_def by (metis le_diff_conv min.absorb1 min_def not_le add.commute)
  qed
  ultimately show ?thesis
    using f head bound by (simp add: page_check_def page_frame_def PACK_SLOT_BYTES_def be_nat_bytes_id)
qed

lemma extract_unique:
  assumes "extract_block dg False h obj offset bs = Ok b" "extract_block dg False h' obj offset bs = Ok b'"
  shows "h = h'"
proof -
  have one: "h' = obj" if "h = obj" "extract_block dg False h obj offset bs = Ok b" "extract_block dg False h' obj offset bs = Ok b'" for h h' b b'
  proof (rule ccontr)
    assume ne: "h' \<noteq> obj"
    have bs: "length bs = CHUNK_BYTES" "dg bs = obj" using extract_block_Ok [OF that(2)] that(1) by auto
    have "offset + CHUNK_BYTES \<le> length bs"
      using that(3) ne by (auto simp: extract_block_def res_bind_def split: if_splits option.splits)
    then have "offset = 0" using bs(1) by simp
    then show False using extract_block_Ok [OF that(3)] ne bs by (auto simp: slice_of_def)
  qed
  show ?thesis
  proof (cases "h = obj \<or> h' = obj")
    case True
    then show ?thesis using one [OF _ assms] one [OF _ assms(2,1)] by auto
  next
    case False
    then show ?thesis using extract_block_Ok [OF assms(1)] extract_block_Ok [OF assms(2)] by auto
  qed
qed

lemma in_pack_object:
  assumes "cell_in_pack c"
  shows "cell_hash c = Some (hex_string (take 32 c))" "cell_object c = Some (hex_string (fst (cell_key c)), snd (cell_key c))"
  using assms by (simp_all add: cell_in_pack_def cell_hash_def cell_object_def cell_key_def)

lemma stored_consistent:
  assumes U: "digest_sound dg U" and f: "page_frame pi p"
    and s: "slot_stored dg U X B vol p bp i" "slot_stored dg U X B vol p bp i'"
    and direct: "\<And>i h. page_slot bp i = Some h \<Longrightarrow> object_slot bp i = Some (h, 0)"
    and c: "cell_in_pack (cell p i)" "cell_in_pack (cell p i')" "cell_key (cell p i) = cell_key (cell p i')"
  shows "take 32 (cell p i) = take 32 (cell p i')"
proof -
  let ?inh = "slot_inherited (x_base vol \<noteq> None) p bp"
  define obj where "obj = hex_string (fst (cell_key (cell p i)))"
  define off where "off = snd (cell_key (cell p i))"
  define h where "h j = hex_string (take 32 (cell p j))" for j
  have slots: "page_slot p j = Some (h j) \<and> object_slot p j = Some (obj, off)" if "j = i \<or> j = i'" for j
    using in_pack_object [of "cell p j"] c that by (auto simp: frame_page_slot [OF f] frame_object_slot [OF f] h_def obj_def off_def)
  have ex: "\<exists>bs \<in> U. \<exists>b. (if ?inh j then B (b_image (the (rt_base (x_root vol)))) (h j) = Some bs else X (rt_volume (x_root vol)) obj = Some bs)
      \<and> extract_block dg (?inh j) (h j) obj off bs = Ok b" if "j = i \<or> j = i'" for j
  proof -
    have "slot_stored dg U X B vol p bp j" using s that by blast
    then show ?thesis using slots [OF that] by (simp only: slot_stored_def option.case prod.case)
  qed
  have own: "obj = h j \<and> off = 0" if "j = i \<or> j = i'" "?inh j" for j
    using that slots [OF that(1)] direct [of j] by (auto simp: slot_inherited_def)
  have mixed: "h j = h j'" if jj: "j = i \<or> j = i'" "j' = i \<or> j' = i'" and inh: "?inh j" "\<not> ?inh j'" for j j'
  proof -
    obtain bs b where b: "bs \<in> U" "extract_block dg True (h j) obj off bs = Ok b" using ex [OF jj(1)] inh(1) by auto
    obtain bs' b' where b': "bs' \<in> U" "extract_block dg False (h j') obj off bs' = Ok b'" using ex [OF jj(2)] inh(2) by auto
    show ?thesis
    proof (rule ccontr)
      assume ne: "h j \<noteq> h j'"
      then have "obj \<noteq> h j'" using own [OF jj(1) inh(1)] by simp
      then have "dg bs' = obj" using b'(2) by (auto simp: extract_block_def res_bind_def split: if_splits option.splits)
      moreover have "length bs = CHUNK_BYTES" "dg bs = h j" using extract_block_Ok [OF b(2)] by auto
      ultimately have "bs' = bs" "length bs = CHUNK_BYTES"
        using own [OF jj(1) inh(1)] b(1) b'(1) by (auto intro: digest_soundD [OF U])
      then show False using extract_block_Ok [OF b'(2)] own [OF jj(1) inh(1)] \<open>obj \<noteq> h j'\<close> \<open>dg bs' = obj\<close> by (auto simp: slice_of_def)
    qed
  qed
  have "h i = h i'"
  proof (cases "?inh i")
    case True
    then show ?thesis using mixed [of i i'] own [of i] own [of i'] by (cases "?inh i'") auto
  next
    case False
    note ni = this
    show ?thesis
    proof (cases "?inh i'")
      case True
      then show ?thesis using mixed [of i' i] ni by simp
    next
      case False
      obtain bs b where "X (rt_volume (x_root vol)) obj = Some bs" "extract_block dg False (h i) obj off bs = Ok b" using ex [of i] ni by auto
      moreover obtain bs' b' where "X (rt_volume (x_root vol)) obj = Some bs'" "extract_block dg False (h i') obj off bs' = Ok b'" using ex [of i'] False by auto
      ultimately show ?thesis using extract_unique by fastforce
    qed
  qed
  then show ?thesis unfolding h_def by (metis hex_pairs_string)
qed

lemma planned_page_wf:
  assumes full: "x_complete dg X B vol" and pk: "packed vol" and inv: "x_inv vol"
    and U: "digest_sound dg U" "known_objects X B vol \<subseteq> U" "snd ` set packs \<subseteq> U"
    and f: "page_frame pi p"
    and c: "\<And>i. i div SLOTS = pi \<Longrightarrow> planned_cell dg force (vpage X B vol) (bpage X B vol) (x_dirty vol) packs i (cell p i)"
  shows "page_wf (x_size vol) pi p"
  unfolding page_wf_def
proof (intro conjI allI impI f)
  fix i
  assume i: "i div SLOTS = pi"
  have V: "cell_wf (cell (vpage X B vol pi) i)" "x_size vol div CHUNK_BYTES \<le> i \<Longrightarrow> cell (vpage X B vol pi) i = zeros 72"
    using complete_wf(1) [OF full pk, of pi] i by (simp_all add: page_wf_def)
  show "cell_wf (cell p i)"
  proof (cases "map_of (x_dirty vol) i")
    case None
    then show ?thesis using c [OF i] V(1) i by (simp add: planned_cell_def)
  next
    case (Some b)
    have "b \<in> snd ` set (x_dirty vol)" using map_of_SomeD [OF Some] by force
    then have dig: "slot_digest (dg b)" using U(1,2) unfolding known_objects_def digest_sound_def by blast
    have "cell_wf (direct_value (dg b))" using slot_digestD [OF dig] by (simp add: direct_value_def cell_wf_kinds)
    moreover have "cell_wf (packed_value (dg b) (dg pack) offset)" if "in_pack pack offset b" "(dg pack, pack) \<in> set packs" for pack offset
    proof -
      have "pack \<in> U" using U(3) that(2) by force
      then have "slot_digest (dg pack)" using U(1) by (simp add: digest_sound_def)
      moreover have "offset < MAX_OBJECT_BYTES" using that(1) CHUNK_BYTES_pos unfolding in_pack_def by linarith
      ultimately show ?thesis using that(1) dig by (simp add: cell_wf_kinds in_pack_def)
    qed
    ultimately show ?thesis
      using c [OF i] V(1) i Some cell_wf_kinds(1) by (auto simp: planned_cell_def split: if_splits)
  qed
  assume "x_size vol div CHUNK_BYTES \<le> i"
  moreover from this have "map_of (x_dirty vol) i = None" using x_inv_dirty [OF inv, of i] by (cases "map_of (x_dirty vol) i") auto
  ultimately show "cell p i = zeros 72" using c [OF i] V(2) i by (simp add: planned_cell_def)
qed

lemma bpage_direct:
  assumes "x_complete dg X B vol" "packed vol" "page_slot (bpage X B vol pi) i = Some h"
  shows "object_slot (bpage X B vol pi) i = Some (h, 0)"
proof -
  note f = page_wfD [OF complete_wf(2) [OF assms(1,2)]]
  obtain c where "length c = 32" "cell (bpage X B vol pi) i = c @ zeros 40" using complete_wf(3) [OF assms(1,2)] by blast
  then show ?thesis using assms(3) converted_object [of c] by (simp add: frame_page_slot [OF f] frame_object_slot [OF f])
qed

lemma planned_page_check:
  assumes full: "x_complete dg X B vol" and pk: "packed vol" and inv: "x_inv vol"
    and U: "digest_sound dg U" "known_objects X B vol \<subseteq> U" "snd ` set packs \<subseteq> U"
    and nxt: "successor vol vol'" "objs_le X X'" "\<forall>(d, b) \<in> set packs. X' (rt_volume (x_root vol)) d = Some b"
    and f: "page_frame pi p" and t: "pi \<in> touched (x_dirty vol)"
    and c: "\<And>i. i div SLOTS = pi \<Longrightarrow> planned_cell dg force (vpage X B vol) (bpage X B vol) (x_dirty vol) packs i (cell p i)"
  shows "page_check dg (x_size vol) True pi (dg p) p = Ok ()"
proof (rule page_check_Ok)
  show "page_wf (x_size vol) pi p" by (rule planned_page_wf [OF full pk inv U f c])
  obtain i b where ib: "(i, b) \<in> set (x_dirty vol)" "i div SLOTS = pi" using t by (auto simp: touched_def)
  have "bt_ok (x_dirty vol)" using inv by (simp add: x_inv_def)
  then have "i < x_size vol div CHUNK_BYTES" using x_inv_dirty [OF inv] ib(1) by (simp add: bt_entries)
  moreover have "pi * SLOTS \<le> i" using ib(2) by auto
  ultimately show b: "pi * SLOTS \<le> x_size vol div CHUNK_BYTES" by simp
  have "x_size vol \<le> MAX_SIZE" using inv by (simp add: x_inv_def root_valid_def x_size_def)
  then have "x_size vol div CHUNK_BYTES \<le> MAX_SIZE" using div_le_dividend [of "x_size vol" CHUNK_BYTES] by linarith
  then show "pi < 256 ^ 8" using b by (simp add: SLOTS_def MAX_SIZE_def)
next
  fix i i'
  assume i: "i div SLOTS = pi" "i' div SLOTS = pi" and cc: "cell_in_pack (cell p i)" "cell_in_pack (cell p i')" "cell_key (cell p i) = cell_key (cell p i')"
  have s: "slot_stored dg U X' B vol' p (bpage X B vol pi) j" if "j div SLOTS = pi" for j
    using planned_slot [OF full pk inv U nxt c [OF that]] f that by simp
  show "take 32 (cell p i) = take 32 (cell p i')"
    by (rule stored_consistent [OF U(1) f s [OF i(1)] s [OF i(2)] bpage_direct [OF full pk] cc])
qed

section \<open>The new page table\<close>

lemma own_stored_mono:
  assumes "page_stored dg X B vol pi oh base" "successor vol vol'" "objs_le X X'"
  shows "page_stored dg X' B vol' pi oh base" "page_view X' B vol' pi oh base = page_view X B vol pi oh base"
  using assms(1) assms(2) objs_leD [OF assms(3)]
  by (auto simp: page_stored_def page_view_def raw_page_def successor_def split: option.splits if_splits)

text \<open>A touched page: the new table names exactly the page of the plan.\<close>

lemma new_page:
  assumes full: "x_complete dg X B vol" and pk: "packed vol"
    and U: "digest_sound dg U" "known_objects X B vol \<subseteq> U" "p \<in> U"
    and nxt: "successor vol vol'" "objs_le X X'" and f: "page_frame pi p"
    and out: "page_outcome dg vol (\<lambda>pi. Some (bpage X B vol pi)) (rt_pages (x_root vol)) (rt_pages (x_root vol')) ups pi p"
    and up: "(dg p, p) \<in> ups \<Longrightarrow> bt_get (rt_pages (x_root vol')) pi \<noteq> bt_get (rt_pages (x_root vol)) pi \<Longrightarrow> X' (rt_volume (x_root vol)) (dg p) = Some p"
  shows "vpage X' B vol' pi = p"
    "page_check dg (x_size vol) True pi (dg p) p = Ok () \<Longrightarrow> page_stored dg X' B vol' pi (bt_get (rt_pages (x_root vol')) pi) (inherits vol' pi)"
proof -
  let ?old = "bt_get (rt_pages (x_root vol)) pi" and ?new = "bt_get (rt_pages (x_root vol')) pi"
  have st: "page_stored dg X B vol pi ?old (inherits vol pi)" "page_stored dg X B vol pi (catalog_page vol pi) True"
    using full unfolding x_complete_def base_complete_def by blast+
  have cat: "catalog_page vol' = catalog_page vol" "x_base vol' = x_base vol" "packed vol'" "rt_size (x_root vol') = x_size vol" "rt_volume (x_root vol') = rt_volume (x_root vol)"
    using successor_catalog [OF nxt(1)] nxt(1) pk by (simp_all add: successor_def x_size_def)
  have nobase: "catalog_page vol pi \<noteq> Some (dg p)"
  proof
    assume "catalog_page vol pi = Some (dg p)"
    then obtain bs where bs: "B (b_image (the (rt_base (x_root vol)))) (dg p) = Some bs" "page_check dg (x_size vol) False pi (dg p) bs = Ok ()"
      using st(2) by (auto simp: page_stored_def x_size_def)
    have "bs \<in> U" using U(2) bs(1) unfolding known_objects_def by blast
    then have "bs = p" using page_check_direct(3) [OF bs(2)] U by (auto intro: digest_soundD)
    then show False using page_check_direct(1) [OF bs(2)] frame_length [OF f] by (simp add: direct_form_def CHUNK_BYTES_def PACK_PAGE_BYTES_def)
  qed
  have own: "vpage X' B vol' pi = p \<and> (page_check dg (x_size vol) True pi (dg p) p = Ok () \<longrightarrow> page_stored dg X' B vol' pi ?new (inherits vol' pi))"
    if "?new = Some (dg p)" "X' (rt_volume (x_root vol)) (dg p) = Some p"
  proof -
    have "\<not> inherits vol' pi" using that(1) nobase cat(1) by (auto simp: inherits_def)
    then show ?thesis using that cat by (simp add: vpage_def page_view_def raw_page_def page_stored_def)
  qed
  consider (zero) "all_zero (drop 16 p)" "?new = None"
    | (shared) "x_base vol \<noteq> None" "bpage X B vol pi = p" "catalog_page vol pi \<noteq> None" "?new = catalog_page vol pi"
    | (old) "?old = Some (dg p)" "?new = ?old"
    | (fresh) "?old \<noteq> Some (dg p)" "?new = Some (dg p)" "(dg p, p) \<in> ups"
    using out by (auto simp: page_outcome_def split: if_splits)
  then have "vpage X' B vol' pi = p \<and> (page_check dg (x_size vol) True pi (dg p) p = Ok () \<longrightarrow> page_stored dg X' B vol' pi ?new (inherits vol' pi))"
  proof cases
    case zero
    have "blank_page True pi = p"
      using frame_zero [OF f zero(1)] by (intro frame_eqI [OF blank_packed(1) f]) (simp add: blank_packed(2))
    then show ?thesis using zero(2) cat(3) by (simp add: vpage_def page_view_def raw_page_def inherits_def page_stored_def)
  next
    case shared
    have "inherits vol' pi" using shared cat by (auto simp: inherits_def)
    then show ?thesis
      using shared(2,4) base_view_successor [OF nxt(1), of X' B pi _ X] st(2) base_stored_successor [OF nxt(1), of dg X' B pi _ X]
      by (simp add: vpage_def bpage_def)
  next
    case old
    have "\<not> inherits vol pi" using old nobase by (auto simp: inherits_def)
    then obtain bs where bs: "X (rt_volume (x_root vol)) (dg p) = Some bs" "page_check dg (x_size vol) True pi (dg p) bs = Ok ()"
      using st(1) old(1) pk by (auto simp: page_stored_def x_size_def)
    have "bs \<in> U" using U(2) bs(1) unfolding known_objects_def by blast
    then have "bs = p" using page_check_frame(2) [OF bs(2)] U by (auto intro: digest_soundD)
    then show ?thesis using own old bs(1) objs_leD [OF nxt(2)] by simp
  next
    case fresh
    then show ?thesis using own up by simp
  qed
  then show "vpage X' B vol' pi = p"
    "page_check dg (x_size vol) True pi (dg p) p = Ok () \<Longrightarrow> page_stored dg X' B vol' pi ?new (inherits vol' pi)"
    by simp_all
qed

section \<open>The disk after a commit\<close>

definition plan_objects :: "commit_plan \<Rightarrow> bytes set" where
  "plan_objects pl = snd ` set (pl_uploads pl) \<union> snd ` set (pl_pages pl)"

text \<open>What is known of the plan of a complete volume.\<close>

lemma planned_facts:
  assumes full: "x_complete dg X B vol" and pk: "packed vol" and inv: "x_inv vol" and dgv: "\<And>b. valid_hash (dg b)"
    and run: "commit_plan dg force vol (vpage X B vol) (bpage X B vol) (rt_pages (x_root vol)) = Ok pl"
    and U: "digest_sound dg U" "known_objects X B vol \<subseteq> U" "plan_objects pl \<subseteq> U"
  shows "bt_get (pl_pages pl) pi = Some p \<Longrightarrow> page_frame pi p \<and> p \<in> U \<and> pi \<in> touched (x_dirty vol)
      \<and> page_outcome dg vol (\<lambda>pi. Some (bpage X B vol pi)) (rt_pages (x_root vol)) (pl_table pl) (set (pl_uploads pl)) pi p
      \<and> (\<forall>i. i div SLOTS = pi \<longrightarrow> planned_cell dg force (vpage X B vol) (bpage X B vol) (x_dirty vol) (pl_packs pl) i (cell p i))"
    "bt_get (pl_pages pl) pi = None \<Longrightarrow> bt_get (pl_table pl) pi = bt_get (rt_pages (x_root vol)) pi \<and> pi \<notin> touched (x_dirty vol)"
    "set (pl_packs pl) \<subseteq> set (pl_uploads pl)" "snd ` set (pl_packs pl) \<subseteq> U" "bt_ok (pl_table pl)"
    "(d, b) \<in> set (pl_uploads pl) \<Longrightarrow> d = dg b"
proof -
  have ds: "bt_ok (x_dirty vol)" "bt_ok (rt_pages (x_root vol))" "\<forall>b \<in> snd ` set (x_dirty vol). length b = CHUNK_BYTES"
    using inv by (auto simp: x_inv_def)
  have inj: "inj_on dg (snd ` set (x_dirty vol))"
    using U(1,2) unfolding digest_sound_def known_objects_def by (auto intro: inj_on_subset)
  note spec = commit_plan_spec [OF run page_wfD [OF complete_wf(1) [OF full pk]] ds(1,3) inj dgv ds(2)]
  show "page_frame pi p \<and> p \<in> U \<and> pi \<in> touched (x_dirty vol)
      \<and> page_outcome dg vol (\<lambda>pi. Some (bpage X B vol pi)) (rt_pages (x_root vol)) (pl_table pl) (set (pl_uploads pl)) pi p
      \<and> (\<forall>i. i div SLOTS = pi \<longrightarrow> planned_cell dg force (vpage X B vol) (bpage X B vol) (x_dirty vol) (pl_packs pl) i (cell p i))"
    if p: "bt_get (pl_pages pl) pi = Some p"
  proof -
    have "p \<in> snd ` set (pl_pages pl)" using map_of_SomeD [OF p] by force
    then have "p \<in> U" using U(3) by (auto simp: plan_objects_def)
    moreover have "pi \<in> touched (x_dirty vol)" using p spec(2) by blast
    ultimately show ?thesis using spec(1,3,6) p by (auto simp: framed_def)
  qed
  show "bt_get (pl_table pl) pi = bt_get (rt_pages (x_root vol)) pi \<and> pi \<notin> touched (x_dirty vol)" if "bt_get (pl_pages pl) pi = None"
  proof -
    have "pi \<notin> touched (x_dirty vol)" using that spec(2) by blast
    then show ?thesis using spec(5) by blast
  qed
  show "set (pl_packs pl) \<subseteq> set (pl_uploads pl)" by (rule spec(7))
  then show "snd ` set (pl_packs pl) \<subseteq> U" using U(3) by (auto simp: plan_objects_def)
  show "bt_ok (pl_table pl)" by (rule spec(4))
  show "d = dg b" if "(d, b) \<in> set (pl_uploads pl)" by (rule spec(8) [OF that])
qed

lemma commit_complete:
  assumes full: "x_complete dg X B vol" and pk: "packed vol" and inv: "x_inv vol" and dgv: "\<And>b. valid_hash (dg b)"
    and run: "commit_plan dg force vol (vpage X B vol) (bpage X B vol) (rt_pages (x_root vol)) = Ok pl"
    and U: "digest_sound dg U" "known_objects X B vol \<subseteq> U" "plan_objects pl \<subseteq> U"
    and nxt: "successor vol vol'" "objs_le X X'" "\<forall>(d, b) \<in> set (pl_uploads pl). X' (rt_volume (x_root vol)) d = Some b"
      "rt_pages (x_root vol') = pl_table pl"
  shows "x_complete dg X' B vol'" "committed_block X' B vol' i = xblock X B vol i"
proof -
  note facts = planned_facts [OF full pk inv dgv run U]
  have packs: "\<forall>(d, b) \<in> set (pl_packs pl). X' (rt_volume (x_root vol)) d = Some b" using nxt(3) facts(3) by blast
  have W: "bpage X' B vol' pi = bpage X B vol pi" for pi by (rule bpage_successor [OF nxt(1)])
  have touched: "vpage X' B vol' pi = p" "page_stored dg X' B vol' pi (bt_get (rt_pages (x_root vol')) pi) (inherits vol' pi)"
      "\<And>i. i div SLOTS = pi \<Longrightarrow> slot_stored dg UNIV X' B vol' p (bpage X B vol pi) i
         \<and> slot_block X' B vol' p (bpage X B vol pi) i = xblock X B vol i"
    if p: "bt_get (pl_pages pl) pi = Some p" for pi p
  proof -
    have fp: "page_frame pi p" "p \<in> U" "pi \<in> touched (x_dirty vol)"
        "page_outcome dg vol (\<lambda>pi. Some (bpage X B vol pi)) (rt_pages (x_root vol)) (rt_pages (x_root vol')) (set (pl_uploads pl)) pi p"
        "\<And>i. i div SLOTS = pi \<Longrightarrow> planned_cell dg force (vpage X B vol) (bpage X B vol) (x_dirty vol) (pl_packs pl) i (cell p i)"
      using facts(1) [OF p] nxt(4) by auto
    have up: "X' (rt_volume (x_root vol)) (dg p) = Some p" if "(dg p, p) \<in> set (pl_uploads pl)" using nxt(3) that by blast
    note np = new_page [OF full pk U(1,2) fp(2) nxt(1,2) fp(1,4) up]
    show "vpage X' B vol' pi = p" by (rule np(1))
    show "page_stored dg X' B vol' pi (bt_get (rt_pages (x_root vol')) pi) (inherits vol' pi)"
    proof (rule np(2))
      show "page_check dg (x_size vol) True pi (dg p) p = Ok ()"
        by (rule planned_page_check [OF full pk inv U(1,2) facts(4) nxt(1,2) packs fp(1,3,5)])
    qed
    show "slot_stored dg UNIV X' B vol' p (bpage X B vol pi) i \<and> slot_block X' B vol' p (bpage X B vol pi) i = xblock X B vol i"
      if "i div SLOTS = pi" for i
      using planned_slot [OF full pk inv U(1,2) facts(4) nxt(1,2) packs fp(5) [OF that]] fp(1) that slot_stored_UNIV by auto
  qed
  have untouched: "vpage X' B vol' pi = vpage X B vol pi" "page_stored dg X' B vol' pi (bt_get (rt_pages (x_root vol')) pi) (inherits vol' pi)"
      "\<And>i. i div SLOTS = pi \<Longrightarrow> slot_stored dg UNIV X' B vol' (vpage X B vol pi) (bpage X B vol pi) i
         \<and> slot_block X' B vol' (vpage X B vol pi) (bpage X B vol pi) i = xblock X B vol i"
    if p: "bt_get (pl_pages pl) pi = None" for pi
  proof -
    have t: "bt_get (rt_pages (x_root vol')) pi = bt_get (rt_pages (x_root vol)) pi" "pi \<notin> touched (x_dirty vol)"
      using facts(2) [OF p] nxt(4) by auto
    have inh: "inherits vol' pi = inherits vol pi"
      using t(1) successor_catalog [OF nxt(1)] nxt(1) by (simp add: inherits_def successor_def)
    have st: "page_stored dg X B vol pi (bt_get (rt_pages (x_root vol)) pi) (inherits vol pi)" using full by (simp add: x_complete_def)
    show "vpage X' B vol' pi = vpage X B vol pi" "page_stored dg X' B vol' pi (bt_get (rt_pages (x_root vol')) pi) (inherits vol' pi)"
      using own_stored_mono [OF st nxt(1,2)] unfolding vpage_def t(1) inh by simp_all
    show "slot_stored dg UNIV X' B vol' (vpage X B vol pi) (bpage X B vol pi) i
         \<and> slot_block X' B vol' (vpage X B vol pi) (bpage X B vol pi) i = xblock X B vol i" if i: "i div SLOTS = pi" for i
    proof -
      have "map_of (x_dirty vol) i = None" using t(2) i by (auto simp: touched_def map_of_eq_None_iff)
      then show ?thesis
        using slot_stored_mono [OF complete_slot(1) [OF full, of i] nxt(1,2)] i by (simp add: xblock_def committed_block_def)
    qed
  qed
  have slots: "slot_stored dg UNIV X' B vol' (vpage X' B vol' (i div SLOTS)) (bpage X' B vol' (i div SLOTS)) i
      \<and> slot_block X' B vol' (vpage X' B vol' (i div SLOTS)) (bpage X' B vol' (i div SLOTS)) i = xblock X B vol i" for i
  proof (cases "bt_get (pl_pages pl) (i div SLOTS)")
    case None
    then show ?thesis using untouched(1,3) [OF None] by (simp add: W)
  next
    case (Some p)
    then show ?thesis using touched(1,3) [OF Some] by (simp add: W)
  qed
  then show "committed_block X' B vol' i = xblock X B vol i" by (simp add: committed_block_def)
  have "page_stored dg X' B vol' pi (bt_get (rt_pages (x_root vol')) pi) (inherits vol' pi)" for pi
    using touched(2) untouched(2) by (cases "bt_get (pl_pages pl) pi") auto
  moreover have "base_complete dg X' B vol'" using full base_complete_successor [OF nxt(1), of dg X' B X] by (simp add: x_complete_def)
  ultimately show "x_complete dg X' B vol'" unfolding x_complete_def using slots by blast
qed

text \<open>A commit that changes no page had nothing to change.\<close>

lemma planned_hash:
  assumes "planned_cell dg force V W ds packs i c" "map_of ds i = Some b" "\<not> all_zero b" "slot_digest (dg b)"
    "\<And>pack. pack \<in> snd ` set packs \<Longrightarrow> slot_digest (dg pack)" "page_frame (i div SLOTS) (V (i div SLOTS))"
  shows "cell_hash c = Some (dg b)"
proof (cases "rewritten dg force V i b \<and> page_slot (W (i div SLOTS)) i \<noteq> Some (dg b)")
  case True
  then obtain pack offset where o: "c = packed_value (dg b) (dg pack) offset" "(dg pack, pack) \<in> set packs" "in_pack pack offset b"
    using assms(1-3) by (auto simp: planned_cell_def)
  have "offset < 256 ^ 4" using o(3) by (simp add: in_pack_def MAX_OBJECT_BYTES_def CHUNK_BYTES_def)
  moreover have "pack \<in> snd ` set packs" using o(2) by force
  ultimately show ?thesis using o(1) cell_packed(1) assms(4,5) by simp
next
  case False
  then show ?thesis
    using assms cell_direct(1) [OF assms(4)] frame_page_slot [OF assms(6), of i]
    by (auto simp: planned_cell_def rewritten_def split: if_splits)
qed

lemma commit_clean:
  assumes full: "x_complete dg X B vol" and pk: "packed vol" and inv: "x_inv vol" and dgv: "\<And>b. valid_hash (dg b)"
    and run: "commit_plan dg force vol (vpage X B vol) (bpage X B vol) (rt_pages (x_root vol)) = Ok pl"
    and U: "digest_sound dg U" "known_objects X B vol \<subseteq> U" "plan_objects pl \<subseteq> U"
    and clean: "pl_table pl = rt_pages (x_root vol)"
  shows "committed_block X B vol i = xblock X B vol i"
proof (cases "map_of (x_dirty vol) i")
  case None
  then show ?thesis by (simp add: xblock_def)
next
  case (Some b)
  note facts = planned_facts [OF full pk inv dgv run U]
  let ?pi = "i div SLOTS"
  have "?pi \<in> touched (x_dirty vol)" using map_of_SomeD [OF Some] by (force simp: touched_def)
  then obtain p where p: "bt_get (pl_pages pl) ?pi = Some p" using facts(2) [of ?pi] by (cases "bt_get (pl_pages pl) ?pi") auto
  have fp: "page_frame ?pi p" "p \<in> U"
      "page_outcome dg vol (\<lambda>pi. Some (bpage X B vol pi)) (rt_pages (x_root vol)) (rt_pages (x_root vol)) (set (pl_uploads pl)) ?pi p"
      "planned_cell dg force (vpage X B vol) (bpage X B vol) (x_dirty vol) (pl_packs pl) i (cell p i)"
    using facts(1) [OF p] clean by auto
  have "successor vol vol" by (simp add: successor_def)
  then have v: "vpage X B vol ?pi = p"
    by (rule new_page(1) [OF full pk U(1,2) fp(2) _ objs_le_refl fp(1,3)]) simp
  have b: "length b = CHUNK_BYTES" "xblock X B vol i = b" using x_inv_dirty [OF inv Some] Some by (simp_all add: xblock_def)
  have "b \<in> snd ` set (x_dirty vol)" using map_of_SomeD [OF Some] by force
  then have bU: "b \<in> U" using U(2) unfolding known_objects_def by blast
  show ?thesis
  proof (cases "all_zero b")
    case True
    then have "cell p i = zeros 72" using fp(4) Some by (simp add: planned_cell_def)
    then have "page_slot p i = None" by (simp add: frame_page_slot [OF fp(1)])
    then show ?thesis using b zero_block [OF True b(1)] v by (simp add: committed_block_def slot_block_def)
  next
    case False
    have "cell_hash (cell p i) = Some (dg b)"
    proof (rule planned_hash [OF fp(4) Some False])
      show "slot_digest (dg b)" using U(1) bU by (simp add: digest_sound_def)
      show "slot_digest (dg pack)" if "pack \<in> snd ` set (pl_packs pl)" for pack
        using U(1) facts(4) that by (auto simp: digest_sound_def)
      show "page_frame ?pi (vpage X B vol ?pi)" using fp(1) v by simp
    qed
    then have "page_slot (vpage X B vol ?pi) i = Some (dg b)" by (simp add: v frame_page_slot [OF fp(1)])
    then have "dg (committed_block X B vol i) = dg b" by (rule complete_slot(2) [OF full])
    moreover have "committed_block X B vol i \<in> U" using U(2) unfolding known_objects_def by blast
    ultimately show ?thesis using digest_soundD [OF U(1)] bU b(2) by simp
  qed
qed

section \<open>The commit\<close>

definition commit_objects :: "(bytes \<Rightarrow> string) \<Rightarrow> bool \<Rightarrow> objs_view \<Rightarrow> base_view \<Rightarrow> indexed \<Rightarrow> bytes set" where
  "commit_objects dg force X B vol = known_objects X B vol
     \<union> (case commit_plan dg force vol (vpage X B vol) (bpage X B vol) (rt_pages (x_root vol)) of Ok pl \<Rightarrow> plan_objects pl | Err _ \<Rightarrow> {})"

text \<open>The root that a commit starts from: the same volume with a new generation, perhaps with a mark.\<close>

definition next_root :: "indexed \<Rightarrow> root \<Rightarrow> bool" where
  "next_root vol nxt \<longleftrightarrow> rt_pages nxt = rt_pages (x_root vol) \<and> rt_volume nxt = rt_volume (x_root vol)
     \<and> rt_size nxt = rt_size (x_root vol) \<and> rt_base nxt = rt_base (x_root vol)
     \<and> 8 \<le> rt_format nxt \<and> rt_format nxt \<le> 11 \<and> root_valid (rt_volume nxt) nxt"

lemma next_root_successor:
  assumes "next_root vol nxt" "packed vol"
  shows "successor vol (vol\<lparr>x_root := nxt\<lparr>rt_pages := t\<rparr>, x_revision := rv, x_dirty := []\<rparr>)"
  using assms by (simp add: next_root_def successor_def packed_def)

lemma complete_mono:
  assumes "x_complete dg X B vol" "objs_le X X'"
  shows "x_complete dg X' B vol" "committed_block X' B vol i = committed_block X B vol i"
proof -
  have v: "successor vol vol" by (simp add: successor_def)
  have st: "page_stored dg X B vol pi (bt_get (rt_pages (x_root vol)) pi) (inherits vol pi)" for pi
    using assms(1) by (simp add: x_complete_def)
  have V: "vpage X' B vol pi = vpage X B vol pi" for pi
    using own_stored_mono(2) [OF st v assms(2)] by (simp add: vpage_def)
  have W: "bpage X' B vol pi = bpage X B vol pi" for pi by (rule bpage_successor [OF v])
  note sl = slot_stored_mono [OF complete_slot(1) [OF assms(1)] v assms(2)]
  show "committed_block X' B vol i = committed_block X B vol i" using sl(2) by (simp add: committed_block_def V W)
  have "base_complete dg X' B vol" using assms(1) base_complete_successor [OF v, of dg X' B X] by (simp add: x_complete_def)
  then show "x_complete dg X' B vol"
    using own_stored_mono(1) [OF st v assms(2)] sl(1) by (simp add: x_complete_def V W)
qed

lemma complete_disk:
  assumes "x_complete dg X B vol" "objs_le X X'"
  shows "xdisk X' B vol = xdisk X B vol"
proof -
  have "xblock X' B vol = xblock X B vol"
    using complete_mono(2) [OF assms] by (simp add: xblock_def fun_eq_iff split: option.split)
  then show ?thesis by (simp add: xdisk_def)
qed

text \<open>The page table of the plan is one that an open accepts.\<close>

lemma div_ceil_page: "i < n \<Longrightarrow> i div SLOTS < div_ceil n SLOTS"
  unfolding div_ceil_def SLOTS_def by (auto simp: less_Suc_eq_le div_le_mono dest: less_imp_le)

lemma planned_table_valid:
  assumes full: "x_complete dg X B vol" and pk: "packed vol" and inv: "x_inv vol" and dgv: "\<And>b. valid_hash (dg b)"
    and run: "commit_plan dg force vol (vpage X B vol) (bpage X B vol) (rt_pages (x_root vol)) = Ok pl"
    and U: "digest_sound dg U" "known_objects X B vol \<subseteq> U" "plan_objects pl \<subseteq> U"
  shows "list_all (\<lambda>(p, h). p < div_ceil (rt_size (x_root vol) div CHUNK_BYTES) SLOTS \<and> valid_hash h) (pl_table pl)"
  unfolding list_all_iff
proof clarify
  fix pi h
  assume "(pi, h) \<in> set (pl_table pl)"
  note facts = planned_facts [OF full pk inv dgv run U]
  have h: "bt_get (pl_table pl) pi = Some h" using \<open>(pi, h) \<in> set (pl_table pl)\<close> facts(5) by (simp add: bt_entries)
  have old: "pi < div_ceil (rt_size (x_root vol) div CHUNK_BYTES) SLOTS \<and> valid_hash h" if "bt_get (rt_pages (x_root vol)) pi = Some h"
    using inv map_of_SomeD [OF that] by (auto simp: x_inv_def root_valid_def list_all_iff)
  show "pi < div_ceil (rt_size (x_root vol) div CHUNK_BYTES) SLOTS \<and> valid_hash h"
  proof (cases "bt_get (pl_pages pl) pi")
    case None
    then show ?thesis using facts(2) old h by simp
  next
    case (Some p)
    note fp = facts(1) [OF Some]
    have "bt_ok (x_dirty vol)" using inv by (simp add: x_inv_def)
    then have "\<exists>i. i div SLOTS = pi \<and> i < x_size vol div CHUNK_BYTES"
      using fp x_inv_dirty [OF inv] by (force simp: touched_def bt_entries)
    then have "pi < div_ceil (rt_size (x_root vol) div CHUNK_BYTES) SLOTS" using div_ceil_page by (auto simp: x_size_def)
    moreover have "valid_hash h"
    proof -
      have "h = dg p \<or> bt_get (rt_pages (x_root vol)) pi = Some h \<or> catalog_page vol pi = Some h"
        using fp h by (auto simp: page_outcome_def split: if_splits)
      moreover have "valid_hash h" if "catalog_page vol pi = Some h"
      proof -
        obtain b where "x_base vol = Some b" "bt_get (ct_pages b) pi = Some h" using \<open>catalog_page vol pi = Some h\<close> by (auto simp: catalog_page_def split: option.splits)
        then show ?thesis using inv by (auto simp: x_inv_def catalog_ok_def dest: map_of_SomeD)
      qed
      ultimately show ?thesis using dgv old by blast
    qed
    ultimately show ?thesis by simp
  qed
qed

text \<open>The disk of a handle depends on its root, its base and its dirty blocks only.\<close>

lemma view_cong:
  assumes "x_root v' = x_root v" "x_base v' = x_base v"
  shows "vpage X B v' = vpage X B v" "bpage X B v' = bpage X B v" "committed_block X B v' = committed_block X B v"
    "x_complete d X B v' = x_complete d X B v"
proof -
  have p: "packed v' = packed v" "catalog_page v' = catalog_page v" "inherits v' = inherits v" "raw_page X B v' = raw_page X B v"
    unfolding packed_def inherits_def catalog_page_def raw_page_def fun_eq_iff assms by simp_all
  have pv: "page_view X B v' = page_view X B v" unfolding page_view_def fun_eq_iff p by simp
  show v: "vpage X B v' = vpage X B v" "bpage X B v' = bpage X B v"
    unfolding vpage_def bpage_def fun_eq_iff p pv assms by simp_all
  have sb: "slot_block X B v' = slot_block X B v" unfolding slot_block_def fun_eq_iff assms by simp
  have ss: "slot_stored d U X B v' = slot_stored d U X B v" for U unfolding slot_stored_def fun_eq_iff assms by simp
  have ps: "page_stored d X B v' = page_stored d X B v" unfolding page_stored_def fun_eq_iff p assms by simp
  show "committed_block X B v' = committed_block X B v" unfolding committed_block_def fun_eq_iff v sb by simp
  show "x_complete d X B v' = x_complete d X B v" unfolding x_complete_def base_complete_def v ss ps p assms by simp
qed

context indexed_store
begin

abbreviation dg :: "bytes \<Rightarrow> string" where "dg \<equiv> c_digest (ix_codec E)"

lemma digest_valid: "valid_hash (dg b)"
  using codec by (simp add: codec_ok_def)

lemma same_step:
  assumes "post m (\<lambda>_. same s) (\<lambda>_. same s) t" "\<And>u. same s u \<Longrightarrow> post (f ()) Q (\<lambda>_. same s) u"
  shows "post (io_bind m f) Q (\<lambda>_. same s) t"
  unfolding post_bind by (rule post_mono [OF assms(1)]) (use assms(2) in auto)

lemma packed_entry_post:
  assumes "same s t" "valid_id (rt_volume (x_root vol))"
  shows "post (packed_entry E vol pk pi) (\<lambda>pk' u. same s u \<and> pk' = plan_entry (vpage (objs s) B vol) (bpage (objs s) B vol) pk pi) (\<lambda>_. same s) t"
proof (cases "bt_get (pk_pages pk) pi")
  case None
  show ?thesis
    unfolding packed_entry_def None option.case post_bind
    by (rule post_mono [OF x_page_same [OF assms]], rule post_mono [OF base_page_same [OF _ assms(2)]])
       (auto simp: post_return plan_entry_def None)
next
  case (Some p)
  then show ?thesis using assms(1) by (simp add: packed_entry_def plan_entry_def post_return)
qed

lemma packed_blocks_post:
  assumes v: "valid_id (rt_volume (x_root vol))" and st: "harmless stop"
  shows "same s t \<Longrightarrow> post (packed_blocks E vol end_at force stop ds pk)
    (\<lambda>pk' u. same s u \<and> plan_blocks dg force (vpage (objs s) B vol) (bpage (objs s) B vol) ds pk = Ok pk') (\<lambda>_. same s) t"
proof (induction ds arbitrary: t pk)
  case Nil
  then show ?case by (simp add: post_return)
next
  case (Cons d ds)
  obtain i b where d: "d = (i, b)" by force
  let ?pk = "plan_entry (vpage (objs s) B vol) (bpage (objs s) B vol) pk (i div SLOTS)"
  have rest: "post (io_bind (io_lift (packed_block dg force i b ?pk)) (packed_blocks E vol end_at force stop ds))
      (\<lambda>pk' u. same s u \<and> plan_blocks dg force (vpage (objs s) B vol) (bpage (objs s) B vol) (d # ds) pk = Ok pk') (\<lambda>_. same s) u" if "same s u" for u
    using Cons.IH [OF that] that by (auto simp: post_bind post_lift d res_bind_def split: result.split)
  show ?case
    unfolding d packed_blocks.simps
    by (intro same_step [OF deadline_same [OF Cons.prems]] same_step [OF check_cancel_same [OF st]])
       (auto simp: post_bind [of "packed_entry _ _ _ _"] d [symmetric] intro!: post_mono [OF packed_entry_post [OF _ v]] rest)
qed

lemma pack_groups_post:
  assumes st: "harmless stop"
  shows "same s t \<Longrightarrow> post (pack_groups E end_at stop groups uploads locations)
    (\<lambda>r u. same s u \<and> r = plan_groups dg groups uploads locations) (\<lambda>_. same s) t"
proof (induction groups arbitrary: t uploads locations)
  case Nil
  then show ?case by (simp add: post_return)
next
  case (Cons g groups)
  show ?case
    unfolding pack_groups.simps Let_def
    by (intro same_step [OF deadline_same [OF Cons.prems]] same_step [OF check_cancel_same [OF st]])
       (auto simp: pack_of_def dest: Cons.IH)
qed

lemma place_blocks_post:
  assumes st: "harmless stop"
  shows "same s t \<Longrightarrow> post (place_blocks stop locations changed pages)
    (\<lambda>r u. same s u \<and> plan_places locations changed pages = Ok r) (\<lambda>_. same s) t"
proof (induction changed arbitrary: t pages)
  case Nil
  then show ?case by (simp add: post_return)
next
  case (Cons c changed)
  obtain i h where c: "c = (i, h)" by force
  show ?case
    unfolding c place_blocks.simps
    by (intro same_step [OF check_cancel_same [OF st Cons.prems]])
       (auto simp: post_bind post_lift res_bind_def split: result.split dest: Cons.IH)
qed

lemma packed_pages_post:
  assumes st: "harmless stop"
  shows "same s t \<Longrightarrow> post (packed_pages E vol stop base_pages pages acc)
    (\<lambda>r u. same s u \<and> plan_pages dg vol base_pages pages acc = Ok r) (\<lambda>_. same s) t"
proof (induction pages arbitrary: t acc)
  case Nil
  then show ?case by (simp add: post_return)
next
  case (Cons p pages)
  obtain i q where p: "p = (i, q)" by force
  show ?case
    unfolding p packed_pages.simps
    by (intro same_step [OF check_cancel_same [OF st Cons.prems]])
       (auto simp: post_bind post_lift res_bind_def split: result.split dest: Cons.IH)
qed

lemma packed_plan_post:
  assumes t: "same s t" and v: "valid_id (rt_volume (x_root vol))" and st: "harmless stop"
  shows "post (packed_plan E vol nxt end_at force stop)
    (\<lambda>r u. same s u \<and> (\<exists>pl. commit_plan dg force vol (vpage (objs s) B vol) (bpage (objs s) B vol) (rt_pages nxt) = Ok pl
       \<and> r = (nxt\<lparr>rt_pages := pl_table pl\<rparr>, pl_uploads pl))) (\<lambda>_. same s) t"
  unfolding packed_plan_def post_bind
proof (rule post_mono [OF packed_blocks_post [OF v st t]])
  fix pk u
  assume "same s u \<and> plan_blocks dg force (vpage (objs s) B vol) (bpage (objs s) B vol) (x_dirty vol)
      \<lparr>pk_pages = [], pk_chunks = [], pk_changed = [], pk_base_pages = []\<rparr> = Ok pk"
  then have u: "same s u" and pk: "plan_blocks dg force (vpage (objs s) B vol) (bpage (objs s) B vol) (x_dirty vol) no_packing = Ok pk"
    by (simp_all add: no_packing_def)
  show "post (pack_groups E end_at stop (chunks_of (MAX_OBJECT_BYTES div CHUNK_BYTES) (pk_chunks pk)) [] [])
      (\<lambda>x. post (case x of (uploads, locations) \<Rightarrow>
          io_bind (place_blocks stop locations (pk_changed pk) (pk_pages pk)) (\<lambda>pages.
          io_bind (packed_pages E vol stop (pk_base_pages pk) pages (rt_pages nxt, uploads)) (\<lambda>(np, uploads').
            io_return (nxt\<lparr>rt_pages := np\<rparr>, uploads'))))
        (\<lambda>r u. same s u \<and> (\<exists>pl. commit_plan dg force vol (vpage (objs s) B vol) (bpage (objs s) B vol) (rt_pages nxt) = Ok pl
           \<and> r = (nxt\<lparr>rt_pages := pl_table pl\<rparr>, pl_uploads pl))) (\<lambda>_. same s)) (\<lambda>_. same s) u"
  proof (rule post_mono [OF pack_groups_post [OF st u]])
    fix x u
    assume x: "same s u \<and> x = plan_groups dg (chunks_of (MAX_OBJECT_BYTES div CHUNK_BYTES) (pk_chunks pk)) [] []"
    obtain packs locations where g: "x = (packs, locations)" by force
    have "post (place_blocks stop locations (pk_changed pk) (pk_pages pk))
        (\<lambda>x. post (packed_pages E vol stop (pk_base_pages pk) x (rt_pages nxt, packs))
          (\<lambda>x. post (case x of (np, uploads') \<Rightarrow> io_return (nxt\<lparr>rt_pages := np\<rparr>, uploads'))
            (\<lambda>r u. same s u \<and> (\<exists>pl. commit_plan dg force vol (vpage (objs s) B vol) (bpage (objs s) B vol) (rt_pages nxt) = Ok pl
               \<and> r = (nxt\<lparr>rt_pages := pl_table pl\<rparr>, pl_uploads pl))) (\<lambda>_. same s)) (\<lambda>_. same s)) (\<lambda>_. same s) u"
      using x g by (intro post_mono [OF place_blocks_post [OF st]] post_mono [OF packed_pages_post [OF st]])
         (auto simp: post_return commit_plan_def res_bind_def pk Let_def split: prod.splits)
    then show "post (case x of (uploads, locations) \<Rightarrow>
          io_bind (place_blocks stop locations (pk_changed pk) (pk_pages pk)) (\<lambda>pages.
          io_bind (packed_pages E vol stop (pk_base_pages pk) pages (rt_pages nxt, uploads)) (\<lambda>(np, uploads').
            io_return (nxt\<lparr>rt_pages := np\<rparr>, uploads'))))
        (\<lambda>r u. same s u \<and> (\<exists>pl. commit_plan dg force vol (vpage (objs s) B vol) (bpage (objs s) B vol) (rt_pages nxt) = Ok pl
           \<and> r = (nxt\<lparr>rt_pages := pl_table pl\<rparr>, pl_uploads pl))) (\<lambda>_. same s) u"
      unfolding g prod.case post_bind .
  qed
qed

text \<open>The two ways a commit ends.\<close>

definition committed :: "indexed \<Rightarrow> root \<Rightarrow> 's \<Rightarrow> nat \<Rightarrow> indexed \<times> 's \<Rightarrow> bool" where
  "committed vol nxt s g = (\<lambda>(vol', s'). ok s' \<and> objs_le (objs s) (objs s') \<and> x_inv vol' \<and> packed vol'
     \<and> x_complete dg (objs s') B vol' \<and> x_dirty vol' = [] \<and> x_poisoned vol' = x_poisoned vol \<and> x_size vol' = x_size vol
     \<and> rt_volume (x_root vol') = rt_volume (x_root vol) \<and> xdisk (objs s') B vol' = xdisk (objs s) B vol
     \<and> x_base vol' = x_base vol \<and> rt_base (x_root vol') = rt_base (x_root vol) \<and> g = rt_generation (x_root vol')
     \<and> rt_replication (x_root vol') = rt_replication nxt
     \<and> (x_root vol' = x_root vol \<and> x_revision vol' = x_revision vol \<and> heads s' = heads s
        \<or> g = rt_generation nxt \<and> replaced vol (x_root vol') (x_revision vol') s s' \<and> renamed vol (x_root vol') (x_revision vol') s))"

definition commit_failed :: "indexed \<Rightarrow> 's \<Rightarrow> verror \<Rightarrow> indexed \<times> 's \<Rightarrow> bool" where
  "commit_failed vol s e = (\<lambda>(vol', s'). ok s' \<and> objs_le (objs s) (objs s') \<and> x_complete dg (objs s') B vol
     \<and> xdisk (objs s') B vol = xdisk (objs s) B vol
     \<and> (vol' = vol \<and> heads s' = heads s
        \<or> vol' = vol\<lparr>x_poisoned := True\<rparr>
          \<and> (e = Conflict \<and> heads s' = heads s
             \<or> e = Uncertain \<and> (heads s' = heads s
                 \<or> (\<exists>nxt rv. successor vol (vol\<lparr>x_root := nxt, x_dirty := []\<rparr>) \<and> replaced vol nxt rv s s'
                      \<and> x_complete dg (objs s') B (vol\<lparr>x_root := nxt, x_dirty := []\<rparr>)
                      \<and> xdisk (objs s') B (vol\<lparr>x_root := nxt, x_dirty := []\<rparr>) = xdisk (objs s) B vol)))))"

lemma commit_failed_quiet:
  assumes "grows s s'" "x_complete dg (objs s) B vol"
  shows "commit_failed vol s e (vol, s')"
proof -
  have le: "objs_le (objs s) (objs s')" using assms(1) by (simp add: grows_def)
  show ?thesis
    using assms(1) complete_mono(1) [OF assms(2) le] complete_disk [OF assms(2) le] by (simp add: commit_failed_def grows_def)
qed

lemma clean_commit:
  assumes full: "x_complete dg (objs s) B vol" and pk: "packed vol" and inv: "x_inv vol" and t: "same s t"
    and plan: "commit_plan dg force vol (vpage (objs s) B vol) (bpage (objs s) B vol) (rt_pages (x_root vol)) = Ok pl"
    and U: "digest_sound dg (commit_objects dg force (objs s) B vol)" and clean: "pl_table pl = rt_pages (x_root vol)"
    and mark: "rt_replication nxt = rt_replication (x_root vol)"
  shows "committed vol nxt s (rt_generation (x_root vol)) (vol\<lparr>x_dirty := []\<rparr>, t)"
proof -
  have k: "known_objects (objs s) B vol \<subseteq> commit_objects dg force (objs s) B vol" "plan_objects pl \<subseteq> commit_objects dg force (objs s) B vol"
    using plan by (simp_all add: commit_objects_def)
  note blocks = commit_clean [OF full pk inv digest_valid plan U k clean]
  note cong = view_cong [of "vol\<lparr>x_dirty := []\<rparr>" vol, simplified]
  have "xblock (objs s) B (vol\<lparr>x_dirty := []\<rparr>) = xblock (objs s) B vol"
    using blocks by (simp add: xblock_def fun_eq_iff cong)
  then have "xdisk (objs s) B (vol\<lparr>x_dirty := []\<rparr>) = xdisk (objs s) B vol" by (simp add: xdisk_def x_size_def)
  moreover have "x_complete dg (objs s) B (vol\<lparr>x_dirty := []\<rparr>)"
    using full by (simp add: cong)
  ultimately show ?thesis
    using t inv pk mark by (simp add: committed_def same_def x_inv_def x_size_def packed_def)
qed

text \<open>The root of the plan, once its objects are stored.\<close>

lemma planned_commit:
  fixes rv :: string
  assumes full: "x_complete dg (objs s) B vol" and pk: "packed vol" and inv: "x_inv vol" and nxt: "next_root vol nxt"
    and plan: "commit_plan dg force vol (vpage (objs s) B vol) (bpage (objs s) B vol) (rt_pages (x_root vol)) = Ok pl"
    and U: "digest_sound dg (commit_objects dg force (objs s) B vol)"
    and t: "grows s t" "\<forall>(d, b) \<in> set (pl_uploads pl). objs t (rt_volume (x_root vol)) d = Some b"
  defines "vol' \<equiv> vol\<lparr>x_root := nxt\<lparr>rt_pages := pl_table pl\<rparr>, x_revision := rv, x_dirty := []\<rparr>"
  shows "x_complete dg (objs t) B vol'" "xdisk (objs t) B vol' = xdisk (objs s) B vol" "x_inv vol'" "packed vol'" "successor vol vol'"
proof -
  have k: "known_objects (objs s) B vol \<subseteq> commit_objects dg force (objs s) B vol" "plan_objects pl \<subseteq> commit_objects dg force (objs s) B vol"
    using plan by (simp_all add: commit_objects_def)
  show suc: "successor vol vol'" unfolding vol'_def by (rule next_root_successor [OF nxt pk])
  have le: "objs_le (objs s) (objs t)" using t(1) by (simp add: grows_def)
  have tab: "rt_pages (x_root vol') = pl_table pl" "x_dirty vol' = []" by (simp_all add: vol'_def)
  note c = commit_complete [OF full pk inv digest_valid plan U k suc le t(2) tab(1)]
  show "x_complete dg (objs t) B vol'" by (rule c(1))
  have "xblock (objs t) B vol' i = xblock (objs s) B vol i" for i
    using c(2) [of i] by (simp add: xblock_def [of _ _ vol'] tab(2))
  then have "xblock (objs t) B vol' = xblock (objs s) B vol" by (rule ext)
  then show "xdisk (objs t) B vol' = xdisk (objs s) B vol" using suc by (simp add: xdisk_def successor_def x_size_def)
  show "packed vol'" using suc pk by (simp add: successor_def)
  have n: "root_valid (rt_volume nxt) nxt" "rt_size nxt = rt_size (x_root vol)" "rt_volume nxt = rt_volume (x_root vol)" "rt_base nxt = rt_base (x_root vol)"
    using nxt unfolding next_root_def by blast+
  have "root_valid (rt_volume (x_root vol')) (x_root vol')"
    using n(1) planned_table_valid [OF full pk inv digest_valid plan U k] unfolding root_valid_def vol'_def by (simp add: n(2))
  moreover have "x_base vol' = x_base vol" "x_root vol' = nxt\<lparr>rt_pages := pl_table pl\<rparr>" by (simp_all add: vol'_def)
  moreover have "bt_ok (pl_table pl)" by (rule planned_facts(5) [OF full pk inv digest_valid plan U k])
  ultimately show "x_inv vol'"
    using inv by (simp add: x_inv_def tab n(2-4))
qed

lemma commit_packed_post:
  assumes s: "ok s" and full: "x_complete dg (objs s) B vol" and pk: "packed vol" and inv: "x_inv vol" and nxt: "next_root vol nxt"
    and n: "0 < concurrency" and cancel: "harmless cancel" and U: "digest_sound dg (commit_objects dg force (objs s) B vol)"
  shows "post (commit_packed E nxt end_at concurrency force cancel) (committed vol nxt s) (commit_failed vol s) (vol, s)"
proof -
  have v: "valid_id (rt_volume (x_root vol))" using inv by (simp add: x_inv_def)
  note st = harmless_stopped [OF cancel, of end_at]
  have quiet: "commit_failed vol s e (vol, t)" if "grows s t" for e t by (rule commit_failed_quiet [OF that full])
  have plan: "post (packed_plan E vol nxt end_at force (stopped E end_at cancel))
      (\<lambda>r u. same s u \<and> (\<exists>pl. commit_plan dg force vol (vpage (objs s) B vol) (bpage (objs s) B vol) (rt_pages (x_root vol)) = Ok pl
         \<and> r = (nxt\<lparr>rt_pages := pl_table pl\<rparr>, pl_uploads pl))) (\<lambda>_. same s) s"
    using packed_plan_post [OF same_refl [OF s] v st, of nxt end_at force] nxt by (simp add: next_root_def)
  have finish: "post (publish_cancellable E (nxt\<lparr>rt_pages := pl_table pl\<rparr>) end_at (stopped E end_at cancel))
      (committed vol nxt s) (commit_failed vol s) (vol, t)"
    if pl: "commit_plan dg force vol (vpage (objs s) B vol) (bpage (objs s) B vol) (rt_pages (x_root vol)) = Ok pl"
      and t: "grows s t" "\<forall>(d, b) \<in> set (pl_uploads pl). objs t (rt_volume (x_root vol)) d = Some b" for pl t
  proof (rule post_mono [OF publish_post [OF _ _ st, of t "nxt\<lparr>rt_pages := pl_table pl\<rparr>" end_at vol]])
    show "ok t" using t(1) by (simp add: grows_def)
    show "valid_id (rt_volume (nxt\<lparr>rt_pages := pl_table pl\<rparr>))" using v nxt by (simp add: next_root_def)
    note pc = planned_commit [OF full pk inv nxt pl U]
    have hs: "heads t = heads s" "objs_le (objs s) (objs t)" using t(1) by (simp_all add: grows_def)
    fix g w
    assume "publish_done vol (nxt\<lparr>rt_pages := pl_table pl\<rparr>) t g w"
    then obtain vol' s' rv where w: "w = (vol', s')" "ok s'" "objs s' = objs t" "g = rt_generation nxt"
        "vol' = vol\<lparr>x_root := nxt\<lparr>rt_pages := pl_table pl\<rparr>, x_revision := rv, x_dirty := []\<rparr>" "replaced vol (x_root vol') rv t s'"
        "renamed vol (x_root vol') rv t"
      by (auto simp: publish_done_def)
    then show "committed vol nxt s g w"
      using pc [OF t, of rv] hs by (auto simp: committed_def replaced_def renamed_def successor_def x_size_def)
  next
    note pc = planned_commit [OF full pk inv nxt pl U]
    have hs: "heads t = heads s" "objs_le (objs s) (objs t)" using t(1) by (simp_all add: grows_def)
    fix e w
    assume f: "publish_failed vol (nxt\<lparr>rt_pages := pl_table pl\<rparr>) t e w"
    obtain vol' s' where w: "w = (vol', s')" by force
    have s': "ok s'" "objs s' = objs t" using f by (auto simp: publish_failed_def w)
    have keep: "x_complete dg (objs s') B vol" "xdisk (objs s') B vol = xdisk (objs s) B vol"
      using complete_mono(1) [OF full hs(2)] complete_disk [OF full hs(2)] s'(2) by simp_all
    let ?n = "nxt\<lparr>rt_pages := pl_table pl\<rparr>"
    have new: "successor vol (vol\<lparr>x_root := ?n, x_dirty := []\<rparr>)" "x_complete dg (objs s') B (vol\<lparr>x_root := ?n, x_dirty := []\<rparr>)"
        "xdisk (objs s') B (vol\<lparr>x_root := ?n, x_dirty := []\<rparr>) = xdisk (objs s) B vol"
      using pc [OF t, of "x_revision vol"] s'(2) by simp_all
    have rep: "replaced vol ?n rv t s' \<Longrightarrow> replaced vol ?n rv s s'" for rv using hs(1) by (simp add: replaced_def)
    show "commit_failed vol s e w"
      using f s' keep hs new rep unfolding w commit_failed_def publish_failed_def by auto
  qed
  show ?thesis
    unfolding commit_packed_def post_bind post_get_self fst_conv post_lift_world
  proof (rule post_mono [OF plan])
    fix e t
    assume "same s t"
    then show "commit_failed vol s e (vol, t)" by (intro quiet same_grows)
  next
    fix r t
    assume "same s t \<and> (\<exists>pl. commit_plan dg force vol (vpage (objs s) B vol) (bpage (objs s) B vol) (rt_pages (x_root vol)) = Ok pl
         \<and> r = (nxt\<lparr>rt_pages := pl_table pl\<rparr>, pl_uploads pl))"
    then obtain pl where t: "same s t" and pl: "commit_plan dg force vol (vpage (objs s) B vol) (bpage (objs s) B vol) (rt_pages (x_root vol)) = Ok pl"
      and r: "r = (nxt\<lparr>rt_pages := pl_table pl\<rparr>, pl_uploads pl)" by blast
    have up: "post (upload_objects E vol (pl_uploads pl) end_at concurrency (stopped E end_at cancel))
        (\<lambda>_ u. grows s u \<and> (\<forall>(d, b) \<in> set (pl_uploads pl). objs u (rt_volume (x_root vol)) d = Some b)) (\<lambda>_ u. grows s u) t"
      by (rule post_mono [OF upload_objects_post [OF same_ok [OF t] v n st]]) (auto intro: grows_trans [OF same_grows [OF t]])
    show "post (case r of (nxt', uploads) \<Rightarrow>
        if clean_flush vol nxt' then io_bind (set_self (vol\<lparr>x_dirty := []\<rparr>)) (\<lambda>_. io_return (rt_generation (x_root vol)))
        else io_bind (lift_world (upload_objects E vol uploads end_at concurrency (stopped E end_at cancel)))
          (\<lambda>_. publish_cancellable E nxt' end_at (stopped E end_at cancel)))
      (committed vol nxt s) (commit_failed vol s) (vol, t)"
    proof (cases "clean_flush vol (nxt\<lparr>rt_pages := pl_table pl\<rparr>)")
      case True
      then have "pl_table pl = rt_pages (x_root vol)" "rt_replication nxt = rt_replication (x_root vol)" by (simp_all add: clean_flush_def)
      then show ?thesis
        using True clean_commit [OF full pk inv t pl U, of nxt] by (simp add: r post_simps)
    next
      case False
      then show ?thesis
        unfolding r prod.case if_not_P [OF False] post_bind post_lift_world
        by (intro post_mono [OF up]) (auto intro: finish [OF pl] quiet)
    qed
  qed
qed

end

end
