(* ===== verification/Compaction.thy ===== *)
theory Compaction
  imports Indexed
begin

text \<open>
  Repacking of the packs of one index page (\<open>compact_packs\<close> in
  \<open>rust/ahvm-volume/src/indexed.rs\<close> and the cursors of \<open>reclaim.rs\<close>).
\<close>

record compaction_cursor =
  cc_page :: nat
  cc_after_pack :: "string option"

record compaction =
  cp_rewritten_blocks :: nat
  cp_next_page :: "compaction_cursor option"

type_synonym pack_entry = "nat \<times> nat \<times> string"

text \<open>The slots of a page that point into packs, grouped by pack.\<close>

fun group_entries :: "bytes \<Rightarrow> nat \<Rightarrow> nat list \<Rightarrow> (string, pack_entry list) btree \<Rightarrow> ((string, pack_entry list) btree, verror) result" where
  "group_entries page pi [] groups = Ok groups"
| "group_entries page pi (within # rest) groups =
     (let index = pi * SLOTS + within in
      case object_slot page index of
        None \<Rightarrow> group_entries page pi rest groups
      | Some (pack, offset) \<Rightarrow>
          res_bind (ok_or Corrupt (page_slot page index)) (\<lambda>chunk.
            if pack \<noteq> chunk
            then group_entries page pi rest
              (bt_insert pack ((case bt_get groups pack of None \<Rightarrow> [] | Some es \<Rightarrow> es) @ [(index, offset, chunk)]) groups)
            else group_entries page pi rest groups))"

text \<open>\<open>bytes.get(offset..offset + CHUNK_BYTES)\<close>.\<close>

definition get_block :: "bytes \<Rightarrow> nat \<Rightarrow> (bytes, verror) result" where
  "get_block bs offset =
     (case checked_add offset CHUNK_BYTES of
        None \<Rightarrow> Err Corrupt
      | Some e \<Rightarrow> if length bs < e then Err Corrupt else Ok (slice_of bs offset e))"

fun verify_entries :: "(bytes \<Rightarrow> string) \<Rightarrow> 's cancel \<Rightarrow> bytes \<Rightarrow> pack_entry list \<Rightarrow> (nat \<times> string, unit) btree \<Rightarrow> ('s, unit, verror) io" where
  "verify_entries dg cancel bs [] verified = io_return ()"
| "verify_entries dg cancel bs ((_, offset, hash) # es) verified =
     io_bind (check_cancel cancel) (\<lambda>_.
     io_bind (io_lift (get_block bs offset)) (\<lambda>chunk.
       if bt_get verified (offset, hash) = None \<and> dg chunk \<noteq> hash then io_throw Corrupt
       else verify_entries dg cancel bs es (bt_insert (offset, hash) () verified)))"

fun rewrite_entries :: "(bytes \<Rightarrow> string) \<Rightarrow> bytes \<Rightarrow> pack_entry list \<Rightarrow> (nat, bytes) btree \<Rightarrow> ((nat, bytes) btree, verror) result" where
  "rewrite_entries dg bs [] dirty = Ok dirty"
| "rewrite_entries dg bs ((index, offset, hash) # es) dirty =
     res_bind (get_block bs offset) (\<lambda>chunk.
       if dg chunk \<noteq> hash then Err Corrupt else rewrite_entries dg bs es (bt_insert index chunk dirty))"

record repack =
  rk_consumed :: nat
  rk_completed :: "string option"
  rk_cursor :: "compaction_cursor option"
  rk_dirty :: "(nat, bytes) btree"

fun compact_groups ::
  "'s ix_env \<Rightarrow> indexed \<Rightarrow> 's cancel \<Rightarrow> nat \<Rightarrow> nat \<Rightarrow> string option \<Rightarrow> (string \<times> pack_entry list) list \<Rightarrow> repack \<Rightarrow> ('s, repack, verror) io" where
  "compact_groups E vol cancel budget pi resume [] st = io_return st"
| "compact_groups E vol cancel budget pi resume ((pack, entries) # groups) st =
     (if (case resume of None \<Rightarrow> False | Some h \<Rightarrow> pack \<le> h) then compact_groups E vol cancel budget pi resume groups st
      else
        io_bind (check_cancel cancel) (\<lambda>_.
          if budget < rk_consumed st + MAX_OBJECT_BYTES + CHUNK_BYTES
          then io_return (st\<lparr>rk_cursor := Some \<lparr>cc_page = pi, cc_after_pack = rk_completed st\<rparr>\<rparr>)
          else
            io_bind (os_chunk (ix_os E) (rt_volume (x_root vol)) pack) (\<lambda>bs.
              if MAX_OBJECT_BYTES < length bs \<or> length bs mod CHUNK_BYTES \<noteq> 0 \<or> c_digest (ix_codec E) bs \<noteq> pack
              then io_throw Corrupt
              else if length bs < CHUNK_BYTES then io_throw Corrupt
              else
                io_bind (verify_entries (c_digest (ix_codec E)) cancel bs entries []) (\<lambda>_.
                  let consumed = rk_consumed st + length bs in
                  if length bs \<le> length (remdups (map (\<lambda>(_, offset, _). offset) entries)) * CHUNK_BYTES
                  then compact_groups E vol cancel budget pi resume groups
                    (st\<lparr>rk_consumed := consumed, rk_completed := Some pack\<rparr>)
                  else
                    (let available = (budget - consumed) div CHUNK_BYTES;
                         taken = take available entries in
                     io_bind (io_lift (rewrite_entries (c_digest (ix_codec E)) bs taken (rk_dirty st))) (\<lambda>dirty.
                       let st' = st\<lparr>rk_consumed := consumed + length taken * CHUNK_BYTES, rk_dirty := dirty\<rparr> in
                       if available < length entries
                       then io_return (st'\<lparr>rk_cursor := Some \<lparr>cc_page = pi, cc_after_pack = rk_completed st\<rparr>\<rparr>)
                       else compact_groups E vol cancel budget pi resume groups (st'\<lparr>rk_completed := Some pack\<rparr>)))))))"

definition valid_cursor :: "indexed \<Rightarrow> compaction_cursor option \<Rightarrow> bool" where
  "valid_cursor vol after =
     (case after of
        None \<Rightarrow> True
      | Some c \<Rightarrow> cc_page c < div_ceil (x_size vol div CHUNK_BYTES) SLOTS
          \<and> (case cc_after_pack c of None \<Rightarrow> True | Some h \<Rightarrow> valid_hash h))"

definition compact_commit :: "'s ix_env \<Rightarrow> 's cancel \<Rightarrow> (indexed \<times> 's, unit, verror) io" where
  "compact_commit E cancel =
     io_bind get_self (\<lambda>vol.
       if x_dirty vol = [] then io_return ()
       else
         (\<lambda>(v, s).
            case cancel s of
              (True, s') \<Rightarrow> (Err Deadline, v\<lparr>x_dirty := []\<rparr>, s')
            | (False, s') \<Rightarrow>
                io_bind (io_lift (ok_or Corrupt (checked_add (rt_generation (x_root vol)) 1))) (\<lambda>g.
                io_bind (lift_world (ix_clock E)) (\<lambda>t.
                io_bind (commit_packed E ((x_root vol)\<lparr>rt_generation := g\<rparr>) (t + BUDGET) WORKERS True cancel) (\<lambda>_.
                  io_return ()))) (v, s')))"

definition compact_packs_inner ::
  "'s ix_env \<Rightarrow> compaction_cursor option \<Rightarrow> nat \<Rightarrow> 's cancel \<Rightarrow> (indexed \<times> 's, compaction, verror) io" where
  "compact_packs_inner E after budget cancel =
     io_bind get_self (\<lambda>vol.
     io_bind (io_lift (x_check vol 0 0)) (\<lambda>_.
       if \<not> valid_cursor vol after then io_throw InvalidInput
       else if x_dirty vol \<noteq> [] \<or> \<not> (2 * MAX_OBJECT_BYTES \<le> budget \<and> budget \<le> 8 * MAX_OBJECT_BYTES) then io_throw InvalidInput
       else if \<not> packed vol then io_return \<lparr>cp_rewritten_blocks = 0, cp_next_page = None\<rparr>
       else
         (case find (\<lambda>(index, _). case after of None \<Rightarrow> True | Some c \<Rightarrow> cc_page c \<le> index) (rt_pages (x_root vol)) of
            None \<Rightarrow> io_return \<lparr>cp_rewritten_blocks = 0, cp_next_page = None\<rparr>
          | Some (pi, _) \<Rightarrow>
              io_bind (lift_world (check_cancel cancel)) (\<lambda>_.
              io_bind (lift_world (x_page E vol pi)) (\<lambda>page.
              io_bind (io_lift (group_entries page pi [0..<SLOTS] [])) (\<lambda>groups.
                let resume = (case after of None \<Rightarrow> None | Some c \<Rightarrow> if cc_page c = pi then cc_after_pack c else None) in
                io_bind (lift_world (compact_groups E vol cancel budget pi resume groups
                    \<lparr>rk_consumed = 0, rk_completed = resume, rk_cursor = None, rk_dirty = []\<rparr>)) (\<lambda>st.
                io_bind (set_self (vol\<lparr>x_dirty := rk_dirty st\<rparr>)) (\<lambda>_.
                io_bind (compact_commit E cancel) (\<lambda>_.
                io_bind get_self (\<lambda>vol2.
                  io_return \<lparr>cp_rewritten_blocks = length (rk_dirty st),
                    cp_next_page = (case rk_cursor st of
                        Some c \<Rightarrow> Some c
                      | None \<Rightarrow> map_option (\<lambda>(p, _). \<lparr>cc_page = p, cc_after_pack = None\<rparr>)
                          (find (\<lambda>(index, _). pi < index) (rt_pages (x_root vol2))))\<rparr>))))))))))"

definition compact_packs ::
  "'s ix_env \<Rightarrow> compaction_cursor option \<Rightarrow> nat \<Rightarrow> 's cancel \<Rightarrow> (indexed \<times> 's, compaction, verror) io" where
  "compact_packs E after budget cancel =
     io_bind get_self (\<lambda>vol.
     io_bind (io_lift (x_check vol 0 0)) (\<lambda>_.
       if x_dirty vol \<noteq> [] then io_throw InvalidInput
       else
         (\<lambda>vs.
            case compact_packs_inner E after budget cancel vs of
              (Ok c, vs') \<Rightarrow> (Ok c, vs')
            | (Err e, (v, s)) \<Rightarrow> (Err e, (v\<lparr>x_dirty := []\<rparr>, s)))))"

end
