(* ===== verification/Indexed_S3.thy ===== *)
theory Indexed_S3
  imports Indexed_Disk
begin

text \<open>
  Indexed volumes over the S3 adapter: the store of \<open>rust/ahvm-volume/src/s3.rs\<close>, with
  the shared base images below the \<open>bases\<close> prefix of the same service, provides the
  interface \<open>indexed_store\<close>. Uploads and publications of a volume never touch a base
  image, so the view of the bases is constant.
\<close>

section \<open>Base images beside the volumes\<close>

definition base_config :: "s3_config \<Rightarrow> s3_config" where
  "base_config cf = cf\<lparr>s3_prefix := s3_prefix cf @ ''/bases''\<rparr>"

definition s3_base_view :: "s3_config \<Rightarrow> ('s \<Rightarrow> string \<Rightarrow> (string \<times> bytes) option) \<Rightarrow> 's \<Rightarrow> base_view" where
  "s3_base_view cf sview s img h = (if valid_hash img then s3_objs (base_config cf) sview s img h else None)"

text \<open>The invariant of the service together with the contents of the base images.\<close>

definition with_bases :: "s3_config \<Rightarrow> ('s \<Rightarrow> string \<Rightarrow> (string \<times> bytes) option) \<Rightarrow> ('s \<Rightarrow> bool) \<Rightarrow> base_view \<Rightarrow> 's \<Rightarrow> bool" where
  "with_bases cf sview ok B s \<longleftrightarrow> ok s \<and> s3_base_view cf sview s = B"

lemma valid_hash_id: "valid_hash h \<Longrightarrow> valid_id h"
  by (force simp: valid_id_def valid_hash_def list_all_iff ascii_alphanumeric_def ascii_digit_def char_le_iff)

lemma base_url: "s3_url (base_config cf) img suffix = s3_url cf ''bases'' (img @ ''/'' @ suffix)"
  by (simp add: s3_url_def base_config_def)

lemma bases_id: "valid_id ''bases''"
  by (simp add: valid_id_def ascii_alphanumeric_def ascii_digit_def)

lemma base_url_apart:
  assumes "valid_hash img" "valid_id v" "s3_suffix suffix"
  shows "s3_url (base_config cf) img sfx \<noteq> s3_url cf v suffix"
proof
  assume "s3_url (base_config cf) img sfx = s3_url cf v suffix"
  then have eq: "img @ CHR ''/'' # sfx = suffix"
    using s3_url_inject [OF bases_id assms(2)] by (auto simp: base_url)
  have len: "length img = 64" and ns: "CHR ''/'' \<notin> set img"
    using assms(1) valid_id_no_slash [OF valid_hash_id] by (auto simp: valid_hash_def)
  show False
    using assms(3) unfolding s3_suffix_def
  proof (elim disjE exE conjE)
    assume "suffix = ''head.json''"
    then have "length (img @ CHR ''/'' # sfx) = 9" using eq by simp
    then show False using len by simp
  next
    fix d
    assume "suffix = ''chunks/'' @ d"
    then have "''chunks'' = img" using eq slash_split [of "''chunks''" img d sfx] ns by auto
    then show False using len by auto
  qed
qed

lemma s3_base_view_cong: "sview s' = sview s \<Longrightarrow> s3_base_view cf sview s' = s3_base_view cf sview s"
  by (simp add: s3_base_view_def s3_objs_def fun_eq_iff)

lemma with_bases_cong: "with_bases cf sview ok B s \<Longrightarrow> ok s' \<Longrightarrow> sview s' = sview s \<Longrightarrow> with_bases cf sview ok B s'"
  by (simp add: with_bases_def s3_base_view_cong [of sview s' s])

lemma s3_base_view_stored:
  assumes "s3_stored (sview s) (sview s') (s3_url cf v suffix) expected b tag" "valid_id v" "s3_suffix suffix"
  shows "s3_base_view cf sview s' = s3_base_view cf sview s"
  using assms base_url_apart [OF _ assms(2,3), of _ cf]
  by (auto simp: s3_base_view_def s3_objs_def s3_stored_def fun_eq_iff)

section \<open>The interface\<close>

locale s3_indexed = s3_service env cf sview ok + bases: s3_service env "base_config cf" sview ok
  for env :: "'s s3_env" and cf :: s3_config and sview :: "'s \<Rightarrow> string \<Rightarrow> (string \<times> bytes) option" and ok :: "'s \<Rightarrow> bool" +
  fixes cd :: "root codec" and now :: "'s \<Rightarrow> nat \<times> 's" and sched :: "'s \<Rightarrow> nat list"
  assumes clock: "ok s \<Longrightarrow> now s = (t, s') \<Longrightarrow> ok s' \<and> sview s' = sview s"
    and root_codec: "codec_ok root_wf cd"
begin

lemma frozen: "s3_service env cf sview (with_bases cf sview ok B)"
proof
  fix s v suffix url r s'
  assume a: "with_bases cf sview ok B s" "valid_id v" "s3_suffix suffix" "url = s3_url cf v suffix" "e_send env GET url [] [] s = (r, s')"
  then show "with_bases cf sview ok B s' \<and> sview s' = sview s
      \<and> (\<forall>resp. r = Some resp \<longrightarrow>
           (r_status resp = 404 \<longrightarrow> sview s url = None)
           \<and> (r_status resp = 200 \<longrightarrow>
                (\<exists>tag bs. sview s url = Some (tag, bs) \<and> r_etag resp = Some tag
                   \<and> (\<forall>b. r_body resp = Some b \<longrightarrow> b = bs))))"
    using get_law [OF _ a(2-5)] s3_base_view_cong [of sview s' s cf] by (auto simp: with_bases_def)
next
  fix s v suffix url expected b r s'
  assume a: "with_bases cf sview ok B s" "valid_id v" "s3_suffix suffix" "url = s3_url cf v suffix"
    "e_send env PUT url [s3_condition expected] b s = (r, s')"
  have ok: "ok s" "s3_base_view cf sview s = B" using a(1) by (simp_all add: with_bases_def)
  note law = put_law [OF ok(1) a(2-5)]
  have "sview s' = sview s \<or> (\<exists>tag. s3_stored (sview s) (sview s') url expected b tag)"
    using law by (auto split: option.splits if_splits)
  then have "s3_base_view cf sview s' = B"
    using ok(2) s3_base_view_cong [of sview s' s cf] s3_base_view_stored [OF _ a(2,3)] a(4) by auto
  then show "with_bases cf sview ok B s' \<and>
      (case r of
         Some resp \<Rightarrow>
           if r_status resp = 200
           then \<exists>tag. s3_stored (sview s) (sview s') url expected b tag \<and> (\<forall>t. r_etag resp = Some t \<longrightarrow> t = tag)
           else if r_status resp = 412 then sview s' = sview s
           else sview s' = sview s \<or> (\<exists>tag. s3_stored (sview s) (sview s') url expected b tag)
       | None \<Rightarrow> sview s' = sview s \<or> (\<exists>tag. s3_stored (sview s) (sview s') url expected b tag))"
    using law by (simp add: with_bases_def)
qed

text \<open>The volume's view of the service.\<close>

definition ixe :: "'s ix_env" where
  "ixe = \<lparr>ix_codec = cd, ix_os = s3_store env cf, ix_now = now, ix_sched = sched\<rparr>"

lemma base_chunk_post:
  assumes "with_bases cf sview ok B s"
  shows "post (s3_base_chunk env cf img h off)
    (\<lambda>b s'. with_bases cf sview ok B s' \<and> sview s' = sview s \<and> B img h = Some b)
    (\<lambda>_ s'. with_bases cf sview ok B s' \<and> sview s' = sview s) s"
proof (cases "valid_hash img \<and> s3_bases cf = Ok (base_config cf)")
  case False
  then show ?thesis
    using assms
    by (auto simp: s3_base_chunk_def hash_decode_def s3_bases_def base_config_def Let_def post_simps split: if_splits)
next
  case True
  have ok: "ok s" "s3_base_view cf sview s = B" using assms by (simp_all add: with_bases_def)
  have "post (s3_chunk env (base_config cf) img h)
      (\<lambda>b s'. with_bases cf sview ok B s' \<and> sview s' = sview s \<and> B img h = Some b)
      (\<lambda>_ s'. with_bases cf sview ok B s' \<and> sview s' = sview s) s"
  proof (rule post_mono [OF bases.chunk_post [OF ok(1) valid_hash_id]])
    show "valid_hash img" using True by simp
    fix b s'
    assume "ok s' \<and> sview s' = sview s \<and> s3_objs (base_config cf) sview s img h = Some b"
    then show "with_bases cf sview ok B s' \<and> sview s' = sview s \<and> B img h = Some b"
      using with_bases_cong [OF assms] True unfolding ok(2) [symmetric] by (simp add: s3_base_view_def)
  qed (use with_bases_cong [OF assms] in blast)
  then show ?thesis using True by (simp add: s3_base_chunk_def hash_decode_def post_simps)
qed

lemma publish_no_deadline: "post (s3_publish env cf v expected m) (\<lambda>_ _. True) (\<lambda>e _. e \<noteq> Deadline) s"
  by (auto simp: s3_publish_def s3_key_def post_def io_bind_def io_lift_def io_throw_def io_map_err_def
      split: prod.splits result.splits)

end

sublocale s3_indexed \<subseteq> indexed: indexed_store ixe "s3_heads cf sview" "s3_objs cf sview" "with_bases cf sview ok B" B for B
proof (intro indexed_store.intro indexed_store_axioms.intro)
  note svc = frozen [of B]
  note same = s3_service.views_cong [OF svc]
  show "object_store_laws (ix_os ixe) (s3_heads cf sview) (s3_objs cf sview) (with_bases cf sview ok B)"
    using s3_service.s3_laws [OF svc] by (simp add: ixe_def)
  show "codec_ok root_wf (ix_codec ixe)" using root_codec by (simp add: ixe_def)
  fix s :: 's and v d b img h off ds t s' expected m and cancel :: "'s cancel"
  assume ok: "with_bases cf sview ok B s"
  show "post (os_base_chunk (ix_os ixe) img h off)
      (\<lambda>b s'. with_bases cf sview ok B s' \<and> s3_heads cf sview s' = s3_heads cf sview s \<and> s3_objs cf sview s' = s3_objs cf sview s \<and> B img h = Some b)
      (\<lambda>_ s'. with_bases cf sview ok B s' \<and> s3_heads cf sview s' = s3_heads cf sview s \<and> s3_objs cf sview s' = s3_objs cf sview s) s"
    unfolding ixe_def s3_store_def ix_env.simps object_store.simps
    by (rule post_mono [OF base_chunk_post [OF ok]]) (use same in blast)+
  show "s3_objs cf sview s v d = Some b" if "os_cached_chunk (ix_os ixe) v d s = Some b"
    using that by (simp add: ixe_def s3_store_def default_cached_chunk_def)
  show "with_bases cf sview ok B s' \<and> s3_heads cf sview s' = s3_heads cf sview s \<and> s3_objs cf sview s' = s3_objs cf sview s"
    if "os_prefetch (ix_os ixe) v ds s = s'"
    using that ok by (simp add: ixe_def s3_store_def default_prefetch_def)
  show "with_bases cf sview ok B s' \<and> s3_heads cf sview s' = s3_heads cf sview s \<and> s3_objs cf sview s' = s3_objs cf sview s"
    if "os_prefetch_base (ix_os ixe) img ds s = s'"
    using that ok by (simp add: ixe_def s3_store_def default_prefetch_def)
  show "with_bases cf sview ok B s' \<and> s3_heads cf sview s' = s3_heads cf sview s \<and> s3_objs cf sview s' = s3_objs cf sview s"
    if "ix_now ixe s = (t, s')"
  proof -
    have "ok s' \<and> sview s' = sview s" using clock [of s t s'] that ok by (simp add: ixe_def with_bases_def)
    then show ?thesis using with_bases_cong [OF ok] same by blast
  qed
  assume v: "valid_id v"
    and c: "\<And>t c t'. with_bases cf sview ok B t \<Longrightarrow> cancel t = (c, t') \<Longrightarrow>
      with_bases cf sview ok B t' \<and> s3_heads cf sview t' = s3_heads cf sview t \<and> s3_objs cf sview t' = s3_objs cf sview t"
  have q: "s3_service.quiet_cancel cf sview (with_bases cf sview ok B) cancel"
    using c surjective_pairing by (metis s3_service.quiet_cancel_def [OF svc])
  show "post (os_put_chunk_cancellable (ix_os ixe) v d b cancel)
        (\<lambda>_ s'. with_bases cf sview ok B s' \<and> s3_heads cf sview s' = s3_heads cf sview s
           \<and> objs_le (s3_objs cf sview s) (s3_objs cf sview s') \<and> s3_objs cf sview s' v d = Some b)
        (\<lambda>_ s'. with_bases cf sview ok B s' \<and> s3_heads cf sview s' = s3_heads cf sview s
           \<and> objs_le (s3_objs cf sview s) (s3_objs cf sview s')) s"
    unfolding ixe_def s3_store_def ix_env.simps object_store.simps
    by (rule post_mono [OF s3_service.put_post [OF svc ok v q]]) auto
  have pub: "post (s3_publish env cf v expected m)
      (\<lambda>rev s'. with_bases cf sview ok B s' \<and> s3_objs cf sview s' = s3_objs cf sview t \<and> map_option h_revision (s3_heads cf sview t v) = expected
         \<and> s3_heads cf sview s' = (s3_heads cf sview t)(v \<mapsto> \<lparr>h_revision = rev, h_manifest = m\<rparr>)
         \<and> (\<forall>h. s3_heads cf sview t v = Some h \<and> h_manifest h \<noteq> m \<longrightarrow> rev \<noteq> h_revision h))
      (\<lambda>e s'. with_bases cf sview ok B s' \<and> s3_objs cf sview s' = s3_objs cf sview t
         \<and> (s3_heads cf sview s' = s3_heads cf sview t
            \<or> e \<noteq> Conflict \<and> e \<noteq> Deadline \<and> map_option h_revision (s3_heads cf sview t v) = expected
              \<and> (\<exists>rev. s3_heads cf sview s' = (s3_heads cf sview t)(v \<mapsto> \<lparr>h_revision = rev, h_manifest = m\<rparr>)))) t"
    if "with_bases cf sview ok B t" for t
    by (rule post_mono [OF post_conj [OF s3_service.publish_post [OF svc that v] publish_no_deadline]]) auto
  show "post (os_publish_cancellable (ix_os ixe) v expected m cancel)
        (\<lambda>rev s'. with_bases cf sview ok B s' \<and> s3_objs cf sview s' = s3_objs cf sview s \<and> map_option h_revision (s3_heads cf sview s v) = expected
           \<and> s3_heads cf sview s' = (s3_heads cf sview s)(v \<mapsto> \<lparr>h_revision = rev, h_manifest = m\<rparr>)
           \<and> (\<forall>h. s3_heads cf sview s v = Some h \<and> h_manifest h \<noteq> m \<longrightarrow> rev \<noteq> h_revision h))
        (\<lambda>e s'. with_bases cf sview ok B s' \<and> s3_objs cf sview s' = s3_objs cf sview s
           \<and> (s3_heads cf sview s' = s3_heads cf sview s
              \<or> e \<noteq> Conflict \<and> e \<noteq> Deadline \<and> map_option h_revision (s3_heads cf sview s v) = expected
                \<and> (\<exists>rev. s3_heads cf sview s' = (s3_heads cf sview s)(v \<mapsto> \<lparr>h_revision = rev, h_manifest = m\<rparr>)))) s"
  proof -
    have cc: "post (check_cancel cancel)
        (\<lambda>_ t. with_bases cf sview ok B t \<and> s3_heads cf sview t = s3_heads cf sview s \<and> s3_objs cf sview t = s3_objs cf sview s)
        (\<lambda>_ t. with_bases cf sview ok B t \<and> s3_heads cf sview t = s3_heads cf sview s \<and> s3_objs cf sview t = s3_objs cf sview s) s"
      using c [OF ok] by (auto simp: check_cancel_def post_def split: prod.splits)
    show ?thesis
      unfolding ixe_def s3_store_def ix_env.simps object_store.simps default_publish_cancellable_def post_bind
      by (rule post_mono [OF cc]) (auto dest!: pub)
  qed
qed

end
