(* ===== verification/Indexed_Ops.thy ===== *)
theory Indexed_Ops
  imports Packed_Commit Compaction Indexed_S3
begin

text \<open>
  The operations of an indexed volume with packed pages, end to end: a write changes the
  disk like a write to a byte array, even when it has to commit first; every commit keeps
  the disk; repacking keeps the disk. The properties at the end hold for every store that
  provides \<open>indexed_store\<close>, and the S3 adapter does.
\<close>

lemma xdisk_cong:
  assumes "x_root v' = x_root v" "x_base v' = x_base v" "x_dirty v' = x_dirty v"
  shows "xdisk X B v' = xdisk X B v"
proof -
  have "xblock X B v' = xblock X B v"
    unfolding xblock_def fun_eq_iff assms(3) view_cong(3) [OF assms(1,2)] by simp
  then show ?thesis by (simp add: xdisk_def x_size_def assms(1))
qed

text \<open>The catalog of a base image, as the view of the images has it.\<close>

definition base_catalog :: "(bytes \<Rightarrow> string) \<Rightarrow> base_view \<Rightarrow> base_ref \<Rightarrow> catalog \<Rightarrow> bool" where
  "base_catalog dg B r c \<longleftrightarrow> (\<exists>raw bs. hash_decode (b_image r) = Ok raw \<and> B (b_image r) (b_catalog r) = Some bs \<and> catalog_decode dg r raw bs = Ok c)"

lemma base_catalog_unique: "base_catalog dg B r c \<Longrightarrow> base_catalog dg B r c' \<Longrightarrow> c = c'"
  by (auto simp: base_catalog_def)

lemma base_catalog_ok: "base_catalog dg B r c \<Longrightarrow> catalog_ok c"
  unfolding base_catalog_def using catalog_decode_Ok by blast

text \<open>The entries of a page that compaction looks at, and the blocks that it rewriting.\<close>

definition entry_ok :: "bytes \<Rightarrow> nat \<Rightarrow> string \<Rightarrow> pack_entry \<Rightarrow> bool" where
  "entry_ok page pi pack = (\<lambda>(index, offset, chunk). index div SLOTS = pi \<and> object_slot page index = Some (pack, offset)
     \<and> page_slot page index = Some chunk \<and> pack \<noteq> chunk)"

definition groups_ok :: "bytes \<Rightarrow> nat \<Rightarrow> (string \<times> pack_entry list) list \<Rightarrow> bool" where
  "groups_ok page pi groups \<longleftrightarrow> (\<forall>(pack, es) \<in> set groups. \<forall>e \<in> set es. entry_ok page pi pack e)"

lemma group_entries_ok:
  "group_entries page pi ws groups = Ok groups' \<Longrightarrow> \<forall>w \<in> set ws. w < SLOTS \<Longrightarrow> bt_ok groups \<Longrightarrow> groups_ok page pi groups \<Longrightarrow> groups_ok page pi groups'"
proof (induction ws arbitrary: groups)
  case Nil
  then show ?case by simp
next
  case (Cons w ws)
  let ?i = "pi * SLOTS + w"
  show ?case
  proof (cases "object_slot page ?i")
    case None
    then show ?thesis using Cons by simp
  next
    case (Some po)
    obtain pack offset where po: "po = (pack, offset)" by force
    obtain chunk where chunk: "page_slot page ?i = Some chunk"
      using Cons.prems(1) Some po by (cases "page_slot page ?i") (auto simp: res_bind_def)
    show ?thesis
    proof (cases "pack = chunk")
      case True
      then show ?thesis using Cons Some po chunk by (simp add: res_bind_def)
    next
      case False
      define old where "old = (case bt_get groups pack of None \<Rightarrow> [] | Some es \<Rightarrow> es)"
      let ?g = "bt_insert pack (old @ [(?i, offset, chunk)]) groups"
      have run: "group_entries page pi ws ?g = Ok groups'" using Cons.prems(1) Some po chunk False by (simp add: res_bind_def old_def)
      have "\<forall>e \<in> set old. entry_ok page pi pack e"
      proof (cases "bt_get groups pack")
        case (Some es)
        then show ?thesis using Cons.prems(4) map_of_SomeD [OF Some] unfolding groups_ok_def old_def by auto
      qed (simp add: old_def)
      moreover have "entry_ok page pi pack (?i, offset, chunk)" using Some po chunk False Cons.prems(2) by (simp add: entry_ok_def)
      moreover have ok: "bt_ok ?g" using Cons.prems(3) by simp
      ultimately have "groups_ok page pi ?g"
        using Cons.prems(4) unfolding groups_ok_def
        by (fastforce simp: bt_entries [OF ok] bt_entries [OF Cons.prems(3), symmetric] Cons.prems(3) split: if_splits)
      then show ?thesis using Cons.IH [OF run _ ok] Cons.prems(2) by simp
    qed
  qed
qed

lemma get_block_Ok: "get_block bs offset = Ok chunk \<Longrightarrow> length chunk = CHUNK_BYTES \<and> chunk = slice_of bs offset (offset + CHUNK_BYTES)"
  by (auto simp: get_block_def split: option.splits if_splits)

lemma rewrite_entries_ok:
  "rewrite_entries dg bs es dirty = Ok dirty' \<Longrightarrow> bt_ok dirty \<Longrightarrow> \<forall>(i, b) \<in> set dirty. P i b \<Longrightarrow>
   \<forall>(i, offset, h) \<in> set es. \<forall>chunk. get_block bs offset = Ok chunk \<longrightarrow> P i chunk \<Longrightarrow> bt_ok dirty' \<and> (\<forall>(i, b) \<in> set dirty'. P i b)"
proof (induction dg bs es dirty rule: rewrite_entries.induct)
  case (1 dg bs dirty)
  then show ?case by simp
next
  case (2 dg bs index offset hash es dirty)
  from 2(2) obtain chunk where c: "get_block bs offset = Ok chunk" "dg chunk = hash" "rewrite_entries dg bs es (bt_insert index chunk dirty) = Ok dirty'"
    by (auto simp: res_bind_Ok split: if_splits)
  have ok: "bt_ok (bt_insert index chunk dirty)" using 2(3) by simp
  have "P index chunk" using 2(5) c(1) by auto
  then have "\<forall>(i, b) \<in> set (bt_insert index chunk dirty). P i b"
    using 2(4) by (auto simp: bt_entries [OF ok] bt_entries [OF 2(3), symmetric] 2(3) split: if_splits)
  then show ?case using 2(1) [OF _ c(3) ok] c(2) 2(5) by auto
qed

text \<open>A volume without pages and without a base is a disk of zeros.\<close>

lemma empty_volume:
  assumes "rt_pages (x_root vol) = []" "x_base vol = None" "packed vol" "x_dirty vol = []"
  shows "x_complete dg X B vol" "xdisk X B vol = zeros (x_size vol)"
proof -
  have cat: "catalog_page vol pi = None" for pi using assms(2) by (simp add: catalog_page_def)
  have v: "vpage X B vol pi = blank_page True pi" for pi
    using assms by (simp add: vpage_def page_view_def raw_page_def inherits_def)
  have slot: "page_slot (vpage X B vol pi) i = None" "page_slot (bpage X B vol pi) i = None" for pi i
    using unbased_slot [OF assms(2,3)] by (simp_all add: v frame_page_slot [OF blank_packed(1)] blank_packed(2))
  then show "x_complete dg X B vol"
    using assms(1) cat by (simp add: x_complete_def base_complete_def page_stored_def slot_stored_def)
  have "xblock X B vol i = zeros CHUNK_BYTES" for i
    using slot assms(4) by (simp add: xblock_def committed_block_def slot_block_def)
  then show "xdisk X B vol = zeros (x_size vol)"
    by (intro nth_equalityI) (simp_all add: xdisk_def dbyte_def)
qed

context indexed_store
begin

text \<open>The same disk, in a state from which the volume can go on.\<close>

definition keeps :: "indexed \<Rightarrow> 's \<Rightarrow> indexed \<times> 's \<Rightarrow> bool" where
  "keeps vol s = (\<lambda>(vol', s'). ok s' \<and> objs_le (objs s) (objs s') \<and> x_inv vol' \<and> packed vol' \<and> x_complete dg (objs s') B vol'
     \<and> x_size vol' = x_size vol \<and> rt_volume (x_root vol') = rt_volume (x_root vol) \<and> xdisk (objs s') B vol' = xdisk (objs s) B vol)"

lemma committed_keeps: "committed vol nxt s g w \<Longrightarrow> keeps vol s w"
  by (auto simp: committed_def keeps_def)

text \<open>A handle with the same root, base and dirty blocks, over a store that only gained objects.\<close>

lemma keeps_handle:
  assumes "x_complete dg (objs s) B vol" "x_inv vol" "packed vol" "ok s'" "objs_le (objs s) (objs s')"
    and v: "x_root vol' = x_root vol" "x_base vol' = x_base vol" "x_dirty vol' = x_dirty vol"
  shows "keeps vol s (vol', s')"
  using assms complete_mono(1) [OF assms(1,5)] complete_disk [OF assms(1,5)] view_cong(4) [OF v(1,2)] xdisk_cong [OF v]
  by (simp add: keeps_def x_inv_def x_size_def packed_def)

lemma commit_failed_keeps:
  assumes "commit_failed vol s e w" "x_complete dg (objs s) B vol" "x_inv vol" "packed vol"
  shows "keeps vol s w"
proof -
  obtain vol' s' where w: "w = (vol', s')" by force
  have "vol' = vol \<or> vol' = vol\<lparr>x_poisoned := True\<rparr>" "ok s'" "objs_le (objs s) (objs s')"
    using assms(1) by (auto simp: commit_failed_def w)
  then show ?thesis unfolding w by (intro keeps_handle [OF assms(2-4)]) auto
qed

section \<open>Commits\<close>

lemma marked_next:
  assumes "x_inv vol" "packed vol" "\<forall>m. mark = Some m \<longrightarrow> valid_hash (rp_id m) \<and> rp_sequence m \<noteq> 0"
  shows "next_root vol ((marked_root vol mark)\<lparr>rt_generation := g\<rparr>)"
  using assms by (cases mark) (auto simp: next_root_def marked_root_def root_valid_def x_inv_def packed_def)

lemma commit_inner_post:
  assumes s: "ok s" and full: "x_complete dg (objs s) B vol" and pk: "packed vol" and inv: "x_inv vol" and n: "0 < concurrency"
    and mark: "\<forall>m. mark = Some m \<longrightarrow> valid_hash (rp_id m) \<and> rp_sequence m \<noteq> 0"
    and U: "digest_sound dg (commit_objects dg False (objs s) B vol)"
  shows "post (commit_inner E end_at mark concurrency)
    (\<lambda>g w. \<exists>nxt. rt_generation nxt = Suc (rt_generation (x_root vol)) \<and> rt_replication nxt = rt_replication (marked_root vol mark)
       \<and> \<not> x_poisoned vol \<and> committed vol nxt s g w) (commit_failed vol s) (vol, s)"
proof -
  have quiet: "commit_failed vol s e (vol, t)" if "same s t" for e t
    by (rule commit_failed_quiet [OF same_grows [OF that] full])
  show ?thesis
  proof (cases "x_check vol 0 0")
    case (Err e)
    then show ?thesis using quiet [OF same_refl [OF s]] by (simp add: commit_inner_def post_simps)
  next
    case (Ok u)
    then have np: "\<not> x_poisoned vol" using x_check_Ok by auto
    let ?nxt = "\<lambda>g. (marked_root vol mark)\<lparr>rt_generation := g\<rparr>"
    show ?thesis
    proof (cases "x_dirty vol = [] \<and> mark = None")
      case True
      then have "committed vol (?nxt (Suc (rt_generation (x_root vol)))) s (rt_generation (x_root vol)) (vol, s)"
        using s full pk inv by (simp add: committed_def marked_root_def)
      then show ?thesis
        using True Ok np by (auto simp: commit_inner_def post_simps intro!: exI [of _ "?nxt (Suc (rt_generation (x_root vol)))"])
    next
      case False
      have go: "post (commit_packed E (?nxt (Suc (rt_generation (x_root vol)))) end_at concurrency False never)
          (\<lambda>g w. \<exists>nxt. rt_generation nxt = Suc (rt_generation (x_root vol)) \<and> rt_replication nxt = rt_replication (marked_root vol mark)
             \<and> \<not> x_poisoned vol \<and> committed vol nxt s g w) (commit_failed vol s) (vol, t)" if t: "same s t" for t
      proof -
        have e: "objs t = objs s" "heads t = heads s" "ok t" using t by (simp_all add: same_def)
        let ?n = "?nxt (Suc (rt_generation (x_root vol)))"
        have "committed vol ?n t = committed vol ?n s" "commit_failed vol t = commit_failed vol s"
          by (simp_all add: committed_def commit_failed_def replaced_def renamed_def e fun_eq_iff split: prod.split)
        then have "post (commit_packed E ?n end_at concurrency False never) (committed vol ?n s) (commit_failed vol s) (vol, t)"
          using commit_packed_post [of t vol ?n concurrency never False end_at]
            e full pk inv n marked_next [OF inv pk mark] harmless_never U by simp
        then show ?thesis
          by (rule post_mono) (use np in \<open>auto intro!: exI [of _ ?n]\<close>)
      qed
      have "post (io_bind (lift_world (ix_deadline E end_at)) (\<lambda>_.
          io_bind (io_lift (ok_or Corrupt (checked_add (rt_generation (x_root vol)) 1))) (\<lambda>g.
            commit_packed E (?nxt g) end_at concurrency False never)))
          (\<lambda>g w. \<exists>nxt. rt_generation nxt = Suc (rt_generation (x_root vol)) \<and> rt_replication nxt = rt_replication (marked_root vol mark)
             \<and> \<not> x_poisoned vol \<and> committed vol nxt s g w) (commit_failed vol s) (vol, s)"
        unfolding post_bind post_lift_world post_lift
        by (rule post_mono [OF deadline_same [OF same_refl [OF s]]])
           (auto simp: checked_add_def intro: quiet go split: result.split)
      then show ?thesis
        using False Ok pk by (auto simp: commit_inner_def post_get_self post_lift post_bind [of get_self] post_bind [of "io_lift _"] Let_def)
    qed
  qed
qed

lemma x_commit_post:
  assumes s: "ok s" and full: "x_complete dg (objs s) B vol" and pk: "packed vol" and inv: "x_inv vol"
    and U: "digest_sound dg (commit_objects dg False (objs s) B vol)"
  shows "post (x_commit E)
    (\<lambda>g w. \<not> x_poisoned vol \<and> (\<exists>nxt. rt_generation nxt = Suc (rt_generation (x_root vol)) \<and> committed vol nxt s g w)) (commit_failed vol s) (vol, s)"
proof -
  let ?done = "\<lambda>g w. \<not> x_poisoned vol \<and> (\<exists>nxt. rt_generation nxt = Suc (rt_generation (x_root vol)) \<and> committed vol nxt s g w)"
  have go: "post (commit_until E end_at) ?done (commit_failed vol s) (vol, t)" if t: "same s t" for t end_at
  proof -
    have e: "objs t = objs s" "heads t = heads s" "ok t" using t by (simp_all add: same_def)
    have eq: "committed vol nx t g w = committed vol nx s g w" "commit_failed vol t = commit_failed vol s" for nx g w
      by (simp_all add: committed_def commit_failed_def replaced_def renamed_def e fun_eq_iff split: prod.split)
    have "post (commit_inner E end_at None WORKERS) ?done (commit_failed vol s) (vol, t)"
      using commit_inner_post [of t vol WORKERS None end_at] e full pk inv U by (auto simp: eq WORKERS_def elim!: post_mono)
    then show ?thesis
      using commit_failed_quiet [OF same_grows [OF t] full] by (simp add: commit_until_def post_simps)
  qed
  show ?thesis
    unfolding x_commit_def post_bind post_lift_world
    by (rule post_mono [OF clock_same [OF same_refl [OF s]]]) (auto intro: go commit_failed_quiet [OF same_grows full])
qed

section \<open>Writes\<close>

lemma written:
  assumes full: "x_complete dg X B vol" and inv: "x_inv vol" and pk: "packed vol" and fit: "offset + length input \<le> x_size vol"
    and w: "wr_inv (xblock X B vol) offset input (length input) pending"
  defines "vol' \<equiv> vol\<lparr>x_dirty := bt_extend (x_dirty vol) pending\<rparr>"
  shows "x_inv vol'" "packed vol'" "x_complete dg X B vol'" "xdisk X B vol' = copy_at (xdisk X B vol) offset input"
proof -
  have ok: "bt_ok (x_dirty vol)" "bt_ok pending" using inv w by (simp_all add: x_inv_def wr_inv_def)
  have get: "bt_get (x_dirty vol') i = (case bt_get pending i of None \<Rightarrow> bt_get (x_dirty vol) i | Some b \<Rightarrow> Some b)" for i
    by (simp add: vol'_def bt_get_extend [OF ok])
  have same: "x_root vol' = x_root vol" "x_base vol' = x_base vol" by (simp_all add: vol'_def)
  show "x_complete dg X B vol'" using full view_cong(4) [OF same] by simp
  show "packed vol'" using pk same by (simp add: packed_def)
  have blk: "xblock X B vol' i = (case bt_get pending i of None \<Rightarrow> xblock X B vol i | Some b \<Rightarrow> b)" for i
    unfolding xblock_def view_cong(3) [OF same] get by (simp split: option.split)
  show "xdisk X B vol' = copy_at (xdisk X B vol) offset input"
    unfolding xdisk_def x_size_def same(1)
    using dextent_write [OF wr_inv_disk [OF w blk]] fit by (simp add: x_size_def)
  have "bt_ok (x_dirty vol')" by (simp add: vol'_def ok)
  moreover have "i < x_size vol div CHUNK_BYTES \<and> length b = CHUNK_BYTES" if "(i, b) \<in> set (x_dirty vol')" for i b
  proof -
    have g: "bt_get (x_dirty vol') i = Some b" using that \<open>bt_ok (x_dirty vol')\<close> by (simp add: bt_entries)
    show ?thesis
    proof (cases "bt_get pending i")
      case None
      then show ?thesis using g get x_inv_dirty [OF inv] by simp
    next
      case (Some c)
      then obtain p where "p < offset + length input" "p div CHUNK_BYTES = i" "length c = CHUNK_BYTES" using w unfolding wr_inv_def by blast
      moreover have "x_size vol mod CHUNK_BYTES = 0" using inv by (simp add: x_inv_def root_valid_def x_size_def)
      moreover have "p div CHUNK_BYTES < x_size vol div CHUNK_BYTES" if "p < x_size vol" for p
        using that \<open>x_size vol mod CHUNK_BYTES = 0\<close> by (metis dvd_div_mult_self less_mult_imp_div_less mod_0_imp_dvd)
      ultimately show ?thesis using fit g get Some by auto
    qed
  qed
  ultimately show "x_inv vol'" using inv by (auto simp: x_inv_def same x_size_def)
qed

lemma keeps_trans: "keeps vol s (vol1, s1) \<Longrightarrow> keeps vol1 s1 w \<Longrightarrow> keeps vol s w"
  by (auto simp: keeps_def intro: objs_le_trans)

lemma keeps_same: "keeps vol s (vol1, s1) \<Longrightarrow> same s1 t \<Longrightarrow> keeps vol s (vol1, t)"
  by (auto simp: keeps_def same_def)

lemma x_write_post:
  assumes s: "ok s" and full: "x_complete dg (objs s) B vol" and pk: "packed vol" and inv: "x_inv vol"
    and U: "digest_sound dg (commit_objects dg False (objs s) B vol)"
  shows "post (x_write E offset input)
    (\<lambda>_ (vol', s'). ok s' \<and> objs_le (objs s) (objs s') \<and> x_inv vol' \<and> packed vol' \<and> x_complete dg (objs s') B vol'
       \<and> offset + length input \<le> x_size vol \<and> \<not> x_poisoned vol \<and> x_size vol' = x_size vol
       \<and> xdisk (objs s') B vol' = copy_at (xdisk (objs s) B vol) offset input)
    (\<lambda>_. keeps vol s) (vol, s)" (is "post _ ?Q ?F _")
proof -
  have start: "keeps vol s (vol, s)" using s full pk inv by (simp add: keeps_def)
  show ?thesis
  proof (cases "x_check vol offset (length input)")
    case (Err e)
    then show ?thesis using start by (simp add: x_write_def post_simps)
  next
    case (Ok u)
    then have fit: "\<not> x_poisoned vol" "offset + length input \<le> x_size vol" using x_check_Ok by auto
    have loop: "post (io_bind get_self (\<lambda>vol1. io_bind (lift_world (write_loop (x_load_for E vol1) offset input 0 [])) (\<lambda>pending.
        set_self (vol1\<lparr>x_dirty := bt_extend (x_dirty vol1) pending\<rparr>)))) ?Q ?F (vol1, s1)" if k: "keeps vol s (vol1, s1)" for vol1 s1
    proof -
      have j: "ok s1" "x_inv vol1" "packed vol1" "x_complete dg (objs s1) B vol1" "x_size vol1 = x_size vol"
          "objs_le (objs s) (objs s1)" "xdisk (objs s1) B vol1 = xdisk (objs s) B vol"
        using k by (simp_all add: keeps_def)
      note wl = block_device.write_loop_pending [OF x_device [OF j(2)] same_refl [OF j(1)] wr_inv_0, of offset input]
      show ?thesis
        unfolding post_bind post_get_self fst_conv post_lift_world post_set_self
      proof (rule post_mono [OF wl])
        fix pending t
        assume p: "same s1 t \<and> wr_inv (xblock (objs s1) B vol1) offset input (length input) pending"
        note w = written [OF j(4,2,3) _ conjunct2 [OF p]]
        show "?Q () (vol1\<lparr>x_dirty := bt_extend (x_dirty vol1) pending\<rparr>, snd (vol1, t))"
          using w p fit j by (simp add: same_def x_size_def)
      next
        fix e t
        assume "same s1 t"
        then show "keeps vol s (vol1, t)" by (rule keeps_same [OF k])
      qed
    qed
    have pre: "post (if c then io_bind (x_commit E) (\<lambda>_. io_return ()) else io_return ()) (\<lambda>_. keeps vol s) ?F (vol, s)" for c
    proof (cases c)
      case True
      have "post (x_commit E) (\<lambda>_. keeps vol s) ?F (vol, s)"
        by (rule post_mono [OF x_commit_post [OF s full pk inv U]])
           (auto dest: committed_keeps commit_failed_keeps [OF _ full inv pk])
      then show ?thesis using True by (simp add: post_simps)
    qed (simp add: post_return start)
    have empty: "?Q () (vol, s)" if "input = []"
      using that s full pk inv fit by (simp add: copy_at_def)
    have body: "post (io_bind (if c then io_bind (x_commit E) (\<lambda>_. io_return ()) else io_return ()) (\<lambda>_.
        io_bind get_self (\<lambda>vol1. io_bind (lift_world (write_loop (x_load_for E vol1) offset input 0 [])) (\<lambda>pending.
          set_self (vol1\<lparr>x_dirty := bt_extend (x_dirty vol1) pending\<rparr>))))) ?Q ?F (vol, s)" for c
      unfolding post_bind [of "if c then _ else _"]
      by (rule post_mono [OF pre]) (auto intro: loop)
    show ?thesis
      unfolding x_write_def post_bind [of get_self] post_get_self fst_conv post_bind [of "io_lift _"] post_lift Ok result.case Let_def
      using start empty body by (simp add: post_throw post_return del: post_bind split_paired_All)
  qed
qed

section \<open>Compaction\<close>

text \<open>A set of blocks to rewrite: blocks of the disk as they are.\<close>

definition rewriting :: "indexed \<Rightarrow> 's \<Rightarrow> (nat, bytes) btree \<Rightarrow> bool" where
  "rewriting vol s d \<longleftrightarrow> bt_ok d
     \<and> (\<forall>(i, b) \<in> set d. i < x_size vol div CHUNK_BYTES \<and> length b = CHUNK_BYTES \<and> b = committed_block (objs s) B vol i)"

lemma entry_block:
  assumes full: "x_complete dg (objs s) B vol" and pk: "packed vol"
    and e: "entry_ok (vpage (objs s) B vol pi) pi pack (i, offset, h)" and bs: "objs s (rt_volume (x_root vol)) pack = Some bs"
    and g: "get_block bs offset = Ok chunk"
  shows "i < x_size vol div CHUNK_BYTES \<and> length chunk = CHUNK_BYTES \<and> chunk = committed_block (objs s) B vol i"
proof -
  let ?p = "vpage (objs s) B vol pi" and ?w = "bpage (objs s) B vol pi"
  have slots: "i div SLOTS = pi" "object_slot ?p i = Some (pack, offset)" "page_slot ?p i = Some h" "pack \<noteq> h"
    using e by (simp_all add: entry_ok_def)
  have "\<not> slot_inherited based ?p ?w i" for based
    using bpage_direct [OF full pk, of pi i h] slots by (auto simp: slot_inherited_def)
  then have "committed_block (objs s) B vol i = slice_of bs offset (offset + CHUNK_BYTES)"
    using slots bs by (simp add: committed_block_def slot_block_def object_block_def)
  moreover have "i < x_size vol div CHUNK_BYTES"
  proof (rule ccontr)
    assume "\<not> i < x_size vol div CHUNK_BYTES"
    then have "cell ?p i = zeros 72" using complete_wf(1) [OF full pk, of pi] slots(1) by (simp add: page_wf_def)
    then show False using slots(3) frame_page_slot [OF page_wfD [OF complete_wf(1) [OF full pk]], of pi i] by simp
  qed
  ultimately show ?thesis using get_block_Ok [OF g] by auto
qed

lemma verify_entries_same:
  "harmless cancel \<Longrightarrow> same s t \<Longrightarrow> post (verify_entries d cancel bs es verified) (\<lambda>_. same s) (\<lambda>_. same s) t"
proof (induction es arbitrary: t verified)
  case Nil
  then show ?case by (simp add: post_return)
next
  case (Cons e es)
  obtain i offset h where e: "e = (i, offset, h)" by (cases e) auto
  show ?case
    unfolding e verify_entries.simps
    by (rule same_step [OF check_cancel_same [OF Cons.prems]])
       (auto simp: post_bind post_lift post_throw split: result.split intro: Cons.IH [OF Cons.prems(1)])
qed

lemma compact_groups_post:
  assumes full: "x_complete dg (objs s) B vol" and pk: "packed vol" and inv: "x_inv vol" and c: "harmless cancel"
  shows "same s t \<Longrightarrow> groups_ok (vpage (objs s) B vol pi) pi groups \<Longrightarrow> rewriting vol s (rk_dirty st) \<Longrightarrow>
    post (compact_groups E vol cancel budget pi resume groups st) (\<lambda>st' u. same s u \<and> rewriting vol s (rk_dirty st')) (\<lambda>_. same s) t"
proof (induction groups arbitrary: t st)
  case Nil
  then show ?case by (simp add: post_return)
next
  case (Cons g groups)
  obtain pack entries where g: "g = (pack, entries)" by force
  have v: "valid_id (rt_volume (x_root vol))" using inv by (simp add: x_inv_def)
  have ge: "\<forall>e \<in> set entries. entry_ok (vpage (objs s) B vol pi) pi pack e" "groups_ok (vpage (objs s) B vol pi) pi groups"
    using Cons.prems(2) by (auto simp: groups_ok_def g)
  note ih = Cons.IH [OF _ ge(2)]
  have rw: "rewriting vol s dirty" if "rewrite_entries dg bs (take n entries) (rk_dirty st) = Ok dirty" "objs s (rt_volume (x_root vol)) pack = Some bs" for bs n dirty
  proof -
    have h: "\<forall>(i, offset, h) \<in> set (take n entries). \<forall>chunk. get_block bs offset = Ok chunk \<longrightarrow>
        i < x_size vol div CHUNK_BYTES \<and> length chunk = CHUNK_BYTES \<and> chunk = committed_block (objs s) B vol i"
      using ge(1) entry_block [OF full pk _ that(2)] set_take_subset [of n entries] by blast
    have d: "bt_ok (rk_dirty st)" "\<forall>(i, b) \<in> set (rk_dirty st). i < x_size vol div CHUNK_BYTES \<and> length b = CHUNK_BYTES \<and> b = committed_block (objs s) B vol i"
      using Cons.prems(3) by (simp_all add: rewriting_def)
    show ?thesis
      unfolding rewriting_def
      by (rule rewrite_entries_ok [OF that(1) d(1), where P = "\<lambda>i b. i < x_size vol div CHUNK_BYTES \<and> length b = CHUNK_BYTES \<and> b = committed_block (objs s) B vol i", OF d(2) h])
  qed
  have chunk: "post (os_chunk (ix_os E) (rt_volume (x_root vol)) pack) (\<lambda>bs u. same s u \<and> objs s (rt_volume (x_root vol)) pack = Some bs) (\<lambda>_. same s) u"
    if "same s u" for u
    by (rule post_mono [OF chunk_law [OF same_ok [OF that] v]]) (use that in \<open>auto simp: same_def\<close>)
  define rest where "rest bs = (let consumed = rk_consumed st + length bs in
      if length bs \<le> length (remdups (map (\<lambda>(_, offset, _). offset) entries)) * CHUNK_BYTES
      then compact_groups E vol cancel budget pi resume groups (st\<lparr>rk_consumed := consumed, rk_completed := Some pack\<rparr>)
      else
        (let available = (budget - consumed) div CHUNK_BYTES; taken = take available entries in
         io_bind (io_lift (rewrite_entries dg bs taken (rk_dirty st))) (\<lambda>dirty.
           let st' = st\<lparr>rk_consumed := consumed + length taken * CHUNK_BYTES, rk_dirty := dirty\<rparr> in
           if available < length entries then io_return (st'\<lparr>rk_cursor := Some \<lparr>cc_page = pi, cc_after_pack = rk_completed st\<rparr>\<rparr>)
           else compact_groups E vol cancel budget pi resume groups (st'\<lparr>rk_completed := Some pack\<rparr>))))" for bs
  have rest: "post (rest bs) (\<lambda>st' u. same s u \<and> rewriting vol s (rk_dirty st')) (\<lambda>_. same s) u"
    if u: "same s u" and bs: "objs s (rt_volume (x_root vol)) pack = Some bs" for bs u
  proof -
    have next_group: "post (compact_groups E vol cancel budget pi resume groups st') (\<lambda>st' u. same s u \<and> rewriting vol s (rk_dirty st')) (\<lambda>_. same s) u"
      if "rewriting vol s (rk_dirty st')" for st'
      by (rule ih [OF u that])
    show ?thesis
    proof (cases "rewrite_entries dg bs (take ((budget - (rk_consumed st + length bs)) div CHUNK_BYTES) entries) (rk_dirty st)")
      case (Ok d)
      then show ?thesis
        using rw [OF Ok bs] u Cons.prems(3) by (simp add: rest_def Let_def post_bind post_lift post_return next_group)
    next
      case (Err e)
      then show ?thesis
        using u Cons.prems(3) by (simp add: rest_def Let_def post_bind post_lift next_group)
    qed
  qed
  have body: "post (if MAX_OBJECT_BYTES < length bs \<or> length bs mod CHUNK_BYTES \<noteq> 0 \<or> dg bs \<noteq> pack then io_throw Corrupt
      else if length bs < CHUNK_BYTES then io_throw Corrupt
      else io_bind (verify_entries dg cancel bs entries []) (\<lambda>_. rest bs))
      (\<lambda>st' u. same s u \<and> rewriting vol s (rk_dirty st')) (\<lambda>_. same s) u"
    if u: "same s u" and bs: "objs s (rt_volume (x_root vol)) pack = Some bs" for bs u
    using same_step [OF verify_entries_same [OF c u] rest [OF _ bs]] u by (simp add: post_throw)
  have go: "post (io_bind (check_cancel cancel) (\<lambda>_.
        if budget < rk_consumed st + MAX_OBJECT_BYTES + CHUNK_BYTES
        then io_return (st\<lparr>rk_cursor := Some \<lparr>cc_page = pi, cc_after_pack = rk_completed st\<rparr>\<rparr>)
        else io_bind (os_chunk (ix_os E) (rt_volume (x_root vol)) pack) (\<lambda>bs.
          if MAX_OBJECT_BYTES < length bs \<or> length bs mod CHUNK_BYTES \<noteq> 0 \<or> dg bs \<noteq> pack then io_throw Corrupt
          else if length bs < CHUNK_BYTES then io_throw Corrupt
          else io_bind (verify_entries dg cancel bs entries []) (\<lambda>_. rest bs))))
      (\<lambda>st' u. same s u \<and> rewriting vol s (rk_dirty st')) (\<lambda>_. same s) t"
  proof (rule same_step [OF check_cancel_same [OF c Cons.prems(1)]])
    fix u
    assume u: "same s u"
    show "post (if budget < rk_consumed st + MAX_OBJECT_BYTES + CHUNK_BYTES
        then io_return (st\<lparr>rk_cursor := Some \<lparr>cc_page = pi, cc_after_pack = rk_completed st\<rparr>\<rparr>)
        else io_bind (os_chunk (ix_os E) (rt_volume (x_root vol)) pack) (\<lambda>bs.
          if MAX_OBJECT_BYTES < length bs \<or> length bs mod CHUNK_BYTES \<noteq> 0 \<or> dg bs \<noteq> pack then io_throw Corrupt
          else if length bs < CHUNK_BYTES then io_throw Corrupt
          else io_bind (verify_entries dg cancel bs entries []) (\<lambda>_. rest bs)))
      (\<lambda>st' u. same s u \<and> rewriting vol s (rk_dirty st')) (\<lambda>_. same s) u"
    proof (cases "budget < rk_consumed st + MAX_OBJECT_BYTES + CHUNK_BYTES")
      case True
      then show ?thesis using u Cons.prems(3) by (simp add: post_return)
    next
      case False
      show ?thesis
        unfolding if_not_P [OF False] post_bind [of "os_chunk _ _ _"]
        by (rule post_mono [OF chunk [OF u]]) (blast intro: body)+
    qed
  qed
  show ?case
    using go ih [OF Cons.prems(1,3)] unfolding g compact_groups.simps rest_def Let_def by simp
qed

text \<open>A handle whose dirty blocks are blocks of the disk shows the same disk.\<close>

lemma rewriting_handle:
  assumes full: "x_complete dg (objs s) B vol" and pk: "packed vol" and inv: "x_inv vol" and clean: "x_dirty vol = []" and d: "rewriting vol s d"
  defines "vol2 \<equiv> vol\<lparr>x_dirty := d\<rparr>"
  shows "x_complete dg (objs s) B vol2" "packed vol2" "x_inv vol2" "xdisk (objs s) B vol2 = xdisk (objs s) B vol"
proof -
  have v: "x_root vol2 = x_root vol" "x_base vol2 = x_base vol" by (simp_all add: vol2_def)
  show "x_complete dg (objs s) B vol2" "packed vol2" using full pk view_cong(4) [OF v] by (simp_all add: packed_def v)
  show "x_inv vol2" using inv d by (auto simp: x_inv_def rewriting_def vol2_def x_size_def)
  have "xblock (objs s) B vol2 i = xblock (objs s) B vol i" for i
  proof (cases "bt_get d i")
    case None
    then show ?thesis by (simp add: xblock_def vol2_def clean view_cong(3) [OF v, unfolded vol2_def])
  next
    case (Some b)
    then have "b = committed_block (objs s) B vol i" using d map_of_SomeD [OF Some] by (auto simp: rewriting_def)
    then show ?thesis using Some by (simp add: xblock_def vol2_def clean)
  qed
  then have "xblock (objs s) B vol2 = xblock (objs s) B vol" by (rule ext)
  then show "xdisk (objs s) B vol2 = xdisk (objs s) B vol" by (simp add: xdisk_def x_size_def v)
qed

definition reset :: "indexed \<times> 's \<Rightarrow> indexed \<times> 's" where
  "reset w = ((fst w)\<lparr>x_dirty := []\<rparr>, snd w)"

lemma compact_commit_post:
  assumes full: "x_complete dg (objs s) B vol" and pk: "packed vol" and inv: "x_inv vol" and clean: "x_dirty vol = []"
    and d: "rewriting vol s d" and t: "same s t" and c: "harmless cancel"
    and U: "digest_sound dg (commit_objects dg True (objs s) B (vol\<lparr>x_dirty := d\<rparr>))"
  shows "post (compact_commit E cancel) (\<lambda>_ w. keeps vol s w \<and> x_dirty (fst w) = []) (\<lambda>_ w. keeps vol s (reset w)) (vol\<lparr>x_dirty := d\<rparr>, t)"
proof -
  let ?v = "vol\<lparr>x_dirty := d\<rparr>"
  note rh = rewriting_handle [OF full pk inv clean d]
  have quiet: "keeps vol s (v', u)" if "same s u" "x_root v' = x_root vol" "x_base v' = x_base vol" "x_dirty v' = []" for v' u
    by (rule keeps_handle [OF full inv pk]) (use that clean in \<open>auto simp: same_def\<close>)
  have undone: "keeps vol s (reset (?v, u))" if "same s u" for u
    unfolding reset_def fst_conv snd_conv by (rule quiet [OF that]) simp_all
  have go: "post (commit_packed E ((x_root ?v)\<lparr>rt_generation := g\<rparr>) end_at WORKERS True cancel)
      (\<lambda>_ w. keeps vol s w \<and> x_dirty (fst w) = []) (\<lambda>_ w. keeps vol s (reset w)) (?v, u)" if u: "same s u" for u g end_at
  proof -
    have e: "objs u = objs s" "heads u = heads s" "ok u" using u by (simp_all add: same_def)
    have nx: "next_root ?v ((x_root ?v)\<lparr>rt_generation := g\<rparr>)"
      using rh(2,3) by (auto simp: next_root_def x_inv_def packed_def root_valid_def)
    have "post (commit_packed E ((x_root ?v)\<lparr>rt_generation := g\<rparr>) end_at WORKERS True cancel)
        (committed ?v ((x_root ?v)\<lparr>rt_generation := g\<rparr>) u) (commit_failed ?v u) (?v, u)"
      using rh e U nx c by (intro commit_packed_post) (simp_all add: WORKERS_def)
    then show ?thesis
    proof (rule post_mono)
      fix h w
      assume w: "committed ?v ((x_root ?v)\<lparr>rt_generation := g\<rparr>) u h w"
      show "keeps vol s w \<and> x_dirty (fst w) = []"
        using w rh(4) e by (auto simp: committed_def keeps_def x_size_def)
    next
      fix err w
      assume w: "commit_failed ?v u err w"
      obtain v' s' where p: "w = (v', s')" by force
      have "v' = ?v \<or> v' = ?v\<lparr>x_poisoned := True\<rparr>" "ok s'" "objs_le (objs s) (objs s')"
        using w e by (auto simp: commit_failed_def p)
      then show "keeps vol s (reset w)"
        unfolding p reset_def fst_conv snd_conv by (intro keeps_handle [OF full inv pk]) (auto simp: clean)
    qed
  qed
  show ?thesis
  proof (cases "d = []")
    case True
    then show ?thesis using quiet [OF t] clean by (simp add: compact_commit_def post_simps)
  next
    case False
    obtain b u where cu: "cancel t = (b, u)" by force
    have u: "same s u" using harmlessD [OF c same_ok [OF t] cu] t by (simp add: same_def)
    define act :: "(indexed \<times> 's, unit, verror) io" where "act = io_bind (io_lift (ok_or Corrupt (checked_add (rt_generation (x_root ?v)) 1))) (\<lambda>g.
          io_bind (lift_world (ix_clock E)) (\<lambda>t.
          io_bind (commit_packed E ((x_root ?v)\<lparr>rt_generation := g\<rparr>) (t + BUDGET) WORKERS True cancel) (\<lambda>_. io_return ())))"
    have "post act (\<lambda>_ w. keeps vol s w \<and> x_dirty (fst w) = []) (\<lambda>_ w. keeps vol s (reset w)) (?v, u)"
    proof -
      have clk: "post (ix_clock E) (\<lambda>_. same s) (\<lambda>_. same s) u" by (rule clock_same [OF u])
      have "post (io_bind (lift_world (ix_clock E)) (\<lambda>t.
          io_bind (commit_packed E ((x_root ?v)\<lparr>rt_generation := g\<rparr>) (t + BUDGET) WORKERS True cancel) (\<lambda>_. io_return ())))
          (\<lambda>_ w. keeps vol s w \<and> x_dirty (fst w) = []) (\<lambda>_ w. keeps vol s (reset w)) (?v, u)" for g
        unfolding post_bind post_lift_world post_return
        by (rule post_mono [OF clk], rule go, assumption) (rule undone)
      then show ?thesis
        using undone [OF u] by (simp add: act_def post_bind [of "io_lift _"] post_lift checked_add_def)
    qed
    moreover have "compact_commit E cancel (?v, t) = (if b then (Err Deadline, ?v\<lparr>x_dirty := []\<rparr>, u) else act (?v, u))"
      using False cu by (simp add: compact_commit_def io_bind_def get_self_def act_def)
    moreover have "keeps vol s (reset (?v\<lparr>x_dirty := []\<rparr>, u))"
      unfolding reset_def fst_conv snd_conv by (rule quiet [OF u]) simp_all
    ultimately show ?thesis by (cases b) (simp_all add: post_def)
  qed
qed

lemma compact_inner_post:
  assumes s: "ok s" and full: "x_complete dg (objs s) B vol" and pk: "packed vol" and inv: "x_inv vol" and c: "harmless cancel"
    and U: "\<And>d. rewriting vol s d \<Longrightarrow> digest_sound dg (commit_objects dg True (objs s) B (vol\<lparr>x_dirty := d\<rparr>))"
    and clean: "x_dirty vol = []"
  shows "post (compact_packs_inner E after budget cancel) (\<lambda>_ w. keeps vol s w \<and> x_dirty (fst w) = []) (\<lambda>_ w. keeps vol s (reset w)) (vol, s)"
proof -
  have v: "valid_id (rt_volume (x_root vol))" using inv by (simp add: x_inv_def)
  have quiet: "keeps vol s (vol, u)" if "same s u" for u
    by (rule keeps_handle [OF full inv pk]) (use that in \<open>auto simp: same_def\<close>)
  have undone: "keeps vol s (reset (vol, u))" if "same s u" for u
    unfolding reset_def fst_conv snd_conv by (rule keeps_handle [OF full inv pk]) (use that clean in \<open>auto simp: same_def\<close>)
  have finish: "post (io_bind (set_self (vol\<lparr>x_dirty := d\<rparr>)) (\<lambda>_. io_bind (compact_commit E cancel) (\<lambda>_. io_bind get_self (\<lambda>v2. io_return (res v2)))))
      (\<lambda>_ w. keeps vol s w \<and> x_dirty (fst w) = []) (\<lambda>_ w. keeps vol s (reset w)) (vol, u)" if u: "same s u" and d: "rewriting vol s d" for u d and res :: "indexed \<Rightarrow> compaction"
    unfolding post_bind post_set_self snd_conv
    by (rule post_mono [OF compact_commit_post [OF full pk inv clean d u c U [OF d]]]) (simp_all add: post_simps)
  have page: "post (io_bind (lift_world (x_page E vol pi)) (\<lambda>page. io_bind (io_lift (group_entries page pi [0..<SLOTS] [])) (\<lambda>groups.
        io_bind (lift_world (compact_groups E vol cancel budget pi resume groups \<lparr>rk_consumed = 0, rk_completed = resume, rk_cursor = None, rk_dirty = []\<rparr>)) (f groups))))
      (\<lambda>_ w. keeps vol s w \<and> x_dirty (fst w) = []) (\<lambda>_ w. keeps vol s (reset w)) (vol, u)"
    if u: "same s u" and f: "\<And>groups st u. same s u \<Longrightarrow> rewriting vol s (rk_dirty st) \<Longrightarrow>
        post (f groups st) (\<lambda>_ w. keeps vol s w \<and> x_dirty (fst w) = []) (\<lambda>_ w. keeps vol s (reset w)) (vol, u)"
    for u pi resume and f :: "_ \<Rightarrow> repack \<Rightarrow> (indexed \<times> 's, compaction, verror) io"
    unfolding post_bind post_lift_world
  proof (rule post_mono [OF x_page_same [OF u v]])
    fix page t
    assume p: "same s t \<and> page = vpage (objs s) B vol pi"
    have "groups_ok (vpage (objs s) B vol pi) pi groups" if "group_entries page pi [0..<SLOTS] [] = Ok groups" for groups
      using group_entries_ok [OF that] p by (simp add: groups_ok_def)
    moreover have "rewriting vol s []" by (simp add: rewriting_def)
    ultimately show "post (io_lift (group_entries page pi [0..<SLOTS] []))
        (\<lambda>groups. post (lift_world (compact_groups E vol cancel budget pi resume groups \<lparr>rk_consumed = 0, rk_completed = resume, rk_cursor = None, rk_dirty = []\<rparr>))
          (\<lambda>st. post (f groups st) (\<lambda>_ w. keeps vol s w \<and> x_dirty (fst w) = []) (\<lambda>_ w. keeps vol s (reset w))) (\<lambda>_ w. keeps vol s (reset w)))
        (\<lambda>_ w. keeps vol s (reset w)) (vol, t)"
      using p undone f
      by (auto simp: post_lift post_lift_world split: result.split intro!: post_mono [OF compact_groups_post [OF full pk inv c, of t pi _ "\<lparr>rk_consumed = 0, rk_completed = resume, rk_cursor = None, rk_dirty = []\<rparr>"]])
  next
    fix e t
    assume "same s t"
    then show "keeps vol s (reset (vol, t))" by (rule undone)
  qed
  have body: "post (io_bind (lift_world (check_cancel cancel)) (\<lambda>_. m)) (\<lambda>_ w. keeps vol s w \<and> x_dirty (fst w) = []) (\<lambda>_ w. keeps vol s (reset w)) (vol, s)"
    if "\<And>u. same s u \<Longrightarrow> post m (\<lambda>_ w. keeps vol s w \<and> x_dirty (fst w) = []) (\<lambda>_ w. keeps vol s (reset w)) (vol, u)" for m :: "(indexed \<times> 's, compaction, verror) io"
    unfolding post_bind post_lift_world
    by (rule post_mono [OF check_cancel_same [OF c same_refl [OF s]]]) (auto intro: that undone)
  show ?thesis
    unfolding compact_packs_inner_def post_bind [of get_self] post_get_self fst_conv post_bind [of "io_lift (x_check _ _ _)"] post_lift
    using quiet [OF same_refl [OF s]] undone [OF same_refl [OF s]] clean
    by (auto simp: post_if post_throw post_return Let_def split: result.split option.split prod.split intro!: body page finish)
qed

lemma compact_packs_post:
  assumes s: "ok s" and full: "x_complete dg (objs s) B vol" and pk: "packed vol" and inv: "x_inv vol" and c: "harmless cancel"
    and U: "\<And>d. rewriting vol s d \<Longrightarrow> digest_sound dg (commit_objects dg True (objs s) B (vol\<lparr>x_dirty := d\<rparr>))"
  shows "post (compact_packs E after budget cancel) (\<lambda>_ w. keeps vol s w \<and> x_dirty (fst w) = []) (\<lambda>_. keeps vol s) (vol, s)"
proof -
  have q: "keeps vol s (vol, s)" by (rule keeps_handle [OF full inv pk s]) simp_all
  show ?thesis
  proof (cases "x_dirty vol = []")
    case False
    then show ?thesis using q by (simp add: compact_packs_def post_simps split: result.split)
  next
    case True
    note p = compact_inner_post [OF s full pk inv c U True, of after budget]
    show ?thesis
      using p q True
      by (auto simp: compact_packs_def post_def reset_def io_bind_def get_self_def io_lift_def split: result.splits prod.splits)
  qed
qed

section \<open>Creating and opening\<close>

lemma catalog_load_post:
  assumes "same s t"
  shows "post (catalog_load dg (ix_os E) r) (\<lambda>c u. same s u \<and> base_catalog dg B r c) (\<lambda>_. same s) t"
proof -
  have base: "post (os_base_chunk (ix_os E) (b_image r) (b_catalog r) None) (\<lambda>bs u. same s u \<and> B (b_image r) (b_catalog r) = Some bs) (\<lambda>_. same s) t"
    by (rule post_mono [OF base_law [OF same_ok [OF assms]]]) (use assms in \<open>auto simp: same_def\<close>)
  show ?thesis
    unfolding catalog_load_def post_bind post_lift
    using assms by (auto split: result.split simp: post_lift base_catalog_def intro!: post_mono [OF base])
qed

lemma decode_head_post:
  assumes "same s t" "valid_id i"
  shows "post (decode_head E i h ready)
    (\<lambda>w u. same s u \<and> x_inv w \<and> x_dirty w = [] \<and> \<not> x_poisoned w \<and> rt_volume (x_root w) = i \<and> x_revision w = h_revision h
       \<and> c_from_slice (ix_codec E) (h_manifest h) = Some (x_root w)
       \<and> (\<forall>r. rt_base (x_root w) = Some r \<longrightarrow> base_catalog dg B r (the (x_base w)))) (\<lambda>_. same s) t" (is "post _ ?Q _ _")
proof (cases "c_from_slice (ix_codec E) (h_manifest h)")
  case None
  then show ?thesis using assms(1) by (simp add: decode_head_def post_simps)
next
  case (Some r)
  have wf: "bt_ok (rt_pages r)" using codec Some unfolding codec_ok_def root_wf_def by blast
  define rest where "rest base = (if (case base of None \<Rightarrow> False | Some b \<Rightarrow> ct_size b \<noteq> rt_size r) then io_throw Corrupt
      else io_return (fresh_handle r base (h_revision h)) :: ('s, indexed, verror) io)" for base
  have rest: "post (rest base) ?Q (\<lambda>_. same s) u"
    if "same s u" "root_valid i r" "case rt_base r of None \<Rightarrow> base = None | Some q \<Rightarrow> \<exists>c. base = Some c \<and> base_catalog dg B q c" for base u
    using that wf Some assms(2) base_catalog_ok [of dg B] unfolding rest_def
    by (auto simp: post_throw post_return fresh_handle_def x_inv_def root_valid_def split: option.splits)
  have "post (io_bind (case rt_base r of None \<Rightarrow> io_return None
      | Some b \<Rightarrow> io_bind (catalog_load dg (ix_os E) b) (\<lambda>c. io_return (Some c))) rest) ?Q (\<lambda>_. same s) t" if "root_valid i r"
  proof (cases "rt_base r")
    case None
    then show ?thesis using rest [OF assms(1) that] by (simp add: post_bind post_return)
  next
    case (Some q)
    show ?thesis
      unfolding Some option.case post_bind post_return
      by (rule post_mono [OF catalog_load_post [OF assms(1)]]) (use rest [OF _ that] Some in auto)
  qed
  then show ?thesis
    using Some assms(1) by (simp add: decode_head_def post_if post_throw post_bind [of "io_lift _"] post_lift rest_def [abs_def])
qed

lemma x_open_post:
  assumes "ok s"
  shows "post (x_open E i)
    (\<lambda>w t. same s t \<and> x_inv w \<and> x_dirty w = [] \<and> \<not> x_poisoned w \<and> rt_volume (x_root w) = i
       \<and> (\<forall>r. rt_base (x_root w) = Some r \<longrightarrow> base_catalog dg B r (the (x_base w)))
       \<and> (\<exists>h. heads s i = Some h \<and> x_revision w = h_revision h \<and> c_from_slice (ix_codec E) (h_manifest h) = Some (x_root w))) (\<lambda>_. same s) s"
proof (cases "valid_id i")
  case False
  then show ?thesis using assms by (simp add: x_open_def post_throw same_refl)
next
  case True
  have hd: "post (os_head (ix_os E) i) (\<lambda>h t. same s t \<and> h = heads s i) (\<lambda>_. same s) s"
    by (rule post_mono [OF head_law [OF assms True]]) (auto simp: same_def)
  show ?thesis
    using True
    by (auto simp: x_open_def from_head_def post_bind post_lift ok_or_def split: option.split
        intro!: post_mono [OF hd] post_mono [OF decode_head_post [OF _ True]])
qed

lemma x_create_post:
  assumes "ok s"
  shows "post (x_create E i sz)
    (\<lambda>vol t. ok t \<and> objs t = objs s \<and> heads s i = None \<and> rt_volume (x_root vol) = i \<and> x_inv vol \<and> packed vol \<and> x_complete dg (objs t) B vol \<and> x_size vol = sz
       \<and> xdisk (objs t) B vol = zeros sz
       \<and> (\<exists>m. c_to_vec (ix_codec E) (x_root vol) = Some m \<and> heads t = (heads s)(i \<mapsto> \<lparr>h_revision = x_revision vol, h_manifest = m\<rparr>)))
    (\<lambda>e t. ok t \<and> objs t = objs s \<and> (heads t = heads s \<or> heads s i = None \<and> e = Uncertain \<and> (\<exists>h. heads t = (heads s)(i \<mapsto> h)))) s"
    (is "post _ ?Q ?F s")
proof (cases "\<not> valid_id i \<or> sz = 0 \<or> MAX_SIZE < sz \<or> sz mod CHUNK_BYTES \<noteq> 0")
  case True
  then show ?thesis using assms by (auto simp: x_create_def create_inner_def post_throw)
next
  case False
  define r where "r = \<lparr>rt_format = 8, rt_volume = i, rt_size = sz, rt_generation = 0, rt_ready = True, rt_pages = [], rt_replication = None, rt_base = None\<rparr>"
  have new: "x_inv (fresh_handle r None rv) \<and> packed (fresh_handle r None rv) \<and> x_size (fresh_handle r None rv) = sz
      \<and> x_complete dg X B (fresh_handle r None rv) \<and> xdisk X B (fresh_handle r None rv) = zeros sz" for X rv
    using False empty_volume [of "fresh_handle r None rv"]
    by (auto simp: fresh_handle_def r_def x_inv_def root_valid_def packed_def x_size_def)
  show ?thesis
  proof (cases "c_to_vec (ix_codec E) r")
    case None
    then show ?thesis using assms False by (simp add: x_create_def create_inner_def r_def post_simps Let_def)
  next
    case (Some m)
    have "post (publish_new E r None m) ?Q ?F s"
      unfolding publish_new_def post_bind post_map_err
    proof (rule post_mono [OF publish_law [OF assms, of "rt_volume r" None m]])
      show "valid_id (rt_volume r)" using False by (simp add: r_def)
    qed (use new Some in \<open>auto simp: post_if post_throw post_return fresh_handle_def r_def publication_error_def split: verror.splits\<close>)
    then show ?thesis using False Some by (simp add: x_create_def create_inner_def r_def post_simps Let_def)
  qed
qed

text \<open>Whoever opens the volume after a publication sees the disk of the publisher.\<close>

lemma reopen:
  assumes s: "ok s" and inv: "x_inv vol" and clean: "x_dirty vol = []"
    and base: "\<forall>r. rt_base (x_root vol) = Some r \<longrightarrow> base_catalog dg B r (the (x_base vol))"
    and hd: "heads s (rt_volume (x_root vol)) = Some \<lparr>h_revision = x_revision vol, h_manifest = m\<rparr>" "c_to_vec (ix_codec E) (x_root vol) = Some m"
  shows "post (x_open E (rt_volume (x_root vol))) (\<lambda>w t. w = vol\<lparr>x_poisoned := False\<rparr> \<and> same s t) (\<lambda>_. same s) s"
proof (rule post_mono [OF x_open_post [OF s]])
  fix w t
  assume w: "same s t \<and> x_inv w \<and> x_dirty w = [] \<and> \<not> x_poisoned w \<and> rt_volume (x_root w) = rt_volume (x_root vol)
    \<and> (\<forall>r. rt_base (x_root w) = Some r \<longrightarrow> base_catalog dg B r (the (x_base w)))
    \<and> (\<exists>h. heads s (rt_volume (x_root vol)) = Some h \<and> x_revision w = h_revision h \<and> c_from_slice (ix_codec E) (h_manifest h) = Some (x_root w))"
  have "root_wf (x_root vol)" using inv by (simp add: x_inv_def root_wf_def)
  then have "c_from_slice (ix_codec E) m = Some (x_root vol)" using codec hd(2) unfolding codec_ok_def by blast
  moreover obtain h where h: "heads s (rt_volume (x_root vol)) = Some h" "x_revision w = h_revision h" "c_from_slice (ix_codec E) (h_manifest h) = Some (x_root w)"
    using w by blast
  moreover have "h = \<lparr>h_revision = x_revision vol, h_manifest = m\<rparr>" using h(1) hd(1) by simp
  ultimately have root: "x_root w = x_root vol" "x_revision w = x_revision vol" by simp_all
  have "x_base w = x_base vol"
  proof (cases "rt_base (x_root vol)")
    case None
    then show ?thesis using w inv root by (simp add: x_inv_def)
  next
    case (Some r)
    have "base_catalog dg B r (the (x_base w))" "base_catalog dg B r (the (x_base vol))" using w base root(1) Some by simp_all
    then have "the (x_base w) = the (x_base vol)" by (rule base_catalog_unique)
    moreover have "x_base w \<noteq> None" "x_base vol \<noteq> None" using w inv root(1) Some by (auto simp: x_inv_def)
    ultimately show ?thesis by auto
  qed
  then show "w = vol\<lparr>x_poisoned := False\<rparr> \<and> same s t"
    using w root clean by (cases w, cases vol) simp
qed

end

section \<open>A store, a clock and a serialisation\<close>

text \<open>
  An S3 service, a root serialisation that knows two roots of a one-block volume and a
  digest that tells the byte strings of a first commit apart.
\<close>

definition demo_digit :: "char \<Rightarrow> string" where
  "demo_digit c = replicate 63 (CHR ''0'') @ [c]"

definition demo_dg :: "bytes \<Rightarrow> string" where
  "demo_dg b = demo_digit (if b = zeros CHUNK_BYTES then CHR ''1'' else if length b = CHUNK_BYTES then CHR ''2'' else CHR ''3'')"

definition demo_root :: "nat \<Rightarrow> (nat, string) btree \<Rightarrow> root" where
  "demo_root g pages = \<lparr>rt_format = 8, rt_volume = ''vm'', rt_size = CHUNK_BYTES, rt_generation = g, rt_ready = True,
     rt_pages = pages, rt_replication = None, rt_base = None\<rparr>"

definition demo_roots :: "root codec" where
  "demo_roots = \<lparr>c_digest = demo_dg,
     c_to_vec = (\<lambda>r. if r = demo_root 0 [] then Some [0] else if r = demo_root 1 [(0, demo_digit (CHR ''3''))] then Some [1] else None),
     c_from_slice = (\<lambda>b. if b = [0] then Some (demo_root 0 []) else if b = [1] then Some (demo_root 1 [(0, demo_digit (CHR ''3''))]) else None)\<rparr>"

definition demo_now :: "service_state \<Rightarrow> nat \<times> service_state" where "demo_now s = (0, s)"

definition demo_sched :: "service_state \<Rightarrow> nat list" where "demo_sched s = []"

lemma demo_digit_valid: "hex_char c \<Longrightarrow> valid_hash (demo_digit c)"
  by (simp add: demo_digit_def valid_hash_iff hex_char_iff)

lemma demo_dg_valid: "valid_hash (demo_dg b)"
  unfolding demo_dg_def by (rule demo_digit_valid) (simp add: hex_char_iff)

interpretation demo_ix: s3_indexed "service_env demo_dg" demo_s3 sv_objects service_ok demo_roots demo_now demo_sched
proof
  show "codec_ok root_wf demo_roots"
    using demo_dg_valid by (auto simp: codec_ok_def demo_roots_def root_wf_def demo_root_def split: if_splits)
qed (simp_all add: demo_now_def)

definition demo_E :: "service_state ix_env" where
  "demo_E = \<lparr>ix_codec = demo_roots, ix_os = s3_store (service_env demo_dg) demo_s3, ix_now = demo_now, ix_sched = demo_sched\<rparr>"

abbreviation demo_ok :: "service_state \<Rightarrow> bool" where
  "demo_ok \<equiv> with_bases demo_s3 sv_objects service_ok (\<lambda>_ _. None)"

lemma demo_indexed: "indexed_store demo_E (s3_heads demo_s3 sv_objects) (s3_objs demo_s3 sv_objects) demo_ok (\<lambda>_ _. None)"
  using demo_ix.indexed.indexed_store_axioms [of "\<lambda>_ _. None"] by (simp add: demo_E_def demo_ix.ixe_def)

text \<open>A fresh volume with one block written.\<close>

definition demo_service :: service_state where
  "demo_service = \<lparr>sv_objects = (\<lambda>u. if u = s3_url demo_s3 ''vm'' ''head.json'' then Some (service_tag 0, [0]) else None), sv_count = 0\<rparr>"

definition demo_handle :: "(nat, bytes) btree \<Rightarrow> indexed" where
  "demo_handle d = \<lparr>x_root = demo_root 0 [], x_base = None, x_revision = service_tag 0, x_dirty = d, x_poisoned = False\<rparr>"

lemma demo_state: "demo_ok demo_service" "s3_objs demo_s3 sv_objects demo_service = (\<lambda>_ _. None)"
proof -
  have "s3_url demo_s3 v (''chunks/'' @ d) \<noteq> s3_url demo_s3 ''vm'' ''head.json''" if "valid_id v" for v d
    using s3_url_inject [OF that demo_valid(1)] by simp
  then show o: "s3_objs demo_s3 sv_objects demo_service = (\<lambda>_ _. None)"
    by (auto simp: s3_objs_def demo_service_def fun_eq_iff)
  have "s3_base_view demo_s3 sv_objects demo_service = (\<lambda>_ _. None)"
    using base_url_apart [OF _ demo_valid(1) s3_suffix_simps(1)]
    by (auto simp: s3_base_view_def s3_objs_def demo_service_def fun_eq_iff)
  then show "demo_ok demo_service"
    by (auto simp: with_bases_def service_ok_def demo_service_def)
qed

lemma demo_handle_facts:
  assumes "\<forall>(i, b) \<in> set d. i = 0 \<and> length b = CHUNK_BYTES" "bt_ok d"
  shows "x_inv (demo_handle d)" "packed (demo_handle d)" "x_complete dg X B (demo_handle d)"
proof -
  have "CHUNK_BYTES \<le> MAX_SIZE" by (simp add: CHUNK_BYTES_def MAX_SIZE_def)
  then show "x_inv (demo_handle d)"
    using assms demo_valid(1) by (auto simp: x_inv_def demo_handle_def demo_root_def root_valid_def x_size_def)
  show "packed (demo_handle d)" by (simp add: packed_def demo_handle_def demo_root_def)
  have "x_complete dg X B (demo_handle [])"
    by (rule empty_volume) (simp_all add: demo_handle_def demo_root_def packed_def)
  then show "x_complete dg X B (demo_handle d)" using view_cong(4) [of "demo_handle d" "demo_handle []"] by (simp add: demo_handle_def)
qed

lemma chunks_of_single: "0 < n \<Longrightarrow> chunks_of n [x] = [[x]]"
  by (simp add: chunks_of.simps [of n "[x]"] chunks_of.simps [of n "[]"])

lemma demo_plan_objects:
  assumes run: "commit_plan demo_dg force (demo_handle d) (vpage X B (demo_handle d)) (bpage X B (demo_handle d)) [] = Ok pl"
    and d: "bt_ok d" "\<forall>e \<in> set d. e = (0, b)" and b: "length b = CHUNK_BYTES"
  shows "\<exists>p. length p = PACK_PAGE_BYTES \<and> plan_objects pl \<subseteq> {b, p}"
proof -
  have facts: "packed (demo_handle d)" "x_complete demo_dg X B (demo_handle d)"
    using demo_handle_facts(2,3) [OF _ d(1)] b d(2) by fastforce+
  have ds: "x_dirty (demo_handle d) = d" by (simp add: demo_handle_def)
  obtain chunks where c: "bt_ok chunks" "\<forall>(h, a) \<in> set chunks. h = demo_dg a \<and> a \<in> snd ` set d"
      "snd ` set (pl_uploads pl) \<subseteq> pack_of ` set (chunks_of (MAX_OBJECT_BYTES div CHUNK_BYTES) chunks) \<union> snd ` set (pl_pages pl)"
      "framed (pl_pages pl)" "fst ` set (pl_pages pl) = touched d"
    by (rule commit_plan_uploads [OF run page_wfD [OF complete_wf(1) [OF facts(2,1)]] _ _ demo_dg_valid bt_ok_Nil, unfolded ds]) (use b d in auto)
  have single: "xs = [] \<or> xs = [x]" if "bt_ok xs" "\<forall>y \<in> set xs. y = x" for xs :: "('k :: linorder \<times> 'v) list" and x
    using that by (cases xs; cases "tl xs"; cases x) auto
  have "\<forall>y \<in> set chunks. y = (demo_dg b, b)" using c(2) d(2) by fastforce
  from single [OF c(1) this]
  have packs: "pack_of ` set (chunks_of (MAX_OBJECT_BYTES div CHUNK_BYTES) chunks) \<subseteq> {b}"
  proof
    assume "chunks = []"
    then show ?thesis by (simp add: chunks_of.simps [of _ "[]"])
  next
    assume "chunks = [(demo_dg b, b)]"
    then show ?thesis by (simp only: chunks_of_single [OF object_blocks(2)]) (simp add: pack_of_def)
  qed
  obtain p where p: "length p = PACK_PAGE_BYTES" "snd ` set (pl_pages pl) \<subseteq> {p}"
  proof (cases "pl_pages pl")
    case Nil
    then show ?thesis using that [of "zeros PACK_PAGE_BYTES"] by simp
  next
    case (Cons x xs)
    have k: "fst ` set (pl_pages pl) \<subseteq> {0}" unfolding c(5) touched_def using d(2) by auto
    have ok: "bt_ok (x # xs)" "bt_get (x # xs) pi = Some p \<Longrightarrow> page_frame pi p" for pi p using c(4) unfolding Cons framed_def by blast+
    have "fst x = 0" "xs = []" using k ok(1) unfolding Cons by (cases x; cases xs; auto)+
    then have "pl_pages pl = [(0, snd x)]" "page_frame 0 (snd x)" using ok(2) [of 0 "snd x"] Cons by (cases x; simp)+
    then show thesis using that [of "snd x"] frame_length by simp
  qed
  have "plan_objects pl \<subseteq> {b} \<union> {p}"
    unfolding plan_objects_def using subset_trans [OF c(3) Un_mono [OF packs p(2)]] le_supI2 [OF p(2)] by (rule Un_least)
  then show ?thesis using p(1) by (intro exI [of _ p]) (simp add: insert_commute)
qed

lemma demo_slot_digest: "slot_digest (demo_dg b)"
proof -
  have "demo_dg b ! 63 \<noteq> CHR ''0''" by (simp add: demo_dg_def demo_digit_def nth_append)
  then have "demo_dg b \<noteq> replicate 64 (CHR ''0'')" by (metis nth_replicate numeral_less_iff semiring_norm(76,78,81))
  then show ?thesis using demo_dg_valid all_zero_pairs [OF demo_dg_valid] by (simp add: slot_digest_def raw_hash_def)
qed

lemma demo_blank: "committed_block (\<lambda>_ _. None) (\<lambda>_ _. None) (demo_handle d) i = zeros CHUNK_BYTES"
proof -
  have "committed_block (\<lambda>_ _. None) (\<lambda>_ _. None) (demo_handle d) i = committed_block (\<lambda>_ _. None) (\<lambda>_ _. None) (demo_handle []) i"
    using view_cong(3) [of "demo_handle d" "demo_handle []"] by (simp add: demo_handle_def)
  then show ?thesis
    using unbased_slot [of "demo_handle []"] demo_handle_facts(2) [of "[]"]
    by (simp add: committed_block_def slot_block_def vpage_def page_view_def raw_page_def demo_handle_def demo_root_def inherits_def
        frame_page_slot [OF blank_packed(1)] blank_packed(2))
qed

lemma demo_sound:
  assumes d: "bt_ok d" "\<forall>e \<in> set d. e = (0, b)" and b: "length b = CHUNK_BYTES"
  shows "digest_sound demo_dg (commit_objects demo_dg force (\<lambda>_ _. None) (\<lambda>_ _. None) (demo_handle d))"
proof -
  let ?v = "demo_handle d"
  have known: "known_objects (\<lambda>_ _. None) (\<lambda>_ _. None) ?v \<subseteq> {zeros CHUNK_BYTES, b}"
    using demo_blank [of d] d(2) by (auto simp: known_objects_def demo_handle_def)
  obtain p where p: "length p = PACK_PAGE_BYTES" "commit_objects demo_dg force (\<lambda>_ _. None) (\<lambda>_ _. None) ?v \<subseteq> {zeros CHUNK_BYTES, b, p}"
  proof (cases "commit_plan demo_dg force ?v (vpage (\<lambda>_ _. None) (\<lambda>_ _. None) ?v) (bpage (\<lambda>_ _. None) (\<lambda>_ _. None) ?v) (rt_pages (x_root ?v))")
    case (Ok pl)
    have "rt_pages (x_root ?v) = []" by (simp add: demo_handle_def demo_root_def)
    from demo_plan_objects [OF Ok [unfolded this] d b]
    obtain p where "length p = PACK_PAGE_BYTES" "plan_objects pl \<subseteq> {b, p}" by blast
    then show ?thesis using that [of p] Ok known by (auto simp: commit_objects_def)
  next
    case (Err e)
    then show ?thesis using that [of "zeros PACK_PAGE_BYTES"] known by (auto simp: commit_objects_def)
  qed
  have "PACK_PAGE_BYTES \<noteq> CHUNK_BYTES" by (simp add: PACK_PAGE_BYTES_def CHUNK_BYTES_def)
  then have "inj_on demo_dg {zeros CHUNK_BYTES, b, p}"
    using b p(1) by (auto simp: inj_on_def demo_dg_def demo_digit_def)
  then show ?thesis using p(2) demo_slot_digest by (auto simp: digest_sound_def intro: inj_on_subset)
qed

abbreviation demo_heads :: "service_state \<Rightarrow> heads_view" where "demo_heads \<equiv> s3_heads demo_s3 sv_objects"

abbreviation demo_objs :: "service_state \<Rightarrow> objs_view" where "demo_objs \<equiv> s3_objs demo_s3 sv_objects"

abbreviation no_images :: base_view where "no_images \<equiv> \<lambda>_ _. None"

text \<open>A one-block volume of the service with one block buffered.\<close>

abbreviation demo_written :: indexed where "demo_written \<equiv> demo_handle [(0, demo_chunk)]"

lemma demo_chunk_length: "length demo_chunk = CHUNK_BYTES"
  by (simp add: demo_chunk_def CHUNK_BYTES_def)

lemma demo_written_facts:
  "demo_ok demo_service" "x_inv demo_written" "packed demo_written"
  "x_complete (c_digest (ix_codec demo_E)) (demo_objs demo_service) no_images demo_written"
  "digest_sound (c_digest (ix_codec demo_E))
     (commit_objects (c_digest (ix_codec demo_E)) False (demo_objs demo_service) no_images demo_written)"
  using demo_state demo_handle_facts [of "[(0, demo_chunk)]"] demo_sound [of "[(0, demo_chunk)]" demo_chunk False]
  by (simp_all add: demo_chunk_length demo_E_def demo_roots_def)

section \<open>Properties of indexed volumes\<close>

text \<open>The head that the store holds is the root of this handle.\<close>

definition current :: "'s ix_env \<Rightarrow> heads_view \<Rightarrow> indexed \<Rightarrow> bool" where
  "current E hs vol \<longleftrightarrow> (\<exists>m. c_to_vec (ix_codec E) (x_root vol) = Some m
     \<and> hs (rt_volume (x_root vol)) = Some \<lparr>h_revision = x_revision vol, h_manifest = m\<rparr>)"

text \<open>The catalog that the handle carries is the one of its base image.\<close>

definition catalog_current :: "(bytes \<Rightarrow> string) \<Rightarrow> base_view \<Rightarrow> indexed \<Rightarrow> bool" where
  "catalog_current dg B vol \<longleftrightarrow> (\<forall>r. rt_base (x_root vol) = Some r \<longrightarrow> base_catalog dg B r (the (x_base vol)))"

text \<open>
  C8. Over any store that keeps its contract, a read of an indexed volume returns
  exactly the requested slice of the disk that its pages, packs, base image and buffered
  blocks stand for, and neither a read that succeeds nor one that fails changes the store.
\<close>

theorem indexed_read_correct:
  assumes "indexed_store E heads objs ok B" "ok s" "x_inv vol"
  shows "post (x_read E vol offset buf)
    (\<lambda>out s'. ok s' \<and> heads s' = heads s \<and> objs s' = objs s \<and> \<not> x_poisoned vol \<and> offset + length buf \<le> x_size vol
       \<and> out = slice_of (xdisk (objs s) B vol) offset (offset + length buf))
    (\<lambda>_ s'. ok s' \<and> heads s' = heads s \<and> objs s' = objs s) s"
  by (rule post_mono [OF indexed_store.x_read_post [OF assms]]) (auto simp: indexed_store.same_def [OF assms(1)])

theorem indexed_read_correct_witness:
  "post (x_read demo_E demo_written 1 (zeros 3))
    (\<lambda>out s'. demo_ok s' \<and> demo_heads s' = demo_heads demo_service
       \<and> demo_objs s' = demo_objs demo_service
       \<and> \<not> x_poisoned demo_written \<and> 1 + length (zeros 3) \<le> x_size demo_written
       \<and> out = slice_of (xdisk (demo_objs demo_service) no_images demo_written) 1 (1 + length (zeros 3)))
    (\<lambda>_ s'. demo_ok s' \<and> demo_heads s' = demo_heads demo_service
       \<and> demo_objs s' = demo_objs demo_service) demo_service"
  by (rule indexed_read_correct [OF demo_indexed demo_written_facts(1,2)])














text \<open>
  A volume that is created is a disk of zeros of the requested size whose root is
  the head of the store, and no head of a volume that exists is ever overwritten.
\<close>

theorem indexed_create_fresh:
  assumes "indexed_store E heads objs ok B" "ok s"
  shows "post (x_create E i sz)
    (\<lambda>vol s'. heads s i = None \<and> x_inv vol \<and> packed vol \<and> x_complete (c_digest (ix_codec E)) (objs s') B vol
       \<and> current E (heads s') vol \<and> x_size vol = sz \<and> xdisk (objs s') B vol = zeros sz \<and> objs s' = objs s)
    (\<lambda>e s'. objs s' = objs s \<and> (heads s' = heads s \<or> heads s i = None \<and> e = Uncertain)) s"
  by (rule post_mono [OF indexed_store.x_create_post [OF assms]]) (auto simp: current_def)

theorem indexed_create_fresh_witness:
  "post (x_create demo_E ''disk'' CHUNK_BYTES)
    (\<lambda>vol s'. demo_heads demo_service ''disk'' = None \<and> x_inv vol \<and> packed vol \<and> x_complete (c_digest (ix_codec demo_E)) (demo_objs s') no_images vol
       \<and> current demo_E (demo_heads s') vol \<and> x_size vol = CHUNK_BYTES \<and> xdisk (demo_objs s') no_images vol = zeros CHUNK_BYTES
       \<and> demo_objs s' = demo_objs demo_service)
    (\<lambda>e s'. demo_objs s' = demo_objs demo_service
       \<and> (demo_heads s' = demo_heads demo_service \<or> demo_heads demo_service ''disk'' = None \<and> e = Uncertain)) demo_service"
  by (rule indexed_create_fresh [OF demo_indexed demo_state(1)])


text \<open>
  C11. Every handle that opening returns is well formed, whatever bytes the store holds:
  its root passed validation, its page table is ordered, its catalog has the size of the
  volume, and it is clean and not poisoned.
\<close>

theorem indexed_open_typed:
  assumes "indexed_store E heads objs ok B" "ok s"
  shows "post (x_open E i)
    (\<lambda>vol s'. x_inv vol \<and> x_dirty vol = [] \<and> \<not> x_poisoned vol \<and> rt_volume (x_root vol) = i
       \<and> catalog_current (c_digest (ix_codec E)) B vol \<and> heads s' = heads s \<and> objs s' = objs s)
    (\<lambda>_ s'. heads s' = heads s \<and> objs s' = objs s) s"
  by (rule post_mono [OF indexed_store.x_open_post [OF assms]]) (auto simp: catalog_current_def indexed_store.same_def [OF assms(1)])

theorem indexed_open_typed_witness:
  "post (x_open demo_E ''vm'')
    (\<lambda>vol s'. x_inv vol \<and> x_dirty vol = [] \<and> \<not> x_poisoned vol \<and> rt_volume (x_root vol) = ''vm''
       \<and> catalog_current (c_digest (ix_codec demo_E)) no_images vol \<and> demo_heads s' = demo_heads demo_service \<and> demo_objs s' = demo_objs demo_service)
    (\<lambda>_ s'. demo_heads s' = demo_heads demo_service \<and> demo_objs s' = demo_objs demo_service) demo_service"
  by (rule indexed_open_typed [OF demo_indexed demo_state(1)])


end
