(* ===== verification/Quotas.thy ===== *)
theory Quotas
  imports BTree_Map "HOL-Library.Multiset"
begin

text \<open>
  Admission of sandboxes and snapshots by the daemon (\<open>ahvm-daemon/src/quotas.rs\<close>), over
  the rows of the metadata store (\<open>ahvm-store/src/lib.rs\<close>, \<open>entities.rs\<close>) and with the
  errors of the API (\<open>ahvm-daemon/src/lib.rs\<close>). A registry keeps one hold per operation
  in flight. The theory shows that along every interleaving of reservations, commits and
  releases no user exceeds a quota, and which hypothesis this needs.

  Signed 64-bit integers are \<open>int\<close>; the additions of the accounting loop wrap around as
  they do in a release build.
\<close>

section \<open>Errors of the API\<close>

datatype api_error =
  Unauthorized
  | Forbidden string
  | Api_Not_Found string
  | Api_Conflict string
  | Invalid string
  | Unavailable string
  | Internal string

datatype store_error =
  Sqlite string
  | Store_Not_Found string
  | Store_Conflict string
  | Json string

definition api_status :: "api_error \<Rightarrow> nat" where
  "api_status e = (case e of
       Unauthorized \<Rightarrow> 401
     | Forbidden _ \<Rightarrow> 403
     | Api_Not_Found _ \<Rightarrow> 404
     | Api_Conflict _ \<Rightarrow> 409
     | Invalid _ \<Rightarrow> 422
     | Unavailable _ \<Rightarrow> 502
     | Internal _ \<Rightarrow> 500)"

definition api_code :: "api_error \<Rightarrow> string" where
  "api_code e = (case e of
       Unauthorized \<Rightarrow> ''unauthorized''
     | Forbidden m \<Rightarrow> if m = ''replicated storage quota exceeded'' then ''disk_quota_reached'' else ''forbidden''
     | Api_Not_Found _ \<Rightarrow> ''not_found''
     | Api_Conflict m \<Rightarrow>
         if m = ''installed Ubuntu base verification is pending'' then ''project_image_base_verifying''
         else if m = ''installed Ubuntu base does not match its frozen digest'' then ''project_image_base_invalid''
         else if m = ''project image storage quota exceeded'' then ''project_image_quota_reached''
         else if m = ''project image disk headroom is unavailable'' then ''project_image_headroom_unavailable''
         else if m = ''project image storage is not configured'' then ''project_image_storage_unavailable''
         else ''conflict''
     | Invalid m \<Rightarrow> if m = ''builder disk exceeds image limit'' then ''project_image_size_invalid'' else ''invalid''
     | Unavailable _ \<Rightarrow> ''backend_unavailable''
     | Internal _ \<Rightarrow> ''internal'')"

definition store_error_text :: "store_error \<Rightarrow> string" where
  "store_error_text e = (case e of
       Sqlite m \<Rightarrow> ''sqlite: '' @ m
     | Store_Not_Found m \<Rightarrow> ''not found: '' @ m
     | Store_Conflict m \<Rightarrow> ''conflict: '' @ m
     | Json m \<Rightarrow> ''json: '' @ m)"

definition api_of_store :: "store_error \<Rightarrow> api_error" where
  "api_of_store e = (case e of
       Store_Not_Found m \<Rightarrow> Api_Not_Found m
     | Store_Conflict m \<Rightarrow> Api_Conflict m
     | _ \<Rightarrow> Internal (store_error_text e))"

definition from_store :: "('a, store_error) result \<Rightarrow> ('a, api_error) result" where
  "from_store r = (case r of Ok x \<Rightarrow> Ok x | Err e \<Rightarrow> Err (api_of_store e))"

section \<open>Rows of the store\<close>

datatype backend = Krucible | Firecracker

record user =
  u_id :: string
  u_name :: string
  u_api_key_hash :: string
  u_max_sandboxes :: int
  u_max_cpus :: int
  u_max_memory_mb :: int
  u_max_volumes_mb :: int
  u_max_snapshots :: int
  u_created_at :: int
  u_updated_at :: int

record sandbox =
  sb_id :: string
  sb_owner_user_id :: string
  sb_name :: string
  sb_backend :: backend
  sb_state :: string
  sb_thermal :: string
  sb_cpus :: int
  sb_memory_mb :: int
  sb_ip :: string
  sb_created_at :: int
  sb_updated_at :: int

text \<open>
  The tables that admission reads: the ids of the users, the sandboxes, and the owner of
  every snapshot. A broken connection makes every statement fail.
\<close>

record tables =
  tb_users :: "string list"
  tb_sandboxes :: "sandbox list"
  tb_snapshots :: "string list"
  tb_broken :: "string option"

definition I64_MAX :: int where "I64_MAX = 2 ^ 63 - 1"

definition with_conn :: "tables \<Rightarrow> ('a, store_error) result \<Rightarrow> ('a, store_error) result" where
  "with_conn st r = (case tb_broken st of Some m \<Rightarrow> Err (Sqlite m) | None \<Rightarrow> r)"

text \<open>\<open>SELECT \<dots> WHERE owner_user_id = ?1 AND \<dots> ORDER BY created_at DESC, id DESC LIMIT ?4\<close>.\<close>

definition list_sandboxes :: "tables \<Rightarrow> string \<Rightarrow> (int \<times> string) option \<Rightarrow> nat \<Rightarrow> (sandbox list, store_error) result" where
  "list_sandboxes st owner after limit =
     (let (after_ts, after_id) = (case after of None \<Rightarrow> (I64_MAX, '''') | Some a \<Rightarrow> a) in
      with_conn st (Ok (take limit (rev (sort_key (\<lambda>r. (sb_created_at r, sb_id r))
        (filter (\<lambda>r. sb_owner_user_id r = owner
           \<and> (sb_created_at r < after_ts \<or> sb_created_at r = after_ts \<and> sb_id r < after_id)) (tb_sandboxes st)))))))"

definition get_sandbox :: "tables \<Rightarrow> string \<Rightarrow> (sandbox, store_error) result" where
  "get_sandbox st i =
     with_conn st (case find (\<lambda>r. sb_id r = i) (tb_sandboxes st) of
       None \<Rightarrow> Err (Store_Not_Found (''sandbox '' @ i)) | Some r \<Rightarrow> Ok r)"

text \<open>\<open>INSERT\<close>, \<open>UPDATE\<close> and \<open>DELETE\<close>; the primary key and the owner's foreign key are checked.\<close>

definition create_sandbox :: "tables \<Rightarrow> sandbox \<Rightarrow> (tables, store_error) result" where
  "create_sandbox st r =
     with_conn st (if sb_id r \<in> sb_id ` set (tb_sandboxes st) then Err (Sqlite ''UNIQUE constraint failed: sandboxes.id'')
       else if sb_owner_user_id r \<notin> set (tb_users st) then Err (Sqlite ''FOREIGN KEY constraint failed'')
       else Ok (st\<lparr>tb_sandboxes := tb_sandboxes st @ [r]\<rparr>))"

definition set_sandbox_state :: "tables \<Rightarrow> string \<Rightarrow> string \<Rightarrow> string \<Rightarrow> int \<Rightarrow> (tables, store_error) result" where
  "set_sandbox_state st i state thermal now =
     with_conn st (if i \<notin> sb_id ` set (tb_sandboxes st) then Err (Store_Not_Found (''sandbox '' @ i))
       else Ok (st\<lparr>tb_sandboxes := map (\<lambda>r. if sb_id r = i
          then r\<lparr>sb_state := state, sb_thermal := thermal, sb_updated_at := now\<rparr> else r) (tb_sandboxes st)\<rparr>))"

definition delete_sandbox :: "tables \<Rightarrow> string \<Rightarrow> (tables, store_error) result" where
  "delete_sandbox st i = with_conn st (Ok (st\<lparr>tb_sandboxes := filter (\<lambda>r. sb_id r \<noteq> i) (tb_sandboxes st)\<rparr>))"

definition count_snapshots :: "tables \<Rightarrow> string \<Rightarrow> (int, store_error) result" where
  "count_snapshots st owner = with_conn st (Ok (int (length (filter (\<lambda>q. q = owner) (tb_snapshots st)))))"

section \<open>The registry of holds\<close>

record sandbox_hold =
  hd_owner :: string
  hd_cpus :: int
  hd_mem_mb :: int

record quota_registry =
  qr_sandboxes :: "(string, sandbox_hold) btree"
  qr_snapshots :: "(string \<times> string, unit) btree"

definition new_registry :: quota_registry where
  "new_registry = \<lparr>qr_sandboxes = [], qr_snapshots = []\<rparr>"

definition wrap_i64 :: "int \<Rightarrow> int" where
  "wrap_i64 x = (x + 2 ^ 63) mod 2 ^ 64 - 2 ^ 63"

definition show_int :: "int \<Rightarrow> string" where
  "show_int x = (if x < 0 then CHR ''-'' # show_nat (nat (- x)) else show_nat (nat x))"

type_synonym charge = "int \<times> int \<times> int"

definition resident_state :: "string \<Rightarrow> bool" where
  "resident_state s \<longleftrightarrow> s = ''running'' \<or> s = ''creating'' \<or> s = ''paused''"

fun charge_rows :: "(string, sandbox_hold) btree \<Rightarrow> string \<Rightarrow> string \<Rightarrow> sandbox list \<Rightarrow> charge \<Rightarrow> charge" where
  "charge_rows holds user i [] acc = acc"
| "charge_rows holds user i (row # rows) (n, cpu, mem) =
     (if sb_id row = i \<or> (case bt_get holds (sb_id row) of None \<Rightarrow> False | Some h \<Rightarrow> hd_owner h = user)
      then charge_rows holds user i rows (n, cpu, mem)
      else
        (let n' = (if sb_state row \<noteq> ''failed'' then wrap_i64 (n + 1) else n);
             (cpu', mem') = (if resident_state (sb_state row)
               then (wrap_i64 (cpu + sb_cpus row), wrap_i64 (mem + sb_memory_mb row)) else (cpu, mem)) in
         charge_rows holds user i rows (n', cpu', mem')))"

fun charge_holds :: "string \<Rightarrow> (string, sandbox_hold) btree \<Rightarrow> charge \<Rightarrow> charge" where
  "charge_holds user [] acc = acc"
| "charge_holds user ((_, h) # holds) (n, cpu, mem) =
     (if hd_owner h = user
      then charge_holds user holds (wrap_i64 (n + 1), wrap_i64 (cpu + hd_cpus h), wrap_i64 (mem + hd_mem_mb h))
      else charge_holds user holds (n, cpu, mem))"

definition reserve_locked ::
  "tables \<Rightarrow> user \<Rightarrow> string \<Rightarrow> int \<Rightarrow> int \<Rightarrow> quota_registry \<Rightarrow> (string, api_error) result \<times> quota_registry" where
  "reserve_locked st u i cpus mem_mb rg =
     (if bt_get (qr_sandboxes rg) i \<noteq> None
      then (Err (Api_Conflict (''sandbox '' @ i @ '' has admission in progress'')), rg)
      else
        (case from_store (list_sandboxes st (u_id u) None 100000) of
           Err e \<Rightarrow> (Err e, rg)
         | Ok rows \<Rightarrow>
             (let (n, cpu_sum, mem_sum) =
                    charge_holds (u_id u) (qr_sandboxes rg) (charge_rows (qr_sandboxes rg) (u_id u) i rows (0, 0, 0)) in
              if u_max_sandboxes u < wrap_i64 (n + 1)
              then (Err (Forbidden (''sandbox quota exceeded (max '' @ show_int (u_max_sandboxes u) @ '')'')), rg)
              else if u_max_cpus u < wrap_i64 (cpu_sum + cpus)
              then (Err (Forbidden (''cpu quota exceeded (max '' @ show_int (u_max_cpus u) @ '')'')), rg)
              else if u_max_memory_mb u < wrap_i64 (mem_sum + mem_mb)
              then (Err (Forbidden (''memory quota exceeded (max '' @ show_int (u_max_memory_mb u) @ '' MB)'')), rg)
              else (Ok i, rg\<lparr>qr_sandboxes := bt_insert i \<lparr>hd_owner = u_id u, hd_cpus = cpus, hd_mem_mb = mem_mb\<rparr> (qr_sandboxes rg)\<rparr>))))"

definition reserve_sandbox ::
  "tables \<Rightarrow> user \<Rightarrow> string \<Rightarrow> int \<Rightarrow> int \<Rightarrow> quota_registry \<Rightarrow> (string, api_error) result \<times> quota_registry" where
  "reserve_sandbox st u i cpus mem_mb rg = reserve_locked st u i cpus mem_mb rg"

definition reserve_start ::
  "tables \<Rightarrow> user \<Rightarrow> string \<Rightarrow> quota_registry \<Rightarrow> (string, api_error) result \<times> quota_registry" where
  "reserve_start st u i rg =
     (case from_store (get_sandbox st i) of
        Err e \<Rightarrow> (Err e, rg)
      | Ok row \<Rightarrow>
          if sb_owner_user_id row \<noteq> u_id u then (Err (Api_Not_Found (''sandbox '' @ i)), rg)
          else reserve_locked st u i (sb_cpus row) (sb_memory_mb row) rg)"

definition reserve_snapshot ::
  "tables \<Rightarrow> user \<Rightarrow> string \<Rightarrow> quota_registry \<Rightarrow> (string \<times> string, api_error) result \<times> quota_registry" where
  "reserve_snapshot st u name rg =
     (if bt_get (qr_snapshots rg) (u_id u, name) \<noteq> None
      then (Err (Api_Conflict (''snapshot '' @ name @ '' is already being created'')), rg)
      else
        (case from_store (count_snapshots st (u_id u)) of
           Err e \<Rightarrow> (Err e, rg)
         | Ok committed \<Rightarrow>
             (let held = int (length (filter (\<lambda>((owner, _), _). owner = u_id u) (qr_snapshots rg))) in
              if u_max_snapshots u < wrap_i64 (wrap_i64 (committed + held) + 1)
              then (Err (Forbidden (''snapshot quota exceeded (max '' @ show_int (u_max_snapshots u) @ '')'')), rg)
              else (Ok (u_id u, name), rg\<lparr>qr_snapshots := bt_insert (u_id u, name) () (qr_snapshots rg)\<rparr>))))"

definition drop_sandbox :: "string \<Rightarrow> quota_registry \<Rightarrow> quota_registry" where
  "drop_sandbox i rg = rg\<lparr>qr_sandboxes := bt_remove i (qr_sandboxes rg)\<rparr>"

definition drop_snapshot :: "string \<times> string \<Rightarrow> quota_registry \<Rightarrow> quota_registry" where
  "drop_snapshot k rg = rg\<lparr>qr_snapshots := bt_remove k (qr_snapshots rg)\<rparr>"

section \<open>What a user is charged\<close>

text \<open>
  A hold replaces the row of the same sandbox and owner. The charge of a user is taken
  over the rows that no hold replaces and over the user's holds, for the three measures
  of the quota: sandboxes, CPUs and memory.
\<close>

type_synonym holds = "(string, sandbox_hold) btree"

definition replaced_by_hold :: "holds \<Rightarrow> string \<Rightarrow> string \<Rightarrow> bool" where
  "replaced_by_hold holds o' i = (case bt_get holds i of None \<Rightarrow> False | Some h \<Rightarrow> hd_owner h = o')"

definition visible :: "holds \<Rightarrow> string \<Rightarrow> sandbox \<Rightarrow> bool" where
  "visible holds o' r \<longleftrightarrow> sb_owner_user_id r = o' \<and> \<not> replaced_by_hold holds o' (sb_id r)"

definition charged :: "(sandbox \<Rightarrow> int) \<Rightarrow> (sandbox_hold \<Rightarrow> int) \<Rightarrow> sandbox list \<Rightarrow> holds \<Rightarrow> string \<Rightarrow> int" where
  "charged wr wh rows holds o' =
     (\<Sum>r\<leftarrow>filter (visible holds o') rows. wr r) + (\<Sum>(i, h)\<leftarrow>filter (\<lambda>(_, h). hd_owner h = o') holds. wh h)"

definition row_count :: "sandbox \<Rightarrow> int" where
  "row_count r = (if sb_state r \<noteq> ''failed'' then 1 else 0)"

definition row_cpus :: "sandbox \<Rightarrow> int" where
  "row_cpus r = (if resident_state (sb_state r) then sb_cpus r else 0)"

definition row_memory :: "sandbox \<Rightarrow> int" where
  "row_memory r = (if resident_state (sb_state r) then sb_memory_mb r else 0)"

text \<open>Sizes as the daemon accepts them; far below the limit where a sum could wrap around.\<close>

definition sane_size :: "int \<Rightarrow> bool" where
  "sane_size x \<longleftrightarrow> 0 \<le> x \<and> x \<le> 2 ^ 32"

definition sane_row :: "sandbox \<Rightarrow> bool" where
  "sane_row r \<longleftrightarrow> sane_size (sb_cpus r) \<and> sane_size (sb_memory_mb r)"

definition sane_hold :: "sandbox_hold \<Rightarrow> bool" where
  "sane_hold h \<longleftrightarrow> sane_size (hd_cpus h) \<and> sane_size (hd_mem_mb h)"

definition covers :: "sandbox_hold \<Rightarrow> sandbox \<Rightarrow> bool" where
  "covers h r \<longleftrightarrow> sb_cpus r \<le> hd_cpus h \<and> sb_memory_mb r \<le> hd_mem_mb h"

definition lighter :: "string \<Rightarrow> string \<Rightarrow> bool" where
  "lighter new old \<longleftrightarrow> (old = ''failed'' \<longrightarrow> new = ''failed'') \<and> (resident_state new \<longrightarrow> resident_state old)"

definition others :: "string \<Rightarrow> sandbox list \<Rightarrow> sandbox list" where
  "others i rows = filter (\<lambda>r. sb_id r \<noteq> i) rows"

text \<open>The laws that the three measures share.\<close>

locale quota_measure =
  fixes wr :: "sandbox \<Rightarrow> int" and wh :: "sandbox_hold \<Rightarrow> int"
  assumes row_nonneg: "sane_row r \<Longrightarrow> 0 \<le> wr r"
    and row_covered: "sane_row r \<Longrightarrow> sane_hold h \<Longrightarrow> covers h r \<Longrightarrow> wr r \<le> wh h"
    and hold_nonneg: "sane_hold h \<Longrightarrow> 0 \<le> wh h"
    and row_lighter: "sane_row r \<Longrightarrow> lighter st' (sb_state r) \<Longrightarrow> wr (r\<lparr>sb_state := st', sb_thermal := th, sb_updated_at := now\<rparr>) \<le> wr r"
begin
lemma hold_sum_insert:
  "bt_get holds i = None \<Longrightarrow>
   (\<Sum>(k, h)\<leftarrow>filter (\<lambda>(_, h). hd_owner h = o') (bt_insert i h holds). wh h)
     = (\<Sum>(k, h)\<leftarrow>filter (\<lambda>(_, h). hd_owner h = o') holds. wh h) + (if hd_owner h = o' then wh h else 0)"
  by (induction holds) (auto split: if_splits)

lemma visible_sum_split:
  "(\<Sum>r\<leftarrow>filter (visible holds o') rows. wr r) =
     (\<Sum>r\<leftarrow>filter (visible holds o') (others i rows). wr r) + (\<Sum>r\<leftarrow>filter (\<lambda>r. sb_id r = i \<and> visible holds o' r) rows. wr r)"
  by (induction rows) (auto simp: others_def)

lemma visible_sum_others:
  assumes "bt_ok holds" "hd_owner h = o'"
  shows "filter (visible (bt_insert i h holds) o') rows = filter (visible holds o') (others i rows)"
  using assms by (auto simp: others_def visible_def replaced_by_hold_def bt_get_insert intro!: filter_cong split: if_splits)

lemma charged_insert:
  assumes "bt_ok holds" "bt_get holds i = None"
  shows "charged wr wh rows (bt_insert i h holds) o' =
    (if hd_owner h = o' then charged wr wh (others i rows) holds o' + wh h else charged wr wh rows holds o')"
proof (cases "hd_owner h = o'")
  case True
  then show ?thesis
    using visible_sum_others [OF assms(1) True, of i rows] hold_sum_insert [OF assms(2), of o' h] by (simp add: charged_def)
next
  case False
  then have "visible (bt_insert i h holds) o' = visible holds o'"
    using assms by (auto simp: visible_def replaced_by_hold_def bt_get_insert fun_eq_iff)
  then show ?thesis using False hold_sum_insert [OF assms(2), of o' h] by (simp add: charged_def)
qed

lemma single_row:
  assumes "distinct (map sb_id rows)" "\<forall>r \<in> set rows. sane_row r"
    "0 \<le> c" "\<And>r. r \<in> set rows \<Longrightarrow> sb_id r = i \<Longrightarrow> P r \<Longrightarrow> wr r \<le> c"
  shows "(\<Sum>r\<leftarrow>filter (\<lambda>r. sb_id r = i \<and> P r) rows. wr r) \<le> c"
  using assms
proof (induction rows)
  case (Cons r rows)
  have "filter (\<lambda>r. sb_id r = i \<and> P r) rows = []" if "sb_id r = i"
    using Cons.prems(1) that by (auto simp: filter_empty_conv image_iff)
  then show ?case using Cons by auto
qed simp

lemma charged_delete:
  assumes "\<forall>r \<in> set rows. sane_row r"
  shows "charged wr wh (others i rows) holds o' \<le> charged wr wh rows holds o'"
proof -
  have "0 \<le> (\<Sum>r\<leftarrow>filter (\<lambda>r. sb_id r = i \<and> visible holds o' r) rows. wr r)"
    using assms row_nonneg by (intro sum_list_nonneg) auto
  then show ?thesis using visible_sum_split [of holds o' rows i] by (simp add: charged_def)
qed

text \<open>Dropping a hold that covers the row it replaced never raises a charge.\<close>

lemma charged_drop:
  assumes ok: "bt_ok holds" and h: "bt_get holds i = Some h"
    and rows: "distinct (map sb_id rows)" "\<forall>r \<in> set rows. sane_row r" and sane: "sane_hold h"
    and cov: "\<And>r. r \<in> set rows \<Longrightarrow> sb_id r = i \<Longrightarrow> sb_owner_user_id r = hd_owner h \<Longrightarrow> covers h r"
  shows "charged wr wh rows (bt_remove i holds) o' \<le> charged wr wh rows holds o'"
proof -
  define rest where "rest = bt_remove i holds"
  have r: "bt_ok rest" "bt_get rest i = None" using ok by (simp_all add: rest_def bt_get_remove)
  have joined: "holds = bt_insert i h rest"
    by (rule bt_extensional) (use ok h r in \<open>auto simp: rest_def bt_get_insert bt_get_remove\<close>)
  show ?thesis
  proof (cases "hd_owner h = o'")
    case False
    then show ?thesis unfolding rest_def [symmetric] using charged_insert [OF r, of rows h o', folded joined] by simp
  next
    case True
    have "(\<Sum>r\<leftarrow>filter (\<lambda>r. sb_id r = i \<and> visible rest o' r) rows. wr r) \<le> wh h"
      by (rule single_row [OF rows hold_nonneg [OF sane]])
         (use rows sane cov True in \<open>auto intro: row_covered simp: visible_def\<close>)
    then have "charged wr wh rows rest o' \<le> charged wr wh (others i rows) rest o' + wh h"
      using visible_sum_split [of rest o' rows i] by (simp add: charged_def)
    then show ?thesis unfolding rest_def [symmetric] using charged_insert [OF r, of rows h o', folded joined] True by simp
  qed
qed

lemma charged_create:
  "replaced_by_hold holds (sb_owner_user_id r) (sb_id r) \<Longrightarrow> charged wr wh (rows @ [r]) holds o' = charged wr wh rows holds o'"
  by (auto simp: charged_def visible_def)

lemma charged_update:
  assumes "\<And>r. r \<in> set rows \<Longrightarrow> sb_id (g r) = sb_id r \<and> sb_owner_user_id (g r) = sb_owner_user_id r
      \<and> (visible holds o' r \<longrightarrow> wr (g r) \<le> wr r)"
  shows "charged wr wh (map g rows) holds o' \<le> charged wr wh rows holds o'"
proof -
  have "(\<Sum>r\<leftarrow>filter (visible holds o') (map g rows). wr r) \<le> (\<Sum>r\<leftarrow>filter (visible holds o') rows. wr r)"
    using assms
  proof (induction rows)
    case (Cons r rows)
    have "visible holds o' (g r) = visible holds o' r" using Cons.prems [of r] by (simp add: visible_def)
    then show ?case using Cons.IH Cons.prems by (auto intro: add_mono)
  qed simp
  then show ?thesis by (simp add: charged_def)
qed

end

interpretation counts: quota_measure row_count "\<lambda>_. 1"
  by unfold_locales (auto simp: row_count_def lighter_def)

interpretation cpus: quota_measure row_cpus hd_cpus
  by unfold_locales (auto simp: row_cpus_def lighter_def sane_row_def sane_hold_def sane_size_def covers_def)

interpretation memory: quota_measure row_memory hd_mem_mb
  by unfold_locales (auto simp: row_memory_def lighter_def sane_row_def sane_hold_def sane_size_def covers_def)

section \<open>The accounting loop computes the charge\<close>

lemma wrap_i64_id: "- (2 ^ 63) \<le> x \<Longrightarrow> x < 2 ^ 63 \<Longrightarrow> wrap_i64 x = x"
  by (simp add: wrap_i64_def)

lemma row_weights:
  assumes "sane_row r"
  shows "sane_size (row_count r)" "sane_size (row_cpus r)" "sane_size (row_memory r)"
  using assms by (auto simp: sane_row_def sane_size_def row_count_def row_cpus_def row_memory_def)

definition room_for :: "nat \<Rightarrow> charge \<Rightarrow> bool" where
  "room_for k = (\<lambda>(n, cpu, mem). \<forall>x \<in> {n, cpu, mem}. 0 \<le> x \<and> x + int k * 2 ^ 32 < 2 ^ 63)"

lemma room_for_wrap:
  assumes "room_for (Suc k) (n, cpu, mem)" "sane_size a" "sane_size b" "sane_size c"
  shows "wrap_i64 (n + a) = n + a" "wrap_i64 (cpu + b) = cpu + b" "wrap_i64 (mem + c) = mem + c"
    "room_for k (n + a, cpu + b, mem + c)"
  using assms by (auto simp: room_for_def sane_size_def algebra_simps intro!: wrap_i64_id)

lemma charge_rows_sum:
  "\<forall>r \<in> set rows. sane_row r \<and> sb_owner_user_id r = o' \<Longrightarrow> room_for (length rows + k) (n, cpu, mem) \<Longrightarrow>
   (let rs = filter (visible holds o') (others i rows);
        acc = (n + (\<Sum>r\<leftarrow>rs. row_count r), cpu + (\<Sum>r\<leftarrow>rs. row_cpus r), mem + (\<Sum>r\<leftarrow>rs. row_memory r)) in
    charge_rows holds o' i rows (n, cpu, mem) = acc \<and> room_for k acc)"
proof (induction rows arbitrary: n cpu mem)
  case Nil
  then show ?case by (simp add: others_def)
next
  case (Cons r rows)
  have r: "sane_row r" "sb_owner_user_id r = o'" and rows: "\<forall>r \<in> set rows. sane_row r \<and> sb_owner_user_id r = o'"
    using Cons.prems(1) by auto
  have room: "room_for (Suc (length rows + k)) (n, cpu, mem)" using Cons.prems(2) by simp
  have vis: "visible holds o' r \<longleftrightarrow> \<not> (case bt_get holds (sb_id r) of None \<Rightarrow> False | Some h \<Rightarrow> hd_owner h = o')"
    using r(2) by (simp add: visible_def replaced_by_hold_def)
  show ?case
  proof (cases "sb_id r = i \<or> \<not> visible holds o' r")
    case True
    have "room_for (length rows + k) (n, cpu, mem)" using room by (auto simp: room_for_def algebra_simps)
    then show ?thesis using Cons.IH [OF rows] True vis by (auto simp: others_def)
  next
    case False
    note w = room_for_wrap [OF room row_weights [OF r(1)]]
    have "charge_rows holds o' i (r # rows) (n, cpu, mem)
        = charge_rows holds o' i rows (n + row_count r, cpu + row_cpus r, mem + row_memory r)"
      using False vis w(1-3) by (auto simp: row_count_def row_cpus_def row_memory_def split: if_splits)
    then show ?thesis using Cons.IH [OF rows w(4)] False by (auto simp: others_def Let_def algebra_simps)
  qed
qed

lemma charge_holds_sum:
  "\<forall>(i, h) \<in> set holds. sane_hold h \<Longrightarrow> room_for (length holds + k) (n, cpu, mem) \<Longrightarrow>
   (let hs = filter (\<lambda>(_, h). hd_owner h = o') holds;
        acc = (n + (\<Sum>(i, h)\<leftarrow>hs. 1), cpu + (\<Sum>(i, h)\<leftarrow>hs. hd_cpus h), mem + (\<Sum>(i, h)\<leftarrow>hs. hd_mem_mb h)) in
    charge_holds o' holds (n, cpu, mem) = acc \<and> room_for k acc)"
proof (induction holds arbitrary: n cpu mem)
  case Nil
  then show ?case by simp
next
  case (Cons e holds)
  obtain i h where e: "e = (i, h)" by force
  have h: "sane_size 1" "sane_size (hd_cpus h)" "sane_size (hd_mem_mb h)" and hs: "\<forall>(i, h) \<in> set holds. sane_hold h"
    using Cons.prems(1) by (auto simp: e sane_hold_def sane_size_def)
  have room: "room_for (Suc (length holds + k)) (n, cpu, mem)" using Cons.prems(2) by simp
  show ?case
  proof (cases "hd_owner h = o'")
    case False
    have "room_for (length holds + k) (n, cpu, mem)" using room by (auto simp: room_for_def algebra_simps)
    then show ?thesis using Cons.IH [OF hs] False by (auto simp: e)
  next
    case True
    note w = room_for_wrap [OF room h]
    then have "charge_holds o' (e # holds) (n, cpu, mem) = charge_holds o' holds (n + 1, cpu + hd_cpus h, mem + hd_mem_mb h)"
      using True by (simp add: e)
    then show ?thesis using Cons.IH [OF hs w(4)] True by (auto simp: e Let_def algebra_simps)
  qed
qed

text \<open>Below its limit, the listing is a permutation of the rows of the owner.\<close>

definition listable :: "sandbox list \<Rightarrow> bool" where
  "listable rows \<longleftrightarrow> length rows \<le> 100000 \<and> (\<forall>r \<in> set rows. sb_created_at r < I64_MAX)"

lemma list_sandboxes_all:
  assumes "listable (tb_sandboxes st)" "tb_broken st = None"
  obtains rows where "list_sandboxes st o' None 100000 = Ok rows"
    "mset rows = mset (filter (\<lambda>r. sb_owner_user_id r = o') (tb_sandboxes st))" "length rows \<le> 100000"
proof -
  have len: "length (filter (\<lambda>r. sb_owner_user_id r = o') (tb_sandboxes st)) \<le> 100000"
    using assms(1) by (auto simp: listable_def intro: le_trans [OF length_filter_le])
  have f': "filter (\<lambda>r. sb_owner_user_id r = o' \<and> (sb_created_at r < I64_MAX \<or> sb_created_at r = I64_MAX \<and> sb_id r < [])) (tb_sandboxes st)
      = filter (\<lambda>r. sb_owner_user_id r = o') (tb_sandboxes st)"
    using assms(1) by (auto simp: listable_def intro!: filter_cong)
  show thesis
    by (rule that [of "rev (sort_key (\<lambda>r. (sb_created_at r, sb_id r)) (filter (\<lambda>r. sb_owner_user_id r = o') (tb_sandboxes st)))"])
       (use len f' assms(2) in \<open>simp_all add: list_sandboxes_def with_conn_def\<close>)
qed

lemma sum_visible_cong:
  assumes "mset rows = mset (filter (\<lambda>r. sb_owner_user_id r = o') all)"
  shows "(\<Sum>r\<leftarrow>filter (visible holds o') (others i rows). f r) = (\<Sum>r\<leftarrow>filter (visible holds o') (others i all). (f r :: int))"
proof -
  have "mset (filter (visible holds o') (others i rows)) = mset (filter (visible holds o') (others i all))"
    using assms by (simp add: others_def mset_filter filter_filter_mset visible_def conj_ac)
  then show ?thesis by (metis mset_map sum_mset_sum_list)
qed

section \<open>Admission\<close>

definition sane_state :: "sandbox list \<Rightarrow> holds \<Rightarrow> bool" where
  "sane_state rows holds \<longleftrightarrow> (\<forall>r \<in> set rows. sane_row r) \<and> (\<forall>(i, h) \<in> set holds. sane_hold h)"

text \<open>What the user is charged for everything but the sandbox that is asked for.\<close>

lemma accounting:
  assumes st: "listable (tb_sandboxes st)" "tb_broken st = None"
    and sane: "sane_state (tb_sandboxes st) holds" and len: "length holds \<le> 100000"
  shows "\<exists>rows. list_sandboxes st o' None 100000 = Ok rows
    \<and> charge_holds o' holds (charge_rows holds o' i rows (0, 0, 0)) =
      (charged row_count (\<lambda>_. 1) (others i (tb_sandboxes st)) holds o',
       charged row_cpus hd_cpus (others i (tb_sandboxes st)) holds o',
       charged row_memory hd_mem_mb (others i (tb_sandboxes st)) holds o')
    \<and> room_for 1 (charge_holds o' holds (charge_rows holds o' i rows (0, 0, 0)))"
proof -
  obtain rows where rows: "list_sandboxes st o' None 100000 = Ok rows"
      "mset rows = mset (filter (\<lambda>r. sb_owner_user_id r = o') (tb_sandboxes st))" "length rows \<le> 100000"
    by (rule list_sandboxes_all [OF st])
  have set: "\<forall>r \<in> set rows. sane_row r \<and> sb_owner_user_id r = o'"
    using mset_eq_setD [OF rows(2)] sane by (auto simp: sane_state_def)
  have "room_for (length rows + (length holds + 1)) (0, 0, 0)" using rows(3) len by (simp add: room_for_def)
  note r = charge_rows_sum [OF set this, of holds i, unfolded Let_def]
  have hs: "\<forall>(i, h) \<in> set holds. sane_hold h" using sane by (simp add: sane_state_def)
  note h = charge_holds_sum [OF hs conjunct2 [OF r], of o', unfolded Let_def]
  show ?thesis
    using rows(1) r h by (intro exI [of _ rows]) (simp add: charged_def sum_visible_cong [OF rows(2)])
qed

lemma reserve_locked_Ok:
  assumes run: "reserve_locked st u i cpus mem_mb rg = (Ok g, rg')"
    and st: "listable (tb_sandboxes st)" and sane: "sane_state (tb_sandboxes st) (qr_sandboxes rg)"
    and len: "length (qr_sandboxes rg) \<le> 100000" and req: "sane_size cpus" "sane_size mem_mb"
  shows "g = i" "bt_get (qr_sandboxes rg) i = None"
    "qr_sandboxes rg' = bt_insert i \<lparr>hd_owner = u_id u, hd_cpus = cpus, hd_mem_mb = mem_mb\<rparr> (qr_sandboxes rg)"
    "charged row_count (\<lambda>_. 1) (others i (tb_sandboxes st)) (qr_sandboxes rg) (u_id u) + 1 \<le> u_max_sandboxes u"
    "charged row_cpus hd_cpus (others i (tb_sandboxes st)) (qr_sandboxes rg) (u_id u) + cpus \<le> u_max_cpus u"
    "charged row_memory hd_mem_mb (others i (tb_sandboxes st)) (qr_sandboxes rg) (u_id u) + mem_mb \<le> u_max_memory_mb u"
proof -
  have ok: "tb_broken st = None"
    using run by (auto simp: reserve_locked_def list_sandboxes_def with_conn_def from_store_def split: if_splits option.splits)
  obtain rows where rows: "list_sandboxes st (u_id u) None 100000 = Ok rows"
    "charge_holds (u_id u) (qr_sandboxes rg) (charge_rows (qr_sandboxes rg) (u_id u) i rows (0, 0, 0)) =
      (charged row_count (\<lambda>_. 1) (others i (tb_sandboxes st)) (qr_sandboxes rg) (u_id u),
       charged row_cpus hd_cpus (others i (tb_sandboxes st)) (qr_sandboxes rg) (u_id u),
       charged row_memory hd_mem_mb (others i (tb_sandboxes st)) (qr_sandboxes rg) (u_id u))"
    "room_for (Suc 0) (charge_holds (u_id u) (qr_sandboxes rg) (charge_rows (qr_sandboxes rg) (u_id u) i rows (0, 0, 0)))"
    using accounting [OF st ok sane len, of "u_id u" i] by auto
  note w = room_for_wrap(1-3) [OF rows(3) [unfolded rows(2)], of 1 cpus mem_mb, OF _ req]
  have one: "sane_size 1" by (simp add: sane_size_def)
  note res = run [unfolded reserve_locked_def rows(1) from_store_def result.case rows(2) Let_def prod.case w(1) [OF one] w(2) [OF one] w(3) [OF one]]
  show "g = i" "bt_get (qr_sandboxes rg) i = None"
    "qr_sandboxes rg' = bt_insert i \<lparr>hd_owner = u_id u, hd_cpus = cpus, hd_mem_mb = mem_mb\<rparr> (qr_sandboxes rg)"
    "charged row_count (\<lambda>_. 1) (others i (tb_sandboxes st)) (qr_sandboxes rg) (u_id u) + 1 \<le> u_max_sandboxes u"
    "charged row_cpus hd_cpus (others i (tb_sandboxes st)) (qr_sandboxes rg) (u_id u) + cpus \<le> u_max_cpus u"
    "charged row_memory hd_mem_mb (others i (tb_sandboxes st)) (qr_sandboxes rg) (u_id u) + mem_mb \<le> u_max_memory_mb u"
    using res by (auto split: if_splits)
qed

lemma reserve_locked_Err: "reserve_locked st u i cpus mem_mb rg = (Err e, rg') \<Longrightarrow> rg' = rg"
  by (auto simp: reserve_locked_def Let_def split: if_splits result.splits prod.splits)

section \<open>Interleavings\<close>

text \<open>
  The registry and the store as the handlers of the daemon use them, one critical section
  per step: a reservation, the creation of a row under a hold, a change of state under a
  hold or towards a lighter state, the deletion of a row, and the release of a hold. A
  reservation for a new sandbox must not ask for less than a row of the same name and
  owner has; \<open>own_name_hold_understates\<close> below shows that the code does not check this.
\<close>

record quota_system =
  qs_tables :: tables
  qs_registry :: quota_registry

definition roomy :: "quota_system \<Rightarrow> bool" where
  "roomy s \<longleftrightarrow> listable (tb_sandboxes (qs_tables s)) \<and> length (qr_sandboxes (qs_registry s)) \<le> 100000"

inductive quota_step :: "(string \<Rightarrow> user) \<Rightarrow> quota_system \<Rightarrow> quota_system \<Rightarrow> bool"
  for users :: "string \<Rightarrow> user" where
  reserve: "reserve_sandbox (qs_tables s) (users o') i c m (qs_registry s) = (r, rg) \<Longrightarrow> roomy s \<Longrightarrow> sane_size c \<Longrightarrow> sane_size m \<Longrightarrow>
     \<forall>row \<in> set (tb_sandboxes (qs_tables s)). sb_id row = i \<and> sb_owner_user_id row = o' \<longrightarrow> sb_cpus row \<le> c \<and> sb_memory_mb row \<le> m \<Longrightarrow>
     quota_step users s (s\<lparr>qs_registry := rg\<rparr>)"
| start: "reserve_start (qs_tables s) (users o') i (qs_registry s) = (r, rg) \<Longrightarrow> roomy s \<Longrightarrow>
     quota_step users s (s\<lparr>qs_registry := rg\<rparr>)"
| create: "create_sandbox (qs_tables s) row = Ok st \<Longrightarrow> bt_get (qr_sandboxes (qs_registry s)) (sb_id row) = Some h \<Longrightarrow>
     hd_owner h = sb_owner_user_id row \<Longrightarrow> hd_cpus h = sb_cpus row \<Longrightarrow> hd_mem_mb h = sb_memory_mb row \<Longrightarrow>
     quota_step users s (s\<lparr>qs_tables := st\<rparr>)"
| update: "set_sandbox_state (qs_tables s) i state th now = Ok st \<Longrightarrow>
     \<forall>row \<in> set (tb_sandboxes (qs_tables s)). sb_id row = i \<longrightarrow>
       replaced_by_hold (qr_sandboxes (qs_registry s)) (sb_owner_user_id row) i \<or> lighter state (sb_state row) \<Longrightarrow>
     quota_step users s (s\<lparr>qs_tables := st\<rparr>)"
| delete: "delete_sandbox (qs_tables s) i = Ok st \<Longrightarrow> quota_step users s (s\<lparr>qs_tables := st\<rparr>)"
| release: "bt_get (qr_sandboxes (qs_registry s)) i = Some h \<Longrightarrow>
     quota_step users s (s\<lparr>qs_registry := drop_sandbox i (qs_registry s)\<rparr>)"

definition within :: "(string \<Rightarrow> user) \<Rightarrow> sandbox list \<Rightarrow> holds \<Rightarrow> bool" where
  "within users rows holds \<longleftrightarrow> (\<forall>o'. charged row_count (\<lambda>_. 1) rows holds o' \<le> u_max_sandboxes (users o')
     \<and> charged row_cpus hd_cpus rows holds o' \<le> u_max_cpus (users o')
     \<and> charged row_memory hd_mem_mb rows holds o' \<le> u_max_memory_mb (users o'))"

definition quota_inv :: "(string \<Rightarrow> user) \<Rightarrow> quota_system \<Rightarrow> bool" where
  "quota_inv users s \<longleftrightarrow>
     (let rows = tb_sandboxes (qs_tables s); holds = qr_sandboxes (qs_registry s) in
      bt_ok holds \<and> distinct (map sb_id rows) \<and> sane_state rows holds
      \<and> (\<forall>r \<in> set rows. \<forall>h. bt_get holds (sb_id r) = Some h \<longrightarrow> hd_owner h = sb_owner_user_id r \<longrightarrow> covers h r)
      \<and> within users rows holds)"

lemma quota_invD:
  assumes "quota_inv users s"
  shows "bt_ok (qr_sandboxes (qs_registry s))" "distinct (map sb_id (tb_sandboxes (qs_tables s)))"
    "\<forall>r \<in> set (tb_sandboxes (qs_tables s)). sane_row r" "\<forall>(i, h) \<in> set (qr_sandboxes (qs_registry s)). sane_hold h"
    "\<And>r h. r \<in> set (tb_sandboxes (qs_tables s)) \<Longrightarrow> bt_get (qr_sandboxes (qs_registry s)) (sb_id r) = Some h \<Longrightarrow>
      hd_owner h = sb_owner_user_id r \<Longrightarrow> covers h r"
    "within users (tb_sandboxes (qs_tables s)) (qr_sandboxes (qs_registry s))"
  using assms by (auto simp: quota_inv_def Let_def sane_state_def)

lemma bt_insert_subset: "set (bt_insert k v m) \<subseteq> insert (k, v) (set m)"
  by (induction k v m rule: bt_insert.induct) auto

lemma admit_inv:
  assumes inv: "quota_inv users s" and u: "u_id (users o') = o'"
    and run: "reserve_locked (qs_tables s) (users o') i c m (qs_registry s) = (r, rg)"
    and room: "roomy s" and req: "sane_size c" "sane_size m"
    and own: "\<forall>row \<in> set (tb_sandboxes (qs_tables s)). sb_id row = i \<and> sb_owner_user_id row = o' \<longrightarrow> sb_cpus row \<le> c \<and> sb_memory_mb row \<le> m"
  shows "quota_inv users (s\<lparr>qs_registry := rg\<rparr>)"
proof (cases r)
  case (Err e)
  then show ?thesis using reserve_locked_Err [OF run [unfolded Err]] inv by (cases s) simp
next
  case (Ok g)
  let ?rows = "tb_sandboxes (qs_tables s)" and ?holds = "qr_sandboxes (qs_registry s)"
  define h where "h = \<lparr>hd_owner = o', hd_cpus = c, hd_mem_mb = m\<rparr>"
  note d = quota_invD [OF inv]
  have sane: "sane_state ?rows ?holds" using d(3,4) by (simp add: sane_state_def)
  note a = reserve_locked_Ok [OF run [unfolded Ok] _ sane _ req, unfolded u, folded h_def]
  have room': "listable ?rows" "length ?holds \<le> 100000" using room by (simp_all add: roomy_def)
  note new = counts.charged_insert [OF d(1) a(2) [OF room'], of ?rows h] cpus.charged_insert [OF d(1) a(2) [OF room'], of ?rows h]
    memory.charged_insert [OF d(1) a(2) [OF room'], of ?rows h]
  have h: "hd_owner h = o'" "hd_cpus h = c" "hd_mem_mb h = m" by (simp_all add: h_def)
  have "within users ?rows (bt_insert i h ?holds)"
    using d(6) a(4-6) [OF room'] by (auto simp: within_def new h)
  moreover have "sane_hold h" using req by (simp add: h_def sane_hold_def)
  moreover have "covers h' r'" if "r' \<in> set ?rows" "bt_get (bt_insert i h ?holds) (sb_id r') = Some h'" "hd_owner h' = sb_owner_user_id r'" for r' h'
    using that d(1,5) own by (auto simp: bt_get_insert h_def covers_def split: if_splits)
  moreover have "sane_hold b" if "(a, b) \<in> set (bt_insert i h ?holds)" for a b
    using that d(4) \<open>sane_hold h\<close> bt_insert_subset [of i h ?holds] by auto
  ultimately show ?thesis
    using d(1-3) a(3) [OF room'] by (auto simp: quota_inv_def Let_def sane_state_def bt_ok_insert)
qed

lemma quota_step_inv:
  assumes "quota_step users s s'" "quota_inv users s" "\<And>o'. u_id (users o') = o'"
  shows "quota_inv users s'"
  using assms
proof (induction rule: quota_step.induct)
  case (reserve s o' i c m r rg)
  then show ?case using admit_inv [of users s o' i c m r rg] by (simp add: reserve_sandbox_def)
next
  case (start s o' i r rg)
  show ?case
  proof (cases "from_store (get_sandbox (qs_tables s) i)")
    case (Err e)
    then show ?thesis using start by (cases s) (auto simp: reserve_start_def)
  next
    case (Ok row)
    have row: "row \<in> set (tb_sandboxes (qs_tables s))" "sb_id row = i"
      using Ok by (auto simp: from_store_def get_sandbox_def with_conn_def find_Some_iff split: result.splits option.splits)
    note d = quota_invD [OF start.prems(1)]
    have one: "r' = row" if "r' \<in> set (tb_sandboxes (qs_tables s))" "sb_id r' = i" for r'
      using d(2) row that by (auto simp: distinct_map inj_on_def)
    show ?thesis
    proof (cases "sb_owner_user_id row = o'")
      case False
      then show ?thesis using start Ok by (cases s) (auto simp: reserve_start_def)
    next
      case True
      have "sane_row row" using d(3) row(1) by blast
      then show ?thesis
        using start Ok True one by (intro admit_inv [of users s o' i "sb_cpus row" "sb_memory_mb row" r rg])
          (auto simp: reserve_start_def sane_row_def)
    qed
  qed
next
  case (create s row st h)
  note d = quota_invD [OF create.prems(1)]
  have st: "tb_sandboxes st = tb_sandboxes (qs_tables s) @ [row]" "sb_id row \<notin> sb_id ` set (tb_sandboxes (qs_tables s))"
    using create.hyps(1) by (auto simp: create_sandbox_def with_conn_def split: option.splits if_splits)
  have rep: "replaced_by_hold (qr_sandboxes (qs_registry s)) (sb_owner_user_id row) (sb_id row)"
    using create.hyps(2,3) by (simp add: replaced_by_hold_def)
  have "sane_hold h" using d(4) create.hyps(2) by (auto dest: map_of_SomeD)
  then have "sane_row row" using create.hyps by (simp add: sane_hold_def sane_row_def)
  then show ?case
    using d st create.hyps
    by (auto simp: quota_inv_def Let_def sane_state_def within_def covers_def counts.charged_create [OF rep] cpus.charged_create [OF rep] memory.charged_create [OF rep])
next
  case (update s i state th now st)
  note d = quota_invD [OF update.prems(1)]
  define g where "g r = (if sb_id r = i then r\<lparr>sb_state := state, sb_thermal := th, sb_updated_at := now\<rparr> else r)" for r :: sandbox
  have st: "tb_sandboxes st = map g (tb_sandboxes (qs_tables s))"
    using update.hyps(1) by (auto simp: set_sandbox_state_def with_conn_def g_def [abs_def] split: option.splits if_splits)
  have keep: "sb_id (g r) = sb_id r" "sb_owner_user_id (g r) = sb_owner_user_id r" "sane_row (g r) = sane_row r" "covers h (g r) = covers h r" for r h
    by (simp_all add: g_def sane_row_def covers_def)
  have less: "lighter state (sb_state r)" if "r \<in> set (tb_sandboxes (qs_tables s))" "sb_id r = i" "visible (qr_sandboxes (qs_registry s)) o' r" for r o'
    using update.hyps(2) that by (auto simp: visible_def)
  have w: "row_count (g r) \<le> row_count r" "row_cpus (g r) \<le> row_cpus r" "row_memory (g r) \<le> row_memory r"
    if "r \<in> set (tb_sandboxes (qs_tables s))" "visible (qr_sandboxes (qs_registry s)) o' r" for r o'
    using less [OF that(1) _ that(2)] d(3) that(1)
    by (auto simp: g_def intro: counts.row_lighter cpus.row_lighter memory.row_lighter)
  have "within users (map g (tb_sandboxes (qs_tables s))) (qr_sandboxes (qs_registry s))"
    unfolding within_def
    by (intro allI conjI; rule order_trans, rule counts.charged_update cpus.charged_update memory.charged_update)
       (use w keep d(6) in \<open>auto simp: within_def\<close>)
  moreover have "map sb_id (map g rows) = map sb_id rows" for rows by (simp add: keep)
  ultimately show ?case
    using d st by (auto simp: quota_inv_def Let_def sane_state_def keep simp del: map_map)
next
  case (delete s i st)
  note d = quota_invD [OF delete.prems(1)]
  have st: "tb_sandboxes st = others i (tb_sandboxes (qs_tables s))"
    using delete.hyps(1) by (auto simp: delete_sandbox_def with_conn_def others_def split: option.splits)
  have "within users (others i (tb_sandboxes (qs_tables s))) (qr_sandboxes (qs_registry s))"
    using d(6) counts.charged_delete [OF d(3)] cpus.charged_delete [OF d(3)] memory.charged_delete [OF d(3)]
    unfolding within_def by (meson order_trans)
  then show ?case
    using d st by (auto simp: quota_inv_def Let_def sane_state_def others_def intro: distinct_map_filter)
next
  case (release s i h)
  note d = quota_invD [OF release.prems(1)]
  have h: "sane_hold h" using d(4) release.hyps by (auto dest: map_of_SomeD)
  have cov: "covers h r" if "r \<in> set (tb_sandboxes (qs_tables s))" "sb_id r = i" "sb_owner_user_id r = hd_owner h" for r
    using d(5) [of r h] that release.hyps by simp
  have "within users (tb_sandboxes (qs_tables s)) (bt_remove i (qr_sandboxes (qs_registry s)))"
    using d(6) counts.charged_drop [OF d(1) release.hyps d(2,3) h cov] cpus.charged_drop [OF d(1) release.hyps d(2,3) h cov]
      memory.charged_drop [OF d(1) release.hyps d(2,3) h cov]
    unfolding within_def by (meson order_trans)
  then show ?case
    using d(1-5) bt_ok_remove [OF d(1), of i]
    by (auto simp: quota_inv_def Let_def sane_state_def drop_sandbox_def bt_get_remove split: if_splits) (auto simp: bt_remove_def)
qed

text \<open>The rows alone are charged no more than rows and holds together.\<close>

lemma rows_within:
  assumes "bt_ok holds" "distinct (map sb_id rows)" "sane_state rows holds"
    "\<forall>r \<in> set rows. \<forall>h. bt_get holds (sb_id r) = Some h \<longrightarrow> hd_owner h = sb_owner_user_id r \<longrightarrow> covers h r"
    "within users rows holds"
  shows "within users rows []"
  using assms
proof (induction "length holds" arbitrary: holds rule: less_induct)
  case less
  show ?case
  proof (cases holds)
    case Nil
    then show ?thesis using less.prems by simp
  next
    case (Cons e es)
    obtain i h where e: "e = (i, h)" by force
    have h: "bt_get holds i = Some h" using Cons e by simp
    have len: "length (bt_remove i holds) < length holds"
      using Cons e by (auto simp: bt_remove_def intro: le_less_trans [OF length_filter_le])
    have sane: "\<forall>r \<in> set rows. sane_row r" "sane_hold h" using less.prems(3) Cons e by (auto simp: sane_state_def)
    have cov: "covers h r" if "r \<in> set rows" "sb_id r = i" "sb_owner_user_id r = hd_owner h" for r
      using less.prems(4) that h by auto
    have "within users rows (bt_remove i holds)"
      using less.prems(5) counts.charged_drop [OF less.prems(1) h less.prems(2) sane cov]
        cpus.charged_drop [OF less.prems(1) h less.prems(2) sane cov] memory.charged_drop [OF less.prems(1) h less.prems(2) sane cov]
      unfolding within_def by (meson order_trans)
    moreover have "sane_state rows (bt_remove i holds)" using less.prems(3) by (auto simp: sane_state_def bt_remove_def)
    ultimately show ?thesis
      using less.hyps [OF len bt_ok_remove [OF less.prems(1)] less.prems(2)] less.prems(4)
      by (auto simp: bt_get_remove split: if_splits)
  qed
qed

section \<open>Properties of admission\<close>


text \<open>A store with one running sandbox, whose owner may have eight CPUs.\<close>

definition demo_user :: "string \<Rightarrow> user" where
  "demo_user o' = \<lparr>u_id = o', u_name = o', u_api_key_hash = [], u_max_sandboxes = 8, u_max_cpus = 8, u_max_memory_mb = 4096,
     u_max_volumes_mb = 0, u_max_snapshots = 1, u_created_at = 0, u_updated_at = 0\<rparr>"

definition demo_row :: "string \<Rightarrow> int \<Rightarrow> sandbox" where
  "demo_row i c = \<lparr>sb_id = i, sb_owner_user_id = ''u'', sb_name = i, sb_backend = Krucible, sb_state = ''running'', sb_thermal = ''hot'',
     sb_cpus = c, sb_memory_mb = 512, sb_ip = [], sb_created_at = 0, sb_updated_at = 0\<rparr>"

definition demo_tables :: "sandbox list \<Rightarrow> tables" where
  "demo_tables rows = \<lparr>tb_users = [''u''], tb_sandboxes = rows, tb_snapshots = [], tb_broken = None\<rparr>"

definition demo_registry :: "(string \<times> int) list \<Rightarrow> quota_registry" where
  "demo_registry hs = \<lparr>qr_sandboxes = map (\<lambda>(i, c). (i, \<lparr>hd_owner = ''u'', hd_cpus = c, hd_mem_mb = 512\<rparr>)) hs, qr_snapshots = []\<rparr>"

definition demo_system :: "sandbox list \<Rightarrow> (string \<times> int) list \<Rightarrow> quota_system" where
  "demo_system rows hs = \<lparr>qs_tables = demo_tables rows, qs_registry = demo_registry hs\<rparr>"

lemmas demo_quota_defs = demo_system_def demo_tables_def demo_registry_def demo_row_def demo_user_def

lemma demo_quota_inv: "quota_inv demo_user (demo_system [demo_row ''a'' 1] [])"
  by (auto simp: quota_inv_def sane_state_def sane_row_def sane_size_def
      within_def charged_def row_count_def row_cpus_def row_memory_def resident_state_def visible_def demo_quota_defs)

lemma demo_reserve:
  "reserve_sandbox (demo_tables [demo_row ''a'' 1]) (demo_user ''u'') ''b'' 7 512 (demo_registry []) = (Ok ''b'', demo_registry [(''b'', 7)])"
  by (simp add: reserve_sandbox_def reserve_locked_def list_sandboxes_def with_conn_def from_store_def wrap_i64_def resident_state_def I64_MAX_def demo_quota_defs)

lemma demo_quota_create: "create_sandbox (demo_tables [demo_row ''a'' 1]) (demo_row ''b'' 7) = Ok (demo_tables [demo_row ''a'' 1, demo_row ''b'' 7])"
  by (simp add: create_sandbox_def with_conn_def demo_tables_def demo_row_def)

lemma demo_quota_run:
  "(quota_step demo_user)\<^sup>*\<^sup>* (demo_system [demo_row ''a'' 1] []) (demo_system [demo_row ''a'' 1, demo_row ''b'' 7] [(''b'', 7)])"
proof -
  have sys: "qs_tables (demo_system rows hs) = demo_tables rows" "qs_registry (demo_system rows hs) = demo_registry hs"
    "(demo_system rows hs)\<lparr>qs_tables := demo_tables rows'\<rparr> = demo_system rows' hs"
    "(demo_system rows hs)\<lparr>qs_registry := demo_registry hs'\<rparr> = demo_system rows hs'" for rows rows' hs hs'
    by (simp_all add: demo_system_def)
  have "quota_step demo_user (demo_system [demo_row ''a'' 1] []) ((demo_system [demo_row ''a'' 1] [])\<lparr>qs_registry := demo_registry [(''b'', 7)]\<rparr>)"
    by (rule quota_step.reserve [where o' = "''u''" and i = "''b''"], unfold sys, rule demo_reserve)
       (simp_all add: roomy_def listable_def sane_size_def I64_MAX_def demo_quota_defs)
  moreover have "quota_step demo_user (demo_system [demo_row ''a'' 1] [(''b'', 7)])
      ((demo_system [demo_row ''a'' 1] [(''b'', 7)])\<lparr>qs_tables := demo_tables [demo_row ''a'' 1, demo_row ''b'' 7]\<rparr>)"
    by (rule quota_step.create [where h = "\<lparr>hd_owner = ''u'', hd_cpus = 7, hd_mem_mb = 512\<rparr>"], unfold sys, rule demo_quota_create)
       (simp_all add: demo_quota_defs)
  ultimately show ?thesis unfolding sys by (rule converse_rtranclp_into_rtranclp [OF _ r_into_rtranclp])
qed


text \<open>
  A reservation replaces the row of the same sandbox by the size that is asked for,
  also when the row is running and larger: with eight CPUs allowed and in use by \<open>a\<close>, the
  registry admits a second \<open>a\<close> of one CPU, and while that hold lasts another sandbox of
  seven CPUs, with which the user has fifteen once the first hold is dropped.
\<close>

theorem own_name_hold_understates:
  "reserve_sandbox (demo_tables [demo_row ''a'' 8]) (demo_user ''u'') ''a'' 1 512 (demo_registry []) = (Ok ''a'', demo_registry [(''a'', 1)])
   \<and> reserve_sandbox (demo_tables [demo_row ''a'' 8]) (demo_user ''u'') ''b'' 7 512 (demo_registry [(''a'', 1)])
     = (Ok ''b'', demo_registry [(''a'', 1), (''b'', 7)])
   \<and> create_sandbox (demo_tables [demo_row ''a'' 8]) (demo_row ''b'' 7) = Ok (demo_tables [demo_row ''a'' 8, demo_row ''b'' 7])
   \<and> drop_sandbox ''b'' (drop_sandbox ''a'' (demo_registry [(''a'', 1), (''b'', 7)])) = demo_registry []
   \<and> u_max_cpus (demo_user ''u'') = 8
   \<and> (\<Sum>r\<leftarrow>filter (\<lambda>r. sb_owner_user_id r = ''u'') (tb_sandboxes (demo_tables [demo_row ''a'' 8, demo_row ''b'' 7])). row_cpus r) = 15"
proof (intro conjI)
  show "reserve_sandbox (demo_tables [demo_row ''a'' 8]) (demo_user ''u'') ''a'' 1 512 (demo_registry []) = (Ok ''a'', demo_registry [(''a'', 1)])"
    by (simp add: reserve_sandbox_def reserve_locked_def list_sandboxes_def with_conn_def from_store_def wrap_i64_def resident_state_def I64_MAX_def demo_quota_defs)
  show "reserve_sandbox (demo_tables [demo_row ''a'' 8]) (demo_user ''u'') ''b'' 7 512 (demo_registry [(''a'', 1)])
     = (Ok ''b'', demo_registry [(''a'', 1), (''b'', 7)])"
    by (simp add: reserve_sandbox_def reserve_locked_def list_sandboxes_def with_conn_def from_store_def wrap_i64_def resident_state_def I64_MAX_def demo_quota_defs)
qed (simp_all add: create_sandbox_def with_conn_def drop_sandbox_def bt_remove_def row_cpus_def resident_state_def demo_quota_defs)

end
