(* ===== verification/Scheduler.thy ===== *)
theory Scheduler
  imports BTree_Map
begin

text \<open>
  The admission primitives of the daemon and of the storage service: the lifecycle locks,
  the operation permits and the stream counters of \<open>ahvm-daemon/src/scheduler.rs\<close>, and the
  job permits of \<open>ahvm-volume/src/service/jobs.rs\<close>. The shared objects are explicit, and
  the atomic actions of the tasks are the steps of transition relations, so that the
  theorems hold for every interleaving.
\<close>

section \<open>Lifecycle locks\<close>

text \<open>
  The map from sandbox ids to reference-counted entries. An entry is an address in a heap;
  it carries the task that holds its mutex and the epoch of the identity. A lease is a
  reference to an entry; its phase says how far its owner has come: queued on the mutex,
  holding it, about to run \<open>Drop\<close>, or past \<open>Drop\<close> with the reference still counted.
\<close>

datatype lease_phase = Queued | Held | Dropping | Dropped

record lifecycle_entry =
  le_holder :: "nat option"
  le_epoch :: nat

record lifecycle_lease =
  ls_id :: string
  ls_entry :: nat
  ls_epoch :: nat
  ls_phase :: lease_phase

record lifecycle_locks =
  lf_map :: "(string, nat) btree"
  lf_heap :: "lifecycle_entry list"
  lf_leases :: "(nat, lifecycle_lease) btree"
  lf_next :: nat

definition lifecycle_new :: lifecycle_locks where
  "lifecycle_new = \<lparr>lf_map = [], lf_heap = [], lf_leases = [], lf_next = 0\<rparr>"

definition strong_count :: "lifecycle_locks \<Rightarrow> nat \<Rightarrow> nat" where
  "strong_count s a = length (filter (\<lambda>(_, b). b = a) (lf_map s)) + length (filter (\<lambda>(_, l). ls_entry l = a) (lf_leases s))"

text \<open>\<open>LifecycleLocks::lease\<close>: the entry of the id, created when there is none, under the mutex of the map.\<close>

definition take_lease :: "string \<Rightarrow> lifecycle_locks \<Rightarrow> nat \<times> lifecycle_locks" where
  "take_lease i s =
     (let (a, s1) = (case bt_get (lf_map s) i of
            Some a \<Rightarrow> (a, s)
          | None \<Rightarrow> (length (lf_heap s), s\<lparr>lf_map := bt_insert i (length (lf_heap s)) (lf_map s),
                lf_heap := lf_heap s @ [\<lparr>le_holder = None, le_epoch = 0\<rparr>]\<rparr>));
          l = \<lparr>ls_id = i, ls_entry = a, ls_epoch = le_epoch (lf_heap s1 ! a), ls_phase = Queued\<rparr> in
      (lf_next s, s1\<lparr>lf_leases := bt_insert (lf_next s) l (lf_leases s1), lf_next := Suc (lf_next s)\<rparr>))"

definition set_phase :: "nat \<Rightarrow> lifecycle_lease \<Rightarrow> lease_phase \<Rightarrow> lifecycle_locks \<Rightarrow> lifecycle_locks" where
  "set_phase k l p s = s\<lparr>lf_leases := bt_insert k (l\<lparr>ls_phase := p\<rparr>) (lf_leases s)\<rparr>"

definition set_holder :: "nat \<Rightarrow> nat option \<Rightarrow> lifecycle_locks \<Rightarrow> lifecycle_locks" where
  "set_holder a h s = s\<lparr>lf_heap := (lf_heap s)[a := (lf_heap s ! a)\<lparr>le_holder := h\<rparr>]\<rparr>"

text \<open>\<open>lock_owned\<close> completes, or \<open>try_lock_owned\<close> succeeds: the mutex of the entry was free.\<close>

definition acquire_entry :: "nat \<Rightarrow> lifecycle_locks \<Rightarrow> lifecycle_locks option" where
  "acquire_entry k s =
     (case bt_get (lf_leases s) k of
        Some l \<Rightarrow> if ls_phase l = Queued \<and> le_holder (lf_heap s ! ls_entry l) = None
          then Some (set_holder (ls_entry l) (Some k) (set_phase k l Held s)) else None
      | None \<Rightarrow> None)"

text \<open>A waiter that is cancelled, or a failed \<open>try_lock\<close>: the lease goes out of scope.\<close>

definition abandon :: "nat \<Rightarrow> lifecycle_locks \<Rightarrow> lifecycle_locks option" where
  "abandon k s =
     (case bt_get (lf_leases s) k of
        Some l \<Rightarrow> if ls_phase l = Queued then Some (set_phase k l Dropping s) else None
      | None \<Rightarrow> None)"

definition lifecycle_try_lock :: "string \<Rightarrow> lifecycle_locks \<Rightarrow> nat option \<times> lifecycle_locks" where
  "lifecycle_try_lock i s =
     (let (k, s1) = take_lease i s in
      case acquire_entry k s1 of
        Some s2 \<Rightarrow> (Some k, s2)
      | None \<Rightarrow> (None, case abandon k s1 of Some s2 \<Rightarrow> s2 | None \<Rightarrow> s1))"

text \<open>A guard that goes out of scope unlocks first; the lease is dropped after it.\<close>

definition unlock :: "nat \<Rightarrow> lifecycle_locks \<Rightarrow> lifecycle_locks option" where
  "unlock k s =
     (case bt_get (lf_leases s) k of
        Some l \<Rightarrow> if ls_phase l = Held then Some (set_holder (ls_entry l) None (set_phase k l Dropping s)) else None
      | None \<Rightarrow> None)"

text \<open>\<open>Drop for LifecycleLease\<close>, under the mutex of the map.\<close>

definition drop_lease :: "nat \<Rightarrow> lifecycle_locks \<Rightarrow> lifecycle_locks option" where
  "drop_lease k s =
     (case bt_get (lf_leases s) k of
        Some l \<Rightarrow> if ls_phase l = Dropping
          then Some (set_phase k l Dropped
            (if strong_count s (ls_entry l) = 2 then s\<lparr>lf_map := bt_remove (ls_id l) (lf_map s)\<rparr> else s))
          else None
      | None \<Rightarrow> None)"

text \<open>The fields of the lease are dropped after that, and with them the reference.\<close>

definition drop_fields :: "nat \<Rightarrow> lifecycle_locks \<Rightarrow> lifecycle_locks option" where
  "drop_fields k s =
     (case bt_get (lf_leases s) k of
        Some l \<Rightarrow> if ls_phase l = Dropped then Some (s\<lparr>lf_leases := bt_remove k (lf_leases s)\<rparr>) else None
      | None \<Rightarrow> None)"

definition identity_changed :: "nat \<Rightarrow> lifecycle_locks \<Rightarrow> bool" where
  "identity_changed k s =
     (case bt_get (lf_leases s) k of Some l \<Rightarrow> le_epoch (lf_heap s ! ls_entry l) \<noteq> ls_epoch l | None \<Rightarrow> False)"

definition invalidate_identity :: "nat \<Rightarrow> lifecycle_locks \<Rightarrow> lifecycle_locks option" where
  "invalidate_identity k s =
     (case bt_get (lf_leases s) k of
        Some l \<Rightarrow> if ls_phase l = Held
          then Some (s\<lparr>lf_heap := (lf_heap s)[ls_entry l := (lf_heap s ! ls_entry l)\<lparr>le_epoch := (le_epoch (lf_heap s ! ls_entry l) + 1) mod U64\<rparr>]\<rparr>)
          else None
      | None \<Rightarrow> None)"

section \<open>Operation permits and streams\<close>

record ops_limiter =
  ol_permits :: nat
  ol_total :: nat
  ol_by_sandbox :: "(string, nat) btree"

definition ops_new :: "nat \<Rightarrow> ops_limiter" where
  "ops_new permits = \<lparr>ol_permits = max permits 1, ol_total = 0, ol_by_sandbox = []\<rparr>"

definition ops_try_acquire :: "ops_limiter \<Rightarrow> bool \<times> ops_limiter" where
  "ops_try_acquire s = (if 0 < ol_permits s then (True, s\<lparr>ol_permits := ol_permits s - 1\<rparr>) else (False, s))"

definition ops_release :: "ops_limiter \<Rightarrow> ops_limiter" where
  "ops_release s = s\<lparr>ol_permits := ol_permits s + 1\<rparr>"

definition stream_count :: "ops_limiter \<Rightarrow> string \<Rightarrow> nat" where
  "stream_count s i = (case bt_get (ol_by_sandbox s) i of Some n \<Rightarrow> n | None \<Rightarrow> 0)"

definition try_stream :: "string \<Rightarrow> ops_limiter \<Rightarrow> bool \<times> ops_limiter" where
  "try_stream i s =
     (if 32 \<le> ol_total s \<or> 4 \<le> stream_count s i then (False, s)
      else (True, s\<lparr>ol_total := ol_total s + 1, ol_by_sandbox := bt_insert i (stream_count s i + 1) (ol_by_sandbox s)\<rparr>))"

text \<open>\<open>Drop for StreamGuard\<close>; \<open>None\<close> is a panic: an underflow or a missing count.\<close>

definition drop_stream :: "string \<Rightarrow> ops_limiter \<Rightarrow> ops_limiter option" where
  "drop_stream i s =
     (if ol_total s = 0 then None
      else (case bt_get (ol_by_sandbox s) i of
          None \<Rightarrow> None
        | Some n \<Rightarrow>
            if n = 0 then None
            else Some (s\<lparr>ol_total := ol_total s - 1, ol_by_sandbox :=
              (if n - 1 = 0 then bt_remove i (ol_by_sandbox s) else bt_insert i (n - 1) (ol_by_sandbox s))\<rparr>)))"

section \<open>Job permits\<close>

text \<open>
  \<open>Jobs::take\<close> loads the counter and then loops over a weak compare-and-exchange. A thread
  is idle, has read a value, has been refused, or owns a permit.
\<close>

datatype job_thread = Idle | Observed nat | Refused | Permit

record jobs =
  jb_active :: nat
  jb_limit :: nat
  jb_threads :: "job_thread list"

definition jobs_new :: "nat \<Rightarrow> nat \<Rightarrow> jobs" where
  "jobs_new limit threads = \<lparr>jb_active = 0, jb_limit = limit, jb_threads = replicate threads Idle\<rparr>"

definition job_load :: "nat \<Rightarrow> jobs \<Rightarrow> jobs" where
  "job_load t s = s\<lparr>jb_threads := (jb_threads s)[t := Observed (jb_active s)]\<rparr>"

text \<open>One turn of the loop; \<open>spurious\<close> says that the weak exchange fails although the value matches.\<close>

definition job_turn :: "bool \<Rightarrow> nat \<Rightarrow> nat \<Rightarrow> jobs \<Rightarrow> jobs" where
  "job_turn spurious t current s =
     (if current < jb_limit s
      then if jb_active s = current \<and> \<not> spurious
        then s\<lparr>jb_active := current + 1, jb_threads := (jb_threads s)[t := Permit]\<rparr>
        else s\<lparr>jb_threads := (jb_threads s)[t := Observed (jb_active s)]\<rparr>
      else s\<lparr>jb_threads := (jb_threads s)[t := Refused]\<rparr>)"

definition job_drop :: "nat \<Rightarrow> jobs \<Rightarrow> jobs" where
  "job_drop t s = s\<lparr>jb_active := (jb_active s + U64 - 1) mod U64, jb_threads := (jb_threads s)[t := Idle]\<rparr>"

section \<open>Every interleaving of the lifecycle locks\<close>

inductive lifecycle_step :: "lifecycle_locks \<Rightarrow> lifecycle_locks \<Rightarrow> bool" where
  lease: "take_lease i s = (k, s') \<Longrightarrow> lifecycle_step s s'"
| acquire: "acquire_entry k s = Some s' \<Longrightarrow> lifecycle_step s s'"
| cancel: "abandon k s = Some s' \<Longrightarrow> lifecycle_step s s'"
| unlock: "unlock k s = Some s' \<Longrightarrow> lifecycle_step s s'"
| drop: "drop_lease k s = Some s' \<Longrightarrow> lifecycle_step s s'"
| fields: "drop_fields k s = Some s' \<Longrightarrow> lifecycle_step s s'"
| invalidate: "invalidate_identity k s = Some s' \<Longrightarrow> lifecycle_step s s'"

text \<open>A lease whose \<open>Drop\<close> has not run yet.\<close>

definition live :: "lifecycle_lease \<Rightarrow> bool" where
  "live l \<longleftrightarrow> ls_phase l \<noteq> Dropped"

definition lifecycle_inv :: "lifecycle_locks \<Rightarrow> bool" where
  "lifecycle_inv s \<longleftrightarrow> bt_ok (lf_map s) \<and> bt_ok (lf_leases s)
     \<and> (\<forall>i a. bt_get (lf_map s) i = Some a \<longrightarrow> a < length (lf_heap s))
     \<and> (\<forall>i j a. bt_get (lf_map s) i = Some a \<longrightarrow> bt_get (lf_map s) j = Some a \<longrightarrow> i = j)
     \<and> (\<forall>k l. bt_get (lf_leases s) k = Some l \<longrightarrow> k < lf_next s \<and> ls_entry l < length (lf_heap s))
     \<and> (\<forall>k l. bt_get (lf_leases s) k = Some l \<longrightarrow> live l \<longrightarrow> bt_get (lf_map s) (ls_id l) = Some (ls_entry l))
     \<and> (\<forall>k l. bt_get (lf_leases s) k = Some l \<longrightarrow> ls_phase l = Held \<longrightarrow> le_holder (lf_heap s ! ls_entry l) = Some k)
     \<and> (\<forall>a k. a < length (lf_heap s) \<longrightarrow> le_holder (lf_heap s ! a) = Some k \<longrightarrow>
          (\<exists>l. bt_get (lf_leases s) k = Some l \<and> ls_phase l = Held \<and> ls_entry l = a))"

lemma lifecycle_invD:
  assumes "lifecycle_inv s"
  shows "bt_ok (lf_map s)" "bt_ok (lf_leases s)"
    "\<And>i a. bt_get (lf_map s) i = Some a \<Longrightarrow> a < length (lf_heap s)"
    "\<And>i j a. bt_get (lf_map s) i = Some a \<Longrightarrow> bt_get (lf_map s) j = Some a \<Longrightarrow> i = j"
    "\<And>k l. bt_get (lf_leases s) k = Some l \<Longrightarrow> k < lf_next s"
    "\<And>k l. bt_get (lf_leases s) k = Some l \<Longrightarrow> ls_entry l < length (lf_heap s)"
    "\<And>k l. bt_get (lf_leases s) k = Some l \<Longrightarrow> live l \<Longrightarrow> bt_get (lf_map s) (ls_id l) = Some (ls_entry l)"
    "\<And>k l. bt_get (lf_leases s) k = Some l \<Longrightarrow> ls_phase l = Held \<Longrightarrow> le_holder (lf_heap s ! ls_entry l) = Some k"
    "\<And>a k. a < length (lf_heap s) \<Longrightarrow> le_holder (lf_heap s ! a) = Some k \<Longrightarrow>
       \<exists>l. bt_get (lf_leases s) k = Some l \<and> ls_phase l = Held \<and> ls_entry l = a"
  using assms unfolding lifecycle_inv_def by blast+

lemma lifecycle_invI:
  assumes "bt_ok (lf_map s)" "bt_ok (lf_leases s)"
    "\<And>i a. bt_get (lf_map s) i = Some a \<Longrightarrow> a < length (lf_heap s)"
    "\<And>i j a. bt_get (lf_map s) i = Some a \<Longrightarrow> bt_get (lf_map s) j = Some a \<Longrightarrow> i = j"
    "\<And>k l. bt_get (lf_leases s) k = Some l \<Longrightarrow> k < lf_next s"
    "\<And>k l. bt_get (lf_leases s) k = Some l \<Longrightarrow> ls_entry l < length (lf_heap s)"
    "\<And>k l. bt_get (lf_leases s) k = Some l \<Longrightarrow> live l \<Longrightarrow> bt_get (lf_map s) (ls_id l) = Some (ls_entry l)"
    "\<And>k l. bt_get (lf_leases s) k = Some l \<Longrightarrow> ls_phase l = Held \<Longrightarrow> le_holder (lf_heap s ! ls_entry l) = Some k"
    "\<And>a k. a < length (lf_heap s) \<Longrightarrow> le_holder (lf_heap s ! a) = Some k \<Longrightarrow>
       \<exists>l. bt_get (lf_leases s) k = Some l \<and> ls_phase l = Held \<and> ls_entry l = a"
  shows "lifecycle_inv s"
  using assms unfolding lifecycle_inv_def by blast

lemma lifecycle_new_inv: "lifecycle_inv lifecycle_new"
  by (simp add: lifecycle_inv_def lifecycle_new_def)

lemma fresh_lease: "lifecycle_inv s \<Longrightarrow> bt_get (lf_leases s) (lf_next s) = None"
  using lifecycle_invD(5) by (metis less_irrefl not_Some_eq)

text \<open>A new entry, and a new lease of an entry of the map.\<close>

lemma new_entry_inv:
  assumes inv: "lifecycle_inv s" and new: "bt_get (lf_map s) i = None"
  shows "lifecycle_inv (s\<lparr>lf_map := bt_insert i (length (lf_heap s)) (lf_map s), lf_heap := lf_heap s @ [\<lparr>le_holder = None, le_epoch = 0\<rparr>]\<rparr>)"
    (is "lifecycle_inv ?s")
proof (rule lifecycle_invI)
  note d = lifecycle_invD [OF inv]
  show "bt_ok (lf_map ?s)" "bt_ok (lf_leases ?s)" using d(1,2) by simp_all
  show "a < length (lf_heap ?s)" if "bt_get (lf_map ?s) j = Some a" for j a
    using that d(1) d(3) [of j a] by (auto simp: bt_get_insert split: if_splits)
  show "j = k" if "bt_get (lf_map ?s) j = Some a" "bt_get (lf_map ?s) k = Some a" for j k a
    using that d(1) d(3) [of j a] d(3) [of k a] d(4) [of j a k] by (auto simp: bt_get_insert split: if_splits)
  show "k < lf_next ?s" "ls_entry l < length (lf_heap ?s)" if "bt_get (lf_leases ?s) k = Some l" for k l
    using that d(5,6) [of k l] by simp_all
  show "bt_get (lf_map ?s) (ls_id l) = Some (ls_entry l)" if "bt_get (lf_leases ?s) k = Some l" "live l" for k l
    using that d(1) d(7) [of k l] new by (auto simp: bt_get_insert)
  show "le_holder (lf_heap ?s ! ls_entry l) = Some k" if "bt_get (lf_leases ?s) k = Some l" "ls_phase l = Held" for k l
    using that d(6,8) [of k l] by (simp add: nth_append)
  show "\<exists>l. bt_get (lf_leases ?s) k = Some l \<and> ls_phase l = Held \<and> ls_entry l = a"
    if "a < length (lf_heap ?s)" "le_holder (lf_heap ?s ! a) = Some k" for a k
    using that d(9) [of a k] by (auto simp: nth_append split: if_splits)
qed

lemma new_lease_inv:
  assumes inv: "lifecycle_inv s" and a: "bt_get (lf_map s) i = Some a"
  shows "lifecycle_inv (s\<lparr>lf_leases := bt_insert (lf_next s) \<lparr>ls_id = i, ls_entry = a, ls_epoch = e, ls_phase = Queued\<rparr> (lf_leases s),
    lf_next := Suc (lf_next s)\<rparr>)" (is "lifecycle_inv ?s")
proof (rule lifecycle_invI)
  note d = lifecycle_invD [OF inv]
  have l: "bt_get (lf_leases ?s) k = (if k = lf_next s then Some \<lparr>ls_id = i, ls_entry = a, ls_epoch = e, ls_phase = Queued\<rparr> else bt_get (lf_leases s) k)" for k
    using d(2) by (auto simp: bt_get_insert)
  show "bt_ok (lf_map ?s)" "bt_ok (lf_leases ?s)" using d(1,2) by simp_all
  show "b < length (lf_heap ?s)" if "bt_get (lf_map ?s) j = Some b" for j b
    using that d(3) [of j b] by simp
  show "j = k" if "bt_get (lf_map ?s) j = Some b" "bt_get (lf_map ?s) k = Some b" for j k b
    using that d(4) [of j b k] by simp
  show "k < lf_next ?s" "ls_entry l < length (lf_heap ?s)" if "bt_get (lf_leases ?s) k = Some l" for k l
    using that d(5,6) [of k l] d(3) [OF a] unfolding l by (auto split: if_splits)
  show "bt_get (lf_map ?s) (ls_id l) = Some (ls_entry l)" if "bt_get (lf_leases ?s) k = Some l" "live l" for k l
    using that(1) d(7) [OF _ that(2), of k] a unfolding l by (auto split: if_splits)
  show "le_holder (lf_heap ?s ! ls_entry l) = Some k" if "bt_get (lf_leases ?s) k = Some l" "ls_phase l = Held" for k l
    using that(1) d(8) [OF _ that(2), of k] that(2) unfolding l by (auto split: if_splits)
  show "\<exists>l. bt_get (lf_leases ?s) k = Some l \<and> ls_phase l = Held \<and> ls_entry l = b"
    if "b < length (lf_heap ?s)" "le_holder (lf_heap ?s ! b) = Some k" for b k
    using that d(9) [of b k] fresh_lease [OF inv] unfolding l by auto
qed

lemma lease_inv:
  assumes inv: "lifecycle_inv s" and run: "take_lease i s = (k, s')"
  shows "lifecycle_inv s'"
proof (cases "bt_get (lf_map s) i")
  case (Some a)
  then show ?thesis using new_lease_inv [OF inv Some] run by (auto simp: take_lease_def Let_def)
next
  case None
  have "bt_get (lf_map (s\<lparr>lf_map := bt_insert i (length (lf_heap s)) (lf_map s), lf_heap := lf_heap s @ [\<lparr>le_holder = None, le_epoch = 0\<rparr>]\<rparr>)) i
      = Some (length (lf_heap s))"
    using lifecycle_invD(1) [OF inv] by (simp add: bt_get_insert)
  from new_lease_inv [OF new_entry_inv [OF inv None] this] show ?thesis
    using None run by (auto simp: take_lease_def Let_def)
qed

text \<open>A change of phase, of the holder of the entry, or of its epoch.\<close>

lemma phase_inv:
  assumes inv: "lifecycle_inv s" and l: "bt_get (lf_leases s) k = Some l" and h: "ls_phase l \<noteq> Held" "p \<noteq> Held" and p: "live l \<or> p = Dropped"
  shows "lifecycle_inv (set_phase k l p s)" (is "lifecycle_inv ?s")
proof (rule lifecycle_invI)
  note d = lifecycle_invD [OF inv]
  have g: "bt_get (lf_leases ?s) j = (if j = k then Some (l\<lparr>ls_phase := p\<rparr>) else bt_get (lf_leases s) j)" for j
    using d(2) by (auto simp: set_phase_def bt_get_insert)
  have same: "lf_map ?s = lf_map s" "lf_heap ?s = lf_heap s" "lf_next ?s = lf_next s" by (simp_all add: set_phase_def)
  show "bt_ok (lf_map ?s)" "bt_ok (lf_leases ?s)" using d(1,2) by (simp_all add: set_phase_def)
  show "b < length (lf_heap ?s)" if "bt_get (lf_map ?s) j = Some b" for j b
    using that d(3) [of j b] by (simp add: same)
  show "j = m" if "bt_get (lf_map ?s) j = Some b" "bt_get (lf_map ?s) m = Some b" for j m b
    using that d(4) [of j b m] by (simp add: same)
  show "j < lf_next ?s" "ls_entry m < length (lf_heap ?s)" if "bt_get (lf_leases ?s) j = Some m" for j m
    using that d(5,6) [of j m] d(5,6) [OF l] unfolding g same by (auto split: if_splits)
  show "bt_get (lf_map ?s) (ls_id m) = Some (ls_entry m)" if "bt_get (lf_leases ?s) j = Some m" "live m" for j m
    using that d(7) [of j m] d(7) [OF l] p unfolding g same by (auto simp: live_def split: if_splits)
  show "le_holder (lf_heap ?s ! ls_entry m) = Some j" if "bt_get (lf_leases ?s) j = Some m" "ls_phase m = Held" for j m
    using that d(8) [of j m] h unfolding g same by (auto split: if_splits)
  show "\<exists>m. bt_get (lf_leases ?s) j = Some m \<and> ls_phase m = Held \<and> ls_entry m = b"
    if "b < length (lf_heap ?s)" "le_holder (lf_heap ?s ! b) = Some j" for b j
    using that d(9) [of b j] l h unfolding g same by auto
qed

lemma acquire_inv:
  assumes inv: "lifecycle_inv s" and run: "acquire_entry k s = Some s'"
  shows "lifecycle_inv s'"
proof -
  note d = lifecycle_invD [OF inv]
  obtain l where l: "bt_get (lf_leases s) k = Some l" "ls_phase l = Queued" "le_holder (lf_heap s ! ls_entry l) = None"
    and s': "s' = set_holder (ls_entry l) (Some k) (set_phase k l Held s)"
    using run by (auto simp: acquire_entry_def split: option.splits if_splits)
  have g: "bt_get (lf_leases s') j = (if j = k then Some (l\<lparr>ls_phase := Held\<rparr>) else bt_get (lf_leases s) j)" for j
    using d(2) by (auto simp: s' set_phase_def set_holder_def bt_get_insert)
  have same: "lf_map s' = lf_map s" "length (lf_heap s') = length (lf_heap s)" "lf_next s' = lf_next s"
    by (simp_all add: s' set_phase_def set_holder_def)
  have hp: "b < length (lf_heap s) \<Longrightarrow> le_holder (lf_heap s' ! b) = (if b = ls_entry l then Some k else le_holder (lf_heap s ! b))" for b
    by (auto simp: s' set_phase_def set_holder_def nth_list_update)
  have live: "live l" using l(2) by (simp add: live_def)
  show ?thesis
  proof (rule lifecycle_invI)
    show "bt_ok (lf_map s')" "bt_ok (lf_leases s')" using d(1,2) by (simp_all add: s' set_phase_def set_holder_def)
    show "b < length (lf_heap s')" if "bt_get (lf_map s') j = Some b" for j b
      using that d(3) [of j b] by (simp add: same)
    show "j = m" if "bt_get (lf_map s') j = Some b" "bt_get (lf_map s') m = Some b" for j m b
      using that d(4) [of j b m] by (simp add: same)
    show "j < lf_next s'" "ls_entry m < length (lf_heap s')" if "bt_get (lf_leases s') j = Some m" for j m
      using that d(5,6) [of j m] d(5,6) [OF l(1)] unfolding g same by (auto split: if_splits)
    show "bt_get (lf_map s') (ls_id m) = Some (ls_entry m)" if "bt_get (lf_leases s') j = Some m" "live m" for j m
      using that d(7) [of j m] d(7) [OF l(1) live] unfolding g same by (auto split: if_splits)
    show "le_holder (lf_heap s' ! ls_entry m) = Some j" if "bt_get (lf_leases s') j = Some m" "ls_phase m = Held" for j m
      using that d(6,8) [of j m] d(6) [OF l(1)] l(3) unfolding g by (auto simp: hp split: if_splits)
    show "\<exists>m. bt_get (lf_leases s') j = Some m \<and> ls_phase m = Held \<and> ls_entry m = b"
      if "b < length (lf_heap s')" "le_holder (lf_heap s' ! b) = Some j" for b j
      using that d(9) [of b j] l(1,2) unfolding g same by (auto simp: hp split: if_splits)
  qed
qed

lemma unlock_inv:
  assumes inv: "lifecycle_inv s" and run: "unlock k s = Some s'"
  shows "lifecycle_inv s'"
proof -
  note d = lifecycle_invD [OF inv]
  obtain l where l: "bt_get (lf_leases s) k = Some l" "ls_phase l = Held"
    and s': "s' = set_holder (ls_entry l) None (set_phase k l Dropping s)"
    using run by (auto simp: unlock_def split: option.splits if_splits)
  have g: "bt_get (lf_leases s') j = (if j = k then Some (l\<lparr>ls_phase := Dropping\<rparr>) else bt_get (lf_leases s) j)" for j
    using d(2) by (auto simp: s' set_phase_def set_holder_def bt_get_insert)
  have same: "lf_map s' = lf_map s" "length (lf_heap s') = length (lf_heap s)" "lf_next s' = lf_next s"
    by (simp_all add: s' set_phase_def set_holder_def)
  have hp: "b < length (lf_heap s) \<Longrightarrow> le_holder (lf_heap s' ! b) = (if b = ls_entry l then None else le_holder (lf_heap s ! b))" for b
    by (auto simp: s' set_phase_def set_holder_def nth_list_update)
  have live: "live l" using l(2) by (simp add: live_def)
  show ?thesis
  proof (rule lifecycle_invI)
    show "bt_ok (lf_map s')" "bt_ok (lf_leases s')" using d(1,2) by (simp_all add: s' set_phase_def set_holder_def)
    show "b < length (lf_heap s')" if "bt_get (lf_map s') j = Some b" for j b
      using that d(3) [of j b] by (simp add: same)
    show "j = m" if "bt_get (lf_map s') j = Some b" "bt_get (lf_map s') m = Some b" for j m b
      using that d(4) [of j b m] by (simp add: same)
    show "j < lf_next s'" "ls_entry m < length (lf_heap s')" if "bt_get (lf_leases s') j = Some m" for j m
      using that d(5,6) [of j m] d(5,6) [OF l(1)] unfolding g same by (auto split: if_splits)
    show "bt_get (lf_map s') (ls_id m) = Some (ls_entry m)" if "bt_get (lf_leases s') j = Some m" "live m" for j m
      using that d(7) [of j m] d(7) [OF l(1) live] unfolding g same by (auto split: if_splits)
    show "le_holder (lf_heap s' ! ls_entry m) = Some j" if "bt_get (lf_leases s') j = Some m" "ls_phase m = Held" for j m
      using that d(6,8) [of j m] d(8) [OF l] unfolding g by (auto simp: hp split: if_splits)
    show "\<exists>m. bt_get (lf_leases s') j = Some m \<and> ls_phase m = Held \<and> ls_entry m = b"
      if "b < length (lf_heap s')" "le_holder (lf_heap s' ! b) = Some j" for b j
      using that d(9) [of b j] l(1) unfolding g same by (auto simp: hp split: if_splits)
  qed
qed

text \<open>
  When the count is two, the map and the lease that is dropped are the only references:
  no other lease of the id can lose its entry.
\<close>

lemma count_pos: "x \<in> set xs \<Longrightarrow> P x \<Longrightarrow> 0 < length (filter P xs)"
  by (induction xs) auto

lemma count_two:
  assumes "x \<in> set xs" "y \<in> set xs" "x \<noteq> y" "P x" "P y"
  shows "2 \<le> length (filter P xs)"
proof -
  have "{x, y} \<subseteq> set (filter P xs)" using assms by auto
  then have "card {x, y} \<le> card (set (filter P xs))" by (intro card_mono) auto
  then show ?thesis using assms(3) card_length [of "filter P xs"] by simp
qed

lemma last_reference:
  assumes inv: "lifecycle_inv s" and l: "bt_get (lf_leases s) k = Some l" "live l" and c: "strong_count s (ls_entry l) = 2"
    and m: "bt_get (lf_leases s) j = Some m" "ls_entry m = ls_entry l"
  shows "j = k"
proof (rule ccontr)
  assume "j \<noteq> k"
  note d = lifecycle_invD [OF inv]
  have "(ls_id l, ls_entry l) \<in> set (lf_map s)" using d(7) [OF l] by (auto dest: map_of_SomeD)
  then have "0 < length (filter (\<lambda>(_, b). b = ls_entry l) (lf_map s))" by (rule count_pos) simp
  moreover have "2 \<le> length (filter (\<lambda>(_, x). ls_entry x = ls_entry l) (lf_leases s))"
    by (rule count_two [of "(k, l)" _ "(j, m)"]) (use l(1) m \<open>j \<noteq> k\<close> in \<open>auto dest: map_of_SomeD\<close>)
  ultimately show False using c unfolding strong_count_def by linarith
qed

lemma drop_lease_inv:
  assumes inv: "lifecycle_inv s" and run: "drop_lease k s = Some s'"
  shows "lifecycle_inv s'"
proof -
  note d = lifecycle_invD [OF inv]
  obtain l where l: "bt_get (lf_leases s) k = Some l" "ls_phase l = Dropping"
    and s': "s' = set_phase k l Dropped (if strong_count s (ls_entry l) = 2 then s\<lparr>lf_map := bt_remove (ls_id l) (lf_map s)\<rparr> else s)"
    using run by (auto simp: drop_lease_def split: option.splits if_splits)
  have live: "live l" using l(2) by (simp add: live_def)
  show ?thesis
  proof (cases "strong_count s (ls_entry l) = 2")
    case False
    then show ?thesis using phase_inv [OF inv l(1), of Dropped] l(2) by (simp add: s')
  next
    case True
    have g: "bt_get (lf_leases s') j = (if j = k then Some (l\<lparr>ls_phase := Dropped\<rparr>) else bt_get (lf_leases s) j)" for j
      using d(2) by (auto simp: s' set_phase_def bt_get_insert)
    have mp: "bt_get (lf_map s') i = (if i = ls_id l then None else bt_get (lf_map s) i)" for i
      using True d(1) by (simp add: s' set_phase_def bt_get_remove)
    have same: "lf_heap s' = lf_heap s" "lf_next s' = lf_next s" by (simp_all add: s' set_phase_def)
    show ?thesis
    proof (rule lifecycle_invI)
      show "bt_ok (lf_map s')" "bt_ok (lf_leases s')" using d(1,2) by (simp_all add: s' set_phase_def)
      show "b < length (lf_heap s')" if "bt_get (lf_map s') j = Some b" for j b
        using that d(3) [of j b] unfolding mp same by (simp split: if_splits)
      show "j = m" if "bt_get (lf_map s') j = Some b" "bt_get (lf_map s') m = Some b" for j m b
        using that d(4) [of j b m] unfolding mp by (simp split: if_splits)
      show "j < lf_next s'" "ls_entry m < length (lf_heap s')" if "bt_get (lf_leases s') j = Some m" for j m
        using that d(5,6) [of j m] d(5,6) [OF l(1)] unfolding g same by (auto split: if_splits)
      show "bt_get (lf_map s') (ls_id m) = Some (ls_entry m)" if "bt_get (lf_leases s') j = Some m" "live m" for j m
      proof (cases "j = k")
        case True
        then show ?thesis using that unfolding g by (auto simp: live_def)
      next
        case False
        then have m: "bt_get (lf_leases s) j = Some m" using that(1) unfolding g by simp
        have "ls_id m \<noteq> ls_id l"
          using d(7) [OF m that(2)] d(7) [OF l(1) live] last_reference [OF inv l(1) live True m] False by auto
        then show ?thesis using d(7) [OF m that(2)] unfolding mp by simp
      qed
      show "le_holder (lf_heap s' ! ls_entry m) = Some j" if "bt_get (lf_leases s') j = Some m" "ls_phase m = Held" for j m
        using that d(8) [of j m] unfolding g same by (auto split: if_splits)
      show "\<exists>m. bt_get (lf_leases s') j = Some m \<and> ls_phase m = Held \<and> ls_entry m = b"
        if "b < length (lf_heap s')" "le_holder (lf_heap s' ! b) = Some j" for b j
        using that d(9) [of b j] l unfolding g same by auto
    qed
  qed
qed

lemma drop_fields_inv:
  assumes inv: "lifecycle_inv s" and run: "drop_fields k s = Some s'"
  shows "lifecycle_inv s'"
proof -
  note d = lifecycle_invD [OF inv]
  obtain l where l: "bt_get (lf_leases s) k = Some l" "ls_phase l = Dropped" and s': "s' = s\<lparr>lf_leases := bt_remove k (lf_leases s)\<rparr>"
    using run by (auto simp: drop_fields_def split: option.splits if_splits)
  have g: "bt_get (lf_leases s') j = (if j = k then None else bt_get (lf_leases s) j)" for j
    using d(2) by (simp add: s' bt_get_remove)
  have same: "lf_map s' = lf_map s" "lf_heap s' = lf_heap s" "lf_next s' = lf_next s" by (simp_all add: s')
  show ?thesis
  proof (rule lifecycle_invI)
    show "bt_ok (lf_map s')" "bt_ok (lf_leases s')" using d(1,2) by (simp_all add: s')
    show "b < length (lf_heap s')" if "bt_get (lf_map s') j = Some b" for j b
      using that d(3) [of j b] by (simp add: same)
    show "j = m" if "bt_get (lf_map s') j = Some b" "bt_get (lf_map s') m = Some b" for j m b
      using that d(4) [of j b m] by (simp add: same)
    show "j < lf_next s'" "ls_entry m < length (lf_heap s')" if "bt_get (lf_leases s') j = Some m" for j m
      using that d(5,6) [of j m] unfolding g same by (auto split: if_splits)
    show "bt_get (lf_map s') (ls_id m) = Some (ls_entry m)" if "bt_get (lf_leases s') j = Some m" "live m" for j m
      using that d(7) [of j m] unfolding g same by (auto split: if_splits)
    show "le_holder (lf_heap s' ! ls_entry m) = Some j" if "bt_get (lf_leases s') j = Some m" "ls_phase m = Held" for j m
      using that d(8) [of j m] unfolding g same by (auto split: if_splits)
    show "\<exists>m. bt_get (lf_leases s') j = Some m \<and> ls_phase m = Held \<and> ls_entry m = b"
      if "b < length (lf_heap s')" "le_holder (lf_heap s' ! b) = Some j" for b j
      using that d(9) [of b j] l unfolding g same by auto
  qed
qed

lemma invalidate_inv:
  assumes inv: "lifecycle_inv s" and run: "invalidate_identity k s = Some s'"
  shows "lifecycle_inv s'"
proof -
  obtain a e where s': "s' = s\<lparr>lf_heap := (lf_heap s)[a := (lf_heap s ! a)\<lparr>le_epoch := e\<rparr>]\<rparr>"
    using run by (auto simp: invalidate_identity_def split: option.splits if_splits)
  have "le_holder (lf_heap s' ! b) = le_holder (lf_heap s ! b)" for b
    by (cases "a < length (lf_heap s)") (auto simp: s' nth_list_update list_update_beyond)
  moreover have "length (lf_heap s') = length (lf_heap s)" by (simp add: s')
  ultimately show ?thesis using inv unfolding lifecycle_inv_def by (simp add: s')
qed

lemma lifecycle_step_inv: "lifecycle_step s s' \<Longrightarrow> lifecycle_inv s \<Longrightarrow> lifecycle_inv s'"
proof (induction rule: lifecycle_step.induct)
  case (cancel k s s')
  then obtain l where "bt_get (lf_leases s) k = Some l" "ls_phase l = Queued" "s' = set_phase k l Dropping s"
    by (auto simp: abandon_def split: option.splits if_splits)
  then show ?case using phase_inv [of s k l Dropping] cancel.prems by (simp add: live_def)
qed (auto intro: lease_inv acquire_inv unlock_inv drop_lease_inv drop_fields_inv invalidate_inv)

lemma lifecycle_reachable_inv: "lifecycle_step\<^sup>*\<^sup>* lifecycle_new s \<Longrightarrow> lifecycle_inv s"
  by (induction rule: rtranclp_induct) (auto intro: lifecycle_new_inv lifecycle_step_inv)

section \<open>Properties of the lifecycle locks\<close>

text \<open>
  C23. At most one task holds the lifecycle lock of a sandbox, in every state that any
  interleaving of leases, acquisitions, cancellations and drops can reach; reclaiming the
  entries of the map never splits a lock in two.
\<close>

theorem lifecycle_mutual_exclusion:
  assumes "lifecycle_step\<^sup>*\<^sup>* lifecycle_new s"
  shows "\<exists>j. {k. \<exists>m. bt_get (lf_leases s) k = Some m \<and> ls_phase m = Held \<and> ls_id m = i} \<subseteq> {j}"
proof -
  note d = lifecycle_invD [OF lifecycle_reachable_inv [OF assms]]
  have "j = k" if "bt_get (lf_leases s) j = Some l" "ls_phase l = Held" "bt_get (lf_leases s) k = Some m" "ls_phase m = Held"
    "ls_id l = ls_id m" for j k l m
  proof -
    have "ls_entry l = ls_entry m"
      using d(7) [OF that(1)] d(7) [OF that(3)] that(2,4,5) by (simp add: live_def)
    then show ?thesis using d(8) [OF that(1,2)] d(8) [OF that(3,4)] by simp
  qed
  then show ?thesis by (intro exI [of _ "SOME k. \<exists>m. bt_get (lf_leases s) k = Some m \<and> ls_phase m = Held \<and> ls_id m = i"]) (smt (verit) mem_Collect_eq singletonI someI_ex subsetI)
qed

text \<open>Runs as lists of actions, for the examples.\<close>

datatype lifecycle_action =
  Take string | Acquire nat | Cancel nat | Unlock nat | Drop nat | Fields nat | Invalidate nat

fun lifecycle_act :: "lifecycle_action \<Rightarrow> lifecycle_locks \<Rightarrow> lifecycle_locks option" where
  "lifecycle_act (Take i) s = Some (snd (take_lease i s))"
| "lifecycle_act (Acquire k) s = acquire_entry k s"
| "lifecycle_act (Cancel k) s = abandon k s"
| "lifecycle_act (Unlock k) s = unlock k s"
| "lifecycle_act (Drop k) s = drop_lease k s"
| "lifecycle_act (Fields k) s = drop_fields k s"
| "lifecycle_act (Invalidate k) s = invalidate_identity k s"

fun lifecycle_run :: "lifecycle_action list \<Rightarrow> lifecycle_locks \<Rightarrow> lifecycle_locks option" where
  "lifecycle_run [] s = Some s"
| "lifecycle_run (a # as) s = (case lifecycle_act a s of None \<Rightarrow> None | Some s' \<Rightarrow> lifecycle_run as s')"

lemma lifecycle_act_step: "lifecycle_act a s = Some s' \<Longrightarrow> lifecycle_step s s'"
  by (cases a) (auto intro: lifecycle_step.intros simp: prod_eq_iff)

lemma lifecycle_run_reaches: "lifecycle_run as s = Some s' \<Longrightarrow> lifecycle_step\<^sup>*\<^sup>* s s'"
proof (induction as arbitrary: s)
  case (Cons a as)
  then obtain s1 where "lifecycle_act a s = Some s1" "lifecycle_run as s1 = Some s'" by (auto split: option.splits)
  then show ?case using Cons.IH lifecycle_act_step by (blast intro: converse_rtranclp_into_rtranclp)
qed simp

text \<open>Two tasks on one sandbox: the first holds the lock, the second waits.\<close>

definition demo_locks :: lifecycle_locks where
  "demo_locks = \<lparr>lf_map = [(''a'', 0)], lf_heap = [\<lparr>le_holder = Some 0, le_epoch = 0\<rparr>],
     lf_leases = [(0, \<lparr>ls_id = ''a'', ls_entry = 0, ls_epoch = 0, ls_phase = Held\<rparr>), (1, \<lparr>ls_id = ''a'', ls_entry = 0, ls_epoch = 0, ls_phase = Queued\<rparr>)],
     lf_next = 2\<rparr>"

lemmas lifecycle_eval = take_lease_def acquire_entry_def abandon_def unlock_def drop_lease_def drop_fields_def set_phase_def set_holder_def
  strong_count_def bt_remove_def lifecycle_new_def

lemma demo_locks_reachable: "lifecycle_step\<^sup>*\<^sup>* lifecycle_new demo_locks"
  by (rule lifecycle_run_reaches [of "[Take ''a'', Acquire 0, Take ''a'']"]) (simp add: lifecycle_eval demo_locks_def)

theorem lifecycle_mutual_exclusion_witness:
  "\<exists>j. {k. \<exists>m. bt_get (lf_leases demo_locks) k = Some m \<and> ls_phase m = Held \<and> ls_id m = ''a''} \<subseteq> {j}"
  by (rule lifecycle_mutual_exclusion [OF demo_locks_reachable])

text \<open>
  The map does not reclaim every entry: when two leases of a sandbox are dropped at
  the same time, each counts the reference of the other, which is released only after
  \<open>Drop\<close> has returned, and neither removes the entry; it stays with no lease left.
\<close>

theorem lifecycle_entry_leaks:
  "\<exists>s. lifecycle_step\<^sup>*\<^sup>* lifecycle_new s \<and> lf_leases s = [] \<and> lf_map s = [(''a'', 0)]"
proof -
  have "lifecycle_run [Take ''a'', Acquire 0, Take ''a'', Unlock 0, Cancel 1, Drop 0, Drop 1, Fields 0, Fields 1] lifecycle_new
      = Some \<lparr>lf_map = [(''a'', 0)], lf_heap = [\<lparr>le_holder = None, le_epoch = 0\<rparr>], lf_leases = [], lf_next = 2\<rparr>"
    by (simp add: lifecycle_eval)
  from lifecycle_run_reaches [OF this] show ?thesis by (intro exI conjI) auto
qed



section \<open>Properties of streams and jobs\<close>

text \<open>
  Streams open and close in any order; the guards that are alive are a list of ids. A
  close drops the guard of an open stream.
\<close>

inductive stream_run :: "string list \<Rightarrow> ops_limiter \<Rightarrow> bool" where
  start: "stream_run [] (ops_new n)"
| opened: "stream_run gs s \<Longrightarrow> try_stream i s = (True, s') \<Longrightarrow> stream_run (i # gs) s'"
| refused: "stream_run gs s \<Longrightarrow> try_stream i s = (False, s') \<Longrightarrow> stream_run gs s'"
| closed: "stream_run gs s \<Longrightarrow> i \<in> set gs \<Longrightarrow> drop_stream i s = Some s' \<Longrightarrow> stream_run (remove1 i gs) s'"

definition streams_exact :: "string list \<Rightarrow> ops_limiter \<Rightarrow> bool" where
  "streams_exact gs s \<longleftrightarrow> bt_ok (ol_by_sandbox s) \<and> ol_total s = length gs \<and> ol_total s \<le> 32
     \<and> (\<forall>i. bt_get (ol_by_sandbox s) i = (if i \<in> set gs then Some (count_list gs i) else None))
     \<and> (\<forall>i. count_list gs i \<le> 4)"

lemma count_list_remove1: "count_list (remove1 x xs) y = (if x = y then count_list xs y - 1 else count_list xs y)"
  by (induction xs) (auto simp: count_list_0_iff Suc_diff_1 intro: neq0_conv [THEN iffD1])

lemma drop_stream_exact:
  assumes "streams_exact gs s" "i \<in> set gs"
  shows "\<exists>s'. drop_stream i s = Some s' \<and> streams_exact (remove1 i gs) s'"
proof -
  have n: "bt_get (ol_by_sandbox s) i = Some (count_list gs i)" and ok: "bt_ok (ol_by_sandbox s)"
    and pos: "0 < count_list gs i" "0 < ol_total s"
    using assms count_list_0_iff [of gs i] by (auto simp: streams_exact_def dest: length_pos_if_in_set)
  have mem: "j \<in> set (remove1 i gs) \<longleftrightarrow> 0 < count_list (remove1 i gs) j" for j
    using count_list_0_iff [of "remove1 i gs" j] by auto
  define s' where "s' = s\<lparr>ol_total := ol_total s - 1, ol_by_sandbox :=
      (if count_list gs i - 1 = 0 then bt_remove i (ol_by_sandbox s) else bt_insert i (count_list gs i - 1) (ol_by_sandbox s))\<rparr>"
  have "drop_stream i s = Some s'" using n pos by (simp add: drop_stream_def s'_def)
  moreover have "streams_exact (remove1 i gs) s'"
    unfolding streams_exact_def
  proof (intro conjI allI)
    show "bt_ok (ol_by_sandbox s')" using ok by (simp add: s'_def)
    show "ol_total s' = length (remove1 i gs)" "ol_total s' \<le> 32" using assms by (auto simp: s'_def streams_exact_def length_remove1)
    fix j
    show "bt_get (ol_by_sandbox s') j = (if j \<in> set (remove1 i gs) then Some (count_list (remove1 i gs) j) else None)"
      using assms ok pos by (auto simp: s'_def mem count_list_remove1 bt_get_insert bt_get_remove streams_exact_def count_list_0_iff)
    show "count_list (remove1 i gs) j \<le> 4" using assms by (auto simp: count_list_remove1 streams_exact_def intro: le_trans [OF diff_le_self])
  qed
  ultimately show ?thesis by blast
qed

lemma try_stream_exact:
  assumes "streams_exact gs s" "try_stream i s = (r, s')"
  shows "streams_exact (if r then i # gs else gs) s'"
proof -
  have n: "stream_count s i = count_list gs i"
    using assms(1) by (simp add: streams_exact_def stream_count_def count_list_0_iff)
  show ?thesis
  proof (cases r)
    case False
    then show ?thesis using assms by (auto simp: try_stream_def split: if_splits)
  next
    case True
    then have "ol_total s < 32" "count_list gs i < 4"
      and s': "s' = s\<lparr>ol_total := ol_total s + 1, ol_by_sandbox := bt_insert i (count_list gs i + 1) (ol_by_sandbox s)\<rparr>"
      using assms(2) n by (auto simp: try_stream_def split: if_splits)
    then show ?thesis using assms(1) True by (auto simp: streams_exact_def s' bt_get_insert)
  qed
qed

lemma stream_run_exact: "stream_run gs s \<Longrightarrow> streams_exact gs s"
proof (induction rule: stream_run.induct)
  case (start n)
  then show ?case by (simp add: streams_exact_def ops_new_def)
next
  case (closed gs s i s')
  then show ?case using drop_stream_exact by fastforce
qed (use try_stream_exact in fastforce)+

text \<open>
  Streams are bounded: however they are opened and closed, at most 32 are open and at
  most four for one sandbox, and dropping the guard of an open stream never panics and
  leaves exact counts behind.
\<close>

theorem streams_bounded:
  assumes "stream_run gs s"
  shows "length gs \<le> 32 \<and> (\<forall>i. count_list gs i \<le> 4) \<and> ol_total s = length gs
    \<and> (\<forall>i. i \<in> set gs \<longrightarrow> (\<exists>s'. drop_stream i s = Some s' \<and> ol_total s' = length gs - 1))"
proof -
  note e = stream_run_exact [OF assms]
  have "\<exists>s'. drop_stream i s = Some s' \<and> ol_total s' = length gs - 1" if "i \<in> set gs" for i
    using drop_stream_exact [OF e that] that by (auto simp: streams_exact_def length_remove1)
  then show ?thesis using e by (auto simp: streams_exact_def)
qed

theorem streams_bounded_witness:
  "\<exists>s s'. stream_run [''a''] s \<and> drop_stream ''a'' s = Some s' \<and> ol_total s' = 0"
proof -
  have "stream_run [''a''] (snd (try_stream ''a'' (ops_new 2)))"
    by (rule stream_run.opened [OF stream_run.start [of 2], of "''a''"]) (simp add: try_stream_def ops_new_def stream_count_def)
  from streams_bounded [OF this] this show ?thesis by auto
qed

text \<open>The threads that ask for a permit, in any interleaving; a weak exchange may fail spuriously.\<close>

inductive job_step :: "jobs \<Rightarrow> jobs \<Rightarrow> bool" where
  load: "t < length (jb_threads s) \<Longrightarrow> jb_threads s ! t = Idle \<Longrightarrow> job_step s (job_load t s)"
| turn: "t < length (jb_threads s) \<Longrightarrow> jb_threads s ! t = Observed c \<Longrightarrow> job_step s (job_turn spurious t c s)"
| refused: "t < length (jb_threads s) \<Longrightarrow> jb_threads s ! t = Refused \<Longrightarrow> job_step s (s\<lparr>jb_threads := (jb_threads s)[t := Idle]\<rparr>)"
| finished: "t < length (jb_threads s) \<Longrightarrow> jb_threads s ! t = Permit \<Longrightarrow> job_step s (job_drop t s)"

definition permits :: "jobs \<Rightarrow> nat" where
  "permits s = count_list (jb_threads s) Permit"

definition jobs_inv :: "nat \<Rightarrow> jobs \<Rightarrow> bool" where
  "jobs_inv limit s \<longleftrightarrow> jb_limit s = limit \<and> jb_active s = permits s \<and> jb_active s \<le> limit"

lemma count_list_update:
  "t < length xs \<Longrightarrow> count_list (xs[t := v]) y = count_list xs y - (if xs ! t = y then 1 else 0) + (if v = y then 1 else 0)"
proof (induction xs arbitrary: t)
  case (Cons x xs)
  show ?case
  proof (cases t)
    case (Suc u)
    have "0 < count_list xs y" if "xs ! u = y" using that Cons.prems Suc count_list_0_iff [of xs y] by auto
    then show ?thesis using Cons.IH [of u] Cons.prems Suc by auto
  qed auto
qed simp

lemma job_step_inv:
  assumes "job_step s s'" "jobs_inv limit s" "limit < U64"
  shows "jobs_inv limit s'"
  using assms
proof (induction rule: job_step.induct)
  case (finished t s)
  have pos: "0 < permits s" using finished.hyps count_list_0_iff [of "jb_threads s" Permit] nth_mem [of t "jb_threads s"] by (auto simp: permits_def)
  have "(jb_active s + U64 - 1) mod U64 = jb_active s - 1"
  proof -
    have eq: "jb_active s + U64 - 1 = (jb_active s - 1) + U64" using pos finished.prems by (simp add: jobs_inv_def)
    have small: "jb_active s - 1 < U64" using finished.prems unfolding jobs_inv_def by linarith
    show ?thesis unfolding eq mod_add_self2 by (rule mod_less [OF small])
  qed
  then show ?case using finished pos by (auto simp: jobs_inv_def job_drop_def permits_def count_list_update)
qed (auto simp: jobs_inv_def job_load_def job_turn_def permits_def count_list_update)

text \<open>
  C25. Jobs are admitted before they run: in every interleaving of any number of threads,
  the counter equals the number of permits that are held and never exceeds the limit,
  although it is read and replaced in separate steps.
\<close>

theorem jobs_bounded:
  assumes "job_step\<^sup>*\<^sup>* (jobs_new limit n) s" "limit < U64"
  shows "jb_active s = permits s \<and> permits s \<le> limit"
proof -
  have "jobs_inv limit s"
    using assms(1)
  proof (induction rule: rtranclp_induct)
    case base
    have "count_list (replicate n Idle) Permit = 0" by (induction n) auto
    then show ?case by (simp add: jobs_inv_def jobs_new_def permits_def)
  qed (auto intro: job_step_inv assms(2))
  then show ?thesis by (simp add: jobs_inv_def)
qed

theorem jobs_bounded_witness:
  "job_step\<^sup>*\<^sup>* (jobs_new 1 2) (job_turn False 0 0 (job_load 0 (jobs_new 1 2)))
   \<and> permits (job_turn False 0 0 (job_load 0 (jobs_new 1 2))) \<le> 1"
proof -
  have 1: "job_step (jobs_new 1 2) (job_load 0 (jobs_new 1 2))"
    by (rule job_step.load) (simp_all add: jobs_new_def numeral_2_eq_2)
  have 2: "job_step (job_load 0 (jobs_new 1 2)) (job_turn False 0 0 (job_load 0 (jobs_new 1 2)))"
    by (rule job_step.turn) (simp_all add: jobs_new_def job_load_def numeral_2_eq_2)
  have r: "job_step\<^sup>*\<^sup>* (jobs_new 1 2) (job_turn False 0 0 (job_load 0 (jobs_new 1 2)))"
    using 1 2 by (rule converse_rtranclp_into_rtranclp [OF _ r_into_rtranclp])
  have "(1 :: nat) < U64" by (simp add: U64_def)
  from conjunct2 [OF jobs_bounded [OF r this]] r show ?thesis by (intro conjI)
qed

text \<open>The loop of \<open>take\<close> run by one thread alone, with the spurious failures as a list.\<close>

fun job_loop :: "bool list \<Rightarrow> nat \<Rightarrow> jobs \<Rightarrow> jobs" where
  "job_loop [] t s = s"
| "job_loop (f # fs) t s = (case jb_threads s ! t of Observed c \<Rightarrow> job_loop fs t (job_turn f t c s) | _ \<Rightarrow> s)"

text \<open>
  C26. A request for a permit that is not disturbed ends: after any number of spurious
  failures of the exchange, its first genuine attempt decides it, with a permit exactly
  when the limit is not reached.
\<close>

theorem jobs_take_returns:
  assumes "t < length (jb_threads s)"
  shows "jb_threads (job_loop (replicate k True @ [False]) t (job_load t s)) ! t = (if jb_active s < jb_limit s then Permit else Refused)"
proof -
  have "jb_threads (job_loop (replicate k True @ [False]) t u) ! t = (if jb_active u < jb_limit u then Permit else Refused)"
    if "t < length (jb_threads u)" "jb_threads u ! t = Observed (jb_active u)" for u
    using that
  proof (induction k arbitrary: u)
    case 0
    then show ?case by (simp add: job_turn_def)
  next
    case (Suc k)
    show ?case
    proof (cases "jb_active u < jb_limit u")
      case True
      then show ?thesis using Suc.IH [of "job_turn True t (jb_active u) u"] Suc.prems by (simp add: job_turn_def)
    next
      case False
      have stop: "job_loop fs t w = w" if "jb_threads w ! t = Refused" for fs w
        using that by (cases fs) auto
      show ?thesis using Suc.prems False by (simp add: job_turn_def stop)
    qed
  qed
  from this [of "job_load t s"] show ?thesis using assms by (simp add: job_load_def)
qed

theorem jobs_take_returns_witness:
  "jb_threads (job_loop (replicate 3 True @ [False]) 0 (job_load 0 (jobs_new 1 1))) ! 0 = Permit"
  using jobs_take_returns [of 0 "jobs_new 1 1" 3] by (simp add: jobs_new_def)

end
