(* ===== verification/Journal.thy ===== *)
theory Journal
  imports Indexed_Ops
begin

text \<open>
  The local-durable disk of \<open>ahvm-volume/src/local.rs\<close>: a write-ahead journal in a host
  directory in front of an indexed volume, with replication in the background. The
  directory is explicit: files have contents and contents that were synced, the entry of
  the journal has a synced value too, and a list of faults decides which system calls
  fail and how far a failed write got. A crash keeps what was synced and an arbitrary
  prefix of what was appended since.
\<close>

section \<open>Files\<close>

record jfile =
  jf_data :: bytes
  jf_synced :: bytes

text \<open>
  The directory of one disk. Files are addressed by number; \<open>fs_journal\<close> and \<open>fs_new\<close> are
  the entries \<open>journal\<close> and \<open>journal.new\<close>, and \<open>fs_journal_synced\<close> is the entry \<open>journal\<close> as
  of the last sync of the directory.
\<close>

record jfs =
  fs_files :: "jfile list"
  fs_journal :: "nat option"
  fs_journal_synced :: "nat option"
  fs_new :: "nat option"
  fs_faults :: "nat list"
  fs_random :: bytes

definition fs_fault :: "jfs \<Rightarrow> nat \<times> jfs" where
  "fs_fault fs = (case fs_faults fs of [] \<Rightarrow> (0, fs) | n # ns \<Rightarrow> (n, fs\<lparr>fs_faults := ns\<rparr>))"

text \<open>A call that changes nothing that matters here: \<open>io(\<dots>)?\<close> of \<open>metadata\<close>, \<open>File::open\<close> and the like.\<close>

definition fs_call :: "(jfs, unit, verror) io" where
  "fs_call fs = (case fs_fault fs of (n, fs') \<Rightarrow> (if n = 0 then Ok () else Err Store, fs'))"

definition update_file :: "nat \<Rightarrow> (jfile \<Rightarrow> jfile) \<Rightarrow> jfs \<Rightarrow> jfs" where
  "update_file a f fs = fs\<lparr>fs_files := (fs_files fs)[a := f (fs_files fs ! a)]\<rparr>"

text \<open>\<open>write_all\<close> at the end of the file; a failure may have written a part.\<close>

definition file_append :: "nat \<Rightarrow> bytes \<Rightarrow> (jfs, unit, verror) io" where
  "file_append a bs fs =
     (case fs_fault fs of
        (0, fs') \<Rightarrow> (Ok (), update_file a (\<lambda>f. f\<lparr>jf_data := jf_data f @ bs\<rparr>) fs')
      | (Suc n, fs') \<Rightarrow> (Err Store, update_file a (\<lambda>f. f\<lparr>jf_data := jf_data f @ take n bs\<rparr>) fs'))"

definition file_sync :: "nat \<Rightarrow> (jfs, unit, verror) io" where
  "file_sync a fs =
     (case fs_fault fs of
        (0, fs') \<Rightarrow> (Ok (), update_file a (\<lambda>f. f\<lparr>jf_synced := jf_data f\<rparr>) fs')
      | (Suc 0, fs') \<Rightarrow> (Err Store, fs')
      | (_, fs') \<Rightarrow> (Err Store, update_file a (\<lambda>f. f\<lparr>jf_synced := jf_data f\<rparr>) fs'))"

definition file_set_len :: "nat \<Rightarrow> nat \<Rightarrow> (jfs, unit, verror) io" where
  "file_set_len a n fs =
     (case fs_fault fs of
        (0, fs') \<Rightarrow> (Ok (), update_file a (\<lambda>f. f\<lparr>jf_data := take n (jf_data f)\<rparr>) fs')
      | (_, fs') \<Rightarrow> (Err Store, fs'))"

text \<open>\<open>secure\<close>: the file is absent or private to the service.\<close>

definition secure :: "(jfs, unit, verror) io" where
  "secure fs = (case fs_fault fs of (n, fs') \<Rightarrow> (if n = 0 then Ok () else if n = 1 then Err InvalidInput else Err Store, fs'))"

fun append_all :: "nat \<Rightarrow> bytes list \<Rightarrow> (jfs, unit, verror) io" where
  "append_all a [] = io_return ()"
| "append_all a (b # bs) = io_bind (file_append a b) (\<lambda>_. append_all a bs)"

section \<open>The format of the journal\<close>

definition LOG_MAGIC :: bytes where "LOG_MAGIC = [0x41, 0x48, 0x56, 0x4d, 0x57, 0x4c, 0x30, 0x31]"
definition RECORD :: nat where "RECORD = 16 + CHUNK_BYTES + 64"
definition LOG_LIMIT :: nat where "LOG_LIMIT = 256 * 1024 * 1024"

record log_header =
  lh_volume :: string
  lh_id :: string
  lh_base :: string
  lh_acknowledged :: nat
  lh_sequence :: nat

record pending =
  pn_sequence :: nat
  pn_bytes :: bytes

definition header_parts :: "log_header codec \<Rightarrow> log_header \<Rightarrow> (bytes list, verror) result" where
  "header_parts hc h =
     res_bind (ok_or Corrupt (c_to_vec hc h)) (\<lambda>b.
       if 4096 < length b then Err Corrupt
       else Ok [LOG_MAGIC, be_bytes 4 (length b), b, bytes_of (c_digest hc b)])"

definition write_header :: "log_header codec \<Rightarrow> nat \<Rightarrow> log_header \<Rightarrow> (jfs, unit, verror) io" where
  "write_header hc a h = io_bind (io_lift (header_parts hc h)) (append_all a)"

definition record_bytes :: "(bytes \<Rightarrow> string) \<Rightarrow> nat \<Rightarrow> pending \<Rightarrow> bytes" where
  "record_bytes dg index p =
     (let b = be_bytes 8 (pn_sequence p) @ be_bytes 8 index @ pn_bytes p in b @ bytes_of (dg b))"

fun write_records :: "(bytes \<Rightarrow> string) \<Rightarrow> nat \<Rightarrow> (nat \<times> pending) list \<Rightarrow> (jfs, unit, verror) io" where
  "write_records dg a [] = io_return ()"
| "write_records dg a ((index, p) # es) = io_bind (file_append a (record_bytes dg index p)) (\<lambda>_. write_records dg a es)"

section \<open>The state of the disk\<close>

record local_state =
  lo_header :: log_header
  lo_file :: nat
  lo_reader :: indexed
  lo_pending :: "(nat, pending) btree"
  lo_sequence :: nat
  lo_local_sequence :: nat
  lo_failed :: bool
  lo_replication_failed :: bool

record local_status =
  st_local_failed :: bool
  st_local_sequence :: nat
  st_remote_sequence :: nat
  st_pending_bytes :: nat
  st_replication_failed :: bool

type_synonym 's local_io = "local_state \<times> (jfs \<times> 's)"

definition on_files :: "(jfs, 'a, 'e) io \<Rightarrow> (jfs \<times> 's, 'a, 'e) io" where
  "on_files m = (\<lambda>(f, s). case m f of (r, f') \<Rightarrow> (r, (f', s)))"

definition log_status :: "local_state \<Rightarrow> local_status" where
  "log_status st = \<lparr>st_local_failed = lo_failed st, st_local_sequence = lo_local_sequence st,
     st_remote_sequence = lh_acknowledged (lo_header st), st_pending_bytes = length (lo_pending st) * CHUNK_BYTES,
     st_replication_failed = lo_replication_failed st\<rparr>"

definition log_check :: "local_state \<Rightarrow> nat \<Rightarrow> nat \<Rightarrow> (unit, verror) result" where
  "log_check st at len =
     (if lo_failed st then Err ReopenRequired
      else if WRITE_LIMIT < len \<or> (case checked_add at len of None \<Rightarrow> True | Some e \<Rightarrow> x_size (lo_reader st) < e) then Err InvalidInput
      else Ok ())"

definition sorted_entries :: "(nat, pending) btree \<Rightarrow> (nat \<times> pending) list" where
  "sorted_entries m = sort_key (\<lambda>(index, p). (pn_sequence p, index)) m"

definition compact_inner :: "log_header codec \<Rightarrow> ('s local_io, unit, verror) io" where
  "compact_inner hc =
     io_bind (lift_world (on_files secure)) (\<lambda>_.
     io_bind (lift_world (on_files (\<lambda>fs. if fs_new fs \<noteq> None then io_bind fs_call (\<lambda>_ fs'. (Ok (), fs'\<lparr>fs_new := None\<rparr>)) fs else (Ok (), fs)))) (\<lambda>_.
     io_bind (lift_world (on_files (io_bind fs_call (\<lambda>_ fs. (Ok (length (fs_files fs)),
         fs\<lparr>fs_files := fs_files fs @ [\<lparr>jf_data = [], jf_synced = []\<rparr>], fs_new := Some (length (fs_files fs))\<rparr>))))) (\<lambda>out.
     io_bind get_self (\<lambda>st0.
     io_bind (set_self (st0\<lparr>lo_header := (lo_header st0)\<lparr>lh_sequence := lo_sequence st0\<rparr>\<rparr>)) (\<lambda>_.
     io_bind get_self (\<lambda>st.
     io_bind (lift_world (on_files (write_header hc out (lo_header st)))) (\<lambda>_.
     io_bind (lift_world (on_files (write_records (c_digest hc) out (sorted_entries (lo_pending st))))) (\<lambda>_.
     io_bind (lift_world (on_files (file_sync out))) (\<lambda>_.
     io_bind (lift_world (on_files (io_bind fs_call (\<lambda>_ fs. (Ok (), fs\<lparr>fs_journal := fs_new fs, fs_new := None\<rparr>))))) (\<lambda>_.
     io_bind (lift_world (on_files fs_call)) (\<lambda>_.
     io_bind (lift_world (on_files (io_bind fs_call (\<lambda>_ fs. (Ok (), fs\<lparr>fs_journal_synced := fs_journal fs\<rparr>))))) (\<lambda>_.
       set_self (st\<lparr>lo_file := out, lo_local_sequence := lo_sequence st\<rparr>)))))))))))))"

definition set_failed :: "('s local_io, 'a, verror) io \<Rightarrow> ('s local_io, 'a, verror) io" where
  "set_failed m ls = (case m ls of (Err e, (st, w)) \<Rightarrow> (Err e, (st\<lparr>lo_failed := True\<rparr>, w)) | r \<Rightarrow> r)"

definition log_compact :: "log_header codec \<Rightarrow> ('s local_io, unit, verror) io" where
  "log_compact hc = set_failed (compact_inner hc)"

definition log_accept :: "indexed \<Rightarrow> ('s local_io, unit, verror) io" where
  "log_accept remote =
     io_bind get_self (\<lambda>st.
     io_bind (io_lift
       (if x_revision remote = lh_base (lo_header st) then Ok (lh_acknowledged (lo_header st))
        else (case rt_replication (x_root remote) of
            Some r \<Rightarrow>
              if rp_id r = lh_id (lo_header st) \<and> lh_acknowledged (lo_header st) \<le> rp_sequence r \<and> rp_sequence r \<le> lo_sequence st
              then Ok (rp_sequence r) else Err Conflict
          | None \<Rightarrow> Err Conflict))) (\<lambda>ack.
       set_self (st\<lparr>lo_header := (lo_header st)\<lparr>lh_base := x_revision remote, lh_acknowledged := ack\<rparr>,
         lo_pending := bt_retain (\<lambda>_ p. ack < pn_sequence p) (lo_pending st), lo_reader := remote\<rparr>)))"

section \<open>Opening\<close>

definition log_read_exact :: "nat \<Rightarrow> bytes \<Rightarrow> (jfs, bytes \<times> bytes, verror) io" where
  "log_read_exact n bs = io_bind fs_call (\<lambda>_. if length bs < n then io_throw Store else io_return (take n bs, drop n bs))"

definition read_header :: "log_header codec \<Rightarrow> bytes \<Rightarrow> (jfs, log_header \<times> bytes, verror) io" where
  "read_header hc bs =
     io_bind (log_read_exact 12 bs) (\<lambda>(start, bs1).
     let len = be_nat (drop 8 start) in
     if take 8 start \<noteq> LOG_MAGIC \<or> 4096 < len then io_throw Corrupt
     else
       io_bind (log_read_exact len bs1) (\<lambda>(b, bs2).
       io_bind (log_read_exact 64 bs2) (\<lambda>(checksum, bs3).
       if bytes_of (c_digest hc b) \<noteq> checksum then io_throw Corrupt
       else
         io_bind (io_lift (ok_or Corrupt (c_from_slice hc b))) (\<lambda>h. io_return (h, bs3)))))"

text \<open>The replay of the records, \<open>pos\<close> bytes into the file with \<open>bs\<close> ahead.\<close>

function replay_records ::
  "(bytes \<Rightarrow> string) \<Rightarrow> nat \<Rightarrow> nat \<Rightarrow> nat \<Rightarrow> nat \<Rightarrow> bytes \<Rightarrow> nat \<Rightarrow> nat \<Rightarrow> (nat, pending) btree
   \<Rightarrow> (jfs, nat \<times> (nat, pending) btree, verror) io" where
  "replay_records dg blocks ack a pos bs seq prev pend =
     io_bind fs_call (\<lambda>_.
     io_bind fs_call (\<lambda>_.
       if bs = [] then io_return (seq, pend)
       else if length bs < RECORD then io_bind (file_set_len a pos) (\<lambda>_. io_return (seq, pend))
       else
         io_bind (log_read_exact RECORD bs) (\<lambda>(b, _).
           if bytes_of (dg (take (RECORD - 64) b)) \<noteq> drop (RECORD - 64) b then io_throw Corrupt
           else
             (let s = be_nat (slice_of b 0 8); index = be_nat (slice_of b 8 16) in
              if s = 0 \<or> s < prev \<or> blocks \<le> index then io_throw Corrupt
              else
                (let pend' = (if ack < s then bt_insert index \<lparr>pn_sequence = s, pn_bytes = slice_of b 16 (16 + CHUNK_BYTES)\<rparr> pend else pend) in
                 if DIRTY_LIMIT < length pend' * CHUNK_BYTES then io_throw Corrupt
                 else replay_records dg blocks ack a (pos + RECORD) (drop RECORD bs) (max seq s) s pend')))))"
  by pat_completeness auto
termination
  by (relation "measure (\<lambda>(dg, blocks, ack, a, pos, bs, _). length bs)") (auto simp: RECORD_def)

declare replay_records.simps [simp del]

definition hex_id :: "string \<Rightarrow> bool" where
  "hex_id s \<longleftrightarrow> length s = 64 \<and> list_all (\<lambda>c. ascii_digit c \<or> (CHR ''a'' \<le> c \<and> c \<le> CHR ''f'') \<or> (CHR ''A'' \<le> c \<and> c \<le> CHR ''F'')) s"

definition replay_journal ::
  "log_header codec \<Rightarrow> string \<Rightarrow> indexed \<Rightarrow> nat \<Rightarrow> (jfs, log_header \<times> nat \<times> (nat, pending) btree, verror) io" where
  "replay_journal hc i remote a =
     io_bind (\<lambda>fs. (Ok (jf_data (fs_files fs ! a)), fs)) (\<lambda>bs.
     io_bind (read_header hc bs) (\<lambda>(h, rest).
       if lh_volume h \<noteq> i \<or> \<not> hex_id (lh_id h) \<or> lh_sequence h < lh_acknowledged h then io_throw Corrupt
       else
         (let ack = (case rt_replication (x_root remote) of
                Some r \<Rightarrow> if rp_id r = lh_id h then max (rp_sequence r) (lh_acknowledged h) else lh_acknowledged h
              | None \<Rightarrow> lh_acknowledged h) in
          io_bind (replay_records (c_digest hc) (x_size remote div CHUNK_BYTES) ack a (length bs - length rest) rest
              (lh_sequence h) (lh_acknowledged h) []) (\<lambda>(seq, pend).
            io_return (h, seq, pend)))))"

definition fresh_journal ::
  "log_header codec \<Rightarrow> string \<Rightarrow> indexed \<Rightarrow> nat \<Rightarrow> (jfs, log_header \<times> nat \<times> (nat, pending) btree, verror) io" where
  "fresh_journal hc i remote a =
     io_bind fs_call (\<lambda>_.
     io_bind (\<lambda>fs. (Ok (fs_random fs), fs)) (\<lambda>random.
     let h = \<lparr>lh_volume = i, lh_id = c_digest hc random, lh_base = x_revision remote, lh_acknowledged = 0, lh_sequence = 0\<rparr> in
     io_bind (write_header hc a h) (\<lambda>_.
     io_bind (file_sync a) (\<lambda>_.
     io_bind fs_call (\<lambda>_.
     io_bind (io_bind fs_call (\<lambda>_ fs. (Ok (), fs\<lparr>fs_journal_synced := fs_journal fs\<rparr>))) (\<lambda>_.
       io_return (h, 0, [])))))))"

text \<open>The entry of the journal, created empty when there is none.\<close>

definition open_journal_file :: "(jfs, nat \<times> bool, verror) io" where
  "open_journal_file fs =
     io_bind fs_call (\<lambda>_ fs'. case fs_journal fs' of
         Some a \<Rightarrow> (Ok (a, True), fs')
       | None \<Rightarrow> (Ok (length (fs_files fs'), False),
           fs'\<lparr>fs_files := fs_files fs' @ [\<lparr>jf_data = [], jf_synced = []\<rparr>], fs_journal := Some (length (fs_files fs'))\<rparr>)) fs"

text \<open>
  \<open>LocalDisk::open\<close>: the directory check, the lock file (taken or in conflict), the remote
  volume, the journal. The first fault of the lock decides that another process has it.
\<close>

definition take_lock :: "(jfs, unit, verror) io" where
  "take_lock fs = (case fs_fault fs of (n, fs') \<Rightarrow> (if n = 0 then Ok () else Err Conflict, fs'))"

definition local_open :: "'s ix_env \<Rightarrow> log_header codec \<Rightarrow> string \<Rightarrow> (jfs \<times> 's, local_state, verror) io" where
  "local_open E hc i =
     io_bind (on_files secure) (\<lambda>_.
     io_bind (on_files secure) (\<lambda>_.
     io_bind (on_files fs_call) (\<lambda>_.
     io_bind (on_files take_lock) (\<lambda>_.
     io_bind (lift_world (x_open E i)) (\<lambda>remote.
     io_bind (on_files secure) (\<lambda>_.
     io_bind (on_files open_journal_file) (\<lambda>(a, found).
     io_bind (on_files (io_bind fs_call (\<lambda>_ fs. (Ok (length (jf_data (fs_files fs ! a))), fs)))) (\<lambda>len.
     if LOG_LIMIT < len then io_throw Corrupt
     else
       io_bind (on_files (if found then replay_journal hc i remote a else fresh_journal hc i remote a)) (\<lambda>(h, seq, pend).
       io_bind (io_lift (clean_copy remote)) (\<lambda>reader.
       let st = \<lparr>lo_header = h, lo_file = a, lo_reader = reader, lo_pending = pend, lo_sequence = seq, lo_local_sequence = seq,
             lo_failed = False, lo_replication_failed = False\<rparr> in
       (\<lambda>w. case io_bind (log_accept remote) (\<lambda>_. log_compact hc) (st, w) of
            (Ok _, (st', w')) \<Rightarrow> (Ok st', w') | (Err e, (_, w')) \<Rightarrow> (Err e, w'))))))))))))"

section \<open>Reading, writing and flushing\<close>

definition local_size :: "local_state \<Rightarrow> nat" where
  "local_size st = x_size (lo_reader st)"

function local_read_loop :: "'s ix_env \<Rightarrow> local_state \<Rightarrow> nat \<Rightarrow> nat \<Rightarrow> nat \<Rightarrow> bytes \<Rightarrow> ('s, bytes, verror) io" where
  "local_read_loop E st at len copied out =
     (if copied < len then
        (let pos = at + copied;
             within = pos mod CHUNK_BYTES;
             n = loop_count pos copied len in
         io_bind (case bt_get (lo_pending st) (pos div CHUNK_BYTES) of
             Some p \<Rightarrow> io_return (slice_of (pn_bytes p) within (within + n))
           | None \<Rightarrow> x_read E (lo_reader st) pos (slice_of out copied (copied + n))) (\<lambda>piece.
           local_read_loop E st at len (copied + n) (copy_at out copied piece)))
      else io_return out)"
  by pat_completeness auto
termination
  by (relation "measure (\<lambda>(E, st, at, len, copied, out). len - copied)") (auto intro!: diff_less_mono2 loop_count_pos)

declare local_read_loop.simps [simp del]

definition local_read :: "'s ix_env \<Rightarrow> local_state \<Rightarrow> nat \<Rightarrow> bytes \<Rightarrow> ('s, bytes, verror) io" where
  "local_read E st at out = io_bind (io_lift (log_check st at (length out))) (\<lambda>_. local_read_loop E st at (length out) 0 out)"

definition local_load_for :: "'s ix_env \<Rightarrow> local_state \<Rightarrow> nat \<Rightarrow> nat \<Rightarrow> nat \<Rightarrow> ('s, bytes, verror) io" where
  "local_load_for E st index within n =
     (if within \<noteq> 0 \<or> n \<noteq> CHUNK_BYTES
      then (case bt_get (lo_pending st) index of
          Some p \<Rightarrow> io_return (pn_bytes p)
        | None \<Rightarrow> x_read E (lo_reader st) (index * CHUNK_BYTES) (zeros CHUNK_BYTES))
      else io_return (zeros CHUNK_BYTES))"

definition local_write :: "'s ix_env \<Rightarrow> log_header codec \<Rightarrow> nat \<Rightarrow> bytes \<Rightarrow> ('s local_io, unit, verror) io" where
  "local_write E hc at input =
     io_bind get_self (\<lambda>st.
     io_bind (io_lift (log_check st at (length input))) (\<lambda>_.
       if input = [] then io_return ()
       else
         (let first = at div CHUNK_BYTES;
              final = (at + length input - 1) div CHUNK_BYTES;
              extra = length (filter (\<lambda>i. bt_get (lo_pending st) i = None) [first..<final + 1]) in
          if DIRTY_LIMIT < (length (lo_pending st) + extra) * CHUNK_BYTES then io_throw Backpressure
          else
            io_bind (io_lift (ok_or Corrupt (checked_add (lo_sequence st) 1))) (\<lambda>sequence.
            io_bind (lift_world (lift_world (write_loop (local_load_for E st) at input 0 []))) (\<lambda>blocks.
            let staged = map (\<lambda>(index, b). (index, \<lparr>pn_sequence = sequence, pn_bytes = b\<rparr>)) blocks in
            io_bind (set_failed
                (io_bind get_self (\<lambda>st1.
                 io_bind (lift_world (on_files (io_bind fs_call (\<lambda>_ fs. (Ok (length (jf_data (fs_files fs ! lo_file st1))), fs))))) (\<lambda>len.
                 io_bind (if LOG_LIMIT < len + length staged * RECORD then log_compact hc else io_return ()) (\<lambda>_.
                 io_bind get_self (\<lambda>st2.
                   lift_world (on_files (write_records (c_digest hc) (lo_file st2) staged)))))))) (\<lambda>_.
            io_bind get_self (\<lambda>st3.
              set_self (st3\<lparr>lo_sequence := sequence, lo_pending := bt_extend (lo_pending st3) staged\<rparr>))))))))"

definition local_flush :: "('s local_io, unit, verror) io" where
  "local_flush =
     io_bind get_self (\<lambda>st.
     io_bind (io_lift (log_check st 0 0)) (\<lambda>_.
     io_bind (set_failed (lift_world (on_files (file_sync (lo_file st))))) (\<lambda>_.
     io_bind get_self (\<lambda>st1. set_self (st1\<lparr>lo_local_sequence := lo_sequence st1\<rparr>)))))"

section \<open>Replication\<close>

text \<open>A call of a method of the remote handle, which the caller owns.\<close>

definition on_remote :: "(indexed \<times> 's, 'a, verror) io \<Rightarrow> indexed \<Rightarrow> ('s local_io, 'a \<times> indexed, verror) io" where
  "on_remote m vol = (\<lambda>(st, f, s). case m (vol, s) of (Ok x, (vol', s')) \<Rightarrow> (Ok (x, vol'), (st, f, s')) | (Err e, (_, s')) \<Rightarrow> (Err e, (st, f, s')))"

fun write_entries :: "'s ix_env \<Rightarrow> (nat \<times> pending) list \<Rightarrow> indexed \<Rightarrow> ('s local_io, indexed, verror) io" where
  "write_entries E [] vol = io_return vol"
| "write_entries E ((index, p) # es) vol =
     io_bind (on_remote (x_write E (index * CHUNK_BYTES) (pn_bytes p)) vol) (\<lambda>(_, vol'). write_entries E es vol')"

definition local_replicate :: "'s ix_env \<Rightarrow> log_header codec \<Rightarrow> string \<Rightarrow> ('s local_io, local_status, verror) io" where
  "local_replicate E hc i =
     io_bind get_self (\<lambda>st.
     io_bind (io_lift (log_check st 0 0)) (\<lambda>_.
       if lo_pending st = [] then io_return (log_status st)
       else
         io_bind (lift_world (lift_world (x_open E i))) (\<lambda>remote.
         io_bind (io_lift (clean_copy remote)) (\<lambda>copy.
         io_bind (set_failed (log_accept copy)) (\<lambda>_.
         io_bind get_self (\<lambda>st1.
         io_bind (set_failed (lift_world (on_files (file_sync (lo_file st1))))) (\<lambda>_.
         io_bind (set_self (st1\<lparr>lo_local_sequence := lo_sequence st1\<rparr>)) (\<lambda>_.
         io_bind get_self (\<lambda>st2.
         if lo_pending st2 = [] then io_bind (log_compact hc) (\<lambda>_. io_bind get_self (\<lambda>st3. io_return (log_status st3)))
         else
           io_bind (write_entries E (lo_pending st2) remote) (\<lambda>remote1.
           io_bind (on_remote (commit_replication E \<lparr>rp_id = lh_id (lo_header st2), rp_sequence = lo_sequence st2\<rparr>) remote1) (\<lambda>(_, remote2).
           io_bind (log_accept remote2) (\<lambda>_.
           io_bind (set_failed (log_compact hc)) (\<lambda>_.
           io_bind get_self (\<lambda>st3. io_return (log_status st3)))))))))))))))"

definition sync_remote :: "'s ix_env \<Rightarrow> log_header codec \<Rightarrow> string \<Rightarrow> ('s local_io, local_status, verror) io" where
  "sync_remote E hc i ls =
     (case local_replicate E hc i ls of
        (Ok _, (st, w)) \<Rightarrow> let st' = st\<lparr>lo_replication_failed := False\<rparr> in (Ok (log_status st'), (st', w))
      | (Err e, (st, w)) \<Rightarrow> (Err e, (st\<lparr>lo_replication_failed := True\<rparr>, w)))"

definition compact_remote ::
  "'s ix_env \<Rightarrow> log_header codec \<Rightarrow> string \<Rightarrow> compaction_cursor option \<Rightarrow> nat \<Rightarrow> 's cancel \<Rightarrow> ('s local_io, compaction, verror) io" where
  "compact_remote E hc i after budget cancel =
     io_bind get_self (\<lambda>st.
       if lo_failed st then io_throw ReopenRequired
       else if lo_pending st \<noteq> [] then io_throw Backpressure
       else
         io_bind (lift_world (lift_world (x_open E i))) (\<lambda>remote.
         if x_revision remote \<noteq> x_revision (lo_reader st) then io_throw Conflict
         else
           io_bind (\<lambda>ls. case on_remote (compact_packs E after budget cancel) remote ls of
               (Err e, (st', w)) \<Rightarrow>
                 if e = Conflict \<or> e = Uncertain \<or> e = ReopenRequired then (Err e, (st'\<lparr>lo_failed := True\<rparr>, w)) else (Err e, (st', w))
             | r \<Rightarrow> r) (\<lambda>(result, remote').
           if cp_rewritten_blocks result \<noteq> 0
           then
             io_bind (set_self (st\<lparr>lo_header := (lo_header st)\<lparr>lh_base := x_revision remote'\<rparr>, lo_reader := remote'\<rparr>)) (\<lambda>_.
             io_bind (log_compact hc) (\<lambda>_. io_return result))
           else io_return result)))"

end
