(* ===== verification/Journal_Recovery.thy ===== *)
theory Journal_Recovery
  imports Journal "HOL-Library.Multiset"
begin

text \<open>
  What the journal promises: reads and writes of the local disk, the durability of a
  flush, and recovery. The invariant says that the file holds a header and the records of
  the writes since the last compaction, that replaying them gives the pending blocks, and
  that a known prefix of them is synced. A crash then loses at most records that were not
  synced, and opening the disk again replays the rest.
\<close>

section \<open>Calls on files\<close>

definition disk_of :: "jfs \<Rightarrow> jfile list \<times> nat option \<times> nat option \<times> nat option" where
  "disk_of fs = (fs_files fs, fs_journal fs, fs_journal_synced fs, fs_new fs)"

lemma disk_of_eqD: "disk_of fs' = disk_of fs \<Longrightarrow>
    fs_files fs' = fs_files fs \<and> fs_journal fs' = fs_journal fs \<and> fs_journal_synced fs' = fs_journal_synced fs \<and> fs_new fs' = fs_new fs"
  by (simp add: disk_of_def)

text \<open>
  \<open>becomes c fs d\<close>: the directory holds \<open>d\<close>, and when \<open>c\<close> is set no call will fail. The
  lemmas on operations carry \<open>c\<close>, so that one statement says both what an operation does
  and that it fails only on a fault.
\<close>

definition becomes :: "bool \<Rightarrow> jfs \<Rightarrow> jfile list \<times> nat option \<times> nat option \<times> nat option \<Rightarrow> bool" where
  "becomes c fs d \<longleftrightarrow> disk_of fs = d \<and> (c \<longrightarrow> fs_faults fs = [])"

abbreviation fine :: "bool \<Rightarrow> jfs \<Rightarrow> bool" where
  "fine c fs \<equiv> becomes c fs (disk_of fs)"

lemma fine_iff: "fine c fs \<longleftrightarrow> (c \<longrightarrow> fs_faults fs = [])"
  by (simp add: becomes_def)

lemma becomes_fine: "becomes c fs d \<Longrightarrow> fine c fs"
  by (simp add: becomes_def)

lemma becomesD: "becomes c fs d \<Longrightarrow> disk_of fs = d"
  by (simp add: becomes_def)

lemma fs_fault_fine: "fine c fs \<Longrightarrow> fs_fault fs = (n, fs') \<Longrightarrow> becomes c fs' (disk_of fs) \<and> (c \<longrightarrow> n = 0)"
  by (auto simp: fs_fault_def becomes_def disk_of_def split: list.splits)

lemma fs_call_post: "fine c fs \<Longrightarrow> post fs_call (\<lambda>_ fs'. becomes c fs' (disk_of fs)) (\<lambda>_ _. \<not> c) fs"
  using fs_fault_fine [of c fs] by (auto simp: fs_call_def post_def split: prod.splits)

lemma secure_post: "fine c fs \<Longrightarrow> post secure (\<lambda>_ fs'. becomes c fs' (disk_of fs)) (\<lambda>_ _. \<not> c) fs"
  using fs_fault_fine [of c fs] by (auto simp: secure_def post_def split: prod.splits)

lemma take_lock_post: "fine c fs \<Longrightarrow> post take_lock (\<lambda>_ fs'. becomes c fs' (disk_of fs)) (\<lambda>_ _. \<not> c) fs"
  using fs_fault_fine [of c fs] by (auto simp: take_lock_def post_def split: prod.splits)

lemma silent_bind:
  assumes "\<And>t. fine c t \<Longrightarrow> post m (\<lambda>_ t'. becomes c t' (disk_of t)) (\<lambda>_ _. \<not> c) t"
    and "becomes c t d" "\<And>x u. becomes c u d \<Longrightarrow> post (f x) Q (\<lambda>_ _. \<not> c) u"
  shows "post (io_bind m f) Q (\<lambda>_ _. \<not> c) t"
  unfolding post_bind
  by (rule post_mono [OF assms(1) [OF becomes_fine [OF assms(2)]]]) (use assms(3) becomesD [OF assms(2)] in auto)

lemmas fs_call_bind = silent_bind [OF fs_call_post]
lemmas secure_bind = silent_bind [OF secure_post]
lemmas take_lock_bind = silent_bind [OF take_lock_post]

text \<open>The successful outcomes: what the file holds afterwards.\<close>

definition set_file :: "nat \<Rightarrow> jfile \<Rightarrow> jfile list \<times> nat option \<times> nat option \<times> nat option \<Rightarrow> jfile list \<times> nat option \<times> nat option \<times> nat option" where
  "set_file a f = (\<lambda>(fl, rest). (fl[a := f], rest))"

lemma update_file_becomes: "becomes c fs' (disk_of fs) \<Longrightarrow> becomes c (update_file a g fs') (set_file a (g (fs_files fs ! a)) (disk_of fs))"
  by (simp add: update_file_def disk_of_def set_file_def becomes_def)

lemma file_append_post:
  "fine c fs \<Longrightarrow> post (file_append a bs) (\<lambda>_ fs'. becomes c fs' (set_file a ((fs_files fs ! a)\<lparr>jf_data := jf_data (fs_files fs ! a) @ bs\<rparr>) (disk_of fs)))
     (\<lambda>_ _. \<not> c) fs"
  using fs_fault_fine [of c fs] update_file_becomes [of c _ fs a]
  by (fastforce simp: file_append_def post_def split: prod.splits nat.splits)

lemma file_sync_post:
  "fine c fs \<Longrightarrow> post (file_sync a) (\<lambda>_ fs'. becomes c fs' (set_file a ((fs_files fs ! a)\<lparr>jf_synced := jf_data (fs_files fs ! a)\<rparr>) (disk_of fs)))
     (\<lambda>_ _. \<not> c) fs"
  using fs_fault_fine [of c fs] update_file_becomes [of c _ fs a]
  by (fastforce simp: file_sync_def post_def split: prod.splits nat.splits)

lemma file_set_len_post:
  "fine c fs \<Longrightarrow> post (file_set_len a n) (\<lambda>_ fs'. becomes c fs' (set_file a ((fs_files fs ! a)\<lparr>jf_data := take n (jf_data (fs_files fs ! a))\<rparr>) (disk_of fs)))
     (\<lambda>_ _. \<not> c) fs"
  using fs_fault_fine [of c fs] update_file_becomes [of c _ fs a]
  by (fastforce simp: file_set_len_def post_def split: prod.splits nat.splits)

lemma set_file_twice: "set_file a f (set_file a g d) = set_file a f d"
  by (simp add: set_file_def split: prod.split)

lemma append_all_post:
  assumes "a < length (fs_files fs)" "fine c fs"
  shows "post (append_all a bss) (\<lambda>_ fs'. becomes c fs' (set_file a ((fs_files fs ! a)\<lparr>jf_data := jf_data (fs_files fs ! a) @ concat bss\<rparr>) (disk_of fs)))
     (\<lambda>_ _. \<not> c) fs"
  using assms
proof (induction bss arbitrary: fs)
  case Nil
  then show ?case by (simp add: post_return becomes_def disk_of_def set_file_def)
next
  case (Cons b bss)
  have "post (append_all a bss) (\<lambda>_ fs'. becomes c fs' (set_file a ((fs_files fs ! a)\<lparr>jf_data := jf_data (fs_files fs ! a) @ concat (b # bss)\<rparr>) (disk_of fs))) (\<lambda>_ _. \<not> c) t"
    if "becomes c t (set_file a ((fs_files fs ! a)\<lparr>jf_data := jf_data (fs_files fs ! a) @ b\<rparr>) (disk_of fs))" for t
  proof -
    have t: "fs_files t = (fs_files fs)[a := (fs_files fs ! a)\<lparr>jf_data := jf_data (fs_files fs ! a) @ b\<rparr>]"
      using that by (simp add: becomes_def disk_of_def set_file_def)
    show ?thesis
      by (rule post_mono [OF Cons.IH [of t]]) (use Cons.prems that becomesD [OF that] becomes_fine [OF that] in \<open>auto simp: t set_file_twice\<close>)
  qed
  then show ?case using Cons.prems(2) by (auto simp: post_bind intro!: post_mono [OF file_append_post [of c]])
qed

lemma write_records_append: "write_records dg a es = append_all a (map (\<lambda>(i, p). record_bytes dg i p) es)"
  by (induction es) auto

lemma post_on_files [post_simps]: "post (on_files m) Q F (f, s) = post m (\<lambda>x f'. Q x (f', s)) (\<lambda>e f'. F e (f', s)) f"
  by (simp add: post_def on_files_def split: prod.split result.split)

lemma post_set_failed [post_simps]: "post (set_failed m) Q F ls = post m Q (\<lambda>e (st, w). F e (st\<lparr>lo_failed := True\<rparr>, w)) ls"
  by (auto simp: post_def set_failed_def split: prod.split result.split)

section \<open>The log\<close>

definition header_bytes :: "log_header codec \<Rightarrow> log_header \<Rightarrow> bytes" where
  "header_bytes hc h = (case header_parts hc h of Ok bss \<Rightarrow> concat bss | Err _ \<Rightarrow> [])"

definition log_records :: "(bytes \<Rightarrow> string) \<Rightarrow> (nat \<times> pending) list \<Rightarrow> bytes" where
  "log_records dg recs = concat (map (\<lambda>(i, p). record_bytes dg i p) recs)"

definition record_ok :: "nat \<Rightarrow> nat \<times> pending \<Rightarrow> bool" where
  "record_ok blocks = (\<lambda>(i, p). i < blocks \<and> i < 256 ^ 8 \<and> 0 < pn_sequence p \<and> pn_sequence p < 256 ^ 8 \<and> length (pn_bytes p) = CHUNK_BYTES)"

definition replayed :: "nat \<Rightarrow> (nat \<times> pending) list \<Rightarrow> (nat, pending) btree \<Rightarrow> (nat, pending) btree" where
  "replayed ack recs pend = fold (\<lambda>(i, p) m. if ack < pn_sequence p then bt_insert i p m else m) recs pend"

definition top_sequence :: "nat \<Rightarrow> (nat \<times> pending) list \<Rightarrow> nat" where
  "top_sequence q recs = fold (\<lambda>(i, p) m. max m (pn_sequence p)) recs q"

definition in_order :: "nat \<Rightarrow> (nat \<times> pending) list \<Rightarrow> bool" where
  "in_order q recs \<longleftrightarrow> sorted (q # map (\<lambda>(i, p). pn_sequence p) recs)"

lemma length_record:
  assumes "\<And>b. valid_hash (dg b)" "length (pn_bytes p) = CHUNK_BYTES"
  shows "length (record_bytes dg i p) = RECORD"
  using assms by (simp add: record_bytes_def RECORD_def bytes_of_def valid_hash_iff Let_def)

lemma length_log_records:
  assumes "\<And>b. valid_hash (dg b)" "\<forall>e \<in> set recs. record_ok blocks e"
  shows "length (log_records dg recs) = length recs * RECORD"
  using assms(2) length_record [OF assms(1)] by (induction recs) (auto simp: log_records_def record_ok_def)

lemma bt_insert_length: "length m \<le> length (bt_insert k v m)"
  by (induction k v m rule: bt_insert.induct) auto

lemma replayed_length: "length pend \<le> length (replayed ack recs pend)"
proof (induction recs arbitrary: pend)
  case (Cons e recs)
  then show ?case
    using bt_insert_length [of pend "fst e" "snd e"] Cons.IH [of "bt_insert (fst e) (snd e) pend"] Cons.IH [of pend]
    by (cases e) (auto simp: replayed_def intro: le_trans)
qed (simp add: replayed_def)

text \<open>One record is parsed back.\<close>

lemma record_fields:
  assumes "\<And>b. valid_hash (dg b)" "record_ok blocks (i, p)"
  shows "take (RECORD - 64) (record_bytes dg i p) = be_bytes 8 (pn_sequence p) @ be_bytes 8 i @ pn_bytes p"
    "drop (RECORD - 64) (record_bytes dg i p) = bytes_of (dg (be_bytes 8 (pn_sequence p) @ be_bytes 8 i @ pn_bytes p))"
    "be_nat (slice_of (record_bytes dg i p) 0 8) = pn_sequence p" "be_nat (slice_of (record_bytes dg i p) 8 16) = i"
    "slice_of (record_bytes dg i p) 16 (16 + CHUNK_BYTES) = pn_bytes p"
  using assms(2) by (simp_all add: record_bytes_def Let_def RECORD_def record_ok_def slice_of_def be_nat_bytes_id)

text \<open>Replay reads the complete records in order and cuts a torn tail off.\<close>

definition trimmed :: "bool \<Rightarrow> nat \<Rightarrow> jfs \<Rightarrow> jfs \<Rightarrow> bool" where
  "trimmed c a fs fs' \<longleftrightarrow> (\<exists>d. becomes c fs' (set_file a ((fs_files fs ! a)\<lparr>jf_data := d\<rparr>) (disk_of fs)))"

lemma trimmed_same: "becomes c fs' (disk_of fs) \<Longrightarrow> trimmed c a fs fs'"
  unfolding trimmed_def by (rule exI [of _ "jf_data (fs_files fs ! a)"]) (simp add: becomes_def disk_of_def set_file_def)

lemma trimmed_cong: "becomes c t (disk_of fs) \<Longrightarrow> trimmed c a t fs' = trimmed c a fs fs'"
  by (simp add: trimmed_def becomes_def disk_of_def)

lemma log_read_exact_post:
  "fine c fs \<Longrightarrow> n \<le> length bs \<Longrightarrow> post (log_read_exact n bs) (\<lambda>x fs'. x = (take n bs, drop n bs) \<and> becomes c fs' (disk_of fs)) (\<lambda>_ _. \<not> c) fs"
  unfolding log_read_exact_def by (rule fs_call_bind) (auto simp: post_simps)

lemma replay_records_post:
  assumes dg: "\<And>b. valid_hash (dg b)" and tail: "length tail < RECORD"
  shows "fine c fs \<Longrightarrow> \<forall>e \<in> set recs. record_ok blocks e \<Longrightarrow> in_order prev recs \<Longrightarrow> length (replayed ack recs pend) * CHUNK_BYTES \<le> DIRTY_LIMIT \<Longrightarrow>
    post (replay_records dg blocks ack a pos (log_records dg recs @ tail) seq prev pend)
      (\<lambda>x fs'. x = (top_sequence seq recs, replayed ack recs pend) \<and> trimmed c a fs fs') (\<lambda>_ _. \<not> c) fs"
proof (induction recs arbitrary: pos seq prev pend fs)
  case Nil
  have "post (if tail = [] then io_return (seq, pend)
      else if length tail < RECORD then io_bind (file_set_len a pos) (\<lambda>_. io_return (seq, pend)) else m)
      (\<lambda>x fs'. x = (top_sequence seq [], replayed ack [] pend) \<and> trimmed c a fs fs') (\<lambda>_ _. \<not> c) t"
    if "becomes c t (disk_of fs)" for t m
    using tail that trimmed_same [OF that] disk_of_eqD [OF becomesD [OF that]] becomes_fine [OF that] becomesD [OF that]
    by (auto simp: post_simps top_sequence_def replayed_def trimmed_def intro!: post_mono [OF file_set_len_post [of c]])
  then show ?case
    using tail Nil.prems(1) by (subst replay_records.simps) (auto simp: log_records_def intro!: fs_call_bind [where d = "disk_of fs"])
next
  case (Cons e recs)
  obtain i p where e: "e = (i, p)" by force
  have ok: "record_ok blocks (i, p)" "\<forall>e \<in> set recs. record_ok blocks e" using Cons.prems(2) by (simp_all add: e)
  have p: "0 < pn_sequence p" "i < blocks" "length (pn_bytes p) = CHUNK_BYTES" using ok(1) by (simp_all add: record_ok_def)
  have ord: "prev \<le> pn_sequence p" "in_order (pn_sequence p) recs" using Cons.prems(3) by (auto simp: in_order_def e)
  let ?bs = "log_records dg (e # recs) @ tail" and ?r = "record_bytes dg i p"
  have len: "length ?r = RECORD" by (rule length_record [OF dg p(3)])
  have bs: "?bs = ?r @ (log_records dg recs @ tail)" by (simp add: log_records_def e)
  have cutbs: "take RECORD ?bs = ?r" "drop RECORD ?bs = log_records dg recs @ tail" "RECORD \<le> length ?bs" "?bs \<noteq> []"
    using len by (auto simp: bs RECORD_def)
  note fields = record_fields [OF dg ok(1)]
  define pend' where "pend' = (if ack < pn_sequence p then bt_insert i p pend else pend)"
  have same: "\<lparr>pn_sequence = pn_sequence p, pn_bytes = pn_bytes p\<rparr> = p" by (cases p) simp
  have new: "(if ack < pn_sequence p then bt_insert i \<lparr>pn_sequence = pn_sequence p, pn_bytes = pn_bytes p\<rparr> pend else pend) = pend'"
    unfolding same pend'_def by (rule refl)
  have rep: "replayed ack (e # recs) pend = replayed ack recs pend'" by (simp add: replayed_def e pend'_def)
  have lim: "\<not> DIRTY_LIMIT < length pend' * CHUNK_BYTES"
    using order_trans [OF mult_le_mono1 [OF replayed_length [of pend' ack recs]] Cons.prems(4) [unfolded rep]] by (rule leD)
  have top: "top_sequence (max seq (pn_sequence p)) recs = top_sequence seq (e # recs)" by (simp add: top_sequence_def e)
  have ih: "post (replay_records dg blocks ack a (pos + RECORD) (log_records dg recs @ tail) (max seq (pn_sequence p)) (pn_sequence p) pend')
      (\<lambda>x fs'. x = (top_sequence seq (e # recs), replayed ack (e # recs) pend) \<and> trimmed c a fs fs') (\<lambda>_ _. \<not> c) t" if "becomes c t (disk_of fs)" for t
    using Cons.IH [OF becomes_fine [OF that] ok(2) ord(2) Cons.prems(4) [unfolded rep], of "pos + RECORD" "max seq (pn_sequence p)"]
    unfolding trimmed_cong [OF that] top rep .
  have body: "post (io_bind (log_read_exact RECORD ?bs) (\<lambda>(b, _).
           if bytes_of (dg (take (RECORD - 64) b)) \<noteq> drop (RECORD - 64) b then io_throw Corrupt
           else
             (let s = be_nat (slice_of b 0 8); index = be_nat (slice_of b 8 16) in
              if s = 0 \<or> s < prev \<or> blocks \<le> index then io_throw Corrupt
              else
                (let pend' = (if ack < s then bt_insert index \<lparr>pn_sequence = s, pn_bytes = slice_of b 16 (16 + CHUNK_BYTES)\<rparr> pend else pend) in
                 if DIRTY_LIMIT < length pend' * CHUNK_BYTES then io_throw Corrupt
                 else replay_records dg blocks ack a (pos + RECORD) (drop RECORD ?bs) (max seq s) s pend'))))
      (\<lambda>x fs'. x = (top_sequence seq (e # recs), replayed ack (e # recs) pend) \<and> trimmed c a fs fs') (\<lambda>_ _. \<not> c) t" if "becomes c t (disk_of fs)" for t
  proof -
    have "post (log_read_exact RECORD ?bs) (\<lambda>x u. x = (?r, drop RECORD ?bs) \<and> becomes c u (disk_of fs)) (\<lambda>_ _. \<not> c) t"
      using log_read_exact_post [OF becomes_fine [OF that] cutbs(3)] becomesD [OF that] cutbs(1) by simp
    then show ?thesis
      unfolding post_bind
    proof (rule post_mono)
      fix x u
      assume "x = (?r, drop RECORD ?bs) \<and> becomes c u (disk_of fs)"
      then have x: "x = (?r, drop RECORD ?bs)" and u: "becomes c u (disk_of fs)" by blast+
      have "\<not> (pn_sequence p = 0 \<or> pn_sequence p < prev \<or> blocks \<le> i)" using p ord(1) by auto
      then show "post (case x of (b, _) \<Rightarrow>
           if bytes_of (dg (take (RECORD - 64) b)) \<noteq> drop (RECORD - 64) b then io_throw Corrupt
           else
             (let s = be_nat (slice_of b 0 8); index = be_nat (slice_of b 8 16) in
              if s = 0 \<or> s < prev \<or> blocks \<le> index then io_throw Corrupt
              else
                (let pend' = (if ack < s then bt_insert index \<lparr>pn_sequence = s, pn_bytes = slice_of b 16 (16 + CHUNK_BYTES)\<rparr> pend else pend) in
                 if DIRTY_LIMIT < length pend' * CHUNK_BYTES then io_throw Corrupt
                 else replay_records dg blocks ack a (pos + RECORD) (drop RECORD ?bs) (max seq s) s pend')))
          (\<lambda>x fs'. x = (top_sequence seq (e # recs), replayed ack (e # recs) pend) \<and> trimmed c a fs fs') (\<lambda>_ _. \<not> c) u"
        using ih [OF u] lim unfolding x prod.case fields cutbs(2) Let_def new by (simp only: if_False not_True_eq_False refl)
    qed
  qed
  show ?case
    using cutbs(3,4) body Cons.prems(1)
    by (subst replay_records.simps) (auto intro!: fs_call_bind [where d = "disk_of fs"])
qed

lemma header_parts_Ok:
  "header_parts hc h = Ok bss \<longleftrightarrow> (\<exists>b. c_to_vec hc h = Some b \<and> length b \<le> 4096 \<and> bss = [LOG_MAGIC, be_bytes 4 (length b), b, bytes_of (c_digest hc b)])"
  by (auto simp: header_parts_def res_bind_def ok_or_def split: option.splits)

lemma header_bytes_Ok:
  assumes "header_parts hc h = Ok bss"
  obtains b where "c_to_vec hc h = Some b" "length b \<le> 4096" "concat bss = header_bytes hc h"
    "header_bytes hc h = (LOG_MAGIC @ be_bytes 4 (length b)) @ b @ bytes_of (c_digest hc b)"
proof -
  obtain b where "c_to_vec hc h = Some b" "length b \<le> 4096" "bss = [LOG_MAGIC, be_bytes 4 (length b), b, bytes_of (c_digest hc b)]"
    using assms by (auto simp: header_parts_Ok)
  then show thesis using that [of b] assms by (simp add: header_bytes_def)
qed

lemma length_header:
  assumes hc: "codec_ok good hc" and parts: "header_parts hc h = Ok bss"
  shows "length (header_bytes hc h) \<le> 4172"
proof -
  obtain b where b: "length b \<le> 4096" "header_bytes hc h = (LOG_MAGIC @ be_bytes 4 (length b)) @ b @ bytes_of (c_digest hc b)"
    by (rule header_bytes_Ok [OF parts])
  have "length (c_digest hc b) = 64" using hc by (simp add: codec_ok_def valid_hash_iff)
  then show ?thesis using b(1) unfolding b(2) by (simp add: LOG_MAGIC_def bytes_of_def)
qed

lemma read_header_post:
  assumes hc: "codec_ok (\<lambda>_. True) hc" and parts: "header_parts hc h = Ok bss" and fine: "fine c fs"
  shows "post (read_header hc (header_bytes hc h @ rest)) (\<lambda>x fs'. x = (h, rest) \<and> becomes c fs' (disk_of fs)) (\<lambda>_ _. \<not> c) fs"
proof -
  obtain b where b: "c_to_vec hc h = Some b" "length b \<le> 4096"
      "header_bytes hc h = (LOG_MAGIC @ be_bytes 4 (length b)) @ b @ bytes_of (c_digest hc b)"
    by (rule header_bytes_Ok [OF parts])
  have known: "c_from_slice hc b = Some h" and dg: "length (bytes_of (c_digest hc b)) = 64"
    using hc b(1) by (auto simp: codec_ok_def valid_hash_iff bytes_of_def)
  define start where "start = LOG_MAGIC @ be_bytes 4 (length b)"
  have st: "length start = 12" "take 8 start = LOG_MAGIC" "drop 8 start = be_bytes 4 (length b)"
    by (simp_all add: start_def LOG_MAGIC_def)
  have n: "be_nat (drop 8 start) = length b" using b(2) by (simp add: st(3) be_nat_bytes_id)
  let ?cs = "bytes_of (c_digest hc b)"
  have ok: "c_from_slice hc b = Some h" by (rule known)
  have r1: "post (log_read_exact 12 (start @ b @ ?cs @ rest)) (\<lambda>x t. x = (start, b @ ?cs @ rest) \<and> becomes c t (disk_of fs)) (\<lambda>_ _. \<not> c) fs"
    using log_read_exact_post [OF fine, of 12 "start @ b @ ?cs @ rest"] st(1) by simp
  have r2: "post (log_read_exact (length b) (b @ ?cs @ rest)) (\<lambda>x t'. x = (b, ?cs @ rest) \<and> becomes c t' (disk_of fs)) (\<lambda>_ _. \<not> c) t"
    if "becomes c t (disk_of fs)" for t
    using log_read_exact_post [OF becomes_fine [OF that], of "length b" "b @ ?cs @ rest"] becomesD [OF that] by simp
  have r3: "post (log_read_exact 64 (?cs @ rest)) (\<lambda>x t'. x = (?cs, rest) \<and> becomes c t' (disk_of fs)) (\<lambda>_ _. \<not> c) t"
    if "becomes c t (disk_of fs)" for t
    using log_read_exact_post [OF becomes_fine [OF that], of 64 "?cs @ rest"] becomesD [OF that] dg by simp
  have last: "post (log_read_exact 64 (?cs @ rest))
      (\<lambda>x. post (case x of (checksum, bs3) \<Rightarrow> if ?cs \<noteq> checksum then io_throw Corrupt
          else io_bind (io_lift (ok_or Corrupt (c_from_slice hc b))) (\<lambda>h. io_return (h, bs3)))
        (\<lambda>x t'. x = (h, rest) \<and> becomes c t' (disk_of fs)) (\<lambda>_ _. \<not> c)) (\<lambda>_ _. \<not> c) t" if "becomes c t (disk_of fs)" for t
    by (rule post_mono [OF r3 [OF that]]) (auto simp: known post_simps)
  show ?thesis
    unfolding read_header_def b(3) start_def [symmetric] append_assoc post_bind
    using b(2) by (intro post_mono [OF r1]) (auto simp: n st(2) Let_def post_bind intro!: post_mono [OF r2] last)
qed

section \<open>The invariant\<close>

definition log_bytes :: "log_header codec \<Rightarrow> log_header \<Rightarrow> (nat \<times> pending) list \<Rightarrow> bytes" where
  "log_bytes hc h recs = header_bytes hc h @ log_records (c_digest hc) recs"

definition acknowledged :: "local_state \<Rightarrow> nat" where
  "acknowledged st = lh_acknowledged (lo_header st)"

text \<open>The state without its file: what a compaction needs to write it out.\<close>

definition header_fits :: "log_header codec \<Rightarrow> log_header \<Rightarrow> bool" where
  "header_fits hc h \<longleftrightarrow> (\<forall>a < U64. \<forall>q < U64. \<exists>bss. header_parts hc (h\<lparr>lh_acknowledged := a, lh_sequence := q\<rparr>) = Ok bss)"

definition state_ok :: "log_header codec \<Rightarrow> local_state \<Rightarrow> bool" where
  "state_ok hc st \<longleftrightarrow> header_fits hc (lo_header st) \<and> bt_ok (lo_pending st)
     \<and> (\<forall>(i, p) \<in> set (lo_pending st). record_ok (x_size (lo_reader st) div CHUNK_BYTES) (i, p)
          \<and> acknowledged st < pn_sequence p \<and> pn_sequence p \<le> lo_sequence st)
     \<and> length (lo_pending st) * CHUNK_BYTES \<le> DIRTY_LIMIT
     \<and> acknowledged st \<le> lo_sequence st \<and> lo_sequence st < U64
     \<and> lh_volume (lo_header st) = rt_volume (x_root (lo_reader st)) \<and> hex_id (lh_id (lo_header st))
     \<and> lh_base (lo_header st) = x_revision (lo_reader st)
     \<and> (\<forall>r. rt_replication (x_root (lo_reader st)) = Some r \<longrightarrow> rp_id r = lh_id (lo_header st) \<longrightarrow> rp_sequence r \<le> acknowledged st)
     \<and> x_inv (lo_reader st) \<and> x_dirty (lo_reader st) = [] \<and> \<not> x_poisoned (lo_reader st)"

text \<open>
  The header of the file and the header in memory: the same base and acknowledged
  sequence, or an older one that the mark of the remote root brings up to date.
\<close>

definition reconciled :: "log_header \<Rightarrow> local_state \<Rightarrow> bool" where
  "reconciled h st \<longleftrightarrow> lh_volume h = lh_volume (lo_header st) \<and> lh_id h = lh_id (lo_header st) \<and> lh_acknowledged h \<le> lh_sequence h
     \<and> (lh_base h = lh_base (lo_header st) \<and> lh_acknowledged h = acknowledged st
        \<or> lh_base h \<noteq> lh_base (lo_header st) \<and> lh_acknowledged h \<le> acknowledged st
          \<and> rt_replication (x_root (lo_reader st)) = Some \<lparr>rp_id = lh_id (lo_header st), rp_sequence = acknowledged st\<rparr>)"

text \<open>The file holds \<open>h\<close> and \<open>recs\<close>, of which the first \<open>m\<close> are synced, and they replay to the state.\<close>

definition journaled :: "log_header codec \<Rightarrow> local_state \<Rightarrow> jfs \<Rightarrow> log_header \<Rightarrow> (nat \<times> pending) list \<Rightarrow> nat \<Rightarrow> bool" where
  "journaled hc st fs h recs m \<longleftrightarrow> state_ok hc st
     \<and> lo_file st < length (fs_files fs) \<and> fs_journal fs = Some (lo_file st) \<and> fs_journal_synced fs = Some (lo_file st)
     \<and> (\<exists>bss. header_parts hc h = Ok bss)
     \<and> jf_data (fs_files fs ! lo_file st) = log_bytes hc h recs \<and> m \<le> length recs
     \<and> jf_synced (fs_files fs ! lo_file st) = log_bytes hc h (take m recs)
     \<and> length (log_bytes hc h recs) \<le> LOG_LIMIT
     \<and> (\<forall>e \<in> set recs. record_ok (x_size (lo_reader st) div CHUNK_BYTES) e) \<and> in_order (lh_acknowledged h) recs
     \<and> lo_pending st = replayed (acknowledged st) recs [] \<and> lo_sequence st = top_sequence (lh_sequence h) recs
     \<and> reconciled h st \<and> acknowledged st \<le> top_sequence (lh_sequence h) (take m recs)"

lemma journaledD:
  assumes "journaled hc st fs h recs m"
  shows "state_ok hc st" "lo_file st < length (fs_files fs)" "fs_journal fs = Some (lo_file st)" "fs_journal_synced fs = Some (lo_file st)"
    "\<exists>bss. header_parts hc h = Ok bss" "jf_data (fs_files fs ! lo_file st) = log_bytes hc h recs" "m \<le> length recs"
    "jf_synced (fs_files fs ! lo_file st) = log_bytes hc h (take m recs)" "length (log_bytes hc h recs) \<le> LOG_LIMIT"
    "\<forall>e \<in> set recs. record_ok (x_size (lo_reader st) div CHUNK_BYTES) e" "in_order (lh_acknowledged h) recs"
    "lo_pending st = replayed (acknowledged st) recs []" "lo_sequence st = top_sequence (lh_sequence h) recs" "reconciled h st"
    "acknowledged st \<le> top_sequence (lh_sequence h) (take m recs)"
  using assms unfolding journaled_def by blast+

lemma journaled_cong: "disk_of fs' = disk_of fs \<Longrightarrow> journaled hc st fs' h recs m = journaled hc st fs h recs m"
  by (simp add: journaled_def disk_of_def)

section \<open>Replay as a map\<close>

lemma replayed_append: "replayed ack (recs @ recs') pend = replayed ack recs' (replayed ack recs pend)"
  by (simp add: replayed_def)

lemma bt_ok_replayed: "bt_ok pend \<Longrightarrow> bt_ok (replayed ack recs pend)"
  by (induction recs arbitrary: pend) (auto simp: replayed_def)

lemma replayed_above: "\<forall>(i, p) \<in> set recs. ack < pn_sequence p \<Longrightarrow> replayed ack recs pend = bt_extend pend recs"
  by (induction recs arbitrary: pend) (auto simp: replayed_def bt_extend_def)

lemma bt_get_replayed_in:
  "bt_ok pend \<Longrightarrow> bt_get (replayed ack recs pend) i = Some p \<Longrightarrow> (i, p) \<in> set recs \<and> ack < pn_sequence p \<or> bt_get pend i = Some p"
proof (induction recs arbitrary: pend)
  case (Cons e recs)
  obtain k q where e: "e = (k, q)" by force
  let ?next = "if ack < pn_sequence q then bt_insert k q pend else pend"
  have "bt_get (replayed ack recs ?next) i = Some p" using Cons.prems(2) by (simp add: replayed_def e)
  moreover have "bt_ok ?next" using Cons.prems(1) by simp
  ultimately have "(i, p) \<in> set recs \<and> ack < pn_sequence p \<or> bt_get ?next i = Some p" by (metis Cons.IH)
  then show ?case using Cons.prems(1) by (auto simp: e bt_get_insert split: if_splits)
qed (simp add: replayed_def)

lemma sequence_below: "e \<in> set recs \<Longrightarrow> pn_sequence (snd e) \<le> top_sequence q recs" "q \<le> top_sequence q recs"
proof -
  have up: "q \<le> top_sequence q recs" for q recs
    by (induction recs arbitrary: q) (auto simp: top_sequence_def intro: le_trans [OF max.cobounded1])
  show "q \<le> top_sequence q recs" by (rule up)
  show "e \<in> set recs \<Longrightarrow> pn_sequence (snd e) \<le> top_sequence q recs"
  proof (induction recs arbitrary: q)
    case (Cons e' recs)
    then show ?case
      using up [of "max q (pn_sequence (snd e'))" recs] by (cases e') (auto simp: top_sequence_def)
  qed simp
qed

lemma top_sequence_le: "q \<le> b \<Longrightarrow> \<forall>(i, p) \<in> set recs. pn_sequence p \<le> b \<Longrightarrow> top_sequence q recs \<le> b"
  by (induction recs arbitrary: q) (auto simp: top_sequence_def)

text \<open>The entries of a compacted journal replay to the map they came from.\<close>

lemma sorted_entries_set: "set (sorted_entries m) = set m" "length (sorted_entries m) = length m"
  by (simp_all add: sorted_entries_def)

lemma sorted_entries_order:
  assumes "\<forall>(i, p) \<in> set m. a < pn_sequence p"
  shows "in_order a (sorted_entries m)"
proof -
  have "sorted (map (\<lambda>(i, p). (pn_sequence p, i)) (sorted_entries m))"
    unfolding sorted_entries_def by (rule sorted_sort_key)
  moreover have "fst x \<le> fst y" if "x \<le> y" for x y :: "nat \<times> nat"
    using that by (cases x; cases y) (auto simp: less_eq_prod_simp)
  ultimately have "sorted (map fst (map (\<lambda>(i, p). (pn_sequence p, i)) (sorted_entries m)))"
    unfolding sorted_iff_nth_mono by simp
  moreover have "map fst (map (\<lambda>(i, p). (pn_sequence p, i)) xs) = map (\<lambda>(i, p). pn_sequence p) xs" for xs :: "(nat \<times> pending) list"
    by auto
  ultimately have "sorted (map (\<lambda>(i, p). pn_sequence p) (sorted_entries m))" by (simp only:)
  moreover have "a \<le> x" if "x \<in> set (map (\<lambda>(i, p). pn_sequence p) (sorted_entries m))" for x
    using that assms by (fastforce simp: sorted_entries_set)
  ultimately show ?thesis by (simp add: in_order_def)
qed

lemma bt_get_extend_distinct:
  "distinct (map fst es) \<Longrightarrow> bt_ok m \<Longrightarrow> bt_get (bt_extend m es) i = (case map_of es i of Some v \<Rightarrow> Some v | None \<Rightarrow> bt_get m i)"
proof (induction es arbitrary: m)
  case (Cons e es)
  obtain k v where e: "e = (k, v)" by force
  have "map_of es k = None" using Cons.prems(1) by (simp add: e map_of_eq_None_iff)
  then show ?case using Cons.IH [of "bt_insert k v m"] Cons.prems by (auto simp: e bt_extend_def bt_get_insert split: option.split)
qed (simp add: bt_extend_def)

lemma sorted_entries_replay:
  assumes "bt_ok m" "\<forall>(i, p) \<in> set m. a < pn_sequence p"
  shows "replayed a (sorted_entries m) [] = m"
proof -
  have ms: "mset (sorted_entries m) = mset m" by (simp add: sorted_entries_def)
  have d: "distinct (map fst (sorted_entries m))"
    using bt_ok_distinct [OF assms(1)] ms by (metis mset_eq_imp_distinct_iff mset_map)
  have "replayed a (sorted_entries m) [] = bt_extend [] (sorted_entries m)"
    by (rule replayed_above) (use assms(2) in \<open>simp add: sorted_entries_set\<close>)
  moreover have "bt_extend [] (sorted_entries m) = m"
  proof (rule bt_extensional)
    show "bt_ok (bt_extend [] (sorted_entries m))" by simp
    show "bt_get (bt_extend [] (sorted_entries m)) = bt_get m"
      using bt_get_extend_distinct [OF d, of "[]"] map_of_eqI [OF _ _] d bt_ok_distinct [OF assms(1)] sorted_entries_set(1) [of m]
      by (auto simp: fun_eq_iff split: option.split) (metis map_of_eq_None_iff map_of_is_SomeI map_of_SomeD option.distinct(1))+
  qed (rule assms(1))
  ultimately show ?thesis by simp
qed

section \<open>Compaction of the journal\<close>

text \<open>The directory as a tuple: its files, the two values of the entry \<open>journal\<close>, and \<open>journal.new\<close>.\<close>

lemma file_sync_tuple:
  "becomes c t (F, J, S, N) \<Longrightarrow> post (file_sync a) (\<lambda>_ u. becomes c u (F[a := (F ! a)\<lparr>jf_synced := jf_data (F ! a)\<rparr>], J, S, N)) (\<lambda>_ _. \<not> c) t"
  using file_sync_post [OF becomes_fine, of c t "(F, J, S, N)" a] by (auto simp: becomes_def disk_of_def set_file_def)

lemma append_all_tuple:
  "becomes c t (F, J, S, N) \<Longrightarrow> a < length F \<Longrightarrow>
   post (append_all a bss) (\<lambda>_ u. becomes c u (F[a := (F ! a)\<lparr>jf_data := jf_data (F ! a) @ concat bss\<rparr>], J, S, N)) (\<lambda>_ _. \<not> c) t"
  using append_all_post [of a t c bss] by (auto simp: becomes_def disk_of_def set_file_def)

lemma write_header_tuple:
  "header_parts hc h = Ok bss \<Longrightarrow> becomes c t (F, J, S, N) \<Longrightarrow> a < length F \<Longrightarrow>
   post (write_header hc a h) (\<lambda>_ u. becomes c u (F[a := (F ! a)\<lparr>jf_data := jf_data (F ! a) @ header_bytes hc h\<rparr>], J, S, N)) (\<lambda>_ _. \<not> c) t"
  using append_all_tuple [of c t F J S N a bss] by (simp add: write_header_def post_bind post_lift header_bytes_def)

lemma write_records_tuple:
  "becomes c t (F, J, S, N) \<Longrightarrow> a < length F \<Longrightarrow>
   post (write_records dg a es) (\<lambda>_ u. becomes c u (F[a := (F ! a)\<lparr>jf_data := jf_data (F ! a) @ log_records dg es\<rparr>], J, S, N)) (\<lambda>_ _. \<not> c) t"
  unfolding write_records_append log_records_def by (rule append_all_tuple)

lemma remove_new_tuple:
  assumes t: "becomes c t (F, J, S, N)"
  shows "post (\<lambda>fs. if fs_new fs \<noteq> None then io_bind fs_call (\<lambda>_ fs'. (Ok (), fs'\<lparr>fs_new := None\<rparr>)) fs else (Ok (), fs))
     (\<lambda>_ u. becomes c u (F, J, S, None)) (\<lambda>_ _. \<not> c) t"
proof -
  have "post (io_bind fs_call (\<lambda>_ fs'. (Ok (), fs'\<lparr>fs_new := None\<rparr>))) (\<lambda>_ u. becomes c u (F, J, S, None)) (\<lambda>_ _. \<not> c) t"
    by (rule fs_call_bind [OF _ t]) (simp_all add: post_def becomes_def disk_of_def)
  then show ?thesis using t by (auto simp: post_def becomes_def disk_of_def)
qed

lemma create_tuple:
  "becomes c t (F, J, S, N) \<Longrightarrow>
   post (io_bind fs_call (\<lambda>_ fs. (Ok (length (fs_files fs)),
       fs\<lparr>fs_files := fs_files fs @ [\<lparr>jf_data = [], jf_synced = []\<rparr>], fs_new := Some (length (fs_files fs))\<rparr>)))
     (\<lambda>x u. x = length F \<and> becomes c u (F @ [\<lparr>jf_data = [], jf_synced = []\<rparr>], J, S, Some (length F))) (\<lambda>_ _. \<not> c) t"
  by (rule fs_call_bind) (auto simp: post_def becomes_def disk_of_def)

lemma rename_tuple:
  "becomes c t (F, J, S, N) \<Longrightarrow>
   post (io_bind fs_call (\<lambda>_ fs. (Ok (), fs\<lparr>fs_journal := fs_new fs, fs_new := None\<rparr>))) (\<lambda>_ u. becomes c u (F, N, S, None)) (\<lambda>_ _. \<not> c) t"
  by (rule fs_call_bind) (auto simp: post_def becomes_def disk_of_def)

lemma sync_directory_tuple:
  "becomes c t (F, J, S, N) \<Longrightarrow>
   post (io_bind fs_call (\<lambda>_ fs. (Ok (), fs\<lparr>fs_journal_synced := fs_journal fs\<rparr>))) (\<lambda>_ u. becomes c u (F, J, J, N)) (\<lambda>_ _. \<not> c) t"
  by (rule fs_call_bind) (auto simp: post_def becomes_def disk_of_def)

lemma silent_tuple:
  "becomes c t d \<Longrightarrow> post secure (\<lambda>_ u. becomes c u d) (\<lambda>_ _. \<not> c) t" "becomes c t d \<Longrightarrow> post fs_call (\<lambda>_ u. becomes c u d) (\<lambda>_ _. \<not> c) t"
  "becomes c t d \<Longrightarrow> post take_lock (\<lambda>_ u. becomes c u d) (\<lambda>_ _. \<not> c) t"
  using secure_post [OF becomes_fine, of c t d] fs_call_post [OF becomes_fine, of c t d] take_lock_post [OF becomes_fine, of c t d] by (auto dest: becomesD)

definition renewed :: "local_state \<Rightarrow> nat \<Rightarrow> local_state" where
  "renewed st out = st\<lparr>lo_header := (lo_header st)\<lparr>lh_sequence := lo_sequence st\<rparr>, lo_file := out, lo_local_sequence := lo_sequence st\<rparr>"

lemma on_files_bind:
  assumes "post m P (\<lambda>_ _. \<not> c) fs" "\<And>x u. P x u \<Longrightarrow> post (f x) Q (\<lambda>_ _. \<not> c) (st, u, s)"
  shows "post (io_bind (lift_world (on_files m)) f) Q (\<lambda>_ _. \<not> c) (st, fs, s)"
  unfolding post_bind post_lift_world post_on_files snd_conv fst_conv by (rule post_mono [OF assms(1)]) (use assms(2) in auto)

lemma self_bind:
  "post (f st) Q F (st, w) \<Longrightarrow> post (io_bind get_self f) Q F (st, w)"
  "post (g ()) Q F (st', w) \<Longrightarrow> post (io_bind (set_self st') g) Q F (st, w)"
  by (simp_all add: post_bind post_get_self post_set_self)

text \<open>The file that compaction writes, and that nothing else of the directory has changed when it is in place.\<close>

lemma compact_inner_tuple:
  assumes t: "becomes c t (F, J, S, N)" and parts: "header_parts hc ((lo_header st)\<lparr>lh_sequence := lo_sequence st\<rparr>) = Ok bss"
  defines "body \<equiv> log_bytes hc ((lo_header st)\<lparr>lh_sequence := lo_sequence st\<rparr>) (sorted_entries (lo_pending st))"
  shows "post (compact_inner hc) (\<lambda>_ (st', u, s'). s' = s \<and> st' = renewed st (length F)
      \<and> becomes c u (F @ [\<lparr>jf_data = body, jf_synced = body\<rparr>], Some (length F), Some (length F), None)) (\<lambda>_ _. \<not> c) (st, t, s)"
proof -
  let ?h = "(lo_header st)\<lparr>lh_sequence := lo_sequence st\<rparr>" and ?n = "length F"
  have hb: "header_parts hc (lo_header (st\<lparr>lo_header := ?h\<rparr>)) = Ok bss" using parts by simp
  show ?thesis
    unfolding compact_inner_def
    apply (rule on_files_bind [OF silent_tuple(1) [OF t]])
    apply (rule on_files_bind [OF remove_new_tuple], assumption)
    apply (rule on_files_bind [OF create_tuple], assumption)
    apply (elim conjE, simp only:)
    apply (rule self_bind)+
    apply (rule on_files_bind [OF write_header_tuple [OF hb]], assumption, simp)
    apply (rule on_files_bind [OF write_records_tuple], assumption, simp)
    apply (rule on_files_bind [OF file_sync_tuple], assumption)
    apply (rule on_files_bind [OF rename_tuple], assumption)
    apply (rule on_files_bind [OF silent_tuple(2)], assumption)
    apply (rule on_files_bind [OF sync_directory_tuple], assumption)
    apply (simp add: post_set_self renewed_def body_def log_bytes_def)
    done
qed

lemma state_okD:
  assumes "state_ok hc st"
  shows "header_fits hc (lo_header st)" "bt_ok (lo_pending st)"
    "\<And>i p. (i, p) \<in> set (lo_pending st) \<Longrightarrow> record_ok (x_size (lo_reader st) div CHUNK_BYTES) (i, p) \<and> acknowledged st < pn_sequence p \<and> pn_sequence p \<le> lo_sequence st"
    "length (lo_pending st) * CHUNK_BYTES \<le> DIRTY_LIMIT" "acknowledged st \<le> lo_sequence st" "lo_sequence st < U64"
    "lh_volume (lo_header st) = rt_volume (x_root (lo_reader st))" "hex_id (lh_id (lo_header st))" "lh_base (lo_header st) = x_revision (lo_reader st)"
    "\<And>r. rt_replication (x_root (lo_reader st)) = Some r \<Longrightarrow> rp_id r = lh_id (lo_header st) \<Longrightarrow> rp_sequence r \<le> acknowledged st"
    "x_inv (lo_reader st)" "x_dirty (lo_reader st) = []" "\<not> x_poisoned (lo_reader st)"
  using assms unfolding state_ok_def by (auto split: prod.splits)

lemma header_fits_part:
  assumes "header_fits hc h" "lh_acknowledged h < U64" "q < U64"
  shows "\<exists>bss. header_parts hc (h\<lparr>lh_sequence := q\<rparr>) = Ok bss"
proof -
  have "h\<lparr>lh_acknowledged := lh_acknowledged h, lh_sequence := q\<rparr> = h\<lparr>lh_sequence := q\<rparr>" by simp
  then show ?thesis using assms unfolding header_fits_def by metis
qed

lemma log_length:
  assumes hc: "codec_ok (\<lambda>_. True) hc" and parts: "header_parts hc h = Ok bss" and recs: "\<forall>e \<in> set recs. record_ok blocks e"
  shows "length (log_bytes hc h recs) \<le> 4172 + length recs * RECORD"
proof -
  have "valid_hash (c_digest hc b)" for b using hc by (simp add: codec_ok_def)
  then show ?thesis
    using length_header [OF hc parts] length_log_records [of "c_digest hc" recs blocks] recs by (simp add: log_bytes_def)
qed

lemma renewed_ok: "state_ok hc st \<Longrightarrow> state_ok hc (renewed st out)"
  by (simp add: state_ok_def renewed_def acknowledged_def header_fits_def)

lemma renewed_journaled:
  assumes hc: "codec_ok (\<lambda>_. True) hc" and st: "state_ok hc st"
    and u: "becomes c u (F @ [\<lparr>jf_data = body, jf_synced = body\<rparr>], Some (length F), Some (length F), N)"
    and body: "body = log_bytes hc ((lo_header st)\<lparr>lh_sequence := lo_sequence st\<rparr>) (sorted_entries (lo_pending st))"
  shows "journaled hc (renewed st (length F)) u ((lo_header st)\<lparr>lh_sequence := lo_sequence st\<rparr>) (sorted_entries (lo_pending st)) (length (lo_pending st))"
proof -
  let ?h = "(lo_header st)\<lparr>lh_sequence := lo_sequence st\<rparr>" and ?r = "sorted_entries (lo_pending st)"
  note d = state_okD [OF st]
  have files: "fs_files u = F @ [\<lparr>jf_data = body, jf_synced = body\<rparr>]" "fs_journal u = Some (length F)" "fs_journal_synced u = Some (length F)"
    using u by (simp_all add: becomes_def disk_of_def)
  obtain bss where parts: "header_parts hc ?h = Ok bss"
    using header_fits_part [OF d(1), of "lo_sequence st"] d(5,6) by (auto simp: acknowledged_def)
  have recs: "\<forall>e \<in> set ?r. record_ok (x_size (lo_reader st) div CHUNK_BYTES) e" using d(3) by (auto simp: sorted_entries_set)
  have above: "\<forall>(i, p) \<in> set (lo_pending st). acknowledged st < pn_sequence p" using d(3) by auto
  have "length ?r * RECORD \<le> 2 * DIRTY_LIMIT" using d(4) by (simp add: sorted_entries_set RECORD_def CHUNK_BYTES_def)
  then have small: "length (log_bytes hc ?h ?r) \<le> LOG_LIMIT"
    using log_length [OF hc parts recs] by (simp add: LOG_LIMIT_def DIRTY_LIMIT_def)
  have top: "top_sequence (lo_sequence st) ?r = lo_sequence st"
  proof (rule antisym)
    show "top_sequence (lo_sequence st) ?r \<le> lo_sequence st"
      by (rule top_sequence_le) (use d(3) in \<open>auto simp: sorted_entries_set\<close>)
  qed (rule sequence_below)
  have rec: "reconciled ?h (renewed st (length F))"
    using d(5) by (simp add: reconciled_def renewed_def acknowledged_def)
  show ?thesis
    unfolding journaled_def
    using renewed_ok [OF st, of "length F"] files parts small recs top rec body
      sorted_entries_order [OF above] sorted_entries_replay [OF d(2) above]
      le_trans [OF d(5) sequence_below(2) [of "lo_sequence st" ?r]]
    by (simp add: renewed_def acknowledged_def sorted_entries_set)
qed

lemma log_compact_post:
  assumes hc: "codec_ok (\<lambda>_. True) hc" and st: "state_ok hc st" and fs: "fine c fs"
  shows "post (log_compact hc)
    (\<lambda>_ (st', u, s'). s' = s \<and> fine c u \<and> st' = renewed st (length (fs_files fs))
       \<and> journaled hc st' u (lo_header st') (sorted_entries (lo_pending st)) (length (lo_pending st)))
    (\<lambda>_ _. \<not> c) (st, fs, s)"
proof -
  note d = state_okD [OF st]
  obtain bss where parts: "header_parts hc ((lo_header st)\<lparr>lh_sequence := lo_sequence st\<rparr>) = Ok bss"
    using header_fits_part [OF d(1), of "lo_sequence st"] d(5,6) by (auto simp: acknowledged_def)
  have t: "becomes c fs (fs_files fs, fs_journal fs, fs_journal_synced fs, fs_new fs)" using fs by (simp add: becomes_def disk_of_def)
  show ?thesis
    unfolding log_compact_def post_set_failed
    using renewed_journaled [OF hc st] becomes_fine
    by (auto simp: renewed_def intro!: post_mono [OF compact_inner_tuple [OF t parts]])
qed

end
