(* ===== verification/Journal_Ops.thy ===== *)
theory Journal_Ops
  imports Journal_Recovery
begin

text \<open>
  The operations of the local-durable disk over the invariant of its journal: the disk
  that a state stands for, what reads return, what a write and a flush do to the disk and
  to the file, what a crash leaves behind and what opening the directory again makes of it.
\<close>

section \<open>The disk\<close>

definition lblock :: "objs_view \<Rightarrow> base_view \<Rightarrow> local_state \<Rightarrow> nat \<Rightarrow> bytes" where
  "lblock X B st i = (case bt_get (lo_pending st) i of Some p \<Rightarrow> pn_bytes p | None \<Rightarrow> xblock X B (lo_reader st) i)"

definition ldisk :: "objs_view \<Rightarrow> base_view \<Rightarrow> local_state \<Rightarrow> bytes" where
  "ldisk X B st = dextent (lblock X B st) 0 (local_size st)"

lemma ldisk_cong: "lo_pending a = lo_pending b \<Longrightarrow> lo_reader a = lo_reader b \<Longrightarrow> ldisk X B a = ldisk X B b"
  by (simp add: ldisk_def lblock_def [abs_def] local_size_def cong: option.case_cong)

definition staged_records :: "nat \<Rightarrow> (nat, bytes) btree \<Rightarrow> (nat \<times> pending) list" where
  "staged_records q blocks = map (\<lambda>(i, b). (i, \<lparr>pn_sequence = q, pn_bytes = b\<rparr>)) blocks"

lemma staged_get: "bt_get (staged_records q blocks) i = map_option (\<lambda>b. \<lparr>pn_sequence = q, pn_bytes = b\<rparr>) (bt_get blocks i)"
  by (induction blocks) (auto simp: staged_records_def)

lemma staged_ok: "bt_ok blocks \<Longrightarrow> bt_ok (staged_records q blocks)"
  by (simp add: bt_ok_def staged_records_def comp_def case_prod_unfold)

lemma staged_set: "(i, p) \<in> set (staged_records q blocks) \<longleftrightarrow> pn_sequence p = q \<and> (i, pn_bytes p) \<in> set blocks"
  by (cases p) (force simp: staged_records_def)

lemma length_staged [simp]: "length (staged_records q blocks) = length blocks"
  by (simp add: staged_records_def)

section \<open>Appending records\<close>

lemma x_size_bound: "x_inv vol \<Longrightarrow> i < x_size vol div CHUNK_BYTES \<Longrightarrow> i < 256 ^ 8"
proof -
  assume inv: "x_inv vol" and i: "i < x_size vol div CHUNK_BYTES"
  have "x_size vol \<le> MAX_SIZE" using inv by (simp add: x_inv_def root_valid_def x_size_def)
  then have "i < MAX_SIZE" using i div_le_dividend [of "x_size vol" CHUNK_BYTES] by linarith
  then show ?thesis by (simp add: MAX_SIZE_def)
qed

lemma sequence_size: "U64 = 256 ^ 8"
  by (simp add: U64_def)

lemma in_order_append:
  assumes "in_order a recs" "\<forall>(i, p) \<in> set recs. pn_sequence p \<le> q" "a \<le> q"
  shows "in_order a (recs @ staged_records q blocks)"
proof -
  have "map (\<lambda>(i, p). pn_sequence p) (staged_records q blocks) = replicate (length blocks) q"
    by (induction blocks) (auto simp: staged_records_def)
  then show ?thesis using assms by (fastforce simp: in_order_def sorted_append)
qed

lemma top_sequence_append:
  assumes "0 < length blocks" "top_sequence a recs \<le> q"
  shows "top_sequence a (recs @ staged_records q blocks) = q"
proof -
  have "top_sequence b (staged_records q blocks) = q" if "b \<le> q" "0 < length blocks" for b
    using that
  proof (induction blocks arbitrary: b)
    case (Cons e blocks)
    then show ?case by (cases e; cases blocks) (auto simp: top_sequence_def staged_records_def)
  qed simp
  then show ?thesis using assms by (simp add: top_sequence_def)
qed

lemma log_bytes_append: "log_bytes hc h (recs @ recs') = log_bytes hc h recs @ log_records (c_digest hc) recs'"
  by (simp add: log_bytes_def log_records_def)

text \<open>A write in memory: the pending blocks and the sequence.\<close>

definition wrote :: "local_state \<Rightarrow> (nat, bytes) btree \<Rightarrow> local_state" where
  "wrote st blocks = st\<lparr>lo_sequence := Suc (lo_sequence st),
     lo_pending := bt_extend (lo_pending st) (staged_records (Suc (lo_sequence st)) blocks)\<rparr>"

definition blocks_ok :: "local_state \<Rightarrow> (nat, bytes) btree \<Rightarrow> bool" where
  "blocks_ok st blocks \<longleftrightarrow> bt_ok blocks \<and> blocks \<noteq> [] \<and> (\<forall>(i, b) \<in> set blocks. i < x_size (lo_reader st) div CHUNK_BYTES \<and> length b = CHUNK_BYTES)"

lemma wrote_state_ok:
  assumes st: "state_ok hc st" and b: "blocks_ok st blocks" and q: "Suc (lo_sequence st) < U64"
    and room: "length (lo_pending (wrote st blocks)) * CHUNK_BYTES \<le> DIRTY_LIMIT"
  shows "state_ok hc (wrote st blocks)"
proof -
  note d = state_okD [OF st]
  have okb: "bt_ok blocks" using b by (simp add: blocks_ok_def)
  let ?s = "staged_records (Suc (lo_sequence st)) blocks"
  have "record_ok (x_size (lo_reader st) div CHUNK_BYTES) (i, p) \<and> acknowledged st < pn_sequence p \<and> pn_sequence p \<le> Suc (lo_sequence st)"
    if "(i, p) \<in> set (bt_extend (lo_pending st) ?s)" for i p
  proof -
    have "bt_get (bt_extend (lo_pending st) ?s) i = Some p" using that d(2) by (simp add: bt_entries)
    then have "bt_get (lo_pending st) i = Some p \<or> bt_get ?s i = Some p"
      using d(2) staged_ok [OF okb] by (auto simp: bt_get_extend split: option.splits)
    then show ?thesis
    proof
      assume "bt_get (lo_pending st) i = Some p"
      then have "(i, p) \<in> set (lo_pending st)" using d(2) by (simp add: bt_entries)
      then show ?thesis using d(3) by fastforce
    next
      assume "bt_get ?s i = Some p"
      then have "(i, p) \<in> set ?s" using staged_ok [OF okb] by (simp add: bt_entries)
      then have "pn_sequence p = Suc (lo_sequence st)" "(i, pn_bytes p) \<in> set blocks" by (simp_all add: staged_set)
      then show ?thesis using b d(5) q x_size_bound [OF d(11), of i] by (auto simp: record_ok_def blocks_ok_def sequence_size)
    qed
  qed
  then show ?thesis
    using d room q by (auto simp: state_ok_def wrote_def acknowledged_def)
qed

lemma wrote_journaled:
  assumes j: "journaled hc st fs h recs m" and b: "blocks_ok st blocks" and q: "Suc (lo_sequence st) < U64"
    and room: "length (lo_pending (wrote st blocks)) * CHUNK_BYTES \<le> DIRTY_LIMIT"
    and limit: "length (log_bytes hc h (recs @ staged_records (Suc (lo_sequence st)) blocks)) \<le> LOG_LIMIT"
    and u: "becomes c u (set_file (lo_file st) ((fs_files fs ! lo_file st)\<lparr>jf_data := jf_data (fs_files fs ! lo_file st)
        @ log_records (c_digest hc) (staged_records (Suc (lo_sequence st)) blocks)\<rparr>) (disk_of fs))"
  shows "journaled hc (wrote st blocks) u h (recs @ staged_records (Suc (lo_sequence st)) blocks) m"
proof -
  note d = journaledD [OF j]
  note s = state_okD [OF d(1)]
  let ?s = "staged_records (Suc (lo_sequence st)) blocks"
  have files: "fs_files u = (fs_files fs)[lo_file st := (fs_files fs ! lo_file st)\<lparr>jf_data := jf_data (fs_files fs ! lo_file st) @ log_records (c_digest hc) ?s\<rparr>]"
      "fs_journal u = fs_journal fs" "fs_journal_synced u = fs_journal_synced fs"
    using u by (simp_all add: becomes_def disk_of_def set_file_def)
  have "(i, p) \<in> set ?s \<Longrightarrow> record_ok (x_size (lo_reader st) div CHUNK_BYTES) (i, p)" for i p
    using b q x_size_bound [OF s(11), of i] by (auto simp: staged_set record_ok_def blocks_ok_def sequence_size)
  then have recs: "\<forall>e \<in> set (recs @ ?s). record_ok (x_size (lo_reader st) div CHUNK_BYTES) e" using d(10) by auto
  have below: "\<forall>(i, p) \<in> set recs. pn_sequence p \<le> Suc (lo_sequence st)"
    using sequence_below(1) [of _ recs "lh_sequence h"] d(13) by fastforce
  have ack: "lh_acknowledged h \<le> Suc (lo_sequence st)"
    using d(14) s(5) by (auto simp: reconciled_def)
  have rep: "replayed (acknowledged st) (recs @ ?s) [] = bt_extend (lo_pending st) ?s"
    unfolding replayed_append d(12) [symmetric] by (rule replayed_above) (use s(5) in \<open>auto simp: staged_set\<close>)
  have top: "top_sequence (lh_sequence h) (recs @ ?s) = Suc (lo_sequence st)"
    by (rule top_sequence_append) (use b d(13) in \<open>auto simp: blocks_ok_def\<close>)
  have rec: "reconciled h (wrote st blocks)" using d(14) by (auto simp: reconciled_def wrote_def acknowledged_def)
  show ?thesis
    unfolding journaled_def
    using wrote_state_ok [OF d(1) b q room] files d(2-9) limit recs in_order_append [OF d(11) below ack] rep top rec [unfolded wrote_def] d(15)
    by (simp add: wrote_def acknowledged_def log_bytes_append del: append_assoc)
qed

section \<open>The blocks of a write\<close>

lemma wr_inv_domain:
  assumes "wr_inv blk at input (length input) blocks" "input \<noteq> []"
  shows "dom (bt_get blocks) = {at div CHUNK_BYTES..(at + length input - 1) div CHUNK_BYTES}"
proof -
  have get: "i \<in> dom (bt_get blocks) \<longleftrightarrow> (\<exists>p. at \<le> p \<and> p < at + length input \<and> p div CHUNK_BYTES = i)" for i
    using assms(1) by (auto simp: wr_inv_def dom_def)
  show ?thesis
  proof (intro set_eqI iffI)
    fix i
    assume "i \<in> dom (bt_get blocks)"
    then obtain p where "at \<le> p" "p \<le> at + length input - 1" "p div CHUNK_BYTES = i" unfolding get by force
    then show "i \<in> {at div CHUNK_BYTES..(at + length input - 1) div CHUNK_BYTES}" by (auto intro: div_le_mono)
  next
    fix i
    assume i: "i \<in> {at div CHUNK_BYTES..(at + length input - 1) div CHUNK_BYTES}"
    have "i * CHUNK_BYTES \<le> at + length input - 1" using i by (auto simp: less_eq_div_iff_mult_less_eq [symmetric])
    then have below: "i * CHUNK_BYTES < at + length input" using assms(2) by (cases input) auto
    show "i \<in> dom (bt_get blocks)"
      unfolding get
    proof (cases "at \<le> i * CHUNK_BYTES")
      case True
      then show "\<exists>p. at \<le> p \<and> p < at + length input \<and> p div CHUNK_BYTES = i" using below by (intro exI [of _ "i * CHUNK_BYTES"]) simp
    next
      case False
      then have "i \<le> at div CHUNK_BYTES" by (simp add: less_eq_div_iff_mult_less_eq)
      then have "at div CHUNK_BYTES = i" using i by simp
      then show "\<exists>p. at \<le> p \<and> p < at + length input \<and> p div CHUNK_BYTES = i" using assms(2) by (intro exI [of _ at]) simp
    qed
  qed
qed

lemma wr_inv_blocks:
  assumes w: "wr_inv blk at input (length input) blocks" and ne: "input \<noteq> []" and inv: "x_inv (lo_reader st)"
    and fit: "at + length input \<le> x_size (lo_reader st)"
  shows "blocks_ok st blocks"
proof -
  note dm = wr_inv_domain [OF w ne]
  have ok: "bt_ok blocks" using w by (simp add: wr_inv_def)
  have "x_size (lo_reader st) mod CHUNK_BYTES = 0" using inv by (simp add: x_inv_def root_valid_def x_size_def)
  moreover have "at + length input - 1 < x_size (lo_reader st)" using fit ne by (cases input) auto
  ultimately have last: "(at + length input - 1) div CHUNK_BYTES < x_size (lo_reader st) div CHUNK_BYTES"
    by (intro div_less_iff_less_mult [THEN iffD2]) (auto simp: minus_mod_eq_div_mult [symmetric])
  have "i < x_size (lo_reader st) div CHUNK_BYTES \<and> length b = CHUNK_BYTES" if "(i, b) \<in> set blocks" for i b
  proof -
    have "bt_get blocks i = Some b" using that ok by (simp add: bt_entries)
    then have "i \<in> dom (bt_get blocks)" "length b = CHUNK_BYTES" using w by (auto simp: wr_inv_def)
    then show ?thesis using last dm by simp
  qed
  moreover have "at div CHUNK_BYTES \<in> dom (bt_get blocks)" unfolding dm using ne by (cases input) (auto intro: div_le_mono)
  then have "blocks \<noteq> []" by auto
  ultimately show ?thesis using ok by (auto simp: blocks_ok_def)
qed

lemma wrote_room:
  assumes w: "wr_inv blk at input (length input) blocks" and ne: "input \<noteq> []" and pend: "bt_ok (lo_pending st)"
  shows "length (lo_pending (wrote st blocks)) = length (lo_pending st)
    + length (filter (\<lambda>i. bt_get (lo_pending st) i = None) [at div CHUNK_BYTES..<(at + length input - 1) div CHUNK_BYTES + 1])"
proof -
  let ?s = "staged_records (Suc (lo_sequence st)) blocks" and ?R = "{at div CHUNK_BYTES..(at + length input - 1) div CHUNK_BYTES}"
  have ok: "bt_ok blocks" using w by (simp add: wr_inv_def)
  have "dom (bt_get ?s) = dom (bt_get blocks)" by (auto simp: staged_get)
  then have dm: "dom (bt_get (bt_extend (lo_pending st) ?s)) = dom (bt_get (lo_pending st)) \<union> ?R"
    using wr_inv_domain [OF w ne] by (auto simp: bt_get_extend_add [OF pend staged_ok [OF ok]])
  have "length (bt_extend (lo_pending st) ?s) = card (dom (bt_get (lo_pending st)) \<union> ?R)"
    unfolding dm [symmetric] by (rule bt.card_dom [symmetric]) (simp add: pend)
  also have "\<dots> = card (dom (bt_get (lo_pending st))) + card (?R - dom (bt_get (lo_pending st)))"
    using bt.finite_dom [OF pend] by (subst card_Un_disjoint [symmetric]) (auto intro: arg_cong [where f = card])
  also have "card (dom (bt_get (lo_pending st))) = length (lo_pending st)" by (rule bt.card_dom [OF pend])
  also have "card (?R - dom (bt_get (lo_pending st)))
      = length (filter (\<lambda>i. bt_get (lo_pending st) i = None) [at div CHUNK_BYTES..<(at + length input - 1) div CHUNK_BYTES + 1])"
    by (subst distinct_card [symmetric]) (auto intro!: arg_cong [where f = card])
  finally show ?thesis by (simp add: wrote_def)
qed

lemma wrote_disk:
  assumes w: "wr_inv (lblock X B st) at input (length input) blocks" and pend: "bt_ok (lo_pending st)"
    and fit: "at + length input \<le> local_size st"
  shows "ldisk X B (wrote st blocks) = copy_at (ldisk X B st) at input"
proof -
  let ?s = "staged_records (Suc (lo_sequence st)) blocks"
  have ok: "bt_ok blocks" using w by (simp add: wr_inv_def)
  have "lblock X B (wrote st blocks) i = (case bt_get blocks i of None \<Rightarrow> lblock X B st i | Some b \<Rightarrow> b)" for i
    using pend staged_ok [OF ok, of "Suc (lo_sequence st)"]
    by (auto simp: lblock_def wrote_def bt_get_extend staged_get split: option.splits)
  from wr_inv_disk [OF w this] show ?thesis
    unfolding ldisk_def using fit by (subst dextent_write) (auto simp: local_size_def wrote_def)
qed

section \<open>Crashes\<close>

text \<open>
  A crash keeps of every file what was synced and some prefix of what was appended since,
  and of the directory the entries as they are or as they were synced. The process that
  runs afterwards meets faults of its own.
\<close>

definition crash_file :: "jfile \<Rightarrow> jfile \<Rightarrow> bool" where
  "crash_file f f' \<longleftrightarrow> jf_synced f' = jf_data f' \<and> (\<exists>n. jf_data f' = jf_synced f @ take n (drop (length (jf_synced f)) (jf_data f)))"

definition crash :: "jfs \<Rightarrow> jfs \<Rightarrow> bool" where
  "crash fs fs' \<longleftrightarrow> list_all2 crash_file (fs_files fs) (fs_files fs') \<and> fs_journal fs' \<in> {fs_journal fs, fs_journal_synced fs}
     \<and> fs_journal_synced fs' = fs_journal fs' \<and> fs_new fs' \<in> {fs_new fs, None}"

lemma take_log_records:
  assumes "\<And>b. valid_hash (dg b)" "\<forall>e \<in> set recs. record_ok blocks e"
  shows "\<exists>j \<le> length recs. \<exists>tail. take n (log_records dg recs) = log_records dg (take j recs) @ tail \<and> length tail < RECORD"
  using assms(2)
proof (induction recs arbitrary: n)
  case Nil
  then show ?case by (simp add: log_records_def RECORD_def)
next
  case (Cons e recs)
  let ?r = "record_bytes dg (fst e) (snd e)"
  have len: "length ?r = RECORD" using Cons.prems by (intro length_record [OF assms(1)]) (auto simp: record_ok_def)
  have all: "log_records dg (e # xs) = ?r @ log_records dg xs" for xs by (simp add: log_records_def case_prod_unfold)
  show ?case
  proof (cases "n < RECORD")
    case True
    then show ?thesis by (intro exI [of _ 0] conjI exI [of _ "take n (log_records dg (e # recs))"]) (auto simp: log_records_def)
  next
    case False
    obtain j tail where "j \<le> length recs" "take (n - RECORD) (log_records dg recs) = log_records dg (take j recs) @ tail" "length tail < RECORD"
      using Cons.IH [of "n - RECORD"] Cons.prems by auto
    then have "Suc j \<le> length (e # recs)" "take n (log_records dg (e # recs)) = log_records dg (take (Suc j) (e # recs)) @ tail" "length tail < RECORD"
      using False len by (simp_all add: all)
    then show ?thesis by blast
  qed
qed

lemma crash_log:
  assumes hc: "codec_ok (\<lambda>_. True) hc" and j: "journaled hc st fs h recs m" and crash: "crash fs fs'"
  shows "lo_file st < length (fs_files fs') \<and> fs_journal fs' = Some (lo_file st) \<and> (\<exists>k tail. m \<le> k \<and> k \<le> length recs \<and> length tail < RECORD
      \<and> jf_data (fs_files fs' ! lo_file st) = log_bytes hc h (take k recs) @ tail \<and> length (log_bytes hc h (take k recs) @ tail) \<le> LOG_LIMIT)"
proof -
  note d = journaledD [OF j]
  let ?f = "fs_files fs ! lo_file st" and ?f' = "fs_files fs' ! lo_file st"
  have all: "list_all2 crash_file (fs_files fs) (fs_files fs')" using crash by (simp add: crash_def)
  have lf: "lo_file st < length (fs_files fs')" using d(2) list_all2_lengthD [OF all] by simp
  have cf: "crash_file ?f ?f'" using list_all2_nthD [OF all d(2)] .
  have split: "log_bytes hc h recs = log_bytes hc h (take m recs) @ log_records (c_digest hc) (drop m recs)"
    using log_bytes_append [of hc h "take m recs" "drop m recs"] by simp
  obtain n where n: "jf_data ?f' = log_bytes hc h (take m recs) @ take n (log_records (c_digest hc) (drop m recs))"
    using cf by (auto simp: crash_file_def d(6,8) split)
  have dg: "valid_hash (c_digest hc b)" for b using hc by (simp add: codec_ok_def)
  have "\<forall>e \<in> set (drop m recs). record_ok (x_size (lo_reader st) div CHUNK_BYTES) e" using d(10) by (auto dest: in_set_dropD)
  from take_log_records [of "c_digest hc", OF dg this, of n] obtain i tail where it: "i \<le> length (drop m recs)" "length tail < RECORD"
      "take n (log_records (c_digest hc) (drop m recs)) = log_records (c_digest hc) (take i (drop m recs)) @ tail"
    by blast
  have data: "jf_data ?f' = log_bytes hc h (take (m + i) recs) @ tail"
    unfolding n it(3) take_add log_bytes_append by simp
  have "length (jf_data ?f') \<le> length (log_bytes hc h recs)" unfolding n split by simp
  then have "m \<le> m + i \<and> m + i \<le> length recs \<and> length tail < RECORD \<and> jf_data ?f' = log_bytes hc h (take (m + i) recs) @ tail
      \<and> length (log_bytes hc h (take (m + i) recs) @ tail) \<le> LOG_LIMIT"
    using d(7,9) it(1,2) unfolding data by simp
  moreover have "fs_journal fs' = Some (lo_file st)" using crash d(3,4) by (auto simp: crash_def)
  ultimately show ?thesis using lf by blast
qed

section \<open>Replaying the journal\<close>

lemma take_in_order: "in_order a recs \<Longrightarrow> in_order a (take k recs)"
  by (cases k) (auto simp: in_order_def take_map [symmetric] simp del: sorted_wrt.simps dest: sorted_wrt_take [of _ _ "Suc k"])

lemma replayed_take_length: "length (replayed ack (take k recs) []) \<le> length (replayed ack recs [])"
  using replayed_append [of ack "take k recs" "drop k recs" "[]"] replayed_length [of "replayed ack (take k recs) []" ack "drop k recs"] by simp

lemma top_sequence_take: "k \<le> l \<Longrightarrow> top_sequence q (take k recs) \<le> top_sequence q (take l recs)"
proof -
  assume "k \<le> l"
  then have "take l recs = take k recs @ take (l - k) (drop k recs)" by (metis le_add_diff_inverse take_add)
  then have "top_sequence q (take l recs) = top_sequence (top_sequence q (take k recs)) (take (l - k) (drop k recs))" by (simp add: top_sequence_def)
  then show ?thesis using sequence_below(2) by simp
qed

text \<open>The sequence that replay takes as acknowledged is the one of the state, from the header or from the mark of the remote root.\<close>

definition replay_mark :: "log_header \<Rightarrow> indexed \<Rightarrow> nat" where
  "replay_mark h remote = (case rt_replication (x_root remote) of
     Some r \<Rightarrow> if rp_id r = lh_id h then max (rp_sequence r) (lh_acknowledged h) else lh_acknowledged h
   | None \<Rightarrow> lh_acknowledged h)"

lemma replay_mark_acknowledged:
  assumes "state_ok hc st" "reconciled h st"
  shows "replay_mark h (lo_reader st) = acknowledged st"
  using assms(2) state_okD(10) [OF assms(1)]
  by (auto simp: replay_mark_def reconciled_def max_def split: option.splits)

lemma replay_journal_post:
  assumes hc: "codec_ok (\<lambda>_. True) hc" and j: "journaled hc st fs h recs m" and tail: "length tail < RECORD"
    and t: "fine c t" and data: "jf_data (fs_files t ! a) = log_bytes hc h (take k recs) @ tail"
  shows "post (replay_journal hc (rt_volume (x_root (lo_reader st))) (lo_reader st) a)
    (\<lambda>x u. x = (h, top_sequence (lh_sequence h) (take k recs), replayed (acknowledged st) (take k recs) []) \<and> fine c u) (\<lambda>_ _. \<not> c) t"
proof -
  note d = journaledD [OF j]
  note k = state_okD [OF d(1)]
  let ?r = "log_records (c_digest hc) (take k recs) @ tail" and ?blocks = "x_size (lo_reader st) div CHUNK_BYTES"
  obtain bss where parts: "header_parts hc h = Ok bss" using d(5) by blast
  have dg: "valid_hash (c_digest hc b)" for b using hc by (simp add: codec_ok_def)
  have bytes: "jf_data (fs_files t ! a) = header_bytes hc h @ ?r" using data by (simp add: log_bytes_def)
  have head: "post (read_header hc (header_bytes hc h @ ?r)) (\<lambda>x u. x = (h, ?r) \<and> becomes c u (disk_of t)) (\<lambda>_ _. \<not> c) t"
    by (rule read_header_post [OF hc parts t])
  have good: "\<not> (lh_volume h \<noteq> rt_volume (x_root (lo_reader st)) \<or> \<not> hex_id (lh_id h) \<or> lh_sequence h < lh_acknowledged h)"
    using d(14) k(7,8) by (auto simp: reconciled_def)
  have ok: "\<forall>e \<in> set (take k recs). record_ok ?blocks e" using d(10) by (auto dest: in_set_takeD)
  have lim: "length (replayed (acknowledged st) (take k recs) []) * CHUNK_BYTES \<le> DIRTY_LIMIT"
    using order_trans [OF mult_le_mono1 [OF replayed_take_length [of "acknowledged st" k recs]]] k(4) d(12) by simp
  have replay: "post (replay_records (c_digest hc) ?blocks (acknowledged st) a pos ?r (lh_sequence h) (lh_acknowledged h) [])
      (\<lambda>x v. x = (top_sequence (lh_sequence h) (take k recs), replayed (acknowledged st) (take k recs) []) \<and> fine c v) (\<lambda>_ _. \<not> c) u"
    if "becomes c u (disk_of t)" for pos u
    by (rule post_mono [OF replay_records_post [OF dg tail becomes_fine [OF that] ok take_in_order [OF d(11)] lim]])
       (auto simp: trimmed_def dest: becomes_fine)
  have rest: "post (if lh_volume h \<noteq> rt_volume (x_root (lo_reader st)) \<or> \<not> hex_id (lh_id h) \<or> lh_sequence h < lh_acknowledged h then io_throw Corrupt
      else io_bind (replay_records (c_digest hc) ?blocks (replay_mark h (lo_reader st)) a pos ?r (lh_sequence h) (lh_acknowledged h) [])
        (\<lambda>(seq, pend). io_return (h, seq, pend)))
      (\<lambda>x v. x = (h, top_sequence (lh_sequence h) (take k recs), replayed (acknowledged st) (take k recs) []) \<and> fine c v) (\<lambda>_ _. \<not> c) u"
    if "becomes c u (disk_of t)" for pos u
    unfolding if_not_P [OF good] post_bind replay_mark_acknowledged [OF d(1,14)]
    by (rule post_mono [OF replay [OF that]]) (auto simp: post_return)
  show ?thesis
    unfolding replay_journal_def post_bind [of "\<lambda>fs. (Ok (jf_data (fs_files fs ! a)), fs)"] post_read bytes post_bind [of "read_header _ _"]
    by (rule post_mono [OF head]) (use rest in \<open>auto simp: Let_def replay_mark_def [symmetric]\<close>)
qed

section \<open>Storing the records of a write\<close>

text \<open>The part of the state that compaction never touches.\<close>

definition core :: "local_state \<Rightarrow> (nat, pending) btree \<times> nat \<times> indexed" where
  "core st = (lo_pending st, lo_sequence st, lo_reader st)"

lemma any_files_bind:
  assumes "\<And>x u. post (f x) Q F (st, u, s)" "\<And>e u. F e (st, u, s)"
  shows "post (io_bind (lift_world (on_files m)) f) Q F (st, fs, s)"
  unfolding post_bind post_lift_world post_on_files snd_conv fst_conv
  using assms by (simp add: post_def split: prod.split result.split)

lemma compact_inner_core:
  "post (compact_inner hc) (\<lambda>_ (st', u, s'). core st' = core st \<and> s' = s) (\<lambda>_ (st', u, s'). core st' = core st \<and> s' = s) (st, fs, s)"
  unfolding compact_inner_def
  by (intro any_files_bind self_bind) (simp_all add: post_set_self core_def)

lemma log_compact_core:
  "post (log_compact hc) (\<lambda>_ (st', u, s'). core st' = core st \<and> s' = s) (\<lambda>_ (st', u, s'). core st' = core st \<and> s' = s \<and> lo_failed st') (st, fs, s)"
  unfolding log_compact_def post_set_failed
  by (rule post_mono [OF compact_inner_core]) (auto simp: core_def)

definition store_records :: "log_header codec \<Rightarrow> (nat \<times> pending) list \<Rightarrow> ('s local_io, unit, verror) io" where
  "store_records hc staged =
     set_failed
       (io_bind get_self (\<lambda>st1.
        io_bind (lift_world (on_files (io_bind fs_call (\<lambda>_ fs. (Ok (length (jf_data (fs_files fs ! lo_file st1))), fs))))) (\<lambda>len.
        io_bind (if LOG_LIMIT < len + length staged * RECORD then log_compact hc else io_return ()) (\<lambda>_.
        io_bind get_self (\<lambda>st2.
          lift_world (on_files (write_records (c_digest hc) (lo_file st2) staged)))))))"

lemma store_records_core:
  "post (store_records hc staged) (\<lambda>_ (st', u, s'). core st' = core st \<and> s' = s)
     (\<lambda>_ (st', u, s'). core st' = core st \<and> s' = s \<and> lo_failed st') (st, fs, s)"
proof -
  let ?Q = "\<lambda>_ (st', u, s'). core st' = core st \<and> s' = s"
  let ?F = "\<lambda>_ (st', u, s'). core st' = core st \<and> s' = s"
  have put: "post (io_bind get_self (\<lambda>st2. lift_world (on_files (write_records (c_digest hc) (lo_file st2) staged)))) ?Q ?F (st', u, s)"
    if "core st' = core st" for st' u
    by (rule self_bind, unfold post_lift_world post_on_files) (use that in \<open>simp add: post_def split: prod.split result.split\<close>)
  have compact: "post (if b then log_compact hc else io_return ()) ?Q ?F (st, u, s)" for b u
    using log_compact_core [of hc st s u] by (auto simp: post_return elim!: post_mono)
  have "post (io_bind (if b then log_compact hc else io_return ()) (\<lambda>_.
      io_bind get_self (\<lambda>st2. lift_world (on_files (write_records (c_digest hc) (lo_file st2) staged))))) ?Q ?F (st, u, s)" for b u
    unfolding post_bind [of "if b then _ else _"] by (rule post_mono [OF compact]) (use put in auto)
  then show ?thesis
    unfolding store_records_def post_set_failed
    by (intro post_mono [OF self_bind(1) [OF any_files_bind]]) (auto simp: core_def)
qed

lemma wrote_renewed: "wrote (renewed st out) blocks = renewed (wrote st blocks) out\<lparr>lo_header := (lo_header st)\<lparr>lh_sequence := lo_sequence st\<rparr>, lo_local_sequence := lo_sequence st\<rparr>"
  by (simp add: wrote_def renewed_def)

lemma blocks_room:
  assumes "bt_ok (lo_pending st)" "blocks_ok st blocks"
  shows "length blocks \<le> length (lo_pending (wrote st blocks))" "length (lo_pending st) \<le> length (lo_pending (wrote st blocks))"
proof -
  let ?s = "staged_records (Suc (lo_sequence st)) blocks"
  have okb: "bt_ok ?s" using assms(2) by (simp add: blocks_ok_def staged_ok)
  let ?e = "bt_extend (lo_pending st) ?s"
  have dm: "dom (bt_get ?e) = dom (bt_get (lo_pending st)) \<union> dom (bt_get ?s)" by (simp add: bt_get_extend_add [OF assms(1) okb] Un_commute)
  have fin: "finite (dom (bt_get ?e))" using bt.finite_dom [of ?e] assms(1) by simp
  have "card (dom (bt_get ?s)) \<le> card (dom (bt_get ?e))" "card (dom (bt_get (lo_pending st))) \<le> card (dom (bt_get ?e))"
    unfolding atomize_conj using fin [unfolded dm] by (simp only: dm) (blast intro: card_mono)
  then show "length blocks \<le> length (lo_pending (wrote st blocks))" "length (lo_pending st) \<le> length (lo_pending (wrote st blocks))"
    using bt.card_dom [OF okb] bt.card_dom [of ?e] bt.card_dom [OF assms(1)] assms(1) by (simp_all add: wrote_def)
qed

text \<open>The records go to the end of the journal, or after a compaction to the end of a new one.\<close>

definition extended :: "log_header codec \<Rightarrow> local_state \<Rightarrow> log_header \<Rightarrow> (nat \<times> pending) list \<Rightarrow> nat \<Rightarrow> (nat, bytes) btree
    \<Rightarrow> log_header \<Rightarrow> (nat \<times> pending) list \<Rightarrow> nat \<Rightarrow> bool" where
  "extended hc st h recs m blocks h' recs' m' \<longleftrightarrow>
     (\<exists>old. recs' = old @ staged_records (Suc (lo_sequence st)) blocks \<and> replayed (acknowledged st) old [] = lo_pending st
       \<and> (h' = h \<and> old = recs \<and> m' = m \<or> m' = length old))"

lemma append_staged:
  assumes hc: "codec_ok (\<lambda>_. True) hc" and j: "journaled hc st fs h recs m" and b: "blocks_ok st blocks" and q: "Suc (lo_sequence st) < U64"
    and room: "length (lo_pending (wrote st blocks)) * CHUNK_BYTES \<le> DIRTY_LIMIT"
    and limit: "length (log_bytes hc h recs) + length blocks * RECORD \<le> LOG_LIMIT" and fs: "fine c fs"
  shows "post (write_records (c_digest hc) (lo_file st) (staged_records (Suc (lo_sequence st)) blocks))
    (\<lambda>_ u. fine c u \<and> journaled hc (wrote st blocks) u h (recs @ staged_records (Suc (lo_sequence st)) blocks) m) (\<lambda>_ _. \<not> c) fs"
proof -
  let ?s = "staged_records (Suc (lo_sequence st)) blocks"
  note s = state_okD [OF journaledD(1) [OF j]]
  have dg: "valid_hash (c_digest hc b)" for b using hc by (simp add: codec_ok_def)
  have "(i, p) \<in> set ?s \<Longrightarrow> record_ok (x_size (lo_reader st) div CHUNK_BYTES) (i, p)" for i p
    using b q x_size_bound [OF s(11), of i] by (auto simp: staged_set record_ok_def blocks_ok_def sequence_size)
  then have "\<forall>e \<in> set ?s. record_ok (x_size (lo_reader st) div CHUNK_BYTES) e" by auto
  then have "length (log_records (c_digest hc) ?s) = length blocks * RECORD"
    using length_log_records [OF dg, of ?s] by simp
  then have lim: "length (log_bytes hc h (recs @ ?s)) \<le> LOG_LIMIT" using limit by (simp add: log_bytes_append)
  have ext: "post (write_records (c_digest hc) (lo_file st) ?s)
      (\<lambda>_ u. becomes c u (set_file (lo_file st) ((fs_files fs ! lo_file st)\<lparr>jf_data := jf_data (fs_files fs ! lo_file st)
        @ log_records (c_digest hc) ?s\<rparr>) (disk_of fs))) (\<lambda>_ _. \<not> c) fs"
    unfolding write_records_append log_records_def by (rule append_all_post [OF journaledD(2) [OF j] fs])
  show ?thesis
    by (rule post_mono [OF ext]) (use wrote_journaled [OF j b q room lim] becomes_fine in blast)+
qed

lemma store_records_post:
  assumes hc: "codec_ok (\<lambda>_. True) hc" and j: "journaled hc st fs h recs m" and b: "blocks_ok st blocks" and q: "Suc (lo_sequence st) < U64"
    and room: "length (lo_pending (wrote st blocks)) * CHUNK_BYTES \<le> DIRTY_LIMIT" and fs: "fine c fs"
  shows "post (store_records hc (staged_records (Suc (lo_sequence st)) blocks))
    (\<lambda>_ (st', u, s'). fine c u \<and> lo_failed st' = lo_failed st
       \<and> (\<exists>h' recs' m'. journaled hc (wrote st' blocks) u h' recs' m' \<and> extended hc st h recs m blocks h' recs' m'))
    (\<lambda>_ _. \<not> c) (st, fs, s)"
proof -
  let ?s = "staged_records (Suc (lo_sequence st)) blocks"
  let ?Q = "\<lambda>_ (st', u, s'). fine c u \<and> lo_failed st' = lo_failed st
       \<and> (\<exists>h' recs' m'. journaled hc (wrote st' blocks) u h' recs' m' \<and> extended hc st h recs m blocks h' recs' m')"
  note d = journaledD [OF j]
  note k = state_okD [OF d(1)]
  have ln: "post (io_bind fs_call (\<lambda>_ fs. (Ok (length (jf_data (fs_files fs ! lo_file st))), fs)))
      (\<lambda>len u. len = length (log_bytes hc h recs) \<and> becomes c u (disk_of fs)) (\<lambda>_ _. \<not> c) fs"
    by (rule fs_call_bind [OF _ fs]) (auto simp: post_read d(6) dest!: becomesD disk_of_eqD)
  have direct: "post (io_bind get_self (\<lambda>st2. lift_world (on_files (write_records (c_digest hc) (lo_file st2) ?s)))) ?Q (\<lambda>_ _. \<not> c) (st, u, s)"
    if u: "becomes c u (disk_of fs)" and lim: "length (log_bytes hc h recs) + length blocks * RECORD \<le> LOG_LIMIT" for u
  proof -
    have ju: "journaled hc st u h recs m" using j journaled_cong [OF becomesD [OF u]] by blast
    have "extended hc st h recs m blocks h (recs @ ?s) m" using d(12) by (simp add: extended_def)
    then show ?thesis
      by (intro self_bind, unfold post_lift_world post_on_files)
        (auto intro!: post_mono [OF append_staged [OF hc ju b q room lim becomes_fine [OF u]]])
  qed
  have compacted: "post (io_bind (log_compact hc) (\<lambda>_. io_bind get_self (\<lambda>st2. lift_world (on_files (write_records (c_digest hc) (lo_file st2) ?s)))))
      ?Q (\<lambda>_ _. \<not> c) (st, u, s)" if u: "becomes c u (disk_of fs)" for u
    unfolding post_bind [of "log_compact hc"]
  proof (rule post_mono [OF log_compact_post [OF hc d(1) becomes_fine [OF u]]], clarify)
    fix v
    let ?st = "renewed st (length (fs_files u))" and ?old = "sorted_entries (lo_pending st)"
    assume v: "fine c v" and jv: "journaled hc ?st v (lo_header ?st) ?old (length (lo_pending st))"
    have seq: "lo_sequence ?st = lo_sequence st" "lo_failed ?st = lo_failed st" by (simp_all add: renewed_def)
    have bv: "blocks_ok ?st blocks" using b by (simp add: blocks_ok_def renewed_def)
    have rv: "length (lo_pending (wrote ?st blocks)) * CHUNK_BYTES \<le> DIRTY_LIMIT" using room by (simp add: wrote_def renewed_def)
    have "length ?old * RECORD \<le> 100000000" "length blocks * RECORD \<le> 100000000"
      using blocks_room [OF k(2) b] room by (simp_all add: sorted_entries_set RECORD_def CHUNK_BYTES_def DIRTY_LIMIT_def)
    moreover obtain bss where "header_parts hc (lo_header ?st) = Ok bss" using journaledD(5) [OF jv] by blast
    then have "length (log_bytes hc (lo_header ?st) ?old) \<le> 4172 + length ?old * RECORD"
      by (rule log_length [OF hc _ journaledD(10) [OF jv]])
    ultimately have lv: "length (log_bytes hc (lo_header ?st) ?old) + length blocks * RECORD \<le> LOG_LIMIT"
      by (simp add: LOG_LIMIT_def DIRTY_LIMIT_def)
    have "replayed (acknowledged st) ?old [] = lo_pending st"
      by (rule sorted_entries_replay [OF k(2)]) (use k(3) in blast)
    then have e: "extended hc st h recs m blocks (lo_header ?st) (?old @ ?s) (length (lo_pending st))"
      by (auto simp: extended_def sorted_entries_set)
    show "post (io_bind get_self (\<lambda>st2. lift_world (on_files (write_records (c_digest hc) (lo_file st2) ?s)))) ?Q (\<lambda>_ _. \<not> c) (?st, v, s)"
      by (intro self_bind, unfold post_lift_world post_on_files)
        (use e seq(2) in \<open>auto intro!: post_mono [OF append_staged [OF hc jv bv _ rv lv v, unfolded seq(1), OF q]]\<close>)
  qed
  show ?thesis
    unfolding store_records_def post_set_failed
    apply (rule post_mono)
      apply (rule self_bind)
      apply (rule on_files_bind [OF ln, of _ ?Q])
      apply (elim conjE, simp only:)
      apply (cases "LOG_LIMIT < length (log_bytes hc h recs) + length ?s * RECORD")
       apply (simp only: if_True, erule compacted)
      apply (simp only: if_False post_bind [of "io_return ()"] post_return, erule direct, simp)
     apply assumption
    apply auto
    done
qed

section \<open>Reading and writing\<close>

lemma log_check_Ok:
  "log_check st at len = Ok () \<longleftrightarrow> \<not> lo_failed st \<and> len \<le> WRITE_LIMIT \<and> at + len < U64 \<and> at + len \<le> local_size st"
  by (auto simp: log_check_def checked_add_def local_size_def)

context indexed_store
begin

lemma local_piece:
  fixes at :: nat
  assumes t: "same s t" and st: "state_ok hc st" and lt: "copied < length out"
  defines "pos \<equiv> at + copied" and "n \<equiv> loop_count (at + copied) copied (length out)"
  shows "post (case bt_get (lo_pending st) (pos div CHUNK_BYTES) of
      Some p \<Rightarrow> io_return (slice_of (pn_bytes p) (pos mod CHUNK_BYTES) (pos mod CHUNK_BYTES + n))
    | None \<Rightarrow> x_read E (lo_reader st) pos (slice_of out copied (copied + n)))
    (\<lambda>piece t'. same s t' \<and> piece = dextent (lblock (objs s) B st) pos (pos + n)) (\<lambda>_. same s) t"
proof (cases "bt_get (lo_pending st) (pos div CHUNK_BYTES)")
  case (Some p)
  have "length (pn_bytes p) = CHUNK_BYTES"
    using state_okD(2,3) [OF st] Some by (auto simp: record_ok_def simp flip: bt_entries)
  moreover have "pos mod CHUNK_BYTES + n \<le> CHUNK_BYTES" using loop_count_le [of pos copied "length out"] by (simp add: n_def pos_def)
  ultimately have "slice_of (pn_bytes p) (pos mod CHUNK_BYTES) (pos mod CHUNK_BYTES + n) = dextent (lblock (objs s) B st) pos (pos + n)"
    using same_chunk [of _ pos copied "length out"] Some
    by (intro nth_equalityI) (simp_all add: dbyte_def lblock_def n_def pos_def)
  then show ?thesis using t Some by (simp add: post_return)
next
  case None
  have len: "length (slice_of out copied (copied + n)) = n" using loop_count_le [of pos copied "length out"] lt by (simp add: n_def pos_def)
  have "dextent (xblock (objs s) B (lo_reader st)) pos (pos + n) = dextent (lblock (objs s) B st) pos (pos + n)"
    using same_chunk [of _ pos copied "length out"] None
    by (intro nth_equalityI) (simp_all add: dbyte_def lblock_def n_def pos_def)
  then show ?thesis
    using None t same_trans [OF t] len
    by (auto simp: xdisk_def slice_of_dextent same_def intro!: post_mono [OF x_read_post [OF same_ok [OF t] state_okD(11) [OF st]]])
qed

lemma local_read_loop_post:
  assumes "same s t" "state_ok hc st" "copied \<le> length out" "take copied out = dextent (lblock (objs s) B st) at (at + copied)"
  shows "post (local_read_loop E st at (length out) copied out)
    (\<lambda>r t'. same s t' \<and> r = dextent (lblock (objs s) B st) at (at + length out)) (\<lambda>_. same s) t"
  using assms
proof (induction "length out - copied" arbitrary: copied out t rule: less_induct)
  case less
  show ?case
  proof (cases "copied < length out")
    case False
    with less.prems show ?thesis by (subst local_read_loop.simps) (simp add: post_simps)
  next
    case True
    define n where "n = loop_count (at + copied) copied (length out)"
    have n: "n \<le> length out - copied" "0 < n" using loop_count_le [of "at + copied" copied "length out"] loop_count_pos [OF True] by (simp_all add: n_def)
    let ?ext = "dextent (lblock (objs s) B st) (at + copied) (at + copied + n)"
    have "take (copied + n) (copy_at out copied ?ext) = take copied out @ ?ext" using n by (simp add: take_copy_at)
    then have step: "take (copied + n) (copy_at out copied ?ext) = dextent (lblock (objs s) B st) at (at + (copied + n))"
      unfolding less.prems(4) dextent_append by (simp add: add.assoc)
    have rec: "post (local_read_loop E st at (length out) (copied + n) (copy_at out copied ?ext))
        (\<lambda>r t'. same s t' \<and> r = dextent (lblock (objs s) B st) at (at + length out)) (\<lambda>_. same s) u" if "same s u" for u
      using less.hyps [of "copy_at out copied ?ext" "copied + n" u] n True that less.prems(2) step by simp
    show ?thesis
      using True rec
      by (subst local_read_loop.simps)
        (auto simp: Let_def post_bind simp flip: n_def intro!: post_mono [OF local_piece [OF less.prems(1,2) True, folded n_def]])
  qed
qed

lemma local_read_post:
  assumes "ok s" "state_ok hc st"
  shows "post (local_read E st at out)
    (\<lambda>r t. same s t \<and> \<not> lo_failed st \<and> at + length out \<le> local_size st \<and> r = slice_of (ldisk (objs s) B st) at (at + length out))
    (\<lambda>_. same s) s"
proof (cases "log_check st at (length out)")
  case (Err e)
  then show ?thesis using same_refl [OF assms(1)] by (simp add: local_read_def post_simps)
next
  case (Ok u)
  then have r: "\<not> lo_failed st" "at + length out \<le> local_size st" by (auto simp: log_check_Ok)
  note loop = local_read_loop_post [OF same_refl [OF assms(1)] assms(2), of 0 out at]
  show ?thesis
    using Ok r by (auto simp: local_read_def post_simps ldisk_def slice_of_dextent intro!: post_mono [OF loop])
qed

lemma local_device:
  assumes st: "state_ok hc st"
  shows "block_device (\<lambda>_. io_throw Corrupt) (local_load_for E st) (lblock (objs s) B st) (same s) (\<lambda>_. same s)"
proof
  fix t i w n
  assume t: "same s t"
  show "post (io_throw Corrupt) (\<lambda>b s'. same s s' \<and> b = lblock (objs s) B st i \<and> length b = CHUNK_BYTES) (\<lambda>_. same s) t"
    using t by (simp add: post_throw)
  show "post (local_load_for E st i w n) (\<lambda>b s'. same s s' \<and> length b = CHUNK_BYTES
      \<and> (\<forall>j < CHUNK_BYTES. j < w \<or> w + n \<le> j \<longrightarrow> b ! j = lblock (objs s) B st i ! j)) (\<lambda>_. same s) t"
  proof (cases "w \<noteq> 0 \<or> n \<noteq> CHUNK_BYTES")
    case False
    then show ?thesis using t by (simp add: local_load_for_def post_return)
  next
    case whole: True
    show ?thesis
    proof (cases "bt_get (lo_pending st) i")
      case (Some p)
      then have "length (pn_bytes p) = CHUNK_BYTES"
        using state_okD(2,3) [OF st] by (auto simp: record_ok_def simp flip: bt_entries)
      then show ?thesis using t whole Some by (auto simp: local_load_for_def post_return lblock_def)
    next
      case None
      define f where "f = dextent (xblock (objs s) B (lo_reader st)) (i * CHUNK_BYTES) (i * CHUNK_BYTES + CHUNK_BYTES)"
      have f: "length f = CHUNK_BYTES" "\<forall>j < CHUNK_BYTES. f ! j = lblock (objs s) B st i ! j"
        using None by (simp_all add: f_def dbyte_def lblock_def)
      have objs: "objs t = objs s" using t by (simp add: same_def)
      have load: "local_load_for E st i w n = x_read E (lo_reader st) (i * CHUNK_BYTES) (zeros CHUNK_BYTES)"
        using whole None by (auto simp: local_load_for_def)
      show ?thesis
        unfolding load
      proof (rule post_mono [OF x_read_post [OF same_ok [OF t] state_okD(11) [OF st]]])
        fix b u
        assume r: "same t u \<and> \<not> x_poisoned (lo_reader st) \<and> i * CHUNK_BYTES + length (zeros CHUNK_BYTES) \<le> x_size (lo_reader st)
          \<and> b = slice_of (xdisk (objs t) B (lo_reader st)) (i * CHUNK_BYTES) (i * CHUNK_BYTES + length (zeros CHUNK_BYTES))"
        then have "b = f" by (simp add: xdisk_def slice_of_dextent objs f_def)
        then show "same s u \<and> length b = CHUNK_BYTES \<and> (\<forall>j < CHUNK_BYTES. j < w \<or> w + n \<le> j \<longrightarrow> b ! j = lblock (objs s) B st i ! j)"
          using f same_trans [OF t] r by blast
      qed (rule same_trans [OF t])
    qed
  qed
qed

lemma local_write_post:
  assumes s: "ok s" and hc: "codec_ok (\<lambda>_. True) hc" and j: "journaled hc st fs h recs m" and fs: "fine c fs"
  shows "post (local_write E hc at input)
    (\<lambda>_ (st', u, t). same s t \<and> fine c u \<and> \<not> lo_failed st' \<and> at + length input \<le> local_size st
       \<and> ldisk (objs s) B st' = copy_at (ldisk (objs s) B st) at input
       \<and> (st' = st \<and> u = fs \<or> (\<exists>blocks h' recs' m'. journaled hc st' u h' recs' m' \<and> extended hc st h recs m blocks h' recs' m')))
    (\<lambda>_ (st', u, t). same s t \<and> core st' = core st \<and> (lo_failed st' \<or> st' = st \<and> u = fs)) (st, fs, s)"
    (is "post _ ?Q ?F _")
proof (cases "log_check st at (length input)")
  case (Err e)
  then show ?thesis using same_refl [OF s] by (simp add: local_write_def post_simps)
next
  case (Ok w)
  note k = state_okD [OF journaledD(1) [OF j]]
  have fit: "\<not> lo_failed st" "at + length input \<le> local_size st" using Ok by (auto simp: log_check_Ok)
  let ?extra = "length (filter (\<lambda>i. bt_get (lo_pending st) i = None) [at div CHUNK_BYTES..<(at + length input - 1) div CHUNK_BYTES + 1])"
  have stay: "?F e (st, fs, t)" if "same s t" for e t using that by simp
  have finish: "post (io_bind (store_records hc (staged_records (Suc (lo_sequence st)) blocks)) (\<lambda>_. io_bind get_self (\<lambda>st3.
      set_self (st3\<lparr>lo_sequence := Suc (lo_sequence st), lo_pending := bt_extend (lo_pending st3) (staged_records (Suc (lo_sequence st)) blocks)\<rparr>))))
      ?Q ?F (st, fs, t)"
    if w: "wr_inv (lblock (objs s) B st) at input (length input) blocks" and t: "same s t" and ne: "input \<noteq> []"
      and q: "Suc (lo_sequence st) < U64" and lim: "(length (lo_pending st) + ?extra) * CHUNK_BYTES \<le> DIRTY_LIMIT" for blocks t
  proof -
    have b: "blocks_ok st blocks" by (rule wr_inv_blocks [OF w ne k(11)]) (use fit in \<open>simp add: local_size_def\<close>)
    have room: "length (lo_pending (wrote st blocks)) * CHUNK_BYTES \<le> DIRTY_LIMIT"
      unfolding wrote_room [OF w ne k(2)] by (rule lim)
    note both = post_conj [OF store_records_post [OF hc j b q room fs, of t] store_records_core [of hc "staged_records (Suc (lo_sequence st)) blocks" st t fs]]
    have disk: "ldisk (objs s) B (wrote st' blocks) = copy_at (ldisk (objs s) B st) at input" if "core st' = core st" for st'
    proof -
      have "ldisk (objs s) B (wrote st' blocks) = ldisk (objs s) B (wrote st blocks)"
        using that by (intro ldisk_cong) (simp_all add: core_def wrote_def)
      then show ?thesis using wrote_disk [OF w k(2) fit(2)] by simp
    qed
    have same_st: "st'\<lparr>lo_sequence := Suc (lo_sequence st), lo_pending := bt_extend (lo_pending st') (staged_records (Suc (lo_sequence st)) blocks)\<rparr> = wrote st' blocks"
      if "core st' = core st" for st' using that by (simp add: core_def wrote_def)
    show ?thesis
      unfolding post_bind [of "store_records _ _"]
      by (rule post_mono [OF both])
         (use t fit disk same_st in \<open>auto simp: post_bind post_get_self post_set_self wrote_def\<close>)
  qed
  have loop: "post (lift_world (lift_world (write_loop (local_load_for E st) at input 0 [])))
      (\<lambda>blocks (st', u, t). st' = st \<and> u = fs \<and> same s t \<and> wr_inv (lblock (objs s) B st) at input (length input) blocks) ?F (st, fs, s)"
    unfolding post_lift_world snd_conv fst_conv
    by (rule post_mono [OF block_device.write_loop_pending [OF local_device [OF journaledD(1) [OF j]] same_refl [OF s] wr_inv_0]]) auto
  have main: "post (io_bind (io_lift (ok_or Corrupt (checked_add (lo_sequence st) 1))) (\<lambda>sequence.
      io_bind (lift_world (lift_world (write_loop (local_load_for E st) at input 0 []))) (\<lambda>blocks.
      io_bind (store_records hc (staged_records sequence blocks)) (\<lambda>_. io_bind get_self (\<lambda>st3.
        set_self (st3\<lparr>lo_sequence := sequence, lo_pending := bt_extend (lo_pending st3) (staged_records sequence blocks)\<rparr>)))))) ?Q ?F (st, fs, s)"
    if ne: "input \<noteq> []" and lim: "(length (lo_pending st) + ?extra) * CHUNK_BYTES \<le> DIRTY_LIMIT"
  proof (cases "Suc (lo_sequence st) < U64")
    case False
    then show ?thesis using stay [OF same_refl [OF s]] by (simp add: checked_add_def post_simps)
  next
    case q: True
    have "post (io_bind (lift_world (lift_world (write_loop (local_load_for E st) at input 0 []))) (\<lambda>blocks.
        io_bind (store_records hc (staged_records (Suc (lo_sequence st)) blocks)) (\<lambda>_. io_bind get_self (\<lambda>st3.
          set_self (st3\<lparr>lo_sequence := Suc (lo_sequence st), lo_pending := bt_extend (lo_pending st3) (staged_records (Suc (lo_sequence st)) blocks)\<rparr>)))))
        ?Q ?F (st, fs, s)"
      unfolding post_bind [of "lift_world _"] by (rule post_mono [OF loop], clarify) (rule finish [OF _ _ ne q lim], assumption+)
    then show ?thesis using q by (simp add: checked_add_def post_bind post_lift)
  qed
  have start: "?Q () (st, fs, s)" if "input = []" using that fit fs same_refl [OF s] by (simp add: copy_at_def)
  have check: "log_check st at (length input) = Ok ()" using Ok by simp
  show ?thesis
    unfolding local_write_def
  proof (rule self_bind, unfold check io_bind_return_Ok Let_def store_records_def [symmetric] staged_records_def [symmetric])
    show "post (if input = [] then io_return ()
        else if DIRTY_LIMIT < (length (lo_pending st) + ?extra) * CHUNK_BYTES then io_throw Backpressure
        else io_bind (io_lift (ok_or Corrupt (checked_add (lo_sequence st) 1))) (\<lambda>sequence.
          io_bind (lift_world (lift_world (write_loop (local_load_for E st) at input 0 []))) (\<lambda>blocks.
          io_bind (store_records hc (staged_records sequence blocks)) (\<lambda>_. io_bind get_self (\<lambda>st3.
            set_self (st3\<lparr>lo_sequence := sequence, lo_pending := bt_extend (lo_pending st3) (staged_records sequence blocks)\<rparr>)))))) ?Q ?F (st, fs, s)"
    proof (cases "input = []")
      case True
      show ?thesis unfolding if_P [OF True] post_return by (rule start [OF True])
    next
      case ne: False
      show ?thesis
      proof (cases "DIRTY_LIMIT < (length (lo_pending st) + ?extra) * CHUNK_BYTES")
        case True
        show ?thesis unfolding if_not_P [OF ne] if_P [OF True] post_throw by (rule stay [OF same_refl [OF s]])
      next
        case False
        show ?thesis unfolding if_not_P [OF ne] if_not_P [OF False] by (rule main [OF ne leI [OF False]])
      qed
    qed
  qed
qed

lemma local_flush_post:
  assumes j: "journaled hc st fs h recs m" and fs: "fine c fs"
  shows "post local_flush
    (\<lambda>_ (st', u, t). t = s \<and> fine c u \<and> \<not> lo_failed st' \<and> st' = st\<lparr>lo_local_sequence := lo_sequence st\<rparr> \<and> journaled hc st' u h recs (length recs))
    (\<lambda>_ (st', u, t). t = s \<and> core st' = core st \<and> lo_failed st') (st, fs, s)"
proof (cases "lo_failed st")
  case True
  then show ?thesis by (simp add: local_flush_def log_check_def post_simps)
next
  case False
  note d = journaledD [OF j]
  have check: "log_check st 0 0 = Ok ()" using False by (simp add: log_check_Ok U64_def)
  have sync: "journaled hc (st\<lparr>lo_local_sequence := lo_sequence st\<rparr>) u h recs (length recs)"
    if "becomes c u (set_file (lo_file st) ((fs_files fs ! lo_file st)\<lparr>jf_synced := jf_data (fs_files fs ! lo_file st)\<rparr>) (disk_of fs))" for u
  proof -
    have files: "fs_files u = (fs_files fs)[lo_file st := (fs_files fs ! lo_file st)\<lparr>jf_synced := jf_data (fs_files fs ! lo_file st)\<rparr>]"
        "fs_journal u = fs_journal fs" "fs_journal_synced u = fs_journal_synced fs"
      using that by (simp_all add: becomes_def disk_of_def set_file_def)
    have "state_ok hc (st\<lparr>lo_local_sequence := lo_sequence st\<rparr>)" "reconciled h (st\<lparr>lo_local_sequence := lo_sequence st\<rparr>)"
      using d(1,14) unfolding state_ok_def reconciled_def acknowledged_def by simp_all
    then show ?thesis
      unfolding journaled_def
      using d(2-13) files top_sequence_take [OF d(7), of "lh_sequence h" recs] d(15) by (simp add: acknowledged_def)
  qed
  show ?thesis
    unfolding local_flush_def
    by (intro self_bind, unfold check io_bind_return_Ok post_bind post_set_failed post_lift_world post_on_files snd_conv fst_conv)
       (use False sync in \<open>auto simp: post_get_self post_set_self core_def intro!: post_mono [OF file_sync_post [OF fs]] intro: becomes_fine\<close>)
qed

end

text \<open>
  What opening the directory makes of a journal: the state before the crash, with the
  records that survived.
\<close>

definition reopened :: "local_state \<Rightarrow> log_header \<Rightarrow> (nat \<times> pending) list \<Rightarrow> nat \<Rightarrow> local_state" where
  "reopened st h recs a = \<lparr>lo_header = h\<lparr>lh_base := x_revision (lo_reader st), lh_acknowledged := acknowledged st\<rparr>, lo_file = a, lo_reader = lo_reader st,
      lo_pending = replayed (acknowledged st) recs [], lo_sequence = top_sequence (lh_sequence h) recs,
      lo_local_sequence = top_sequence (lh_sequence h) recs, lo_failed = False, lo_replication_failed = False\<rparr>"

lemma recovered_ok:
  assumes j: "journaled hc st fs h recs m" and k: "m \<le> k" "k \<le> length recs"
  shows "state_ok hc (reopened st h (take k recs) a)"
proof -
  define st' where "st' = reopened st h (take k recs) a"
  note d = journaledD [OF j]
  note s = state_okD [OF d(1)]
  have id: "lh_volume h = lh_volume (lo_header st)" "lh_id h = lh_id (lo_header st)" using d(14) by (auto simp: reconciled_def)
  have fits: "header_fits hc (lo_header st')"
  proof -
    have "(lo_header st')\<lparr>lh_acknowledged := x, lh_sequence := y\<rparr> = (lo_header st)\<lparr>lh_acknowledged := x, lh_sequence := y\<rparr>" for x y
      using id s(9) by (cases "lo_header st"; cases h) (simp add: st'_def reopened_def)
    then show ?thesis using s(1) by (simp add: header_fits_def)
  qed
  have ok: "bt_ok (lo_pending st')" by (simp add: st'_def reopened_def bt_ok_replayed)
  have entries: "record_ok (x_size (lo_reader st) div CHUNK_BYTES) (i, p) \<and> acknowledged st < pn_sequence p \<and> pn_sequence p \<le> lo_sequence st'"
    if "(i, p) \<in> set (lo_pending st')" for i p
  proof -
    have "bt_get (lo_pending st') i = Some p" using that ok by (simp add: bt_entries)
    then have "(i, p) \<in> set (take k recs)" "acknowledged st < pn_sequence p"
      using bt_get_replayed_in [of "[]" "acknowledged st" "take k recs" i p] by (auto simp: st'_def reopened_def)
    then show ?thesis
      using d(10) sequence_below(1) [of "(i, p)" "take k recs" "lh_sequence h"] by (auto simp: st'_def reopened_def dest: in_set_takeD)
  qed
  have room: "length (lo_pending st') * CHUNK_BYTES \<le> DIRTY_LIMIT"
    using order_trans [OF mult_le_mono1 [OF replayed_take_length [of "acknowledged st" k recs]]] s(4) d(12) by (simp add: st'_def reopened_def)
  have seq: "acknowledged st \<le> lo_sequence st'" "lo_sequence st' < U64"
    using le_trans [OF d(15) top_sequence_take [OF k(1)]] top_sequence_take [OF k(2), of "lh_sequence h" recs] d(13) s(6) by (simp_all add: st'_def reopened_def)
  show ?thesis
    unfolding state_ok_def st'_def [symmetric]
    using fits ok entries room seq id s(7-13) by (auto simp: st'_def reopened_def acknowledged_def)
qed

lemma clean_copy_same: "\<not> x_poisoned vol \<Longrightarrow> x_dirty vol = [] \<Longrightarrow> clean_copy vol = Ok vol"
  by (cases vol) (simp add: clean_copy_def x_check_def checked_add_def U64_def fresh_handle_def res_bind_def)

definition unreconciled :: "local_state \<Rightarrow> log_header \<Rightarrow> (nat \<times> pending) list \<Rightarrow> nat \<Rightarrow> local_state" where
  "unreconciled st h recs a = (reopened st h recs a)\<lparr>lo_header := h\<rparr>"

lemma accept_reopened:
  assumes j: "journaled hc st fs h recs m" and k: "m \<le> k" "k \<le> length recs"
  shows "log_accept (lo_reader st) (unreconciled st h (take k recs) a, w) = (Ok (), (reopened st h (take k recs) a, w))"
proof -
  note d = journaledD [OF j]
  note s = state_okD [OF d(1)]
  note r = state_okD [OF recovered_ok [OF j k, of a]]
  have keep: "bt_retain (\<lambda>_ p. acknowledged st < pn_sequence p) (replayed (acknowledged st) (take k recs) []) = replayed (acknowledged st) (take k recs) []"
    using r(3) unfolding bt_retain_def by (intro filter_True) (auto simp: reopened_def acknowledged_def)
  have seq: "acknowledged st \<le> top_sequence (lh_sequence h) (take k recs)"
    using r(5) by (simp add: reopened_def acknowledged_def)
  show ?thesis
  proof (cases "lh_base h = x_revision (lo_reader st)")
    case True
    then have "lh_acknowledged h = acknowledged st" using d(14) s(9) by (simp add: reconciled_def)
    then show ?thesis
      using True keep by (simp add: log_accept_def io_bind_def io_lift_def get_self_def set_self_def unreconciled_def reopened_def)
  next
    case False
    then have "lh_acknowledged h \<le> acknowledged st" "lh_id h = lh_id (lo_header st)"
        "rt_replication (x_root (lo_reader st)) = Some \<lparr>rp_id = lh_id (lo_header st), rp_sequence = acknowledged st\<rparr>"
      using d(14) s(9) by (auto simp: reconciled_def)
    then show ?thesis
      using False keep seq by (simp add: log_accept_def io_bind_def io_lift_def get_self_def set_self_def unreconciled_def reopened_def)
  qed
qed

lemma dir_bind:
  assumes "post m P (\<lambda>_ _. \<not> c) fs" "\<And>x u. P x u \<Longrightarrow> post (f x) Q (\<lambda>_ _. \<not> c \<or> X) (u, s)"
  shows "post (io_bind (on_files m) f) Q (\<lambda>_ _. \<not> c \<or> X) (fs, s)"
  unfolding post_bind post_on_files by (rule post_mono [OF assms(1)]) (use assms(2) in auto)

lemma store_bind:
  assumes "post m P (\<lambda>_ _. X) s" "\<And>x t. P x t \<Longrightarrow> post (f x) Q (\<lambda>_ _. Y \<or> X) (fs, t)"
  shows "post (io_bind (lift_world m) f) Q (\<lambda>_ _. Y \<or> X) (fs, s)"
  unfolding post_bind post_lift_world snd_conv fst_conv by (rule post_mono [OF assms(1)]) (use assms(2) in auto)

lemma open_journal_post:
  assumes "becomes c t d" "d = disk_of fs" "fs_journal fs = Some a"
  shows "post open_journal_file (\<lambda>x u. x = (a, True) \<and> becomes c u d) (\<lambda>_ _. \<not> c) t"
proof -
  have op: "open_journal_file = io_bind fs_call (\<lambda>_ fs'. case fs_journal fs' of
         Some a \<Rightarrow> (Ok (a, True), fs')
       | None \<Rightarrow> (Ok (length (fs_files fs'), False),
           fs'\<lparr>fs_files := fs_files fs' @ [\<lparr>jf_data = [], jf_synced = []\<rparr>], fs_journal := Some (length (fs_files fs'))\<rparr>))"
    by (rule ext) (simp add: open_journal_file_def)
  have entry: "fs_journal u = Some a" if "becomes c u d" for u
    using assms(2,3) that by (auto dest!: becomesD disk_of_eqD)
  show ?thesis unfolding op by (rule fs_call_bind [OF _ assms(1)]) (auto simp: post_def entry)
qed

lemma log_length_post:
  assumes "becomes c t (disk_of fs)"
  shows "post (io_bind fs_call (\<lambda>_ fs. (Ok (length (jf_data (fs_files fs ! a))), fs)))
    (\<lambda>x u. x = length (jf_data (fs_files fs ! a)) \<and> becomes c u (disk_of fs)) (\<lambda>_ _. \<not> c) t"
  by (rule fs_call_bind [OF _ assms]) (auto simp: post_read dest!: becomesD disk_of_eqD)

context indexed_store
begin

lemma local_open_post:
  assumes s: "ok s" and hc: "codec_ok (\<lambda>_. True) hc" and j: "journaled hc st fs h recs m" and crash: "crash fs fs'" and fine: "fine c fs'"
    and cur: "heads s (rt_volume (x_root (lo_reader st))) = Some \<lparr>h_revision = x_revision (lo_reader st), h_manifest = mf\<rparr>"
      "c_to_vec (ix_codec E) (x_root (lo_reader st)) = Some mf"
    and base: "\<forall>r. rt_base (x_root (lo_reader st)) = Some r \<longrightarrow> base_catalog dg B r (the (x_base (lo_reader st)))"
  shows "post (local_open E hc (rt_volume (x_root (lo_reader st))))
    (\<lambda>st' (u, t). same s t \<and> fine c u \<and> (\<exists>k a. m \<le> k \<and> k \<le> length recs \<and> st' = renewed (reopened st h (take k recs) a) (lo_file st')
       \<and> journaled hc st' u (lo_header st') (sorted_entries (lo_pending st')) (length (lo_pending st'))))
    (\<lambda>_ _. \<not> c \<or> (\<exists>e t. x_open E (rt_volume (x_root (lo_reader st))) s = (Err e, t))) (fs', s)"
    (is "post _ ?Q (\<lambda>_ _. \<not> c \<or> ?X) _")
proof -
  note d = journaledD [OF j]
  note sk = state_okD [OF d(1)]
  let ?i = "rt_volume (x_root (lo_reader st))" and ?a = "lo_file st"
  obtain k tail where k: "m \<le> k" "k \<le> length recs" "length tail < RECORD" "fs_journal fs' = Some ?a"
      "jf_data (fs_files fs' ! ?a) = log_bytes hc h (take k recs) @ tail" "length (log_bytes hc h (take k recs) @ tail) \<le> LOG_LIMIT"
    using crash_log [OF hc j crash] by blast
  have clean: "clean_copy (lo_reader st) = Ok (lo_reader st)" using sk(12,13) by (simp add: clean_copy_same)
  have remote: "post (x_open E ?i) (\<lambda>w t. w = lo_reader st \<and> same s t) (\<lambda>_ _. ?X) s"
    using reopen [OF s sk(11,12) base cur] sk(13)
    by (cases "lo_reader st") (auto simp: post_def split: prod.splits result.splits)
  have last: "post (\<lambda>w. case io_bind (log_accept (lo_reader st)) (\<lambda>_. log_compact hc) (unreconciled st h (take k recs) ?a, w) of
      (Ok _, (st', w')) \<Rightarrow> (Ok st', w') | (Err e, (_, w')) \<Rightarrow> (Err e, w')) ?Q (\<lambda>_ _. \<not> c \<or> ?X) (u, t)"
    if u: "fine c u" and t: "same s t" for u t
    using log_compact_post [OF hc recovered_ok [OF j k(1,2), of ?a] u, of t] accept_reopened [OF j k(1,2), of ?a "(u, t)"] k(1,2) t
    by (auto simp: post_def renewed_def reopened_def acknowledged_def split: prod.splits result.splits)
  have short: "\<not> LOG_LIMIT < length (jf_data (fs_files fs' ! ?a))" using k(5,6) by simp
  have replay: "post (replay_journal hc ?i (lo_reader st) ?a)
      (\<lambda>x v. x = (h, top_sequence (lh_sequence h) (take k recs), replayed (acknowledged st) (take k recs) []) \<and> fine c v) (\<lambda>_ _. \<not> c) u"
    if u: "becomes c u (disk_of fs')" for u
    by (rule replay_journal_post [OF hc j k(3) becomes_fine [OF u]]) (use disk_of_eqD [OF becomesD [OF u]] k(5) in simp)
  show ?thesis
    unfolding local_open_def
    apply (rule dir_bind [OF silent_tuple(1) [OF fine]])
    apply (rule dir_bind [OF silent_tuple(1)], assumption)
    apply (rule dir_bind [OF silent_tuple(2)], assumption)
    apply (rule dir_bind [OF silent_tuple(3)], assumption)
    apply (rule store_bind [OF remote], elim conjE, simp only:)
    apply (rule dir_bind [OF silent_tuple(1)], assumption)
    apply (rule dir_bind [OF open_journal_post [OF _ refl k(4)]], assumption, elim conjE, simp only: prod.case)
    apply (rule dir_bind [OF log_length_post], assumption, elim conjE, simp only: if_not_P [OF short] if_True)
    apply (rule dir_bind [OF replay], assumption, elim conjE, simp only: prod.case clean io_bind_return_Ok Let_def)
    using last by (simp add: unreconciled_def reopened_def)
qed

end

end
