(* ===== verification/Local_Disk.thy ===== *)
theory Local_Disk
  imports Journal_Ops
begin

text \<open>
  Properties of the local-durable disk of \<open>ahvm-volume/src/local.rs\<close>: reads and writes
  against the disk that the state stands for, recovery after a crash, and the durability
  of a flush; and a disk with one write that was not synced, as their example.
\<close>

section \<open>An example\<close>

definition demo_header :: "nat \<Rightarrow> nat \<Rightarrow> log_header" where
  "demo_header a q = \<lparr>lh_volume = ''vm'', lh_id = demo_digit (CHR ''0''), lh_base = service_tag 0, lh_acknowledged = a, lh_sequence = q\<rparr>"

definition demo_log :: "log_header codec" where
  "demo_log = \<lparr>c_digest = demo_dg,
     c_to_vec = (\<lambda>h. if h = demo_header (lh_acknowledged h) (lh_sequence h) \<and> lh_acknowledged h < U64 \<and> lh_sequence h < U64
       then Some (be_bytes 8 (lh_acknowledged h) @ be_bytes 8 (lh_sequence h)) else None),
     c_from_slice = (\<lambda>b. Some (demo_header (be_nat (take 8 b)) (be_nat (drop 8 b))))\<rparr>"

definition demo_local :: local_state where
  "demo_local = \<lparr>lo_header = demo_header 0 0, lo_file = 0, lo_reader = demo_handle [],
     lo_pending = [(0, \<lparr>pn_sequence = 1, pn_bytes = demo_chunk\<rparr>)], lo_sequence = 1, lo_local_sequence = 0, lo_failed = False, lo_replication_failed = False\<rparr>"

abbreviation demo_records :: "(nat \<times> pending) list" where
  "demo_records \<equiv> [(0, \<lparr>pn_sequence = 1, pn_bytes = demo_chunk\<rparr>)]"

definition demo_file :: "(nat \<times> pending) list \<Rightarrow> (nat \<times> pending) list \<Rightarrow> jfile" where
  "demo_file now synced = \<lparr>jf_data = log_bytes demo_log (demo_header 0 0) now, jf_synced = log_bytes demo_log (demo_header 0 0) synced\<rparr>"

definition demo_dir :: "(nat \<times> pending) list \<Rightarrow> jfs" where
  "demo_dir synced = \<lparr>fs_files = [demo_file demo_records synced], fs_journal = Some 0, fs_journal_synced = Some 0, fs_new = None, fs_faults = [], fs_random = []\<rparr>"

lemma demo_log_ok: "codec_ok (\<lambda>_. True) demo_log"
  using demo_dg_valid by (auto simp: codec_ok_def demo_log_def be_nat_bytes_id U64_def split: if_splits)

lemma demo_header_fits: "a < U64 \<Longrightarrow> q < U64 \<Longrightarrow> \<exists>bss. header_parts demo_log (demo_header a q) = Ok bss"
  by (simp add: header_parts_Ok demo_log_def demo_header_def)

lemma demo_local_ok: "state_ok demo_log demo_local"
proof -
  have "(demo_header 0 0)\<lparr>lh_acknowledged := a, lh_sequence := q\<rparr> = demo_header a q" for a q by (simp add: demo_header_def)
  then have "header_fits demo_log (demo_header 0 0)" using demo_header_fits by (simp add: header_fits_def)
  moreover have "hex_id (demo_digit (CHR ''0''))" by (simp add: hex_id_def demo_digit_def list_all_iff ascii_digit_iff)
  moreover have "x_inv (demo_handle [])" using demo_handle_facts(1) [of "[]"] by simp
  ultimately show ?thesis
    by (simp add: state_ok_def demo_local_def acknowledged_def demo_header_def record_ok_def demo_handle_def demo_root_def x_size_def demo_chunk_length U64_def DIRTY_LIMIT_def CHUNK_BYTES_def)
qed

lemma demo_journaled:
  assumes "m \<le> 1"
  shows "journaled demo_log demo_local (demo_dir (take m demo_records)) (demo_header 0 0) demo_records m"
proof -
  have z: "(0::nat) < U64" by (simp add: U64_def)
  obtain bss where parts: "header_parts demo_log (demo_header 0 0) = Ok bss" using demo_header_fits [OF z z] by blast
  have ok: "\<forall>e \<in> set demo_records. record_ok (x_size (lo_reader demo_local) div CHUNK_BYTES) e"
    by (simp add: record_ok_def demo_local_def demo_handle_def demo_root_def x_size_def demo_chunk_length)
  have "length (log_bytes demo_log (demo_header 0 0) demo_records) \<le> LOG_LIMIT"
    using log_length [OF demo_log_ok parts ok] by (simp add: LOG_LIMIT_def RECORD_def CHUNK_BYTES_def)
  moreover have "reconciled (demo_header 0 0) demo_local"
    by (simp add: reconciled_def demo_local_def acknowledged_def demo_header_def)
  ultimately show ?thesis
    unfolding journaled_def using demo_local_ok parts ok assms
    by (simp add: demo_dir_def demo_file_def demo_local_def acknowledged_def demo_header_def in_order_def replayed_def top_sequence_def)
qed

lemma demo_current:
  "current demo_E (demo_heads demo_service) (lo_reader demo_local)" "catalog_current (c_digest (ix_codec demo_E)) no_images (lo_reader demo_local)"
  by (simp_all add: current_def demo_E_def demo_roots_def demo_local_def demo_handle_def demo_root_def s3_heads_def demo_service_def demo_valid catalog_current_def)

lemma crash_keep: "fs_journal_synced fs = fs_journal fs \<Longrightarrow> (\<forall>f \<in> set (fs_files fs). jf_synced f = jf_data f) \<Longrightarrow> crash fs fs"
  by (auto simp: crash_def crash_file_def intro!: list_all2_same [THEN iffD2] exI [of _ 0])

section \<open>Recovery\<close>

lemma crash_open:
  assumes "indexed_store E heads objs ok B" "ok s" "codec_ok (\<lambda>_. True) hc" "journaled hc st fs h recs m" "crash fs fs'"
    and "current E (heads s) (lo_reader st)" "catalog_current (c_digest (ix_codec E)) B (lo_reader st)"
  shows "post (local_open E hc (rt_volume (x_root (lo_reader st))))
    (\<lambda>st' (u, t). ok t \<and> heads t = heads s \<and> objs t = objs s \<and> \<not> lo_failed st' \<and> lo_reader st' = lo_reader st
       \<and> (\<exists>k. m \<le> k \<and> k \<le> length recs \<and> lo_pending st' = replayed (acknowledged st) (take k recs) []
            \<and> lo_sequence st' = top_sequence (lh_sequence h) (take k recs))
       \<and> (\<exists>h' recs'. journaled hc st' u h' recs' (length recs')))
    (\<lambda>_ _. fs_faults fs' \<noteq> [] \<or> (\<exists>e t. x_open E (rt_volume (x_root (lo_reader st))) s = (Err e, t))) (fs', s)"
proof -
  obtain mf where mf: "heads s (rt_volume (x_root (lo_reader st))) = Some \<lparr>h_revision = x_revision (lo_reader st), h_manifest = mf\<rparr>"
      "c_to_vec (ix_codec E) (x_root (lo_reader st)) = Some mf" using assms(6) unfolding current_def by blast
  have base: "\<forall>r. rt_base (x_root (lo_reader st)) = Some r \<longrightarrow> base_catalog (c_digest (ix_codec E)) B r (the (x_base (lo_reader st)))"
    using assms(7) by (simp add: catalog_current_def)
  have fine: "fine (fs_faults fs' = []) fs'" by (simp add: fine_iff)
  show ?thesis
  proof (rule post_mono [OF indexed_store.local_open_post [OF assms(1-5) fine mf base]], goal_cases)
    case (1 st' w)
    obtain u t where w: "w = (u, t)" by force
    from 1 obtain k a where k: "indexed_store.same heads objs ok s t" "m \<le> k" "k \<le> length recs" "st' = renewed (reopened st h (take k recs) a) (lo_file st')"
        "journaled hc st' u (lo_header st') (sorted_entries (lo_pending st')) (length (lo_pending st'))" by (auto simp: w)
    have eq: "lo_pending st' = replayed (acknowledged st) (take k recs) []" "lo_sequence st' = top_sequence (lh_sequence h) (take k recs)"
        "\<not> lo_failed st'" "lo_reader st' = lo_reader st"
      by (subst k(4), simp add: renewed_def reopened_def)+
    have "\<exists>h' recs'. journaled hc st' u h' recs' (length recs')" using k(5) sorted_entries_set(2) by metis
    then show ?case using k(1-3) eq unfolding w by (auto simp: indexed_store.same_def [OF assms(1)])
  qed simp
qed

section \<open>Properties\<close>

text \<open>
  C15. A read of the local disk returns exactly the requested slice of the disk that the
  pending blocks laid over the remote volume stand for, and changes nothing, whether it
  succeeds or fails.
\<close>

theorem local_read_correct:
  assumes "indexed_store E heads objs ok B" "ok s" "state_ok hc st"
  shows "post (local_read E st at out)
    (\<lambda>r t. ok t \<and> heads t = heads s \<and> objs t = objs s \<and> \<not> lo_failed st \<and> at + length out \<le> local_size st
       \<and> r = slice_of (ldisk (objs s) B st) at (at + length out))
    (\<lambda>_ t. ok t \<and> heads t = heads s \<and> objs t = objs s) s"
  by (rule post_mono [OF indexed_store.local_read_post [OF assms]]) (auto simp: indexed_store.same_def [OF assms(1)])

theorem local_read_correct_witness:
  "post (local_read demo_E demo_local 1 (zeros 3))
    (\<lambda>r t. demo_ok t \<and> demo_heads t = demo_heads demo_service \<and> demo_objs t = demo_objs demo_service \<and> \<not> lo_failed demo_local
       \<and> 1 + length (zeros 3) \<le> local_size demo_local
       \<and> r = slice_of (ldisk (demo_objs demo_service) no_images demo_local) 1 (1 + length (zeros 3)))
    (\<lambda>_ t. demo_ok t \<and> demo_heads t = demo_heads demo_service \<and> demo_objs t = demo_objs demo_service) demo_service"
  by (rule local_read_correct [OF demo_indexed demo_written_facts(1) demo_local_ok])

text \<open>
  C14. A write to the local disk that succeeds changes the disk exactly as the assignment
  of the bytes at that offset would, and the journal afterwards replays to the new state,
  also when it had to be compacted first. A write that fails leaves the same disk, and
  either nothing has happened at all or the disk refuses every further operation.
\<close>

theorem local_write_correct:
  assumes "indexed_store E heads objs ok B" "ok s" "codec_ok (\<lambda>_. True) hc" "journaled hc st fs h recs m"
  shows "post (local_write E hc at input)
    (\<lambda>_ (st', u, t). ok t \<and> heads t = heads s \<and> objs t = objs s \<and> at + length input \<le> local_size st \<and> \<not> lo_failed st'
       \<and> ldisk (objs t) B st' = copy_at (ldisk (objs s) B st) at input \<and> (\<exists>h' recs' m'. journaled hc st' u h' recs' m'))
    (\<lambda>_ (st', u, t). ok t \<and> heads t = heads s \<and> objs t = objs s \<and> ldisk (objs t) B st' = ldisk (objs s) B st
       \<and> (lo_failed st' \<or> st' = st \<and> u = fs)) (st, fs, s)"
proof -
  have "fine False fs" by (simp add: fine_iff)
  then show ?thesis
    using assms(4)
    by (intro post_mono [OF indexed_store.local_write_post [OF assms]])
      (auto simp: indexed_store.same_def [OF assms(1)] core_def intro: ldisk_cong)
qed

theorem local_write_correct_witness:
  "post (local_write demo_E demo_log 5 [7])
    (\<lambda>_ (st', u, t). demo_ok t \<and> demo_heads t = demo_heads demo_service \<and> demo_objs t = demo_objs demo_service
       \<and> 5 + length [7 :: byte] \<le> local_size demo_local \<and> \<not> lo_failed st'
       \<and> ldisk (demo_objs t) no_images st' = copy_at (ldisk (demo_objs demo_service) no_images demo_local) 5 [7]
       \<and> (\<exists>h' recs' m'. journaled demo_log st' u h' recs' m'))
    (\<lambda>_ (st', u, t). demo_ok t \<and> demo_heads t = demo_heads demo_service \<and> demo_objs t = demo_objs demo_service
       \<and> ldisk (demo_objs t) no_images st' = ldisk (demo_objs demo_service) no_images demo_local
       \<and> (lo_failed st' \<or> st' = demo_local \<and> u = demo_dir [])) (demo_local, demo_dir [], demo_service)"
  by (rule local_write_correct [OF demo_indexed demo_written_facts(1) demo_log_ok demo_journaled [of 0, simplified]])

text \<open>
  C13. After a crash, whatever part of the appended and not yet synced records reached the
  file, opening the directory again gives the state of a prefix of the records that
  contains all synced ones: the same remote volume, the blocks that these records stand
  for over it, and a journal that is consistent and synced. It fails only when a system
  call fails or the remote volume cannot be opened; the journal itself is never rejected.
\<close>

theorem crash_recovery:
  assumes "indexed_store E heads objs ok B" "ok s" "codec_ok (\<lambda>_. True) hc" "journaled hc st fs h recs m" "crash fs fs'"
    and "current E (heads s) (lo_reader st)" "catalog_current (c_digest (ix_codec E)) B (lo_reader st)"
  shows "post (local_open E hc (rt_volume (x_root (lo_reader st))))
    (\<lambda>st' (u, t). ok t \<and> heads t = heads s \<and> objs t = objs s \<and> \<not> lo_failed st' \<and> lo_reader st' = lo_reader st
       \<and> (\<exists>k. m \<le> k \<and> k \<le> length recs \<and> lo_pending st' = replayed (acknowledged st) (take k recs) []
            \<and> lo_sequence st' = top_sequence (lh_sequence h) (take k recs))
       \<and> (\<exists>h' recs'. journaled hc st' u h' recs' (length recs')))
    (\<lambda>_ _. fs_faults fs' \<noteq> [] \<or> (\<exists>e t. x_open E (rt_volume (x_root (lo_reader st))) s = (Err e, t))) (fs', s)"
  by (rule crash_open [OF assms])

theorem crash_recovery_witness:
  "post (local_open demo_E demo_log ''vm'')
    (\<lambda>st' (u, t). demo_ok t \<and> demo_heads t = demo_heads demo_service \<and> demo_objs t = demo_objs demo_service \<and> \<not> lo_failed st' \<and> lo_reader st' = demo_handle []
       \<and> (\<exists>k. 1 \<le> k \<and> k \<le> length demo_records \<and> lo_pending st' = replayed (acknowledged demo_local) (take k demo_records) []
            \<and> lo_sequence st' = top_sequence (lh_sequence (demo_header 0 0)) (take k demo_records))
       \<and> (\<exists>h' recs'. journaled demo_log st' u h' recs' (length recs')))
    (\<lambda>_ _. fs_faults (demo_dir demo_records) \<noteq> [] \<or> (\<exists>e t. x_open demo_E ''vm'' demo_service = (Err e, t))) (demo_dir demo_records, demo_service)"
proof -
  have c: "crash (demo_dir demo_records) (demo_dir demo_records)"
    by (rule crash_keep) (simp_all add: demo_dir_def demo_file_def)
  have j: "journaled demo_log demo_local (demo_dir demo_records) (demo_header 0 0) demo_records 1" using demo_journaled [of 1] by simp
  have vm: "lo_reader demo_local = demo_handle []" "rt_volume (x_root (demo_handle [])) = ''vm''"
    by (simp_all add: demo_local_def demo_handle_def demo_root_def)
  show ?thesis
    using crash_recovery [OF demo_indexed demo_written_facts(1) demo_log_ok j c demo_current] unfolding vm .
qed

text \<open>
  C12. A flush that reports success survives a crash: whatever happens to the machine
  afterwards, opening the directory again gives the very disk that was flushed, with the
  same sequence of writes, unless a system call fails or the remote volume cannot be
  opened.
\<close>

theorem flush_survives_crash:
  assumes "indexed_store E heads objs ok B" "ok s" "codec_ok (\<lambda>_. True) hc" "journaled hc st fs h recs m"
    and "local_flush (st, fs, s) = (Ok (), (st1, fs1, s1))" "crash fs1 fs2"
    and "current E (heads s) (lo_reader st)" "catalog_current (c_digest (ix_codec E)) B (lo_reader st)"
  shows "post (local_open E hc (rt_volume (x_root (lo_reader st))))
    (\<lambda>st2 (u, t). ldisk (objs t) B st2 = ldisk (objs s) B st \<and> lo_sequence st2 = lo_sequence st \<and> lo_pending st2 = lo_pending st \<and> \<not> lo_failed st2)
    (\<lambda>_ _. fs_faults fs2 \<noteq> [] \<or> (\<exists>e t. x_open E (rt_volume (x_root (lo_reader st))) s = (Err e, t))) (fs2, s1)"
proof -
  have "fine False fs" by (simp add: fine_iff)
  from post_run [OF indexed_store.local_flush_post [OF assms(1,4) this, of s] assms(5)]
  have f: "s1 = s" "st1 = st\<lparr>lo_local_sequence := lo_sequence st\<rparr>" "journaled hc st1 fs1 h recs (length recs)" by auto
  have reader: "lo_reader st1 = lo_reader st" "acknowledged st1 = acknowledged st" by (simp_all add: f(2) acknowledged_def)
  note d = journaledD [OF assms(4)]
  note open1 = crash_open [OF assms(1-3) f(3) assms(6), unfolded reader, OF assms(7,8)]
  show ?thesis
    unfolding f(1)
  proof (rule post_mono [OF open1], goal_cases)
    case (1 st2 w)
    then have "objs (snd w) = objs s" "\<not> lo_failed st2" "lo_reader st2 = lo_reader st" "lo_pending st2 = lo_pending st" "lo_sequence st2 = lo_sequence st"
      using d(12,13) by (auto split: prod.splits)
    then show ?case using ldisk_cong [of st2 st "objs s" B] by (cases w) simp
  qed
qed

theorem flush_survives_crash_witness:
  "post (local_open demo_E demo_log ''vm'')
    (\<lambda>st2 (u, t). ldisk (demo_objs t) no_images st2 = ldisk (demo_objs demo_service) no_images demo_local \<and> lo_sequence st2 = lo_sequence demo_local
       \<and> lo_pending st2 = lo_pending demo_local \<and> \<not> lo_failed st2)
    (\<lambda>_ _. fs_faults (demo_dir demo_records) \<noteq> [] \<or> (\<exists>e t. x_open demo_E ''vm'' demo_service = (Err e, t))) (demo_dir demo_records, demo_service)"
proof -
  have c: "crash (demo_dir demo_records) (demo_dir demo_records)"
    by (rule crash_keep) (simp_all add: demo_dir_def demo_file_def)
  have j: "journaled demo_log demo_local (demo_dir []) (demo_header 0 0) demo_records 0" using demo_journaled [of 0] by simp
  have vm: "rt_volume (x_root (lo_reader demo_local)) = ''vm''" by (simp add: demo_local_def demo_handle_def demo_root_def)
  have flush: "local_flush (demo_local, demo_dir [], demo_service)
      = (Ok (), (demo_local\<lparr>lo_local_sequence := 1\<rparr>, demo_dir demo_records, demo_service))"
    by (simp add: local_flush_def log_check_def io_bind_def io_lift_def get_self_def set_self_def set_failed_def lift_world_def on_files_def file_sync_def
        fs_fault_def update_file_def demo_dir_def demo_file_def demo_local_def checked_add_def U64_def)
  show ?thesis
    using flush_survives_crash [OF demo_indexed demo_written_facts(1) demo_log_ok j flush c demo_current] unfolding vm .
qed

text \<open>
  A crash in the very first open can lock the disk out: the entry \<open>journal\<close> is created
  before its header is written and synced, and a crash between the two leaves an empty
  file that every later open refuses, although it stands for no writes at all.
\<close>

theorem first_open_crash_blocks:
  assumes "open_journal_file fs = (Ok (a, False), fs1)" "crash fs1 fs2" "fs_journal fs2 = Some a"
  shows "\<exists>e w. local_open E hc i (fs2, s) = (Err e, w)"
proof -
  have a: "a < length (fs_files fs1)" "jf_data (fs_files fs1 ! a) = []" "jf_synced (fs_files fs1 ! a) = []"
    using assms(1) by (auto simp: open_journal_file_def io_bind_def split: prod.splits result.splits option.splits)
  have "list_all2 crash_file (fs_files fs1) (fs_files fs2)" using assms(2) by (simp add: crash_def)
  from list_all2_nthD [OF this a(1)] a(2,3) have empty: "jf_data (fs_files fs2 ! a) = []" by (simp add: crash_file_def)
  have fine: "fine False fs2" by (simp add: fine_iff)
  have refused: "post (replay_journal hc i remote a) (\<lambda>_ _. False) (\<lambda>_ _. \<not> False) u" if "becomes False u (disk_of fs2)" for remote u
    using disk_of_eqD [OF becomesD [OF that]] empty
    by (auto simp: replay_journal_def read_header_def log_read_exact_def post_def io_bind_def io_throw_def fs_call_def split: prod.splits result.splits)
  have remote: "post (x_open E i) (\<lambda>_ _. True) (\<lambda>_ _. True) s" by (rule post_any) simp
  have "post (local_open E hc i) (\<lambda>_ _. False) (\<lambda>_ _. \<not> False \<or> True) (fs2, s)"
    unfolding local_open_def
    apply (rule dir_bind [OF silent_tuple(1) [OF fine]])
    apply (rule dir_bind [OF silent_tuple(1)], assumption)
    apply (rule dir_bind [OF silent_tuple(2)], assumption)
    apply (rule dir_bind [OF silent_tuple(3)], assumption)
    apply (rule store_bind [OF remote])
    apply (rule dir_bind [OF silent_tuple(1)], assumption)
    apply (rule dir_bind [OF open_journal_post [OF _ refl assms(3)]], assumption, elim conjE, simp only: prod.case)
    apply (rule dir_bind [OF log_length_post], assumption, elim conjE, simp only: empty list.size not_less_zero if_False if_True)
    apply (rule dir_bind [OF refused], assumption, erule FalseE)
    done
  then show ?thesis by (cases "local_open E hc i (fs2, s)") (auto simp: post_def split: result.splits)
qed

end
