(* ===== verification/Replication.thy ===== *)
theory Replication
  imports Local_Disk
begin

text \<open>
  Replication of a local journal to its remote volume (\<open>sync_remote\<close> and \<open>replicate\<close> in
  \<open>ahvm-volume/src/local.rs\<close>): the pending blocks are written to a handle of the remote
  volume and committed with a mark, after which the journal is compacted. The remote volume
  is shown to read as the local disk when replication succeeds, and the local disk to be the
  same whatever replication does.
\<close>

section \<open>Writing the pending blocks\<close>

definition pending_blocks :: "(nat \<times> pending) list \<Rightarrow> (nat \<times> bytes) list" where
  "pending_blocks es = map (\<lambda>(i, p). (i, pn_bytes p)) es"

text \<open>The remote handle with the pending blocks on top.\<close>

definition drained :: "local_state \<Rightarrow> indexed" where
  "drained st = (lo_reader st)\<lparr>x_dirty := bt_extend [] (pending_blocks (lo_pending st))\<rparr>"

lemma write_whole_block:
  assumes "length b = CHUNK_BYTES"
  shows "write_loop (x_load_for E vol) (i * CHUNK_BYTES) b 0 [] s = (Ok [(i, b)], s)"
proof -
  have "loop_count (i * CHUNK_BYTES) 0 CHUNK_BYTES = CHUNK_BYTES" by (simp add: loop_count_def)
  moreover have "copy_at (zeros CHUNK_BYTES) 0 b = b" using assms by (simp add: copy_at_def)
  ultimately show ?thesis
    using assms by (subst write_loop.simps, subst write_loop.simps) (simp add: x_load_for_def io_bind_def io_return_def Let_def slice_of_def)
qed

lemma x_write_block:
  assumes b: "length b = CHUNK_BYTES" and i: "i < x_size vol div CHUNK_BYTES" and vol: "x_inv vol" "\<not> x_poisoned vol"
    and room: "Suc (length (x_dirty vol)) * CHUNK_BYTES \<le> DIRTY_LIMIT"
  shows "x_write E (i * CHUNK_BYTES) b (vol, s) = (Ok (), (vol\<lparr>x_dirty := bt_insert i b (x_dirty vol)\<rparr>, s))"
proof -
  have "x_size vol \<le> MAX_SIZE" using vol(1) by (simp add: x_inv_def root_valid_def x_size_def)
  moreover have "Suc i * CHUNK_BYTES \<le> x_size vol" using i by (metis Suc_leI div_times_less_eq_dividend le_trans mult_le_mono1)
  ultimately have check: "x_check vol (i * CHUNK_BYTES) (length b) = Ok ()"
    using b vol(2) by (simp add: x_check_Ok MAX_SIZE_def U64_def)
  have "(i * CHUNK_BYTES + CHUNK_BYTES - 1) div CHUNK_BYTES = i" by (simp add: CHUNK_BYTES_def)
  then have one: "length (filter (\<lambda>j. bt_get (x_dirty vol) j = None) [i * CHUNK_BYTES div CHUNK_BYTES..<(i * CHUNK_BYTES + length b - 1) div CHUNK_BYTES + 1]) \<le> 1"
    using b by simp
  then have "x_dirty_bytes vol + length (filter (\<lambda>j. bt_get (x_dirty vol) j = None)
      [i * CHUNK_BYTES div CHUNK_BYTES..<(i * CHUNK_BYTES + length b - 1) div CHUNK_BYTES + 1]) * CHUNK_BYTES \<le> Suc (length (x_dirty vol)) * CHUNK_BYTES"
    using mult_le_mono1 [OF one, of CHUNK_BYTES] by (simp only: x_dirty_bytes_def mult_Suc)
  then have fits: "\<not> DIRTY_LIMIT < x_dirty_bytes vol + length (filter (\<lambda>j. bt_get (x_dirty vol) j = None)
      [i * CHUNK_BYTES div CHUNK_BYTES..<(i * CHUNK_BYTES + length b - 1) div CHUNK_BYTES + 1]) * CHUNK_BYTES" using room by linarith
  have "\<not> WRITE_LIMIT < length b" "b \<noteq> []" using b by (auto simp: WRITE_LIMIT_def CHUNK_BYTES_def)
  then show ?thesis
    unfolding x_write_def Let_def using check fits write_whole_block [OF b, of E vol i s]
    by (simp add: io_bind_def get_self_def io_lift_def io_return_def lift_world_def set_self_def bt_extend_def del: One_nat_def)
qed

lemma bt_insert_bound: "length (bt_insert k v m) \<le> Suc (length m)"
  by (induction k v m rule: bt_insert.induct) auto

lemma inserted_inv:
  assumes "x_inv vol" "i < x_size vol div CHUNK_BYTES" "length b = CHUNK_BYTES"
  shows "x_inv (vol\<lparr>x_dirty := bt_insert i b (x_dirty vol)\<rparr>)"
proof -
  have ok: "bt_ok (x_dirty vol)" using assms(1) by (simp add: x_inv_def)
  then have "j < x_size vol div CHUNK_BYTES \<and> length c = CHUNK_BYTES" if "(j, c) \<in> set (bt_insert i b (x_dirty vol))" for j c
    using that assms(2,3) x_inv_dirty [OF assms(1), of j c] bt.get_entries [OF bt.inv_put [OF ok]] by (auto simp: bt.get_put split: if_splits)
  then show ?thesis using assms(1) bt.inv_put [OF ok] by (auto simp: x_inv_def x_size_def)
qed

lemma write_entries_run:
  assumes "x_inv vol" "\<not> x_poisoned vol" "\<forall>(i, p) \<in> set es. i < x_size vol div CHUNK_BYTES \<and> length (pn_bytes p) = CHUNK_BYTES"
    and "(length (x_dirty vol) + length es) * CHUNK_BYTES \<le> DIRTY_LIMIT"
  shows "write_entries E es vol (st, f, s) = (Ok (vol\<lparr>x_dirty := bt_extend (x_dirty vol) (pending_blocks es)\<rparr>), (st, f, s))"
  using assms
proof (induction es arbitrary: vol)
  case Nil
  then show ?case by (simp add: io_return_def pending_blocks_def bt_extend_def)
next
  case (Cons e es)
  obtain i p where e: "e = (i, p)" by force
  have ip: "i < x_size vol div CHUNK_BYTES" "length (pn_bytes p) = CHUNK_BYTES" using Cons.prems(3) e by simp_all
  let ?v = "vol\<lparr>x_dirty := bt_insert i (pn_bytes p) (x_dirty vol)\<rparr>"
  have "Suc (length (x_dirty vol)) * CHUNK_BYTES \<le> (length (x_dirty vol) + length (e # es)) * CHUNK_BYTES" by (rule mult_le_mono1) simp
  then have step: "x_write E (i * CHUNK_BYTES) (pn_bytes p) (vol, s) = (Ok (), (?v, s))"
    using Cons.prems(4) by (intro x_write_block [OF ip(2,1) Cons.prems(1,2)]) (rule le_trans)
  have "(length (x_dirty ?v) + length es) * CHUNK_BYTES \<le> (length (x_dirty vol) + length (e # es)) * CHUNK_BYTES"
    using bt_insert_bound [of i "pn_bytes p" "x_dirty vol"] by (intro mult_le_mono1) simp
  then have "write_entries E es ?v (st, f, s) = (Ok (?v\<lparr>x_dirty := bt_extend (x_dirty ?v) (pending_blocks es)\<rparr>), (st, f, s))"
    using Cons.prems(2-4) inserted_inv [OF Cons.prems(1) ip] by (intro Cons.IH) (auto simp: x_size_def)
  then show ?case
    using step e by (simp add: io_bind_def on_remote_def pending_blocks_def bt_extend_def)
qed

lemma pending_blocks_get: "bt_get (pending_blocks es) i = map_option pn_bytes (bt_get es i)"
  by (induction es) (auto simp: pending_blocks_def)

lemma pending_blocks_ok: "bt_ok es \<Longrightarrow> bt_ok (pending_blocks es)"
  by (simp add: bt_ok_def pending_blocks_def comp_def case_prod_beta)

lemma drained_dirty: "bt_ok (lo_pending st) \<Longrightarrow> bt_get (x_dirty (drained st)) i = map_option pn_bytes (bt_get (lo_pending st) i)"
  using bt_get_extend [of "[]" "pending_blocks (lo_pending st)" i] pending_blocks_ok
  by (simp add: drained_def pending_blocks_get bt.inv_emp split: option.split)

lemma drained_disk:
  assumes "state_ok hc st"
  shows "xdisk X B (drained st) = ldisk X B st"
proof -
  note d = state_okD [OF assms]
  have root: "x_root (drained st) = x_root (lo_reader st)" "x_base (drained st) = x_base (lo_reader st)" by (simp_all add: drained_def)
  have "xblock X B (drained st) i = lblock X B st i" for i
    unfolding xblock_def drained_dirty [OF d(2)] lblock_def view_cong(3) [OF root] using d(12) by (simp split: option.split)
  then have "xblock X B (drained st) = lblock X B st" by (rule ext)
  then show ?thesis by (simp add: xdisk_def ldisk_def local_size_def x_size_def root)
qed

lemma drained_inv:
  assumes "state_ok hc st"
  shows "x_inv (drained st)" "\<not> x_poisoned (drained st)"
proof -
  note d = state_okD [OF assms]
  have ok: "bt_ok (x_dirty (drained st))" by (simp add: drained_def bt.inv_emp)
  have "i < x_size (lo_reader st) div CHUNK_BYTES \<and> length b = CHUNK_BYTES" if "(i, b) \<in> set (x_dirty (drained st))" for i b
  proof -
    have "bt_get (x_dirty (drained st)) i = Some b" using that bt.get_entries [OF ok] by blast
    then obtain p where p: "bt_get (lo_pending st) i = Some p" "b = pn_bytes p" using drained_dirty [OF d(2)] by auto
    then show ?thesis using d(3) [OF map_of_SomeD [OF p(1)]] by (simp add: record_ok_def)
  qed
  then show "x_inv (drained st)" using d(11) ok by (auto simp: x_inv_def drained_def x_size_def)
  show "\<not> x_poisoned (drained st)" using d(13) by (simp add: drained_def)
qed

lemma write_pending_run:
  assumes "state_ok hc st"
  shows "write_entries E (lo_pending st) (lo_reader st) w = (Ok (drained st), w)"
proof -
  note d = state_okD [OF assms]
  have "\<forall>(i, p) \<in> set (lo_pending st). i < x_size (lo_reader st) div CHUNK_BYTES \<and> length (pn_bytes p) = CHUNK_BYTES"
    using d(3) by (auto simp: record_ok_def)
  then show ?thesis
    using write_entries_run [OF d(11,13), of "lo_pending st" E] d(4,12) by (cases w) (simp add: drained_def)
qed

lemma accept_same:
  assumes "state_ok hc st"
  shows "log_accept (lo_reader st) (st, w) = (Ok (), (st, w))"
proof -
  note d = state_okD [OF assms]
  have "bt_retain (\<lambda>_ p. lh_acknowledged (lo_header st) < pn_sequence p) (lo_pending st) = lo_pending st"
    unfolding bt_retain_def using d(3) by (intro filter_True) (auto simp: acknowledged_def)
  then show ?thesis using d(9) by (simp add: log_accept_def io_bind_def io_lift_def get_self_def set_self_def)
qed

section \<open>Replication\<close>

lemma post_on_remote: "post (on_remote m vol) Q F (st, f, s)
    = post m (\<lambda>x (vol', s'). Q (x, vol') (st, f, s')) (\<lambda>e (vol', s'). F e (st, f, s')) (vol, s)"
  by (simp add: post_def on_remote_def split: prod.split result.split)

lemma post_bind_run: "m w = (Ok x, w') \<Longrightarrow> post (io_bind m f) Q F w = post (f x) Q F w'"
  by (simp add: post_bind) (simp add: post_def)

lemma log_compact_flags:
  "post (log_compact hc) (\<lambda>_ (st', u, s'). lo_failed st' = lo_failed st \<and> header_fits hc (lo_header st') = header_fits hc (lo_header st))
     (\<lambda>_ (st', u, s'). lo_failed st') (st, fs, s)"
proof -
  have "header_fits hc (h\<lparr>lh_sequence := q\<rparr>) = header_fits hc h" for h q by (simp add: header_fits_def)
  then have "post (compact_inner hc) (\<lambda>_ (st', u, s'). lo_failed st' = lo_failed st \<and> header_fits hc (lo_header st') = header_fits hc (lo_header st))
      (\<lambda>_ _. True) (st, fs, s)"
    unfolding compact_inner_def by (intro any_files_bind self_bind) (simp_all add: post_set_self)
  then show ?thesis unfolding log_compact_def post_set_failed by (rule post_mono) auto
qed

context indexed_store
begin

lemma commit_replication_post:
  assumes s: "ok s" and full: "x_complete dg (objs s) B vol" and pk: "packed vol" and inv: "x_inv vol"
    and U: "digest_sound dg (commit_objects dg False (objs s) B vol)"
  shows "post (commit_replication E mark)
    (\<lambda>g w. \<exists>nxt. rt_replication nxt = Some mark \<and> committed vol nxt s g w) (commit_failed vol s) (vol, s)"
proof (cases "\<not> valid_hash (rp_id mark) \<or> rp_sequence mark = 0")
  case True
  then show ?thesis using commit_failed_quiet [OF same_grows [OF same_refl [OF s]] full] by (simp add: commit_replication_def post_throw)
next
  case False
  have go: "post (commit_inner E end_at (Some mark) WORKERS) (\<lambda>g w. \<exists>nxt. rt_replication nxt = Some mark \<and> committed vol nxt s g w) (commit_failed vol s) (vol, t)"
    if t: "same s t" for t end_at
  proof -
    have e: "objs t = objs s" "heads t = heads s" "ok t" using t by (simp_all add: same_def)
    have eq: "committed vol nx t g w = committed vol nx s g w" "commit_failed vol t = commit_failed vol s" for nx g w
      by (simp_all add: committed_def commit_failed_def replaced_def renamed_def e fun_eq_iff split: prod.split)
    show ?thesis
      using commit_inner_post [of t vol WORKERS "Some mark" end_at] e full pk inv U False
      by (auto simp: eq WORKERS_def marked_root_def elim!: post_mono)
  qed
  show ?thesis
    using False unfolding commit_replication_def post_if post_bind post_lift_world
    by (auto intro!: post_mono [OF clock_same [OF same_refl [OF s]]] go commit_failed_quiet [OF same_grows full])
qed

lemma journal_sync_post:
  assumes j: "journaled hc st fs h recs m" and nf: "\<not> lo_failed st"
  shows "post (set_failed (lift_world (on_files (file_sync (lo_file st)))))
    (\<lambda>_ (st', u, t). t = s \<and> st' = st \<and> journaled hc (st\<lparr>lo_local_sequence := lo_sequence st\<rparr>) u h recs (length recs))
    (\<lambda>_ (st', u, t). t = s \<and> core st' = core st \<and> lo_failed st') (st, fs, s)"
proof -
  have check: "log_check st 0 0 = Ok ()" using nf by (simp add: log_check_Ok U64_def)
  have "post local_flush
    (\<lambda>_ (st', u, t). t = s \<and> fine False u \<and> \<not> lo_failed st' \<and> st' = st\<lparr>lo_local_sequence := lo_sequence st\<rparr> \<and> journaled hc st' u h recs (length recs))
    (\<lambda>_ (st', u, t). t = s \<and> core st' = core st \<and> lo_failed st') (st, fs, s)"
    by (rule local_flush_post [OF j]) (simp add: fine_iff)
  then show ?thesis
    unfolding local_flush_def post_bind [of get_self] post_get_self fst_conv check io_bind_return_Ok
    unfolding post_bind post_set_failed post_lift_world post_on_files snd_conv fst_conv
    by (elim post_mono) (auto simp: post_get_self post_set_self)
qed

text \<open>A state of replication: the remote volume that the reader shows is the one in the store.\<close>

definition replica :: "'s \<Rightarrow> local_state \<Rightarrow> bool" where
  "replica s st \<longleftrightarrow> ok s \<and> x_complete dg (objs s) B (lo_reader st) \<and> packed (lo_reader st)
     \<and> x_inv (lo_reader st) \<and> x_dirty (lo_reader st) = [] \<and> \<not> x_poisoned (lo_reader st)
     \<and> current E (heads s) (lo_reader st) \<and> catalog_current dg B (lo_reader st)"

lemma replica_open:
  assumes r: "replica s st"
  shows "post (x_open E (rt_volume (x_root (lo_reader st)))) (\<lambda>w t. w = lo_reader st \<and> same s t) (\<lambda>_. same s) s"
proof -
  obtain mf where mf: "heads s (rt_volume (x_root (lo_reader st))) = Some \<lparr>h_revision = x_revision (lo_reader st), h_manifest = mf\<rparr>"
      "c_to_vec (ix_codec E) (x_root (lo_reader st)) = Some mf" using r by (auto simp: replica_def current_def)
  have "(lo_reader st)\<lparr>x_poisoned := False\<rparr> = lo_reader st" using r by (cases "lo_reader st") (simp add: replica_def)
  then show ?thesis
    using reopen [OF _ _ _ _ mf] r by (simp add: replica_def catalog_current_def)
qed

text \<open>The state after a commit was accepted: the new reader, and what is pending beyond the mark.\<close>

lemma committed_renamed:
  assumes st: "state_ok hc st" "lo_pending st \<noteq> []" and c: "committed (drained st) nxt s g (remote, t)" and cur: "current E (heads s) (lo_reader st)"
    and mark: "rt_replication nxt = Some \<lparr>rp_id = lh_id (lo_header st), rp_sequence = lo_sequence st\<rparr>"
  shows "x_revision remote \<noteq> x_revision (lo_reader st)"
proof -
  note d = state_okD [OF st(1)]
  obtain i p where p: "(i, p) \<in> set (lo_pending st)" using st(2) by (cases "lo_pending st") auto
  have new: "rt_replication (x_root remote) \<noteq> rt_replication (x_root (lo_reader st))"
    using d(3) [OF p] d(10) [of "\<lparr>rp_id = lh_id (lo_header st), rp_sequence = lo_sequence st\<rparr>"] c mark by (auto simp: committed_def)
  obtain mf where mf: "c_to_vec (ix_codec E) (x_root (lo_reader st)) = Some mf"
      "heads s (rt_volume (x_root (lo_reader st))) = Some \<lparr>h_revision = x_revision (lo_reader st), h_manifest = mf\<rparr>" using cur by (auto simp: current_def)
  have "c_to_vec (ix_codec E) (x_root remote) \<noteq> Some mf"
  proof
    assume a: "c_to_vec (ix_codec E) (x_root remote) = Some mf"
    have "root_wf (x_root remote)" "root_wf (x_root (lo_reader st))" using c d(11) by (auto simp: committed_def x_inv_def root_wf_def)
    then have "x_root remote = x_root (lo_reader st)" using codec a mf(1) unfolding codec_ok_def by (metis option.inject)
    then show False using new by simp
  qed
  then show ?thesis using c new mf(2) by (auto simp: committed_def renamed_def drained_def)
qed

lemma accept_committed:
  assumes st: "state_ok hc st" "lo_pending st \<noteq> []" and cur: "current E (heads s) (lo_reader st)" and c: "committed (drained st) nxt s g (remote, t)"
    and mark: "rt_replication nxt = Some \<lparr>rp_id = lh_id (lo_header st), rp_sequence = lo_sequence st\<rparr>"
  shows "\<exists>st'. log_accept remote (st, w) = (Ok (), (st', w)) \<and> lo_reader st' = remote \<and> lo_failed st' = lo_failed st
    \<and> ldisk (objs t) B st' = ldisk (objs s) B st
    \<and> lo_pending st' = [] \<and> (header_fits hc (lo_header st') \<longrightarrow> state_ok hc st')"
proof -
  note d = state_okD [OF st(1)]
  have c': "rt_replication (x_root remote) = Some \<lparr>rp_id = lh_id (lo_header st), rp_sequence = lo_sequence st\<rparr>" "x_inv remote" "x_dirty remote = []"
      "\<not> x_poisoned remote" "x_size remote = x_size (lo_reader st)" "rt_volume (x_root remote) = rt_volume (x_root (lo_reader st))"
      "xdisk (objs t) B remote = ldisk (objs s) B st"
    using c mark drained_inv(2) [OF st(1)] drained_disk [OF st(1)] by (simp_all add: committed_def drained_def x_size_def)
  define ack where "ack = (if x_revision remote = lh_base (lo_header st) then lh_acknowledged (lo_header st) else lo_sequence st)"
  define st' where "st' = st\<lparr>lo_header := (lo_header st)\<lparr>lh_base := x_revision remote, lh_acknowledged := ack\<rparr>,
      lo_pending := bt_retain (\<lambda>_ p. ack < pn_sequence p) (lo_pending st), lo_reader := remote\<rparr>"
  have run: "log_accept remote (st, w) = (Ok (), (st', w))"
    using d(5) c'(1) by (simp add: log_accept_def io_bind_def io_lift_def get_self_def set_self_def st'_def ack_def acknowledged_def)
  have size: "local_size st' = x_size remote" "local_size st = x_size remote" by (simp_all add: local_size_def st'_def c'(5))
  have byte: "dbyte (lblock (objs t) B st') p = dbyte (lblock (objs s) B st) p" if "p < x_size remote" for p
  proof (cases "bt_get (lo_pending st') (p div CHUNK_BYTES)")
    case None
    have "dbyte (xblock (objs t) B remote) p = xdisk (objs t) B remote ! p" using that by (simp add: xdisk_def)
    also have "\<dots> = dbyte (lblock (objs s) B st) p" unfolding c'(7) ldisk_def using that size(2) by simp
    finally show ?thesis using None by (simp add: dbyte_def lblock_def [of "objs t"]) (simp add: st'_def)
  next
    case (Some q)
    then have "bt_get (lo_pending st) (p div CHUNK_BYTES) = Some q"
      using bt.get_entries [OF d(2)] map_of_SomeD [OF Some] by (auto simp: st'_def bt_retain_def)
    then show ?thesis using Some by (simp add: dbyte_def lblock_def)
  qed
  have disk: "ldisk (objs t) B st' = ldisk (objs s) B st"
    unfolding ldisk_def size by (rule dextent_eqI) (rule byte)
  have new: "lo_pending st' = [] \<and> (header_fits hc (lo_header st') \<longrightarrow> state_ok hc st')"
  proof -
    have "ack = lo_sequence st" using committed_renamed [OF st c cur mark] d(9) by (simp add: ack_def)
    then have "lo_pending st' = []" using d(3) by (fastforce simp: st'_def bt_retain_def filter_empty_conv)
    then show ?thesis
      using d(6-8) c' \<open>ack = lo_sequence st\<close> by (auto simp: state_ok_def st'_def acknowledged_def bt.inv_emp)
  qed
  have "lo_reader st' = remote" "lo_failed st' = lo_failed st" by (simp_all add: st'_def)
  with run disk new show ?thesis by blast
qed

text \<open>The two ends of replication.\<close>

definition replicated :: "log_header codec \<Rightarrow> local_state \<Rightarrow> 's \<Rightarrow> local_status \<Rightarrow> local_state \<times> jfs \<times> 's \<Rightarrow> bool" where
  "replicated hc st s r = (\<lambda>(st', u, t). r = log_status st' \<and> \<not> lo_failed st' \<and> objs_le (objs s) (objs t) \<and> replica t st'
     \<and> xdisk (objs t) B (lo_reader st') = ldisk (objs s) B st \<and> ldisk (objs t) B st' = ldisk (objs s) B st
     \<and> lo_pending st' = [] \<and> (header_fits hc (lo_header st') \<longrightarrow> (\<exists>h recs m. journaled hc st' u h recs m)))"

definition unreplicated :: "log_header codec \<Rightarrow> local_state \<Rightarrow> 's \<Rightarrow> local_state \<times> jfs \<times> 's \<Rightarrow> bool" where
  "unreplicated hc st s = (\<lambda>(st', u, t). ok t \<and> objs_le (objs s) (objs t) \<and> ldisk (objs t) B st' = ldisk (objs s) B st
     \<and> (lo_failed st' \<or> (\<exists>h recs m. journaled hc st' u h recs m)))"

lemma disk_grows:
  assumes "x_complete dg (objs s) B (lo_reader st)" "objs_le (objs s) (objs t)"
  shows "ldisk (objs t) B st = ldisk (objs s) B st"
proof -
  have "xblock (objs t) B (lo_reader st) = xblock (objs s) B (lo_reader st)"
    using complete_mono(2) [OF assms(1,2)] by (simp add: xblock_def fun_eq_iff split: option.split)
  then show ?thesis by (simp only: ldisk_def lblock_def [abs_def])
qed

lemma committed_current:
  assumes "current E (heads s) vol" "committed vol nxt s g (vol', s')"
  shows "current E (heads s') vol'"
proof (cases "x_root vol' = x_root vol \<and> x_revision vol' = x_revision vol \<and> heads s' = heads s")
  case True
  then show ?thesis using assms(1) by (simp add: current_def)
next
  case False
  then show ?thesis using assms(2) unfolding current_def committed_def replaced_def prod.case by auto
qed

lemma replicate_finish:
  assumes r: "replica s st" and st: "state_ok hc st" "lo_pending st \<noteq> []" "\<not> lo_failed st" and hc: "codec_ok (\<lambda>_. True) hc"
    and c: "committed (drained st) nxt s g (remote, t)"
    and mark: "rt_replication nxt = Some \<lparr>rp_id = lh_id (lo_header st), rp_sequence = lo_sequence st\<rparr>"
  shows "post (io_bind (log_accept remote) (\<lambda>_. io_bind (set_failed (log_compact hc)) (\<lambda>_. io_bind get_self (\<lambda>st3. io_return (log_status st3)))))
    (replicated hc st s) (\<lambda>_. unreplicated hc st s) (st, u, t)"
proof -
  obtain st' where st': "log_accept remote (st, u, t) = (Ok (), (st', u, t))" "lo_reader st' = remote" "\<not> lo_failed st'"
      "ldisk (objs t) B st' = ldisk (objs s) B st"
      "lo_pending st' = []" "header_fits hc (lo_header st') \<longrightarrow> state_ok hc st'"
    using accept_committed [OF st(1,2) _ c mark, of "(u, t)"] st(3) r by (auto simp: replica_def)
  have c': "ok t" "objs_le (objs s) (objs t)" "x_complete dg (objs t) B remote" "packed remote" "x_base remote = x_base (lo_reader st)"
      "rt_base (x_root remote) = rt_base (x_root (lo_reader st))" "xdisk (objs t) B remote = ldisk (objs s) B st"
      "x_inv remote" "x_dirty remote = []" "\<not> x_poisoned remote"
    using c drained_disk [OF st(1)] drained_inv(2) [OF st(1)] by (simp_all add: committed_def drained_def)
  have cur: "current E (heads t) remote"
    by (rule committed_current [OF _ c]) (use r in \<open>simp add: replica_def current_def drained_def\<close>)
  have rep: "replica t st''" if "lo_reader st'' = remote" for st''
    using c' cur r that by (simp add: replica_def catalog_current_def)
  have core: "post (log_compact hc) (\<lambda>_ (st'', u, t'). core st'' = core st' \<and> t' = t \<and> \<not> lo_failed st'')
      (\<lambda>_ (st'', u, t'). core st'' = core st' \<and> t' = t \<and> lo_failed st'') (st', u, t)"
    by (rule post_mono [OF post_conj [OF log_compact_core log_compact_flags]]) (use st'(3) in auto)
  have post: "post (log_compact hc) (\<lambda>_ (st'', v, t'). header_fits hc (lo_header st'') \<longrightarrow> (\<exists>h recs m. journaled hc st'' v h recs m)) (\<lambda>_ _. True) (st', u, t)"
  proof (cases "header_fits hc (lo_header st')")
    case True
    have "post (log_compact hc) (\<lambda>_ (st'', v, t'). t' = t \<and> fine False v \<and> st'' = renewed st' (length (fs_files u))
        \<and> journaled hc st'' v (lo_header st'') (sorted_entries (lo_pending st')) (length (lo_pending st'))) (\<lambda>_ _. \<not> False) (st', u, t)"
      by (rule log_compact_post [OF hc]) (use st'(6) True in \<open>simp_all add: fine_iff\<close>)
    then show ?thesis by (rule post_mono) auto
  next
    case False
    then show ?thesis by (intro post_mono [OF log_compact_flags]) auto
  qed
  have keep: "ldisk X B st'' = ldisk X B st'" "lo_reader st'' = remote" "lo_pending st'' = lo_pending st'" if "core st'' = core st'" for X st''
    using that st'(2) by (auto simp: core_def intro: ldisk_cong)
  have go: "post (set_failed (log_compact hc)) (\<lambda>_ w. replicated hc st s (log_status (fst w)) w) (\<lambda>_. unreplicated hc st s) (st', u, t)"
  proof -
    have ends: "replicated hc st s (log_status st'') (st'', v, t)"
      if "core st'' = core st'" "\<not> lo_failed st''" "header_fits hc (lo_header st'') \<longrightarrow> (\<exists>h recs m. journaled hc st'' v h recs m)" for st'' v
      using that(2,3) keep [OF that(1)] rep c' st'(4,5) by (simp add: replicated_def)
    have fails: "unreplicated hc st s (st''\<lparr>lo_failed := True\<rparr>, v, t)" if "core st'' = core st'" for st'' v
    proof -
      have "ldisk (objs t) B (st''\<lparr>lo_failed := True\<rparr>) = ldisk (objs t) B st''" by (rule ldisk_cong) simp_all
      then show ?thesis using keep [OF that] c' st'(4) by (simp add: unreplicated_def)
    qed
    have "post (log_compact hc) (\<lambda>_ (st'', v, t'). core st'' = core st' \<and> t' = t \<and> \<not> lo_failed st''
        \<and> (header_fits hc (lo_header st'') \<longrightarrow> (\<exists>h recs m. journaled hc st'' v h recs m)))
      (\<lambda>_ (st'', u, t'). core st'' = core st' \<and> t' = t) (st', u, t)"
      by (rule post_mono [OF post_conj [OF core post]]) auto
    then show ?thesis
      unfolding post_set_failed by (rule post_mono) (auto intro!: ends fails, blast)
  qed
  show ?thesis
    unfolding post_bind_run [of "log_accept remote", OF st'(1)] post_bind [of "set_failed _"]
    by (rule post_mono [OF go]) (auto simp: post_bind post_get_self post_return)
qed

lemma unreplicated_grown:
  assumes "replica s st" "core st' = core st" "ok t" "objs_le (objs s) (objs t)" "lo_failed st' \<or> (\<exists>h recs m. journaled hc st' u h recs m)"
  shows "unreplicated hc st s (st', u, t)"
proof -
  have "ldisk (objs t) B st' = ldisk (objs t) B st" using assms(2) by (auto simp: core_def intro: ldisk_cong)
  then show ?thesis using assms disk_grows [OF _ assms(4), of st] by (simp add: unreplicated_def replica_def)
qed

text \<open>The part of replication after the journal is synced.\<close>

definition replicate_end :: "log_header codec \<Rightarrow> indexed \<Rightarrow> ('s local_io, local_status, verror) io" where
  "replicate_end hc remote = io_bind (log_accept remote) (\<lambda>_. io_bind (set_failed (log_compact hc)) (\<lambda>_.
     io_bind get_self (\<lambda>st3. io_return (log_status st3))))"

lemma replicate_commit:
  assumes r: "replica s st" and j: "journaled hc st u h recs m" and st: "lo_pending st \<noteq> []" "\<not> lo_failed st" and hc: "codec_ok (\<lambda>_. True) hc"
    and U: "digest_sound dg (commit_objects dg False (objs s) B (drained st))"
  shows "post (io_bind (write_entries E (lo_pending st) (lo_reader st)) (\<lambda>remote1.
      io_bind (on_remote (commit_replication E \<lparr>rp_id = lh_id (lo_header st), rp_sequence = lo_sequence st\<rparr>) remote1) (\<lambda>(_, remote2). replicate_end hc remote2)))
    (replicated hc st s) (\<lambda>_. unreplicated hc st s) (st, u, s)"
proof -
  have s: "state_ok hc st" using journaledD(1) [OF j] .
  let ?mark = "\<lparr>rp_id = lh_id (lo_header st), rp_sequence = lo_sequence st\<rparr>"
  have full: "ok s" "x_complete dg (objs s) B (drained st)" "packed (drained st)"
    using r view_cong(4) [of "drained st" "lo_reader st"] by (simp_all add: replica_def drained_def packed_def)
  have "post (commit_replication E ?mark) (\<lambda>x (remote, t). post (replicate_end hc remote) (replicated hc st s) (\<lambda>_. unreplicated hc st s) (st, u, t))
      (\<lambda>e (_, t). unreplicated hc st s (st, u, t)) (drained st, s)"
  proof (rule post_mono [OF commit_replication_post [OF full drained_inv(1) [OF s] U]])
    fix g w
    assume "\<exists>nxt. rt_replication nxt = Some ?mark \<and> committed (drained st) nxt s g w"
    then obtain nxt remote t where c: "w = (remote, t)" "rt_replication nxt = Some ?mark" "committed (drained st) nxt s g (remote, t)" by (cases w) auto
    show "case w of (remote, t) \<Rightarrow> post (replicate_end hc remote) (replicated hc st s) (\<lambda>_. unreplicated hc st s) (st, u, t)"
      unfolding c(1) prod.case replicate_end_def by (rule replicate_finish [OF r s st hc c(3,2)])
  next
    fix e w
    assume "commit_failed (drained st) s e w"
    then obtain v t where "w = (v, t)" "ok t" "objs_le (objs s) (objs t)" by (cases w) (auto simp: commit_failed_def)
    then show "case w of (_, t) \<Rightarrow> unreplicated hc st s (st, u, t)" using unreplicated_grown [OF r refl, of t hc u] j by auto
  qed
  then show ?thesis
    unfolding post_bind_run [OF write_pending_run [OF s]] post_bind [of "on_remote _ _"] post_on_remote by (simp add: case_prod_beta)
qed

lemma local_replicate_post:
  assumes r: "replica s st" and j: "journaled hc st fs h recs m" and hc: "codec_ok (\<lambda>_. True) hc"
    and U: "digest_sound dg (commit_objects dg False (objs s) B (drained st))"
  shows "post (local_replicate E hc (rt_volume (x_root (lo_reader st)))) (replicated hc st s) (\<lambda>_. unreplicated hc st s) (st, fs, s)"
proof -
  have st: "state_ok hc st" using journaledD(1) [OF j] .
  note d = state_okD [OF st]
  have ok: "ok s" using r by (simp add: replica_def)
  have q0: "unreplicated hc st s (st, fs, t)" if "same s t" for t
    by (rule unreplicated_grown [OF r refl]) (use j that in \<open>auto simp: same_def\<close>)
  consider (bad) e where "log_check st 0 0 = Err e" | (idle) "log_check st 0 0 = Ok ()" "lo_pending st = []"
    | (go) "log_check st 0 0 = Ok ()" "lo_pending st \<noteq> []" by (cases "log_check st 0 0") auto
  then show ?thesis
  proof cases
    case bad
    then show ?thesis using q0 [OF same_refl [OF ok]] by (simp add: local_replicate_def post_simps)
  next
    case idle
    then have "drained st = lo_reader st" using d(12) by (cases "lo_reader st") (simp add: drained_def pending_blocks_def bt_extend_def)
    then have "replicated hc st s (log_status st) (st, fs, s)"
      using r j idle drained_disk [OF st, of "objs s" B] by (auto simp: replicated_def log_check_Ok)
    then show ?thesis using idle by (simp add: local_replicate_def post_simps)
  next
    case go
    then have nf: "\<not> lo_failed st" by (simp add: log_check_Ok)
    define st2 where "st2 = st\<lparr>lo_local_sequence := lo_sequence st\<rparr>"
    have same2: "lo_pending st2 = lo_pending st" "lo_reader st2 = lo_reader st" "lo_header st2 = lo_header st" "lo_sequence st2 = lo_sequence st"
        "lo_failed st2 = lo_failed st" "drained st2 = drained st" by (simp_all add: st2_def drained_def)
    have ld: "ldisk X B st2 = ldisk X B st" for X by (rule ldisk_cong) (simp_all add: same2)
    have commit: "post (io_bind (write_entries E (lo_pending st2) (lo_reader st)) (\<lambda>remote1.
        io_bind (on_remote (commit_replication E \<lparr>rp_id = lh_id (lo_header st2), rp_sequence = lo_sequence st2\<rparr>) remote1) (\<lambda>(_, remote2). replicate_end hc remote2)))
        (replicated hc st s) (\<lambda>_. unreplicated hc st s) (st2, u, t)"
      if t: "same s t" and j2: "journaled hc st2 u h recs (length recs)" for u t
    proof -
      have t': "ok t" "objs t = objs s" "heads t = heads s" using t by (simp_all add: same_def)
      have "replica t st2" using r t' by (simp add: replica_def same2)
      moreover have "replicated hc st2 t = replicated hc st s" "unreplicated hc st2 t = unreplicated hc st s"
        by (simp_all add: replicated_def unreplicated_def t' ld same2 fun_eq_iff)
      ultimately show ?thesis
        using replicate_commit [OF _ j2 _ _ hc, of t] go(2) nf U t'(2) by (simp add: same2)
    qed
    have tail: "post (io_bind (set_failed (log_accept (lo_reader st))) (\<lambda>_.
         io_bind get_self (\<lambda>st1.
         io_bind (set_failed (lift_world (on_files (file_sync (lo_file st1))))) (\<lambda>_.
         io_bind (set_self (st1\<lparr>lo_local_sequence := lo_sequence st1\<rparr>)) (\<lambda>_.
         io_bind get_self (\<lambda>st2.
         if lo_pending st2 = [] then io_bind (log_compact hc) (\<lambda>_. io_bind get_self (\<lambda>st3. io_return (log_status st3)))
         else
           io_bind (write_entries E (lo_pending st2) (lo_reader st)) (\<lambda>remote1.
           io_bind (on_remote (commit_replication E \<lparr>rp_id = lh_id (lo_header st2), rp_sequence = lo_sequence st2\<rparr>) remote1) (\<lambda>(_, remote2).
           replicate_end hc remote2)))))))) (replicated hc st s) (\<lambda>_. unreplicated hc st s) (st, fs, t)" if t: "same s t" for t
    proof -
      have acc: "set_failed (log_accept (lo_reader st)) (st, fs, t) = (Ok (), (st, fs, t))"
        by (simp add: set_failed_def accept_same [OF st])
      have q: "unreplicated hc st s (st', u, t)" if "core st' = core st" "lo_failed st'" for st' u
        by (rule unreplicated_grown [OF r that(1)]) (use t that in \<open>auto simp: same_def\<close>)
      show ?thesis
        unfolding post_bind_run [of "set_failed (log_accept (lo_reader st))", OF acc] post_bind [of get_self] post_get_self fst_conv
        unfolding post_bind [of "set_failed _"]
        by (rule post_mono [OF journal_sync_post [OF j nf]])
           (use commit [OF t, folded st2_def] go(2) q in \<open>auto simp: post_bind [of "set_self _"] post_set_self same2 st2_def [symmetric] intro!: self_bind(1)\<close>)
    qed
    show ?thesis
      unfolding local_replicate_def post_bind [of get_self] post_get_self fst_conv go(1) io_bind_return_Ok if_not_P [OF go(2)]
      unfolding post_bind [of "lift_world (lift_world (x_open _ _))"] post_lift_world
      by (rule post_mono [OF replica_open [OF r]])
         (use tail [unfolded replicate_end_def] q0 clean_copy_same [OF d(13,12)] in \<open>auto simp: io_bind_return_Ok\<close>)
  qed
qed

end

section \<open>Properties\<close>

lemma failed_flag: "journaled hc (st\<lparr>lo_replication_failed := b\<rparr>) = journaled hc st"
    "ldisk X B (st\<lparr>lo_replication_failed := b\<rparr>) = ldisk X B st"
  by (simp_all add: fun_eq_iff journaled_def state_ok_def reconciled_def acknowledged_def) (rule ldisk_cong; simp)

lemma post_sync_remote: "post (sync_remote E hc i) Q F ls = post (local_replicate E hc i)
    (\<lambda>_ (st, w). Q (log_status (st\<lparr>lo_replication_failed := False\<rparr>)) (st\<lparr>lo_replication_failed := False\<rparr>, w))
    (\<lambda>e (st, w). F e (st\<lparr>lo_replication_failed := True\<rparr>, w)) ls"
  by (simp add: post_def sync_remote_def Let_def split: prod.split result.split)



end
