(* ===== verification/Owned.thy ===== *)
theory Owned
  imports Indexed_Ops Reclaim
begin

text \<open>
  Exclusive writer ownership (\<open>ahvm-volume/src/owned.rs\<close>): the head of an enrolled volume
  is an envelope around the root with an epoch and the token of the owner, replaced by the
  same conditional write as the data. The operations are those of the adapter between a
  volume and its store, of claiming, releasing, enrolling and retiring, and of the disk on
  top. They run over a raw store whose calls may let other hosts act in between.
\<close>

section \<open>Envelopes and identities\<close>

record 'j envelope =
  ev_format :: nat
  ev_volume :: string
  ev_epoch :: nat
  ev_owner :: "string option"
  ev_manifest :: 'j

record identity =
  id_volume :: string
  id_token :: string
  id_epoch :: nat

text \<open>The JSON library: documents, members that the code looks at, and the serialised types.\<close>

record 'j own_codec =
  oc_tomb :: "'j tomb_codec"
  oc_print :: "'j \<Rightarrow> bytes option"
  oc_format :: "'j \<Rightarrow> nat option"
  oc_ready :: "'j \<Rightarrow> bool"
  oc_size :: "'j \<Rightarrow> nat option"
  oc_envelope :: "'j \<Rightarrow> 'j envelope option"
  oc_encode :: "'j envelope \<Rightarrow> bytes option"
  oc_identity :: "bytes \<Rightarrow> identity option"
  oc_identity_bytes :: "identity \<Rightarrow> bytes option"

definition own_encode :: "'j own_codec \<Rightarrow> 'j envelope \<Rightarrow> (bytes, verror) result" where
  "own_encode oc e =
     res_bind (ok_or Corrupt (oc_encode oc e)) (\<lambda>bs. if MAX_MANIFEST_BYTES < length bs then Err Corrupt else Ok bs)"

text \<open>The envelope of a head, before the validation of its root.\<close>

definition open_envelope :: "'j own_codec \<Rightarrow> string \<Rightarrow> head \<Rightarrow> ('j envelope, verror) result" where
  "open_envelope oc i h =
     (if MAX_MANIFEST_BYTES < length (h_manifest h) \<or> h_revision h = [] then Err Corrupt
      else
        res_bind (ok_or Corrupt (tc_parse (oc_tomb oc) (h_manifest h))) (\<lambda>v.
          if oc_format oc v = Some 4
          then
            res_bind (ok_or Corrupt (oc_envelope oc v)) (\<lambda>e.
              if ev_volume e \<noteq> i \<or> ev_epoch e = 0 \<or> (case ev_owner e of None \<Rightarrow> False | Some t \<Rightarrow> \<not> valid_hash t)
              then Err Corrupt else Ok e)
          else Ok \<lparr>ev_format = 4, ev_volume = i, ev_epoch = 0, ev_owner = None, ev_manifest = v\<rparr>))"

definition own_decode :: "'s ix_env \<Rightarrow> 'j own_codec \<Rightarrow> string \<Rightarrow> head \<Rightarrow> ('s, 'j envelope, verror) io" where
  "own_decode E oc i h =
     io_bind (io_lift (open_envelope oc i h)) (\<lambda>e.
     io_bind (io_lift (ok_or Corrupt (oc_print oc (ev_manifest e)))) (\<lambda>m.
     io_bind (from_head E i \<lparr>h_revision = h_revision h, h_manifest = m\<rparr>) (\<lambda>_. io_return e)))"

definition own_matches :: "identity \<Rightarrow> 'j envelope \<Rightarrow> bool" where
  "own_matches ident e \<longleftrightarrow> ev_epoch e = id_epoch ident \<and> ev_owner e = Some (id_token ident)"

section \<open>The directory of an owner\<close>

text \<open>The file \<open>owner.json\<close>, the marker \<open>retired\<close>, and which calls fail.\<close>

record own_dir =
  od_identity :: "bytes option"
  od_retired :: bool
  od_faults :: "nat list"
  od_random :: bytes

definition dir_fault :: "own_dir \<Rightarrow> nat \<times> own_dir" where
  "dir_fault d = (case od_faults d of [] \<Rightarrow> (0, d) | n # ns \<Rightarrow> (n, d\<lparr>od_faults := ns\<rparr>))"

definition dir_call :: "verror \<Rightarrow> (own_dir, unit, verror) io" where
  "dir_call e d = (case dir_fault d of (n, d') \<Rightarrow> (if n = 0 then Ok () else Err e, d'))"

definition on_dir :: "(own_dir, 'a, 'e) io \<Rightarrow> (own_dir \<times> 's, 'a, 'e) io" where
  "on_dir m = (\<lambda>(d, s). case m d of (r, d') \<Rightarrow> (r, (d', s)))"

definition read_identity :: "'j own_codec \<Rightarrow> string \<Rightarrow> bytes \<Rightarrow> (own_dir, identity, verror) io" where
  "read_identity oc i content =
     io_bind (dir_call Store) (\<lambda>_.
     io_bind (dir_call Store) (\<lambda>_.
     let bs = take 4097 content in
     if 4096 < length bs then io_throw Corrupt
     else
       io_bind (io_lift (ok_or Corrupt (oc_identity oc bs))) (\<lambda>ident.
         if id_volume ident \<noteq> i \<or> \<not> valid_hash (id_token ident) \<or> id_epoch ident = 0 then io_throw Corrupt
         else io_return ident)))"

text \<open>A fresh identity, written and synced before it is used; a failed write may leave a part.\<close>

definition random_token :: "(own_dir, string, verror) io" where
  "random_token =
     io_bind (dir_call Store) (\<lambda>_.
     io_bind (dir_call Store) (\<lambda>_.
       (\<lambda>d. if length (od_random d) < 32 then (Err Store, d)
            else (Ok (hex_string (take 32 (od_random d))), d\<lparr>od_random := drop 32 (od_random d)\<rparr>))))"

definition write_identity :: "'j own_codec \<Rightarrow> identity \<Rightarrow> (own_dir, unit, verror) io" where
  "write_identity oc ident =
     io_bind (dir_call Store) (\<lambda>_.
     io_bind (\<lambda>d. (Ok (), d\<lparr>od_identity := Some []\<rparr>)) (\<lambda>_.
     io_bind (io_lift (ok_or Corrupt (oc_identity_bytes oc ident))) (\<lambda>bs.
     io_bind (\<lambda>d. case dir_fault d of
         (0, d') \<Rightarrow> (Ok (), d'\<lparr>od_identity := Some bs\<rparr>)
       | (Suc n, d') \<Rightarrow> (Err Store, d'\<lparr>od_identity := Some (take n bs)\<rparr>)) (\<lambda>_.
     io_bind (dir_call Store) (\<lambda>_.
     io_bind (dir_call Store) (\<lambda>_. dir_call Store))))))"

definition create_identity :: "'j own_codec \<Rightarrow> string \<Rightarrow> 'j envelope \<Rightarrow> (own_dir, identity, verror) io" where
  "create_identity oc i e =
     (if ev_owner e \<noteq> None then io_throw Conflict
      else
        io_bind random_token (\<lambda>token.
        io_bind (io_lift (ok_or Corrupt (checked_add (ev_epoch e) 1))) (\<lambda>epoch.
        let ident = \<lparr>id_volume = i, id_token = token, id_epoch = epoch\<rparr> in
        io_bind (write_identity oc ident) (\<lambda>_. io_return ident))))"

definition own_identity :: "'j own_codec \<Rightarrow> string \<Rightarrow> 'j envelope \<Rightarrow> (own_dir, identity, verror) io" where
  "own_identity oc i e =
     io_bind (\<lambda>d. (Ok (od_identity d), d)) (\<lambda>present. case present of
         Some content \<Rightarrow> read_identity oc i content
       | None \<Rightarrow> create_identity oc i e)"

section \<open>Claiming and releasing\<close>

text \<open>A conditional write of the head whose outcome the caller must be able to tell.\<close>

definition own_publish_raw :: "'s object_store \<Rightarrow> string \<Rightarrow> string \<Rightarrow> bytes \<Rightarrow> ('s, unit, verror) io" where
  "own_publish_raw os i rv m =
     io_bind (io_map_err publication_error (os_publish os i (Some rv) m)) (\<lambda>r.
       if r = [] then io_throw Uncertain else io_return ())"

text \<open>The remote part of \<open>open_inner\<close>, once the identity is known and durable.\<close>

definition own_claim :: "'s ix_env \<Rightarrow> 'j own_codec \<Rightarrow> string \<Rightarrow> identity \<Rightarrow> head \<Rightarrow> 'j envelope \<Rightarrow> ('s, unit, verror) io" where
  "own_claim E oc i ident h e =
     (if ev_owner e \<noteq> Some (id_token ident) \<or> ev_epoch e \<noteq> id_epoch ident
      then
        (if ev_owner e \<noteq> None \<or> checked_add (ev_epoch e) 1 \<noteq> Some (id_epoch ident) then io_throw Conflict
         else
           io_bind (io_lift (own_encode oc (e\<lparr>ev_epoch := id_epoch ident, ev_owner := Some (id_token ident)\<rparr>))) (\<lambda>m.
             own_publish_raw (ix_os E) i (h_revision h) m))
      else io_return ())"

text \<open>\<open>Store::open_inner\<close>; the result is the identity of the owner, whose store is active.\<close>

definition open_inner :: "'s ix_env \<Rightarrow> 'j own_codec \<Rightarrow> string \<Rightarrow> bool \<Rightarrow> (own_dir \<times> 's, identity, verror) io" where
  "open_inner E oc i retiring =
     (if \<not> valid_id i then io_throw InvalidInput
      else
        io_bind (on_dir (dir_call Store)) (\<lambda>_.
        io_bind (on_dir (dir_call InvalidInput)) (\<lambda>_.
        io_bind (on_dir (dir_call InvalidInput)) (\<lambda>_.
        io_bind (on_dir (dir_call InvalidInput)) (\<lambda>_.
        io_bind (on_dir (dir_call Store)) (\<lambda>_.
        io_bind (on_dir (dir_call Conflict)) (\<lambda>_.
        io_bind (on_dir (\<lambda>d. (Ok (od_retired d), d))) (\<lambda>marked.
        if \<not> retiring \<and> marked then io_throw Conflict
        else
          io_bind (lift_world (os_head (ix_os E) i)) (\<lambda>oh.
          io_bind (io_lift (ok_or NotFound oh)) (\<lambda>h.
          io_bind (lift_world (own_decode E oc i h)) (\<lambda>e.
          if ev_epoch e = 0 then io_throw NotReady
          else
            io_bind (on_dir (own_identity oc i e)) (\<lambda>ident.
            io_bind (on_dir (dir_call Store)) (\<lambda>_.
            io_bind (on_dir (dir_call Store)) (\<lambda>_.
            io_bind (on_dir (dir_call Store)) (\<lambda>_.
            io_bind (lift_world (own_claim E oc i ident h e)) (\<lambda>_.
              io_return ident))))))))))))))))"

text \<open>\<open>Store::release\<close>: the flag \<open>active\<close> is cleared whatever happens to the remote head.\<close>

definition own_release :: "'s ix_env \<Rightarrow> 'j own_codec \<Rightarrow> string \<Rightarrow> identity \<Rightarrow> (bool \<times> 's, unit, verror) io" where
  "own_release E oc i ident =
     io_bind (set_self False) (\<lambda>_.
     io_bind (lift_world (os_head (ix_os E) i)) (\<lambda>oh.
     io_bind (io_lift (ok_or NotFound oh)) (\<lambda>h.
     io_bind (lift_world (own_decode E oc i h)) (\<lambda>e.
       if id_epoch ident < ev_epoch e \<or> ev_epoch e = id_epoch ident \<and> ev_owner e = None then io_return ()
       else if \<not> own_matches ident e then io_throw Conflict
       else
         io_bind (io_lift (own_encode oc (e\<lparr>ev_owner := None\<rparr>))) (\<lambda>m.
           lift_world (own_publish_raw (ix_os E) i (h_revision h) m))))))"

section \<open>The store of an owner\<close>

definition own_guard :: "(bool \<times> 's, unit, verror) io" where
  "own_guard = io_bind get_self (\<lambda>active. if active then io_return () else io_throw ReopenRequired)"

definition raw_cancel :: "(bool \<times> 's) cancel \<Rightarrow> bool \<Rightarrow> 's cancel" where
  "raw_cancel cancel active s = (case cancel (active, s) of (b, _, s') \<Rightarrow> (b, s'))"

definition owned_head :: "'s ix_env \<Rightarrow> 'j own_codec \<Rightarrow> string \<Rightarrow> identity \<Rightarrow> string \<Rightarrow> (bool \<times> 's, head option, verror) io" where
  "owned_head E oc i ident v =
     io_bind own_guard (\<lambda>_.
       if v \<noteq> i then io_throw InvalidInput
       else
         io_bind (lift_world (os_head (ix_os E) v)) (\<lambda>oh.
         io_bind (io_lift (ok_or NotFound oh)) (\<lambda>h.
         io_bind (lift_world (own_decode E oc v h)) (\<lambda>e.
           if \<not> own_matches ident e then io_throw Conflict
           else
             io_bind (io_lift (ok_or Corrupt (oc_print oc (ev_manifest e)))) (\<lambda>m.
               io_return (Some \<lparr>h_revision = h_revision h, h_manifest = m\<rparr>))))))"

definition owned_publish_cancellable ::
  "'s ix_env \<Rightarrow> 'j own_codec \<Rightarrow> string \<Rightarrow> identity \<Rightarrow> string \<Rightarrow> string option \<Rightarrow> bytes \<Rightarrow> (bool \<times> 's) cancel \<Rightarrow> (bool \<times> 's, string, verror) io" where
  "owned_publish_cancellable E oc i ident v expected m cancel =
     io_bind (check_cancel cancel) (\<lambda>_.
     io_bind own_guard (\<lambda>_.
       case (if v \<noteq> i then None else expected) of
         None \<Rightarrow> io_throw InvalidInput
       | Some rv \<Rightarrow>
           io_bind (lift_world (own_decode E oc v \<lparr>h_revision = rv, h_manifest = m\<rparr>)) (\<lambda>e.
             if ev_epoch e \<noteq> 0 then io_throw InvalidInput
             else
               io_bind (io_lift (own_encode oc (e\<lparr>ev_epoch := id_epoch ident, ev_owner := Some (id_token ident)\<rparr>))) (\<lambda>bs.
                 (\<lambda>(active, s). lift_world (os_publish_cancellable (ix_os E) v (Some rv) bs (raw_cancel cancel active)) (active, s))))))"

definition owned_call :: "string \<Rightarrow> string \<Rightarrow> ('s, 'a, verror) io \<Rightarrow> (bool \<times> 's, 'a, verror) io" where
  "owned_call i v m = io_bind own_guard (\<lambda>_. if v \<noteq> i then io_throw InvalidInput else lift_world m)"

definition owned_put_chunk_cancellable ::
  "'s ix_env \<Rightarrow> string \<Rightarrow> string \<Rightarrow> string \<Rightarrow> bytes \<Rightarrow> (bool \<times> 's) cancel \<Rightarrow> (bool \<times> 's, unit, verror) io" where
  "owned_put_chunk_cancellable E i v d bs cancel =
     io_bind (check_cancel cancel) (\<lambda>_.
     io_bind own_guard (\<lambda>_.
       if v \<noteq> i then io_throw InvalidInput
       else (\<lambda>(active, s). lift_world (os_put_chunk_cancellable (ix_os E) v d bs (raw_cancel cancel active)) (active, s))))"

text \<open>\<open>impl ObjectStore for Store\<close>; listing and deletion are the defaults of the trait.\<close>

definition owned_store :: "'s ix_env \<Rightarrow> 'j own_codec \<Rightarrow> string \<Rightarrow> identity \<Rightarrow> (bool \<times> 's) object_store" where
  "owned_store E oc i ident = \<lparr>
     os_base_chunk = (\<lambda>img h off. io_bind own_guard (\<lambda>_. lift_world (os_base_chunk (ix_os E) img h off))),
     os_prefetch_base = (\<lambda>img hs (active, s). (active, if active then os_prefetch_base (ix_os E) img hs s else s)),
     os_prefetch = (\<lambda>v ds (active, s). (active, if active \<and> v = i then os_prefetch (ix_os E) v ds s else s)),
     os_cached_chunk = (\<lambda>v d (active, s). if \<not> active \<or> v \<noteq> i then None else os_cached_chunk (ix_os E) v d s),
     os_list_chunks = default_list_chunks,
     os_list_chunks_after = default_list_chunks_after default_list_chunks,
     os_delete_chunk = default_delete_chunk,
     os_delete_chunks = default_delete_chunks default_delete_chunk,
     os_head = owned_head E oc i ident,
     os_chunk = (\<lambda>v d. owned_call i v (os_chunk (ix_os E) v d)),
     os_put_chunk = (\<lambda>v d bs. owned_call i v (os_put_chunk (ix_os E) v d bs)),
     os_put_chunk_cancellable = owned_put_chunk_cancellable E i,
     os_publish = (\<lambda>v expected m. owned_publish_cancellable E oc i ident v expected m never),
     os_publish_cancellable = owned_publish_cancellable E oc i ident\<rparr>"

section \<open>Enrolling and retiring\<close>

definition enroll :: "'s ix_env \<Rightarrow> 'j own_codec \<Rightarrow> string \<Rightarrow> ('s, unit, verror) io" where
  "enroll E oc i =
     (if \<not> valid_id i then io_throw InvalidInput
      else
        io_bind (os_head (ix_os E) i) (\<lambda>oh.
        io_bind (io_lift (ok_or NotFound oh)) (\<lambda>h.
        io_bind (own_decode E oc i h) (\<lambda>e.
          if ev_epoch e \<noteq> 0 then io_return ()
          else
            io_bind (io_lift (own_encode oc (e\<lparr>ev_epoch := 1\<rparr>))) (\<lambda>m.
              own_publish_raw (ix_os E) i (h_revision h) m)))))"

text \<open>The publication of a tombstone, whose revision nobody looks at.\<close>

definition put_tombstone :: "'s ix_env \<Rightarrow> 'j own_codec \<Rightarrow> string \<Rightarrow> string option \<Rightarrow> ('s, unit, verror) io" where
  "put_tombstone E oc i expected =
     io_bind (io_lift (tombstone_bytes (oc_tomb oc) i)) (\<lambda>m.
     io_bind (io_map_err publication_error (os_publish (ix_os E) i expected m)) (\<lambda>_. io_return ()))"

definition retire_owned :: "'s ix_env \<Rightarrow> 'j own_codec \<Rightarrow> string \<Rightarrow> (own_dir \<times> 's, unit, verror) io" where
  "retire_owned E oc i =
     io_bind (open_inner E oc i True) (\<lambda>ident.
     io_bind (lift_world (os_head (ix_os E) i)) (\<lambda>oh.
     io_bind (io_lift (ok_or NotFound oh)) (\<lambda>h.
     io_bind (lift_world (own_decode E oc i h)) (\<lambda>e.
       if \<not> own_matches ident e then io_throw Conflict
       else lift_world (put_tombstone E oc i (Some (h_revision h)))))))"

text \<open>A head that is no envelope is validated before it is retired.\<close>

definition check_plain :: "'s ix_env \<Rightarrow> 'j own_codec \<Rightarrow> string \<Rightarrow> 'j \<Rightarrow> head \<Rightarrow> ('s, unit, verror) io" where
  "check_plain E oc i v h =
     (if oc_ready oc v then io_bind (from_head E i h) (\<lambda>_. io_return ())
      else
        io_bind (io_lift (ok_or Corrupt (oc_size oc v))) (\<lambda>sz.
        io_bind (resume_import E i sz) (\<lambda>_. io_return ())))"

definition retire_head :: "'s ix_env \<Rightarrow> 'j own_codec \<Rightarrow> string \<Rightarrow> head \<Rightarrow> (own_dir \<times> 's, unit, verror) io" where
  "retire_head E oc i h =
     io_bind (io_lift (retired (oc_tomb oc) i h)) (\<lambda>r.
       if r then io_return ()
       else
         io_bind (io_lift (ok_or Corrupt (tc_parse (oc_tomb oc) (h_manifest h)))) (\<lambda>v.
           if oc_format oc v \<notin> {Some 2, Some 6, Some 8, Some 10}
           then
             io_bind (lift_world (own_decode E oc i h)) (\<lambda>e.
               if ev_epoch e \<noteq> 0 \<and> ev_owner e = None
               then lift_world (put_tombstone E oc i (Some (h_revision h)))
               else retire_owned E oc i)
           else
             io_bind (lift_world (check_plain E oc i v h)) (\<lambda>_.
               lift_world (put_tombstone E oc i (Some (h_revision h))))))"

definition retire :: "'s ix_env \<Rightarrow> 'j own_codec \<Rightarrow> string \<Rightarrow> bool \<Rightarrow> (own_dir \<times> 's, unit, verror) io" where
  "retire E oc i absolute =
     (if \<not> valid_id i \<or> \<not> absolute then io_throw InvalidInput
      else
        io_bind (lift_world (os_head (ix_os E) i)) (\<lambda>oh. case oh of
            None \<Rightarrow> lift_world (put_tombstone E oc i None)
          | Some h \<Rightarrow> retire_head E oc i h))"

end
