(* ===== verification/Ownership.thy ===== *)
theory Ownership
  imports Owned "HOL-Library.Sublist"
begin

text \<open>
  What exclusive ownership promises. The heads that a volume has had are a log; other hosts
  may add to it at every call, and an entry carries whether this host wrote_one it. The locale
  \<open>shared_head\<close> states what a store with conditional writes gives a host in such a world; the
  operations of \<open>Owned\<close> then only make the moves of the protocol, and a log of such moves
  has at most one owner at a time.
\<close>

section \<open>Stages and moves\<close>

datatype stage = Malformed | Plain | Free nat | Held nat string | Tombstone

definition env_stage :: "'j envelope \<Rightarrow> stage" where
  "env_stage e = (if ev_epoch e = 0 then Plain else case ev_owner e of None \<Rightarrow> Free (ev_epoch e) | Some t \<Rightarrow> Held (ev_epoch e) t)"

definition env_ok :: "string \<Rightarrow> 'j envelope \<Rightarrow> bool" where
  "env_ok i e \<longleftrightarrow> ev_format e = 4 \<and> ev_volume e = i \<and> (\<forall>t. ev_owner e = Some t \<longrightarrow> valid_hash t \<and> ev_epoch e \<noteq> 0)"

definition own_stage :: "'j own_codec \<Rightarrow> string \<Rightarrow> bytes \<Rightarrow> stage" where
  "own_stage oc i m =
     (case tc_parse (oc_tomb oc) m of
        None \<Rightarrow> Malformed
      | Some v \<Rightarrow>
          if oc_format oc v = Some 4
          then (case oc_envelope oc v of None \<Rightarrow> Malformed | Some e \<Rightarrow> if env_ok i e \<and> ev_epoch e \<noteq> 0 then env_stage e else Malformed)
          else if oc_format oc v = Some 5 then Tombstone else Plain)"

text \<open>The moves of a host with the token \<open>T\<close>, and those of the writers before enrolment.\<close>

inductive own_move :: "string \<Rightarrow> stage option \<Rightarrow> stage \<Rightarrow> bool" for T where
  move_enroll: "own_move T (Some Plain) (Free 1)"
| move_claim: "own_move T (Some (Free e)) (Held (Suc e) T)"
| move_data: "own_move T (Some (Held e T)) (Held e T)"
| move_release: "own_move T (Some (Held e T)) (Free e)"
| move_retire: "x = None \<or> x = Some Plain \<or> x = Some (Free e) \<or> x = Some (Held e T) \<Longrightarrow> own_move T x Tombstone"

inductive legacy_move :: "stage option \<Rightarrow> stage \<Rightarrow> bool" where
  legacy_create: "legacy_move None Plain"
| legacy_write: "legacy_move (Some Plain) Plain"

type_synonym head_log = "(bool \<times> head) list"

abbreviation entries :: "head_log \<Rightarrow> head set" where
  "entries l \<equiv> snd ` set l"

definition current_head :: "head_log \<Rightarrow> head option" where
  "current_head l = (if l = [] then None else Some (snd (last l)))"

abbreviation stage_at :: "'j own_codec \<Rightarrow> string \<Rightarrow> head \<Rightarrow> stage" where
  "stage_at oc i h \<equiv> own_stage oc i (h_manifest h)"

definition lawful :: "'j own_codec \<Rightarrow> string \<Rightarrow> head_log \<Rightarrow> head \<Rightarrow> bool" where
  "lawful oc i us h \<longleftrightarrow>
     (\<exists>T. own_move T (map_option (stage_at oc i) (current_head us)) (stage_at oc i h))
     \<or> legacy_move (map_option (stage_at oc i) (current_head us)) (stage_at oc i h)"

definition conforms :: "'j own_codec \<Rightarrow> string \<Rightarrow> head_log \<Rightarrow> bool" where
  "conforms oc i l \<longleftrightarrow> (\<forall>us y vs. l = us @ y # vs \<longrightarrow> lawful oc i us (snd y))"

section \<open>A conforming log has one owner at a time\<close>

definition past :: "nat \<Rightarrow> stage \<Rightarrow> bool" where
  "past e st \<longleftrightarrow> (case st of Tombstone \<Rightarrow> True | Free e' \<Rightarrow> e \<le> e' | Held e' _ \<Rightarrow> e < e' | _ \<Rightarrow> False)"

lemma past_simps [simp]:
  "past e Tombstone" "past e (Free e') \<longleftrightarrow> e \<le> e'" "past e (Held e' T) \<longleftrightarrow> e < e'" "\<not> past e Plain" "\<not> past e Malformed"
  by (simp_all add: past_def)

lemma past_move: "own_move T (Some st) st' \<or> legacy_move (Some st) st' \<Longrightarrow> past e st \<Longrightarrow> past e st'"
  by (auto elim!: own_move.cases legacy_move.cases)

lemma held_move: "own_move T' (Some (Held e T)) st' \<or> legacy_move (Some (Held e T)) st' \<Longrightarrow> st' = Held e T \<or> past e st'"
  by (auto elim!: own_move.cases legacy_move.cases)

lemma conforms_step:
  assumes "conforms oc i l" "Suc k < length l"
  shows "\<exists>T. own_move T (Some (stage_at oc i (snd (l ! k)))) (stage_at oc i (snd (l ! Suc k)))
    \<or> legacy_move (Some (stage_at oc i (snd (l ! k)))) (stage_at oc i (snd (l ! Suc k)))"
proof -
  have "l = take (Suc k) l @ l ! Suc k # drop (Suc (Suc k)) l" using assms(2) by (simp add: id_take_nth_drop)
  then have "lawful oc i (take (Suc k) l) (snd (l ! Suc k))" using assms(1) unfolding conforms_def by blast
  moreover have "current_head (take (Suc k) l) = Some (snd (l ! k))"
    using assms(2) by (auto simp: current_head_def last_conv_nth)
  ultimately show ?thesis by (simp add: lawful_def)
qed

lemma held_forward:
  assumes "conforms oc i l" "stage_at oc i (snd (l ! a)) = Held e T" "a \<le> b" "b < length l"
  shows "stage_at oc i (snd (l ! b)) = Held e T \<or> past e (stage_at oc i (snd (l ! b)))"
  using assms(3,4)
proof (induction b rule: dec_induct)
  case base
  then show ?case using assms(2) by simp
next
  case (step b)
  then have "stage_at oc i (snd (l ! b)) = Held e T \<or> past e (stage_at oc i (snd (l ! b)))" by simp
  moreover note conforms_step [OF assms(1) step.prems]
  ultimately show ?case using held_move past_move by fastforce
qed

lemma past_forward:
  assumes "conforms oc i l" "past e (stage_at oc i (snd (l ! a)))" "a \<le> b" "b < length l"
  shows "past e (stage_at oc i (snd (l ! b)))"
  using assms(3,4)
proof (induction b rule: dec_induct)
  case base
  then show ?case using assms(2) by simp
next
  case (step b)
  then have "past e (stage_at oc i (snd (l ! b)))" by simp
  with conforms_step [OF assms(1) step.prems] show ?case using past_move by blast
qed

lemma one_owner:
  assumes "conforms oc i l" "a \<le> b" "b \<le> c" "c < length l"
    and "stage_at oc i (snd (l ! a)) = Held e T" "stage_at oc i (snd (l ! c)) = Held e T'"
  shows "T' = T \<and> stage_at oc i (snd (l ! b)) = Held e T"
proof -
  have "\<not> past e (stage_at oc i (snd (l ! b)))"
    using past_forward [OF assms(1) _ assms(3,4), of e] assms(6) by auto
  moreover have "stage_at oc i (snd (l ! c)) = Held e T"
    using held_forward [OF assms(1,5), of c] assms by auto
  ultimately show ?thesis using held_forward [OF assms(1,5,2)] assms(3,4,6) by auto
qed

lemma every_split_snoc:
  "(\<forall>us y vs. l @ [x] = us @ y # vs \<longrightarrow> P us y) \<longleftrightarrow> (\<forall>us y vs. l = us @ y # vs \<longrightarrow> P us y) \<and> P l x"
proof (intro iffI conjI allI impI)
  fix us y vs
  assume P: "(\<forall>us y vs. l = us @ y # vs \<longrightarrow> P us y) \<and> P l x" and l: "l @ [x] = us @ y # vs"
  show "P us y"
  proof (cases vs rule: rev_cases)
    case Nil
    then show ?thesis using P l by simp
  next
    case (snoc zs z)
    then have "l = us @ y # zs" using l by simp
    then show ?thesis using P by blast
  qed
qed auto

lemma conforms_snoc: "conforms oc i (l @ [y]) \<longleftrightarrow> conforms oc i l \<and> lawful oc i l (snd y)"
  unfolding conforms_def by (rule every_split_snoc)

lemma conforms_Nil: "conforms oc i []"
  by (simp add: conforms_def)

section \<open>The interface\<close>

text \<open>
  \<open>others_only\<close>: only others added to the log. \<open>wrote_one\<close>: this host added one head, whose
  predecessor had the expected revision, and others may have acted before and after.
\<close>

definition others_only :: "('s \<Rightarrow> head_log) \<Rightarrow> ('s \<Rightarrow> bool) \<Rightarrow> 's \<Rightarrow> 's \<Rightarrow> bool" where
  "others_only log good s s' \<longleftrightarrow> good s' \<and> (\<exists>ys. log s' = log s @ ys \<and> (\<forall>y \<in> set ys. \<not> fst y))"

definition wrote_one :: "('s \<Rightarrow> head_log) \<Rightarrow> ('s \<Rightarrow> bool) \<Rightarrow> string option \<Rightarrow> bytes \<Rightarrow> string \<Rightarrow> 's \<Rightarrow> 's \<Rightarrow> bool" where
  "wrote_one log good expected m r s s' \<longleftrightarrow> good s'
     \<and> (\<exists>ys zs. log s' = log s @ ys @ (True, \<lparr>h_revision = r, h_manifest = m\<rparr>) # zs
          \<and> (\<forall>y \<in> set ys \<union> set zs. \<not> fst y) \<and> map_option h_revision (current_head (log s @ ys)) = expected)"

lemma quiet_then: "others_only log good s t \<Longrightarrow> others_only log good t u \<Longrightarrow> others_only log good s u"
  unfolding others_only_def by fastforce

lemma quiet_wrote:
  assumes "others_only log good s t" "wrote_one log good expected m r t u"
  shows "wrote_one log good expected m r s u"
proof -
  obtain xs where xs: "log t = log s @ xs" "\<forall>y \<in> set xs. \<not> fst y" using assms(1) by (auto simp: others_only_def)
  obtain ys zs where l: "good u" "log u = log t @ ys @ (True, \<lparr>h_revision = r, h_manifest = m\<rparr>) # zs"
      "\<forall>y \<in> set ys \<union> set zs. \<not> fst y" "map_option h_revision (current_head (log t @ ys)) = expected"
    using assms(2) by (auto simp: wrote_one_def)
  show ?thesis
    unfolding wrote_one_def using l xs by (intro conjI exI [of _ "xs @ ys"] exI [of _ zs]) auto
qed

text \<open>The host added only moves of the protocol to the log.\<close>

definition moved :: "('s \<Rightarrow> head_log) \<Rightarrow> ('s \<Rightarrow> bool) \<Rightarrow> 'j own_codec \<Rightarrow> string \<Rightarrow> string \<Rightarrow> 's \<Rightarrow> 's \<Rightarrow> bool" where
  "moved log good oc i T s s' \<longleftrightarrow> good s' \<and> prefix (log s) (log s')
     \<and> (\<forall>us y vs. log s' = us @ y # vs \<longrightarrow> length (log s) \<le> length us \<longrightarrow> fst y \<longrightarrow>
          own_move T (map_option (stage_at oc i) (current_head us)) (stage_at oc i (snd y)))"

text \<open>What the JSON library keeps of the documents.\<close>

definition own_codec_ok :: "root codec \<Rightarrow> 'j own_codec \<Rightarrow> bool" where
  "own_codec_ok cd oc \<longleftrightarrow>
     (\<forall>v e. oc_envelope oc v = Some e \<longrightarrow> oc_format oc v = Some (ev_format e))
     \<and> (\<forall>e m. oc_encode oc e = Some m \<longrightarrow> (\<exists>v. tc_parse (oc_tomb oc) m = Some v \<and> oc_envelope oc v = Some e))
     \<and> (\<forall>t m. tc_to_vec (oc_tomb oc) t = Some m \<longrightarrow> (\<exists>v. tc_parse (oc_tomb oc) m = Some v \<and> oc_format oc v = Some (ts_format t)))
     \<and> (\<forall>v. tc_format_is_5 (oc_tomb oc) v = (oc_format oc v = Some 5))
     \<and> (\<forall>v m r. oc_print oc v = Some m \<longrightarrow> c_from_slice cd m = Some r \<longrightarrow> oc_format oc v = Some (rt_format r))"

definition envelope_of :: "'j own_codec \<Rightarrow> string \<Rightarrow> 'j \<Rightarrow> 'j envelope \<Rightarrow> bool" where
  "envelope_of oc i v e \<longleftrightarrow>
     (if oc_format oc v = Some 4
      then oc_envelope oc v = Some e \<and> ev_volume e = i \<and> ev_epoch e \<noteq> 0 \<and> (\<forall>t. ev_owner e = Some t \<longrightarrow> valid_hash t)
      else e = \<lparr>ev_format = 4, ev_volume = i, ev_epoch = 0, ev_owner = None, ev_manifest = v\<rparr>)"

lemma open_envelope_Ok:
  assumes "open_envelope oc i h = Ok e"
  shows "\<exists>v. tc_parse (oc_tomb oc) (h_manifest h) = Some v \<and> envelope_of oc i v e"
proof (cases "tc_parse (oc_tomb oc) (h_manifest h)")
  case None
  then show ?thesis using assms by (simp add: open_envelope_def res_bind_def ok_or_def split: if_splits)
next
  case (Some v)
  show ?thesis
  proof (cases "oc_format oc v = Some 4")
    case True
    then show ?thesis
      using assms Some by (cases "oc_envelope oc v") (auto simp: open_envelope_def res_bind_def envelope_of_def ok_or_def split: if_splits option.splits)
  next
    case False
    then show ?thesis using assms Some by (simp add: open_envelope_def res_bind_def envelope_of_def ok_or_def split: if_splits)
  qed
qed

lemma lift_world_bind: "lift_world (io_bind m f) = io_bind (lift_world m) (\<lambda>x. lift_world (f x))"
  by (rule ext) (auto simp: lift_world_def io_bind_def split: prod.splits result.splits)

lemma lift_world_lift: "lift_world (io_lift r) = io_lift r"
  by (rule ext) (auto simp: lift_world_def io_lift_def)

lemma post_on_dir [post_simps]:
  "post (on_dir m) Q X (d, s) = post m (\<lambda>x d'. Q x (d', s)) (\<lambda>e d'. X e (d', s)) d"
  by (simp add: post_def on_dir_def split: prod.split)

lemma dir_step:
  assumes "\<And>d'. post (f ()) Q X (d', s)" "\<And>d'. X x (d', s)"
  shows "post (io_bind (on_dir (dir_call x)) f) Q X (d, s)"
  using assms by (auto simp: post_simps post_def [of "dir_call x"] dir_call_def split: prod.split)

lemma dir_call_any: "(\<And>d'. Q () d') \<Longrightarrow> post (dir_call x) Q (\<lambda>_ _. True) d"
  by (auto simp: post_def dir_call_def split: prod.split)

definition identity_ok :: "string \<Rightarrow> identity \<Rightarrow> bool" where
  "identity_ok i ident \<longleftrightarrow> id_volume ident = i \<and> valid_hash (id_token ident) \<and> id_epoch ident \<noteq> 0"

lemma read_identity_ok: "post (read_identity oc i content) (\<lambda>ident _. identity_ok i ident) (\<lambda>_ _. True) d"
  unfolding read_identity_def
  by (auto simp: post_simps Let_def identity_ok_def split: result.split intro!: dir_call_any)

lemma random_token_valid: "post random_token (\<lambda>t _. valid_hash t) (\<lambda>_ _. True) d"
  unfolding random_token_def post_bind
  by (intro dir_call_any) (simp add: post_def)

lemma create_identity_ok: "post (create_identity oc i e) (\<lambda>ident _. identity_ok i ident) (\<lambda>_ _. True) d"
proof (cases "ev_owner e = None")
  case True
  have w: "post (write_identity oc ident) (\<lambda>_ _. identity_ok i ident) (\<lambda>_ _. True) d" if "identity_ok i ident" for ident d
    using that by (auto intro: post_any)
  have id: "identity_ok i \<lparr>id_volume = i, id_token = t, id_epoch = Suc (ev_epoch e)\<rparr>" if "valid_hash t" for t
    using that by (simp add: identity_ok_def)
  show ?thesis
    unfolding create_identity_def post_bind [of random_token] if_not_P [OF not_not [THEN iffD2, OF True]]
    by (rule post_mono [OF random_token_valid])
      (use w [OF id] in \<open>simp_all add: post_simps Let_def ok_or_def checked_add_def\<close>)
qed (simp add: create_identity_def post_throw)

lemma own_identity_ok: "post (own_identity oc i e) (\<lambda>ident _. identity_ok i ident) (\<lambda>_ _. True) d"
  unfolding own_identity_def post_bind post_read
  by (simp add: read_identity_ok create_identity_ok split: option.split)

lemma guard_step:
  "post (io_bind own_guard f) Q X (a, s) = (if a then post (f ()) Q X (a, s) else X ReopenRequired (a, s))"
  by (simp add: own_guard_def post_simps)

lemma append_split: "us @ vs = xs @ ws \<Longrightarrow> length xs \<le> length us \<Longrightarrow> \<exists>us'. us = xs @ us' \<and> us' @ vs = ws"
  by (auto simp: append_eq_append_conv2)

locale shared_head =
  fixes E :: "'s ix_env" and oc :: "'j own_codec" and i :: string
    and log :: "'s \<Rightarrow> head_log" and good :: "'s \<Rightarrow> bool"
  assumes head_law: "good s \<Longrightarrow> post (os_head (ix_os E) i)
      (\<lambda>oh s'. others_only log good s s' \<and> (\<forall>h. oh = Some h \<longrightarrow> h \<in> entries (log s'))) (\<lambda>_. others_only log good s) s"
    and base_law: "good s \<Longrightarrow> post (os_base_chunk (ix_os E) img hash off) (\<lambda>_. others_only log good s) (\<lambda>_. others_only log good s) s"
    and publish_law: "good s \<Longrightarrow> post (os_publish (ix_os E) i expected m)
      (\<lambda>r. wrote_one log good expected m r s) (\<lambda>_ s'. others_only log good s s' \<or> (\<exists>r. wrote_one log good expected m r s s')) s"
    and publish_cancellable_law: "good s \<Longrightarrow> (\<And>t b t'. good t \<Longrightarrow> cancel t = (b, t') \<Longrightarrow> others_only log good t t') \<Longrightarrow>
      post (os_publish_cancellable (ix_os E) i expected m cancel)
      (\<lambda>r. wrote_one log good expected m r s) (\<lambda>_ s'. others_only log good s s' \<or> (\<exists>r. wrote_one log good expected m r s s')) s"
    and revisions: "good s \<Longrightarrow> h \<in> entries (log s) \<Longrightarrow> h' \<in> entries (log s) \<Longrightarrow> h_revision h = h_revision h' \<Longrightarrow> h_manifest h = h_manifest h'"
    and json: "own_codec_ok (ix_codec E) oc"
begin

abbreviation quietly :: "'s \<Rightarrow> 's \<Rightarrow> bool" where "quietly \<equiv> others_only log good"

abbreviation moves :: "string \<Rightarrow> 's \<Rightarrow> 's \<Rightarrow> bool" where "moves \<equiv> moved log good oc i"

lemma quiet_good: "quietly s t \<Longrightarrow> good t"
  by (simp add: others_only_def)

lemma quiet_refl: "good s \<Longrightarrow> quietly s s"
  by (simp add: others_only_def)

lemmas quiet_trans = quiet_then [of log good]

lemma quiet_entries: "quietly s t \<Longrightarrow> h \<in> entries (log s) \<Longrightarrow> h \<in> entries (log t)"
  by (auto simp: others_only_def)

lemma moves_good: "moves T s t \<Longrightarrow> good t"
  by (simp add: moved_def)

lemma moves_trans:
  assumes "moves T s t" "moves T t u"
  shows "moves T s u"
  unfolding moved_def
proof (intro conjI allI impI)
  show "good u" "prefix (log s) (log u)" using assms by (auto simp: moved_def intro: prefix_order.trans)
  fix us y vs
  assume l: "log u = us @ y # vs" and n: "length (log s) \<le> length us" and y: "fst y"
  show "own_move T (map_option (stage_at oc i) (current_head us)) (stage_at oc i (snd y))"
  proof (cases "length (log t) \<le> length us")
    case True
    then show ?thesis using assms(2) l y unfolding moved_def by blast
  next
    case False
    then have "prefix (us @ [y]) (log t)"
      using assms(2) l prefix_length_prefix [of "us @ [y]" "log u" "log t"] by (simp add: moved_def)
    then obtain vs' where "log t = us @ y # vs'" by (auto simp: prefix_def)
    then show ?thesis using assms(1) n y unfolding moved_def by blast
  qed
qed

lemma quiet_moves:
  assumes "quietly s t"
  shows "moves T s t"
proof -
  obtain ys where ys: "log t = log s @ ys" "\<forall>y \<in> set ys. \<not> fst y" "good t" using assms by (auto simp: others_only_def)
  have "\<not> fst y" if "log s @ ys = us @ y # vs" "length (log s) \<le> length us" for us y vs
    using that ys(2) by (auto simp: append_eq_append_conv2)
  then show ?thesis using ys by (auto simp: moved_def)
qed

lemma wrote_entry: "wrote_one log good expected m r s t \<Longrightarrow> \<lparr>h_revision = r, h_manifest = m\<rparr> \<in> entries (log t)"
  by (force simp: wrote_one_def)

text \<open>The predecessor of a conditional write is what the host had seen under this revision.\<close>

lemma wrote_moves:
  assumes "wrote_one log good expected m r s t"
    and "\<And>x. (case expected of None \<Rightarrow> x = None | Some rv \<Rightarrow> \<exists>h. h \<in> entries (log s) \<and> h_revision h = rv \<and> x = Some (stage_at oc i h)) \<Longrightarrow>
        own_move T x (own_stage oc i m)"
    and "\<And>rv. expected = Some rv \<Longrightarrow> \<exists>h \<in> entries (log s). h_revision h = rv"
  shows "moves T s t"
proof -
  obtain ys zs where l: "log t = log s @ ys @ (True, \<lparr>h_revision = r, h_manifest = m\<rparr>) # zs"
      "\<forall>y \<in> set ys \<union> set zs. \<not> fst y" "map_option h_revision (current_head (log s @ ys)) = expected" "good t"
    using assms(1) by (auto simp: wrote_one_def)
  let ?x = "map_option (stage_at oc i) (current_head (log s @ ys))"
  have "case expected of None \<Rightarrow> ?x = None | Some rv \<Rightarrow> \<exists>h. h \<in> entries (log s) \<and> h_revision h = rv \<and> ?x = Some (stage_at oc i h)"
  proof (cases expected)
    case None
    then show ?thesis using l(3) by simp
  next
    case (Some rv)
    then obtain h h' where h: "h \<in> entries (log s)" "h_revision h = rv" and h': "current_head (log s @ ys) = Some h'" "h_revision h' = rv"
      using l(3) assms(3) by auto
    have "h' = snd (last (log s @ ys))" "log s @ ys \<noteq> []" using h'(1) by (auto simp: current_head_def split: if_splits)
    then have "h' \<in> entries (log s @ ys)" using last_in_set [of "log s @ ys"] by simp
    then have "h' \<in> entries (log t)" unfolding l(1) by auto
    moreover have "h \<in> entries (log t)" using h(1) unfolding l(1) by auto
    ultimately have "h_manifest h' = h_manifest h" using revisions [OF l(4)] h(2) h'(2) by metis
    then show ?thesis using Some h h' by auto
  qed
  from assms(2) [OF this] have mv: "own_move T ?x (own_stage oc i m)" .
  have "own_move T (map_option (stage_at oc i) (current_head us)) (stage_at oc i (snd y))"
    if "log t = us @ y # vs" "length (log s) \<le> length us" "fst y" for us y vs
  proof -
    from that(1,2) l(1) obtain us' where us: "us = log s @ us'" "us' @ y # vs = ys @ (True, \<lparr>h_revision = r, h_manifest = m\<rparr>) # zs"
      using append_split [of us "y # vs" "log s"] by metis
    with that(3) l(2) have "us' = ys \<and> y = (True, \<lparr>h_revision = r, h_manifest = m\<rparr>)"
      by (auto simp: append_eq_append_conv2 append_eq_Cons_conv Cons_eq_append_conv)
    then show ?thesis using mv us(1) by simp
  qed
  then show ?thesis using l by (simp add: moved_def prefix_def)
qed

lemma json_laws:
  "oc_envelope oc v = Some e \<Longrightarrow> oc_format oc v = Some (ev_format e)"
  "oc_encode oc e = Some m \<Longrightarrow> \<exists>v. tc_parse (oc_tomb oc) m = Some v \<and> oc_envelope oc v = Some e"
  "tc_to_vec (oc_tomb oc) ts = Some m \<Longrightarrow> \<exists>v. tc_parse (oc_tomb oc) m = Some v \<and> oc_format oc v = Some (ts_format ts)"
  "oc_print oc v = Some m \<Longrightarrow> c_from_slice (ix_codec E) m = Some r \<Longrightarrow> oc_format oc v = Some (rt_format r)"
  "tc_format_is_5 (oc_tomb oc) v \<longleftrightarrow> oc_format oc v = Some 5"
  using json unfolding own_codec_ok_def by blast+

text \<open>Decoding a head, which may read a catalog.\<close>

lemma base_quiet: "quietly s t \<Longrightarrow> post (os_base_chunk (ix_os E) img hash off) (\<lambda>_. quietly s) (\<lambda>_. quietly s) t"
  by (rule post_mono [OF base_law [OF quiet_good]]) (auto intro: quiet_trans)

lemma head_quiet:
  "quietly s t \<Longrightarrow> post (os_head (ix_os E) i) (\<lambda>oh u. quietly s u \<and> (\<forall>h. oh = Some h \<longrightarrow> h \<in> entries (log u))) (\<lambda>_. quietly s) t"
  by (rule post_mono [OF head_law [OF quiet_good]]) (auto intro: quiet_trans)

lemma decode_head_quiet:
  assumes "quietly s t"
  shows "post (decode_head E v h ready)
    (\<lambda>vol u. quietly s u \<and> c_from_slice (ix_codec E) (h_manifest h) = Some (x_root vol) \<and> root_valid v (x_root vol)) (\<lambda>_. quietly s) t"
  unfolding decode_head_def catalog_load_def
  using assms
  by (auto simp: post_simps ok_or_def fresh_handle_def split: option.split result.split intro!: post_mono [OF base_quiet])

lemma own_decode_quiet:
  assumes "quietly s t"
  shows "post (own_decode E oc i h) (\<lambda>e u. quietly s u \<and> env_ok i e \<and> stage_at oc i h = env_stage e) (\<lambda>_. quietly s) t"
proof (cases "open_envelope oc i h")
  case (Err x)
  then show ?thesis using assms by (simp add: own_decode_def post_simps)
next
  case (Ok e)
  from open_envelope_Ok [OF this] obtain v where v: "tc_parse (oc_tomb oc) (h_manifest h) = Some v" "envelope_of oc i v e" by blast
  have ok: "env_ok i e"
  proof (cases "oc_format oc v = Some 4")
    case True
    then show ?thesis using v(2) json_laws(1) [of v e] by (simp add: envelope_of_def env_ok_def)
  next
    case False
    then show ?thesis using v(2) by (simp add: envelope_of_def env_ok_def)
  qed
  have stage: "stage_at oc i h = env_stage e"
    if "oc_print oc (ev_manifest e) = Some m" "c_from_slice (ix_codec E) m = Some r" "root_valid i r" for m r
  proof -
    have f: "oc_format oc (ev_manifest e) = Some (rt_format r)" "rt_format r \<noteq> 4" "rt_format r \<noteq> 5"
      using json_laws(4) [OF that(1,2)] that(3) by (auto simp: root_valid_def)
    show ?thesis
    proof (cases "oc_format oc v = Some 4")
      case True
      then show ?thesis using v ok by (simp add: own_stage_def envelope_of_def)
    next
      case False
      then show ?thesis using v f by (simp add: own_stage_def env_stage_def envelope_of_def)
    qed
  qed
  show ?thesis
  proof (cases "oc_print oc (ev_manifest e)")
    case None
    then show ?thesis using assms Ok by (simp add: own_decode_def post_simps ok_or_def)
  next
    case (Some m)
    show ?thesis
      using decode_head_quiet [OF assms, of i "\<lparr>h_revision = h_revision h, h_manifest = m\<rparr>" True] stage [OF Some] ok
      by (auto simp: own_decode_def post_simps Ok Some ok_or_def from_head_def elim!: post_mono)
  qed
qed

lemma own_encode_stage:
  assumes "own_encode oc e = Ok m" "env_ok i e" "ev_epoch e \<noteq> 0"
  shows "own_stage oc i m = env_stage e"
proof -
  have "oc_encode oc e = Some m" using assms(1) by (auto simp: own_encode_def res_bind_def ok_or_def split: option.splits if_splits)
  then obtain v where "tc_parse (oc_tomb oc) m = Some v" "oc_envelope oc v = Some e" using json_laws(2) by blast
  moreover from this have "oc_format oc v = Some 4" using json_laws(1) assms(2) by (auto simp: env_ok_def)
  ultimately show ?thesis using assms(2,3) by (simp add: own_stage_def)
qed

lemma tombstone_stage: "tombstone_bytes (oc_tomb oc) i = Ok m \<Longrightarrow> own_stage oc i m = Tombstone"
  using json_laws(3) by (fastforce simp: tombstone_bytes_def ok_or_def own_stage_def split: option.splits)

text \<open>A publication under the revision of a head that was seen.\<close>

lemma seen_publish:
  assumes "wrote_one log good (Some (h_revision h)) m r s t" "h \<in> entries (log s)" "own_move T (Some (stage_at oc i h)) (own_stage oc i m)"
    and "good s"
  shows "moves T s t"
proof (rule wrote_moves [OF assms(1)])
  fix x
  assume "case Some (h_revision h) of None \<Rightarrow> x = None
    | Some rv \<Rightarrow> \<exists>h'. h' \<in> entries (log s) \<and> h_revision h' = rv \<and> x = Some (stage_at oc i h')"
  then obtain h' where "h' \<in> entries (log s)" "h_revision h' = h_revision h" "x = Some (stage_at oc i h')" by auto
  then show "own_move T x (own_stage oc i m)" using revisions [OF assms(4), of h' h] assms(2,3) by simp
qed (use assms(2) in auto)

lemma publish_moves:
  assumes "quietly s t" "h \<in> entries (log t)" "own_move T (Some (stage_at oc i h)) (own_stage oc i m)"
  shows "post (os_publish (ix_os E) i (Some (h_revision h)) m)
    (\<lambda>r u. moves T s u \<and> \<lparr>h_revision = r, h_manifest = m\<rparr> \<in> entries (log u)) (\<lambda>_. moves T s) t"
proof (rule post_mono [OF publish_law [OF quiet_good [OF assms(1)]]])
  note q = quiet_good [OF assms(1)] quiet_moves [OF assms(1), of T]
  show "moves T s u \<and> \<lparr>h_revision = r, h_manifest = m\<rparr> \<in> entries (log u)" if "wrote_one log good (Some (h_revision h)) m r t u" for r u
    using moves_trans [OF q(2) seen_publish [OF that assms(2,3) q(1)]] wrote_entry [OF that] by blast
  show "moves T s u" if "quietly t u \<or> (\<exists>r. wrote_one log good (Some (h_revision h)) m r t u)" for u
    using that moves_trans [OF q(2)] quiet_moves seen_publish [OF _ assms(2,3) q(1)] by blast
qed

lemma publish_raw_moves:
  assumes "quietly s t" "h \<in> entries (log t)" "own_move T (Some (stage_at oc i h)) (own_stage oc i m)"
  shows "post (own_publish_raw (ix_os E) i (h_revision h) m)
    (\<lambda>_ u. moves T s u \<and> (\<exists>r. \<lparr>h_revision = r, h_manifest = m\<rparr> \<in> entries (log u))) (\<lambda>_. moves T s) t"
  unfolding own_publish_raw_def post_simps
  by (rule post_mono [OF publish_moves [OF assms]]) (auto simp: post_simps)

text \<open>The common start of the operations: the head is read and decoded.\<close>

lemma read_decode_lifted:
  assumes "quietly s t"
    and "\<And>h e u. quietly s u \<Longrightarrow> h \<in> entries (log u) \<Longrightarrow> env_ok i e \<Longrightarrow> stage_at oc i h = env_stage e \<Longrightarrow> post (f h e) Q X (v, u)"
    and "\<And>x u. quietly s u \<Longrightarrow> X x (v, u)"
  shows "post (io_bind (lift_world (os_head (ix_os E) i)) (\<lambda>oh. io_bind (io_lift (ok_or NotFound oh)) (\<lambda>h.
    io_bind (lift_world (own_decode E oc i h)) (f h)))) Q X (v, t)"
  unfolding post_bind post_lift_world
proof (rule post_mono [OF head_quiet [OF assms(1)]])
  fix oh u
  assume oh: "quietly s u \<and> (\<forall>h. oh = Some h \<longrightarrow> h \<in> entries (log u))"
  show "post (io_lift (ok_or NotFound oh)) (\<lambda>h. post (lift_world (own_decode E oc i h)) (\<lambda>e. post (f h e) Q X) X) X (v, u)"
  proof (cases oh)
    case None
    then show ?thesis using oh assms(3) by (simp add: post_simps ok_or_def)
  next
    case (Some h)
    then have h: "h \<in> entries (log u)" "quietly u u" "quietly s u" using oh quiet_refl quiet_good by auto
    have "post (own_decode E oc i h) (\<lambda>e w. post (f h e) Q X (v, w)) (\<lambda>e w. X e (v, w)) u"
      by (rule post_mono [OF own_decode_quiet [OF h(2)]])
        (use h(1,3) in \<open>auto intro!: assms(2,3) intro: quiet_entries quiet_trans\<close>)
    then show ?thesis using Some by (simp add: post_simps ok_or_def)
  qed
qed (rule assms(3))

lemma read_decode:
  assumes "quietly s t"
    and "\<And>h e u. quietly s u \<Longrightarrow> h \<in> entries (log u) \<Longrightarrow> env_ok i e \<Longrightarrow> stage_at oc i h = env_stage e \<Longrightarrow> post (f h e) Q X u"
    and "\<And>x u. quietly s u \<Longrightarrow> X x u"
  shows "post (io_bind (os_head (ix_os E) i) (\<lambda>oh. io_bind (io_lift (ok_or NotFound oh)) (\<lambda>h.
    io_bind (own_decode E oc i h) (f h)))) Q X t"
proof -
  let ?m = "io_bind (os_head (ix_os E) i) (\<lambda>oh. io_bind (io_lift (ok_or NotFound oh)) (\<lambda>h. io_bind (own_decode E oc i h) (f h)))"
  have "post (lift_world ?m) (\<lambda>x w. Q x (snd w)) (\<lambda>x w. X x (snd w)) ((), t)"
    unfolding lift_world_bind lift_world_lift
    by (rule read_decode_lifted [OF assms(1)]) (simp_all add: post_lift_world assms(2,3))
  then show ?thesis by (simp add: post_lift_world)
qed

lemma env_stage_simps:
  "ev_epoch e \<noteq> 0 \<Longrightarrow> ev_owner e = None \<Longrightarrow> env_stage e = Free (ev_epoch e)"
  "ev_epoch e \<noteq> 0 \<Longrightarrow> ev_owner e = Some tk \<Longrightarrow> env_stage e = Held (ev_epoch e) tk"
  "ev_epoch e = 0 \<Longrightarrow> env_stage e = Plain"
  by (simp_all add: env_stage_def)

lemma env_ok_claim: "env_ok i e \<Longrightarrow> valid_hash tk \<Longrightarrow> n \<noteq> 0 \<Longrightarrow> env_ok i (e\<lparr>ev_epoch := n, ev_owner := Some tk\<rparr>)"
  by (simp add: env_ok_def)

lemma env_ok_free: "env_ok i e \<Longrightarrow> env_ok i (e\<lparr>ev_owner := None\<rparr>)"
  by (simp add: env_ok_def)

definition seen :: "stage \<Rightarrow> 's \<Rightarrow> bool" where
  "seen st t \<longleftrightarrow> (\<exists>h \<in> entries (log t). stage_at oc i h = st)"

text \<open>A head that was seen is replaced by the encoding of an envelope.\<close>

lemma replace_moves:
  assumes "quietly s u" "h \<in> entries (log u)" "env_ok i e" "ev_epoch e \<noteq> 0" "own_encode oc e = Ok m"
    and "own_move T (Some (stage_at oc i h)) (env_stage e)"
  shows "post (own_publish_raw (ix_os E) i (h_revision h) m) (\<lambda>_ t. moves T s t \<and> seen (env_stage e) t) (\<lambda>_. moves T s) u"
proof -
  have st: "own_stage oc i m = env_stage e" by (rule own_encode_stage [OF assms(5,3,4)])
  show ?thesis
    by (rule post_mono [OF publish_raw_moves [OF assms(1,2), of T]]) (use st assms(6) in \<open>force simp: seen_def\<close>)+
qed

definition enrolled :: "'s \<Rightarrow> bool" where
  "enrolled t \<longleftrightarrow> (\<exists>e. e \<noteq> 0 \<and> (seen (Free e) t \<or> (\<exists>tk. seen (Held e tk) t)))"

lemma enroll_moves:
  assumes "good s"
  shows "post (enroll E oc i) (\<lambda>_ t. moves T s t \<and> enrolled t) (\<lambda>_. moves T s) s"
proof (cases "valid_id i")
  case True
  have pub: "post (own_publish_raw (ix_os E) i (h_revision h) m) (\<lambda>_ t. moves T s t \<and> enrolled t) (\<lambda>_. moves T s) u"
    if "quietly s u" "h \<in> entries (log u)" "env_ok i e" "stage_at oc i h = env_stage e" "ev_epoch e = 0"
      "own_encode oc (e\<lparr>ev_epoch := 1\<rparr>) = Ok m" for h e u m
  proof -
    have st: "env_stage (e\<lparr>ev_epoch := 1\<rparr>) = Free 1" using that(3,5) by (cases "ev_owner e") (simp_all add: env_ok_def env_stage_def)
    have "post (own_publish_raw (ix_os E) i (h_revision h) m) (\<lambda>_ t. moves T s t \<and> seen (env_stage (e\<lparr>ev_epoch := 1\<rparr>)) t) (\<lambda>_. moves T s) u"
      by (rule replace_moves [OF that(1,2) _ _ that(6)])
        (use that(3-5) st move_enroll [of T] in \<open>simp_all add: env_ok_def env_stage_simps\<close>)
    then show ?thesis unfolding st enrolled_def by (rule post_mono) (auto intro: exI [of _ 1])
  qed
  have held: "enrolled u" if "h \<in> entries (log u)" "stage_at oc i h = env_stage e" "ev_epoch e \<noteq> 0" for h e u
    using that by (cases "ev_owner e") (auto simp: enrolled_def seen_def env_stage_simps)
  show ?thesis
    unfolding enroll_def if_not_P [OF not_not [THEN iffD2, OF True]]
  proof (rule read_decode [OF quiet_refl [OF assms]], goal_cases)
    case (1 h e u)
    then show ?case
      using pub [OF 1] held [OF 1(2,4)]
      by (cases "ev_epoch e = 0"; cases "own_encode oc (e\<lparr>ev_epoch := 1\<rparr>)") (simp_all add: post_simps quiet_moves)
  qed (rule quiet_moves)
qed (use assms in \<open>simp add: enroll_def post_simps quiet_moves quiet_refl\<close>)

text \<open>Claiming: the identity is the owner of a head of the log, by this claim or already.\<close>

lemma claim_moves:
  assumes "quietly s u" "h \<in> entries (log u)" "env_ok i e" "stage_at oc i h = env_stage e" "ev_epoch e \<noteq> 0"
    and "valid_hash (id_token ident)" "id_epoch ident \<noteq> 0"
  shows "post (own_claim E oc i ident h e)
    (\<lambda>_ t. moves (id_token ident) s t \<and> seen (Held (id_epoch ident) (id_token ident)) t) (\<lambda>_. moves (id_token ident) s) u"
proof -
  let ?e = "e\<lparr>ev_epoch := id_epoch ident, ev_owner := Some (id_token ident)\<rparr>" and ?T = "id_token ident"
  have st: "env_stage ?e = Held (id_epoch ident) ?T" using assms(7) by (simp add: env_stage_def)
  have pub: "post (own_publish_raw (ix_os E) i (h_revision h) m)
      (\<lambda>_ t. moves ?T s t \<and> seen (env_stage ?e) t) (\<lambda>_. moves ?T s) u"
    if "ev_owner e = None" "id_epoch ident = Suc (ev_epoch e)" "own_encode oc ?e = Ok m" for m
    by (rule replace_moves [OF assms(1,2) env_ok_claim [OF assms(3,6,7)] _ that(3)])
      (use that(1,2) assms(4,5) st move_claim [of ?T "ev_epoch e"] in \<open>simp_all add: env_stage_simps\<close>)
  show ?thesis
  proof (cases "ev_owner e = Some ?T \<and> ev_epoch e = id_epoch ident")
    case True
    then have "seen (Held (id_epoch ident) ?T) u"
      unfolding seen_def using assms(2,4,5) by (intro bexI [of _ h]) (simp_all add: env_stage_simps)
    then show ?thesis using True assms(1) by (simp add: own_claim_def post_simps quiet_moves)
  next
    case other: False
    show ?thesis
    proof (cases "ev_owner e = None \<and> checked_add (ev_epoch e) 1 = Some (id_epoch ident)")
      case True
      then show ?thesis
        using pub [unfolded st] assms(1)
        by (cases "own_encode oc ?e") (simp_all add: own_claim_def post_simps quiet_moves checked_add_def split: if_splits)
    next
      case False
      then show ?thesis using other assms(1) by (auto simp: own_claim_def post_simps quiet_moves)
    qed
  qed
qed

definition claimed :: "'s \<Rightarrow> identity \<Rightarrow> 's \<Rightarrow> bool" where
  "claimed s ident t \<longleftrightarrow> identity_ok i ident \<and> moves (id_token ident) s t \<and> seen (Held (id_epoch ident) (id_token ident)) t"

lemma open_inner_moves:
  assumes "good s"
  shows "post (open_inner E oc i retiring) (\<lambda>ident w. claimed s ident (snd w)) (\<lambda>_ w. \<exists>T. moves T s (snd w)) (d, s)"
proof -
  note q = quiet_refl [OF assms]
  have failed: "\<exists>T. moves T s (snd (d', u))" if "quietly s u" for d' :: own_dir and u using quiet_moves [OF that] by auto
  have claim: "post (io_bind (on_dir (own_identity oc i e)) (\<lambda>ident.
      io_bind (on_dir (dir_call Store)) (\<lambda>_.
      io_bind (on_dir (dir_call Store)) (\<lambda>_.
      io_bind (on_dir (dir_call Store)) (\<lambda>_.
      io_bind (lift_world (own_claim E oc i ident h e)) (\<lambda>_. io_return ident))))))
      (\<lambda>ident w. claimed s ident (snd w)) (\<lambda>_ w. \<exists>T. moves T s (snd w)) (d', u)"
    if "quietly s u" "h \<in> entries (log u)" "env_ok i e" "stage_at oc i h = env_stage e" "ev_epoch e \<noteq> 0" for h e u d'
  proof (unfold post_bind [of "on_dir (own_identity oc i e)"] post_on_dir, rule post_mono [OF own_identity_ok])
    fix ident d''
    assume ident: "identity_ok i ident"
    show "post (io_bind (on_dir (dir_call Store)) (\<lambda>_. io_bind (on_dir (dir_call Store)) (\<lambda>_. io_bind (on_dir (dir_call Store)) (\<lambda>_.
        io_bind (lift_world (own_claim E oc i ident h e)) (\<lambda>_. io_return ident)))))
        (\<lambda>ident w. claimed s ident (snd w)) (\<lambda>_ w. \<exists>T. moves T s (snd w)) (d'', u)"
      by (intro dir_step failed that(1), unfold post_bind post_lift_world post_return,
          rule post_mono [OF claim_moves [OF that]])
        (use ident in \<open>auto simp: identity_ok_def claimed_def\<close>)
  qed (rule failed [OF that(1)])
  show ?thesis
    unfolding open_inner_def post_if post_throw
  proof (rule if_split [THEN iffD2], intro conjI impI dir_step failed q)
    fix d' assume "\<not> \<not> valid_id i"
    show "post (io_bind (on_dir (\<lambda>d. (Ok (od_retired d), d))) (\<lambda>marked.
        if \<not> retiring \<and> marked then io_throw Conflict
        else io_bind (lift_world (os_head (ix_os E) i)) (\<lambda>oh. io_bind (io_lift (ok_or NotFound oh)) (\<lambda>h.
          io_bind (lift_world (own_decode E oc i h)) (\<lambda>e.
          if ev_epoch e = 0 then io_throw NotReady
          else io_bind (on_dir (own_identity oc i e)) (\<lambda>ident.
            io_bind (on_dir (dir_call Store)) (\<lambda>_. io_bind (on_dir (dir_call Store)) (\<lambda>_. io_bind (on_dir (dir_call Store)) (\<lambda>_.
            io_bind (lift_world (own_claim E oc i ident h e)) (\<lambda>_. io_return ident)))))))))) 
        (\<lambda>ident w. claimed s ident (snd w)) (\<lambda>_ w. \<exists>T. moves T s (snd w)) (d', s)"
      unfolding post_bind [of "on_dir (\<lambda>d. (Ok (od_retired d), d))"] post_on_dir post_read post_if post_throw
      by (rule if_split [THEN iffD2], intro conjI impI failed q, rule read_decode_lifted [OF q])
        (auto simp: post_throw intro: quiet_moves claim)
  qed
qed

text \<open>Releasing: the store is closed at once, and a success leaves the ownership behind.\<close>

definition over :: "identity \<Rightarrow> 's \<Rightarrow> bool" where
  "over ident t \<longleftrightarrow> (\<exists>h \<in> entries (log t). past (id_epoch ident) (stage_at oc i h))"

lemma seen_over: "seen st t \<Longrightarrow> past (id_epoch ident) st \<Longrightarrow> over ident t"
  by (auto simp only: seen_def over_def)

lemma matches_held: "own_matches ident e \<Longrightarrow> env_ok i e \<Longrightarrow> ev_epoch e \<noteq> 0 \<and> env_stage e = Held (id_epoch ident) (id_token ident)"
  by (simp add: own_matches_def env_ok_def env_stage_def)

lemma over_later:
  assumes "h \<in> entries (log u)" "stage_at oc i h = env_stage e" "env_ok i e"
    and "id_epoch ident < ev_epoch e \<or> ev_epoch e = id_epoch ident \<and> ev_owner e = None" "id_epoch ident \<noteq> 0"
  shows "over ident u"
proof -
  have "past (id_epoch ident) (env_stage e)" using assms(4,5) by (cases "ev_owner e") (auto simp: env_stage_def)
  then show ?thesis unfolding over_def using assms(1,2) by (intro bexI [of _ h]) simp_all
qed

lemma release_moves:
  assumes "good s" "identity_ok i ident"
  shows "post (own_release E oc i ident)
    (\<lambda>_ w. \<not> fst w \<and> moves (id_token ident) s (snd w) \<and> over ident (snd w))
    (\<lambda>_ w. \<not> fst w \<and> moves (id_token ident) s (snd w)) (a, s)"
  unfolding own_release_def post_bind [of "set_self False"] post_set_self snd_conv
proof (rule read_decode_lifted [OF quiet_refl [OF assms(1)]], goal_cases)
  case (1 h e u)
  note pub = replace_moves [OF 1(1,2) env_ok_free [OF 1(3)], of _ "id_token ident"]
  show ?case
  proof (cases "own_matches ident e")
    case True
    note held = matches_held [OF True 1(3)]
    have st: "env_stage (e\<lparr>ev_owner := None\<rparr>) = Free (id_epoch ident)"
      using held True by (simp add: env_stage_def own_matches_def)
    have mv: "own_move (id_token ident) (Some (stage_at oc i h)) (env_stage (e\<lparr>ev_owner := None\<rparr>))"
      using held 1(4) st move_release by simp
    have "post (own_publish_raw (ix_os E) i (h_revision h) m)
        (\<lambda>_ t. moves (id_token ident) s t \<and> over ident t) (\<lambda>_. moves (id_token ident) s) u"
      if "own_encode oc (e\<lparr>ev_owner := None\<rparr>) = Ok m" for m
      by (rule post_mono [OF pub [OF _ that mv]]) (use held st in \<open>auto intro: seen_over\<close>)
    then show ?thesis
      using True held 1(1)
      by (cases "own_encode oc (e\<lparr>ev_owner := None\<rparr>)") (simp_all add: post_simps own_matches_def quiet_moves)
  next
    case False
    then show ?thesis
      using over_later [OF 1(2,4,3)] assms(2) quiet_moves [OF 1(1)] by (simp add: post_simps identity_ok_def)
  qed
qed (simp add: quiet_moves)

text \<open>The store of an owner: what it shows is its own, and what it writes replaces its own.\<close>

definition owns :: "identity \<Rightarrow> string \<Rightarrow> 's \<Rightarrow> bool" where
  "owns ident rv t \<longleftrightarrow> (\<exists>h \<in> entries (log t). h_revision h = rv \<and> stage_at oc i h = Held (id_epoch ident) (id_token ident))"

lemma owned_head_owns:
  assumes "good s"
  shows "post (owned_head E oc i ident v)
    (\<lambda>oh w. quietly s (snd w) \<and> (\<exists>h. oh = Some h \<and> owns ident (h_revision h) (snd w))) (\<lambda>_ w. quietly s (snd w)) (a, s)"
proof (cases "a \<and> v = i")
  case True
  show ?thesis
    unfolding owned_head_def guard_step if_P [OF conjunct1 [OF True]] conjunct2 [OF True] simp_thms if_False
  proof (rule read_decode_lifted [OF quiet_refl [OF assms]], goal_cases)
    case (1 h e u)
    then show ?case
      using matches_held [of ident e]
      by (cases "oc_print oc (ev_manifest e)") (auto simp: post_simps ok_or_def owns_def)
  qed simp
qed (use quiet_refl [OF assms] in \<open>auto simp: owned_head_def guard_step post_if post_throw\<close>)

definition calm :: "(bool \<times> 's) cancel \<Rightarrow> bool" where
  "calm cancel \<longleftrightarrow> (\<forall>a t b a' t'. good t \<longrightarrow> cancel (a, t) = (b, a', t') \<longrightarrow> quietly t t')"

lemma calm_never: "calm never"
  by (simp add: calm_def never_def quiet_refl)

lemma calm_raw: "calm cancel \<Longrightarrow> good t \<Longrightarrow> raw_cancel cancel a t = (b, t') \<Longrightarrow> quietly t t'"
  unfolding calm_def raw_cancel_def by (auto split: prod.splits)

lemma owns_mono: "owns ident rv s \<Longrightarrow> quietly s t \<Longrightarrow> owns ident rv t"
  unfolding owns_def using quiet_entries by blast

text \<open>A write of the owner's data over a head that the owner had.\<close>

definition own_data :: "identity \<Rightarrow> string \<Rightarrow> string \<Rightarrow> 's \<Rightarrow> 's \<Rightarrow> bool" where
  "own_data ident rv r s t \<longleftrightarrow> (\<exists>bs. own_stage oc i bs = Held (id_epoch ident) (id_token ident) \<and> wrote_one log good (Some rv) bs r s t)"

lemma publish_own:
  assumes "quietly s u" "own_stage oc i bs = Held (id_epoch ident) (id_token ident)" "calm cancel"
  shows "post (os_publish_cancellable (ix_os E) i (Some rv) bs (raw_cancel cancel a))
    (\<lambda>r. own_data ident rv r s) (\<lambda>_ t. quietly s t \<or> (\<exists>r. own_data ident rv r s t)) u"
proof -
  have w: "own_data ident rv r s t" if "wrote_one log good (Some rv) bs r u t" for r t
    unfolding own_data_def using quiet_wrote [OF assms(1) that] assms(2) by blast
  show ?thesis
    by (rule post_mono [OF publish_cancellable_law [OF quiet_good [OF assms(1)] calm_raw [OF assms(3)]]])
      (use w assms(1) in \<open>auto intro: quiet_trans\<close>)
qed

lemma owned_publish_writes:
  assumes "good s" "identity_ok i ident" "calm cancel"
  shows "post (owned_publish_cancellable E oc i ident v expected m cancel)
    (\<lambda>r w. \<exists>rv. expected = Some rv \<and> own_data ident rv r s (snd w))
    (\<lambda>_ w. quietly s (snd w) \<or> (\<exists>rv r. expected = Some rv \<and> own_data ident rv r s (snd w))) (a, s)"
    (is "post _ ?Q ?X _")
proof -
  let ?env = "\<lambda>e. e\<lparr>ev_epoch := id_epoch ident, ev_owner := Some (id_token ident)\<rparr>"
  have pub: "post (if ev_epoch e \<noteq> 0 then io_throw InvalidInput
      else io_bind (io_lift (own_encode oc (?env e))) (\<lambda>bs (active, s).
        lift_world (os_publish_cancellable (ix_os E) i (Some rv) bs (raw_cancel cancel active)) (active, s))) ?Q ?X (b, u)"
    if "quietly s u" "env_ok i e" "expected = Some rv" for e u rv b
  proof (cases "own_encode oc (?env e)")
    case (Ok bs)
    have "own_stage oc i bs = Held (id_epoch ident) (id_token ident)"
      using own_encode_stage [OF Ok env_ok_claim [OF that(2)]] assms(2) by (simp add: identity_ok_def env_stage_def)
    from publish_own [OF that(1) this assms(3), of rv b]
    have "post (\<lambda>(active, s). lift_world (os_publish_cancellable (ix_os E) i (Some rv) bs (raw_cancel cancel active)) (active, s)) ?Q ?X (b, u)"
      using that(3) by (auto simp: post_def lift_world_def split: prod.splits result.splits)
    then show ?thesis using Ok that(1) by (simp add: post_simps)
  qed (use that(1) in \<open>simp add: post_simps\<close>)
  have guarded: "post (case (if v \<noteq> i then None else expected) of None \<Rightarrow> io_throw InvalidInput
      | Some rv \<Rightarrow> io_bind (lift_world (own_decode E oc v \<lparr>h_revision = rv, h_manifest = m\<rparr>)) (\<lambda>e.
          if ev_epoch e \<noteq> 0 then io_throw InvalidInput
          else io_bind (io_lift (own_encode oc (?env e))) (\<lambda>bs (active, s).
            lift_world (os_publish_cancellable (ix_os E) v (Some rv) bs (raw_cancel cancel active)) (active, s)))) ?Q ?X (b, u)"
    if "quietly s u" for b u
  proof (cases "if v \<noteq> i then None else expected")
    case (Some rv)
    then have v: "v = i" "expected = Some rv" by (auto split: if_splits)
    show ?thesis
      unfolding Some option.case unfolding v(1) post_bind [of "lift_world _"] post_lift_world
      by (rule post_mono [OF own_decode_quiet [OF that]]) (use pub [OF _ _ v(2)] in \<open>blast, simp\<close>)
  qed (use that in \<open>simp add: post_throw\<close>)
  obtain c b u where c: "cancel (a, s) = (c, b, u)" by (metis prod_cases3)
  then have "quietly s u" using assms(1,3) unfolding calm_def by blast
  then show ?thesis
    unfolding owned_publish_cancellable_def post_bind [of "check_cancel cancel"] guard_step
    using guarded c by (auto simp: post_def [of "check_cancel cancel"] check_cancel_def guard_step)
qed

lemma own_data_moves:
  assumes "own_data ident rv r s t" "owns ident rv s" "good s"
  shows "moves (id_token ident) s t \<and> owns ident r t"
proof -
  obtain bs where bs: "own_stage oc i bs = Held (id_epoch ident) (id_token ident)" "wrote_one log good (Some rv) bs r s t"
    using assms(1) by (auto simp: own_data_def)
  obtain h where h: "h \<in> entries (log s)" "h_revision h = rv" "stage_at oc i h = Held (id_epoch ident) (id_token ident)"
    using assms(2) by (auto simp only: owns_def)
  have "own_move (id_token ident) (Some (stage_at oc i h)) (own_stage oc i bs)" using h(3) bs(1) move_data by simp
  then have "moves (id_token ident) s t" by (rule seen_publish [OF bs(2) [folded h(2)] h(1) _ assms(3)])
  moreover have "owns ident r t" unfolding owns_def by (rule bexI [OF _ wrote_entry [OF bs(2)]]) (simp add: bs(1))
  ultimately show ?thesis by blast
qed

lemma owned_publish_moves:
  assumes "good s" "identity_ok i ident" "calm cancel" "\<And>rv. expected = Some rv \<Longrightarrow> owns ident rv s"
  shows "post (owned_publish_cancellable E oc i ident v expected m cancel)
    (\<lambda>r w. moves (id_token ident) s (snd w) \<and> owns ident r (snd w)) (\<lambda>_ w. moves (id_token ident) s (snd w)) (a, s)"
  by (rule post_mono [OF owned_publish_writes [OF assms(1-3)]]) (use own_data_moves [OF _ assms(4,1)] quiet_moves in blast)+

text \<open>In a conforming log, data is written only while the ownership lasts.\<close>

lemma own_data_current:
  assumes "own_data ident rv r s t" "owns ident rv s" "conforms oc i (log t)"
  shows "\<exists>h. current_head (log s) = Some h \<and> stage_at oc i h = Held (id_epoch ident) (id_token ident)"
proof -
  obtain bs ys zs where bs: "own_stage oc i bs = Held (id_epoch ident) (id_token ident)"
      and l: "log t = log s @ ys @ (True, \<lparr>h_revision = r, h_manifest = bs\<rparr>) # zs"
    using assms(1) by (auto simp: own_data_def wrote_one_def)
  obtain y where y: "y \<in> set (log s)" "stage_at oc i (snd y) = Held (id_epoch ident) (id_token ident)"
    using assms(2) by (auto simp: owns_def)
  then obtain a where a: "a < length (log s)" "log s ! a = y" by (auto simp: in_set_conv_nth)
  let ?b = "length (log s) - 1" and ?c = "length (log s) + length ys"
  have n: "log s \<noteq> []" using a(1) by auto
  have "log t ! a = y" "log t ! ?b = last (log s)" "snd (log t ! ?c) = \<lparr>h_revision = r, h_manifest = bs\<rparr>" "?c < length (log t)"
    using a n by (simp_all add: l nth_append last_conv_nth)
  moreover from this one_owner [OF assms(3), of a ?b ?c] have "stage_at oc i (snd (last (log s))) = Held (id_epoch ident) (id_token ident)"
    using a(1) bs y(2) by simp
  ultimately show ?thesis using n by (simp add: current_head_def)
qed

text \<open>Retiring: a tombstone replaces an unowned head or the head of the caller's own identity.\<close>

definition buried :: "string \<Rightarrow> 's \<Rightarrow> 's \<Rightarrow> bool" where
  "buried T s t \<longleftrightarrow> moves T s t \<and> seen Tombstone t"

lemma put_tombstone_moves:
  assumes "moves T s u" "case expected of None \<Rightarrow> True
      | Some rv \<Rightarrow> \<exists>h \<in> entries (log u). h_revision h = rv \<and> own_move T (Some (stage_at oc i h)) Tombstone"
  shows "post (put_tombstone E oc i expected) (\<lambda>_. buried T s) (\<lambda>_. moves T s) u"
proof (cases "tombstone_bytes (oc_tomb oc) i")
  case (Ok m)
  note st = tombstone_stage [OF Ok] and g = moves_good [OF assms(1)]
  have w: "buried T s t" if "wrote_one log good expected m r u t" for r t
  proof -
    have "moves T u t"
    proof (cases expected)
      case None
      show ?thesis by (rule wrote_moves [OF that]) (use None st move_retire in auto)
    next
      case (Some rv)
      then obtain h where h: "h \<in> entries (log u)" "h_revision h = rv" "own_move T (Some (stage_at oc i h)) Tombstone"
        using assms(2) by (auto simp only: option.case)
      show ?thesis by (rule seen_publish [OF that [unfolded Some, folded h(2)] h(1) _ g]) (use st h(3) in simp)
    qed
    moreover have "seen Tombstone t" unfolding seen_def by (rule bexI [OF _ wrote_entry [OF that]]) (simp add: st)
    ultimately show ?thesis unfolding buried_def using moves_trans [OF assms(1)] by blast
  qed
  have "post (os_publish (ix_os E) i expected m) (\<lambda>_. buried T s) (\<lambda>_. moves T s) u"
    by (rule post_mono [OF publish_law [OF g]]) (use w assms(1) in \<open>auto simp: buried_def intro: moves_trans quiet_moves\<close>)
  then show ?thesis using Ok by (simp add: put_tombstone_def post_simps)
qed (use assms(1) in \<open>simp add: put_tombstone_def post_simps\<close>)

lemma retire_owned_moves:
  assumes "good s"
  shows "post (retire_owned E oc i) (\<lambda>_ w. \<exists>T. buried T s (snd w)) (\<lambda>_ w. \<exists>T. moves T s (snd w)) (d, s)"
  unfolding retire_owned_def post_bind [of "open_inner E oc i True"]
proof (rule post_mono [OF open_inner_moves [OF assms]])
  fix ident and w :: "own_dir \<times> 's"
  assume c: "claimed s ident (snd w)"
  obtain d' t where w: "w = (d', t)" by (cases w)
  let ?T = "id_token ident"
  have t: "moves ?T s t" "good t" using c moves_good by (auto simp: claimed_def w)
  show "post (io_bind (lift_world (os_head (ix_os E) i)) (\<lambda>oh. io_bind (io_lift (ok_or NotFound oh)) (\<lambda>h.
      io_bind (lift_world (own_decode E oc i h)) (\<lambda>e.
        if \<not> own_matches ident e then io_throw Conflict
        else lift_world (put_tombstone E oc i (Some (h_revision h)))))))
      (\<lambda>_ w. \<exists>T. buried T s (snd w)) (\<lambda>_ w. \<exists>T. moves T s (snd w)) w"
    unfolding w
  proof (rule read_decode_lifted [OF quiet_refl [OF t(2)]], goal_cases)
    case (1 h e u)
    note u = moves_trans [OF t(1) quiet_moves [OF 1(1)]]
    show ?case
    proof (cases "own_matches ident e")
      case True
      have "own_move ?T (Some (stage_at oc i h)) Tombstone"
        using matches_held [OF True 1(3)] 1(4) by (auto intro: move_retire)
      then have "post (put_tombstone E oc i (Some (h_revision h))) (\<lambda>_. buried ?T s) (\<lambda>_. moves ?T s) u"
        by (intro put_tombstone_moves [OF u]) (simp only: option.case, rule bexI [OF _ 1(2)], simp)
      then show ?thesis using True by (auto simp: post_simps elim!: post_mono)
    qed (use u in \<open>auto simp: post_throw\<close>)
  qed (auto intro: moves_trans [OF t(1) quiet_moves])
qed

lemma retired_stage:
  assumes "retired (oc_tomb oc) i h = Ok True"
  shows "stage_at oc i h = Tombstone"
proof (cases "tc_parse (oc_tomb oc) (h_manifest h)")
  case None
  then show ?thesis using assms by (simp add: retired_def ok_or_def res_bind_def split: if_splits)
next
  case (Some v)
  then show ?thesis using assms json_laws(5) [of v] by (auto simp: retired_def ok_or_def res_bind_def own_stage_def split: if_splits)
qed

lemma check_plain_quiet:
  assumes "quietly s t"
  shows "post (check_plain E oc i v h) (\<lambda>_. quietly s) (\<lambda>_. quietly s) t"
proof -
  have d: "post (decode_head E i h' ready) (\<lambda>_. quietly s) (\<lambda>_. quietly s) u" if "quietly s u" for h' ready u
    by (rule post_mono [OF decode_head_quiet [OF that]]) auto
  have "post (decode_head E i h' False) (\<lambda>x. post (if rt_ready (x_root x) \<or> rt_format (x_root x) \<noteq> 2 \<or> x_size x \<noteq> sz
      then io_throw Conflict else io_return x) (\<lambda>_. quietly s) (\<lambda>_. quietly s)) (\<lambda>_. quietly s) u" if "quietly s u" for h' sz u
    by (rule post_mono [OF d [OF that]]) (auto simp: post_simps)
  then have "post (resume_import E i sz) (\<lambda>_. quietly s) (\<lambda>_. quietly s) t" for sz
    unfolding resume_import_def using assms
    by (auto simp: post_if post_throw post_bind ok_or_def post_lift split: option.split intro!: post_mono [OF head_quiet [OF assms]])
  then show ?thesis
    unfolding check_plain_def using d [OF assms] assms by (auto simp: post_simps from_head_def ok_or_def split: option.split elim!: post_mono)
qed

lemma retire_plain:
  assumes "quietly s u" "h \<in> entries (log u)" "tc_parse (oc_tomb oc) (h_manifest h) = Some v" "oc_format oc v \<in> {Some 2, Some 6, Some 8, Some 10}"
  shows "post (io_bind (check_plain E oc i v h) (\<lambda>_. put_tombstone E oc i (Some (h_revision h)))) (\<lambda>_. buried T s) (\<lambda>_. moves T s) u"
  unfolding post_bind
proof (rule post_mono [OF check_plain_quiet [OF quiet_refl [OF quiet_good [OF assms(1)]]]])
  fix t
  assume t: "quietly u t"
  have "stage_at oc i h = Plain" using assms(3,4) by (auto simp: own_stage_def)
  then have "own_move T (Some (stage_at oc i h)) Tombstone" by (simp add: move_retire)
  then show "post (put_tombstone E oc i (Some (h_revision h))) (\<lambda>_. buried T s) (\<lambda>_. moves T s) t"
    by (intro put_tombstone_moves [OF quiet_moves [OF quiet_trans [OF assms(1) t]]])
      (simp only: option.case, rule bexI [OF _ quiet_entries [OF t assms(2)]], simp)
qed (rule quiet_moves [OF quiet_trans [OF assms(1)]])

lemma retire_enveloped:
  assumes "quietly s u" "h \<in> entries (log u)"
  shows "post (io_bind (lift_world (own_decode E oc i h)) (\<lambda>e.
      if ev_epoch e \<noteq> 0 \<and> ev_owner e = None then lift_world (put_tombstone E oc i (Some (h_revision h)))
      else retire_owned E oc i)) (\<lambda>_ w. \<exists>T. buried T s (snd w)) (\<lambda>_ w. \<exists>T. moves T s (snd w)) (d, u)"
  unfolding post_bind [of "lift_world _"] post_lift_world
proof (rule post_mono [OF own_decode_quiet [OF quiet_refl [OF quiet_good [OF assms(1)]]]])
  fix e t
  assume t: "quietly u t \<and> env_ok i e \<and> stage_at oc i h = env_stage e"
  then have st: "quietly s t" "h \<in> entries (log t)" using assms quiet_trans quiet_entries by blast+
  show "post (if ev_epoch e \<noteq> 0 \<and> ev_owner e = None then lift_world (put_tombstone E oc i (Some (h_revision h)))
      else retire_owned E oc i) (\<lambda>_ w. \<exists>T. buried T s (snd w)) (\<lambda>_ w. \<exists>T. moves T s (snd w)) (d, t)"
  proof (cases "ev_epoch e \<noteq> 0 \<and> ev_owner e = None")
    case True
    then have "own_move [] (Some (stage_at oc i h)) Tombstone" using t by (auto simp: env_stage_simps intro: move_retire)
    then have "post (put_tombstone E oc i (Some (h_revision h))) (\<lambda>_. buried [] s) (\<lambda>_. moves [] s) t"
      by (intro put_tombstone_moves [OF quiet_moves [OF st(1)]]) (simp only: option.case, rule bexI [OF _ st(2)], simp)
    then show ?thesis unfolding if_P [OF True] post_lift_world snd_conv by (rule post_mono) blast+
  next
    case False
    show ?thesis
      unfolding if_not_P [OF False]
      by (rule post_mono [OF retire_owned_moves [OF quiet_good [OF st(1)]]])
        (auto simp: buried_def intro: moves_trans [OF quiet_moves [OF st(1)]])
  qed
qed (auto intro: quiet_moves quiet_trans [OF assms(1)])

lemma retire_head_moves:
  assumes "quietly s u" "h \<in> entries (log u)"
  shows "post (retire_head E oc i h) (\<lambda>_ w. \<exists>T. buried T s (snd w)) (\<lambda>_ w. \<exists>T. moves T s (snd w)) (d, u)"
proof (cases "retired (oc_tomb oc) i h")
  case (Ok r)
  let ?Q = "\<lambda>_ w :: own_dir \<times> 's. \<exists>T. buried T s (snd w)" and ?X = "\<lambda>_ w :: own_dir \<times> 's. \<exists>T. moves T s (snd w)"
  have failed: "\<exists>T. moves T s u" using quiet_moves [OF assms(1)] by auto
  show ?thesis
  proof (cases r)
    case True
    then have "stage_at oc i h = Tombstone" using Ok retired_stage by simp
    then have "buried [] s u" unfolding buried_def seen_def using quiet_moves [OF assms(1)] assms(2) by blast
    then show ?thesis using Ok True by (auto simp: retire_head_def post_simps)
  next
    case False
    show ?thesis
    proof (cases "tc_parse (oc_tomb oc) (h_manifest h)")
      case None
      then show ?thesis using Ok False failed by (simp add: retire_head_def post_simps ok_or_def)
    next
      case (Some v)
      have plain: "post (io_bind (lift_world (check_plain E oc i v h)) (\<lambda>_. lift_world (put_tombstone E oc i (Some (h_revision h))))) ?Q ?X (d, u)"
        if "oc_format oc v \<in> {Some 2, Some 6, Some 8, Some 10}"
        unfolding lift_world_bind [symmetric] post_lift_world snd_conv
        by (rule post_mono [OF retire_plain [OF assms Some that, of "[]"]]) auto
      show ?thesis
        unfolding retire_head_def Ok Some post_bind [of "io_lift _"] post_lift result.case ok_or_def option.case if_not_P [OF False] post_if
        using retire_enveloped [OF assms, of d] plain by simp
    qed
  qed
qed (use quiet_moves [OF assms(1)] in \<open>auto simp: retire_head_def post_simps\<close>)

lemma retire_moves:
  assumes "good s"
  shows "post (retire E oc i absolute) (\<lambda>_ w. \<exists>T. buried T s (snd w)) (\<lambda>_ w. \<exists>T. moves T s (snd w)) (d, s)"
proof (cases "valid_id i \<and> absolute")
  case True
  have absent: "post (lift_world (put_tombstone E oc i None)) (\<lambda>_ w. \<exists>T. buried T s (snd w)) (\<lambda>_ w. \<exists>T. moves T s (snd w)) (d, u)"
    if "quietly s u" for u
    unfolding post_lift_world snd_conv
    by (rule post_mono [OF put_tombstone_moves [OF quiet_moves [OF that], where expected = None and T = "[]"]]) auto
  have "retire E oc i absolute = io_bind (lift_world (os_head (ix_os E) i))
      (\<lambda>oh. case oh of None \<Rightarrow> lift_world (put_tombstone E oc i None) | Some h \<Rightarrow> retire_head E oc i h)"
    using True by (simp add: retire_def)
  then show ?thesis
    unfolding post_bind [of "lift_world _"] post_lift_world
    by (simp only: post_bind post_lift_world)
      (rule post_mono [OF head_quiet [OF quiet_refl [OF assms]]],
       use absent retire_head_moves in \<open>auto split: option.split intro: quiet_moves\<close>)
qed (use quiet_moves [OF quiet_refl [OF assms]] in \<open>auto simp: retire_def post_throw\<close>)

end

end
