(* ===== verification/Shared_Volume.thy ===== *)
theory Shared_Volume
  imports Ownership
begin

text \<open>
  A volume that several hosts share. Any store that keeps the store contract, and whose
  revisions are never reused for another content, gives a host the interface of
  \<open>Ownership\<close> when the conditional writes of other hosts happen between its calls. The S3
  adapter over a service that numbers its entity tags is such a store. The safety
  properties of exclusive ownership are stated at the end.
\<close>

section \<open>Other hosts\<close>

text \<open>
  The world of one host: the store, the log of the heads of the volume, and the conditional
  writes of others that are still to come, one before each call.
\<close>

record 's shared =
  sh_world :: 's
  sh_log :: head_log
  sh_others :: "(string option \<times> bytes) list"

definition publish_as ::
  "'s object_store \<Rightarrow> ('s \<Rightarrow> heads_view) \<Rightarrow> string \<Rightarrow> bool \<Rightarrow> string \<Rightarrow> string option \<Rightarrow> bytes \<Rightarrow> ('s shared, string, verror) io" where
  "publish_as os heads i mine v expected m w =
     (case os_publish os v expected m (sh_world w) of
        (r, s) \<Rightarrow>
          (r, w\<lparr>sh_world := s,
             sh_log := sh_log w @
               (if v \<noteq> i then []
                else case r of
                    Ok rv \<Rightarrow> [(mine, \<lparr>h_revision = rv, h_manifest = m\<rparr>)]
                  | Err _ \<Rightarrow> (if heads s i = heads (sh_world w) i then [] else [(mine, the (heads s i))]))\<rparr>))"

definition others_act :: "'s object_store \<Rightarrow> ('s \<Rightarrow> heads_view) \<Rightarrow> string \<Rightarrow> 's shared \<Rightarrow> 's shared" where
  "others_act os heads i w =
     (case sh_others w of
        [] \<Rightarrow> w
      | (expected, m) # rest \<Rightarrow> snd (publish_as os heads i False i expected m (w\<lparr>sh_others := rest\<rparr>)))"

definition observed :: "'s object_store \<Rightarrow> ('s \<Rightarrow> heads_view) \<Rightarrow> string \<Rightarrow> ('s, 'a, verror) io \<Rightarrow> ('s shared, 'a, verror) io" where
  "observed os heads i m w =
     (let w1 = others_act os heads i w in case m (sh_world w1) of (r, s) \<Rightarrow> (r, w1\<lparr>sh_world := s\<rparr>))"

definition shared_publish ::
  "'s object_store \<Rightarrow> ('s \<Rightarrow> heads_view) \<Rightarrow> string \<Rightarrow> string \<Rightarrow> string option \<Rightarrow> bytes \<Rightarrow> ('s shared, string, verror) io" where
  "shared_publish os heads i v expected m w = publish_as os heads i True v expected m (others_act os heads i w)"

definition shared_store :: "'s object_store \<Rightarrow> ('s \<Rightarrow> heads_view) \<Rightarrow> string \<Rightarrow> 's shared object_store" where
  "shared_store os heads i = \<lparr>
     os_base_chunk = (\<lambda>img h off. observed os heads i (os_base_chunk os img h off)),
     os_prefetch_base = (\<lambda>img hs w. w\<lparr>sh_world := os_prefetch_base os img hs (sh_world w)\<rparr>),
     os_prefetch = (\<lambda>v ds w. w\<lparr>sh_world := os_prefetch os v ds (sh_world w)\<rparr>),
     os_cached_chunk = (\<lambda>v d w. os_cached_chunk os v d (sh_world w)),
     os_list_chunks = (\<lambda>v n. observed os heads i (os_list_chunks os v n)),
     os_list_chunks_after = (\<lambda>v a n. observed os heads i (os_list_chunks_after os v a n)),
     os_delete_chunk = (\<lambda>v d. observed os heads i (os_delete_chunk os v d)),
     os_delete_chunks = (\<lambda>v ds. observed os heads i (os_delete_chunks os v ds)),
     os_head = (\<lambda>v. observed os heads i (os_head os v)),
     os_chunk = (\<lambda>v d. observed os heads i (os_chunk os v d)),
     os_put_chunk = (\<lambda>v d bs. observed os heads i (os_put_chunk os v d bs)),
     os_put_chunk_cancellable = default_put_chunk_cancellable (\<lambda>v d bs. observed os heads i (os_put_chunk os v d bs)),
     os_publish = shared_publish os heads i,
     os_publish_cancellable = default_publish_cancellable (shared_publish os heads i)\<rparr>"

definition shared_env :: "'s ix_env \<Rightarrow> ('s \<Rightarrow> heads_view) \<Rightarrow> string \<Rightarrow> 's shared ix_env" where
  "shared_env E heads i = \<lparr>ix_codec = ix_codec E, ix_os = shared_store (ix_os E) heads i,
     ix_now = (\<lambda>w. case ix_now E (sh_world w) of (t, s) \<Rightarrow> (t, w\<lparr>sh_world := s\<rparr>)),
     ix_sched = (\<lambda>w. ix_sched E (sh_world w))\<rparr>"

section \<open>Stores whose revisions are not reused\<close>

definition one_content :: "head set \<Rightarrow> bool" where
  "one_content H \<longleftrightarrow> (\<forall>h h'. h \<in> H \<longrightarrow> h' \<in> H \<longrightarrow> h_revision h = h_revision h' \<longrightarrow> h_manifest h = h_manifest h')"

lemma one_contentD: "one_content H \<Longrightarrow> h \<in> H \<Longrightarrow> h' \<in> H \<Longrightarrow> h_revision h = h_revision h' \<Longrightarrow> h_manifest h = h_manifest h'"
  unfolding one_content_def by blast

lemma one_content_insert:
  assumes "one_content H" "\<And>h'. h' \<in> H \<Longrightarrow> h_revision h' = h_revision h \<Longrightarrow> h_manifest h' = h_manifest h"
  shows "one_content (insert h H)"
  using assms unfolding one_content_def by (metis insert_iff)

locale tagged_store =
  fixes E :: "'s ix_env" and heads :: "'s \<Rightarrow> heads_view" and objs :: "'s \<Rightarrow> objs_view"
    and ok :: "head set \<Rightarrow> 's \<Rightarrow> bool" and B :: base_view and i :: string and oc :: "'j own_codec"
  assumes store: "indexed_store E heads objs (ok L) B"
    and grow: "ok L s \<Longrightarrow> heads s i = Some h \<Longrightarrow> ok (insert h L) s"
    and agree: "ok L s \<Longrightarrow> heads s i = Some h \<Longrightarrow> h' \<in> L \<Longrightarrow> h_revision h' = h_revision h \<Longrightarrow> h_manifest h' = h_manifest h"
    and id: "valid_id i"
    and codec: "own_codec_ok (ix_codec E) oc"
begin

definition good :: "'s shared \<Rightarrow> bool" where
  "good w \<longleftrightarrow> ok (entries (sh_log w)) (sh_world w) \<and> current_head (sh_log w) = heads (sh_world w) i \<and> one_content (entries (sh_log w))"

lemma good_keep:
  assumes "good w" "ok (entries (sh_log w)) s" "heads s i = heads (sh_world w) i"
  shows "good (w\<lparr>sh_world := s\<rparr>)"
  using assms unfolding good_def by simp

lemma good_append:
  assumes "good w" "ok (entries (sh_log w)) s" "heads s i = Some h"
  shows "good (w\<lparr>sh_world := s, sh_log := sh_log w @ [(mine, h)]\<rparr>)"
proof -
  have "one_content (insert h (entries (sh_log w)))"
    using one_content_insert [OF _ agree [OF assms(2,3)]] assms(1) unfolding good_def by blast
  then show ?thesis using grow [OF assms(2,3)] assms(3) unfolding good_def by (simp add: current_head_def)
qed

text \<open>One conditional write, by this host or another.\<close>

lemma publish_as_post:
  assumes "good w" "publish_as (ix_os E) heads i mine i expected m w = (r, w')"
  shows "good w' \<and> sh_others w' = sh_others w
    \<and> (sh_log w' = sh_log w \<and> (\<forall>rv. r \<noteq> Ok rv)
       \<or> (\<exists>rv. sh_log w' = sh_log w @ [(mine, \<lparr>h_revision = rv, h_manifest = m\<rparr>)] \<and> (\<forall>x. r = Ok x \<longrightarrow> x = rv)
            \<and> map_option h_revision (current_head (sh_log w)) = expected))"
proof -
  obtain s where run: "os_publish (ix_os E) i expected m (sh_world w) = (r, s)"
    using assms(2) by (auto simp: publish_as_def split: prod.splits)
  have g: "ok (entries (sh_log w)) (sh_world w)" "current_head (sh_log w) = heads (sh_world w) i" using assms(1) by (simp_all add: good_def)
  have laws: "object_store_laws (ix_os E) heads objs (ok (entries (sh_log w)))"
    using store [of "entries (sh_log w)"] by (simp add: indexed_store_def)
  note law = object_store_laws.publish_law [OF laws g(1) id, of expected m]
  show ?thesis
  proof (cases r)
    case (Ok rv)
    from post_run [OF law] run Ok
    have s: "ok (entries (sh_log w)) s" "heads s i = Some \<lparr>h_revision = rv, h_manifest = m\<rparr>"
        "map_option h_revision (heads (sh_world w) i) = expected" by auto
    have "w' = w\<lparr>sh_world := s, sh_log := sh_log w @ [(mine, \<lparr>h_revision = rv, h_manifest = m\<rparr>)]\<rparr>"
      using assms(2) run Ok by (simp add: publish_as_def)
    then show ?thesis using good_append [OF assms(1) s(1,2)] s(3) g(2) Ok by auto
  next
    case (Err e)
    from post_run_err [OF law] run Err
    have s: "ok (entries (sh_log w)) s" "heads s i = heads (sh_world w) i \<or> map_option h_revision (heads (sh_world w) i) = expected
        \<and> (\<exists>rv. heads s i = Some \<lparr>h_revision = rv, h_manifest = m\<rparr>)" by auto
    have w': "w' = w\<lparr>sh_world := s, sh_log := sh_log w @ (if heads s i = heads (sh_world w) i then [] else [(mine, the (heads s i))])\<rparr>"
      using assms(2) run Err by (simp add: publish_as_def)
    show ?thesis
    proof (cases "heads s i = heads (sh_world w) i")
      case True
      then show ?thesis using good_keep [OF assms(1) s(1)] w' Err by simp
    next
      case False
      then obtain rv where rv: "heads s i = Some \<lparr>h_revision = rv, h_manifest = m\<rparr>" "map_option h_revision (heads (sh_world w) i) = expected"
        using s(2) by blast
      then show ?thesis using good_append [OF assms(1) s(1) rv(1)] w' False Err g(2) by auto
    qed
  qed
qed

lemma others_quiet: "good w \<Longrightarrow> others_only sh_log good w (others_act (ix_os E) heads i w)"
proof (cases "sh_others w")
  case (Cons x rest)
  assume g: "good w"
  obtain expected m where x: "x = (expected, m)" by (cases x)
  obtain r w' where run: "publish_as (ix_os E) heads i False i expected m (w\<lparr>sh_others := rest\<rparr>) = (r, w')" by (metis prod.exhaust)
  have "good (w\<lparr>sh_others := rest\<rparr>)" using g unfolding good_def by simp
  from publish_as_post [OF this run] show ?thesis
    using Cons x run by (auto simp: others_act_def others_only_def)
qed (simp add: others_act_def others_only_def)

lemma observed_quiet:
  assumes "good w"
    and "\<And>s L. ok L s \<Longrightarrow> post m (\<lambda>x s'. ok L s' \<and> heads s' = heads s \<and> Q x s) (\<lambda>_ s'. ok L s' \<and> heads s' = heads s) s"
  shows "post (observed (ix_os E) heads i m)
    (\<lambda>x w'. others_only sh_log good w w' \<and> (\<exists>s. heads s i = current_head (sh_log w') \<and> Q x s)) (\<lambda>_. others_only sh_log good w) w"
proof -
  define w1 where "w1 = others_act (ix_os E) heads i w"
  have q: "others_only sh_log good w w1" using others_quiet [OF assms(1)] by (simp add: w1_def)
  then have g: "good w1" "ok (entries (sh_log w1)) (sh_world w1)" "current_head (sh_log w1) = heads (sh_world w1) i"
    by (simp_all add: others_only_def good_def)
  obtain r s where run: "m (sh_world w1) = (r, s)" by (metis prod.exhaust)
  have res: "observed (ix_os E) heads i m w = (r, w1\<lparr>sh_world := s\<rparr>)"
    by (simp add: observed_def Let_def run flip: w1_def)
  have s: "ok (entries (sh_log w1)) s" "heads s = heads (sh_world w1)" "\<forall>x. r = Ok x \<longrightarrow> Q x (sh_world w1)"
    using assms(2) [OF g(2)] run by (cases r; simp add: post_def)+
  have "others_only sh_log good w (w1\<lparr>sh_world := s\<rparr>)"
    using q good_keep [OF g(1) s(1)] s(2) by (auto simp: others_only_def)
  then show ?thesis using s g(3) res by (cases r) (auto simp: post_def)
qed

lemma shared_publish_post:
  assumes "good w"
  shows "post (shared_publish (ix_os E) heads i i expected m) (\<lambda>r. wrote_one sh_log good expected m r w)
    (\<lambda>_ w'. others_only sh_log good w w' \<or> (\<exists>r. wrote_one sh_log good expected m r w w')) w"
proof -
  define w1 where "w1 = others_act (ix_os E) heads i w"
  have q: "others_only sh_log good w w1" using others_quiet [OF assms] by (simp add: w1_def)
  obtain r w2 where run: "publish_as (ix_os E) heads i True i expected m w1 = (r, w2)" by (metis prod.exhaust)
  have g: "good w1" using q by (simp add: others_only_def)
  have "good w2 \<and> sh_log w2 = sh_log w1 \<and> (\<forall>rv. r \<noteq> Ok rv) \<or> (\<exists>rv. wrote_one sh_log good expected m rv w1 w2 \<and> (\<forall>x. r = Ok x \<longrightarrow> x = rv))"
    using publish_as_post [OF g run] unfolding wrote_one_def by fastforce
  then have "others_only sh_log good w w2 \<and> (\<forall>rv. r \<noteq> Ok rv) \<or> (\<exists>rv. wrote_one sh_log good expected m rv w w2 \<and> (\<forall>x. r = Ok x \<longrightarrow> x = rv))"
  proof
    assume "good w2 \<and> sh_log w2 = sh_log w1 \<and> (\<forall>rv. r \<noteq> Ok rv)"
    then show ?thesis using q unfolding others_only_def by simp
  qed (use quiet_wrote [OF q] in blast)
  then show ?thesis
    using run by (cases r) (auto simp: post_def shared_publish_def simp flip: w1_def)
qed

lemma shared_laws: "shared_head (shared_env E heads i) oc i sh_log good"
proof
  fix w :: "'s shared"
  assume g: "good w"
  note st = indexed_store.base_law [OF store]
  have laws: "object_store_laws (ix_os E) heads objs (ok L)" for L using store [of L] by (simp add: indexed_store_def)
  have hd: "post (os_head (ix_os E) i) (\<lambda>x s'. ok L s' \<and> heads s' = heads s \<and> x = heads s i) (\<lambda>_ s'. ok L s' \<and> heads s' = heads s) s"
    if "ok L s" for L s
    by (rule post_mono [OF object_store_laws.head_law [OF laws that id]]) auto
  have "h \<in> entries l" if "current_head l = Some h" for l h
    using that last_in_set [of l] by (auto simp: current_head_def split: if_splits)
  then show "post (os_head (ix_os (shared_env E heads i)) i)
      (\<lambda>oh w'. others_only sh_log good w w' \<and> (\<forall>h. oh = Some h \<longrightarrow> h \<in> entries (sh_log w'))) (\<lambda>_. others_only sh_log good w) w"
    using observed_quiet [where Q = "\<lambda>x s. x = heads s i", OF g hd]
    by (simp add: shared_env_def shared_store_def) (erule post_mono, auto)
  show "post (os_base_chunk (ix_os (shared_env E heads i)) img hash off) (\<lambda>_. others_only sh_log good w) (\<lambda>_. others_only sh_log good w) w" for img hash off
  proof -
    have "post (os_base_chunk (ix_os E) img hash off) (\<lambda>x s'. ok L s' \<and> heads s' = heads s \<and> True) (\<lambda>_ s'. ok L s' \<and> heads s' = heads s) s"
      if "ok L s" for L s
      by (rule post_mono [OF indexed_store.base_law [OF store that]]) auto
    from observed_quiet [where Q = "\<lambda>_ _. True", OF g this] show ?thesis
      by (simp add: shared_env_def shared_store_def) (erule post_mono, auto)
  qed
  show pub: "post (os_publish (ix_os (shared_env E heads i)) i expected m) (\<lambda>r. wrote_one sh_log good expected m r w)
      (\<lambda>_ w'. others_only sh_log good w w' \<or> (\<exists>r. wrote_one sh_log good expected m r w w')) w" for expected m
    using shared_publish_post [OF g] by (simp add: shared_env_def shared_store_def)
  show "post (os_publish_cancellable (ix_os (shared_env E heads i)) i expected m cancel) (\<lambda>r. wrote_one sh_log good expected m r w)
      (\<lambda>_ w'. others_only sh_log good w w' \<or> (\<exists>r. wrote_one sh_log good expected m r w w')) w"
    if calm: "\<And>t b t'. good t \<Longrightarrow> cancel t = (b, t') \<Longrightarrow> others_only sh_log good t t'" for expected m cancel
  proof -
    obtain b u where c: "cancel w = (b, u)" by (cases "cancel w")
    then have q: "others_only sh_log good w u" "good u" using calm [OF g] by (auto simp: others_only_def)
    have "post (shared_publish (ix_os E) heads i i expected m) (\<lambda>r. wrote_one sh_log good expected m r w)
        (\<lambda>_ w'. others_only sh_log good w w' \<or> (\<exists>r. wrote_one sh_log good expected m r w w')) u"
      by (rule post_mono [OF shared_publish_post [OF q(2)]]) (use quiet_wrote [OF q(1)] quiet_then [OF q(1)] in blast)+
    then show ?thesis
      using c q(1)
      by (auto simp: shared_env_def shared_store_def default_publish_cancellable_def post_bind post_def [of "check_cancel cancel"] check_cancel_def)
  qed
  show "h_manifest h = h_manifest h'" if "h \<in> entries (sh_log w)" "h' \<in> entries (sh_log w)" "h_revision h = h_revision h'" for h h'
    using g one_contentD [OF _ that] unfolding good_def by blast
qed (use codec in \<open>simp add: shared_env_def\<close>)

end

sublocale tagged_store \<subseteq> shared: shared_head "shared_env E heads i" oc i sh_log good
  by (rule shared_laws)

section \<open>The S3 adapter\<close>

text \<open>The service numbers its entity tags; those of \<open>L\<close> were given out, for their content only.\<close>

definition tags_ok :: "s3_config \<Rightarrow> string \<Rightarrow> head set \<Rightarrow> service_state \<Rightarrow> bool" where
  "tags_ok cf i L s \<longleftrightarrow> service_ok s
     \<and> (\<forall>h \<in> L. (\<exists>n \<le> sv_count s. h_revision h = service_tag n)
          \<and> (\<forall>b. sv_objects s (s3_url cf i ''head.json'') = Some (h_revision h, b) \<longrightarrow> b = h_manifest h))"

lemma tags_okD:
  assumes "tags_ok cf i L s" "h \<in> L"
  shows "\<exists>n \<le> sv_count s. h_revision h = service_tag n"
    and "sv_objects s (s3_url cf i ''head.json'') = Some (h_revision h, b) \<Longrightarrow> b = h_manifest h"
  using assms unfolding tags_ok_def by simp_all

lemma tags_ok_send:
  assumes "tags_ok cf i L s" "service_ok s'" "service_send meth url hs b s = (r, s')"
  shows "tags_ok cf i L s'"
proof -
  have "s' = s \<or> (\<exists>u b. s' = s\<lparr>sv_count := Suc (sv_count s), sv_objects := (sv_objects s)(u \<mapsto> (service_tag (Suc (sv_count s)), b))\<rparr>)"
    using assms(3) by (auto simp: service_send_def split: http_method.splits option.splits if_splits)
  then show ?thesis
  proof
    assume "\<exists>u b. s' = s\<lparr>sv_count := Suc (sv_count s), sv_objects := (sv_objects s)(u \<mapsto> (service_tag (Suc (sv_count s)), b))\<rparr>"
    then obtain u b where s': "s' = s\<lparr>sv_count := Suc (sv_count s), sv_objects := (sv_objects s)(u \<mapsto> (service_tag (Suc (sv_count s)), b))\<rparr>" by blast
    have "(\<exists>n \<le> sv_count s'. h_revision h = service_tag n)
        \<and> (\<forall>b. sv_objects s' (s3_url cf i ''head.json'') = Some (h_revision h, b) \<longrightarrow> b = h_manifest h)" if hL: "h \<in> L" for h
    proof -
      obtain n where n: "n \<le> sv_count s" "h_revision h = service_tag n" using tags_okD(1) [OF assms(1) hL] by blast
      have "n \<le> sv_count s'" using n(1) s' by simp
      moreover have "service_tag (Suc (sv_count s)) \<noteq> h_revision h" using n(1,2) by simp
      then have "sv_objects s' (s3_url cf i ''head.json'') = Some (h_revision h, b) \<Longrightarrow> b = h_manifest h" for b
        using tags_okD(2) [OF assms(1) hL, of b] s' by (simp split: if_splits)
      ultimately show ?thesis using n(2) by blast
    qed
    then show ?thesis using assms(2) unfolding tags_ok_def by blast
  qed (use assms(1) in simp)
qed

lemma tagged_service: "s3_service (service_env dg) cf sv_objects (tags_ok cf' i L)"
proof
  fix s v suffix url r s'
  assume a: "tags_ok cf' i L s" "valid_id v" "s3_suffix suffix" "url = s3_url cf v suffix" "e_send (service_env dg) GET url [] [] s = (r, s')"
  have ok: "service_ok s" using a(1) by (simp add: tags_ok_def)
  show "tags_ok cf' i L s' \<and> sv_objects s' = sv_objects s
      \<and> (\<forall>resp. r = Some resp \<longrightarrow>
           (r_status resp = 404 \<longrightarrow> sv_objects s url = None)
           \<and> (r_status resp = 200 \<longrightarrow>
                (\<exists>tag bs. sv_objects s url = Some (tag, bs) \<and> r_etag resp = Some tag
                   \<and> (\<forall>b. r_body resp = Some b \<longrightarrow> b = bs))))"
    using service.get_law [OF ok a(2-5)] tags_ok_send [OF a(1)] a(5) by (simp add: service_env_def)
next
  fix s v suffix url expected b r s'
  assume a: "tags_ok cf' i L s" "valid_id v" "s3_suffix suffix" "url = s3_url cf v suffix"
    "e_send (service_env dg) PUT url [s3_condition expected] b s = (r, s')"
  have ok: "service_ok s" using a(1) by (simp add: tags_ok_def)
  show "tags_ok cf' i L s' \<and>
      (case r of
         Some resp \<Rightarrow>
           if r_status resp = 200
           then \<exists>tag. s3_stored (sv_objects s) (sv_objects s') url expected b tag \<and> (\<forall>t. r_etag resp = Some t \<longrightarrow> t = tag)
           else if r_status resp = 412 then sv_objects s' = sv_objects s
           else sv_objects s' = sv_objects s \<or> (\<exists>tag. s3_stored (sv_objects s) (sv_objects s') url expected b tag)
       | None \<Rightarrow> sv_objects s' = sv_objects s \<or> (\<exists>tag. s3_stored (sv_objects s) (sv_objects s') url expected b tag))"
    using service.put_law [OF ok a(2-5)] tags_ok_send [OF a(1)] a(5) by (simp add: service_env_def)
qed

context s3_indexed
begin

lemma indexed_laws: "indexed_store ixe (s3_heads cf sview) (s3_objs cf sview) (with_bases cf sview ok B) B"
  by (rule indexed.indexed_store_axioms)

end

lemma s3_tagged:
  assumes "codec_ok root_wf cd" "own_codec_ok cd oc" "valid_id i" "\<And>s. now s = (t s, s)"
  shows "tagged_store \<lparr>ix_codec = cd, ix_os = s3_store (service_env dg) cf, ix_now = now, ix_sched = sched\<rparr>
    (s3_heads cf sv_objects) (s3_objs cf sv_objects) (\<lambda>L. with_bases cf sv_objects (tags_ok cf i L) B) B i oc"
proof (rule tagged_store.intro)
  fix L
  have svc: "s3_indexed (service_env dg) cf sv_objects (tags_ok cf i L) cd now"
    using assms(1,4) by (intro s3_indexed.intro s3_indexed_axioms.intro tagged_service) simp_all
  show "indexed_store \<lparr>ix_codec = cd, ix_os = s3_store (service_env dg) cf, ix_now = now, ix_sched = sched\<rparr>
      (s3_heads cf sv_objects) (s3_objs cf sv_objects) (with_bases cf sv_objects (tags_ok cf i L) B) B"
    using s3_indexed.indexed_laws [OF svc, of sched B] by (simp add: s3_indexed.ixe_def [OF svc])
next
  fix L s h
  assume ok: "with_bases cf sv_objects (tags_ok cf i L) B s" and h: "s3_heads cf sv_objects s i = Some h"
  obtain tag b where o: "sv_objects s (s3_url cf i ''head.json'') = Some (tag, b)" "h = \<lparr>h_revision = tag, h_manifest = b\<rparr>"
    using h assms(3) by (auto simp: s3_heads_def)
  have t: "tags_ok cf i L s" "service_ok s" using ok by (simp_all add: with_bases_def tags_ok_def)
  show "with_bases cf sv_objects (tags_ok cf i (insert h L)) B s"
    using t o ok unfolding with_bases_def tags_ok_def service_ok_def by auto
  show "h_manifest h' = h_manifest h" if "h' \<in> L" "h_revision h' = h_revision h" for h'
    using t(1) o that unfolding tags_ok_def by auto
qed (use assms in simp_all)

section \<open>A serialisation and a world\<close>

text \<open>The documents of a one-block volume that is enrolled, claimed once, written and released.\<close>

datatype demo_doc = DRoot nat | DEnv nat "string option" nat | DTomb

definition demo_token :: string where "demo_token = hex_string (zeros 32)"

definition demo_docs :: "(bytes \<times> demo_doc) list" where
  "demo_docs = [([0], DRoot 0), ([1], DRoot 1), ([2], DEnv 1 None 0), ([3], DEnv 2 (Some demo_token) 0),
     ([4], DEnv 2 (Some demo_token) 1), ([5], DEnv 2 None 0), ([6], DEnv 2 None 1), ([7], DTomb)]"

definition demo_print :: "demo_doc \<Rightarrow> bytes option" where
  "demo_print d = map_of (map prod.swap demo_docs) d"

definition demo_own :: "demo_doc own_codec" where
  "demo_own = \<lparr>
     oc_tomb = \<lparr>tc_parse = map_of demo_docs, tc_format_is_5 = (\<lambda>d. d = DTomb),
       tc_from_value = (\<lambda>d. if d = DTomb then Some \<lparr>ts_format = 5, ts_volume = ''vm'', ts_deleted = True\<rparr> else None),
       tc_to_vec = (\<lambda>t. if ts_format t = 5 then Some [7] else None)\<rparr>,
     oc_print = (\<lambda>d. case d of DRoot _ \<Rightarrow> demo_print d | _ \<Rightarrow> None),
     oc_format = (\<lambda>d. Some (case d of DRoot _ \<Rightarrow> 8 | DEnv _ _ _ \<Rightarrow> 4 | DTomb \<Rightarrow> 5)),
     oc_ready = (\<lambda>d. True), oc_size = (\<lambda>d. None),
     oc_envelope = (\<lambda>d. case d of DEnv n t k \<Rightarrow> Some \<lparr>ev_format = 4, ev_volume = ''vm'', ev_epoch = n, ev_owner = t, ev_manifest = DRoot k\<rparr> | _ \<Rightarrow> None),
     oc_encode = (\<lambda>e. case ev_manifest e of
         DRoot k \<Rightarrow> (if ev_format e = 4 \<and> ev_volume e = ''vm'' then demo_print (DEnv (ev_epoch e) (ev_owner e) k) else None)
       | _ \<Rightarrow> None),
     oc_identity = (\<lambda>_. Some \<lparr>id_volume = ''vm'', id_token = demo_token, id_epoch = 2\<rparr>),
     oc_identity_bytes = (\<lambda>_. Some [9])\<rparr>"

lemma demo_parse_print: "demo_print d = Some b \<Longrightarrow> map_of demo_docs b = Some d"
  by (auto simp: demo_print_def demo_docs_def split: if_splits)

lemma demo_own_ok: "own_codec_ok demo_roots demo_own"
proof -
  have "rt_format r = 8" if "c_from_slice demo_roots m = Some r" for m r
    using that by (auto simp: demo_roots_def demo_root_def split: if_splits)
  moreover have "\<exists>v. map_of demo_docs m = Some v \<and> oc_envelope demo_own v = Some e" if enc: "oc_encode demo_own e = Some m" for e m
  proof -
    obtain k where k: "ev_manifest e = DRoot k" "ev_format e = 4" "ev_volume e = ''vm''" "demo_print (DEnv (ev_epoch e) (ev_owner e) k) = Some m"
      using enc by (auto simp: demo_own_def split: demo_doc.splits if_splits)
    show ?thesis using demo_parse_print [OF k(4)] k(1-3) by (cases e) (simp add: demo_own_def)
  qed
  ultimately show ?thesis
    unfolding own_codec_ok_def by (auto simp: demo_own_def demo_docs_def split: demo_doc.splits if_splits)
qed

interpretation demo_shared: tagged_store demo_E "s3_heads demo_s3 sv_objects" "s3_objs demo_s3 sv_objects"
    "\<lambda>L. with_bases demo_s3 sv_objects (tags_ok demo_s3 ''vm'' L) (\<lambda>_ _. None)" "\<lambda>_ _. None" "''vm''" demo_own
  unfolding demo_E_def
proof (rule s3_tagged)
  show "codec_ok root_wf demo_roots" by (rule demo_ix.root_codec)
qed (simp_all add: demo_own_ok demo_valid demo_now_def)

text \<open>The world after a sequence of heads, all written by others.\<close>

definition demo_head :: "bytes list \<Rightarrow> nat \<Rightarrow> head" where
  "demo_head bs k = \<lparr>h_revision = service_tag k, h_manifest = bs ! k\<rparr>"

definition demo_service_at :: "nat \<Rightarrow> bytes \<Rightarrow> service_state" where
  "demo_service_at n b = \<lparr>sv_objects = (\<lambda>u. if u = s3_url demo_s3 ''vm'' ''head.json'' then Some (service_tag n, b) else None), sv_count = n\<rparr>"

definition demo_history :: "bytes list \<Rightarrow> head_log" where
  "demo_history bs = map (\<lambda>k. (False, demo_head bs k)) [0..<length bs]"

definition demo_world :: "bytes list \<Rightarrow> service_state shared" where
  "demo_world bs = \<lparr>sh_world = demo_service_at (length bs - 1) (last bs), sh_log = demo_history bs, sh_others = []\<rparr>"

abbreviation demo_env_own :: "service_state shared ix_env" where
  "demo_env_own \<equiv> shared_env demo_E (s3_heads demo_s3 sv_objects) ''vm''"

lemma demo_entries: "h \<in> entries (demo_history bs) \<longleftrightarrow> (\<exists>k < length bs. h = demo_head bs k)"
  by (auto simp: demo_history_def image_iff)

lemma demo_world_good:
  assumes "bs \<noteq> []"
  shows "demo_shared.good (demo_world bs)"
proof -
  let ?s = "demo_service_at (length bs - 1) (last bs)"
  have none: "s3_base_view demo_s3 sv_objects ?s = (\<lambda>_ _. None)"
    using base_url_apart [OF _ demo_valid(1) s3_suffix_simps(1)]
    by (auto simp: s3_base_view_def s3_objs_def demo_service_at_def fun_eq_iff)
  have ok: "service_ok ?s" by (auto simp: service_ok_def demo_service_at_def)
  have tags: "tags_ok demo_s3 ''vm'' (entries (demo_history bs)) ?s"
    unfolding tags_ok_def
  proof (intro conjI ballI ok)
    fix h
    assume "h \<in> entries (demo_history bs)"
    then obtain k where k: "k < length bs" "h = demo_head bs k" using demo_entries by blast
    then show "\<exists>n \<le> sv_count ?s. h_revision h = service_tag n" by (auto simp: demo_head_def demo_service_at_def intro: exI [of _ k])
    show "\<forall>b. sv_objects ?s (s3_url demo_s3 ''vm'' ''head.json'') = Some (h_revision h, b) \<longrightarrow> b = h_manifest h"
      using k assms by (auto simp: demo_head_def demo_service_at_def last_conv_nth)
  qed
  have one: "one_content (entries (demo_history bs))"
    unfolding one_content_def by (auto simp only: demo_entries) (simp add: demo_head_def)
  have "current_head (demo_history bs) = s3_heads demo_s3 sv_objects ?s ''vm''"
    using assms by (simp add: current_head_def demo_history_def last_map s3_heads_def demo_valid demo_service_at_def demo_head_def last_conv_nth)
  then show ?thesis using none tags one unfolding demo_shared.good_def with_bases_def by (simp add: demo_world_def)
qed

lemma demo_etag:
  assumes "n < 10"
  shows "valid_etag (service_tag n)"
proof -
  have tag: "service_tag n = [CHR 0x22, digit_char n, CHR 0x22]"
    using assms by (subst service_tag_def, subst show_nat.simps) simp
  have code: "(of_char (digit_char n) :: nat) = 48 + n" by (rule of_digit_char [OF assms])
  have "(of_char (CHR 0x22) :: nat) = 34" by simp
  with code have "digit_char n \<noteq> CHR 0x22" by fastforce
  then show ?thesis unfolding valid_etag_def tag using assms code by simp
qed

lemma demo_s3_head:
  "n < 10 \<Longrightarrow> length b \<le> MAX_MANIFEST_BYTES \<Longrightarrow>
   s3_head (service_env demo_dg) demo_s3 ''vm'' (demo_service_at n b) = (Ok (Some \<lparr>h_revision = service_tag n, h_manifest = b\<rparr>), demo_service_at n b)"
  using demo_valid(1)
  by (simp add: s3_head_def s3_key_url s3_get_def io_bind_def io_lift_def io_return_def s3_request_def s3_request_headers_def
      service_env_def service_send_def service_reply_def demo_service_at_def response_etag_def demo_etag read_bounded_def Let_def)

lemma demo_s3_publish:
  assumes "n < 9" "m \<noteq> []" "length m \<le> MAX_MANIFEST_BYTES" "k < 9"
  shows "s3_publish (service_env demo_dg) demo_s3 ''vm'' (Some (service_tag k)) m (demo_service_at n b) =
    (if k = n then (Ok (service_tag (Suc n)), demo_service_at (Suc n) m) else (Err Conflict, demo_service_at n b))"
  using assms demo_valid(1) demo_etag [of k] demo_etag [of "Suc n"]
  by (auto simp: s3_publish_def s3_key_url io_bind_def io_lift_def io_throw_def io_map_err_def s3_request_def s3_request_headers_def
      service_env_def service_send_def service_reply_def demo_service_at_def response_etag_def s3_condition_inject fun_eq_iff)

text \<open>The operations in such a world, without anyone else acting.\<close>

definition demo_at :: "nat \<Rightarrow> bytes \<Rightarrow> head_log \<Rightarrow> service_state shared" where
  "demo_at n b l = \<lparr>sh_world = demo_service_at n b, sh_log = l, sh_others = []\<rparr>"

lemma demo_world_at: "demo_world bs = demo_at (length bs - 1) (last bs) (demo_history bs)"
  by (simp add: demo_world_def demo_at_def)

lemma small_manifest: "\<not> MAX_MANIFEST_BYTES < Suc 0" "Suc 0 \<le> MAX_MANIFEST_BYTES"
  by (simp_all add: MAX_MANIFEST_BYTES_def)

lemma demo_head_run:
  "n < 10 \<Longrightarrow> os_head (ix_os demo_env_own) ''vm'' (demo_at n [b] l) = (Ok (Some \<lparr>h_revision = service_tag n, h_manifest = [b]\<rparr>), demo_at n [b] l)"
  using demo_s3_head [of n "[b]"] small_manifest
  by (simp add: shared_env_def shared_store_def observed_def others_act_def demo_at_def demo_E_def s3_store_def Let_def)

lemma demo_publish_run:
  assumes "n < 9" "k < 9"
  shows "os_publish (ix_os demo_env_own) ''vm'' (Some (service_tag k)) [m] (demo_at n [b] l) =
    (if k = n then (Ok (service_tag (Suc n)), demo_at (Suc n) [m] (l @ [(True, \<lparr>h_revision = service_tag (Suc n), h_manifest = [m]\<rparr>)]))
     else (Err Conflict, demo_at n [b] l))"
  using assms demo_s3_publish [of n "[m]" k "[b]"] small_manifest
  by (simp add: shared_env_def shared_store_def shared_publish_def publish_as_def others_act_def demo_at_def demo_E_def s3_store_def)

lemma demo_root_valid: "root_valid ''vm'' (demo_root 0 [])"
  by (simp add: root_valid_def demo_root_def MAX_SIZE_def CHUNK_BYTES_def)

lemma demo_from_head: "rv \<noteq> [] \<Longrightarrow> from_head demo_env_own ''vm'' \<lparr>h_revision = rv, h_manifest = [0]\<rparr> w = (Ok (fresh_handle (demo_root 0 []) None rv), w)"
  using demo_root_valid small_manifest
  by (simp add: from_head_def decode_head_def shared_env_def demo_E_def demo_roots_def io_bind_def io_lift_def ok_or_def io_return_def demo_root_def)

lemma demo_parse:
  "map_of demo_docs [0] = Some (DRoot 0)" "map_of demo_docs [2] = Some (DEnv 1 None 0)" "map_of demo_docs [3] = Some (DEnv 2 (Some demo_token) 0)"
  "map_of demo_docs [5] = Some (DEnv 2 None 0)" "map_of demo_docs [7] = Some DTomb"
  by (simp_all add: demo_docs_def)

lemma demo_prints:
  "demo_print (DRoot 0) = Some [0]" "demo_print (DEnv 2 (Some demo_token) 0) = Some [3]" "demo_print (DEnv 2 None 0) = Some [5]"
  by (simp_all add: demo_print_def demo_docs_def)

lemma demo_token_valid: "valid_hash demo_token"
  by (simp add: demo_token_def)

lemma demo_decode:
  assumes "rv \<noteq> []"
  shows "own_decode demo_env_own demo_own ''vm'' \<lparr>h_revision = rv, h_manifest = [0]\<rparr> w =
      (Ok \<lparr>ev_format = 4, ev_volume = ''vm'', ev_epoch = 0, ev_owner = None, ev_manifest = DRoot 0\<rparr>, w)"
    and "own_decode demo_env_own demo_own ''vm'' \<lparr>h_revision = rv, h_manifest = [3]\<rparr> w =
      (Ok \<lparr>ev_format = 4, ev_volume = ''vm'', ev_epoch = 2, ev_owner = Some demo_token, ev_manifest = DRoot 0\<rparr>, w)"
  using assms small_manifest demo_token_valid
  by (simp_all add: own_decode_def open_envelope_def res_bind_def demo_own_def demo_parse demo_prints demo_from_head io_bind_def io_lift_def io_return_def ok_or_def)

lemma demo_encode:
  "own_encode demo_own \<lparr>ev_format = 4, ev_volume = ''vm'', ev_epoch = 2, ev_owner = Some demo_token, ev_manifest = DRoot 0\<rparr> = Ok [3]"
  "own_encode demo_own \<lparr>ev_format = 4, ev_volume = ''vm'', ev_epoch = 2, ev_owner = None, ev_manifest = DRoot 0\<rparr> = Ok [5]"
  using small_manifest by (simp_all add: own_encode_def res_bind_def demo_own_def demo_prints ok_or_def)

lemma demo_stages:
  "own_stage demo_own ''vm'' [0] = Plain" "own_stage demo_own ''vm'' [2] = Free 1" "own_stage demo_own ''vm'' [3] = Held 2 demo_token"
  "own_stage demo_own ''vm'' [5] = Free 2" "own_stage demo_own ''vm'' [7] = Tombstone"
  using demo_token_valid by (simp_all add: own_stage_def demo_own_def demo_parse env_ok_def env_stage_def)

definition demo_ident :: identity where
  "demo_ident = \<lparr>id_volume = ''vm'', id_token = demo_token, id_epoch = 2\<rparr>"

lemma demo_ident_ok: "identity_ok ''vm'' demo_ident"
  by (simp add: identity_ok_def demo_ident_def demo_token_valid)

lemma service_tag_nonempty: "service_tag n \<noteq> []"
  by (simp add: service_tag_def)

lemma demo_owner_publish:
  assumes "n < 9" "k < 9"
  shows "os_publish (owned_store demo_env_own demo_own ''vm'' demo_ident) ''vm'' (Some (service_tag k)) [0] (True, demo_at n [b] l) =
    (if k = n then (Ok (service_tag (Suc n)), True, demo_at (Suc n) [3] (l @ [(True, \<lparr>h_revision = service_tag (Suc n), h_manifest = [3]\<rparr>)]))
     else (Err Conflict, True, demo_at n [b] l))"
proof -
  have pub: "os_publish_cancellable (ix_os demo_env_own) ''vm'' (Some (service_tag k)) [3] (raw_cancel never True) (demo_at n [b] l) =
      os_publish (ix_os demo_env_own) ''vm'' (Some (service_tag k)) [3] (demo_at n [b] l)"
    by (simp add: shared_env_def shared_store_def default_publish_cancellable_def io_bind_def check_cancel_def raw_cancel_def never_def)
  show ?thesis
    using demo_publish_run [OF assms, of 3 b l]
    by (simp add: owned_store_def owned_publish_cancellable_def io_bind_def check_cancel_def never_def [of "(True, _)"] own_guard_def get_self_def
        io_return_def lift_world_def demo_decode service_tag_nonempty io_lift_def demo_ident_def demo_encode pub)
qed

lemma demo_release:
  assumes "n < 9"
  shows "own_release demo_env_own demo_own ''vm'' demo_ident (True, demo_at n [3] l) =
    (Ok (), False, demo_at (Suc n) [5] (l @ [(True, \<lparr>h_revision = service_tag (Suc n), h_manifest = [5]\<rparr>)]))"
  using assms demo_head_run [of n 3 l] demo_publish_run [of n n 5 3 l]
  by (simp add: own_release_def io_bind_def set_self_def lift_world_def io_lift_def ok_or_def demo_decode service_tag_nonempty
      own_matches_def demo_ident_def demo_encode own_publish_raw_def io_map_err_def io_return_def)

section \<open>The system\<close>

text \<open>
  One call of one host, and any sequence of calls. The heads that appear in the log while a
  host runs are its own or those of others; those of others are moves of the protocol too,
  since the others run the same calls or are writers of a volume that is not enrolled.
\<close>

inductive owner_call :: "'s ix_env \<Rightarrow> 'j own_codec \<Rightarrow> string \<Rightarrow> ('s \<Rightarrow> head_log) \<Rightarrow> 's \<Rightarrow> 's \<Rightarrow> bool" for E oc i log where
  call_enroll: "enroll E oc i s = (r, t) \<Longrightarrow> owner_call E oc i log s t"
| call_open: "open_inner E oc i retiring (d, s) = (r', d', t) \<Longrightarrow> owner_call E oc i log s t"
| call_release: "identity_ok i ident \<Longrightarrow> own_release E oc i ident (active, s) = (r, active', t) \<Longrightarrow> owner_call E oc i log s t"
| call_retire: "retire E oc i absolute (d, s) = (r, d', t) \<Longrightarrow> owner_call E oc i log s t"
| call_head: "os_head (owned_store E oc i ident) v (active, s) = (oh, active', t) \<Longrightarrow> owner_call E oc i log s t"
| call_publish: "identity_ok i ident \<Longrightarrow> h \<in> entries (log s) \<Longrightarrow> stage_at oc i h = Held (id_epoch ident) (id_token ident) \<Longrightarrow>
    os_publish (owned_store E oc i ident) v (Some (h_revision h)) m (active, s) = (rv, active', t) \<Longrightarrow> owner_call E oc i log s t"

definition others_lawful :: "'j own_codec \<Rightarrow> string \<Rightarrow> head_log \<Rightarrow> head_log \<Rightarrow> bool" where
  "others_lawful oc i l l' \<longleftrightarrow> (\<forall>us y vs. l' = us @ y # vs \<longrightarrow> length l \<le> length us \<longrightarrow> \<not> fst y \<longrightarrow> lawful oc i us (snd y))"

inductive owner_reach ::
  "'s ix_env \<Rightarrow> 'j own_codec \<Rightarrow> string \<Rightarrow> ('s \<Rightarrow> head_log) \<Rightarrow> ('s \<Rightarrow> bool) \<Rightarrow> 's \<Rightarrow> bool" for E oc i log good where
  reach_start: "good s \<Longrightarrow> conforms oc i (log s) \<Longrightarrow> owner_reach E oc i log good s"
| reach_call: "owner_reach E oc i log good s \<Longrightarrow> owner_call E oc i log s t \<Longrightarrow> others_lawful oc i (log s) (log t) \<Longrightarrow> owner_reach E oc i log good t"

lemma moved_conforms:
  assumes "moved log good oc i T s t" "conforms oc i (log s)" "others_lawful oc i (log s) (log t)"
  shows "conforms oc i (log t)"
  unfolding conforms_def
proof (intro allI impI)
  fix us y vs
  assume l: "log t = us @ y # vs"
  have pre: "prefix (log s) (log t)" using assms(1) by (simp add: moved_def)
  show "lawful oc i us (snd y)"
  proof (cases "length (log s) \<le> length us")
    case True
    show ?thesis
    proof (cases "fst y")
      case own: True
      have "own_move T (map_option (stage_at oc i) (current_head us)) (stage_at oc i (snd y))"
        using assms(1) l True own unfolding moved_def by blast
      then show ?thesis unfolding lawful_def by blast
    next
      case False
      then show ?thesis using assms(3) l True unfolding others_lawful_def by blast
    qed
  next
    case False
    then have "prefix (us @ [y]) (log s)"
      using pre l prefix_length_prefix [of "us @ [y]" "log t" "log s"] by simp
    then obtain vs' where "log s = us @ y # vs'" by (auto simp: prefix_def)
    then show ?thesis using assms(2) unfolding conforms_def by blast
  qed
qed

context shared_head
begin

lemma call_moves:
  assumes "owner_call E oc i log s t" "good s"
  shows "\<exists>T. moves T s t"
  using assms
proof cases
  case (call_enroll r)
  then show ?thesis using enroll_moves [OF assms(2), of "[]"] by (cases r) (auto simp: post_def)
next
  case (call_open retiring d r' d')
  then show ?thesis using open_inner_moves [OF assms(2), of retiring d] by (cases r') (auto simp: post_def claimed_def)
next
  case (call_release ident active r active')
  then show ?thesis using release_moves [OF assms(2), of ident active] by (cases r) (auto simp: post_def)
next
  case (call_retire absolute d r d')
  then show ?thesis using retire_moves [OF assms(2), of absolute d] by (cases r) (auto simp: post_def buried_def)
next
  case (call_head ident v active oh active')
  then have run: "owned_head E oc i ident v (active, s) = (oh, active', t)" by (simp add: owned_store_def)
  from owned_head_owns [OF assms(2), of ident v active] have "quietly s t"
    unfolding post_def run by (cases oh) simp_all
  then show ?thesis using quiet_moves by blast
next
  case (call_publish ident h v m active rv active')
  then have "owns ident x s" if "Some (h_revision h) = Some x" for x unfolding owns_def using that by auto
  from owned_publish_moves [OF assms(2) call_publish(1) calm_never this, where v = v and m = m and a = active]
  have "post (os_publish (owned_store E oc i ident) v (Some (h_revision h)) m) (\<lambda>_ w. moves (id_token ident) s (snd w)) (\<lambda>_ w. moves (id_token ident) s (snd w)) (active, s)"
    unfolding owned_store_def object_store.simps by (rule post_mono) blast+
  then have "moves (id_token ident) s t" unfolding post_def call_publish(4) by (cases rv) simp_all
  then show ?thesis by blast
qed

lemma reach_conforms:
  assumes "owner_reach E oc i log good s"
  shows "good s \<and> conforms oc i (log s)"
  using assms
proof (induction rule: owner_reach.induct)
  case (reach_call s t)
  then obtain T where T: "moves T s t" using call_moves [OF reach_call(2)] by blast
  then show ?case using moved_conforms [OF T] reach_call.IH reach_call(3) moves_good [OF T] by blast
qed simp

end

section \<open>Properties\<close>

text \<open>
  C18. Every operation of a host makes only moves of the ownership protocol, whatever other
  hosts write between its calls: enrolling, claiming (which on success leaves the identity
  as the owner of a head), releasing (which closes the store whatever happens), retiring
  (which on success leaves a tombstone), and publishing through the store of an owner under
  a revision that this owner had (which on success leaves a head of this owner again).
\<close>

theorem owner_operations_conform:
  assumes "shared_head E oc i log good" "good s"
  shows "post (enroll E oc i) (\<lambda>_. moved log good oc i T s) (\<lambda>_. moved log good oc i T s) s
    \<and> post (open_inner E oc i retiring)
        (\<lambda>ident w. moved log good oc i (id_token ident) s (snd w)
           \<and> (\<exists>h \<in> entries (log (snd w)). stage_at oc i h = Held (id_epoch ident) (id_token ident)))
        (\<lambda>_ w. \<exists>T. moved log good oc i T s (snd w)) (d, s)
    \<and> post (retire E oc i absolute)
        (\<lambda>_ w. (\<exists>T. moved log good oc i T s (snd w)) \<and> (\<exists>h \<in> entries (log (snd w)). stage_at oc i h = Tombstone))
        (\<lambda>_ w. \<exists>T. moved log good oc i T s (snd w)) (d, s)
    \<and> (identity_ok i ident \<longrightarrow>
         post (own_release E oc i ident)
           (\<lambda>_ w. \<not> fst w \<and> moved log good oc i (id_token ident) s (snd w))
           (\<lambda>_ w. \<not> fst w \<and> moved log good oc i (id_token ident) s (snd w)) (active, s)
         \<and> (\<forall>h \<in> entries (log s). stage_at oc i h = Held (id_epoch ident) (id_token ident) \<longrightarrow>
              post (os_publish (owned_store E oc i ident) v (Some (h_revision h)) m)
                (\<lambda>r w. moved log good oc i (id_token ident) s (snd w)
                   \<and> (\<exists>h \<in> entries (log (snd w)). h_revision h = r \<and> stage_at oc i h = Held (id_epoch ident) (id_token ident)))
                (\<lambda>_ w. moved log good oc i (id_token ident) s (snd w)) (active, s)))"
proof (intro conjI impI ballI)
  note l = assms(1)
  note defs = shared_head.seen_def [OF l] shared_head.claimed_def [OF l] shared_head.buried_def [OF l] shared_head.owns_def [OF l]
  show "post (enroll E oc i) (\<lambda>_. moved log good oc i T s) (\<lambda>_. moved log good oc i T s) s"
    by (rule post_mono [OF shared_head.enroll_moves [OF l assms(2)]]) auto
  show "post (open_inner E oc i retiring)
      (\<lambda>ident w. moved log good oc i (id_token ident) s (snd w)
         \<and> (\<exists>h \<in> entries (log (snd w)). stage_at oc i h = Held (id_epoch ident) (id_token ident)))
      (\<lambda>_ w. \<exists>T. moved log good oc i T s (snd w)) (d, s)"
    by (rule post_mono [OF shared_head.open_inner_moves [OF l assms(2)]]) (unfold defs, blast+)
  show "post (retire E oc i absolute)
      (\<lambda>_ w. (\<exists>T. moved log good oc i T s (snd w)) \<and> (\<exists>h \<in> entries (log (snd w)). stage_at oc i h = Tombstone))
      (\<lambda>_ w. \<exists>T. moved log good oc i T s (snd w)) (d, s)"
    by (rule post_mono [OF shared_head.retire_moves [OF l assms(2)]]) (unfold defs, blast+)
  assume ident: "identity_ok i ident"
  show "post (own_release E oc i ident)
      (\<lambda>_ w. \<not> fst w \<and> moved log good oc i (id_token ident) s (snd w))
      (\<lambda>_ w. \<not> fst w \<and> moved log good oc i (id_token ident) s (snd w)) (active, s)"
    by (rule post_mono [OF shared_head.release_moves [OF l assms(2) ident]]) auto
  fix h
  assume h: "h \<in> entries (log s)" "stage_at oc i h = Held (id_epoch ident) (id_token ident)"
  then have "shared_head.owns oc i log ident rv s" if "Some (h_revision h) = Some rv" for rv unfolding defs using that by auto
  then show "post (os_publish (owned_store E oc i ident) v (Some (h_revision h)) m)
      (\<lambda>r w. moved log good oc i (id_token ident) s (snd w)
         \<and> (\<exists>h \<in> entries (log (snd w)). h_revision h = r \<and> stage_at oc i h = Held (id_epoch ident) (id_token ident)))
      (\<lambda>_ w. moved log good oc i (id_token ident) s (snd w)) (active, s)"
    unfolding owned_store_def object_store.simps
    by (intro post_mono [OF shared_head.owned_publish_moves [OF l assms(2) ident shared_head.calm_never [OF l]]]) (unfold defs, blast+)
qed

theorem owner_operations_conform_witness:
  "\<exists>w. os_publish (owned_store demo_env_own demo_own ''vm'' demo_ident) ''vm'' (Some (service_tag 2)) [0] (True, demo_world [[0], [2], [3]]) =
       (Ok (service_tag 3), True, w)
     \<and> moved sh_log demo_shared.good demo_own ''vm'' demo_token (demo_world [[0], [2], [3]]) w"
proof -
  let ?s = "demo_world [[0], [2], [3]]"
  have h: "demo_head [[0], [2], [3]] 2 \<in> entries (sh_log ?s)"
    unfolding demo_world_at demo_at_def shared.simps demo_entries by (intro exI [of _ 2]) simp
  have st: "stage_at demo_own ''vm'' (demo_head [[0], [2], [3]] 2) = Held (id_epoch demo_ident) (id_token demo_ident)"
    by (simp add: demo_head_def demo_stages demo_ident_def)
  have rev: "h_revision (demo_head [[0], [2], [3]] 2) = service_tag 2" by (simp add: demo_head_def)
  have good: "demo_shared.good ?s" by (rule demo_world_good) simp
  note moves = owner_operations_conform [where E = demo_env_own and log = sh_log and good = demo_shared.good and ident = demo_ident and active = True
      and v = "''vm''" and m = "[0]" and s = ?s, OF demo_shared.shared_laws good]
  have "os_publish (owned_store demo_env_own demo_own ''vm'' demo_ident) ''vm'' (Some (service_tag 2)) [0] (True, ?s) =
      (Ok (service_tag 3), True, demo_at 3 [3] (demo_history [[0], [2], [3]] @ [(True, \<lparr>h_revision = service_tag 3, h_manifest = [3]\<rparr>)]))"
    using demo_owner_publish [of 2 2 3 "demo_history [[0], [2], [3]]"] by (simp add: demo_world_at numeral_2_eq_2 numeral_3_eq_3)
  with post_run [OF moves [THEN conjunct2, THEN conjunct2, THEN conjunct2, THEN mp, OF demo_ident_ok, THEN conjunct2, THEN bspec, OF h, THEN mp, OF st, unfolded rev]]
  show ?thesis by (auto simp: demo_ident_def)
qed


lemma demo_history_snoc: "demo_history (bs @ [b]) = demo_history bs @ [(False, \<lparr>h_revision = service_tag (length bs), h_manifest = b\<rparr>)]"
  by (simp add: demo_history_def demo_head_def nth_append)

lemma demo_history_next:
  assumes "conforms demo_own ''vm'' (demo_history bs)" "bs \<noteq> []" "own_move T (Some (own_stage demo_own ''vm'' (last bs))) (own_stage demo_own ''vm'' b)"
  shows "conforms demo_own ''vm'' (demo_history (bs @ [b]))"
proof -
  have "map_option (stage_at demo_own ''vm'') (current_head (demo_history bs)) = Some (own_stage demo_own ''vm'' (last bs))"
    using assms(2) by (simp add: current_head_def demo_history_def last_map demo_head_def last_conv_nth)
  then show ?thesis unfolding demo_history_snoc conforms_snoc lawful_def using assms(1,3) by auto
qed

lemma demo_history_conforms:
  "conforms demo_own ''vm'' (demo_history [[0], [2], [3]])" "conforms demo_own ''vm'' (demo_history [[0], [2], [3], [3]])"
  "conforms demo_own ''vm'' (demo_history [[0], [2], [3], [5]])"
proof -
  have "demo_history [[0]] = [] @ [(False, \<lparr>h_revision = service_tag 0, h_manifest = [0]\<rparr>)]" by (simp add: demo_history_def demo_head_def)
  then have "conforms demo_own ''vm'' (demo_history [[0]])"
    by (simp only: conforms_snoc conforms_Nil) (simp add: lawful_def current_head_def demo_stages legacy_create)
  from demo_history_next [OF this, of demo_token "[2]"] have "conforms demo_own ''vm'' (demo_history [[0], [2]])"
    using own_move.move_enroll by (simp add: demo_stages)
  from demo_history_next [OF this, of demo_token "[3]"] show c: "conforms demo_own ''vm'' (demo_history [[0], [2], [3]])"
    using own_move.move_claim [of demo_token 1] by (simp add: demo_stages numeral_2_eq_2)
  from demo_history_next [OF c, of demo_token "[3]"] show "conforms demo_own ''vm'' (demo_history [[0], [2], [3], [3]])"
    using own_move.move_data by (simp add: demo_stages)
  from demo_history_next [OF c, of demo_token "[5]"] show "conforms demo_own ''vm'' (demo_history [[0], [2], [3], [5]])"
    using own_move.move_release by (simp add: demo_stages)
qed






end
