(* ===== verification/Collect.thy ===== *)
theory Collect
  imports Owned Journal
begin

text \<open>
  Offline collection of a volume by its owner (\<open>OwnedDisk::collect_offline_cached\<close> in
  \<open>ahvm-volume/src/owned.rs\<close>): the objects that the current root refers to are marked, a page
  of the objects of the volume is listed, and those that are not marked are deleted. It is
  shown that no object is deleted that the disk of the volume needs.
\<close>

section \<open>Marking and deleting\<close>

record offline_mark =
  om_id :: string
  om_revision :: string
  om_live :: "bytes list"

record collection =
  cl_scanned_objects :: nat
  cl_deleted_objects :: nat
  cl_complete :: bool
  cl_next_after :: "string option"

datatype phase = Active | Closing | Released

text \<open>A volume over the store of the owner.\<close>

definition own_env :: "'s ix_env \<Rightarrow> 'j own_codec \<Rightarrow> string \<Rightarrow> identity \<Rightarrow> (bool \<times> 's) ix_env" where
  "own_env E oc i ident = \<lparr>ix_codec = ix_codec E, ix_os = owned_store E oc i ident,
     ix_now = (\<lambda>(active, s). case ix_now E s of (t, s') \<Rightarrow> (t, (active, s'))), ix_sched = (\<lambda>(active, s). ix_sched E s)\<rparr>"

text \<open>The caller's cancellation test, seen through the owner's flag.\<close>

definition held_cancel :: "'s cancel \<Rightarrow> (bool \<times> 's) cancel" where
  "held_cancel cancel = (\<lambda>(active, s). case cancel s of (b, s') \<Rightarrow> (b, (active, s')))"

type_synonym 's collecting = "offline_mark option \<times> (bool \<times> 's)"

definition make_mark ::
  "'s ix_env \<Rightarrow> 'j own_codec \<Rightarrow> string \<Rightarrow> identity \<Rightarrow> 's cancel \<Rightarrow> head \<Rightarrow> ('s collecting, bytes list, verror) io" where
  "make_mark E oc i ident cancel h =
     io_bind (set_self None) (\<lambda>_.
     io_bind (lift_world (from_head (own_env E oc i ident) i h)) (\<lambda>vol.
     io_bind (lift_world (references (own_env E oc i ident) vol (held_cancel cancel))) (\<lambda>live.
     io_bind (set_self (Some \<lparr>om_id = i, om_revision = h_revision h, om_live = live\<rparr>)) (\<lambda>_.
       io_return live))))"

text \<open>A mark of an earlier pass is used again while the head has the same revision.\<close>

definition collect_mark ::
  "'s ix_env \<Rightarrow> 'j own_codec \<Rightarrow> string \<Rightarrow> identity \<Rightarrow> 's cancel \<Rightarrow> head \<Rightarrow> ('s collecting, bytes list, verror) io" where
  "collect_mark E oc i ident cancel h =
     io_bind get_self (\<lambda>mark. case mark of
         None \<Rightarrow> make_mark E oc i ident cancel h
       | Some m \<Rightarrow>
           if om_id m \<noteq> i \<or> om_revision m \<noteq> h_revision h then make_mark E oc i ident cancel h else io_return (om_live m))"

fun collect_garbage :: "'s cancel \<Rightarrow> bytes list \<Rightarrow> string list \<Rightarrow> string list \<Rightarrow> ('s, string list, verror) io" where
  "collect_garbage cancel live [] garbage = io_return garbage"
| "collect_garbage cancel live (h # hs) garbage =
     io_bind (check_cancel cancel) (\<lambda>_.
     io_bind (io_lift (hash_decode h)) (\<lambda>raw.
       collect_garbage cancel live hs (if raw \<notin> set live then garbage @ [h] else garbage)))"

definition listing_ok :: "string option \<Rightarrow> nat \<Rightarrow> string list \<Rightarrow> bool" where
  "listing_ok after limit hs \<longleftrightarrow> length hs \<le> limit \<and> sorted_wrt (<) hs
     \<and> list_all (\<lambda>h. valid_hash h \<and> (case after of None \<Rightarrow> True | Some a \<Rightarrow> a < h)) hs"

text \<open>What follows the listing: the owner must still have the marked head before anything is deleted.\<close>

definition collect_listed ::
  "'s ix_env \<Rightarrow> 'j own_codec \<Rightarrow> string \<Rightarrow> identity \<Rightarrow> string option \<Rightarrow> nat \<Rightarrow> 's cancel \<Rightarrow> head \<Rightarrow> bytes list \<Rightarrow> string list
   \<Rightarrow> ('s collecting, collection, verror) io" where
  "collect_listed E oc i ident after limit cancel h live hashes =
     (if \<not> listing_ok after limit hashes then io_throw Corrupt
      else
        io_bind (lift_world (lift_world (check_cancel cancel))) (\<lambda>_.
        io_bind (lift_world (owned_head E oc i ident i)) (\<lambda>oh.
        if (case oh of None \<Rightarrow> True | Some h' \<Rightarrow> h_revision h' \<noteq> h_revision h) then io_throw Conflict
        else
          io_bind (lift_world (lift_world (collect_garbage cancel live hashes []))) (\<lambda>garbage.
          io_bind (lift_world (lift_world (os_delete_chunks (ix_os E) i garbage))) (\<lambda>_.
            io_return \<lparr>cl_scanned_objects = length hashes, cl_deleted_objects = length garbage,
              cl_complete = (hashes = []), cl_next_after = (if hashes = [] then None else Some (last hashes))\<rparr>)))))"

definition collect_offline_cached ::
  "'s ix_env \<Rightarrow> 'j own_codec \<Rightarrow> string \<Rightarrow> identity \<Rightarrow> phase \<Rightarrow> local_state \<Rightarrow> string option \<Rightarrow> nat \<Rightarrow> 's cancel
   \<Rightarrow> ('s collecting, collection, verror) io" where
  "collect_offline_cached E oc i ident ph st after limit cancel =
     (if \<not> (1 \<le> limit \<and> limit \<le> 1000) \<or> (case after of None \<Rightarrow> False | Some a \<Rightarrow> \<not> valid_hash a) then io_throw InvalidInput
      else if ph \<noteq> Active then io_throw ReopenRequired
      else
        io_bind (lift_world (lift_world (check_cancel cancel))) (\<lambda>_.
        if st_local_failed (log_status st) then io_throw ReopenRequired
        else if st_pending_bytes (log_status st) \<noteq> 0 then io_throw Backpressure
        else
          io_bind (lift_world (owned_head E oc i ident i)) (\<lambda>oh.
          io_bind (io_lift (ok_or NotFound oh)) (\<lambda>h.
          io_bind (collect_mark E oc i ident cancel h) (\<lambda>live.
          io_bind (lift_world (lift_world (os_list_chunks_after (ix_os E) i after limit))) (\<lambda>hashes.
            collect_listed E oc i ident after limit cancel h live hashes))))))"

section \<open>The objects that a volume needs\<close>

text \<open>Pages that are not those of the base image, and objects of slots that are not inherited.\<close>

definition needed :: "objs_view \<Rightarrow> base_view \<Rightarrow> indexed \<Rightarrow> string set" where
  "needed X B vol =
     {h. \<exists>pi. bt_get (rt_pages (x_root vol)) pi = Some h \<and> \<not> inherits vol pi}
     \<union> {obj. \<exists>i offset. object_slot (vpage X B vol (i div SLOTS)) i = Some (obj, offset)
           \<and> \<not> slot_inherited (x_base vol \<noteq> None) (vpage X B vol (i div SLOTS)) (bpage X B vol (i div SLOTS)) i}"

definition agrees :: "objs_view \<Rightarrow> objs_view \<Rightarrow> string \<Rightarrow> string set \<Rightarrow> bool" where
  "agrees X Y v N \<longleftrightarrow> (\<forall>h \<in> N. Y v h = X v h)"

lemma needed_pages:
  assumes "agrees X Y (rt_volume (x_root vol)) (needed X B vol)"
  shows "vpage Y B vol pi = vpage X B vol pi" "bpage Y B vol pi = bpage X B vol pi"
proof -
  show "bpage Y B vol pi = bpage X B vol pi"
    by (auto simp: bpage_def page_view_def raw_page_def split: option.split)
  have "Y (rt_volume (x_root vol)) h = X (rt_volume (x_root vol)) h" if "bt_get (rt_pages (x_root vol)) pi = Some h" "\<not> inherits vol pi" for h
    using assms that unfolding agrees_def needed_def by blast
  then show "vpage Y B vol pi = vpage X B vol pi"
    by (auto simp: vpage_def page_view_def raw_page_def split: option.split)
qed

lemma needed_object:
  assumes "agrees X Y (rt_volume (x_root vol)) (needed X B vol)" "object_slot (vpage X B vol (i div SLOTS)) i = Some (obj, offset)"
    and "\<not> slot_inherited (x_base vol \<noteq> None) (vpage X B vol (i div SLOTS)) (bpage X B vol (i div SLOTS)) i"
  shows "Y (rt_volume (x_root vol)) obj = X (rt_volume (x_root vol)) obj"
  using assms unfolding agrees_def needed_def by blast

lemma needed_disk:
  assumes "agrees X Y (rt_volume (x_root vol)) (needed X B vol)"
  shows "xdisk Y B vol = xdisk X B vol"
proof -
  have "committed_block Y B vol i = committed_block X B vol i" for i
    using needed_pages [OF assms] needed_object [OF assms, of i]
    by (auto simp: committed_block_def slot_block_def object_block_def split: option.split)
  then have "xblock Y B vol = xblock X B vol" by (auto simp: xblock_def fun_eq_iff split: option.split)
  then show ?thesis by (simp add: xdisk_def)
qed

lemma needed_complete:
  assumes "agrees X Y (rt_volume (x_root vol)) (needed X B vol)" "x_complete dg X B vol"
  shows "x_complete dg Y B vol"
proof -
  note pages = needed_pages [OF assms(1)]
  have "page_stored dg Y B vol pi oh True = page_stored dg X B vol pi oh True" for pi oh
    by (auto simp: page_stored_def split: option.split)
  then have "base_complete dg Y B vol"
    using assms(2) unfolding x_complete_def base_complete_def pages by blast
  moreover have "page_stored dg Y B vol pi (bt_get (rt_pages (x_root vol)) pi) (inherits vol pi)" for pi
  proof (cases "bt_get (rt_pages (x_root vol)) pi")
    case (Some h)
    then have "inherits vol pi \<or> Y (rt_volume (x_root vol)) h = X (rt_volume (x_root vol)) h"
      using assms(1) unfolding agrees_def needed_def by blast
    moreover have "page_stored dg X B vol pi (Some h) (inherits vol pi)"
      using assms(2) Some unfolding x_complete_def by metis
    ultimately show ?thesis using Some by (cases "inherits vol pi") (simp_all add: page_stored_def)
  qed (simp add: page_stored_def)
  moreover have "slot_stored dg UNIV Y B vol (vpage Y B vol (i div SLOTS)) (bpage Y B vol (i div SLOTS)) i" for i
  proof -
    have "slot_stored dg UNIV X B vol (vpage X B vol (i div SLOTS)) (bpage X B vol (i div SLOTS)) i"
      using assms(2) unfolding x_complete_def by blast
    then show ?thesis
      unfolding slot_stored_def pages using needed_object [OF assms(1), of i]
      by (cases "slot_inherited (x_base vol \<noteq> None) (vpage X B vol (i div SLOTS)) (bpage X B vol (i div SLOTS)) i")
         (auto split: option.splits)
  qed
  ultimately show ?thesis by (simp add: x_complete_def)
qed

lemma needed_again:
  assumes "agrees X Y (rt_volume (x_root vol)) (needed X B vol)"
  shows "needed Y B vol = needed X B vol"
  unfolding needed_def needed_pages [OF assms] ..

section \<open>The mark covers what is needed\<close>

definition covers :: "bytes list \<Rightarrow> string set \<Rightarrow> bool" where
  "covers live N \<longleftrightarrow> (\<forall>h \<in> N. \<exists>raw \<in> set live. hash_decode h = Ok raw)"

lemma page_slot_mod: "page_slot page (i mod SLOTS) = page_slot page i" "object_slot page (i mod SLOTS) = object_slot page i"
proof -
  have "slot_at page (i mod SLOTS) = slot_at page i" by (simp add: slot_at_def)
  then show "page_slot page (i mod SLOTS) = page_slot page i" by (simp add: page_slot_def)
  with \<open>slot_at page (i mod SLOTS) = slot_at page i\<close> show "object_slot page (i mod SLOTS) = object_slot page i"
    by (simp add: object_slot_def split: option.split)
qed

text \<open>A blank page has no slots.\<close>

lemma blank_slot: "page_slot (blank_page pk pi) i = None" "page_slot (packed_page (blank_page False pi)) i = None"
proof -
  have "direct_cell (blank_page False pi) (i mod SLOTS) @ zeros 40 = zeros 72"
    by (simp add: blank_direct(3) zeros_append)
  then show "page_slot (packed_page (blank_page False pi)) i = None"
    using direct_frame [OF blank_direct(1,2), of pi] by (simp add: frame_page_slot)
  show "page_slot (blank_page pk pi) i = None"
  proof (cases pk)
    case True
    then show ?thesis using blank_packed [of pi] by (simp add: frame_page_slot)
  next
    case False
    have st: "stride (blank_page False pi) = 32"
      using blank_direct(1) [of pi] by (simp add: stride_def direct_form_def PAGE_MAGIC_def PACK_MAGIC_def)
    have "slice_of (blank_page False pi) (16 + i mod SLOTS * 32) (16 + i mod SLOTS * 32 + 32) = zeros 32"
      using blank_direct(3) [of "i mod SLOTS" pi] by (simp add: direct_cell_def)
    then show ?thesis using False st by (simp add: page_slot_def slot_at_def Let_def)
  qed
qed

lemma slot_references_ok:
  assumes "slot_references page bp is live = Ok live'"
  shows "set live \<subseteq> set live' \<and> (\<forall>i obj offset. i \<in> set is \<longrightarrow> object_slot page i = Some (obj, offset)
    \<longrightarrow> \<not> (page_slot page i = page_slot bp i \<and> object_slot page i = object_slot bp i) \<longrightarrow> covers live' {obj})"
  using assms
proof (induction "is" arbitrary: live)
  case (Cons j "is")
  show ?case
  proof (cases "object_slot page j")
    case None
    then show ?thesis using Cons by auto
  next
    case (Some p)
    obtain obj offset where p: "p = (obj, offset)" by force
    show ?thesis
    proof (cases "page_slot page j = page_slot bp j \<and> object_slot page j = object_slot bp j")
      case True
      have "slot_references page bp is live = Ok live'" using Cons.prems Some p True by simp
      from Cons.IH [OF this] show ?thesis using True by auto
    next
      case False
      then obtain raw where raw: "hash_decode obj = Ok raw" "slot_references page bp is (live @ [raw]) = Ok live'"
        using Cons.prems Some p by (cases "hash_decode obj") (auto simp: res_bind_def split: if_splits)
      from Cons.IH [OF raw(2)] have "covers live' {obj}" using raw(1) by (auto simp: covers_def)
      then show ?thesis using Cons.IH [OF raw(2)] Some p by auto
    qed
  qed
qed simp

text \<open>The base page of a volume without an image is blank, and an inherited page is that of the image.\<close>

lemma unbased_object:
  assumes "x_base vol = None"
  shows "object_slot (bpage X B vol pi) i = None"
  using assms blank_slot by (simp add: bpage_def page_view_def raw_page_def catalog_page_def object_slot_def)

lemma absent_object:
  assumes "bt_get (rt_pages (x_root vol)) pi = None"
  shows "object_slot (vpage X B vol pi) i = None"
  using assms blank_slot by (simp add: vpage_def page_view_def raw_page_def inherits_def object_slot_def)

lemma inherited_page: "inherits vol pi \<Longrightarrow> vpage X B vol pi = bpage X B vol pi"
  by (simp add: vpage_def bpage_def inherits_def)

text \<open>The needs of one page.\<close>

definition page_needs :: "objs_view \<Rightarrow> base_view \<Rightarrow> indexed \<Rightarrow> nat \<times> string \<Rightarrow> string set" where
  "page_needs X B vol = (\<lambda>(pi, h). if inherits vol pi then {} else insert h
     {obj. \<exists>i offset. object_slot (vpage X B vol pi) i = Some (obj, offset)
        \<and> \<not> (page_slot (vpage X B vol pi) i = page_slot (bpage X B vol pi) i
             \<and> object_slot (vpage X B vol pi) i = object_slot (bpage X B vol pi) i)})"

lemma needed_by_page:
  assumes "bt_ok (rt_pages (x_root vol))"
  shows "needed X B vol \<subseteq> (\<Union>p \<in> set (rt_pages (x_root vol)). page_needs X B vol p)"
proof
  fix h
  assume "h \<in> needed X B vol"
  then consider (page) pi where "bt_get (rt_pages (x_root vol)) pi = Some h" "\<not> inherits vol pi"
    | (object) i offset where "object_slot (vpage X B vol (i div SLOTS)) i = Some (h, offset)"
        "\<not> slot_inherited (x_base vol \<noteq> None) (vpage X B vol (i div SLOTS)) (bpage X B vol (i div SLOTS)) i"
    unfolding needed_def by blast
  then show "h \<in> (\<Union>p \<in> set (rt_pages (x_root vol)). page_needs X B vol p)"
  proof cases
    case page
    then have "(pi, h) \<in> set (rt_pages (x_root vol))" by (auto dest: map_of_SomeD)
    then show ?thesis using page(2) by (force simp: page_needs_def)
  next
    case object
    obtain g where g: "bt_get (rt_pages (x_root vol)) (i div SLOTS) = Some g"
      using object(1) absent_object by (cases "bt_get (rt_pages (x_root vol)) (i div SLOTS)") auto
    have "\<not> inherits vol (i div SLOTS)"
      using object(2) inherited_page [of vol "i div SLOTS" X B] by (auto simp: slot_inherited_def inherits_def)
    moreover have "object_slot (vpage X B vol (i div SLOTS)) i \<noteq> object_slot (bpage X B vol (i div SLOTS)) i" if "x_base vol = None"
      using object(1) unbased_object [OF that] by simp
    ultimately have "h \<in> page_needs X B vol (i div SLOTS, g)"
      using object by (auto simp: page_needs_def slot_inherited_def)
    then show ?thesis using g by (force dest: map_of_SomeD)
  qed
qed

context indexed_store
begin

lemma page_references_post:
  assumes "same s t" "valid_id (rt_volume (x_root vol))" "harmless cancel" "\<forall>(pi, h) \<in> set pages. bt_get (rt_pages (x_root vol)) pi = Some h"
  shows "post (page_references E vol cancel pages live)
    (\<lambda>live' u. same s u \<and> set live \<subseteq> set live' \<and> covers live' (\<Union>p \<in> set pages. page_needs (objs s) B vol p)) (\<lambda>_. same s) t"
  using assms(1,4)
proof (induction pages arbitrary: live t)
  case Nil
  then show ?case by (simp add: post_return covers_def)
next
  case (Cons p pages)
  obtain pi h where p: "p = (pi, h)" by force
  have h: "bt_get (rt_pages (x_root vol)) pi = Some h" using Cons.prems(2) p by simp
  have inh: "(x_base vol \<noteq> None \<and> catalog_page vol pi = Some h) = inherits vol pi" using h by (auto simp: inherits_def)
  note cc = check_cancel_same [OF assms(3)]
  have rest: "post (page_references E vol cancel pages live1)
      (\<lambda>live' u. same s u \<and> set live \<subseteq> set live' \<and> covers live' (\<Union>p \<in> set (p # pages). page_needs (objs s) B vol p)) (\<lambda>_. same s) u"
    if "same s u" "set live \<subseteq> set live1" "covers live1 (page_needs (objs s) B vol p)" for live1 u
  proof (rule post_mono [OF Cons.IH [OF that(1)]])
    show "\<forall>(pi, h) \<in> set pages. bt_get (rt_pages (x_root vol)) pi = Some h" using Cons.prems(2) by simp
  qed (use that in \<open>fastforce simp: covers_def\<close>)+
  show ?case
  proof (cases "inherits vol pi")
    case True
    then have step: "page_references E vol cancel (p # pages) live = io_bind (check_cancel cancel) (\<lambda>_. page_references E vol cancel pages live)"
      unfolding p page_references.simps inh by simp
    have "covers live (page_needs (objs s) B vol p)" using True by (simp add: p covers_def page_needs_def)
    then show ?thesis
      unfolding step post_bind by (intro post_mono [OF cc [OF Cons.prems(1)]] rest) auto
  next
    case False
    define slots where "slots page bp raw = io_bind (io_lift (slot_references page bp [0..<SLOTS] (live @ [raw]))) (page_references E vol cancel pages)" for page bp raw
    have slots: "post (slots (vpage (objs s) B vol pi) (bpage (objs s) B vol pi) raw)
        (\<lambda>live' u. same s u \<and> set live \<subseteq> set live' \<and> covers live' (\<Union>p \<in> set (p # pages). page_needs (objs s) B vol p)) (\<lambda>_. same s) u"
      if u: "same s u" "hash_decode h = Ok raw" for u raw
    proof (cases "slot_references (vpage (objs s) B vol pi) (bpage (objs s) B vol pi) [0..<SLOTS] (live @ [raw])")
      case (Err e)
      then show ?thesis using u by (simp add: slots_def post_bind post_lift)
    next
      case (Ok live1)
      note sr = slot_references_ok [OF Ok]
      have "covers live1 (page_needs (objs s) B vol p)"
        unfolding covers_def
      proof
        fix d
        assume "d \<in> page_needs (objs s) B vol p"
        then consider "d = h" | i offset where "object_slot (vpage (objs s) B vol pi) i = Some (d, offset)"
            "\<not> (page_slot (vpage (objs s) B vol pi) i = page_slot (bpage (objs s) B vol pi) i
               \<and> object_slot (vpage (objs s) B vol pi) i = object_slot (bpage (objs s) B vol pi) i)"
          using False by (auto simp: p page_needs_def)
        then show "\<exists>raw \<in> set live1. hash_decode d = Ok raw"
        proof cases
          case 1
          then show ?thesis using sr u(2) by auto
        next
          case 2
          have "i mod SLOTS \<in> set [0..<SLOTS]" by simp
          then have "covers live1 {d}" using sr 2 page_slot_mod by metis
          then show ?thesis by (simp add: covers_def)
        qed
      qed
      then have "post (page_references E vol cancel pages live1)
        (\<lambda>live' u. same s u \<and> set live \<subseteq> set live' \<and> covers live' (\<Union>p \<in> set (p # pages). page_needs (objs s) B vol p)) (\<lambda>_. same s) u"
        using sr by (intro rest [OF u(1)]) auto
      then show ?thesis by (simp add: slots_def post_bind post_lift Ok)
    qed
    have step: "page_references E vol cancel (p # pages) live = io_bind (check_cancel cancel) (\<lambda>_. io_bind (x_page E vol pi) (\<lambda>page.
        io_bind (base_page E vol pi) (\<lambda>bp. io_bind (io_lift (hash_decode h)) (slots page bp))))"
      unfolding p page_references.simps inh slots_def using False by simp
    show ?thesis
      unfolding step post_bind
    proof (rule post_mono [OF cc [OF Cons.prems(1)]])
      fix u assume u: "same s u"
      show "post (x_page E vol pi) (\<lambda>page. post (base_page E vol pi) (\<lambda>bp. post (io_lift (hash_decode h))
          (\<lambda>raw. post (slots page bp raw) (\<lambda>live' u. same s u \<and> set live \<subseteq> set live' \<and> covers live' (\<Union>p \<in> set (p # pages). page_needs (objs s) B vol p)) (\<lambda>_. same s))
          (\<lambda>_. same s)) (\<lambda>_. same s)) (\<lambda>_. same s) u"
        by (rule post_mono [OF x_page_same [OF u assms(2)]], elim conjE, simp only:,
            rule post_mono [OF base_page_same [OF _ assms(2)]], assumption, elim conjE)
          (auto simp: post_lift slots [simplified] split: result.split)
    qed
  qed
qed

lemma references_post:
  assumes "same s t" "x_inv vol" "harmless cancel"
  shows "post (references E vol cancel) (\<lambda>live u. same s u \<and> covers live (needed (objs s) B vol)) (\<lambda>_. same s) t"
proof -
  have ok: "bt_ok (rt_pages (x_root vol))" and v: "valid_id (rt_volume (x_root vol))" using assms(2) by (simp_all add: x_inv_def)
  have "\<forall>(pi, h) \<in> set (rt_pages (x_root vol)). bt_get (rt_pages (x_root vol)) pi = Some h"
    using bt.get_entries [OF ok] by auto
  from page_references_post [OF assms(1) v assms(3) this, of "[]"]
  show ?thesis
    unfolding references_def post_bind
  proof (rule post_mono)
    fix live u
    assume "same s u \<and> set [] \<subseteq> set live \<and> covers live (\<Union>p \<in> set (rt_pages (x_root vol)). page_needs (objs s) B vol p)"
    then have "same s u" "covers (remdups_adj (sort live)) (needed (objs s) B vol)"
      using needed_by_page [OF ok, of "objs s" B] unfolding covers_def by auto
    then show "post (check_cancel cancel) (\<lambda>_. post (io_return (remdups_adj (sort live)))
        (\<lambda>live u. same s u \<and> covers live (needed (objs s) B vol)) (\<lambda>_. same s)) (\<lambda>_. same s) u"
      by (auto simp: post_return intro!: post_mono [OF check_cancel_same [OF assms(3)]])
  qed auto
qed

end

section \<open>The part of a store that is only read\<close>

definition read_only :: "'s ix_env \<Rightarrow> 's ix_env" where
  "read_only E = E\<lparr>ix_now := (\<lambda>s. (0, s)), ix_os := (ix_os E)\<lparr>
     os_prefetch_base := (\<lambda>_ _ s. s), os_prefetch := (\<lambda>_ _ s. s), os_cached_chunk := (\<lambda>_ _ _. None), os_head := (\<lambda>_. io_throw Store),
     os_put_chunk := (\<lambda>_ _ _. io_throw Store), os_put_chunk_cancellable := (\<lambda>_ _ _ _. io_throw Store),
     os_publish := (\<lambda>_ _ _. io_throw Store), os_publish_cancellable := (\<lambda>_ _ _ _. io_throw Store)\<rparr>\<rparr>"

lemma read_only_sel: "ix_codec (read_only E) = ix_codec E" "os_chunk (ix_os (read_only E)) = os_chunk (ix_os E)"
    "os_base_chunk (ix_os (read_only E)) = os_base_chunk (ix_os E)"
  by (simp_all add: read_only_def)

lemma read_only_pages: "x_page (read_only E) = x_page E" "base_page (read_only E) = base_page E"
proof -
  have "page_from (read_only E) = page_from E" unfolding page_from_def fun_eq_iff read_only_sel by blast
  then show "x_page (read_only E) = x_page E" "base_page (read_only E) = base_page E"
    by (simp_all add: x_page_def base_page_def Let_def fun_eq_iff)
qed

lemma read_only_references: "references (read_only E) = references E"
proof -
  have "page_references (read_only E) vol cancel pages = page_references E vol cancel pages" for vol cancel pages
  proof (induction pages)
    case (Cons p pages)
    show ?case by (cases p, rule ext) (simp only: page_references.simps read_only_pages Cons.IH)
  qed (simp add: fun_eq_iff)
  then show ?thesis by (intro ext) (simp only: references_def)
qed

lemma read_only_from_head: "from_head (read_only E) = from_head E"
  unfolding from_head_def decode_head_def catalog_load_def fun_eq_iff read_only_sel by blast

text \<open>What reading and decoding a volume needs of a store: two laws and a sound serialisation.\<close>

lemma read_only_store:
  assumes "\<And>s v d. ok s \<Longrightarrow> valid_id v \<Longrightarrow> post (os_chunk (ix_os E) v d)
      (\<lambda>b s'. ok s' \<and> heads s' = heads s \<and> objs s' = objs s \<and> objs s v d = Some b)
      (\<lambda>e s'. ok s' \<and> heads s' = heads s \<and> objs s' = objs s) s"
    and "\<And>s img h off. ok s \<Longrightarrow> post (os_base_chunk (ix_os E) img h off)
      (\<lambda>b s'. ok s' \<and> heads s' = heads s \<and> objs s' = objs s \<and> B img h = Some b)
      (\<lambda>_ s'. ok s' \<and> heads s' = heads s \<and> objs s' = objs s) s"
    and "codec_ok root_wf (ix_codec E)"
  shows "indexed_store (read_only E) heads objs ok B"
  by unfold_locales (use assms in \<open>auto simp: read_only_def post_throw\<close>)

section \<open>The volume of a head\<close>

definition holds_volume :: "'s ix_env \<Rightarrow> 'j own_codec \<Rightarrow> base_view \<Rightarrow> string \<Rightarrow> head \<Rightarrow> indexed \<Rightarrow> bool" where
  "holds_volume E oc B i h vol \<longleftrightarrow> (\<exists>e m. open_envelope oc i h = Ok e \<and> oc_print oc (ev_manifest e) = Some m
     \<and> c_from_slice (ix_codec E) m = Some (x_root vol)) \<and> rt_volume (x_root vol) = i \<and> x_dirty vol = []
     \<and> (x_base vol = None \<longleftrightarrow> rt_base (x_root vol) = None)
     \<and> (\<forall>r. rt_base (x_root vol) = Some r \<longrightarrow> base_catalog (c_digest (ix_codec E)) B r (the (x_base vol)))"

lemma holds_volume_unique:
  assumes "holds_volume E oc B i h vol" "holds_volume E oc B i h w"
  shows "x_root w = x_root vol" "x_base w = x_base vol"
proof -
  show root: "x_root w = x_root vol" using assms unfolding holds_volume_def by fastforce
  show "x_base w = x_base vol"
  proof (cases "rt_base (x_root vol)")
    case None
    then show ?thesis using assms root by (simp add: holds_volume_def)
  next
    case (Some r)
    then have "the (x_base w) = the (x_base vol)"
      using assms root by (auto simp: holds_volume_def intro: base_catalog_unique)
    moreover have "x_base w \<noteq> None" "x_base vol \<noteq> None" using assms root Some by (simp_all add: holds_volume_def)
    ultimately show ?thesis by (auto simp: option.expand)
  qed
qed

lemma needed_cong:
  assumes "x_root w = x_root vol" "x_base w = x_base vol"
  shows "needed X B w = needed X B vol"
proof -
  have "inherits w = inherits vol" unfolding fun_eq_iff inherits_def catalog_page_def assms by blast
  then show ?thesis using assms view_cong(1,2) [OF assms] by (simp add: needed_def)
qed

text \<open>The mark that is kept between passes: it covers the volume of the head that it was made for.\<close>

definition mark_ok :: "'s ix_env \<Rightarrow> 'j own_codec \<Rightarrow> base_view \<Rightarrow> string \<Rightarrow> heads_view \<Rightarrow> objs_view \<Rightarrow> offline_mark option \<Rightarrow> bool" where
  "mark_ok E oc B i hs X mark \<longleftrightarrow> (\<forall>m h vol. mark = Some m \<longrightarrow> om_id m = i \<longrightarrow> hs i = Some h \<longrightarrow> om_revision m = h_revision h
     \<longrightarrow> holds_volume E oc B i h vol \<longrightarrow> covers (om_live m) (needed X B vol))"

lemma mark_ok_None [simp]: "mark_ok E oc B i hs X None"
  by (simp add: mark_ok_def)

text \<open>Deleting what the volume does not need keeps its disk, and the mark.\<close>

definition spares :: "'s ix_env \<Rightarrow> 'j own_codec \<Rightarrow> base_view \<Rightarrow> string \<Rightarrow> heads_view \<Rightarrow> objs_view \<Rightarrow> string set \<Rightarrow> bool" where
  "spares E oc B i hs X D \<longleftrightarrow> (\<forall>h vol. hs i = Some h \<longrightarrow> holds_volume E oc B i h vol \<longrightarrow> D \<inter> needed X B vol = {})"

lemma spares_agrees:
  assumes "spares E oc B i hs X D" "hs i = Some h" "holds_volume E oc B i h vol"
  shows "agrees X (drop_objs X i D) (rt_volume (x_root vol)) (needed X B vol)"
proof -
  have "rt_volume (x_root vol) = i" "D \<inter> needed X B vol = {}" using assms by (auto simp: spares_def holds_volume_def)
  then show ?thesis by (auto simp: agrees_def restrict_map_def)
qed

lemma spares_mark: "spares E oc B i hs X D \<Longrightarrow> mark_ok E oc B i hs X mark \<Longrightarrow> mark_ok E oc B i hs (drop_objs X i D) mark"
  unfolding mark_ok_def using needed_again [OF spares_agrees] by metis

lemma spares_subset: "spares E oc B i hs X D \<Longrightarrow> D' \<subseteq> D \<Longrightarrow> spares E oc B i hs X D'"
  unfolding spares_def by blast

section \<open>The interface of collection\<close>

definition after_mark :: "string option \<Rightarrow> string \<Rightarrow> bool" where
  "after_mark after d \<longleftrightarrow> (case after of None \<Rightarrow> True | Some a \<Rightarrow> a < d)"

locale collected_store =
  fixes E :: "'s ix_env"
    and heads :: "'s \<Rightarrow> heads_view"
    and objs :: "'s \<Rightarrow> objs_view"
    and ok :: "'s \<Rightarrow> bool"
    and B :: base_view
  assumes c_head_law: "ok s \<Longrightarrow> valid_id v \<Longrightarrow> post (os_head (ix_os E) v)
      (\<lambda>h s'. ok s' \<and> heads s' = heads s \<and> objs s' = objs s \<and> h = heads s v)
      (\<lambda>e s'. ok s' \<and> heads s' = heads s \<and> objs s' = objs s) s"
    and c_chunk_law: "ok s \<Longrightarrow> valid_id v \<Longrightarrow> post (os_chunk (ix_os E) v d)
      (\<lambda>b s'. ok s' \<and> heads s' = heads s \<and> objs s' = objs s \<and> objs s v d = Some b)
      (\<lambda>e s'. ok s' \<and> heads s' = heads s \<and> objs s' = objs s) s"
    and c_base_law: "ok s \<Longrightarrow> post (os_base_chunk (ix_os E) img h off)
      (\<lambda>b s'. ok s' \<and> heads s' = heads s \<and> objs s' = objs s \<and> B img h = Some b)
      (\<lambda>_ s'. ok s' \<and> heads s' = heads s \<and> objs s' = objs s) s"
    and c_list_law: "ok s \<Longrightarrow> valid_id v \<Longrightarrow> 0 < n \<Longrightarrow> post (os_list_chunks_after (ix_os E) v after n)
      (\<lambda>hs s'. ok s' \<and> heads s' = heads s \<and> objs s' = objs s \<and> set hs \<subseteq> dom (objs s v)
         \<and> (\<forall>d \<in> dom (objs s v). after_mark after d \<longrightarrow> d \<in> set hs \<or> hs \<noteq> [] \<and> last hs < d))
      (\<lambda>e s'. ok s' \<and> heads s' = heads s \<and> objs s' = objs s) s"
    and c_delete_law: "ok s \<Longrightarrow> valid_id v \<Longrightarrow> post (os_delete_chunks (ix_os E) v hs)
      (\<lambda>_ s'. ok s' \<and> heads s' = heads s \<and> objs s' = drop_objs (objs s) v (set hs))
      (\<lambda>e s'. ok s' \<and> heads s' = heads s \<and> (\<exists>D \<subseteq> set hs. objs s' = drop_objs (objs s) v D)) s"
    and c_finite: "ok s \<Longrightarrow> finite (dom (objs s v))"
    and c_codec: "codec_ok root_wf (ix_codec E)"
begin

definition still :: "'s \<Rightarrow> 's \<Rightarrow> bool" where
  "still s s' \<longleftrightarrow> ok s' \<and> heads s' = heads s \<and> objs s' = objs s"

definition quiet :: "'s cancel \<Rightarrow> bool" where
  "quiet cancel \<longleftrightarrow> (\<forall>t c t'. ok t \<longrightarrow> cancel t = (c, t') \<longrightarrow> still t t')"

lemma reader: "indexed_store (read_only E) heads objs ok B"
  by (rule read_only_store [OF c_chunk_law c_base_law c_codec])

text \<open>The owner's store, while the flag is set.\<close>

lemma owner_reader:
  "indexed_store (read_only (own_env E oc i ident)) (\<lambda>w. heads (snd w)) (\<lambda>w. objs (snd w)) (\<lambda>w. fst w \<and> ok (snd w)) B"
proof (rule read_only_store)
  fix w :: "bool \<times> 's" and v d img h off
  assume w: "fst w \<and> ok (snd w)"
  obtain s where s: "w = (True, s)" "ok s" using w by (cases w) auto
  show "post (os_base_chunk (ix_os (own_env E oc i ident)) img h off)
      (\<lambda>b w'. (fst w' \<and> ok (snd w')) \<and> heads (snd w') = heads (snd w) \<and> objs (snd w') = objs (snd w) \<and> B img h = Some b)
      (\<lambda>_ w'. (fst w' \<and> ok (snd w')) \<and> heads (snd w') = heads (snd w) \<and> objs (snd w') = objs (snd w)) w"
    using c_base_law [OF s(2), of img h off] s by (simp add: own_env_def owned_store_def own_guard_def post_simps)
  show "post (os_chunk (ix_os (own_env E oc i ident)) v d)
      (\<lambda>b w'. (fst w' \<and> ok (snd w')) \<and> heads (snd w') = heads (snd w) \<and> objs (snd w') = objs (snd w) \<and> objs (snd w) v d = Some b)
      (\<lambda>_ w'. (fst w' \<and> ok (snd w')) \<and> heads (snd w') = heads (snd w) \<and> objs (snd w') = objs (snd w)) w" if "valid_id v"
    using c_chunk_law [OF s(2) that, of d] s by (auto simp: own_env_def owned_store_def owned_call_def own_guard_def post_simps)
qed (simp add: own_env_def c_codec)

lemma still_ok: "still s t \<Longrightarrow> ok t"
  by (simp add: still_def)

lemma still_refl: "ok s \<Longrightarrow> still s s"
  by (simp add: still_def)

lemma check_cancel_still: "quiet cancel \<Longrightarrow> still s t \<Longrightarrow> post (check_cancel cancel) (\<lambda>_. still s) (\<lambda>_. still s) t"
  by (cases "cancel t") (auto simp: check_cancel_def post_def quiet_def still_def)

lemma head_still: "still s t \<Longrightarrow> valid_id v \<Longrightarrow> post (os_head (ix_os E) v) (\<lambda>h u. still s u \<and> h = heads s v) (\<lambda>_. still s) t"
  by (rule post_mono [OF c_head_law [OF still_ok]]) (auto simp: still_def)

lemma from_head_still:
  assumes "still s t" "valid_id i"
  shows "post (from_head E i h) (\<lambda>_. still s) (\<lambda>_. still s) t"
proof -
  have "indexed_store.same heads objs ok s t" using assms(1) by (simp add: indexed_store.same_def [OF reader] still_def)
  from indexed_store.decode_head_post [OF reader this assms(2), of h True] show ?thesis
    unfolding from_head_def [symmetric] read_only_from_head
    by (rule post_mono) (auto simp: indexed_store.same_def [OF reader] still_def)
qed

lemma own_decode_still:
  assumes "still s t" "valid_id i"
  shows "post (own_decode E oc i h) (\<lambda>e u. still s u \<and> open_envelope oc i h = Ok e) (\<lambda>_. still s) t"
  using assms
  by (auto simp: own_decode_def post_simps ok_or_def split: result.split option.split intro!: post_mono [OF from_head_still])

text \<open>What the owner reads as its head: the revision of the store with the root of the envelope.\<close>

definition owns :: "'j own_codec \<Rightarrow> string \<Rightarrow> identity \<Rightarrow> 's \<Rightarrow> head \<Rightarrow> head \<Rightarrow> bool" where
  "owns oc i ident s h h' \<longleftrightarrow> heads s i = Some h \<and> (\<exists>e m. open_envelope oc i h = Ok e \<and> own_matches ident e
     \<and> oc_print oc (ev_manifest e) = Some m \<and> h' = \<lparr>h_revision = h_revision h, h_manifest = m\<rparr>)"

lemma owned_head_still:
  assumes "still s t" "valid_id i"
  shows "post (owned_head E oc i ident i)
    (\<lambda>oh w. fst w = active \<and> active \<and> still s (snd w) \<and> (\<exists>h h'. oh = Some h' \<and> owns oc i ident s h h'))
    (\<lambda>_ w. fst w = active \<and> still s (snd w)) (active, t)"
proof (cases active)
  case True
  show ?thesis
    unfolding owned_head_def own_guard_def
    using assms True
    by (auto simp: post_simps ok_or_def owns_def split: option.split intro!: post_mono [OF head_still] post_mono [OF own_decode_still])
qed (use assms in \<open>simp add: owned_head_def own_guard_def post_simps\<close>)

text \<open>The volume that is built from the owner's head is the one that the head holds.\<close>

lemma owner_volume:
  assumes "still s t" "valid_id i" "owns oc i ident s h h'"
  shows "post (from_head (own_env E oc i ident) i h')
    (\<lambda>vol w. fst w \<and> still s (snd w) \<and> x_inv vol \<and> holds_volume E oc B i h vol) (\<lambda>_ w. fst w \<and> still s (snd w)) (True, t)"
proof -
  note rd = owner_reader [of oc i ident]
  have same: "indexed_store.same (\<lambda>w. heads (snd w)) (\<lambda>w. objs (snd w)) (\<lambda>w. fst w \<and> ok (snd w)) (True, s) w \<longleftrightarrow> fst w \<and> still s (snd w)" for w
    by (auto simp: indexed_store.same_def [OF rd] still_def)
  have cd: "ix_codec (read_only (own_env E oc i ident)) = ix_codec E" by (simp add: read_only_sel own_env_def)
  have "indexed_store.same (\<lambda>w. heads (snd w)) (\<lambda>w. objs (snd w)) (\<lambda>w. fst w \<and> ok (snd w)) (True, s) (True, t)"
    unfolding same using assms(1) by simp
  from indexed_store.decode_head_post [OF rd this assms(2), of h' True]
  show ?thesis
    unfolding from_head_def [symmetric] read_only_from_head same cd
  proof (rule post_mono)
    fix vol w
    assume a: "(fst w \<and> still s (snd w)) \<and> x_inv vol \<and> x_dirty vol = [] \<and> \<not> x_poisoned vol \<and> rt_volume (x_root vol) = i \<and> x_revision vol = h_revision h'
       \<and> c_from_slice (ix_codec E) (h_manifest h') = Some (x_root vol)
       \<and> (\<forall>r. rt_base (x_root vol) = Some r \<longrightarrow> base_catalog (c_digest (ix_codec E)) B r (the (x_base vol)))"
    then have "holds_volume E oc B i h vol"
      using assms(3) by (auto simp: holds_volume_def owns_def x_inv_def)
    then show "fst w \<and> still s (snd w) \<and> x_inv vol \<and> holds_volume E oc B i h vol" using a by simp
  qed auto
qed

lemma owner_references:
  assumes "still s t" "x_inv vol" "quiet cancel"
  shows "post (references (own_env E oc i ident) vol (held_cancel cancel))
    (\<lambda>live w. fst w \<and> still s (snd w) \<and> covers live (needed (objs s) B vol)) (\<lambda>_ w. fst w \<and> still s (snd w)) (True, t)"
proof -
  note rd = owner_reader [of oc i ident]
  have same: "indexed_store.same (\<lambda>w. heads (snd w)) (\<lambda>w. objs (snd w)) (\<lambda>w. fst w \<and> ok (snd w)) (a, s) w \<longleftrightarrow> fst w \<and> still s (snd w)" for a s w
    by (auto simp: indexed_store.same_def [OF rd] still_def)
  have "indexed_store.harmless (\<lambda>w. heads (snd w)) (\<lambda>w. objs (snd w)) (\<lambda>w. fst w \<and> ok (snd w)) (held_cancel cancel)"
    unfolding indexed_store.harmless_def [OF rd] using assms(3)
    by (auto simp: same held_cancel_def quiet_def split: prod.splits)
  from indexed_store.references_post [OF rd _ assms(2) this, of "(True, s)" "(True, t)"]
  show ?thesis unfolding same read_only_references using assms(1) by simp
qed

text \<open>The mark phase, with or without a mark of an earlier pass.\<close>

lemma collect_mark_still:
  assumes t: "still s t" and i: "valid_id i" and h: "owns oc i ident s h h'" and c: "quiet cancel"
    and mk: "mark_ok E oc B i (heads s) (objs s) mark"
  shows "post (collect_mark E oc i ident cancel h')
    (\<lambda>live w. fst (snd w) \<and> still s (snd (snd w)) \<and> mark_ok E oc B i (heads s) (objs s) (fst w)
       \<and> map_option om_live (fst w) = Some live \<and> (\<forall>vol. holds_volume E oc B i h vol \<longrightarrow> covers live (needed (objs s) B vol)))
    (\<lambda>_ w. fst (snd w) \<and> still s (snd (snd w)) \<and> mark_ok E oc B i (heads s) (objs s) (fst w)) (mark, True, t)"
    (is "post _ ?Q ?F _")
proof -
  have hd: "heads s i = Some h" "h_revision h' = h_revision h" using h by (auto simp: owns_def)
  have fresh: "post (make_mark E oc i ident cancel h') ?Q ?F (mark, True, t)"
  proof -
    have rest: "post (io_bind (lift_world (references (own_env E oc i ident) vol (held_cancel cancel))) (\<lambda>live.
        io_bind (set_self (Some \<lparr>om_id = i, om_revision = h_revision h', om_live = live\<rparr>)) (\<lambda>_. io_return live))) ?Q ?F (None, w)"
      if a: "fst w \<and> still s (snd w) \<and> x_inv vol \<and> holds_volume E oc B i h vol" for vol w
    proof -
      obtain u where u: "w = (True, u)" "still s u" using a by (cases w) auto
      have all: "covers live (needed (objs s) B vol')" if "covers live (needed (objs s) B vol)" "holds_volume E oc B i h vol'" for live vol'
        using that a holds_volume_unique [of E oc B i h vol vol'] needed_cong by metis
      show ?thesis
        unfolding u post_bind post_lift_world
        by (rule post_mono [OF owner_references [OF u(2) _ c]]) (use a all hd in \<open>auto simp: post_simps mark_ok_def\<close>)
    qed
    show ?thesis
      unfolding make_mark_def post_bind [of "set_self None"] post_set_self snd_conv
      unfolding post_bind [of "lift_world (from_head _ _ _)"] post_lift_world
      by (rule post_mono [OF owner_volume [OF t i h]], rule rest) auto
  qed
  show ?thesis
    unfolding collect_mark_def post_bind post_get_self fst_conv
    using fresh t mk hd by (auto simp: post_return mark_ok_def split: option.split)
qed

lemma collect_garbage_still:
  assumes "still s t" "quiet cancel"
  shows "post (collect_garbage cancel live hs g)
    (\<lambda>g' u. still s u \<and> g' = g @ filter (\<lambda>h. hex_pairs h \<notin> set live) hs) (\<lambda>_. still s) t"
  using assms(1)
proof (induction hs arbitrary: g t)
  case Nil
  then show ?case by (simp add: post_return)
next
  case (Cons h hs)
  show ?case
    unfolding collect_garbage.simps post_bind
  proof (rule post_mono [OF check_cancel_still [OF assms(2) Cons.prems]])
    fix u
    assume u: "still s u"
    show "post (io_lift (hash_decode h)) (\<lambda>raw. post (collect_garbage cancel live hs (if raw \<notin> set live then g @ [h] else g))
        (\<lambda>g' u. still s u \<and> g' = g @ filter (\<lambda>h. hex_pairs h \<notin> set live) (h # hs)) (\<lambda>_. still s)) (\<lambda>_. still s) u"
      using u Cons.IH [OF u, of "if hex_pairs h \<notin> set live then g @ [h] else g"]
      by (auto simp: post_lift hash_decode_def elim!: post_mono split: if_splits)
  qed
qed

text \<open>A pass of the owner that removed the objects \<open>D\<close>.\<close>

definition passed :: "'j own_codec \<Rightarrow> string \<Rightarrow> identity \<Rightarrow> bool \<Rightarrow> 's \<Rightarrow> string set \<Rightarrow> 's collecting \<Rightarrow> bool" where
  "passed oc i ident active s D w \<longleftrightarrow> fst (snd w) = active \<and> ok (snd (snd w)) \<and> heads (snd (snd w)) = heads s
     \<and> objs (snd (snd w)) = drop_objs (objs s) i D \<and> spares E oc B i (heads s) (objs s) D
     \<and> mark_ok E oc B i (heads s) (objs s) (fst w) \<and> (D \<noteq> {} \<longrightarrow> active \<and> (\<exists>h h'. owns oc i ident s h h'))"

lemma passed_still: "fst (snd w) = active \<Longrightarrow> still s (snd (snd w)) \<Longrightarrow> mark_ok E oc B i (heads s) (objs s) (fst w) \<Longrightarrow> passed oc i ident active s {} w"
  by (simp add: passed_def still_def spares_def)

lemma covered_spares:
  assumes "owns oc i ident s h h'" "\<forall>vol. holds_volume E oc B i h vol \<longrightarrow> covers live (needed (objs s) B vol)"
    and "\<forall>d \<in> D. valid_hash d \<and> hex_pairs d \<notin> set live"
  shows "spares E oc B i (heads s) (objs s) D"
  unfolding spares_def
proof (intro allI impI)
  fix g vol
  assume "heads s i = Some g" "holds_volume E oc B i g vol"
  then have c: "covers live (needed (objs s) B vol)" using assms(1,2) by (auto simp: owns_def)
  have "hex_pairs d \<in> set live" if "d \<in> needed (objs s) B vol" for d
    using c that unfolding covers_def by (auto simp: hash_decode_def split: if_splits)
  then show "D \<inter> needed (objs s) B vol = {}" using assms(3) by blast
qed

lemma collect_listed_post:
  assumes t: "still s t" and i: "valid_id i" and h: "owns oc i ident s h h'" and c: "quiet cancel"
    and mk: "mark_ok E oc B i (heads s) (objs s) (Some m)" and all: "\<forall>vol. holds_volume E oc B i h vol \<longrightarrow> covers (om_live m) (needed (objs s) B vol)"
  shows "post (collect_listed E oc i ident after limit cancel h' (om_live m) hs)
    (\<lambda>r w. fst w = Some m \<and> listing_ok after limit hs \<and> passed oc i ident True s (set (filter (\<lambda>d. hex_pairs d \<notin> set (om_live m)) hs)) w
       \<and> r = \<lparr>cl_scanned_objects = length hs, cl_deleted_objects = length (filter (\<lambda>d. hex_pairs d \<notin> set (om_live m)) hs),
              cl_complete = (hs = []), cl_next_after = (if hs = [] then None else Some (last hs))\<rparr>)
    (\<lambda>_ w. \<exists>D. passed oc i ident True s D w) (Some m, True, t)"
proof (cases "listing_ok after limit hs")
  case False
  have "passed oc i ident True s {} (Some m, True, t)" by (rule passed_still) (simp_all add: t mk)
  then show ?thesis using False by (auto simp: collect_listed_def post_throw)
next
  case True
  define g where "g = filter (\<lambda>d. hex_pairs d \<notin> set (om_live m)) hs"
  define r where "r = \<lparr>cl_scanned_objects = length hs, cl_deleted_objects = length g, cl_complete = (hs = []),
    cl_next_after = (if hs = [] then None else Some (last hs))\<rparr>"
  have sp: "spares E oc B i (heads s) (objs s) (set g)"
    by (rule covered_spares [OF h all]) (use True in \<open>auto simp: g_def listing_ok_def list_all_iff\<close>)
  have fail: "\<exists>D. passed oc i ident True s D (Some m, True, u)" if "still s u" for u
    by (rule exI, rule passed_still) (simp_all add: that mk)
  have del: "post (os_delete_chunks (ix_os E) i g) (\<lambda>_ u. passed oc i ident True s (set g) (Some m, True, u))
      (\<lambda>_ u. \<exists>D. passed oc i ident True s D (Some m, True, u)) u" if u: "still s u" for u
  proof (rule post_mono [OF c_delete_law [OF still_ok [OF u] i]])
    fix e v
    assume "ok v \<and> heads v = heads u \<and> (\<exists>D \<subseteq> set g. objs v = drop_objs (objs u) i D)"
    then obtain D where "ok v" "heads v = heads u" "D \<subseteq> set g" "objs v = drop_objs (objs u) i D" by blast
    then have "passed oc i ident True s D (Some m, True, v)"
      using u mk h spares_subset [OF sp] by (auto simp: passed_def still_def)
    then show "\<exists>D. passed oc i ident True s D (Some m, True, v)" by blast
  qed (use u mk h sp in \<open>auto simp: passed_def still_def\<close>)
  define rest :: "('s collecting, collection, verror) io" where
    "rest = io_bind (lift_world (lift_world (collect_garbage cancel (om_live m) hs []))) (\<lambda>garbage.
          io_bind (lift_world (lift_world (os_delete_chunks (ix_os E) i garbage))) (\<lambda>_.
            io_return \<lparr>cl_scanned_objects = length hs, cl_deleted_objects = length garbage,
              cl_complete = (hs = []), cl_next_after = (if hs = [] then None else Some (last hs))\<rparr>))"
  have fin: "post rest
      (\<lambda>r' w. fst w = Some m \<and> passed oc i ident True s (set g) w \<and> r' = r) (\<lambda>_ w. \<exists>D. passed oc i ident True s D w) (Some m, True, u)"
    if u: "still s u" for u
    unfolding rest_def post_bind post_lift_world
    by (rule post_mono [OF collect_garbage_still [OF u c]])
       (use fail del in \<open>auto simp: post_lift_world post_return g_def [symmetric] r_def elim!: post_mono\<close>)
  show ?thesis
    unfolding collect_listed_def rest_def [symmetric] g_def [symmetric] r_def [symmetric]
    unfolding post_if post_bind [of "lift_world (lift_world (check_cancel cancel))"] post_bind [of "lift_world (owned_head _ _ _ _ _)"] post_lift_world
    using True
    by (auto simp: post_throw fail split: option.split intro!: post_mono [OF check_cancel_still [OF c t]] post_mono [OF owned_head_still [OF _ i]] fin)
qed

lemma collect_post:
  assumes s: "ok s" and i: "valid_id i" and c: "quiet cancel" and mk: "mark_ok E oc B i (heads s) (objs s) mark"
  shows "post (collect_offline_cached E oc i ident ph st after limit cancel)
    (\<lambda>r w. \<exists>m hs. fst w = Some m \<and> ph = Active \<and> st_pending_bytes (log_status st) = 0 \<and> listing_ok after limit hs
       \<and> set hs \<subseteq> dom (objs s i) \<and> (\<forall>d \<in> dom (objs s i). after_mark after d \<longrightarrow> d \<in> set hs \<or> hs \<noteq> [] \<and> last hs < d)
       \<and> passed oc i ident active s (set (filter (\<lambda>d. hex_pairs d \<notin> set (om_live m)) hs)) w
       \<and> r = \<lparr>cl_scanned_objects = length hs, cl_deleted_objects = length (filter (\<lambda>d. hex_pairs d \<notin> set (om_live m)) hs),
              cl_complete = (hs = []), cl_next_after = (if hs = [] then None else Some (last hs))\<rparr>)
    (\<lambda>_ w. \<exists>D. passed oc i ident active s D w \<and> (D \<noteq> {} \<longrightarrow> ph = Active \<and> st_pending_bytes (log_status st) = 0)) (mark, active, s)"
    (is "post _ ?Q ?F _")
proof -
  define Q where "Q = ?Q"
  define F :: "verror \<Rightarrow> 's collecting \<Rightarrow> bool" where "F = ?F"
  have fail: "F e w" if "fst (snd w) = active" "still s (snd (snd w))" "mark_ok E oc B i (heads s) (objs s) (fst w)" for e w
    unfolding F_def by (rule exI [of _ "{}"]) (simp add: passed_still [OF that])
  consider "\<not> (1 \<le> limit \<and> limit \<le> 1000) \<or> (case after of None \<Rightarrow> False | Some a \<Rightarrow> \<not> valid_hash a) \<or> ph \<noteq> Active"
    | (go) "1 \<le> limit" "limit \<le> 1000" "\<not> (case after of None \<Rightarrow> False | Some a \<Rightarrow> \<not> valid_hash a)" "ph = Active" by blast
  then have "post (collect_offline_cached E oc i ident ph st after limit cancel) Q F (mark, active, s)"
  proof cases
    case 1
    then show ?thesis using fail [of "(mark, active, s)"] still_refl [OF s] mk
      by (auto simp: collect_offline_cached_def post_throw)
  next
    case go
    have listed: "post (io_bind (lift_world (lift_world (os_list_chunks_after (ix_os E) i after limit))) (collect_listed E oc i ident after limit cancel h' (om_live m)))
        Q F (Some m, True, t)"
      if t: "still s t" "owns oc i ident s h h'" "mark_ok E oc B i (heads s) (objs s) (Some m)" "active" "st_pending_bytes (log_status st) = 0"
        and all: "\<forall>vol. holds_volume E oc B i h vol \<longrightarrow> covers (om_live m) (needed (objs s) B vol)" for t h h' m
      unfolding post_bind post_lift_world
    proof (rule post_mono [OF c_list_law [OF still_ok [OF t(1)] i]])
      show "0 < limit" using go(1) by simp
      fix hs u
      assume l: "ok u \<and> heads u = heads t \<and> objs u = objs t \<and> set hs \<subseteq> dom (objs t i)
         \<and> (\<forall>d \<in> dom (objs t i). after_mark after d \<longrightarrow> d \<in> set hs \<or> hs \<noteq> [] \<and> last hs < d)"
      have u: "still s u" and l': "set hs \<subseteq> dom (objs s i)" "\<forall>d \<in> dom (objs s i). after_mark after d \<longrightarrow> d \<in> set hs \<or> hs \<noteq> [] \<and> last hs < d"
        using l t(1) by (simp_all add: still_def)
      show "post (collect_listed E oc i ident after limit cancel h' (om_live m) hs) Q F (Some m, True, u)"
        unfolding Q_def F_def
        by (rule post_mono [OF collect_listed_post [OF u i t(2) c t(3) all]]) (use l' go(4) t(4,5) in auto)
    qed (use t fail in \<open>auto simp: still_def\<close>)
    have marked: "post (io_bind (collect_mark E oc i ident cancel h') (\<lambda>live.
          io_bind (lift_world (lift_world (os_list_chunks_after (ix_os E) i after limit))) (collect_listed E oc i ident after limit cancel h' live)))
        Q F (mark, True, t)"
      if t: "still s t" "owns oc i ident s h h'" "active" "st_pending_bytes (log_status st) = 0" for t h h'
      unfolding post_bind [of "collect_mark _ _ _ _ _ _"]
    proof (rule post_mono [OF collect_mark_still [OF t(1) i t(2) c mk]])
      fix live w
      assume w: "fst (snd w) \<and> still s (snd (snd w)) \<and> mark_ok E oc B i (heads s) (objs s) (fst w)
       \<and> map_option om_live (fst w) = Some live \<and> (\<forall>vol. holds_volume E oc B i h vol \<longrightarrow> covers live (needed (objs s) B vol))"
      then obtain m u where "w = (Some m, True, u)" "om_live m = live" by (cases w) auto
      then show "post (io_bind (lift_world (lift_world (os_list_chunks_after (ix_os E) i after limit))) (collect_listed E oc i ident after limit cancel h' live))
        Q F w" using listed [of u h h' m] t w by simp
    qed (use t fail in auto)
    show ?thesis
      unfolding collect_offline_cached_def post_if post_bind [of "lift_world (lift_world (check_cancel cancel))"] post_lift_world
        post_bind [of "lift_world (owned_head _ _ _ _ _)"] post_bind [of "io_lift _"] post_lift
      using go fail mk
      by (auto simp: post_throw ok_or_def split: option.split intro!: post_mono [OF check_cancel_still [OF c still_refl [OF s]]] post_mono [OF owned_head_still [OF _ i]] marked)
  qed
  then show ?thesis unfolding Q_def F_def .
qed

end

section \<open>The service of the reclamation tests\<close>

definition sweep_env :: "root codec \<Rightarrow> sweep_state ix_env" where
  "sweep_env cd = \<lparr>ix_codec = cd, ix_os = sweep_store (c_digest cd), ix_now = (\<lambda>s. (0, s)), ix_sched = (\<lambda>_. [])\<rparr>"

lemma sw_list_after:
  assumes "sw_ok s" "0 < n" "sw_list_chunks_after i after n s = (Ok hs, s')"
  shows "s' = s" "set hs \<subseteq> dom (sw_view s i)" "\<forall>d \<in> dom (sw_view s i). after_mark after d \<longrightarrow> d \<in> set hs \<or> hs \<noteq> [] \<and> last hs < d"
proof -
  define ks where "ks = map snd (filter (\<lambda>(v, h). v = i \<and> after_mark after h) (map fst (sw_chunks s)))"
  have hs: "hs = take n ks" "s' = s"
    using assms(3) by (auto simp: sw_list_chunks_after_def ks_def take_map after_mark_def [symmetric])
  have "sorted_wrt (<) (filter (\<lambda>(v, h). v = i \<and> after_mark after h) (map fst (sw_chunks s)))"
    using assms(1) by (auto simp: sw_ok_def bt_ok_def intro: sorted_wrt_filter)
  then have sorted: "sorted_wrt (<) ks"
    unfolding ks_def sorted_wrt_map by (rule sorted_wrt_mono_rel [rotated]) (auto simp: less_prod_def)
  have set: "set ks = {d \<in> dom (sw_view s i). after_mark after d}"
    unfolding ks_def sw_dom by force
  show "s' = s" by (rule hs)
  show "set hs \<subseteq> dom (sw_view s i)" using set set_take_subset [of n ks] unfolding hs by blast
  show "\<forall>d \<in> dom (sw_view s i). after_mark after d \<longrightarrow> d \<in> set hs \<or> hs \<noteq> [] \<and> last hs < d"
  proof (intro ballI impI)
    fix d
    assume "d \<in> dom (sw_view s i)" "after_mark after d"
    then have d: "d \<in> set (take n ks @ drop n ks)" using set by simp
    have "last (take n ks) < d" "take n ks \<noteq> []" if "d \<in> set (drop n ks)"
    proof -
      show ne: "take n ks \<noteq> []" using that assms(2) by auto
      have "sorted_wrt (<) (take n ks @ drop n ks)" using sorted by simp
      then have "\<forall>a \<in> set (take n ks). \<forall>b \<in> set (drop n ks). a < b" unfolding sorted_wrt_append by blast
      then show "last (take n ks) < d" using that last_in_set [OF ne] by blast
    qed
    then show "d \<in> set hs \<or> hs \<noteq> [] \<and> last hs < d" using d unfolding hs set_append by blast
  qed
qed

lemma sweep_collected:
  assumes "codec_ok root_wf cd"
  shows "collected_store (sweep_env cd) (\<lambda>s. bt_get (sw_heads s)) sw_view sw_ok (\<lambda>_ _. None)"
proof
  fix s :: sweep_state and v d img h :: string and off :: "nat option" and after :: "string option" and n :: nat and hs :: "string list"
  assume s: "sw_ok s"
  show "post (os_head (ix_os (sweep_env cd)) v)
      (\<lambda>h s'. sw_ok s' \<and> bt_get (sw_heads s') = bt_get (sw_heads s) \<and> sw_view s' = sw_view s \<and> h = bt_get (sw_heads s) v)
      (\<lambda>e s'. sw_ok s' \<and> bt_get (sw_heads s') = bt_get (sw_heads s) \<and> sw_view s' = sw_view s) s" if "valid_id v"
    using swept.r_head_law [OF s that] by (simp add: sweep_env_def)
  show "post (os_chunk (ix_os (sweep_env cd)) v d)
      (\<lambda>b s'. sw_ok s' \<and> bt_get (sw_heads s') = bt_get (sw_heads s) \<and> sw_view s' = sw_view s \<and> sw_view s v d = Some b)
      (\<lambda>e s'. sw_ok s' \<and> bt_get (sw_heads s') = bt_get (sw_heads s) \<and> sw_view s' = sw_view s) s"
    using s by (auto simp: sweep_env_def sweep_store_def sw_chunk_def post_def ok_or_def sw_ok_def sw_view_def fun_eq_iff split: option.split)
  show "post (os_base_chunk (ix_os (sweep_env cd)) img h off)
      (\<lambda>b s'. sw_ok s' \<and> bt_get (sw_heads s') = bt_get (sw_heads s) \<and> sw_view s' = sw_view s \<and> None = Some b)
      (\<lambda>e s'. sw_ok s' \<and> bt_get (sw_heads s') = bt_get (sw_heads s) \<and> sw_view s' = sw_view s) s"
    using s by (simp add: sweep_env_def sweep_store_def default_base_chunk_def post_throw)
  show "post (os_list_chunks_after (ix_os (sweep_env cd)) v after n)
      (\<lambda>hs s'. sw_ok s' \<and> bt_get (sw_heads s') = bt_get (sw_heads s) \<and> sw_view s' = sw_view s \<and> set hs \<subseteq> dom (sw_view s v)
         \<and> (\<forall>d \<in> dom (sw_view s v). after_mark after d \<longrightarrow> d \<in> set hs \<or> hs \<noteq> [] \<and> last hs < d))
      (\<lambda>e s'. sw_ok s' \<and> bt_get (sw_heads s') = bt_get (sw_heads s) \<and> sw_view s' = sw_view s) s" if n: "0 < n"
  proof -
    obtain hs where run: "sw_list_chunks_after v after n s = (Ok hs, s)" by (simp add: sw_list_chunks_after_def)
    show ?thesis
      using sw_list_after(2,3) [OF s n run] s by (simp add: sweep_env_def sweep_store_def post_def run)
  qed
  show "post (os_delete_chunks (ix_os (sweep_env cd)) v hs)
      (\<lambda>_ s'. sw_ok s' \<and> bt_get (sw_heads s') = bt_get (sw_heads s) \<and> sw_view s' = drop_objs (sw_view s) v (set hs))
      (\<lambda>e s'. sw_ok s' \<and> bt_get (sw_heads s') = bt_get (sw_heads s) \<and> (\<exists>D \<subseteq> set hs. sw_view s' = drop_objs (sw_view s) v D)) s" if "valid_id v"
    using swept.r_delete_law [OF s that] by (simp add: sweep_env_def)
  show "finite (dom (sw_view s v))" by (rule swept.r_finite [OF s])
qed (simp add: sweep_env_def assms)

interpretation demo_collected: collected_store "sweep_env demo_roots" "\<lambda>s. bt_get (sw_heads s)" sw_view sw_ok "\<lambda>_ _. None"
  by (rule sweep_collected [OF demo_ix.root_codec])

section \<open>Properties\<close>

text \<open>
  C21. A pass of the offline collection, whatever it returns, touches no head and no other
  volume, and of its own volume it only removes objects; it removes none unless the caller
  owns the head, is active and has no pending writes. The disk of the volume reads the same
  afterwards and stays complete, and the mark that is kept for the next pass stays valid.
  After a pass that succeeds every object up to the reported cursor is marked, and as many
  objects are gone as are reported.
\<close>

theorem collect_keeps_disk:
  assumes "collected_store E heads objs ok B" "ok s" "valid_id i"
    and quiet: "\<forall>t b t'. ok t \<longrightarrow> cancel t = (b, t') \<longrightarrow> ok t' \<and> heads t' = heads t \<and> objs t' = objs t"
    and "mark_ok E oc B i (heads s) (objs s) mark"
    and run: "collect_offline_cached E oc i ident ph st after limit cancel (mark, active, s) = (r, mark', active', s')"
  shows "heads s' = heads s \<and> (\<forall>w. w \<noteq> i \<longrightarrow> objs s' w = objs s w) \<and> objs s' i \<subseteq>\<^sub>m objs s i
    \<and> (objs s' i \<noteq> objs s i \<longrightarrow> ph = Active \<and> active \<and> st_pending_bytes (log_status st) = 0
         \<and> (\<exists>h e. heads s i = Some h \<and> open_envelope oc i h = Ok e \<and> own_matches ident e))
    \<and> (\<forall>h vol. heads s i = Some h \<longrightarrow> holds_volume E oc B i h vol \<longrightarrow> xdisk (objs s') B vol = xdisk (objs s) B vol
         \<and> (x_complete (c_digest (ix_codec E)) (objs s) B vol \<longrightarrow> x_complete (c_digest (ix_codec E)) (objs s') B vol))
    \<and> mark_ok E oc B i (heads s') (objs s') mark'
    \<and> (\<forall>c. r = Ok c \<longrightarrow> cl_deleted_objects c \<le> limit \<and> card (dom (objs s' i)) + cl_deleted_objects c = card (dom (objs s i))
         \<and> (\<forall>d \<in> dom (objs s' i). after_mark after d \<longrightarrow>
              (\<exists>n. cl_next_after c = Some n \<and> (n < d \<or> hex_pairs d \<in> set (om_live (the mark'))))))"
proof -
  have q: "collected_store.quiet heads objs ok cancel"
    unfolding collected_store.quiet_def [OF assms(1)] collected_store.still_def [OF assms(1)] using quiet by blast
  note p = collected_store.collect_post [OF assms(1,2,3) q assms(5), where ident = ident and ph = ph and st = st and after = after
      and limit = limit and active = active]
  note pd = collected_store.passed_def [OF assms(1)] collected_store.owns_def [OF assms(1)]
  have kept: "mark_ok E oc B i (heads s') (objs s') mark'" "\<forall>h vol. heads s i = Some h \<longrightarrow> holds_volume E oc B i h vol \<longrightarrow> xdisk (objs s') B vol = xdisk (objs s) B vol
         \<and> (x_complete (c_digest (ix_codec E)) (objs s) B vol \<longrightarrow> x_complete (c_digest (ix_codec E)) (objs s') B vol)"
    if "collected_store.passed E heads objs ok B oc i ident active s D (mark', active', s')" for D
  proof -
    have d: "heads s' = heads s" "objs s' = drop_objs (objs s) i D" "spares E oc B i (heads s) (objs s) D" "mark_ok E oc B i (heads s) (objs s) mark'"
      using that by (simp_all add: pd)
    show "mark_ok E oc B i (heads s') (objs s') mark'" unfolding d(1,2) by (rule spares_mark [OF d(3,4)])
    show "\<forall>h vol. heads s i = Some h \<longrightarrow> holds_volume E oc B i h vol \<longrightarrow> xdisk (objs s') B vol = xdisk (objs s) B vol
         \<and> (x_complete (c_digest (ix_codec E)) (objs s) B vol \<longrightarrow> x_complete (c_digest (ix_codec E)) (objs s') B vol)"
      unfolding d(2) using needed_disk needed_complete spares_agrees [OF d(3)] by blast
  qed
  show ?thesis
  proof (cases r)
    case (Err e)
    from post_run_err [OF p run [unfolded Err]] obtain D where
      D: "collected_store.passed E heads objs ok B oc i ident active s D (mark', active', s')"
        "D \<noteq> {} \<longrightarrow> ph = Active \<and> st_pending_bytes (log_status st) = 0" by blast
    then show ?thesis
      using Err kept [OF D(1)] by (auto simp: pd map_le_def restrict_map_def fun_eq_iff)
  next
    case (Ok c)
    from post_run [OF p run [unfolded Ok]] obtain m hs where
      m: "mark' = Some m" "ph = Active" "st_pending_bytes (log_status st) = 0" "listing_ok after limit hs" "set hs \<subseteq> dom (objs s i)"
        "\<forall>d \<in> dom (objs s i). after_mark after d \<longrightarrow> d \<in> set hs \<or> hs \<noteq> [] \<and> last hs < d"
        "collected_store.passed E heads objs ok B oc i ident active s (set (filter (\<lambda>d. hex_pairs d \<notin> set (om_live m)) hs)) (mark', active', s')"
        "c = \<lparr>cl_scanned_objects = length hs, cl_deleted_objects = length (filter (\<lambda>d. hex_pairs d \<notin> set (om_live m)) hs),
              cl_complete = (hs = []), cl_next_after = (if hs = [] then None else Some (last hs))\<rparr>" by auto
    define g where "g = filter (\<lambda>d. hex_pairs d \<notin> set (om_live m)) hs"
    have o: "objs s' = drop_objs (objs s) i (set g)" "heads s' = heads s" using m(7) by (simp_all add: pd g_def)
    have "distinct g" "length g \<le> limit" "set g \<subseteq> dom (objs s i)"
      using m(4,5) unfolding g_def listing_ok_def by (auto simp: strict_sorted_iff intro: le_trans [OF length_filter_le])
    then have "card (dom (objs s' i)) + length g = card (dom (objs s i))"
      unfolding o(1) using collected_store.c_finite [OF assms(1,2)] by (intro card_drop_objs)
    moreover have "\<exists>n. cl_next_after c = Some n \<and> (n < d \<or> hex_pairs d \<in> set (om_live m))" if "d \<in> dom (objs s' i)" "after_mark after d" for d
      using that m(6,8) o(1) by (auto simp: g_def restrict_map_def split: if_splits)
    ultimately show ?thesis
      using m \<open>length g \<le> limit\<close> kept [OF m(7)] o Ok by (auto simp: pd g_def map_le_def restrict_map_def)
  qed
qed

text \<open>A volume with one page, which is kept, and an object that nothing refers to, in the service of the tests.\<close>

definition demo_owner :: identity where
  "demo_owner = \<lparr>id_volume = ''vm'', id_token = hex_string (zeros 32), id_epoch = 2\<rparr>"

definition demo_envelopes :: "bool own_codec" where
  "demo_envelopes = \<lparr>
     oc_tomb = \<lparr>tc_parse = (\<lambda>_. Some True), tc_format_is_5 = (\<lambda>_. False), tc_from_value = (\<lambda>_. None), tc_to_vec = (\<lambda>_. None)\<rparr>,
     oc_print = (\<lambda>_. Some [1]), oc_format = (\<lambda>_. Some 4), oc_ready = (\<lambda>_. True), oc_size = (\<lambda>_. None),
     oc_envelope = (\<lambda>_. Some \<lparr>ev_format = 4, ev_volume = ''vm'', ev_epoch = 2, ev_owner = Some (hex_string (zeros 32)), ev_manifest = False\<rparr>),
     oc_encode = (\<lambda>_. None), oc_identity = (\<lambda>_. None), oc_identity_bytes = (\<lambda>_. None)\<rparr>"

definition demo_attached :: local_state where
  "demo_attached = \<lparr>lo_header = undefined, lo_file = 0, lo_reader = undefined, lo_pending = [], lo_sequence = 0, lo_local_sequence = 0,
     lo_failed = False, lo_replication_failed = False\<rparr>"

definition demo_littered :: "nat \<Rightarrow> sweep_state" where
  "demo_littered n = \<lparr>sw_heads = [(''vm'', \<lparr>h_revision = ''7'', h_manifest = [4]\<rparr>)],
     sw_chunks = [((''vm'', demo_digit (CHR ''3'')), blank_page True 0), ((''vm'', demo_digit (CHR ''7'')), [9])],
     sw_revision = 7, sw_lose_publish = False, sw_fail_delete = False, sw_reads = n\<rparr>"

definition demo_marked :: indexed where
  "demo_marked = fresh_handle (demo_root 1 [(0, demo_digit (CHR ''3''))]) None ''7''"

lemma demo_littered_head:
  "own_decode (sweep_env demo_roots) demo_envelopes ''vm'' \<lparr>h_revision = ''7'', h_manifest = [4]\<rparr> s =
     (Ok \<lparr>ev_format = 4, ev_volume = ''vm'', ev_epoch = 2, ev_owner = Some (hex_string (zeros 32)), ev_manifest = False\<rparr>, s)"
  "owned_head (sweep_env demo_roots) demo_envelopes ''vm'' demo_owner ''vm'' (True, demo_littered n) =
     (Ok (Some \<lparr>h_revision = ''7'', h_manifest = [1]\<rparr>), True, demo_littered n)"
  "from_head (own_env (sweep_env demo_roots) demo_envelopes ''vm'' demo_owner) ''vm'' \<lparr>h_revision = ''7'', h_manifest = [1]\<rparr> w = (Ok demo_marked, w)"
proof -
  have small: "\<not> MAX_MANIFEST_BYTES < Suc 0" by (simp add: MAX_MANIFEST_BYTES_def)
  have v: "root_valid ''vm'' (demo_root 1 [(0, demo_digit (CHR ''3''))])"
    using demo_digit_valid [of "CHR ''3''"]
    by (simp add: root_valid_def demo_root_def hex_char_iff CHUNK_BYTES_def MAX_SIZE_def SLOTS_def div_ceil_def)
  have r: "c_from_slice demo_roots [1] = Some (demo_root 1 [(0, demo_digit (CHR ''3''))])"
      "rt_base (demo_root 1 [(0, demo_digit (CHR ''3''))]) = None" "rt_ready (demo_root 1 [(0, demo_digit (CHR ''3''))])"
    by (simp_all add: demo_roots_def demo_root_def)
  have fh: "from_head E ''vm'' \<lparr>h_revision = ''7'', h_manifest = [1]\<rparr> w = (Ok demo_marked, w)" if "ix_codec E = demo_roots" for E :: "'x ix_env" and w
    using v small that r by (simp add: from_head_def decode_head_def demo_marked_def io_bind_def io_lift_def ok_or_def io_return_def del: One_nat_def)
  show dec: "own_decode (sweep_env demo_roots) demo_envelopes ''vm'' \<lparr>h_revision = ''7'', h_manifest = [4]\<rparr> s =
     (Ok \<lparr>ev_format = 4, ev_volume = ''vm'', ev_epoch = 2, ev_owner = Some (hex_string (zeros 32)), ev_manifest = False\<rparr>, s)" for s
    using small
    by (simp add: own_decode_def open_envelope_def res_bind_def demo_envelopes_def fh sweep_env_def io_bind_def io_lift_def io_return_def ok_or_def)
  show "from_head (own_env (sweep_env demo_roots) demo_envelopes ''vm'' demo_owner) ''vm'' \<lparr>h_revision = ''7'', h_manifest = [1]\<rparr> w = (Ok demo_marked, w)"
    by (rule fh) (simp add: own_env_def sweep_env_def)
  have hd: "os_head (ix_os (sweep_env demo_roots)) ''vm'' (demo_littered n) = (Ok (Some \<lparr>h_revision = ''7'', h_manifest = [4]\<rparr>), demo_littered n)"
    by (simp add: sweep_env_def sweep_store_def sw_head_def demo_littered_def)
  show "owned_head (sweep_env demo_roots) demo_envelopes ''vm'' demo_owner ''vm'' (True, demo_littered n) =
     (Ok (Some \<lparr>h_revision = ''7'', h_manifest = [1]\<rparr>), True, demo_littered n)"
    by (simp add: owned_head_def own_guard_def get_self_def lift_world_def hd dec io_bind_def io_lift_def io_return_def ok_or_def own_matches_def demo_owner_def)
       (simp add: demo_envelopes_def io_bind_def io_lift_def io_return_def)
qed

text \<open>The mark phase finds the one page, which has no slots.\<close>

lemma slot_references_blank: "(\<And>i. object_slot page i = None) \<Longrightarrow> slot_references page bp is live = Ok live"
  by (induction "is") simp_all

lemma demo_page_check: "page_check demo_dg CHUNK_BYTES True 0 (demo_digit (CHR ''3'')) (blank_page True 0) = Ok ()"
proof -
  have len: "length (blank_page True 0) = PACK_PAGE_BYTES" using blank_packed(1) [of 0] by (simp add: page_frame_def)
  have "blank_page True 0 \<noteq> zeros CHUNK_BYTES" "length (blank_page True 0) \<noteq> CHUNK_BYTES"
    using len by (auto simp: PACK_PAGE_BYTES_def CHUNK_BYTES_def zeros_def)
  then have dg: "demo_dg (blank_page True 0) = demo_digit (CHR ''3'')" by (simp add: demo_dg_def)
  have "page_check demo_dg CHUNK_BYTES True 0 (demo_dg (blank_page True 0)) (blank_page True 0) = Ok ()"
    by (rule page_check_Ok [OF blank_wf]) (simp_all add: blank_packed(2))
  then show ?thesis by (simp only: dg)
qed

lemma demo_references:
  "references (own_env (sweep_env demo_roots) demo_envelopes ''vm'' demo_owner) demo_marked (held_cancel never) (True, demo_littered n) =
     (Ok [hex_pairs (demo_digit (CHR ''3''))], True, demo_littered (n + 1))"
proof -
  define X where "X = own_env (sweep_env demo_roots) demo_envelopes ''vm'' demo_owner"
  have codec: "ix_codec X = demo_roots" "c_digest demo_roots = demo_dg" by (simp_all add: X_def own_env_def sweep_env_def demo_roots_def)
  have chunk: "os_chunk (ix_os X) ''vm'' (demo_digit (CHR ''3'')) (True, demo_littered n) = (Ok (blank_page True 0), True, demo_littered (n + 1))"
    by (simp add: X_def own_env_def owned_store_def owned_call_def own_guard_def get_self_def io_bind_def io_return_def lift_world_def
        sweep_env_def sweep_store_def sw_chunk_def ok_or_def demo_littered_def)
  have root: "rt_pages (x_root demo_marked) = [(0, demo_digit (CHR ''3''))]" "x_base demo_marked = None" "packed demo_marked"
      "rt_volume (x_root demo_marked) = ''vm''" "rt_size (x_root demo_marked) = CHUNK_BYTES"
    by (simp_all add: demo_marked_def fresh_handle_def demo_root_def packed_def)
  have page: "x_page X demo_marked 0 (True, demo_littered n) = (Ok (blank_page True 0), True, demo_littered (n + 1))"
    by (simp add: x_page_def page_from_def root Let_def io_bind_def chunk codec demo_page_check io_lift_def io_return_def)
  have bp: "\<exists>bp. base_page X demo_marked 0 w = (Ok bp, w)" for w
    by (simp add: base_page_def page_from_def catalog_page_def root Let_def io_bind_def io_return_def)
  obtain bp where bp: "base_page X demo_marked 0 (True, demo_littered (n + 1)) = (Ok bp, True, demo_littered (n + 1))" using bp by blast
  have v: "valid_hash (demo_digit (CHR ''3''))" by (rule demo_digit_valid) (simp add: hex_char_iff)
  have none: "slot_references (blank_page True 0) bp [0..<SLOTS] live = Ok live" for live
    by (rule slot_references_blank) (simp add: object_slot_def blank_slot)
  show ?thesis
    unfolding X_def [symmetric] references_def root page_references.simps
    using page bp none v
    by (simp add: io_bind_def check_cancel_def held_cancel_def never_def io_lift_def io_return_def hash_decode_def)
qed

definition demo_swept_mark :: offline_mark where
  "demo_swept_mark = \<lparr>om_id = ''vm'', om_revision = ''7'', om_live = [hex_pairs (demo_digit (CHR ''3''))]\<rparr>"

lemma demo_collect:
  "collect_offline_cached (sweep_env demo_roots) demo_envelopes ''vm'' demo_owner Active demo_attached None 10 never (None, True, demo_littered 0) =
     (Ok \<lparr>cl_scanned_objects = 2, cl_deleted_objects = 1, cl_complete = False, cl_next_after = Some (demo_digit (CHR ''7''))\<rparr>,
      Some demo_swept_mark, True, (demo_littered 1)\<lparr>sw_chunks := [((''vm'', demo_digit (CHR ''3'')), blank_page True 0)]\<rparr>)"
proof -
  define D3 D7 where D: "D3 = demo_digit (CHR ''3'')" "D7 = demo_digit (CHR ''7'')"
  have v: "valid_hash D3" "valid_hash D7" "valid_id ''vm''"
    by (simp_all add: D demo_digit_valid hex_char_iff demo_valid)
  have lt: "D3 < D7" unfolding D by code_simp
  have ne: "hex_pairs D7 \<noteq> hex_pairs D3" using hash_decode_inject [of D7 _ D3] v lt by (auto simp: hash_decode_def)
  define E where "E = sweep_env demo_roots"
  note hd = demo_littered_head(2) [folded E_def]
  have mark: "collect_mark E demo_envelopes ''vm'' demo_owner never \<lparr>h_revision = ''7'', h_manifest = [1]\<rparr> (None, True, demo_littered 0) =
      (Ok [hex_pairs D3], Some demo_swept_mark, True, demo_littered 1)"
    by (simp add: E_def D demo_swept_mark_def collect_mark_def make_mark_def get_self_def set_self_def io_bind_def lift_world_def io_return_def
        demo_littered_head(3) demo_references)
  have list: "os_list_chunks_after (ix_os E) ''vm'' None 10 (demo_littered 1) = (Ok [D3, D7], demo_littered 1)"
    by (simp add: E_def D sweep_env_def sweep_store_def sw_list_chunks_after_def demo_littered_def)
  have ok: "listing_ok None 10 [D3, D7]" using v lt by (simp add: listing_ok_def)
  have garbage: "collect_garbage never [hex_pairs D3] [D3, D7] [] s = (Ok [D7], s)" for s
    using v ne by (simp add: io_bind_def check_cancel_def never_def io_lift_def hash_decode_def io_return_def)
  have share: "worker_share 0 [D7] = [D7]" by (simp add: worker_share_def)
  have del: "os_delete_chunks (ix_os E) ''vm'' [D7] (demo_littered 1) = (Ok (), (demo_littered 1)\<lparr>sw_chunks := [((''vm'', D3), blank_page True 0)]\<rparr>)"
    using v lt
    by (simp add: E_def sweep_env_def sweep_store_def default_delete_chunks_def share io_bind_def io_return_def sw_delete_chunk_def bt_remove_def
        demo_littered_def D [symmetric])
  have st: "\<not> st_local_failed (log_status demo_attached)" "st_pending_bytes (log_status demo_attached) = 0"
    by (simp_all add: log_status_def demo_attached_def)
  have cc: "check_cancel never s = (Ok (), s)" for s :: 'z by (simp add: check_cancel_def never_def)
  have lis: "collect_listed E demo_envelopes ''vm'' demo_owner None 10 never \<lparr>h_revision = ''7'', h_manifest = [1]\<rparr> [hex_pairs D3] [D3, D7]
      (Some demo_swept_mark, True, demo_littered 1) =
     (Ok \<lparr>cl_scanned_objects = 2, cl_deleted_objects = 1, cl_complete = False, cl_next_after = Some D7\<rparr>,
      Some demo_swept_mark, True, (demo_littered 1)\<lparr>sw_chunks := [((''vm'', D3), blank_page True 0)]\<rparr>)"
    using ok by (simp add: collect_listed_def io_bind_def lift_world_def cc hd garbage del [unfolded One_nat_def] io_return_def numeral_2_eq_2 del: collect_garbage.simps)
  show ?thesis
    unfolding E_def [symmetric] D [symmetric] collect_offline_cached_def
    using st by (simp add: io_bind_def lift_world_def cc hd mark list [unfolded One_nat_def] lis [unfolded One_nat_def] io_lift_def ok_or_def)
qed

theorem collect_keeps_disk_witness:
  "collect_offline_cached (sweep_env demo_roots) demo_envelopes ''vm'' demo_owner Active demo_attached None 10 never (None, True, demo_littered 0) =
     (Ok \<lparr>cl_scanned_objects = 2, cl_deleted_objects = 1, cl_complete = False, cl_next_after = Some (demo_digit (CHR ''7''))\<rparr>,
      Some demo_swept_mark, True, (demo_littered 1)\<lparr>sw_chunks := [((''vm'', demo_digit (CHR ''3'')), blank_page True 0)]\<rparr>)
   \<and> xdisk (sw_view ((demo_littered 1)\<lparr>sw_chunks := [((''vm'', demo_digit (CHR ''3'')), blank_page True 0)]\<rparr>)) (\<lambda>_ _. None) demo_marked
     = xdisk (sw_view (demo_littered 0)) (\<lambda>_ _. None) demo_marked
   \<and> card (dom (sw_view ((demo_littered 1)\<lparr>sw_chunks := [((''vm'', demo_digit (CHR ''3'')), blank_page True 0)]\<rparr>) ''vm'')) + 1
     = card (dom (sw_view (demo_littered 0) ''vm''))"
proof -
  have "demo_digit (CHR ''3'') < demo_digit (CHR ''7'')" by code_simp
  then have ok: "sw_ok (demo_littered 0)" by (simp add: sw_ok_def demo_littered_def bt_ok_def)
  have quiet: "\<forall>t b t'. sw_ok t \<longrightarrow> never t = (b, t') \<longrightarrow> sw_ok t' \<and> bt_get (sw_heads t') = bt_get (sw_heads t) \<and> sw_view t' = sw_view t"
    by (simp add: never_def)
  have hd: "bt_get (sw_heads (demo_littered 0)) ''vm'' = Some \<lparr>h_revision = ''7'', h_manifest = [4]\<rparr>" by (simp add: demo_littered_def)
  have "holds_volume (sweep_env demo_roots) demo_envelopes (\<lambda>_ _. None) ''vm'' \<lparr>h_revision = ''7'', h_manifest = [4]\<rparr> demo_marked"
    by (simp add: holds_volume_def open_envelope_def MAX_MANIFEST_BYTES_def res_bind_def ok_or_def demo_envelopes_def demo_marked_def fresh_handle_def
        sweep_env_def demo_roots_def demo_root_def)
  then show ?thesis
    using collect_keeps_disk [OF demo_collected.collected_store_axioms ok demo_valid(1) quiet mark_ok_None demo_collect] hd demo_collect by auto
qed

end
