(* ===== verification/Spec2Isabelle.thy ===== *)
theory Spec2Isabelle
  imports Proto Dns Bandwidth Gateway Memory_Store Cache S3 Nbd Base_Catalog Reclaim Indexed_Ops Quotas Scheduler Replication Shared_Volume Collect
begin

text \<open>
  \<^bold>\<open>A verification library of agent-house\<close>, a platform that runs agents in micro virtual
  machines. The library models the Rust crates that carry its own logic and leaves out
  those that drive the kernel, other processes and third-party services.

  \<^bold>\<open>The parts and how they interact.\<close> A guest reaches its disk through a kernel NBD device.
  The NBD server (\<open>ahvm-volume/src/nbd.rs\<close>) turns requests into calls of a disk: a volume
  kept in an object store (\<open>lib.rs\<close>, one manifest; \<open>indexed.rs\<close>, a sparse table of pages and
  packs over an optional base image) or a local journal in front of an indexed volume
  (\<open>local.rs\<close>). The object store is an S3 service (\<open>s3.rs\<close>), usually behind a cache
  (\<open>cache.rs\<close>); an ownership record in the head of a volume admits one writing host at a time
  (\<open>owned.rs\<close>), and objects that no head refers to are reclaimed by a sweep (\<open>reclaim.rs\<close>) and
  by rewriting packs. The network of a guest goes through a user-space gateway
  (\<open>ahvm-netd\<close>). The host talks to the guest agent in framed messages (\<open>ahvm-proto\<close>). The
  daemon (\<open>ahvm-daemon\<close>) admits work of users against quotas and serialises the operations
  on one sandbox.

  \<^bold>\<open>Style of the model.\<close> Fallible code over a mutable world is a function of type
  \<open>('s, 'a, 'e) io\<close> of \<open>Prelude\<close>, from a state to a result and a state; methods with
  \<open>&mut self\<close> work on pairs of the handle and the world. \<open>post m Q F s\<close> says what holds
  when \<open>m\<close> returns and what holds when it fails; \<open>post_simps\<close> and the rules of \<open>Prelude\<close>
  decompose it. A \<open>BTreeMap\<close> is a sorted association list (\<open>BTree_Map\<close>, with its interface
  as the locale \<open>ordered_map\<close>). Offsets are natural numbers with the checked additions of
  the source at 64 bits; wire formats and packet addresses are words; the quota sums are
  integers with the wrap-around of \<open>i64\<close> written out. SHA-256, serde, the clock, the
  schedule of the upload threads, the HTTP service and the packet parsers are parameters,
  with what the code relies on as hypotheses.

  \<^bold>\<open>Theories and sources.\<close>
  \<^item> \<open>Proto\<close>: \<open>ahvm-proto/src/v2.rs\<close>, \<open>lib.rs\<close>. Frames over readers that return short
    counts and interruptions; reading refines an abstract decoder, writing and reading are
    inverse, and a payload of \<open>2 ^ 32\<close> bytes is framed wrongly.
  \<^item> \<open>Dns\<close>, \<open>Bandwidth\<close>, \<open>Gateway\<close>: \<open>ahvm-netd/src/dns.rs\<close>, \<open>bandwidth.rs\<close>, \<open>gateway.rs\<close>,
    \<open>wire.rs\<close>, \<open>icmp.rs\<close>. Question parsing, token buckets, frame validation, the destination
    policy (equal to a list of special blocks), admission of flows, the DNS table and the
    echo proxy.
  \<^item> \<open>Object_Store\<close>: the trait \<open>ObjectStore\<close> as a record of operations, its default methods,
    and its contract as the locale \<open>object_store_laws\<close>: objects are immutable and a head
    changes only by a conditional write. \<open>Memory_Store\<close> (\<open>tests.rs\<close>), \<open>S3\<close> and \<open>Cache\<close>
    interpret it; a cached store keeps the contract of the store it wraps.
  \<^item> \<open>Block_Io\<close>, \<open>Volume\<close>: the read and write loops over any block device (locale
    \<open>block_device\<close>) and \<open>ahvm-volume/src/lib.rs\<close>: reads and writes of the disk, durability
    and failure of a commit, no lost update, and consistency of any interleaving of
    clients.
  \<^item> \<open>Hash_Hex\<close>, \<open>Index_Page\<close>, \<open>Indexed\<close>, \<open>Workers\<close>, \<open>Indexed_Disk\<close>, \<open>Packed_Plan\<close>,
    \<open>Packed_Commit\<close>, \<open>Compaction\<close>, \<open>Indexed_S3\<close>, \<open>Indexed_Ops\<close>, \<open>Base_Catalog\<close>:
    \<open>indexed.rs\<close> and \<open>base.rs\<close>. \<open>Indexed\<close> holds every operation; the locale \<open>indexed_store\<close>
    collects what they need of a store, and \<open>Indexed_S3\<close> interprets it on the S3 store.
    The disk of a handle is defined by its pages, packs, base image and buffered blocks;
    \<open>Packed_Plan\<close> and \<open>Packed_Commit\<close> show that the pages and packs of a commit stand for the
    disk it was to store, \<open>Workers\<close> that this holds under every schedule of the threads.
  \<^item> \<open>Journal\<close>, \<open>Journal_Recovery\<close>, \<open>Journal_Ops\<close>, \<open>Local_Disk\<close>, \<open>Replication\<close>: \<open>local.rs\<close> over a
    directory whose files have contents and synced contents and whose calls fail where a list of
    faults says so. The invariant \<open>journaled\<close> relates the file to the state; reads and
    writes keep it, a crash keeps a prefix of the appended records, and opening replays it.
    Replication that succeeds leaves the remote volume with the blocks that were pending.
  \<^item> \<open>Owned\<close>, \<open>Ownership\<close>, \<open>Shared_Volume\<close>: \<open>owned.rs\<close>. The record, the owner's identity on disk,
    and claim, guard, publication, release, enrolment and retirement. \<open>Ownership\<close> names the
    stages of a volume and the moves of the protocol between them, and shows in the locale
    \<open>shared_head\<close> that every operation makes at most one such move, whatever the other hosts
    write between its calls. \<open>Shared_Volume\<close> builds that world from a store (locale
    \<open>tagged_store\<close>, interpreted on the S3 store) and concludes: one owner in each epoch, a host
    that lost the volume changes nothing any more, and a release ends the ownership.
  \<^item> \<open>Collect\<close>: the offline collection of an owned volume (\<open>owned.rs\<close>). In the locale
    \<open>collected_store\<close>, interpreted on the service of the reclamation tests, what a pass deletes
    is no object that the disk needs.
  \<^item> \<open>Nbd\<close>: \<open>nbd.rs\<close>. A session answers every request in order, and a flush that was
    answered without an error is durable.
  \<^item> \<open>Reclaim\<close>: \<open>reclaim.rs\<close>. A sweep deletes only what is retired and not live.
  \<^item> \<open>Quotas\<close>: \<open>ahvm-daemon/src/quotas.rs\<close> with the rows of \<open>ahvm-store\<close>. A step relation of
    the handlers; the locale \<open>quota_measure\<close> is interpreted for sandboxes, CPUs and memory.
  \<^item> \<open>Scheduler\<close>: \<open>ahvm-daemon/src/scheduler.rs\<close> and \<open>ahvm-volume/src/service/jobs.rs\<close> as
    step relations of interleaved tasks.

  \<^bold>\<open>Bounds and fuel.\<close> Every function is total: the loops of reads, writes, replay and frame
  parsing terminate by a measure on the bytes that are left, the upload pool by the steps
  of its schedule, after which each worker runs to its end. The pending blocks of a
  journal are at most 1024, so that a compacted journal and one more write stay below the
  limit of the log.

  \<^bold>\<open>What the code does other than meant.\<close> Four theorems show it: a frame of \<open>2 ^ 32\<close> bytes
  (\<open>oversized_payload_is_misframed\<close>), a reservation under the name of an existing sandbox
  (\<open>own_name_hold_understates\<close>), an entry of the lifecycle map that stays
  (\<open>lifecycle_entry_leaks\<close>) and a crash in the first open of a journal
  (\<open>first_open_crash_blocks\<close>).

  \<^bold>\<open>Not modelled.\<close> The relay between smoltcp and host sockets and the process set-up of
  \<open>ahvm-netd\<close>: sockets and system calls. The volume service (\<open>service/\<close>, but for the
  admission of jobs): kernel devices, mounts and child processes. The routes and
  background tasks of the daemon, and its byte rate (\<open>bandwidth.rs\<close>), which computes in
  floating point. \<open>ahvm-store\<close> beyond the rows that admission reads: SQL. \<open>ahvm-engine\<close>,
  \<open>ahvm-forge\<close>, \<open>ahvm-vmm\<close>, \<open>ahvm-cli\<close>, \<open>ahvm-worker-broker\<close>: process control, KVM and command
  lines. A crash may lose appended bytes but does not garble them.  Of \<open>owned.rs\<close> the
  reads and writes of \<open>OwnedDisk\<close>, which pass to the journal under file locks and a thread, its
  eviction of the journal and its export; the batched disk
  (\<open>batched.rs\<close>), which runs its commits on threads; the images of projects
  (\<open>project_images.rs\<close>), which call \<open>mkfs\<close> and \<open>mount\<close>.
\<close>

end
